(* ===== verification/Syn_Prelude.thy ===== *)
theory Syn_Prelude
  imports Main "HOL-Library.Word"
begin

text \<open>
  Shared vocabulary of the development: the fixed-width integers of the C sources, the
  status codes of \<^verbatim>\<open>common/syn_defs.h\<close>, the signed reading of tick differences, pointers as
  optional indices, and the generic list, option and word lemmas the component theories use.

  Conventions. A \<^verbatim>\<open>uintN_t\<close> is an \<open>N word\<close>, so its arithmetic wraps as in C. A \<^verbatim>\<open>size_t\<close> that
  only indexes an existing array is a \<open>nat\<close> (the array's length bounds it, so it cannot wrap);
  where a \<^verbatim>\<open>size_t\<close> computation can wrap it is a word. A struct is a \<^theory_text>\<open>record\<close>; an operation on
  \<^verbatim>\<open>T *x\<close> takes the record and returns the updated one. \<^verbatim>\<open>NULL\<close> is \<open>None\<close> wherever the
  code distinguishes it; an object pointer that the code asserts to be non-\<^verbatim>\<open>NULL\<close>
  (\<^verbatim>\<open>SYN_ASSERT\<close>, which does not return on failure) is the record itself. The port layer's
  clock \<^verbatim>\<open>syn_port_get_tick_ms()\<close> is an argument \<open>now\<close>, and a critical section is the
  atomicity of one operation of the model.
\<close>

unbundle bit_operations_syntax

type_synonym u8 = "8 word"
type_synonym u16 = "16 word"
type_synonym u32 = "32 word"
type_synonym u64 = "64 word"

type_synonym ptr = "nat option"

named_theorems syn_defs \<open>unfolding of the operations of a component\<close>
named_theorems tick_simps \<open>rewriting tick comparisons to distances\<close>

datatype SYN_Status =
    SYN_OK
  | SYN_ERROR
  | SYN_BUSY
  | SYN_TIMEOUT
  | SYN_INVALID_PARAM
  | SYN_NOT_IMPLEMENTED
  | SYN_NOT_FOUND

lemma mod_sum_eq_0:
  fixes a b n :: nat
  assumes "0 < a" "a < n" "b < n" "(a + b) mod n = 0"
  shows "b = n - a"
proof (cases "a + b < n")
  case False
  then have "(a + b) mod n = (a + b - n) mod n" by (intro le_mod_geq) simp
  also have "\<dots> = a + b - n" using assms by (intro mod_less) linarith
  finally show ?thesis using assms False by linarith
qed (use assms in simp)

lemma mod_once: "x < 2 * n \<Longrightarrow> x mod n = (if x < n then x else x - n)" for n :: nat
  by (simp add: le_mod_geq)

subsection \<open>Tick arithmetic\<close>

text \<open>
  The clock is a free-running 32-bit counter. The code orders ticks by the sign of their
  difference, \<^verbatim>\<open>(int32_t)(now - target) >= 0\<close>.
\<close>

definition tick_reached :: "u32 \<Rightarrow> u32 \<Rightarrow> bool" where
  "tick_reached now target \<longleftrightarrow> 0 \<le> sint (now - target)"

definition tick_before :: "u32 \<Rightarrow> u32 \<Rightarrow> bool" where
  "tick_before a b \<longleftrightarrow> sint (a - b) < 0"

text \<open>How far tick \<open>t\<close> lies ahead of \<open>now\<close>, going around the counter.\<close>

definition tick_dist :: "u32 \<Rightarrow> u32 \<Rightarrow> nat" where
  "tick_dist now t = unat (t - now)"

lemma sint_nonneg_iff_32 [tick_simps]: "0 \<le> sint (w :: u32) \<longleftrightarrow> unat w < 2 ^ 31"
proof -
  have "0 \<le> sint w \<longleftrightarrow> \<not> bit (uint w) 31"
    by (simp add: sint_uint)
  also have "\<dots> \<longleftrightarrow> \<not> odd (uint w div 2147483648)"
    by (simp add: bit_iff_odd)
  also have "\<dots> \<longleftrightarrow> uint w < 2147483648"
  proof -
    have b: "0 \<le> uint w" "uint w < 4294967296" using uint_lt2p [of w] by simp_all
    show ?thesis
    proof (cases "uint w < 2147483648")
      case False
      with b have "uint w div 2147483648 = 1"
        by (intro int_div_pos_eq [where r = "uint w - 2147483648"]) simp_all
      with False show ?thesis by simp
    qed (use b in simp)
  qed
  also have "\<dots> \<longleftrightarrow> int (unat w) < int (2 ^ 31)" by simp
  finally show ?thesis by (simp only: of_nat_less_iff)
qed

lemma sint_neg_iff_32 [tick_simps]: "sint (w :: u32) < 0 \<longleftrightarrow> 2 ^ 31 \<le> unat w"
  using sint_nonneg_iff_32 [of w] by linarith

lemma tick_reached_dist [tick_simps]: "tick_reached now t \<longleftrightarrow> tick_dist t now < 2 ^ 31"
  by (simp add: tick_reached_def tick_dist_def sint_nonneg_iff_32)

lemma tick_before_dist [tick_simps]: "tick_before a b \<longleftrightarrow> 2 ^ 31 \<le> tick_dist b a"
  by (simp add: tick_before_def tick_dist_def sint_neg_iff_32)

lemma tick_before_not_reached: "tick_before now t \<longleftrightarrow> \<not> tick_reached now t"
  by (simp add: tick_simps not_less)

lemma tick_dist_less [simp]: "tick_dist a b < 2 ^ 32"
  using unsigned_less [of "b - a"] by (simp add: tick_dist_def)

lemma tick_dist_self [simp]: "tick_dist a a = 0"
  by (simp add: tick_dist_def)

lemma tick_dist_eq_0 [simp]: "tick_dist a b = 0 \<longleftrightarrow> a = b"
  by (auto simp: tick_dist_def unat_eq_0)

text \<open>Distances from a common origin add up, modulo the counter.\<close>

lemma tick_dist_split: "tick_dist a c = (tick_dist a b + tick_dist b c) mod 2 ^ 32"
proof -
  have "c - a = (b - a) + (c - b)" by simp
  then have "unat (c - a) = unat ((b - a) + (c - b))" by simp
  also have "\<dots> = (unat (b - a) + unat (c - b)) mod 2 ^ 32"
    by (simp only: unat_word_ariths) simp
  finally show ?thesis by (simp add: tick_dist_def)
qed

lemma tick_dist_swap: "a \<noteq> b \<Longrightarrow> tick_dist b a = 2 ^ 32 - tick_dist a b"
proof (rule mod_sum_eq_0)
  assume "a \<noteq> b"
  then show "0 < tick_dist a b" by (metis tick_dist_eq_0 gr0I)
  show "(tick_dist a b + tick_dist b a) mod 2 ^ 32 = 0"
    using tick_dist_split [of a a b] by simp
qed (rule tick_dist_less)+

lemma mod_sum_diff:
  fixes D X N e :: nat
  assumes "X < N" "D < N" "e = (D + X) mod N"
  shows "X = (if D \<le> e then e - D else N + e - D)"
proof -
  have "D + X < 2 * N" using assms by simp
  from mod_once [OF this] show ?thesis using assms by (simp split: if_splits)
qed

lemma tick_dist_add: "e < 2 ^ 32 \<Longrightarrow> tick_dist now (now + of_nat e) = e"
  by (simp add: tick_dist_def unat_of_nat)

text \<open>A deadline at most half the counter ahead is reached exactly when its distance has elapsed.\<close>

lemma tick_reached_after:
  assumes "tick_dist now d \<le> 2 ^ 31" "e < 2 ^ 31"
  shows "tick_reached (now + of_nat e) d \<longleftrightarrow> tick_dist now d \<le> e"
proof -
  let ?t = "now + of_nat e"
  have "e = (tick_dist now d + tick_dist d ?t) mod 2 ^ 32"
    using tick_dist_split [of now ?t d] tick_dist_add [of e now] assms(2) by simp
  from mod_sum_diff [OF tick_dist_less tick_dist_less this]
  show ?thesis using assms by (auto simp: tick_simps)
qed

subsection \<open>Masks\<close>

lemma and_FF: "(w :: u32) AND 0xFF = take_bit 8 w"
  by (simp add: take_bit_eq_mask mask_eq_exp_minus_1)

subsection \<open>Block copies\<close>

lemma and_255: "x AND 0xFF = take_bit 8 x" for x :: "'a::len word"
  by (simp add: take_bit_eq_mask mask_eq_exp_minus_1)

text \<open>\<^verbatim>\<open>memcpy(&dst[at], src, n)\<close> within the bounds of the destination.\<close>

definition copy_into :: "'a list \<Rightarrow> nat \<Rightarrow> 'a list \<Rightarrow> 'a list" where
  "copy_into dst at src = take at dst @ src @ drop (at + length src) dst"

lemma length_copy_into [simp]: "at + length src \<le> length dst \<Longrightarrow> length (copy_into dst at src) = length dst"
  by (simp add: copy_into_def)

lemma nth_copy_into:
  assumes "at + length src \<le> length dst" "j < length dst"
  shows "copy_into dst at src ! j = (if at \<le> j \<and> j < at + length src then src ! (j - at) else dst ! j)"
  using assms by (auto simp: copy_into_def nth_append min_def)

end
