(* ===== verification/Syn_Fifo.thy ===== *)
theory Syn_Fifo
  imports Syn_Prelude
begin

text \<open>
  What the byte ring buffer, the SPSC queue and the mailbox share. The first part is the
  circular-index arithmetic of a ring with one slot kept free: the elements from index \<open>t\<close> up
  to (not including) index \<open>h\<close>, read around the end of the backing array. The second part is
  their common contract, the locale \<open>bounded_fifo\<close>: an insertion either appends or is
  refused because the queue holds its capacity, a removal takes the oldest element. The
  consequence proved once there, for any interleaving of insertions and removals: nothing is
  lost, duplicated or reordered.
\<close>

subsection \<open>Circular indices\<close>

definition ring_next :: "nat \<Rightarrow> nat \<Rightarrow> nat" where
  "ring_next n i = (if i + 1 \<ge> n then 0 else i + 1)"

definition ring_count :: "nat \<Rightarrow> nat \<Rightarrow> nat \<Rightarrow> nat" where
  "ring_count n h t = (if h \<ge> t then h - t else n - t + h)"

definition ring_list :: "'a list \<Rightarrow> nat \<Rightarrow> nat \<Rightarrow> nat \<Rightarrow> 'a list" where
  "ring_list b n h t = map (\<lambda>i. b ! ((t + i) mod n)) [0..<ring_count n h t]"

lemma ring_next_mod: "i < n \<Longrightarrow> ring_next n i = (i + 1) mod n"
  by (cases "i + 1 = n") (simp_all add: ring_next_def)

lemma ring_next_less [simp]: "0 < n \<Longrightarrow> ring_next n i < n"
  by (simp add: ring_next_def)

lemma ring_count_less: "h < n \<Longrightarrow> t < n \<Longrightarrow> ring_count n h t < n"
  by (auto simp: ring_count_def)

lemma length_ring_list [simp]: "length (ring_list b n h t) = ring_count n h t"
  by (simp add: ring_list_def)

lemma ring_count_0_iff: "h < n \<Longrightarrow> t < n \<Longrightarrow> ring_count n h t = 0 \<longleftrightarrow> h = t"
  by (auto simp: ring_count_def)

lemma ring_full_iff: "h < n \<Longrightarrow> t < n \<Longrightarrow> ring_next n h = t \<longleftrightarrow> ring_count n h t = n - 1"
  by (auto simp: ring_count_def ring_next_def)

text \<open>The head sits \<open>ring_count\<close> slots after the tail.\<close>

lemma ring_head_eq: "h < n \<Longrightarrow> t < n \<Longrightarrow> (t + ring_count n h t) mod n = h"
  by (auto simp: ring_count_def mod_once)

lemma ring_count_add:
  assumes "h < n" "t < n" "ring_count n h t + k < n"
  shows "ring_count n ((h + k) mod n) t = ring_count n h t + k"
  using assms by (auto simp: ring_count_def mod_once split: if_splits)

lemma ring_count_advance_tail:
  assumes "h < n" "t < n" "k \<le> ring_count n h t"
  shows "ring_count n h ((t + k) mod n) = ring_count n h t - k"
  using assms by (auto simp: ring_count_def mod_once split: if_splits)

lemma ring_slot_neq_head:
  assumes "h < n" "t < n" "i < ring_count n h t"
  shows "(t + i) mod n \<noteq> h"
  using assms by (auto simp: ring_count_def mod_once split: if_splits)

lemma ring_slot_inj:
  assumes "t < n" "i < n" "j < n" "(t + i) mod n = (t + j) mod n"
  shows "i = (j :: nat)"
  using assms by (auto simp: mod_once split: if_splits)

text \<open>Storing at the head and advancing it appends; advancing the tail drops the front.\<close>

lemma ring_list_put:
  assumes "length b = n" "h < n" "t < n" "ring_next n h \<noteq> t"
  shows "ring_list (b[h := x]) n (ring_next n h) t = ring_list b n h t @ [x]"
proof -
  let ?c = "ring_count n h t"
  have room: "?c + 1 < n"
    using assms ring_full_iff [of h n t] ring_count_less [of h n t] by simp
  have c: "ring_count n (ring_next n h) t = ?c + 1"
    using ring_count_add [of h n t 1] assms room by (simp add: ring_next_mod)
  have last: "(b[h := x]) ! ((t + ?c) mod n) = x"
    using assms by (simp add: ring_head_eq)
  have front: "map (\<lambda>i. (b[h := x]) ! ((t + i) mod n)) [0..<?c] = ring_list b n h t"
    unfolding ring_list_def
    by (rule map_cong) (use assms ring_slot_neq_head in \<open>auto simp: nth_list_update\<close>)
  show ?thesis using front last by (simp add: ring_list_def c)
qed

lemma ring_list_get:
  assumes "h < n" "t < n" "h \<noteq> t"
  shows "ring_list b n h t = b ! t # ring_list b n h (ring_next n t)"
proof -
  let ?c = "ring_count n h t"
  have pos: "0 < ?c" using assms ring_count_0_iff by (metis gr0I)
  have c: "ring_count n h (ring_next n t) = ?c - 1"
    using ring_count_advance_tail [of h n t 1] assms pos by (simp add: ring_next_mod)
  have "[0..<?c] = 0 # map Suc [0..<?c - 1]"
    using pos by (simp add: map_Suc_upt upt_conv_Cons)
  then have "ring_list b n h t = b ! t # map (\<lambda>i. b ! ((t + Suc i) mod n)) [0..<?c - 1]"
    using assms by (simp add: ring_list_def)
  also have "map (\<lambda>i. b ! ((t + Suc i) mod n)) [0..<?c - 1] = ring_list b n h (ring_next n t)"
    using assms unfolding ring_list_def c by (simp add: ring_next_mod mod_simps)
  finally show ?thesis .
qed

lemma ring_list_drop:
  assumes "h < n" "t < n" "k \<le> ring_count n h t"
  shows "ring_list b n h ((t + k) mod n) = drop k (ring_list b n h t)"
proof -
  have c: "ring_count n h ((t + k) mod n) = ring_count n h t - k"
    using assms by (rule ring_count_advance_tail)
  have "[0..<ring_count n h t] ! (k + i) = k + i" if "i < ring_count n h t - k" for i
    using that by (subst nth_upt) simp_all
  then show ?thesis
    using assms by (intro nth_equalityI) (simp_all add: c ring_list_def mod_simps add.assoc)
qed

text \<open>A block store: the slots from the head on hold \<open>xs\<close>, every other slot is unchanged.\<close>

lemma ring_list_append:
  assumes "h < n" "t < n" "ring_count n h t + length xs < n"
    and new: "\<And>k. k < length xs \<Longrightarrow> b' ! ((h + k) mod n) = xs ! k"
    and old: "\<And>j. j < n \<Longrightarrow> (\<And>k. k < length xs \<Longrightarrow> j \<noteq> (h + k) mod n) \<Longrightarrow> b' ! j = b ! j"
  shows "ring_list b' n ((h + length xs) mod n) t = ring_list b n h t @ xs"
proof -
  let ?c = "ring_count n h t"
  have c: "ring_count n ((h + length xs) mod n) t = ?c + length xs"
    using assms(1-3) by (rule ring_count_add)
  have head: "(t + (?c + k)) mod n = (h + k) mod n" for k
  proof -
    have "(t + (?c + k)) mod n = ((t + ?c) mod n + k) mod n" by (simp add: mod_simps add.assoc)
    then show ?thesis using assms(1,2) by (simp add: ring_head_eq)
  qed
  have front: "b' ! ((t + i) mod n) = b ! ((t + i) mod n)" if i: "i < ?c" for i
  proof (rule old)
    show "(t + i) mod n < n" using assms(1) by simp
    fix k assume k: "k < length xs"
    show "(t + i) mod n \<noteq> (h + k) mod n"
    proof
      assume "(t + i) mod n = (h + k) mod n"
      then have eq: "(t + i) mod n = (t + (?c + k)) mod n" by (simp only: head)
      have "i < n" "?c + k < n" using assms(3) i k by simp_all
      from ring_slot_inj [OF assms(2) this eq] have "i = ?c + k" .
      with i show False by simp
    qed
  qed
  have split: "[0..<?c + length xs] = [0..<?c] @ map (\<lambda>k. ?c + k) [0..<length xs]"
    by (rule nth_equalityI) (auto simp: nth_append)
  have "map (\<lambda>k. b' ! ((h + k) mod n)) [0..<length xs] = xs"
    by (rule nth_equalityI) (simp_all add: new)
  then show ?thesis
    unfolding ring_list_def c split by (simp add: comp_def head front)
qed

lemma ring_list_take_nth:
  assumes "k \<le> ring_count n h t" "length xs = k" "\<And>i. i < k \<Longrightarrow> xs ! i = b ! ((t + i) mod n)"
  shows "xs = take k (ring_list b n h t)"
  using assms by (intro nth_equalityI) (simp_all add: ring_list_def)

subsection \<open>The contract of a bounded FIFO\<close>

datatype 'a fifo_op = Enq 'a | Deq

text \<open>
  A run of insertions and removals, in any order: the elements accepted, the elements
  delivered, and the queue afterwards.
\<close>

fun fifo_run :: "('a \<Rightarrow> 'q \<Rightarrow> bool \<times> 'q) \<Rightarrow> ('q \<Rightarrow> 'a option \<times> 'q) \<Rightarrow> 'a fifo_op list \<Rightarrow> 'q
    \<Rightarrow> 'a list \<times> 'a list \<times> 'q" where
  "fifo_run enq deq [] q = ([], [], q)"
| "fifo_run enq deq (Enq x # ops) q =
     (let (ok, q1) = enq x q; (acc, del, q2) = fifo_run enq deq ops q1
      in (if ok then x # acc else acc, del, q2))"
| "fifo_run enq deq (Deq # ops) q =
     (let (r, q1) = deq q; (acc, del, q2) = fifo_run enq deq ops q1
      in (acc, (case r of None \<Rightarrow> del | Some x \<Rightarrow> x # del), q2))"

locale bounded_fifo =
  fixes invar :: "'q \<Rightarrow> bool"
    and contents :: "'q \<Rightarrow> 'a list"
    and cap :: "'q \<Rightarrow> nat"
    and enq :: "'a \<Rightarrow> 'q \<Rightarrow> bool \<times> 'q"
    and deq :: "'q \<Rightarrow> 'a option \<times> 'q"
  assumes contents_bound: "invar q \<Longrightarrow> length (contents q) \<le> cap q"
    and enq_room: "invar q \<Longrightarrow> length (contents q) < cap q \<Longrightarrow> enq x q = (ok, q') \<Longrightarrow>
      ok \<and> contents q' = contents q @ [x]"
    and enq_full: "invar q \<Longrightarrow> length (contents q) = cap q \<Longrightarrow> enq x q = (ok, q') \<Longrightarrow>
      \<not> ok \<and> contents q' = contents q"
    and enq_keeps: "invar q \<Longrightarrow> enq x q = (ok, q') \<Longrightarrow> invar q' \<and> cap q' = cap q"
    and deq_takes: "invar q \<Longrightarrow> deq q = (r, q') \<Longrightarrow>
      (case contents q of [] \<Rightarrow> r = None \<and> contents q' = []
       | y # ys \<Rightarrow> r = Some y \<and> contents q' = ys)"
    and deq_keeps: "invar q \<Longrightarrow> deq q = (r, q') \<Longrightarrow> invar q' \<and> cap q' = cap q"
begin

lemma enq_cases:
  assumes "invar q" "enq x q = (ok, q')"
  shows "ok \<longleftrightarrow> length (contents q) < cap q"
    and "contents q' = (if ok then contents q @ [x] else contents q)"
proof -
  have "length (contents q) < cap q \<or> length (contents q) = cap q"
    using contents_bound [OF assms(1)] by auto
  then show "ok \<longleftrightarrow> length (contents q) < cap q"
    and "contents q' = (if ok then contents q @ [x] else contents q)"
    using enq_room [OF assms(1) _ assms(2)] enq_full [OF assms(1) _ assms(2)] by auto
qed

lemma run_keeps: "invar q \<Longrightarrow> fifo_run enq deq ops q = (acc, del, q') \<Longrightarrow> invar q' \<and> cap q' = cap q"
proof (induction ops arbitrary: q acc del q')
  case (Cons op ops)
  show ?case
  proof (cases op)
    case (Enq x)
    obtain ok q1 where e: "enq x q = (ok, q1)" by fastforce
    obtain a d q2 where r: "fifo_run enq deq ops q1 = (a, d, q2)" by (metis prod_cases3)
    show ?thesis using Cons.prems Cons.IH [OF _ r] enq_keeps [OF _ e] by (simp add: Enq e r)
  next
    case Deq
    obtain v q1 where e: "deq q = (v, q1)" by fastforce
    obtain a d q2 where r: "fifo_run enq deq ops q1 = (a, d, q2)" by (metis prod_cases3)
    show ?thesis using Cons.prems Cons.IH [OF _ r] deq_keeps [OF _ e] by (simp add: Deq e r)
  qed
qed simp

text \<open>Nothing is lost, duplicated or reordered.\<close>

lemma run_fifo:
  "invar q \<Longrightarrow> fifo_run enq deq ops q = (acc, del, q') \<Longrightarrow> contents q @ acc = del @ contents q'"
proof (induction ops arbitrary: q acc del q')
  case (Cons op ops)
  show ?case
  proof (cases op)
    case (Enq x)
    obtain ok q1 where e: "enq x q = (ok, q1)" by fastforce
    obtain a d q2 where r: "fifo_run enq deq ops q1 = (a, d, q2)" by (metis prod_cases3)
    have "contents q1 @ a = d @ contents q2"
      using Cons.IH [OF _ r] enq_keeps [OF Cons.prems(1) e] by simp
    then show ?thesis using Cons.prems enq_cases(2) [OF Cons.prems(1) e]
      by (auto simp: Enq e r split: if_splits)
  next
    case Deq
    obtain v q1 where e: "deq q = (v, q1)" by fastforce
    obtain a d q2 where r: "fifo_run enq deq ops q1 = (a, d, q2)" by (metis prod_cases3)
    have "contents q1 @ a = d @ contents q2"
      using Cons.IH [OF _ r] deq_keeps [OF Cons.prems(1) e] by simp
    then show ?thesis using Cons.prems deq_takes [OF Cons.prems(1) e]
      by (auto simp: Deq e r split: list.splits)
  qed
qed simp

lemma run_length_bound:
  assumes "invar q" "fifo_run enq deq ops q = (acc, del, q')"
  shows "length (contents q) + length acc \<le> length del + cap q"
proof -
  have "length (contents q @ acc) = length (del @ contents q')"
    by (simp only: run_fifo [OF assms])
  moreover have "length (contents q') \<le> cap q"
    using run_keeps [OF assms] contents_bound by metis
  ultimately show ?thesis by simp
qed

end

end
