(* ===== verification/Syn_Ringbuf.thy ===== *)
theory Syn_Ringbuf
  imports Syn_Fifo
begin

text \<open>
  The byte ring buffer of \<^verbatim>\<open>util/syn_ringbuf.h\<close> and \<^verbatim>\<open>util/syn_ringbuf.c\<close>: single-byte put, get and
  peek, the fill-level queries, and the block transfers \<^verbatim>\<open>write\<close>, \<^verbatim>\<open>read\<close> and \<^verbatim>\<open>peek_n\<close>, which
  copy in at most two pieces around the end of the backing array. The block transfers are
  shown to be what the same number of single-byte operations would do to the abstract byte
  queue. An out-parameter \<^verbatim>\<open>uint8_t *byte\<close> is an optional result; the caller's buffer of \<^verbatim>\<open>read\<close>
  is the list of the bytes written to it.
\<close>

record syn_ringbuf =
  rb_buf :: "u8 list option"
  rb_size :: nat
  rb_head :: nat
  rb_tail :: nat

definition advance :: "nat \<Rightarrow> nat \<Rightarrow> nat" where
  "advance idx sz = (let next = idx + 1 in if next \<ge> sz then 0 else next)"

definition syn_ringbuf_init :: "syn_ringbuf \<Rightarrow> u8 list option \<Rightarrow> nat \<Rightarrow> syn_ringbuf" where
  "syn_ringbuf_init rb buf sz =
     (if buf = None \<or> sz \<le> 1 then rb
      else rb\<lparr>rb_buf := buf, rb_size := sz, rb_head := 0, rb_tail := 0\<rparr>)"

definition syn_ringbuf_reset :: "syn_ringbuf \<Rightarrow> syn_ringbuf" where
  "syn_ringbuf_reset rb = rb\<lparr>rb_head := 0, rb_tail := 0\<rparr>"

definition syn_ringbuf_put :: "syn_ringbuf \<Rightarrow> u8 \<Rightarrow> bool \<times> syn_ringbuf" where
  "syn_ringbuf_put rb byte =
     (case rb_buf rb of
        None \<Rightarrow> (False, rb)
      | Some b \<Rightarrow>
          if rb_size rb \<le> 1 then (False, rb)
          else
            let head = rb_head rb; tail = rb_tail rb; next_head = advance head (rb_size rb)
            in if next_head = tail then (False, rb)
               else (True, rb\<lparr>rb_buf := Some (b[head := byte]), rb_head := next_head\<rparr>))"

definition syn_ringbuf_get :: "syn_ringbuf \<Rightarrow> u8 option \<times> syn_ringbuf" where
  "syn_ringbuf_get rb =
     (case rb_buf rb of
        None \<Rightarrow> (None, rb)
      | Some b \<Rightarrow>
          if rb_size rb \<le> 1 then (None, rb)
          else
            let head = rb_head rb; tail = rb_tail rb
            in if head = tail then (None, rb)
               else (Some (b ! tail), rb\<lparr>rb_tail := advance tail (rb_size rb)\<rparr>))"

definition syn_ringbuf_peek :: "syn_ringbuf \<Rightarrow> u8 option" where
  "syn_ringbuf_peek rb =
     (case rb_buf rb of
        None \<Rightarrow> None
      | Some b \<Rightarrow>
          if rb_size rb \<le> 1 then None
          else if rb_head rb = rb_tail rb then None else Some (b ! rb_tail rb))"

definition syn_ringbuf_full :: "syn_ringbuf \<Rightarrow> bool" where
  "syn_ringbuf_full rb =
     (if rb_size rb \<le> 1 then False else advance (rb_head rb) (rb_size rb) = rb_tail rb)"

definition syn_ringbuf_empty :: "syn_ringbuf \<Rightarrow> bool" where
  "syn_ringbuf_empty rb = (rb_head rb = rb_tail rb)"

definition syn_ringbuf_count :: "syn_ringbuf \<Rightarrow> nat" where
  "syn_ringbuf_count rb =
     (if rb_size rb \<le> 1 then 0
      else
        let h = rb_head rb; t = rb_tail rb
        in if h \<ge> t then h - t else rb_size rb - t + h)"

definition syn_ringbuf_free :: "syn_ringbuf \<Rightarrow> nat" where
  "syn_ringbuf_free rb =
     (if rb_size rb \<le> 1 then 0 else (rb_size rb - 1) - syn_ringbuf_count rb)"

definition syn_ringbuf_write :: "syn_ringbuf \<Rightarrow> u8 list \<Rightarrow> nat \<times> syn_ringbuf" where
  "syn_ringbuf_write rb data =
     (let avail = syn_ringbuf_free rb;
          len = (if length data > avail then avail else length data)
      in if len = 0 then (0, rb)
         else
           let head = rb_head rb;
               to_end = rb_size rb - head;
               b = the (rb_buf rb);
               b' = (if len \<le> to_end then copy_into b head (take len data)
                     else copy_into (copy_into b head (take to_end data)) 0
                            (take (len - to_end) (drop to_end data)));
               new_head = head + len
           in (len, rb\<lparr>rb_buf := Some b',
                       rb_head := (if new_head \<ge> rb_size rb then new_head - rb_size rb
                                   else new_head)\<rparr>))"

definition syn_ringbuf_peek_n :: "syn_ringbuf \<Rightarrow> nat \<Rightarrow> u8 list" where
  "syn_ringbuf_peek_n rb len0 =
     (let avail = syn_ringbuf_count rb;
          len = (if len0 > avail then avail else len0)
      in if len = 0 then []
         else
           let tail = rb_tail rb;
               to_end = rb_size rb - tail;
               b = the (rb_buf rb)
           in if len \<le> to_end then take len (drop tail b)
              else take to_end (drop tail b) @ take (len - to_end) b)"

definition syn_ringbuf_read :: "syn_ringbuf \<Rightarrow> nat \<Rightarrow> u8 list \<times> syn_ringbuf" where
  "syn_ringbuf_read rb len =
     (let data = syn_ringbuf_peek_n rb len;
          peeked = length data
      in if peeked > 0
         then
           let new_tail = rb_tail rb + peeked
           in (data, rb\<lparr>rb_tail := (if new_tail \<ge> rb_size rb then new_tail - rb_size rb
                                    else new_tail)\<rparr>)
         else (data, rb))"

subsection \<open>Well-formed buffers and the byte queue they represent\<close>

definition rb_wf :: "syn_ringbuf \<Rightarrow> bool" where
  "rb_wf rb \<longleftrightarrow> 1 < rb_size rb \<and> rb_head rb < rb_size rb \<and> rb_tail rb < rb_size rb
     \<and> (\<exists>b. rb_buf rb = Some b \<and> length b = rb_size rb)"

definition rb_contents :: "syn_ringbuf \<Rightarrow> u8 list" where
  "rb_contents rb = ring_list (the (rb_buf rb)) (rb_size rb) (rb_head rb) (rb_tail rb)"

lemmas ringbuf_ops [syn_defs] =
  syn_ringbuf_put_def syn_ringbuf_get_def syn_ringbuf_peek_def syn_ringbuf_full_def
  syn_ringbuf_empty_def syn_ringbuf_count_def syn_ringbuf_free_def

lemma advance_ring_next: "advance i n = ring_next n i"
  by (simp add: advance_def ring_next_def Let_def)

lemma rb_wfE:
  assumes "rb_wf rb"
  obtains b where "rb_buf rb = Some b" "length b = rb_size rb" "1 < rb_size rb"
    "rb_head rb < rb_size rb" "rb_tail rb < rb_size rb"
  using assms by (auto simp: rb_wf_def)

lemma rb_count_contents: "rb_wf rb \<Longrightarrow> syn_ringbuf_count rb = length (rb_contents rb)"
  by (auto simp: rb_contents_def syn_ringbuf_count_def ring_count_def Let_def elim: rb_wfE)

lemma rb_length_less: "rb_wf rb \<Longrightarrow> length (rb_contents rb) < rb_size rb"
  by (auto simp: rb_contents_def ring_count_less elim: rb_wfE)

lemma rb_full_contents: "rb_wf rb \<Longrightarrow> syn_ringbuf_full rb \<longleftrightarrow> length (rb_contents rb) = rb_size rb - 1"
  by (erule rb_wfE) (simp add: rb_contents_def syn_ringbuf_full_def advance_ring_next ring_full_iff)

lemma rb_empty_contents: "rb_wf rb \<Longrightarrow> syn_ringbuf_empty rb \<longleftrightarrow> rb_contents rb = []"
  using ring_count_0_iff [of "rb_head rb" "rb_size rb" "rb_tail rb"]
  by (auto simp: rb_contents_def syn_ringbuf_empty_def rb_wf_def simp flip: length_0_conv)

lemma rb_free_contents: "rb_wf rb \<Longrightarrow> syn_ringbuf_free rb = rb_size rb - 1 - length (rb_contents rb)"
  by (auto simp: syn_ringbuf_free_def rb_count_contents elim: rb_wfE)

lemma rb_init_wf:
  assumes "1 < n" "length b = n"
  shows "rb_wf (syn_ringbuf_init rb (Some b) n)" "rb_contents (syn_ringbuf_init rb (Some b) n) = []"
  using assms by (auto simp: syn_ringbuf_init_def rb_wf_def rb_contents_def ring_list_def ring_count_def)

lemma rb_put_contents:
  assumes wf: "rb_wf rb" and put: "syn_ringbuf_put rb x = (ok, rb')"
  shows "rb_wf rb' \<and> rb_size rb' = rb_size rb"
    and "ok \<longleftrightarrow> length (rb_contents rb) \<noteq> rb_size rb - 1"
    and "rb_contents rb' = (if ok then rb_contents rb @ [x] else rb_contents rb)"
proof -
  obtain b where b: "rb_buf rb = Some b" "length b = rb_size rb" "1 < rb_size rb"
    "rb_head rb < rb_size rb" "rb_tail rb < rb_size rb" using wf by (rule rb_wfE)
  have c: "length (rb_contents rb) \<noteq> rb_size rb - 1 \<longleftrightarrow> ring_next (rb_size rb) (rb_head rb) \<noteq> rb_tail rb"
    using b by (simp add: rb_contents_def ring_full_iff)
  show "rb_wf rb' \<and> rb_size rb' = rb_size rb"
    and "ok \<longleftrightarrow> length (rb_contents rb) \<noteq> rb_size rb - 1"
    and "rb_contents rb' = (if ok then rb_contents rb @ [x] else rb_contents rb)"
    unfolding c using put b
    by (auto simp: syn_ringbuf_put_def advance_ring_next rb_wf_def rb_contents_def ring_list_put
        Let_def split: if_splits)
qed

lemma rb_get_contents:
  assumes wf: "rb_wf rb" and get: "syn_ringbuf_get rb = (r, rb')"
  shows "rb_wf rb' \<and> rb_size rb' = rb_size rb"
    and "case rb_contents rb of [] \<Rightarrow> r = None \<and> rb_contents rb' = []
         | y # ys \<Rightarrow> r = Some y \<and> rb_contents rb' = ys"
proof -
  obtain b where b: "rb_buf rb = Some b" "length b = rb_size rb" "1 < rb_size rb"
    "rb_head rb < rb_size rb" "rb_tail rb < rb_size rb" using wf by (rule rb_wfE)
  show "rb_wf rb' \<and> rb_size rb' = rb_size rb" using get b
    by (auto simp: syn_ringbuf_get_def advance_ring_next rb_wf_def Let_def split: if_splits)
  show "case rb_contents rb of [] \<Rightarrow> r = None \<and> rb_contents rb' = []
        | y # ys \<Rightarrow> r = Some y \<and> rb_contents rb' = ys"
  proof (cases "rb_head rb = rb_tail rb")
    case True
    then show ?thesis using get b
      by (simp add: syn_ringbuf_get_def rb_contents_def ring_list_def ring_count_def)
  next
    case False
    with b have "rb_contents rb = b ! rb_tail rb
        # ring_list b (rb_size rb) (rb_head rb) (ring_next (rb_size rb) (rb_tail rb))"
      by (simp add: rb_contents_def ring_list_get)
    then show ?thesis using get b False
      by (auto simp: syn_ringbuf_get_def advance_ring_next rb_contents_def Let_def)
  qed
qed

interpretation ringbuf_fifo: bounded_fifo rb_wf rb_contents "\<lambda>rb. rb_size rb - 1"
    "\<lambda>x rb. syn_ringbuf_put rb x" syn_ringbuf_get
proof (unfold_locales, goal_cases)
  case (1 q) then show ?case using rb_length_less [of q] by simp
next
  case (2 q x ok q') then show ?case using rb_put_contents [OF 2(1) 2(3)] by simp
next
  case (3 q x ok q') then show ?case using rb_put_contents [OF 3(1) 3(3)] by simp
next
  case (4 q x ok q') then show ?case using rb_put_contents(1) [OF 4] by simp
next
  case (5 q r q') then show ?case using rb_get_contents(2) [OF 5] by simp
next
  case (6 q r q') then show ?case using rb_get_contents(1) [OF 6] by simp
qed

subsection \<open>Block transfers\<close>

text \<open>The two-piece copy stores the block at the consecutive circular slots and nowhere else.\<close>

lemma wrap_copy:
  fixes b xs :: "'a list" and h :: nat
  assumes b: "h < length b" "length xs < length b"
    and b': "b' = (if length xs \<le> length b - h then copy_into b h xs
       else copy_into (copy_into b h (take (length b - h) xs)) 0 (drop (length b - h) xs))"
  shows "length b' = length b"
    and "k < length xs \<Longrightarrow> b' ! ((h + k) mod length b) = xs ! k"
    and "j < length b \<Longrightarrow> (\<And>k. k < length xs \<Longrightarrow> j \<noteq> (h + k) mod length b) \<Longrightarrow> b' ! j = b ! j"
proof -
  show "length b' = length b" using b by (auto simp: b')
  show "b' ! ((h + k) mod length b) = xs ! k" if "k < length xs"
    using that b by (auto simp: b' nth_copy_into mod_once)
  assume j: "j < length b" and other: "\<And>k. k < length xs \<Longrightarrow> j \<noteq> (h + k) mod length b"
  have "j \<noteq> h + k" if "k < length xs" "h + k < length b" for k
    using that other [of k] by simp
  from this [of "j - h"] have a: "\<not> (h \<le> j \<and> j < h + length xs)" using j by fastforce
  have "j \<noteq> h + k - length b" if "k < length xs" "length b \<le> h + k" for k
    using that other [of k] b by (simp add: mod_once)
  from this [of "j + (length b - h)"] have c: "\<not> j + (length b - h) < length xs" using b by auto
  show "b' ! j = b ! j" using a c b j by (auto simp: b' nth_copy_into)
qed

lemma rb_write_contents:
  assumes wf: "rb_wf rb" and wr: "syn_ringbuf_write rb data = (n, rb')"
  shows "n = min (length data) (syn_ringbuf_free rb)"
    and "rb_wf rb' \<and> rb_size rb' = rb_size rb"
    and "rb_contents rb' = rb_contents rb @ take n data"
proof -
  obtain b where b: "rb_buf rb = Some b" "length b = rb_size rb" "1 < rb_size rb"
    "rb_head rb < rb_size rb" "rb_tail rb < rb_size rb" using wf by (rule rb_wfE)
  let ?N = "rb_size rb" and ?h = "rb_head rb" and ?t = "rb_tail rb" and ?e = "rb_size rb - rb_head rb"
  let ?len = "min (length data) (syn_ringbuf_free rb)"
  let ?xs = "take ?len data"
  have len: "(if syn_ringbuf_free rb < length data then syn_ringbuf_free rb else length data) = ?len"
    by (simp add: min_def)
  show n: "n = ?len"
    using wr unfolding syn_ringbuf_write_def Let_def len by (auto split: if_splits)
  have room: "ring_count ?N ?h ?t + ?len < ?N"
    using b rb_free_contents [OF wf] rb_length_less [OF wf] by (simp add: rb_contents_def)
  define b' where "b' = (if ?len \<le> ?e then copy_into b ?h ?xs
       else copy_into (copy_into b ?h (take ?e data)) 0 (take (?len - ?e) (drop ?e data)))"
  have b'_eq: "b' = (if length ?xs \<le> length b - ?h then copy_into b ?h ?xs
       else copy_into (copy_into b ?h (take (length b - ?h) ?xs)) 0 (drop (length b - ?h) ?xs))"
    by (auto simp: b'_def b drop_take min_absorb1 not_le)
  note copy = wrap_copy [OF _ _ b'_eq, unfolded b(2)]
  have hd': "(if ?h + ?len \<ge> ?N then ?h + ?len - ?N else ?h + ?len) = (?h + ?len) mod ?N"
    using b room by (subst mod_once) auto
  have rb': "rb' = (if ?len = 0 then rb else rb\<lparr>rb_buf := Some b', rb_head := (?h + ?len) mod ?N\<rparr>)"
    using wr unfolding syn_ringbuf_write_def Let_def len hd' b(1) option.sel b'_def [symmetric]
    by (cases "?len = 0") auto
  show "rb_wf rb' \<and> rb_size rb' = rb_size rb"
    using b copy(1) room wf by (auto simp: rb' rb_wf_def)
  have "ring_list b' ?N ((?h + length ?xs) mod ?N) ?t = ring_list b ?N ?h ?t @ ?xs"
    by (rule ring_list_append) (use b room copy in auto)
  then show "rb_contents rb' = rb_contents rb @ take n data"
    using b n by (cases "?len = 0") (auto simp: rb' rb_contents_def)
qed

lemma rb_peek_n_contents:
  assumes wf: "rb_wf rb"
  shows "syn_ringbuf_peek_n rb len = take len (rb_contents rb)"
proof -
  obtain b where b: "rb_buf rb = Some b" "length b = rb_size rb" "1 < rb_size rb"
    "rb_head rb < rb_size rb" "rb_tail rb < rb_size rb" using wf by (rule rb_wfE)
  let ?k = "min len (length (rb_contents rb))"
  have k: "?k \<le> ring_count (rb_size rb) (rb_head rb) (rb_tail rb)" by (simp add: rb_contents_def)
  moreover have "?k < rb_size rb" using rb_length_less [OF wf] by simp
  ultimately have "syn_ringbuf_peek_n rb len = take ?k (ring_list b (rb_size rb) (rb_head rb) (rb_tail rb))"
    using b
    by (intro ring_list_take_nth)
      (auto simp: syn_ringbuf_peek_n_def Let_def rb_count_contents [OF wf] min_def nth_append mod_once
        add.commute split: if_splits)
  then show ?thesis using b by (simp add: rb_contents_def min_def)
qed

lemma rb_read_contents:
  assumes wf: "rb_wf rb" and read: "syn_ringbuf_read rb len = (data, rb')"
  shows "data = take len (rb_contents rb)"
    and "rb_wf rb' \<and> rb_size rb' = rb_size rb"
    and "rb_contents rb' = drop len (rb_contents rb)"
proof -
  obtain b where b: "rb_buf rb = Some b" "length b = rb_size rb" "1 < rb_size rb"
    "rb_head rb < rb_size rb" "rb_tail rb < rb_size rb" using wf by (rule rb_wfE)
  let ?N = "rb_size rb" and ?t = "rb_tail rb" and ?k = "length data"
  show data: "data = take len (rb_contents rb)"
    using read by (auto simp: syn_ringbuf_read_def Let_def rb_peek_n_contents [OF wf] split: if_splits)
  then have k: "?k \<le> ring_count ?N (rb_head rb) ?t" by (simp add: rb_contents_def)
  have tl': "(if ?t + ?k \<ge> ?N then ?t + ?k - ?N else ?t + ?k) = (?t + ?k) mod ?N"
    using b k ring_count_less [of "rb_head rb" ?N ?t] by (subst mod_once) auto
  have rb': "rb' = rb\<lparr>rb_tail := (?t + ?k) mod ?N\<rparr>"
    using read b unfolding tl' [symmetric]
    by (auto simp: syn_ringbuf_read_def Let_def split: if_splits)
  show "rb_wf rb' \<and> rb_size rb' = rb_size rb" using b by (auto simp: rb' rb_wf_def)
  have "rb_contents rb' = drop ?k (rb_contents rb)"
    using b k by (simp add: rb' rb_contents_def ring_list_drop)
  then show "rb_contents rb' = drop len (rb_contents rb)"
    by (cases "len \<le> length (rb_contents rb)") (simp_all add: data)
qed

subsection \<open>Properties\<close>

text \<open>
  C24: any interleaving of single-byte puts and gets on a well-formed ring buffer delivers the
  bytes it accepted in order, each once, keeps the buffer well-formed, and never holds more than
  \<^verbatim>\<open>size - 1\<close> bytes.
\<close>

theorem ringbuf_order:
  assumes "rb_wf rb"
    and "fifo_run (\<lambda>x rb. syn_ringbuf_put rb x) syn_ringbuf_get ops rb = (accepted, delivered, rb')"
  shows "rb_contents rb @ accepted = delivered @ rb_contents rb' \<and> rb_wf rb'
    \<and> length (rb_contents rb') \<le> rb_size rb - 1"
  using ringbuf_fifo.run_fifo [OF assms] ringbuf_fifo.run_keeps [OF assms]
    ringbuf_fifo.contents_bound [of rb'] by simp

theorem ringbuf_order_witness:
  "let rb = \<lparr>rb_buf = Some [0, 0, 0], rb_size = 3, rb_head = 2, rb_tail = 2\<rparr>;
       (accepted, delivered, rb') =
         fifo_run (\<lambda>x rb. syn_ringbuf_put rb x) syn_ringbuf_get [Enq 7, Enq 8, Enq 9, Deq] rb
   in accepted = [7, 8] \<and> delivered = [7]
      \<and> rb_contents rb @ accepted = delivered @ rb_contents rb' \<and> rb_wf rb'
      \<and> length (rb_contents rb') \<le> rb_size rb - 1"
proof -
  let ?rb = "\<lparr>rb_buf = Some [0, 0, 0], rb_size = 3, rb_head = 2, rb_tail = 2\<rparr>"
  let ?rb' = "\<lparr>rb_buf = Some [8, 0, 7], rb_size = 3, rb_head = 1, rb_tail = 0\<rparr>"
  have wf: "rb_wf ?rb" by (simp add: rb_wf_def)
  have run: "fifo_run (\<lambda>x rb. syn_ringbuf_put rb x) syn_ringbuf_get [Enq 7, Enq 8, Enq 9, Deq] ?rb
      = ([7, 8], [7], ?rb')"
    by (simp add: ringbuf_ops advance_def Let_def)
  show ?thesis unfolding Let_def run using ringbuf_order [OF wf run] by simp
qed

text \<open>
  a block write appends the longest prefix of the data that fits, across the end of the
  backing array if need be, and a block read removes the oldest bytes; together they are the
  corresponding list operations on the byte queue.
\<close>

theorem ringbuf_block_transfer:
  assumes "rb_wf rb" and "syn_ringbuf_write rb data = (n, rb1)"
    and "syn_ringbuf_read rb1 len = (out, rb2)"
  shows "n = min (length data) (rb_size rb - 1 - length (rb_contents rb))
    \<and> out = take len (rb_contents rb @ take n data)
    \<and> rb_contents rb2 = drop len (rb_contents rb @ take n data) \<and> rb_wf rb2"
  using rb_write_contents [OF assms(1,2)] rb_read_contents [OF _ assms(3)] rb_free_contents [OF assms(1)]
  by simp

theorem ringbuf_block_transfer_witness:
  "let rb = \<lparr>rb_buf = Some [0, 0, 0, 0], rb_size = 4, rb_head = 3, rb_tail = 3\<rparr>;
       (n, rb1) = syn_ringbuf_write rb [1, 2, 3, 4]; (out, rb2) = syn_ringbuf_read rb1 2
   in n = 3 \<and> out = [1, 2] \<and> rb_contents rb2 = [3] \<and> rb_wf rb2"
proof -
  let ?rb = "\<lparr>rb_buf = Some [0, 0, 0, 0], rb_size = 4, rb_head = 3, rb_tail = 3\<rparr>"
  let ?rb1 = "\<lparr>rb_buf = Some [2, 3, 0, 1], rb_size = 4, rb_head = 2, rb_tail = 3\<rparr>"
  let ?rb2 = "\<lparr>rb_buf = Some [2, 3, 0, 1], rb_size = 4, rb_head = 2, rb_tail = 1\<rparr>"
  have wf: "rb_wf ?rb" by (simp add: rb_wf_def)
  have w: "syn_ringbuf_write ?rb [1, 2, 3, 4] = (3, ?rb1)"
    by (simp add: syn_ringbuf_write_def ringbuf_ops copy_into_def Let_def)
  have r: "syn_ringbuf_read ?rb1 2 = ([1, 2], ?rb2)"
    by (simp add: syn_ringbuf_read_def syn_ringbuf_peek_n_def ringbuf_ops Let_def)
  have "rb_contents ?rb = []" by (simp add: rb_contents_def ring_list_def ring_count_def)
  then show ?thesis unfolding Let_def w r prod.case using ringbuf_block_transfer [OF wf w r] by simp
qed

end
