(* ===== verification/Syn_Spsc.thy ===== *)
theory Syn_Spsc
  imports Syn_Fifo
begin

text \<open>
  The lock-free single-producer single-consumer queue of \<^verbatim>\<open>util/syn_spsc_queue.c\<close>. Elements are
  opaque values: the \<^verbatim>\<open>memcpy\<close> of \<^verbatim>\<open>elem_size\<close> bytes at \<^verbatim>\<open>index * elem_size\<close> reads or writes slot
  \<open>index\<close>. The operations are modelled twice. As whole calls they satisfy the contract
  \<open>bounded_fifo\<close>. As the separate loads, copies and stores of \<^verbatim>\<open>push\<close> and \<^verbatim>\<open>pop\<close>, the step
  relation \<open>spsc_step\<close> lets a producer and a consumer interleave freely; every reachable state
  still holds exactly what was pushed and not yet popped, in order.
\<close>

record 'a syn_spsc =
  sq_buffer :: "'a list option"
  sq_elem_size :: nat
  sq_capacity :: nat
  sq_head :: nat
  sq_tail :: nat

definition spsc_advance :: "nat \<Rightarrow> nat \<Rightarrow> nat" where
  "spsc_advance idx capacity = (let next = idx + 1 in if next \<ge> capacity then 0 else next)"

definition syn_spsc_queue_init :: "'a syn_spsc option \<Rightarrow> 'a list option \<Rightarrow> nat \<Rightarrow> nat
    \<Rightarrow> SYN_Status \<times> 'a syn_spsc option" where
  "syn_spsc_queue_init q elem_buf elem_size capacity =
     (case q of
        None \<Rightarrow> (SYN_INVALID_PARAM, None)
      | Some qq \<Rightarrow>
          if elem_buf = None \<or> elem_size = 0 \<or> capacity = 0 then (SYN_INVALID_PARAM, q)
          else (SYN_OK, Some (qq\<lparr>sq_buffer := elem_buf, sq_elem_size := elem_size,
                                sq_capacity := capacity, sq_head := 0, sq_tail := 0\<rparr>)))"

definition syn_spsc_queue_is_empty :: "'a syn_spsc option \<Rightarrow> bool" where
  "syn_spsc_queue_is_empty q =
     (case q of
        None \<Rightarrow> True
      | Some qq \<Rightarrow> if sq_buffer qq = None \<or> sq_capacity qq = 0 then True
                   else sq_head qq = sq_tail qq)"

definition syn_spsc_queue_is_full :: "'a syn_spsc option \<Rightarrow> bool" where
  "syn_spsc_queue_is_full q =
     (case q of
        None \<Rightarrow> False
      | Some qq \<Rightarrow> if sq_buffer qq = None \<or> sq_capacity qq = 0 then False
                   else spsc_advance (sq_head qq) (sq_capacity qq) = sq_tail qq)"

definition syn_spsc_queue_count :: "'a syn_spsc option \<Rightarrow> nat" where
  "syn_spsc_queue_count q =
     (case q of
        None \<Rightarrow> 0
      | Some qq \<Rightarrow>
          if sq_buffer qq = None \<or> sq_capacity qq = 0 then 0
          else
            let head = sq_head qq; tail = sq_tail qq
            in if head \<ge> tail then head - tail else sq_capacity qq - (tail - head))"

definition syn_spsc_queue_push :: "'a syn_spsc option \<Rightarrow> 'a option
    \<Rightarrow> SYN_Status \<times> 'a syn_spsc option" where
  "syn_spsc_queue_push q item =
     (case (q, item) of
        (Some qq, Some x) \<Rightarrow>
          (case sq_buffer qq of
             None \<Rightarrow> (SYN_INVALID_PARAM, q)
           | Some b \<Rightarrow>
               if sq_capacity qq = 0 \<or> sq_elem_size qq = 0 then (SYN_INVALID_PARAM, q)
               else
                 let current_head = sq_head qq;
                     next_head = spsc_advance current_head (sq_capacity qq)
                 in if next_head = sq_tail qq then (SYN_BUSY, q)
                    else (SYN_OK, Some (qq\<lparr>sq_buffer := Some (b[current_head := x]),
                                          sq_head := next_head\<rparr>)))
      | _ \<Rightarrow> (SYN_INVALID_PARAM, q))"

text \<open>The out-parameter of \<^verbatim>\<open>pop\<close>: whether the pointer is given, and the value stored through it.\<close>

definition syn_spsc_queue_pop :: "'a syn_spsc option \<Rightarrow> bool
    \<Rightarrow> SYN_Status \<times> 'a option \<times> 'a syn_spsc option" where
  "syn_spsc_queue_pop q has_out =
     (case q of
        None \<Rightarrow> (SYN_INVALID_PARAM, None, q)
      | Some qq \<Rightarrow>
          (case sq_buffer qq of
             None \<Rightarrow> (SYN_INVALID_PARAM, None, q)
           | Some b \<Rightarrow>
               if \<not> has_out \<or> sq_capacity qq = 0 \<or> sq_elem_size qq = 0
               then (SYN_INVALID_PARAM, None, q)
               else
                 let current_head = sq_head qq; current_tail = sq_tail qq
                 in if current_head = current_tail then (SYN_ERROR, None, q)
                    else (SYN_OK, Some (b ! current_tail),
                          Some (qq\<lparr>sq_tail := spsc_advance current_tail (sq_capacity qq)\<rparr>))))"

lemmas spsc_ops [syn_defs] =
  syn_spsc_queue_init_def syn_spsc_queue_is_empty_def syn_spsc_queue_is_full_def
  syn_spsc_queue_count_def syn_spsc_queue_push_def syn_spsc_queue_pop_def

subsection \<open>Whole calls: a bounded FIFO\<close>

definition spsc_wf :: "'a syn_spsc \<Rightarrow> bool" where
  "spsc_wf q \<longleftrightarrow> 0 < sq_capacity q \<and> 0 < sq_elem_size q \<and> sq_head q < sq_capacity q
     \<and> sq_tail q < sq_capacity q \<and> (\<exists>b. sq_buffer q = Some b \<and> length b = sq_capacity q)"

definition spsc_contents :: "'a syn_spsc \<Rightarrow> 'a list" where
  "spsc_contents q = ring_list (the (sq_buffer q)) (sq_capacity q) (sq_head q) (sq_tail q)"

definition spsc_enq :: "'a \<Rightarrow> 'a syn_spsc \<Rightarrow> bool \<times> 'a syn_spsc" where
  "spsc_enq x q = (case syn_spsc_queue_push (Some q) (Some x) of (st, q') \<Rightarrow> (st = SYN_OK, the q'))"

definition spsc_deq :: "'a syn_spsc \<Rightarrow> 'a option \<times> 'a syn_spsc" where
  "spsc_deq q = (case syn_spsc_queue_pop (Some q) True of (st, r, q') \<Rightarrow> (r, the q'))"

lemma spsc_advance_ring_next: "spsc_advance i n = ring_next n i"
  by (simp add: spsc_advance_def ring_next_def Let_def)

lemma spsc_wfE:
  assumes "spsc_wf q"
  obtains b where "sq_buffer q = Some b" "length b = sq_capacity q" "0 < sq_capacity q"
    "0 < sq_elem_size q" "sq_head q < sq_capacity q" "sq_tail q < sq_capacity q"
  using assms by (auto simp: spsc_wf_def)

lemma spsc_init_wf:
  assumes "0 < es" "0 < n" "length b = n"
  shows "\<exists>q'. syn_spsc_queue_init (Some q) (Some b) es n = (SYN_OK, Some q') \<and> spsc_wf q'
    \<and> spsc_contents q' = [] \<and> sq_capacity q' = n \<and> sq_buffer q' = Some b"
  using assms
  by (simp add: syn_spsc_queue_init_def spsc_wf_def spsc_contents_def ring_list_def ring_count_def)

lemma spsc_count_contents: "spsc_wf q \<Longrightarrow> syn_spsc_queue_count (Some q) = length (spsc_contents q)"
  by (auto simp: syn_spsc_queue_count_def spsc_contents_def ring_count_def Let_def elim: spsc_wfE)

lemma spsc_empty_contents: "spsc_wf q \<Longrightarrow> syn_spsc_queue_is_empty (Some q) \<longleftrightarrow> spsc_contents q = []"
  using ring_count_0_iff [of "sq_head q" "sq_capacity q" "sq_tail q"]
  by (auto simp: syn_spsc_queue_is_empty_def spsc_contents_def elim!: spsc_wfE simp flip: length_0_conv)

lemma spsc_full_contents:
  "spsc_wf q \<Longrightarrow> syn_spsc_queue_is_full (Some q) \<longleftrightarrow> length (spsc_contents q) = sq_capacity q - 1"
  by (erule spsc_wfE)
    (simp add: syn_spsc_queue_is_full_def spsc_contents_def spsc_advance_ring_next ring_full_iff)

lemma spsc_push_contents:
  assumes wf: "spsc_wf q" and push: "syn_spsc_queue_push (Some q) (Some x) = (st, Q)"
  obtains q' where "Q = Some q'" "spsc_wf q'" "sq_capacity q' = sq_capacity q"
    "st = (if length (spsc_contents q) = sq_capacity q - 1 then SYN_BUSY else SYN_OK)"
    "spsc_contents q' = (if st = SYN_OK then spsc_contents q @ [x] else spsc_contents q)"
proof -
  obtain b where b: "sq_buffer q = Some b" "length b = sq_capacity q" "0 < sq_capacity q"
    "0 < sq_elem_size q" "sq_head q < sq_capacity q" "sq_tail q < sq_capacity q"
    using wf by (rule spsc_wfE)
  have full: "ring_next (sq_capacity q) (sq_head q) = sq_tail q
      \<longleftrightarrow> length (spsc_contents q) = sq_capacity q - 1"
    using b by (simp add: spsc_contents_def ring_full_iff)
  show ?thesis
  proof (cases "ring_next (sq_capacity q) (sq_head q) = sq_tail q")
    case True
    then show ?thesis using that [of q] wf push b full
      by (simp add: syn_spsc_queue_push_def spsc_advance_ring_next)
  next
    case False
    let ?q = "q\<lparr>sq_buffer := Some (b[sq_head q := x]),
      sq_head := ring_next (sq_capacity q) (sq_head q)\<rparr>"
    have "spsc_wf ?q" using b by (simp add: spsc_wf_def)
    moreover have "spsc_contents ?q = spsc_contents q @ [x]"
      using b False by (simp add: spsc_contents_def ring_list_put)
    ultimately show ?thesis using that [of ?q] push b full False
      by (simp add: syn_spsc_queue_push_def spsc_advance_ring_next Let_def)
  qed
qed

lemma spsc_pop_contents:
  assumes wf: "spsc_wf q" and pop: "syn_spsc_queue_pop (Some q) True = (st, r, Q)"
  obtains q' where "Q = Some q'" "spsc_wf q'" "sq_capacity q' = sq_capacity q"
    "case spsc_contents q of [] \<Rightarrow> st = SYN_ERROR \<and> r = None \<and> q' = q
     | y # ys \<Rightarrow> st = SYN_OK \<and> r = Some y \<and> spsc_contents q' = ys"
proof -
  obtain b where b: "sq_buffer q = Some b" "length b = sq_capacity q" "0 < sq_capacity q"
    "0 < sq_elem_size q" "sq_head q < sq_capacity q" "sq_tail q < sq_capacity q"
    using wf by (rule spsc_wfE)
  show ?thesis
  proof (cases "sq_head q = sq_tail q")
    case True
    then show ?thesis using that [of q] wf pop b
      by (simp add: syn_spsc_queue_pop_def spsc_contents_def ring_list_def ring_count_def)
  next
    case False
    let ?q = "q\<lparr>sq_tail := ring_next (sq_capacity q) (sq_tail q)\<rparr>"
    have "spsc_wf ?q" using b by (simp add: spsc_wf_def)
    moreover have "spsc_contents q = b ! sq_tail q # spsc_contents ?q"
      using b False by (simp add: spsc_contents_def ring_list_get)
    ultimately show ?thesis using that [of ?q] pop b False
      by (simp add: syn_spsc_queue_pop_def spsc_advance_ring_next Let_def)
  qed
qed

interpretation spsc_fifo: bounded_fifo spsc_wf spsc_contents "\<lambda>q. sq_capacity q - 1" spsc_enq spsc_deq
proof (unfold_locales, goal_cases)
  case (1 q)
  then show ?case
    using ring_count_less [of "sq_head q" "sq_capacity q" "sq_tail q"]
    by (auto simp: spsc_contents_def spsc_wf_def)
next
  case (2 q x ok q')
  then show ?case
    by (cases "syn_spsc_queue_push (Some q) (Some x)")
      (auto simp: spsc_enq_def elim: spsc_push_contents [OF 2(1)])
next
  case (3 q x ok q')
  then show ?case
    by (cases "syn_spsc_queue_push (Some q) (Some x)")
      (auto simp: spsc_enq_def elim: spsc_push_contents [OF 3(1)])
next
  case (4 q x ok q')
  then show ?case
    by (cases "syn_spsc_queue_push (Some q) (Some x)")
      (auto simp: spsc_enq_def elim: spsc_push_contents [OF 4(1)])
next
  case (5 q r q')
  then show ?case
    by (cases "syn_spsc_queue_pop (Some q) True")
      (auto simp: spsc_deq_def split: list.splits elim: spsc_pop_contents [OF 5(1)])
next
  case (6 q r q')
  then show ?case
    by (cases "syn_spsc_queue_pop (Some q) True")
      (auto simp: spsc_deq_def elim: spsc_pop_contents [OF 6(1)])
qed

subsection \<open>Interleaved steps of one producer and one consumer\<close>

text \<open>
  The producer is between calls, has passed the full check with its item and indices in local
  variables, or has copied the item into its slot; the consumer likewise. Each rule is one
  access to the shared structure: the acquire load with its comparison, the copy, the release
  store. The fields \<open>sy_pushed\<close> and \<open>sy_popped\<close> only record the history. The accesses take
  effect in program order, which is what the acquire and release accesses of the code provide.
\<close>

datatype 'a producer_pc = PIdle | PChecked 'a nat nat | PCopied 'a nat
datatype 'a consumer_pc = CIdle | CChecked nat | CCopied 'a nat

record 'a spsc_sys =
  sy_q :: "'a syn_spsc"
  sy_prod :: "'a producer_pc"
  sy_cons :: "'a consumer_pc"
  sy_pushed :: "'a list"
  sy_popped :: "'a list"

inductive spsc_step :: "'a spsc_sys \<Rightarrow> 'a spsc_sys \<Rightarrow> bool" where
  push_check: "sy_prod s = PIdle \<Longrightarrow> h = sq_head (sy_q s) \<Longrightarrow>
     nx = spsc_advance h (sq_capacity (sy_q s)) \<Longrightarrow> nx \<noteq> sq_tail (sy_q s) \<Longrightarrow>
     spsc_step s (s\<lparr>sy_prod := PChecked x h nx\<rparr>)"
| push_full: "sy_prod s = PIdle \<Longrightarrow>
     spsc_advance (sq_head (sy_q s)) (sq_capacity (sy_q s)) = sq_tail (sy_q s) \<Longrightarrow> spsc_step s s"
| push_copy: "sy_prod s = PChecked x h nx \<Longrightarrow> sq_buffer (sy_q s) = Some b \<Longrightarrow>
     spsc_step s (s\<lparr>sy_prod := PCopied x nx, sy_q := (sy_q s)\<lparr>sq_buffer := Some (b[h := x])\<rparr>\<rparr>)"
| push_publish: "sy_prod s = PCopied x nx \<Longrightarrow>
     spsc_step s (s\<lparr>sy_prod := PIdle, sy_q := (sy_q s)\<lparr>sq_head := nx\<rparr>,
                    sy_pushed := sy_pushed s @ [x]\<rparr>)"
| pop_check: "sy_cons s = CIdle \<Longrightarrow> t = sq_tail (sy_q s) \<Longrightarrow> sq_head (sy_q s) \<noteq> t \<Longrightarrow>
     spsc_step s (s\<lparr>sy_cons := CChecked t\<rparr>)"
| pop_empty: "sy_cons s = CIdle \<Longrightarrow> sq_head (sy_q s) = sq_tail (sy_q s) \<Longrightarrow> spsc_step s s"
| pop_copy: "sy_cons s = CChecked t \<Longrightarrow> sq_buffer (sy_q s) = Some b \<Longrightarrow>
     spsc_step s (s\<lparr>sy_cons := CCopied (b ! t) t\<rparr>)"
| pop_publish: "sy_cons s = CCopied x t \<Longrightarrow>
     spsc_step s (s\<lparr>sy_cons := CIdle,
                    sy_q := (sy_q s)\<lparr>sq_tail := spsc_advance t (sq_capacity (sy_q s))\<rparr>,
                    sy_popped := sy_popped s @ [x]\<rparr>)"

definition spsc_start :: "'a syn_spsc \<Rightarrow> 'a spsc_sys" where
  "spsc_start q = \<lparr>sy_q = q, sy_prod = PIdle, sy_cons = CIdle, sy_pushed = [], sy_popped = []\<rparr>"

inductive spsc_reach :: "'a syn_spsc \<Rightarrow> 'a spsc_sys \<Rightarrow> bool" for q where
  start: "spsc_reach q (spsc_start q)"
| step: "spsc_reach q s \<Longrightarrow> spsc_step s s' \<Longrightarrow> spsc_reach q s'"

text \<open>
  The invariant: the history equation, and what each side knows at its program point. The
  producer's slot stays outside the published range, the consumer's slot inside it.
\<close>

definition spsc_inv :: "'a list \<Rightarrow> 'a spsc_sys \<Rightarrow> bool" where
  "spsc_inv init s \<longleftrightarrow> (let q = sy_q s; n = sq_capacity q; h = sq_head q; t = sq_tail q in
     spsc_wf q \<and> init @ sy_pushed s = sy_popped s @ spsc_contents q
     \<and> (case sy_prod s of
          PIdle \<Rightarrow> True
        | PChecked x h' nx \<Rightarrow> h' = h \<and> nx = ring_next n h \<and> nx \<noteq> t
        | PCopied x nx \<Rightarrow> nx = ring_next n h \<and> nx \<noteq> t \<and> the (sq_buffer q) ! h = x)
     \<and> (case sy_cons s of
          CIdle \<Rightarrow> True
        | CChecked t' \<Rightarrow> t' = t \<and> h \<noteq> t
        | CCopied x t' \<Rightarrow> t' = t \<and> h \<noteq> t \<and> the (sq_buffer q) ! t = x))"

lemma ring_next_inj: "i < n \<Longrightarrow> j < n \<Longrightarrow> ring_next n i = ring_next n j \<longleftrightarrow> i = j"
  by (auto simp: ring_next_def split: if_splits)

lemma ring_list_store_head:
  assumes "h < n" "t < n" "length b = n"
  shows "ring_list (b[h := x]) n h t = ring_list b n h t"
proof -
  have "(b[h := x]) ! ((t + i) mod n) = b ! ((t + i) mod n)" if "i < ring_count n h t" for i
    using ring_slot_neq_head [OF assms(1,2) that] by simp
  then show ?thesis by (simp add: ring_list_def)
qed

lemma ring_list_publish:
  assumes "length b = n" "h < n" "t < n" "ring_next n h \<noteq> t"
  shows "ring_list b n (ring_next n h) t = ring_list b n h t @ [b ! h]"
  using ring_list_put [OF assms, of "b ! h"] assms by simp

lemma spsc_step_inv:
  assumes "spsc_step s s'" and inv: "spsc_inv init s"
  shows "spsc_inv init s'"
proof -
  obtain b where b: "sq_buffer (sy_q s) = Some b" "length b = sq_capacity (sy_q s)"
      "0 < sq_capacity (sy_q s)" "0 < sq_elem_size (sy_q s)"
      "sq_head (sy_q s) < sq_capacity (sy_q s)" "sq_tail (sy_q s) < sq_capacity (sy_q s)"
    using inv by (auto simp: spsc_inv_def Let_def elim: spsc_wfE)
  note facts = spsc_inv_def Let_def spsc_wf_def spsc_contents_def spsc_advance_ring_next
  from assms(1) show ?thesis
  proof (cases rule: spsc_step.cases)
    case (push_copy x h nx c)
    then show ?thesis using inv b
      by (auto simp: facts ring_list_store_head split: consumer_pc.splits)
  next
    case (push_publish x nx)
    then show ?thesis using inv b
      by (auto simp: facts ring_list_publish split: consumer_pc.splits)
  next
    case (pop_publish x t)
    then have "ring_list b (sq_capacity (sy_q s)) (sq_head (sy_q s)) (sq_tail (sy_q s))
      = x # ring_list b (sq_capacity (sy_q s)) (sq_head (sy_q s))
              (ring_next (sq_capacity (sy_q s)) (sq_tail (sy_q s)))"
      using inv b by (auto simp: facts ring_list_get)
    then show ?thesis using pop_publish inv b
      by (auto simp: facts ring_next_inj split: producer_pc.splits)
  qed (use inv b in \<open>auto simp: facts split: producer_pc.splits consumer_pc.splits\<close>)
qed

lemma spsc_reach_inv:
  assumes "spsc_wf q" "spsc_reach q s"
  shows "spsc_inv (spsc_contents q) s"
  using assms(2)
proof induction
  case start
  show ?case using assms(1) by (simp add: spsc_inv_def spsc_start_def)
next
  case (step s s')
  then show ?case by (blast intro: spsc_step_inv)
qed

text \<open>
  A push that meets no interference is the three producer steps, and its effect on the queue
  is that of the whole call; likewise a pop.
\<close>

lemma spsc_push_atomic:
  assumes "spsc_wf q" "syn_spsc_queue_push (Some q) (Some x) = (SYN_OK, Some q')"
  shows "\<exists>s1 s2 s3. spsc_step (spsc_start q) s1 \<and> spsc_step s1 s2 \<and> spsc_step s2 s3 \<and> sy_q s3 = q'
    \<and> sy_pushed s3 = [x]"
proof -
  obtain b where b: "sq_buffer q = Some b" "sq_capacity q \<noteq> 0" "sq_elem_size q \<noteq> 0"
    using assms(1) by (auto elim: spsc_wfE)
  let ?h = "sq_head q" and ?nx = "spsc_advance (sq_head q) (sq_capacity q)"
  have ne: "?nx \<noteq> sq_tail q" and q': "q' = q\<lparr>sq_buffer := Some (b[?h := x]), sq_head := ?nx\<rparr>"
    using assms(2) b by (auto simp: syn_spsc_queue_push_def Let_def split: if_splits)
  let ?s0 = "spsc_start q"
  let ?s1 = "?s0\<lparr>sy_prod := PChecked x ?h ?nx\<rparr>"
  let ?s2 = "?s1\<lparr>sy_prod := PCopied x ?nx, sy_q := q\<lparr>sq_buffer := Some (b[?h := x])\<rparr>\<rparr>"
  let ?s3 = "?s2\<lparr>sy_prod := PIdle, sy_q := q', sy_pushed := [x]\<rparr>"
  have "spsc_step ?s0 ?s1"
    using spsc_step.push_check [of ?s0 ?h ?nx x] ne by (simp add: spsc_start_def)
  moreover have "spsc_step ?s1 ?s2"
    using spsc_step.push_copy [of ?s1 x ?h ?nx b] b by (simp add: spsc_start_def)
  moreover have "spsc_step ?s2 ?s3"
    using spsc_step.push_publish [of ?s2 x ?nx] by (simp add: spsc_start_def q')
  ultimately show ?thesis by (intro exI [of _ ?s1] exI [of _ ?s2] exI [of _ ?s3]) simp
qed

subsection \<open>Properties\<close>

text \<open>
  C4: however the loads, copies and stores of one producer and one consumer interleave, in
  every reachable state the elements pushed so far are those popped so far followed by the
  elements in the queue, in order, and one slot is free.
\<close>

theorem spsc_interleaving:
  assumes "spsc_wf q" and "spsc_reach q s"
  shows "spsc_contents q @ sy_pushed s = sy_popped s @ spsc_contents (sy_q s)
    \<and> length (spsc_contents (sy_q s)) < sq_capacity (sy_q s)"
proof -
  have inv: "spsc_inv (spsc_contents q) s" using assms by (rule spsc_reach_inv)
  then have "spsc_wf (sy_q s)" by (simp add: spsc_inv_def Let_def)
  from spsc_fifo.contents_bound [OF this] inv show ?thesis
    by (auto simp: spsc_inv_def Let_def spsc_wf_def)
qed

theorem spsc_interleaving_witness:
  "\<exists>s. spsc_reach \<lparr>sq_buffer = Some [0, 5 :: nat], sq_elem_size = 1, sq_capacity = 2, sq_head = 0, sq_tail = 1\<rparr> s
     \<and> sy_popped s = [5] \<and> spsc_contents (sy_q s) = []"
proof -
  let ?q = "\<lparr>sq_buffer = Some [0, 5 :: nat], sq_elem_size = 1, sq_capacity = 2, sq_head = 0, sq_tail = 1\<rparr>"
  let ?s1 = "(spsc_start ?q)\<lparr>sy_cons := CChecked 1\<rparr>"
  let ?s2 = "?s1\<lparr>sy_cons := CCopied 5 1\<rparr>"
  let ?s3 = "?s2\<lparr>sy_cons := CIdle, sy_q := ?q\<lparr>sq_tail := 0\<rparr>, sy_popped := [5]\<rparr>"
  have wf: "spsc_wf ?q" by (simp add: spsc_wf_def)
  have "spsc_step (spsc_start ?q) ?s1"
    using spsc_step.pop_check [of "spsc_start ?q" 1] by (simp add: spsc_start_def)
  moreover have "spsc_step ?s1 ?s2"
    using spsc_step.pop_copy [of ?s1 1 "[0, 5]"] by (simp add: spsc_start_def)
  moreover have "spsc_step ?s2 ?s3"
    using spsc_step.pop_publish [of ?s2 5 1] by (simp add: spsc_start_def spsc_advance_def)
  ultimately have reach: "spsc_reach ?q ?s3" by (blast intro: spsc_reach.intros)
  from spsc_interleaving [OF wf reach] have "spsc_contents (sy_q ?s3) = []"
    by (simp add: spsc_start_def spsc_contents_def ring_list_def ring_count_def)
  with reach show ?thesis by (intro exI [of _ ?s3]) simp
qed

end
