(* ===== verification/Syn_Mailbox.thy ===== *)
theory Syn_Mailbox
  imports Syn_Fifo
begin

text \<open>
  The mailbox of \<^verbatim>\<open>sched/syn_mailbox.h\<close>: a ring of fixed-size messages with a count of the
  posts that found it full, in the single-core configuration (without the \<^verbatim>\<open>notify\<close> flag of
  \<^verbatim>\<open>SYN_USE_MULTICORE\<close>). A message is an opaque value stored in slot \<^verbatim>\<open>head\<close>.
\<close>

record 'a syn_mailbox =
  mb_buf :: "'a list"
  mb_msg_size :: nat
  mb_capacity :: nat
  mb_head :: nat
  mb_tail :: nat
  mb_overflow :: u32

definition syn_mailbox_init :: "'a syn_mailbox \<Rightarrow> 'a list \<Rightarrow> nat \<Rightarrow> nat \<Rightarrow> 'a syn_mailbox" where
  "syn_mailbox_init mb buf msg_size capacity =
     mb\<lparr>mb_buf := buf, mb_msg_size := msg_size, mb_capacity := capacity, mb_head := 0,
        mb_tail := 0, mb_overflow := 0\<rparr>"

definition syn_mailbox_post :: "'a syn_mailbox \<Rightarrow> 'a \<Rightarrow> bool \<times> 'a syn_mailbox" where
  "syn_mailbox_post mb msg =
     (let head = mb_head mb;
          next0 = head + 1;
          next = (if next0 \<ge> mb_capacity mb then 0 else next0)
      in if next = mb_tail mb then (False, mb\<lparr>mb_overflow := mb_overflow mb + 1\<rparr>)
         else (True, mb\<lparr>mb_buf := (mb_buf mb)[head := msg], mb_head := next\<rparr>))"

definition syn_mailbox_receive :: "'a syn_mailbox \<Rightarrow> 'a option \<times> 'a syn_mailbox" where
  "syn_mailbox_receive mb =
     (let head = mb_head mb; tail = mb_tail mb
      in if tail = head then (None, mb)
         else
           let next0 = tail + 1; next = (if next0 \<ge> mb_capacity mb then 0 else next0)
           in (Some (mb_buf mb ! tail), mb\<lparr>mb_tail := next\<rparr>))"

definition syn_mailbox_peek :: "'a syn_mailbox \<Rightarrow> 'a option" where
  "syn_mailbox_peek mb = (if mb_head mb = mb_tail mb then None else Some (mb_buf mb ! mb_tail mb))"

definition syn_mailbox_empty :: "'a syn_mailbox \<Rightarrow> bool" where
  "syn_mailbox_empty mb = (mb_head mb = mb_tail mb)"

definition syn_mailbox_full :: "'a syn_mailbox \<Rightarrow> bool" where
  "syn_mailbox_full mb =
     (let next0 = mb_head mb + 1; next = (if next0 \<ge> mb_capacity mb then 0 else next0)
      in next = mb_tail mb)"

definition syn_mailbox_pending :: "'a syn_mailbox \<Rightarrow> nat" where
  "syn_mailbox_pending mb =
     (let h = mb_head mb; t = mb_tail mb in if h \<ge> t then h - t else mb_capacity mb - t + h)"

definition syn_mailbox_free :: "'a syn_mailbox \<Rightarrow> nat" where
  "syn_mailbox_free mb = mb_capacity mb - 1 - syn_mailbox_pending mb"

definition syn_mailbox_overflows :: "'a syn_mailbox \<Rightarrow> u32" where
  "syn_mailbox_overflows mb = mb_overflow mb"

definition syn_mailbox_flush :: "'a syn_mailbox \<Rightarrow> 'a syn_mailbox" where
  "syn_mailbox_flush mb = mb\<lparr>mb_tail := mb_head mb\<rparr>"

lemmas mailbox_ops [syn_defs] =
  syn_mailbox_init_def syn_mailbox_post_def syn_mailbox_receive_def syn_mailbox_peek_def
  syn_mailbox_empty_def syn_mailbox_full_def syn_mailbox_pending_def syn_mailbox_free_def
  syn_mailbox_overflows_def syn_mailbox_flush_def

subsection \<open>The queue a mailbox represents\<close>

definition mb_wf :: "'a syn_mailbox \<Rightarrow> bool" where
  "mb_wf mb \<longleftrightarrow> 0 < mb_capacity mb \<and> mb_head mb < mb_capacity mb \<and> mb_tail mb < mb_capacity mb
     \<and> length (mb_buf mb) = mb_capacity mb"

definition mb_contents :: "'a syn_mailbox \<Rightarrow> 'a list" where
  "mb_contents mb = ring_list (mb_buf mb) (mb_capacity mb) (mb_head mb) (mb_tail mb)"

lemma mb_next: "(if i + 1 \<ge> n then 0 else i + 1) = ring_next n i"
  by (simp add: ring_next_def)

lemma mb_pending_contents: "mb_wf mb \<Longrightarrow> syn_mailbox_pending mb = length (mb_contents mb)"
  by (simp add: syn_mailbox_pending_def mb_contents_def ring_count_def Let_def)

lemma mb_empty_contents: "mb_wf mb \<Longrightarrow> syn_mailbox_empty mb \<longleftrightarrow> mb_contents mb = []"
  using ring_count_0_iff [of "mb_head mb" "mb_capacity mb" "mb_tail mb"]
  by (auto simp: syn_mailbox_empty_def mb_contents_def mb_wf_def simp flip: length_0_conv)

lemma mb_full_contents: "mb_wf mb \<Longrightarrow> syn_mailbox_full mb \<longleftrightarrow> length (mb_contents mb) = mb_capacity mb - 1"
  unfolding syn_mailbox_full_def Let_def mb_next
  by (simp add: mb_contents_def mb_wf_def ring_full_iff)

lemma mb_init_wf:
  assumes "0 < n" "length b = n"
  shows "mb_wf (syn_mailbox_init mb b ms n)" "mb_contents (syn_mailbox_init mb b ms n) = []"
  using assms by (auto simp: syn_mailbox_init_def mb_wf_def mb_contents_def ring_list_def ring_count_def)

lemma mb_flush_contents: "mb_wf mb \<Longrightarrow> mb_wf (syn_mailbox_flush mb) \<and> mb_contents (syn_mailbox_flush mb) = []"
  by (simp add: syn_mailbox_flush_def mb_wf_def mb_contents_def ring_list_def ring_count_def)

lemma mb_post_contents:
  assumes wf: "mb_wf mb" and post: "syn_mailbox_post mb x = (ok, mb')"
  shows "mb_wf mb' \<and> mb_capacity mb' = mb_capacity mb"
    and "ok \<longleftrightarrow> length (mb_contents mb) \<noteq> mb_capacity mb - 1"
    and "mb_contents mb' = (if ok then mb_contents mb @ [x] else mb_contents mb)"
    and "mb_overflow mb' = (if ok then mb_overflow mb else mb_overflow mb + 1)"
proof -
  note b = wf [unfolded mb_wf_def]
  have full: "length (mb_contents mb) \<noteq> mb_capacity mb - 1
      \<longleftrightarrow> ring_next (mb_capacity mb) (mb_head mb) \<noteq> mb_tail mb"
    using b by (simp add: mb_contents_def ring_full_iff)
  note post' = post [unfolded syn_mailbox_post_def Let_def mb_next]
  show "mb_wf mb' \<and> mb_capacity mb' = mb_capacity mb" using post' b
    by (auto simp: mb_wf_def split: if_splits)
  show "ok \<longleftrightarrow> length (mb_contents mb) \<noteq> mb_capacity mb - 1"
    unfolding full using post' by (auto split: if_splits)
  show "mb_contents mb' = (if ok then mb_contents mb @ [x] else mb_contents mb)" using post' b
    by (auto simp: mb_contents_def ring_list_put split: if_splits)
  show "mb_overflow mb' = (if ok then mb_overflow mb else mb_overflow mb + 1)" using post'
    by (auto split: if_splits)
qed

lemma mb_receive_contents:
  assumes wf: "mb_wf mb" and rcv: "syn_mailbox_receive mb = (r, mb')"
  shows "mb_wf mb' \<and> mb_capacity mb' = mb_capacity mb"
    and "case mb_contents mb of [] \<Rightarrow> r = None \<and> mb_contents mb' = []
         | y # ys \<Rightarrow> r = Some y \<and> mb_contents mb' = ys"
proof -
  note b = wf [unfolded mb_wf_def]
  note rcv' = rcv [unfolded syn_mailbox_receive_def Let_def mb_next]
  show "mb_wf mb' \<and> mb_capacity mb' = mb_capacity mb" using rcv' b
    by (auto simp: mb_wf_def split: if_splits)
  show "case mb_contents mb of [] \<Rightarrow> r = None \<and> mb_contents mb' = []
        | y # ys \<Rightarrow> r = Some y \<and> mb_contents mb' = ys"
  proof (cases "mb_head mb = mb_tail mb")
    case True
    then show ?thesis using rcv' by (simp add: mb_contents_def ring_list_def ring_count_def)
  next
    case False
    with b have "mb_contents mb = mb_buf mb ! mb_tail mb
        # ring_list (mb_buf mb) (mb_capacity mb) (mb_head mb) (ring_next (mb_capacity mb) (mb_tail mb))"
      by (simp add: mb_contents_def ring_list_get)
    then show ?thesis using rcv' False by (auto simp: mb_contents_def)
  qed
qed

interpretation mailbox_fifo: bounded_fifo mb_wf mb_contents "\<lambda>mb. mb_capacity mb - 1"
    "\<lambda>x mb. syn_mailbox_post mb x" syn_mailbox_receive
proof (unfold_locales, goal_cases)
  case (1 mb)
  then show ?case
    using ring_count_less [of "mb_head mb" "mb_capacity mb" "mb_tail mb"]
    by (auto simp: mb_contents_def mb_wf_def)
next
  case (2 q x ok q') then show ?case using mb_post_contents [OF 2(1) 2(3)] by simp
next
  case (3 q x ok q') then show ?case using mb_post_contents [OF 3(1) 3(3)] by simp
next
  case (4 q x ok q') then show ?case using mb_post_contents(1) [OF 4] by simp
next
  case (5 q r q') then show ?case using mb_receive_contents(2) [OF 5] by simp
next
  case (6 q r q') then show ?case using mb_receive_contents(1) [OF 6] by simp
qed

subsection \<open>Properties\<close>

lemma mailbox_post_all:
  "mb_wf mb \<Longrightarrow> fifo_run (\<lambda>x mb. syn_mailbox_post mb x) syn_mailbox_receive (map Enq msgs) mb = (acc, del, mb')
   \<Longrightarrow> acc = take (mb_capacity mb - 1 - length (mb_contents mb)) msgs \<and> del = []
     \<and> mb_overflow mb' = mb_overflow mb
         + of_nat (length msgs - (mb_capacity mb - 1 - length (mb_contents mb)))"
proof (induction msgs arbitrary: mb acc del mb')
  case (Cons x msgs)
  obtain ok mb1 where post: "syn_mailbox_post mb x = (ok, mb1)" by fastforce
  obtain a d mb2 where run:
    "fifo_run (\<lambda>x mb. syn_mailbox_post mb x) syn_mailbox_receive (map Enq msgs) mb1 = (a, d, mb2)"
    by (metis prod_cases3)
  note p = mb_post_contents [OF Cons.prems(1) post]
  have bound: "length (mb_contents mb) \<le> mb_capacity mb - 1"
    using mailbox_fifo.contents_bound [OF Cons.prems(1)] .
  have IH: "a = take (mb_capacity mb1 - 1 - length (mb_contents mb1)) msgs \<and> d = []
     \<and> mb_overflow mb2 = mb_overflow mb1 + of_nat (length msgs - (mb_capacity mb1 - 1 - length (mb_contents mb1)))"
    using Cons.IH [OF _ run] p(1) by simp
  show ?case
  proof (cases ok)
    case True
    with p bound have free: "mb_capacity mb - 1 - length (mb_contents mb)
        = Suc (mb_capacity mb1 - 1 - length (mb_contents mb1))" by auto
    show ?thesis unfolding free using True IH p Cons.prems(2) by (simp add: post run)
  next
    case False
    with p have "mb_capacity mb - 1 - length (mb_contents mb) = 0"
      "mb_capacity mb1 - 1 - length (mb_contents mb1) = 0" by auto
    then show ?thesis using False IH p Cons.prems(2) by (simp add: post run)
  qed
qed simp

text \<open>
  a mailbox initialised with \<open>capacity\<close> slots accepts exactly the first \<open>capacity - 1\<close> of a
  burst of messages and counts every other one as an overflow (modulo the 32-bit counter): one
  slot always stays empty.
\<close>

theorem mailbox_burst:
  assumes "0 < capacity" and "length buf = capacity"
    and "fifo_run (\<lambda>x mb. syn_mailbox_post mb x) syn_mailbox_receive (map Enq msgs)
           (syn_mailbox_init mb buf msg_size capacity) = (accepted, delivered, mb')"
  shows "accepted = take (capacity - 1) msgs \<and> mb_contents mb' = accepted
    \<and> syn_mailbox_overflows mb' = of_nat (length msgs - (capacity - 1))"
proof -
  let ?mb = "syn_mailbox_init mb buf msg_size capacity"
  note init = mb_init_wf [OF assms(1,2), of mb msg_size]
  have "mb_capacity ?mb = capacity" "mb_overflow ?mb = 0" by (simp_all add: syn_mailbox_init_def)
  with mailbox_post_all [OF init(1) assms(3)] mailbox_fifo.run_fifo [OF init(1) assms(3)] init(2)
  show ?thesis by (simp add: syn_mailbox_overflows_def)
qed

theorem mailbox_burst_witness:
  "let mb = syn_mailbox_init \<lparr>mb_buf = [], mb_msg_size = 0, mb_capacity = 0, mb_head = 0, mb_tail = 0,
                              mb_overflow = 0\<rparr> [0, 0 :: nat] 4 2;
       (accepted, delivered, mb') =
         fifo_run (\<lambda>x mb. syn_mailbox_post mb x) syn_mailbox_receive (map Enq [11, 22, 33]) mb
   in accepted = [11] \<and> mb_contents mb' = [11] \<and> syn_mailbox_overflows mb' = 2"
proof -
  let ?mb = "\<lparr>mb_buf = [], mb_msg_size = 0, mb_capacity = 0, mb_head = 0, mb_tail = 0, mb_overflow = 0\<rparr>"
  let ?mb' = "\<lparr>mb_buf = [11, 0], mb_msg_size = 4, mb_capacity = 2, mb_head = 1, mb_tail = 0, mb_overflow = 2\<rparr>"
  have run: "fifo_run (\<lambda>x mb. syn_mailbox_post mb x) syn_mailbox_receive (map Enq [11, 22, 33])
      (syn_mailbox_init ?mb [0, 0 :: nat] 4 2) = ([11], [], ?mb')"
    by (simp add: mailbox_ops Let_def)
  show ?thesis unfolding Let_def run using mailbox_burst [OF _ _ run] by simp
qed

text \<open>
  any interleaving of posts and receives delivers the accepted messages in order, each
  once.
\<close>

theorem mailbox_order:
  assumes "mb_wf mb"
    and "fifo_run (\<lambda>x mb. syn_mailbox_post mb x) syn_mailbox_receive ops mb = (accepted, delivered, mb')"
  shows "mb_contents mb @ accepted = delivered @ mb_contents mb' \<and> mb_wf mb'
    \<and> syn_mailbox_pending mb' = length (mb_contents mb') \<and> syn_mailbox_pending mb' \<le> mb_capacity mb - 1"
  using mailbox_fifo.run_fifo [OF assms] mailbox_fifo.run_keeps [OF assms]
    mailbox_fifo.contents_bound [of mb'] mb_pending_contents [of mb'] by simp

theorem mailbox_order_witness:
  "let mb = \<lparr>mb_buf = [0, 0, 0 :: nat], mb_msg_size = 4, mb_capacity = 3, mb_head = 2, mb_tail = 2, mb_overflow = 0\<rparr>;
       (accepted, delivered, mb') =
         fifo_run (\<lambda>x mb. syn_mailbox_post mb x) syn_mailbox_receive [Enq 1, Deq, Enq 2, Enq 3, Deq] mb
   in accepted = [1, 2, 3] \<and> delivered = [1, 2]
      \<and> mb_contents mb @ accepted = delivered @ mb_contents mb' \<and> syn_mailbox_pending mb' = 1"
proof -
  let ?mb = "\<lparr>mb_buf = [0, 0, 0 :: nat], mb_msg_size = 4, mb_capacity = 3, mb_head = 2, mb_tail = 2, mb_overflow = 0\<rparr>"
  let ?mb' = "\<lparr>mb_buf = [2, 3, 1 :: nat], mb_msg_size = 4, mb_capacity = 3, mb_head = 2, mb_tail = 1, mb_overflow = 0\<rparr>"
  have wf: "mb_wf ?mb" by (simp add: mb_wf_def)
  have run: "fifo_run (\<lambda>x mb. syn_mailbox_post mb x) syn_mailbox_receive [Enq 1, Deq, Enq 2, Enq 3, Deq] ?mb
      = ([1, 2, 3], [1, 2], ?mb')"
    by (simp add: mailbox_ops Let_def)
  show ?thesis unfolding Let_def run using mailbox_order [OF wf run] by (simp add: syn_mailbox_pending_def)
qed

end
