(* ===== verification/Syn_Workqueue.thy ===== *)
theory Syn_Workqueue
  imports Syn_Spsc
begin

text \<open>
  The deferred work queue of \<^verbatim>\<open>sched/syn_workqueue.c\<close>, a client of the SPSC queue. A work
  function is named by a value of type \<open>'f\<close>; the argument \<open>run\<close> of \<open>syn_workqueue_process\<close> says
  what calling it does to the queue and to the rest of the system, so a work function may itself
  post. Because of that the processing loop need not end, and it is a partial function: \<open>None\<close>
  is a run that does not return. It is shown to return, with every pending item executed once
  in order, whenever the work functions leave the queue alone.
\<close>

record 'f syn_work_item =
  wi_func :: "'f option"
  wi_ctx :: ptr

record 'f syn_workqueue =
  wq_queue :: "'f syn_work_item syn_spsc"
  wq_overflow :: u32

definition syn_workqueue_init :: "'f syn_workqueue \<Rightarrow> 'f syn_work_item list option \<Rightarrow> nat \<Rightarrow> nat
    \<Rightarrow> 'f syn_workqueue" where
  "syn_workqueue_init wq buf item_size capacity =
     (if buf = None \<or> capacity \<le> 1 then wq
      else
        let q = the (snd (syn_spsc_queue_init (Some (wq_queue wq)) buf item_size capacity));
            zeroed = replicate capacity \<lparr>wi_func = None, wi_ctx = None\<rparr>
                       @ drop capacity (the buf)
        in wq\<lparr>wq_queue := q\<lparr>sq_buffer := Some zeroed\<rparr>, wq_overflow := 0\<rparr>)"

definition syn_workqueue_post :: "'f syn_workqueue option \<Rightarrow> 'f option \<Rightarrow> ptr
    \<Rightarrow> bool \<times> 'f syn_workqueue option" where
  "syn_workqueue_post wq func ctx =
     (case (wq, func) of
        (Some w, Some f) \<Rightarrow>
          (let item = \<lparr>wi_func = Some f, wi_ctx = ctx\<rparr>;
               (status, q) = syn_spsc_queue_push (Some (wq_queue w)) (Some item);
               w' = w\<lparr>wq_queue := the q\<rparr>
           in if status \<noteq> SYN_OK then (False, Some (w'\<lparr>wq_overflow := wq_overflow w' + 1\<rparr>))
              else (True, Some w'))
      | _ \<Rightarrow> (False, wq))"

type_synonym ('f, 'w) work_run = "'f \<Rightarrow> ptr \<Rightarrow> 'f syn_workqueue \<times> 'w \<Rightarrow> 'f syn_workqueue \<times> 'w"

partial_function (option) workqueue_loop :: "('f, 'w) work_run \<Rightarrow> 'f syn_workqueue \<times> 'w \<Rightarrow> nat
    \<Rightarrow> (nat \<times> 'f syn_workqueue \<times> 'w) option" where
  "workqueue_loop run s count =
     (case syn_spsc_queue_pop (Some (wq_queue (fst s))) True of
        (SYN_OK, Some item, q) \<Rightarrow>
          (let s1 = ((fst s)\<lparr>wq_queue := the q\<rparr>, snd s)
           in case wi_func item of
                Some f \<Rightarrow> workqueue_loop run (run f (wi_ctx item) s1) (count + 1)
              | None \<Rightarrow> workqueue_loop run s1 count)
      | _ \<Rightarrow> Some (count, s))"

definition syn_workqueue_process :: "('f, 'w) work_run \<Rightarrow> 'f syn_workqueue option \<times> 'w
    \<Rightarrow> (nat \<times> 'f syn_workqueue option \<times> 'w) option" where
  "syn_workqueue_process run s =
     (case fst s of
        None \<Rightarrow> Some (0, s)
      | Some wq \<Rightarrow>
          map_option (\<lambda>(n, wq', w'). (n, Some wq', w')) (workqueue_loop run (wq, snd s) 0))"

definition syn_workqueue_empty :: "'f syn_workqueue \<Rightarrow> bool" where
  "syn_workqueue_empty wq = syn_spsc_queue_is_empty (Some (wq_queue wq))"

definition syn_workqueue_pending :: "'f syn_workqueue \<Rightarrow> nat" where
  "syn_workqueue_pending wq = syn_spsc_queue_count (Some (wq_queue wq))"

definition syn_workqueue_overflows :: "'f syn_workqueue \<Rightarrow> u32" where
  "syn_workqueue_overflows wq = wq_overflow wq"

subsection \<open>Invariant and behaviour\<close>

text \<open>Besides the queue's own invariant, only items with a function are queued.\<close>

definition wq_wf :: "'f syn_workqueue \<Rightarrow> bool" where
  "wq_wf wq \<longleftrightarrow> spsc_wf (wq_queue wq)
     \<and> list_all (\<lambda>i. wi_func i \<noteq> None) (spsc_contents (wq_queue wq))"

definition wq_items :: "'f syn_workqueue \<Rightarrow> ('f \<times> ptr) list" where
  "wq_items wq = map (\<lambda>i. (the (wi_func i), wi_ctx i)) (spsc_contents (wq_queue wq))"

lemma wq_init_wf:
  assumes "1 < n" "length b = n" "0 < item_size"
  shows "wq_wf (syn_workqueue_init wq (Some b) item_size n)"
    and "wq_items (syn_workqueue_init wq (Some b) item_size n) = []"
  using assms
  by (auto simp: syn_workqueue_init_def wq_wf_def wq_items_def syn_spsc_queue_init_def spsc_wf_def
      spsc_contents_def ring_list_def ring_count_def Let_def)

lemma wq_post_wf:
  assumes wf: "wq_wf wq" and post: "syn_workqueue_post (Some wq) (Some f) ctx = (ok, W)"
  obtains wq' where "W = Some wq'" "wq_wf wq'"
    "ok \<longleftrightarrow> syn_workqueue_pending wq \<noteq> sq_capacity (wq_queue wq) - 1"
    "wq_items wq' = (if ok then wq_items wq @ [(f, ctx)] else wq_items wq)"
    "wq_overflow wq' = (if ok then wq_overflow wq else wq_overflow wq + 1)"
proof -
  let ?item = "\<lparr>wi_func = Some f, wi_ctx = ctx\<rparr>"
  from wf have qwf: "spsc_wf (wq_queue wq)" by (simp add: wq_wf_def)
  obtain st Q where push: "syn_spsc_queue_push (Some (wq_queue wq)) (Some ?item) = (st, Q)" by fastforce
  obtain q' where q': "Q = Some q'" "spsc_wf q'"
      "st = (if length (spsc_contents (wq_queue wq)) = sq_capacity (wq_queue wq) - 1 then SYN_BUSY else SYN_OK)"
      "spsc_contents q' = (if st = SYN_OK then spsc_contents (wq_queue wq) @ [?item]
                           else spsc_contents (wq_queue wq))"
    using spsc_push_contents [OF qwf push] by metis
  have pend: "syn_workqueue_pending wq = length (spsc_contents (wq_queue wq))"
    using qwf by (simp add: syn_workqueue_pending_def spsc_count_contents)
  show ?thesis
  proof (cases "st = SYN_OK")
    case True
    then show ?thesis using that [of "wq\<lparr>wq_queue := q'\<rparr>"] wf q' post push pend
      by (auto simp: syn_workqueue_post_def wq_wf_def wq_items_def split: if_splits)
  next
    case False
    then show ?thesis
      using that [of "wq\<lparr>wq_queue := q', wq_overflow := wq_overflow wq + 1\<rparr>"] wf q' post push pend
      by (auto simp: syn_workqueue_post_def wq_wf_def wq_items_def Let_def split: if_splits)
  qed
qed

text \<open>Running the work functions of a list, oldest first, on the rest of the system.\<close>

definition exec_items :: "('f \<Rightarrow> ptr \<Rightarrow> 'w \<Rightarrow> 'w) \<Rightarrow> ('f \<times> ptr) list \<Rightarrow> 'w \<Rightarrow> 'w" where
  "exec_items act items w = fold (\<lambda>(f, ctx). act f ctx) items w"

lemma workqueue_loop_drains:
  assumes run: "\<And>f ctx wq w. run f ctx (wq, w) = (wq, act f ctx w)"
    and "wq_wf wq"
  shows "\<exists>wq'. workqueue_loop run (wq, w) count
      = Some (count + length (wq_items wq), wq', exec_items act (wq_items wq) w)
    \<and> wq_wf wq' \<and> wq_items wq' = [] \<and> wq_overflow wq' = wq_overflow wq"
  using \<open>wq_wf wq\<close>
proof (induction "length (wq_items wq)" arbitrary: wq w count)
  case 0
  then have c: "spsc_contents (wq_queue wq) = []" by (simp add: wq_items_def)
  obtain st r Q where pop: "syn_spsc_queue_pop (Some (wq_queue wq)) True = (st, r, Q)"
    by (metis prod_cases3)
  from 0 have "spsc_wf (wq_queue wq)" by (simp add: wq_wf_def)
  from spsc_pop_contents [OF this pop] c have "st = SYN_ERROR \<and> r = None" by auto
  then show ?case using 0 pop
    by (subst workqueue_loop.simps) (simp add: exec_items_def)
next
  case (Suc n)
  then obtain item ys where c: "spsc_contents (wq_queue wq) = item # ys"
    by (cases "spsc_contents (wq_queue wq)") (auto simp: wq_items_def)
  with Suc.prems obtain f where f: "wi_func item = Some f" and ys: "list_all (\<lambda>i. wi_func i \<noteq> None) ys"
    by (auto simp: wq_wf_def)
  obtain st r Q where pop: "syn_spsc_queue_pop (Some (wq_queue wq)) True = (st, r, Q)"
    by (metis prod_cases3)
  from Suc.prems have "spsc_wf (wq_queue wq)" by (simp add: wq_wf_def)
  from spsc_pop_contents [OF this pop] c obtain q' where q': "Q = Some q'" "spsc_wf q'"
    "st = SYN_OK" "r = Some item" "spsc_contents q' = ys" by auto
  let ?wq = "wq\<lparr>wq_queue := q'\<rparr>"
  have wf: "wq_wf ?wq" and len: "n = length (wq_items ?wq)" and
    items: "wq_items wq = (f, wi_ctx item) # wq_items ?wq"
    using q' ys c f Suc.hyps(2) by (simp_all add: wq_wf_def wq_items_def)
  from Suc.hyps(1) [OF len wf, of "act f (wi_ctx item) w" "count + 1"] obtain wq' where
    "workqueue_loop run (?wq, act f (wi_ctx item) w) (count + 1)
       = Some (count + 1 + length (wq_items ?wq), wq', exec_items act (wq_items ?wq) (act f (wi_ctx item) w))"
    "wq_wf wq'" "wq_items wq' = []" "wq_overflow wq' = wq_overflow wq" by auto
  then show ?case using pop q' f items run
    by (subst workqueue_loop.simps) (simp add: exec_items_def)
qed

subsection \<open>Properties\<close>

text \<open>
  C25: when the work functions do not touch the queue, processing returns: it has executed
  every pending item exactly once, oldest first, reports their number, and leaves the queue
  empty and the overflow count unchanged.
\<close>

theorem workqueue_process_all:
  assumes "\<And>f ctx wq w. run f ctx (wq, w) = (wq, act f ctx w)" and "wq_wf wq"
  shows "\<exists>wq'. syn_workqueue_process run (Some wq, w)
      = Some (syn_workqueue_pending wq, Some wq', exec_items act (wq_items wq) w)
    \<and> wq_wf wq' \<and> syn_workqueue_empty wq' \<and> syn_workqueue_overflows wq' = syn_workqueue_overflows wq"
proof -
  obtain wq' where loop: "workqueue_loop run (wq, w) 0
      = Some (0 + length (wq_items wq), wq', exec_items act (wq_items wq) w)"
      and wq': "wq_wf wq'" "wq_items wq' = []" "wq_overflow wq' = wq_overflow wq"
    using workqueue_loop_drains [of run act, OF assms] by metis
  from assms(2) have "syn_workqueue_pending wq = length (wq_items wq)"
    by (simp add: syn_workqueue_pending_def wq_wf_def wq_items_def spsc_count_contents)
  then show ?thesis using loop wq'
    by (intro exI [of _ wq'])
      (simp add: syn_workqueue_process_def syn_workqueue_empty_def syn_workqueue_overflows_def
        wq_wf_def wq_items_def spsc_empty_contents)
qed

theorem workqueue_process_all_witness:
  "let log = (\<lambda>f ctx (wq, w). (wq, w @ [(f, ctx)]));
       item = (\<lambda>f. \<lparr>wi_func = Some f, wi_ctx = None\<rparr>);
       wq = \<lparr>wq_queue = \<lparr>sq_buffer = Some [item (1 :: nat), item 2, item 0], sq_elem_size = 8,
                          sq_capacity = 3, sq_head = 2, sq_tail = 0\<rparr>, wq_overflow = 0\<rparr>
   in \<exists>wq'. syn_workqueue_process log (Some wq, []) = Some (2, Some wq', [(1, None), (2, None)])"
proof -
  let ?log = "\<lambda>f ctx (wq, w). (wq, w @ [(f, ctx)])"
  let ?item = "\<lambda>f. \<lparr>wi_func = Some f, wi_ctx = None\<rparr>"
  let ?wq = "\<lparr>wq_queue = \<lparr>sq_buffer = Some [?item (1 :: nat), ?item 2, ?item 0], sq_elem_size = 8,
                           sq_capacity = 3, sq_head = 2, sq_tail = 0\<rparr>, wq_overflow = 0\<rparr>"
  have c: "spsc_contents (wq_queue ?wq) = [?item 1, ?item 2]"
    by (simp add: spsc_contents_def ring_list_def ring_count_def upt_rec)
  have wf: "wq_wf ?wq" using c by (simp add: wq_wf_def spsc_wf_def)
  have p: "syn_workqueue_pending ?wq = 2" by (simp add: syn_workqueue_pending_def syn_spsc_queue_count_def)
  have i: "wq_items ?wq = [(1, None), (2, None)]" using c by (simp add: wq_items_def)
  show ?thesis
    using workqueue_process_all [of ?log "\<lambda>f ctx w. w @ [(f, ctx)]" ?wq "[]", OF _ wf]
    unfolding p i Let_def by (auto simp: exec_items_def)
qed

end
