(* ===== verification/Syn_Event_Flags.thy ===== *)
theory Syn_Event_Flags
  imports Syn_Prelude
begin

text \<open>
  The event flags of \<^verbatim>\<open>sched/syn_event_flags.c\<close>: a 32-bit register with set, clear, get and a
  non-blocking wait for any or all bits of a mask, with optional auto-clear. Each operation runs
  inside one critical section, so it is one atomic step of the model.
\<close>

record syn_event_flags =
  ef_flags :: u32

definition SYN_EVENT_FLAGS_WAIT_ANY :: u32 where "SYN_EVENT_FLAGS_WAIT_ANY = 1"
definition SYN_EVENT_FLAGS_WAIT_ALL :: u32 where "SYN_EVENT_FLAGS_WAIT_ALL = 2"
definition SYN_EVENT_FLAGS_AUTO_CLEAR :: u32 where "SYN_EVENT_FLAGS_AUTO_CLEAR = 4"

definition syn_event_flags_init :: "syn_event_flags option \<Rightarrow> SYN_Status \<times> syn_event_flags option" where
  "syn_event_flags_init ef =
     (case ef of None \<Rightarrow> (SYN_INVALID_PARAM, None) | Some e \<Rightarrow> (SYN_OK, Some (e\<lparr>ef_flags := 0\<rparr>)))"

definition syn_event_flags_set :: "syn_event_flags option \<Rightarrow> u32
    \<Rightarrow> SYN_Status \<times> syn_event_flags option" where
  "syn_event_flags_set ef flags_mask =
     (case ef of
        None \<Rightarrow> (SYN_INVALID_PARAM, None)
      | Some e \<Rightarrow> (SYN_OK, Some (e\<lparr>ef_flags := ef_flags e OR flags_mask\<rparr>)))"

definition syn_event_flags_clear :: "syn_event_flags option \<Rightarrow> u32
    \<Rightarrow> SYN_Status \<times> syn_event_flags option" where
  "syn_event_flags_clear ef flags_mask =
     (case ef of
        None \<Rightarrow> (SYN_INVALID_PARAM, None)
      | Some e \<Rightarrow> (SYN_OK, Some (e\<lparr>ef_flags := ef_flags e AND NOT flags_mask\<rparr>)))"

definition syn_event_flags_get :: "syn_event_flags option \<Rightarrow> u32" where
  "syn_event_flags_get ef = (case ef of None \<Rightarrow> 0 | Some e \<Rightarrow> ef_flags e)"

text \<open>The result: the status, what is stored through \<^verbatim>\<open>out_flags\<close> (if given), the register.\<close>

definition syn_event_flags_wait :: "syn_event_flags option \<Rightarrow> u32 \<Rightarrow> u32 \<Rightarrow> bool
    \<Rightarrow> SYN_Status \<times> u32 option \<times> syn_event_flags option" where
  "syn_event_flags_wait ef wait_mask mode has_out =
     (case ef of
        None \<Rightarrow> (SYN_INVALID_PARAM, None, None)
      | Some e \<Rightarrow>
          if wait_mask = 0 then (SYN_INVALID_PARAM, None, ef)
          else
            let current = ef_flags e;
                matched = current AND wait_mask;
                satisfied = (if mode AND SYN_EVENT_FLAGS_WAIT_ALL \<noteq> 0 then matched = wait_mask
                             else matched \<noteq> 0)
            in if \<not> satisfied then (SYN_BUSY, None, ef)
               else
                 let e' = (if mode AND SYN_EVENT_FLAGS_AUTO_CLEAR \<noteq> 0
                           then e\<lparr>ef_flags := ef_flags e AND NOT matched\<rparr> else e)
                 in (SYN_OK, if has_out then Some matched else None, Some e'))"

lemmas event_flags_ops [syn_defs] =
  syn_event_flags_init_def syn_event_flags_set_def syn_event_flags_clear_def
  syn_event_flags_get_def syn_event_flags_wait_def

lemma bit_mask_subset: "(a AND m = m) \<longleftrightarrow> (\<forall>n. bit m n \<longrightarrow> bit a n)" for a m :: u32
proof
  assume eq: "a AND m = m"
  have "bit a n" if "bit (a AND m) n" for n using that by (simp add: bit_and_iff)
  then show "\<forall>n. bit m n \<longrightarrow> bit a n" unfolding eq by blast
next
  assume "\<forall>n. bit m n \<longrightarrow> bit a n"
  then show "a AND m = m" by (intro bit_eqI) (auto simp: bit_and_iff)
qed

lemma word_nonzero_bit: "w \<noteq> 0 \<longleftrightarrow> (\<exists>n. bit w n)" for w :: u32
  by (metis bit_0_eq bit_eqI bot_apply bot_bool_def)

lemma and_nonzero_bit: "(a AND m \<noteq> 0) \<longleftrightarrow> (\<exists>n. bit m n \<and> bit a n)" for a m :: u32
  by (auto simp: word_nonzero_bit bit_and_iff)

lemma bit_and_not: "bit (a AND NOT m) n \<longleftrightarrow> bit a n \<and> \<not> bit m n" for a m :: u32
  using bit_imp_le_length [of a n] by (auto simp: bit_and_iff bit_not_iff)

text \<open>
  A wait on a non-empty mask succeeds exactly when some flag of the mask is set (or, with
  \<^verbatim>\<open>WAIT_ALL\<close>, every one); it then reports the set flags of the mask and, with \<^verbatim>\<open>AUTO_CLEAR\<close>, clears
  exactly those; a failed wait changes nothing. Bit by bit.
\<close>

theorem event_flags_wait_bits:
  assumes "wm \<noteq> 0" "syn_event_flags_wait (Some e) wm mode True = (st, out, ef')"
  shows "(st = SYN_OK \<longleftrightarrow> (if mode AND SYN_EVENT_FLAGS_WAIT_ALL \<noteq> 0
             then \<forall>n. bit wm n \<longrightarrow> bit (ef_flags e) n else \<exists>n. bit wm n \<and> bit (ef_flags e) n))
    \<and> (st \<noteq> SYN_OK \<longrightarrow> st = SYN_BUSY \<and> out = None \<and> ef' = Some e)
    \<and> (st = SYN_OK \<longrightarrow> (\<exists>o' e'. out = Some o' \<and> ef' = Some e'
         \<and> (\<forall>n. bit o' n \<longleftrightarrow> bit wm n \<and> bit (ef_flags e) n)
         \<and> (\<forall>n. bit (ef_flags e') n \<longleftrightarrow> bit (ef_flags e) n
               \<and> \<not> (mode AND SYN_EVENT_FLAGS_AUTO_CLEAR \<noteq> 0 \<and> bit wm n))))"
proof -
  define f m where "f = ef_flags e" and "m = ef_flags e AND wm"
  define al cl where "al \<longleftrightarrow> mode AND SYN_EVENT_FLAGS_WAIT_ALL \<noteq> 0" and "cl \<longleftrightarrow> mode AND SYN_EVENT_FLAGS_AUTO_CLEAR \<noteq> 0"
  have m: "bit m n \<longleftrightarrow> bit wm n \<and> bit f n" for n by (auto simp: m_def f_def bit_and_iff)
  have clr: "bit (f AND NOT m) n \<longleftrightarrow> bit f n \<and> \<not> bit wm n" for n by (auto simp: bit_and_not m)
  have all: "m = wm \<longleftrightarrow> (\<forall>n. bit wm n \<longrightarrow> bit f n)" by (simp add: m_def f_def bit_mask_subset)
  have any: "m \<noteq> 0 \<longleftrightarrow> (\<exists>n. bit wm n \<and> bit f n)" by (simp add: m_def f_def and_nonzero_bit)
  have "(st, out, ef') = (if \<not> (if al then m = wm else m \<noteq> 0) then (SYN_BUSY, None, Some e)
      else (SYN_OK, Some m, Some (if cl then e\<lparr>ef_flags := f AND NOT m\<rparr> else e)))"
    unfolding assms(2) [symmetric] syn_event_flags_wait_def Let_def al_def cl_def m_def f_def using assms(1) by simp
  then show ?thesis unfolding al_def [symmetric] cl_def [symmetric] f_def [symmetric]
    using m clr all any by (auto simp: f_def split: if_splits)
qed

theorem event_flags_wait_bits_witness:
  "fst (syn_event_flags_wait (Some \<lparr>ef_flags = 6\<rparr>) 4 5 True) = SYN_OK"
proof -
  obtain st out ef' where w: "syn_event_flags_wait (Some \<lparr>ef_flags = 6\<rparr>) 4 5 True = (st, out, ef')"
    by (metis prod_cases3)
  have ex: "\<exists>n. bit (4 :: u32) n \<and> bit (ef_flags \<lparr>ef_flags = 6\<rparr>) n"
    by (rule exI [of _ 2]) (simp add: bit_numeral_rec)
  have z: "(5 :: u32) AND SYN_EVENT_FLAGS_WAIT_ALL = 0" by (simp add: SYN_EVENT_FLAGS_WAIT_ALL_def)
  have "st = SYN_OK"
  proof (rule iffD2 [OF event_flags_wait_bits [OF _ w, THEN conjunct1]])
    show "if (5 :: u32) AND SYN_EVENT_FLAGS_WAIT_ALL \<noteq> 0
        then \<forall>n. bit (4 :: u32) n \<longrightarrow> bit (ef_flags \<lparr>ef_flags = 6\<rparr>) n
        else \<exists>n. bit (4 :: u32) n \<and> bit (ef_flags \<lparr>ef_flags = 6\<rparr>) n"
      using ex z by (simp only: simp_thms if_False)
  qed simp
  then show ?thesis by (simp add: w)
qed

end
