(* ===== verification/Syn_Task.thy ===== *)
theory Syn_Task
  imports Syn_Event_Flags
begin

text \<open>
  Task descriptors (\<^verbatim>\<open>sched/syn_task.h\<close>), the task-control operations of \<^verbatim>\<open>sched/syn_sched.c\<close>, and the
  protothread macros of \<^verbatim>\<open>pt/syn_pt.h\<close> that touch a descriptor. A macro that yields is two
  definitions: what it does up to its \<^verbatim>\<open>return\<close> (\<open>_enter\<close>) and what it does when the scheduler
  resumes the thread at the saved line (\<open>_resume\<close>). The task function is a name of type \<open>'f\<close>;
  the scheduler's model is given what calling it does.
\<close>

datatype SYN_TaskState =
    SYN_TASK_READY
  | SYN_TASK_SUSPENDED
  | SYN_TASK_DEAD
  | SYN_TASK_DEFERRED
  | SYN_TASK_BLOCKED
  | SYN_TASK_WAITING

datatype SYN_PT_Status = PT_WAITING | PT_YIELDED | PT_EXITED | PT_ENDED

record 'f syn_task =
  t_lc :: u16
  t_func :: 'f
  t_name :: string
  t_priority :: u8
  t_base_priority :: u8
  t_state :: SYN_TaskState
  t_delay_until :: u32
  t_user_data :: ptr
  t_wait_event :: ptr
  t_wait_mask :: u32

definition SYN_SCHED_PRIO_LEVELS :: u8 where "SYN_SCHED_PRIO_LEVELS = 8"

definition PT_INIT :: "'f syn_task \<Rightarrow> 'f syn_task" where
  "PT_INIT t = t\<lparr>t_lc := 0\<rparr>"

definition syn_task_create :: "'f syn_task \<Rightarrow> string \<Rightarrow> 'f option \<Rightarrow> u8 \<Rightarrow> ptr \<Rightarrow> 'f syn_task" where
  "syn_task_create task name func priority user_data =
     (case func of
        None \<Rightarrow> task
      | Some f \<Rightarrow>
          if priority \<ge> SYN_SCHED_PRIO_LEVELS then task
          else (PT_INIT task)\<lparr>t_func := f, t_name := name, t_priority := priority,
                 t_base_priority := priority, t_state := SYN_TASK_READY, t_delay_until := 0,
                 t_user_data := user_data, t_wait_event := None, t_wait_mask := 0\<rparr>)"

definition syn_task_suspend :: "'f syn_task \<Rightarrow> 'f syn_task" where
  "syn_task_suspend task =
     (if t_state task \<noteq> SYN_TASK_DEAD then task\<lparr>t_state := SYN_TASK_SUSPENDED\<rparr> else task)"

definition syn_task_resume :: "'f syn_task \<Rightarrow> 'f syn_task" where
  "syn_task_resume task =
     (if t_state task = SYN_TASK_SUSPENDED \<or> t_state task = SYN_TASK_BLOCKED
      then task\<lparr>t_state := SYN_TASK_READY\<rparr> else task)"

definition syn_task_restart :: "'f syn_task \<Rightarrow> 'f syn_task" where
  "syn_task_restart task =
     (PT_INIT task)\<lparr>t_delay_until := 0, t_wait_event := None, t_wait_mask := 0,
                    t_state := SYN_TASK_READY\<rparr>"

definition syn_task_is_alive :: "'f syn_task \<Rightarrow> bool" where
  "syn_task_is_alive task = (t_state task \<noteq> SYN_TASK_DEAD)"

definition syn_task_boost_priority :: "'f syn_task \<Rightarrow> u8 \<Rightarrow> 'f syn_task" where
  "syn_task_boost_priority task temp_prio =
     (if temp_prio < SYN_SCHED_PRIO_LEVELS \<and> temp_prio \<le> t_base_priority task
      then task\<lparr>t_priority := temp_prio\<rparr> else task)"

definition syn_task_restore_priority :: "'f syn_task \<Rightarrow> 'f syn_task" where
  "syn_task_restore_priority task = task\<lparr>t_priority := t_base_priority task\<rparr>"

definition syn_task_set_base_priority :: "'f syn_task \<Rightarrow> u8 \<Rightarrow> 'f syn_task" where
  "syn_task_set_base_priority task new_prio =
     (if new_prio \<ge> SYN_SCHED_PRIO_LEVELS then task
      else task\<lparr>t_base_priority := new_prio, t_priority := new_prio\<rparr>)"

lemmas task_ops [syn_defs] =
  PT_INIT_def syn_task_create_def syn_task_suspend_def syn_task_resume_def syn_task_restart_def
  syn_task_is_alive_def syn_task_boost_priority_def syn_task_restore_priority_def
  syn_task_set_base_priority_def

subsection \<open>Protothread macros\<close>

text \<open>\<^verbatim>\<open>PT_WAIT_UNTIL\<close> and \<^verbatim>\<open>PT_YIELD\<close>: save the line, then return or fall through.\<close>

definition pt_wait_until :: "u16 \<Rightarrow> bool \<Rightarrow> 'f syn_task \<Rightarrow> SYN_PT_Status option \<times> 'f syn_task" where
  "pt_wait_until line cond t = (if cond then None else Some PT_WAITING, t\<lparr>t_lc := line\<rparr>)"

definition pt_yield :: "u16 \<Rightarrow> 'f syn_task \<Rightarrow> SYN_PT_Status \<times> 'f syn_task" where
  "pt_yield line t = (PT_YIELDED, t\<lparr>t_lc := line\<rparr>)"

definition pt_end :: "'f syn_task \<Rightarrow> SYN_PT_Status \<times> 'f syn_task" where
  "pt_end t = (PT_EXITED, PT_INIT t)"

definition pt_exit :: "'f syn_task \<Rightarrow> SYN_PT_Status \<times> 'f syn_task" where
  "pt_exit t = (PT_ENDED, PT_INIT t)"

definition pt_restart :: "'f syn_task \<Rightarrow> SYN_PT_Status \<times> 'f syn_task" where
  "pt_restart t = (PT_WAITING, PT_INIT t)"

text \<open>\<^verbatim>\<open>PT_TASK_DELAY_MS\<close>: arm the deadline (0 means none), wait for it, consume it.\<close>

definition deadline :: "u32 \<Rightarrow> u32 \<Rightarrow> u32" where
  "deadline now ms = (let target = now + ms in if target = 0 then 1 else target)"

definition pt_delay_resume :: "u32 \<Rightarrow> 'f syn_task \<Rightarrow> SYN_PT_Status option \<times> 'f syn_task" where
  "pt_delay_resume now t =
     (if tick_reached now (t_delay_until t) then (None, t\<lparr>t_delay_until := 0\<rparr>)
      else (Some PT_WAITING, t))"

definition pt_delay_enter :: "u16 \<Rightarrow> u32 \<Rightarrow> u32 \<Rightarrow> 'f syn_task \<Rightarrow> SYN_PT_Status option \<times> 'f syn_task" where
  "pt_delay_enter line now ms t = pt_delay_resume now (t\<lparr>t_delay_until := deadline now ms, t_lc := line\<rparr>)"

definition pt_defer :: "u16 \<Rightarrow> 'f syn_task \<Rightarrow> SYN_PT_Status \<times> 'f syn_task" where
  "pt_defer line t = pt_yield line (t\<lparr>t_state := SYN_TASK_DEFERRED\<rparr>)"

definition pt_block_event_enter :: "u16 \<Rightarrow> nat \<Rightarrow> u32 \<Rightarrow> 'f syn_task \<Rightarrow> SYN_PT_Status \<times> 'f syn_task" where
  "pt_block_event_enter line grp msk t =
     pt_yield line (t\<lparr>t_wait_event := Some grp, t_wait_mask := msk, t_state := SYN_TASK_BLOCKED\<rparr>)"

text \<open>On resumption the matched flags are cleared in the group (an index into the flag registers).\<close>

definition pt_block_event_resume :: "nat \<Rightarrow> (nat \<Rightarrow> syn_event_flags) \<Rightarrow> 'f syn_task
    \<Rightarrow> (nat \<Rightarrow> syn_event_flags) \<times> 'f syn_task" where
  "pt_block_event_resume grp evs t =
     (let matched = t_wait_mask t;
          evs' = (if matched \<noteq> 0
                  then evs(grp := the (snd (syn_event_flags_clear (Some (evs grp)) matched)))
                  else evs)
      in (evs', t\<lparr>t_wait_mask := 0\<rparr>))"

definition pt_block_event_timeout_enter :: "u16 \<Rightarrow> u32 \<Rightarrow> nat \<Rightarrow> u32 \<Rightarrow> u32 \<Rightarrow> 'f syn_task
    \<Rightarrow> SYN_PT_Status \<times> 'f syn_task" where
  "pt_block_event_timeout_enter line now grp msk timeout_ms t =
     pt_yield line (t\<lparr>t_wait_event := Some grp, t_wait_mask := msk,
                      t_delay_until := deadline now timeout_ms, t_state := SYN_TASK_BLOCKED\<rparr>)"

definition pt_block_event_timeout_resume :: "nat \<Rightarrow> (nat \<Rightarrow> syn_event_flags) \<Rightarrow> 'f syn_task
    \<Rightarrow> u32 \<times> (nat \<Rightarrow> syn_event_flags) \<times> 'f syn_task" where
  "pt_block_event_timeout_resume grp evs t =
     (let t1 = t\<lparr>t_delay_until := 0\<rparr>; matched = t_wait_mask t1
      in (matched, pt_block_event_resume grp evs t1))"

text \<open>\<^verbatim>\<open>PT_BLOCK_CONDITION\<close>: one evaluation of its loop; \<open>None\<close> falls through.\<close>

definition pt_block_condition :: "u16 \<Rightarrow> bool \<Rightarrow> 'f syn_task \<Rightarrow> SYN_PT_Status option \<times> 'f syn_task" where
  "pt_block_condition line cond t =
     (if cond then (None, t\<lparr>t_state := SYN_TASK_READY\<rparr>)
      else (Some PT_YIELDED, t\<lparr>t_state := SYN_TASK_BLOCKED, t_lc := line\<rparr>))"

lemmas pt_macros [syn_defs] =
  pt_wait_until_def pt_yield_def pt_end_def pt_exit_def pt_restart_def pt_delay_resume_def
  pt_delay_enter_def pt_defer_def pt_block_event_enter_def pt_block_event_resume_def
  pt_block_event_timeout_enter_def pt_block_event_timeout_resume_def pt_block_condition_def

subsection \<open>Well-formed descriptors\<close>

text \<open>
  Priorities index the per-priority round-robin table, and the active priority never falls
  below the configured one (0 is the highest).
\<close>

definition task_wf :: "'f syn_task \<Rightarrow> bool" where
  "task_wf t \<longleftrightarrow> t_base_priority t < SYN_SCHED_PRIO_LEVELS \<and> t_priority t \<le> t_base_priority t"

lemma task_wf_prio: "task_wf t \<Longrightarrow> unat (t_priority t) < 8"
  by (simp add: task_wf_def SYN_SCHED_PRIO_LEVELS_def word_less_nat_alt word_le_nat_alt)

lemma task_wf_create:
  "func = Some f \<Longrightarrow> priority < SYN_SCHED_PRIO_LEVELS \<Longrightarrow>
    task_wf (syn_task_create task name func priority user_data)"
  by (auto simp: task_ops task_wf_def)

lemma task_wf_control [simp]:
  assumes "task_wf t"
  shows "task_wf (syn_task_suspend t)" "task_wf (syn_task_resume t)" "task_wf (syn_task_restart t)"
    "task_wf (syn_task_boost_priority t p)" "task_wf (syn_task_restore_priority t)"
    "task_wf (syn_task_set_base_priority t p)"
  using assms by (auto simp: task_ops task_wf_def not_le)

lemma deadline_nonzero [simp]: "deadline now ms \<noteq> 0"
  by (simp add: deadline_def Let_def)

lemma deadline_dist:
  "tick_dist now (deadline now ms) = unat ms \<or> tick_dist now (deadline now ms) = (unat ms + 1) mod 2 ^ 32"
proof (cases "now + ms = 0")
  case True
  then have "ms = - now" by (simp add: add_eq_0_iff)
  then have "1 - now = ms + 1" by simp
  moreover have "deadline now ms = 1" using True by (simp add: deadline_def)
  ultimately have "tick_dist now (deadline now ms) = unat (ms + 1)" by (simp only: tick_dist_def)
  also have "\<dots> = (unat ms + 1) mod 2 ^ 32" by (simp only: unat_word_ariths) simp
  finally show ?thesis ..
next
  case False
  then show ?thesis by (simp add: deadline_def tick_dist_def Let_def)
qed

lemma deadline_dist_bounds:
  assumes "unat ms < 2 ^ 31"
  shows "unat ms \<le> tick_dist now (deadline now ms)" "tick_dist now (deadline now ms) \<le> unat ms + 1"
proof -
  have "(unat ms + 1) mod 2 ^ 32 = unat ms + 1" using assms by (intro mod_less) simp
  with deadline_dist [of now ms]
  show "unat ms \<le> tick_dist now (deadline now ms)" "tick_dist now (deadline now ms) \<le> unat ms + 1" by auto
qed

end
