(* ===== verification/Syn_Sched.thy ===== *)
theory Syn_Sched
  imports Syn_Task
begin

text \<open>
  The cooperative scheduler of \<^verbatim>\<open>sched/syn_sched.c\<close>. The kernel state is the task array, the
  per-priority round-robin indices, the event-flag registers the tasks may block on, and the rest
  of the system. Calling a task function is the parameter \<open>body\<close>: given the function's name and
  the task's index it may change the whole kernel, as C code with pointers may. One tick scans
  the array for the best candidate (highest priority, then nearest after that priority's
  round-robin index), runs it, and retries while the task only reports \<^verbatim>\<open>PT_WAITING\<close>. The two
  metrics counters are not modelled; nothing reads them here.
\<close>

record ('f, 'w) kernel =
  k_tasks :: "'f syn_task list"
  k_rr :: "u16 list"
  k_events :: "nat \<Rightarrow> syn_event_flags"
  k_world :: 'w

type_synonym ('f, 'w) body = "'f \<Rightarrow> nat \<Rightarrow> ('f, 'w) kernel \<Rightarrow> SYN_PT_Status \<times> ('f, 'w) kernel"

definition syn_sched_init :: "('f, 'w) kernel \<Rightarrow> 'f syn_task list \<Rightarrow> ('f, 'w) kernel" where
  "syn_sched_init k tasks =
     (if length tasks > 65535 then k
      else k\<lparr>k_tasks := tasks, k_rr := replicate (unat SYN_SCHED_PRIO_LEVELS) 0\<rparr>)"

definition set_task :: "nat \<Rightarrow> ('f syn_task \<Rightarrow> 'f syn_task) \<Rightarrow> ('f, 'w) kernel \<Rightarrow> ('f, 'w) kernel" where
  "set_task i f k = k\<lparr>k_tasks := (k_tasks k)[i := f (k_tasks k ! i)]\<rparr>"

definition sched_run_task :: "('f, 'w) body \<Rightarrow> nat \<Rightarrow> ('f, 'w) kernel
    \<Rightarrow> SYN_PT_Status \<times> ('f, 'w) kernel" where
  "sched_run_task body i k =
     (let (status, k1) = body (t_func (k_tasks k ! i)) i k
      in (status,
          if status = PT_EXITED \<or> status = PT_ENDED
          then set_task i (\<lambda>t. t\<lparr>t_state := SYN_TASK_DEAD\<rparr>) k1 else k1))"

text \<open>
  The part of the scan's loop body that looks at one task: the task afterwards (a blocked task
  whose event fired or whose deadline passed becomes ready), whether it counts as alive, and
  whether it is a candidate.
\<close>

definition sched_check :: "u32 \<Rightarrow> (nat \<Rightarrow> syn_event_flags) \<Rightarrow> 'f syn_task
    \<Rightarrow> 'f syn_task \<times> bool \<times> bool" where
  "sched_check now evs task =
     (if t_state task = SYN_TASK_DEAD then (task, False, False)
      else if t_state task = SYN_TASK_SUSPENDED \<or> t_state task = SYN_TASK_DEFERRED
              \<or> t_state task = SYN_TASK_WAITING then (task, True, False)
      else
        let matched = (case t_wait_event task of
                         None \<Rightarrow> 0
                       | Some e \<Rightarrow> syn_event_flags_get (Some (evs e)) AND t_wait_mask task);
            timeout_elapsed = (t_delay_until task \<noteq> 0 \<and> tick_reached now (t_delay_until task));
            still_blocked = (t_state task = SYN_TASK_BLOCKED \<and> \<not> (matched \<noteq> 0 \<or> timeout_elapsed));
            task1 = (if t_state task = SYN_TASK_BLOCKED \<and> \<not> still_blocked
                     then task\<lparr>t_wait_mask := matched, t_wait_event := None, t_delay_until := 0,
                               t_state := SYN_TASK_READY\<rparr>
                     else task)
        in if still_blocked then (task, True, False)
           else if t_delay_until task1 \<noteq> 0 \<and> tick_before now (t_delay_until task1)
                then (task1, True, False)
                else (task1, True, True))"

text \<open>Distance of index \<open>i\<close> from the round-robin start of a priority, going up and around.\<close>

definition sched_dist :: "u16 list \<Rightarrow> nat \<Rightarrow> u8 \<Rightarrow> nat \<Rightarrow> nat" where
  "sched_dist rr n prio i =
     (let rr0 = unat (rr ! unat prio);
          rr_start = (if rr0 \<ge> n then 0 else rr0)
      in if i \<ge> rr_start then i - rr_start else n - rr_start + i)"

record sched_best =
  sb_task :: "nat option"
  sb_prio :: u8
  sb_dist :: nat

definition sched_better :: "sched_best \<Rightarrow> sched_best \<Rightarrow> bool" where
  "sched_better c b \<longleftrightarrow> sb_prio c < sb_prio b \<or> (sb_prio c = sb_prio b \<and> sb_dist c < sb_dist b)"

fun sched_scan :: "u32 \<Rightarrow> (nat \<Rightarrow> syn_event_flags) \<Rightarrow> u16 list \<Rightarrow> nat \<Rightarrow> nat \<Rightarrow> 'f syn_task list
    \<Rightarrow> sched_best \<Rightarrow> 'f syn_task list \<times> bool \<times> sched_best" where
  "sched_scan now evs rr n i [] best = ([], False, best)"
| "sched_scan now evs rr n i (task # tasks) best =
     (let (task', alive, ready) = sched_check now evs task;
          prio = t_priority task';
          cand = \<lparr>sb_task = Some i, sb_prio = prio, sb_dist = sched_dist rr n prio i\<rparr>;
          best' = (if ready \<and> sched_better cand best then cand else best);
          (tasks', any_alive, best'') = sched_scan now evs rr n (i + 1) tasks best'
      in (task' # tasks', alive \<or> any_alive, best''))"

text \<open>
  The retry loop. Its first argument counts the attempts left (\<^verbatim>\<open>n - attempts\<close>). The result is
  the kernel, the \<^verbatim>\<open>any_alive\<close> flag and the task that did useful work, if one did.
\<close>

fun sched_loop :: "nat \<Rightarrow> ('f, 'w) body \<Rightarrow> u32 \<Rightarrow> nat \<Rightarrow> ('f, 'w) kernel \<Rightarrow> bool
    \<Rightarrow> ('f, 'w) kernel \<times> bool \<times> nat option" where
  "sched_loop 0 body now n k any_alive = (k, any_alive, None)"
| "sched_loop (Suc attempts_left) body now n k any_alive =
     (let (tasks, alive, best) =
            sched_scan now (k_events k) (k_rr k) n 0 (k_tasks k)
              \<lparr>sb_task = None, sb_prio = 255, sb_dist = n\<rparr>;
          k1 = k\<lparr>k_tasks := tasks\<rparr>;
          any_alive = (any_alive \<or> alive)
      in case sb_task best of
           None \<Rightarrow> (k1, any_alive, None)
         | Some i \<Rightarrow>
             (let (status, k2) = sched_run_task body i k1
              in if status = PT_WAITING
                 then sched_loop attempts_left body now n
                        (set_task i (\<lambda>t. t\<lparr>t_state := SYN_TASK_WAITING\<rparr>) k2) any_alive
                 else
                   let next = i + 1;
                       k3 = (if t_state (k_tasks k2 ! i) \<noteq> SYN_TASK_DEFERRED
                             then k2\<lparr>k_rr := (k_rr k2)[unat (sb_prio best) :=
                                       (if next \<ge> n then 0 else of_nat next)]\<rparr>
                             else k2)
                   in (k3, any_alive, Some i)))"

definition sched_cleanup :: "nat option \<Rightarrow> 'f syn_task list \<Rightarrow> 'f syn_task list" where
  "sched_cleanup executed tasks =
     map (\<lambda>(i, t).
       if t_state t = SYN_TASK_WAITING then t\<lparr>t_state := SYN_TASK_READY\<rparr>
       else if t_state t = SYN_TASK_DEFERRED \<and> executed \<noteq> Some i then t\<lparr>t_state := SYN_TASK_READY\<rparr>
       else t) (enumerate 0 tasks)"

definition syn_sched_run :: "('f, 'w) body \<Rightarrow> u32 \<Rightarrow> ('f, 'w) kernel \<Rightarrow> bool \<times> ('f, 'w) kernel" where
  "syn_sched_run body now k =
     (let n = length (k_tasks k)
      in if n = 0 then (False, k)
         else
           let (k1, any_alive, executed) = sched_loop n body now n k False
           in (any_alive, k1\<lparr>k_tasks := sched_cleanup executed (k_tasks k1)\<rparr>))"

text \<open>\<^verbatim>\<open>syn_sched_run_forever\<close>, cut off after the ticks whose clock readings are given.\<close>

definition sched_ticks :: "('f, 'w) body \<Rightarrow> u32 list \<Rightarrow> ('f, 'w) kernel \<Rightarrow> ('f, 'w) kernel" where
  "sched_ticks body nows k = fold (\<lambda>now k. snd (syn_sched_run body now k)) nows k"

definition syn_sched_alive_count :: "('f, 'w) kernel \<Rightarrow> nat" where
  "syn_sched_alive_count k = length (filter (\<lambda>t. t_state t \<noteq> SYN_TASK_DEAD) (k_tasks k))"

subsection \<open>Candidates and the selected task\<close>

abbreviation sched_woken :: "u32 \<Rightarrow> (nat \<Rightarrow> syn_event_flags) \<Rightarrow> 'f syn_task \<Rightarrow> 'f syn_task" where
  "sched_woken now evs t \<equiv> fst (sched_check now evs t)"

abbreviation sched_ready :: "u32 \<Rightarrow> (nat \<Rightarrow> syn_event_flags) \<Rightarrow> 'f syn_task \<Rightarrow> bool" where
  "sched_ready now evs t \<equiv> snd (snd (sched_check now evs t))"

lemma sched_check_alive: "fst (snd (sched_check now evs t)) \<longleftrightarrow> t_state t \<noteq> SYN_TASK_DEAD"
  by (simp add: sched_check_def Let_def)

lemma sched_woken_prio [simp]:
  "t_priority (sched_woken now evs t) = t_priority t"
  "t_base_priority (sched_woken now evs t) = t_base_priority t"
  "t_func (sched_woken now evs t) = t_func t"
  by (simp_all add: sched_check_def Let_def)

lemma sched_woken_wf [simp]: "task_wf (sched_woken now evs t) \<longleftrightarrow> task_wf t"
  by (simp add: task_wf_def)

text \<open>When a task is a candidate: not blocked (any more) and its deadline, if any, reached.\<close>

lemma sched_ready_iff:
  "sched_ready now evs t \<longleftrightarrow>
     t_state t = SYN_TASK_READY
       \<and> (t_delay_until t = 0 \<or> tick_reached now (t_delay_until t))
   \<or> t_state t = SYN_TASK_BLOCKED
       \<and> ((\<exists>e. t_wait_event t = Some e \<and> ef_flags (evs e) AND t_wait_mask t \<noteq> 0)
          \<or> t_delay_until t \<noteq> 0 \<and> tick_reached now (t_delay_until t))"
  by (cases "t_state t")
    (auto simp: sched_check_def Let_def syn_event_flags_get_def tick_before_not_reached
      split: option.splits)

lemma sched_ready_state: "sched_ready now evs t \<Longrightarrow> t_state (sched_woken now evs t) = SYN_TASK_READY"
  by (cases "t_state t") (auto simp: sched_check_def Let_def split: if_splits)

definition sched_cand :: "u16 list \<Rightarrow> nat \<Rightarrow> 'f syn_task list \<Rightarrow> nat \<Rightarrow> sched_best" where
  "sched_cand rr n tasks i =
     \<lparr>sb_task = Some i, sb_prio = t_priority (tasks ! i),
      sb_dist = sched_dist rr n (t_priority (tasks ! i)) i\<rparr>"

lemma sched_scan_tasks:
  "fst (sched_scan now evs rr n i tasks best) = map (sched_woken now evs) tasks"
  by (induction tasks arbitrary: i best) (simp_all add: case_prod_beta Let_def)

lemma sched_scan_alive:
  "fst (snd (sched_scan now evs rr n i tasks best)) \<longleftrightarrow> (\<exists>t\<in>set tasks. t_state t \<noteq> SYN_TASK_DEAD)"
  by (induction tasks arbitrary: i best) (auto simp: case_prod_beta Let_def sched_check_alive)

definition sched_cands :: "u32 \<Rightarrow> (nat \<Rightarrow> syn_event_flags) \<Rightarrow> u16 list \<Rightarrow> nat \<Rightarrow> nat \<Rightarrow> 'f syn_task list
    \<Rightarrow> sched_best list" where
  "sched_cands now evs rr n i tasks =
     map (\<lambda>(j, t). \<lparr>sb_task = Some j, sb_prio = t_priority t,
                    sb_dist = sched_dist rr n (t_priority t) j\<rparr>)
       (filter (\<lambda>(j, t). sched_ready now evs t) (enumerate i tasks))"

abbreviation keep_better :: "sched_best \<Rightarrow> sched_best \<Rightarrow> sched_best" where
  "keep_better c b \<equiv> (if sched_better c b then c else b)"

lemma sched_scan_best:
  "snd (snd (sched_scan now evs rr n i tasks best)) = fold keep_better (sched_cands now evs rr n i tasks) best"
  by (induction tasks arbitrary: i best) (auto simp: sched_cands_def case_prod_beta Let_def)

lemma not_better_trans: "\<not> sched_better c b \<Longrightarrow> \<not> sched_better b a \<Longrightarrow> \<not> sched_better c a"
  by (auto simp: sched_better_def)

lemma not_better_refl [simp]: "\<not> sched_better b b"
  by (simp add: sched_better_def)

lemma fold_keep_better_all:
  "fold keep_better cs b \<in> insert b (set cs) \<and> \<not> sched_better b (fold keep_better cs b)
    \<and> (\<forall>c\<in>set cs. \<not> sched_better c (fold keep_better cs b))"
proof (induction cs arbitrary: b)
  case (Cons c cs)
  show ?case
  proof (cases "sched_better c b")
    case True
    then have "\<not> sched_better b c" by (auto simp: sched_better_def)
    with True Cons.IH [of c] show ?thesis using not_better_trans [of b c] by auto
  next
    case False
    with Cons.IH [of b] show ?thesis using not_better_trans [of c b] by auto
  qed
qed simp

lemmas fold_keep_better =
  fold_keep_better_all [THEN conjunct1] fold_keep_better_all [THEN conjunct2, THEN conjunct1]
  fold_keep_better_all [THEN conjunct2, THEN conjunct2, rule_format]

text \<open>
  The scan's winner. \<open>sched_wf\<close> is the invariant of the scheduler: at most \<^verbatim>\<open>UINT16_MAX\<close> tasks,
  one round-robin index per priority level, and well-formed descriptors.
\<close>

definition sched_wf :: "('f, 'w) kernel \<Rightarrow> bool" where
  "sched_wf k \<longleftrightarrow> length (k_tasks k) \<le> 65535 \<and> length (k_rr k) = 8 \<and> (\<forall>t\<in>set (k_tasks k). task_wf t)"

definition sched_start :: "nat \<Rightarrow> sched_best" where
  "sched_start n = \<lparr>sb_task = None, sb_prio = 255, sb_dist = n\<rparr>"

definition sched_pick :: "u32 \<Rightarrow> ('f, 'w) kernel \<Rightarrow> sched_best" where
  "sched_pick now k = snd (snd (sched_scan now (k_events k) (k_rr k) (length (k_tasks k)) 0 (k_tasks k)
     (sched_start (length (k_tasks k)))))"

lemma sched_cands_set:
  "c \<in> set (sched_cands now evs rr n 0 tasks) \<longleftrightarrow>
     (\<exists>j<length tasks. sched_ready now evs (tasks ! j) \<and> c = sched_cand rr n tasks j)"
  by (fastforce simp: sched_cands_def sched_cand_def in_set_enumerate_eq image_iff)

lemma sched_cand_better_start:
  assumes "sched_wf k" "j < length (k_tasks k)"
  shows "sched_better (sched_cand rr n (k_tasks k) j) (sched_start m)"
proof -
  have "task_wf (k_tasks k ! j)" using assms by (simp add: sched_wf_def)
  from task_wf_prio [OF this] have "t_priority (k_tasks k ! j) < 255"
    by (simp add: word_less_nat_alt)
  then show ?thesis by (simp add: sched_better_def sched_cand_def sched_start_def)
qed

lemma sched_pick_None:
  assumes "sched_wf k"
  shows "sb_task (sched_pick now k) = None \<longleftrightarrow> (\<forall>t\<in>set (k_tasks k). \<not> sched_ready now (k_events k) t)"
proof -
  let ?n = "length (k_tasks k)"
  let ?cs = "sched_cands now (k_events k) (k_rr k) ?n 0 (k_tasks k)"
  have pick: "sched_pick now k = fold keep_better ?cs (sched_start ?n)"
    by (simp add: sched_pick_def sched_scan_best)
  show ?thesis
  proof
    assume none: "sb_task (sched_pick now k) = None"
    have "sched_pick now k \<notin> set ?cs" using none by (auto simp: sched_cands_set sched_cand_def)
    then have "sched_pick now k = sched_start ?n" using fold_keep_better(1) [of ?cs "sched_start ?n"] by (simp add: pick)
    then have worse: "\<not> sched_better c (sched_start ?n)" if "c \<in> set ?cs" for c
      using that fold_keep_better(3) [of c ?cs "sched_start ?n"] by (simp add: pick)
    have "\<not> sched_ready now (k_events k) (k_tasks k ! j)" if j: "j < ?n" for j
    proof
      assume "sched_ready now (k_events k) (k_tasks k ! j)"
      with j have "sched_cand (k_rr k) ?n (k_tasks k) j \<in> set ?cs" by (auto simp: sched_cands_set)
      from worse [OF this] sched_cand_better_start [OF assms j] show False by blast
    qed
    then show "\<forall>t\<in>set (k_tasks k). \<not> sched_ready now (k_events k) t"
      by (metis in_set_conv_nth)
  next
    assume none: "\<forall>t\<in>set (k_tasks k). \<not> sched_ready now (k_events k) t"
    have "c \<notin> set ?cs" for c using none by (auto simp: sched_cands_set)
    then have "?cs = []" by (metis list.set_intros(1) neq_Nil_conv)
    then show "sb_task (sched_pick now k) = None" by (simp add: pick sched_start_def)
  qed
qed

lemma sched_pick_Some:
  assumes "sched_wf k" "sb_task (sched_pick now k) = Some i"
  shows "i < length (k_tasks k)" "sched_ready now (k_events k) (k_tasks k ! i)"
    "sched_pick now k = sched_cand (k_rr k) (length (k_tasks k)) (k_tasks k) i"
    "j < length (k_tasks k) \<Longrightarrow> sched_ready now (k_events k) (k_tasks k ! j) \<Longrightarrow>
      \<not> sched_better (sched_cand (k_rr k) (length (k_tasks k)) (k_tasks k) j)
          (sched_cand (k_rr k) (length (k_tasks k)) (k_tasks k) i)"
proof -
  let ?n = "length (k_tasks k)"
  let ?cs = "sched_cands now (k_events k) (k_rr k) ?n 0 (k_tasks k)"
  have pick: "sched_pick now k = fold keep_better ?cs (sched_start ?n)"
    by (simp add: sched_pick_def sched_scan_best)
  from assms(2) have "sched_pick now k \<noteq> sched_start ?n" by (auto simp: sched_start_def)
  then have "sched_pick now k \<in> set ?cs" using fold_keep_better(1) [of ?cs "sched_start ?n"] by (simp add: pick)
  with assms(2) show i: "i < ?n" "sched_ready now (k_events k) (k_tasks k ! i)"
    "sched_pick now k = sched_cand (k_rr k) ?n (k_tasks k) i"
    by (auto simp: sched_cands_set sched_cand_def)
  show "j < ?n \<Longrightarrow> sched_ready now (k_events k) (k_tasks k ! j) \<Longrightarrow>
      \<not> sched_better (sched_cand (k_rr k) ?n (k_tasks k) j) (sched_cand (k_rr k) ?n (k_tasks k) i)"
    using fold_keep_better(3) [of _ ?cs "sched_start ?n"] i(3) by (auto simp: pick sched_cands_set)
qed

subsection \<open>One tick\<close>

definition sched_wake :: "u32 \<Rightarrow> ('f, 'w) kernel \<Rightarrow> ('f, 'w) kernel" where
  "sched_wake now k = k\<lparr>k_tasks := map (sched_woken now (k_events k)) (k_tasks k)\<rparr>"

definition rr_advance :: "nat \<Rightarrow> u8 \<Rightarrow> nat \<Rightarrow> ('f, 'w) kernel \<Rightarrow> ('f, 'w) kernel" where
  "rr_advance n prio i k =
     k\<lparr>k_rr := (k_rr k)[unat prio := (if i + 1 \<ge> n then 0 else of_nat (i + 1))]\<rparr>"

abbreviation any_alive_in :: "('f, 'w) kernel \<Rightarrow> bool" where
  "any_alive_in k \<equiv> \<exists>t\<in>set (k_tasks k). t_state t \<noteq> SYN_TASK_DEAD"

text \<open>One turn of the retry loop, in terms of the selected task.\<close>

lemma sched_loop_Suc:
  assumes "n = length (k_tasks k)"
  shows "sched_loop (Suc m) body now n k alive =
    (case sb_task (sched_pick now k) of
       None \<Rightarrow> (sched_wake now k, alive \<or> any_alive_in k, None)
     | Some i \<Rightarrow>
         (case sched_run_task body i (sched_wake now k) of
            (status, k2) \<Rightarrow>
              if status = PT_WAITING
              then sched_loop m body now n (set_task i (\<lambda>t. t\<lparr>t_state := SYN_TASK_WAITING\<rparr>) k2)
                     (alive \<or> any_alive_in k)
              else (if t_state (k_tasks k2 ! i) \<noteq> SYN_TASK_DEFERRED
                    then rr_advance n (sb_prio (sched_pick now k)) i k2 else k2,
                    alive \<or> any_alive_in k, Some i)))"
proof -
  let ?n = "length (k_tasks k)"
  obtain ts al b where scan: "sched_scan now (k_events k) (k_rr k) ?n 0 (k_tasks k) (sched_start ?n) = (ts, al, b)"
    by (metis prod_cases3)
  have facts: "ts = map (sched_woken now (k_events k)) (k_tasks k)" "al \<longleftrightarrow> any_alive_in k" "b = sched_pick now k"
    using sched_scan_tasks [of now "k_events k" "k_rr k" ?n 0 "k_tasks k" "sched_start ?n"]
      sched_scan_alive [of now "k_events k" "k_rr k" ?n 0 "k_tasks k" "sched_start ?n"]
    by (simp_all add: scan sched_pick_def)
  show ?thesis
    unfolding assms sched_loop.simps sched_start_def [symmetric] scan prod.case Let_def
    by (simp add: facts sched_wake_def rr_advance_def case_prod_beta split: option.split)
qed

lemma sched_loop_alive_True: "fst (snd (sched_loop m body now n k True))"
  by (induction m arbitrary: k) (auto simp: case_prod_beta Let_def split: option.split)

lemma sched_ready_not_dead: "sched_ready now evs t \<Longrightarrow> t_state t \<noteq> SYN_TASK_DEAD"
  by (auto simp: sched_ready_iff)

lemma sched_loop_alive:
  assumes "sched_wf k" "0 < length (k_tasks k)"
  shows "fst (snd (sched_loop (length (k_tasks k)) body now (length (k_tasks k)) k False)) \<longleftrightarrow> any_alive_in k"
proof -
  obtain m where m: "length (k_tasks k) = Suc m" using assms(2) by (cases "length (k_tasks k)") auto
  show ?thesis
  proof (cases "any_alive_in k")
    case True
    then show ?thesis
      unfolding m sched_loop_Suc [OF m [symmetric]]
      by (auto simp: sched_loop_alive_True split: option.split prod.split)
  next
    case False
    then have "sb_task (sched_pick now k) = None"
      using sched_pick_None [OF assms(1)] sched_ready_not_dead by metis
    with False show ?thesis unfolding m sched_loop_Suc [OF m [symmetric]] by simp
  qed
qed

lemma sched_cleanup_nth:
  "i < length tasks \<Longrightarrow> sched_cleanup ex tasks ! i =
     (if t_state (tasks ! i) = SYN_TASK_WAITING
         \<or> t_state (tasks ! i) = SYN_TASK_DEFERRED \<and> ex \<noteq> Some i
      then (tasks ! i)\<lparr>t_state := SYN_TASK_READY\<rparr> else tasks ! i)"
  by (simp add: sched_cleanup_def nth_enumerate_eq)

lemma length_sched_cleanup [simp]: "length (sched_cleanup ex tasks) = length tasks"
  by (simp add: sched_cleanup_def)

lemma sched_cleanup_state:
  assumes "i < length tasks"
  shows "t_state (sched_cleanup ex tasks ! i) \<noteq> SYN_TASK_WAITING"
    and "t_state (sched_cleanup ex tasks ! i) = SYN_TASK_DEFERRED \<Longrightarrow> ex = Some i"
  using assms by (auto simp: sched_cleanup_nth split: if_splits)

lemma task_wf_state [simp]: "task_wf (t\<lparr>t_state := s\<rparr>) \<longleftrightarrow> task_wf t"
  by (simp add: task_wf_def)

lemma sched_cleanup_wf: "\<forall>t\<in>set tasks. task_wf t \<Longrightarrow> \<forall>t\<in>set (sched_cleanup ex tasks). task_wf t"
  by (auto simp: in_set_conv_nth sched_cleanup_nth) (metis nth_mem)+

subsection \<open>The invariant is kept\<close>

text \<open>What the scheduler relies on: a task function keeps the invariant and the array's length.\<close>

definition body_keeps_wf :: "('f, 'w) body \<Rightarrow> bool" where
  "body_keeps_wf body \<longleftrightarrow> (\<forall>f i k st k'. sched_wf k \<longrightarrow> i < length (k_tasks k) \<longrightarrow> body f i k = (st, k')
     \<longrightarrow> sched_wf k' \<and> length (k_tasks k') = length (k_tasks k))"

lemma sched_wf_set_task: "sched_wf k \<Longrightarrow> (\<And>t. task_wf t \<Longrightarrow> task_wf (f t)) \<Longrightarrow> i < length (k_tasks k) \<Longrightarrow>
    sched_wf (set_task i f k) \<and> length (k_tasks (set_task i f k)) = length (k_tasks k)"
  by (auto simp: sched_wf_def set_task_def dest!: set_update_subset_insert [THEN subsetD])

lemma sched_wf_wake: "sched_wf k \<Longrightarrow> sched_wf (sched_wake now k)"
  by (auto simp: sched_wf_def sched_wake_def)

lemma length_sched_wake [simp]: "length (k_tasks (sched_wake now k)) = length (k_tasks k)"
  by (simp add: sched_wake_def)

lemma sched_run_task_wf:
  assumes "body_keeps_wf body" "sched_wf k" "i < length (k_tasks k)" "sched_run_task body i k = (st, k')"
  shows "sched_wf k' \<and> length (k_tasks k') = length (k_tasks k)"
proof -
  obtain k1 where b: "body (t_func (k_tasks k ! i)) i k = (st, k1)"
    using assms(4) by (auto simp: sched_run_task_def Let_def split: prod.splits)
  have "sched_wf k1 \<and> length (k_tasks k1) = length (k_tasks k)"
    using assms(1-3) b unfolding body_keeps_wf_def by blast
  moreover have "k' = k1 \<or> k' = set_task i (\<lambda>t. t\<lparr>t_state := SYN_TASK_DEAD\<rparr>) k1"
    using assms(4) b by (auto simp: sched_run_task_def split: if_splits)
  ultimately show ?thesis using assms(3) sched_wf_set_task [of k1 "\<lambda>t. t\<lparr>t_state := SYN_TASK_DEAD\<rparr>" i]
    by auto
qed

lemma sched_loop_wf:
  assumes "body_keeps_wf body"
  shows "sched_wf k \<Longrightarrow> n = length (k_tasks k) \<Longrightarrow> sched_loop m body now n k alive = (k', al, ex) \<Longrightarrow>
    sched_wf k' \<and> length (k_tasks k') = n"
proof (induction m arbitrary: k alive)
  case (Suc m)
  note loop = Suc.prems(3) [unfolded sched_loop_Suc [OF Suc.prems(2)]]
  show ?case
  proof (cases "sb_task (sched_pick now k)")
    case None
    then show ?thesis using loop Suc.prems sched_wf_wake [of k now] by auto
  next
    case (Some i)
    obtain st k2 where run: "sched_run_task body i (sched_wake now k) = (st, k2)" by fastforce
    have i: "i < length (k_tasks k)" using sched_pick_Some(1) [OF Suc.prems(1) Some] .
    have k2: "sched_wf k2 \<and> length (k_tasks k2) = length (k_tasks k)"
      using sched_run_task_wf [OF assms sched_wf_wake [OF Suc.prems(1)] _ run] i by simp
    show ?thesis
    proof (cases "st = PT_WAITING")
      case True
      let ?k = "set_task i (\<lambda>t. t\<lparr>t_state := SYN_TASK_WAITING\<rparr>) k2"
      have "sched_wf ?k \<and> length (k_tasks ?k) = length (k_tasks k)"
        using sched_wf_set_task [of k2 "\<lambda>t. t\<lparr>t_state := SYN_TASK_WAITING\<rparr>" i] k2 i by simp
      then show ?thesis using Suc.IH [of ?k] loop Some run True Suc.prems(2) by simp
    next
      case False
      then have "k_tasks k' = k_tasks k2 \<and> length (k_rr k') = length (k_rr k2)"
        using loop Some run by (auto simp: rr_advance_def split: if_splits)
      then show ?thesis using k2 Suc.prems(2) by (simp add: sched_wf_def)
    qed
  qed
qed simp

lemma syn_sched_run_wf:
  assumes "body_keeps_wf body" "sched_wf k"
  shows "sched_wf (snd (syn_sched_run body now k))
    \<and> length (k_tasks (snd (syn_sched_run body now k))) = length (k_tasks k)"
proof (cases "k_tasks k = []")
  case True
  then show ?thesis using assms(2) by (simp add: syn_sched_run_def)
next
  case False
  obtain k1 al ex where loop:
    "sched_loop (length (k_tasks k)) body now (length (k_tasks k)) k False = (k1, al, ex)" by (metis prod_cases3)
  from sched_loop_wf [OF assms refl this] show ?thesis
    using False loop sched_cleanup_wf [of "k_tasks k1" ex]
    by (simp add: syn_sched_run_def Let_def sched_wf_def)
qed

subsection \<open>Which task a tick runs\<close>

text \<open>What makes a task eligible, from the states and deadlines the documentation names.\<close>

definition task_eligible :: "u32 \<Rightarrow> (nat \<Rightarrow> syn_event_flags) \<Rightarrow> 'f syn_task \<Rightarrow> bool" where
  "task_eligible now evs t =
     (case t_state t of
        SYN_TASK_READY \<Rightarrow> t_delay_until t = 0 \<or> tick_reached now (t_delay_until t)
      | SYN_TASK_BLOCKED \<Rightarrow>
          (case t_wait_event t of None \<Rightarrow> False | Some e \<Rightarrow> ef_flags (evs e) AND t_wait_mask t \<noteq> 0)
          \<or> t_delay_until t \<noteq> 0 \<and> tick_reached now (t_delay_until t)
      | _ \<Rightarrow> False)"

lemma sched_ready_eligible: "sched_ready now evs t \<longleftrightarrow> task_eligible now evs t"
  by (cases "t_state t") (auto simp: sched_ready_iff task_eligible_def split: option.split)

lemma sched_dist_inj:
  "i < n \<Longrightarrow> j < n \<Longrightarrow> sched_dist rr n p i = sched_dist rr n p j \<Longrightarrow> i = j"
  by (auto simp: sched_dist_def Let_def split: if_splits)

lemma sched_dist_less: "i < n \<Longrightarrow> sched_dist rr n p i < n"
  by (auto simp: sched_dist_def Let_def)

text \<open>
  C1: A scan of the task array selects nothing exactly when no task is eligible, and otherwise the
  unique eligible task that comes first in the order of priority (0 first), then of distance
  after the round-robin index of that priority.
\<close>

theorem sched_selects_best:
  fixes now :: u32 and k :: "('f, 'w) kernel"
  assumes "sched_wf k"
  defines "n \<equiv> length (k_tasks k)"
  defines "best \<equiv> snd (snd (sched_scan now (k_events k) (k_rr k) n 0 (k_tasks k)
                            \<lparr>sb_task = None, sb_prio = 255, sb_dist = n\<rparr>))"
  shows "case sb_task best of
      None \<Rightarrow> \<forall>t\<in>set (k_tasks k). \<not> task_eligible now (k_events k) t
    | Some i \<Rightarrow> i < n \<and> task_eligible now (k_events k) (k_tasks k ! i)
        \<and> (\<forall>j<n. j \<noteq> i \<and> task_eligible now (k_events k) (k_tasks k ! j) \<longrightarrow>
             t_priority (k_tasks k ! i) < t_priority (k_tasks k ! j)
           \<or> t_priority (k_tasks k ! i) = t_priority (k_tasks k ! j)
             \<and> sched_dist (k_rr k) n (t_priority (k_tasks k ! i)) i
               < sched_dist (k_rr k) n (t_priority (k_tasks k ! j)) j)"
proof -
  have best: "best = sched_pick now k" by (simp add: best_def sched_pick_def sched_start_def n_def)
  show ?thesis
  proof (cases "sb_task best")
    case None
    then have "\<forall>t\<in>set (k_tasks k). \<not> task_eligible now (k_events k) t"
      using sched_pick_None [OF assms(1), of now] by (simp add: best sched_ready_eligible)
    with None show ?thesis by simp
  next
    case (Some i)
    note pick = sched_pick_Some [OF assms(1) Some [unfolded best]]
    have "sched_better (sched_cand (k_rr k) n (k_tasks k) i) (sched_cand (k_rr k) n (k_tasks k) j)"
      if j: "j < n" "j \<noteq> i" "task_eligible now (k_events k) (k_tasks k ! j)" for j
    proof -
      have "sched_dist (k_rr k) n p i \<noteq> sched_dist (k_rr k) n p j" for p
        using sched_dist_inj j(1,2) pick(1) unfolding n_def by metis
      from this [of "t_priority (k_tasks k ! i)"] show ?thesis using pick(4) [of j] j
        by (auto simp: n_def sched_ready_eligible sched_better_def sched_cand_def)
    qed
    then show ?thesis using Some pick(1,2)
      by (auto simp: n_def sched_ready_eligible sched_better_def sched_cand_def)
  qed
qed

definition demo_task :: "u8 \<Rightarrow> nat syn_task" where
  "demo_task prio = \<lparr>t_lc = 0, t_func = 0, t_name = '''', t_priority = prio, t_base_priority = prio,
     t_state = SYN_TASK_READY, t_delay_until = 0, t_user_data = None, t_wait_event = None, t_wait_mask = 0\<rparr>"

definition demo_kernel :: "(nat, nat set) kernel" where
  "demo_kernel = \<lparr>k_tasks = [demo_task 0, demo_task 1, demo_task 1], k_rr = replicate 8 0,
     k_events = (\<lambda>_. \<lparr>ef_flags = 0\<rparr>), k_world = {}\<rparr>"

lemma demo_kernel_wf: "sched_wf demo_kernel"
  by (simp add: demo_kernel_def sched_wf_def task_wf_def demo_task_def SYN_SCHED_PRIO_LEVELS_def)

theorem sched_selects_best_witness:
  "sb_task (snd (snd (sched_scan 7 (k_events demo_kernel) (k_rr demo_kernel) 3 0 (k_tasks demo_kernel)
      \<lparr>sb_task = None, sb_prio = 255, sb_dist = 3\<rparr>))) = Some 0
   \<and> task_eligible 7 (k_events demo_kernel) (k_tasks demo_kernel ! 0)"
proof -
  have n: "length (k_tasks demo_kernel) = 3" by (simp add: demo_kernel_def)
  have "sb_task (snd (snd (sched_scan 7 (k_events demo_kernel) (k_rr demo_kernel) 3 0 (k_tasks demo_kernel)
      \<lparr>sb_task = None, sb_prio = 255, sb_dist = 3\<rparr>))) = Some 0"
    by (simp add: demo_kernel_def demo_task_def sched_check_def sched_better_def sched_dist_def Let_def)
  then show ?thesis using sched_selects_best [OF demo_kernel_wf, of 7] by (simp add: n)
qed

subsection \<open>The outcome of a tick\<close>

text \<open>
  A tick reports that tasks are alive exactly when some task was not dead when it started. After
  it no task is left in the tick-local WAITING state, and at most one (the one that ran and
  deferred itself) is DEFERRED.
\<close>

theorem sched_run_outcome:
  assumes "sched_wf k" "k_tasks k \<noteq> []" "syn_sched_run body now k = (alive, k')"
  shows "(alive \<longleftrightarrow> (\<exists>t\<in>set (k_tasks k). t_state t \<noteq> SYN_TASK_DEAD))
    \<and> (\<forall>i<length (k_tasks k'). t_state (k_tasks k' ! i) \<noteq> SYN_TASK_WAITING)
    \<and> (\<forall>i<length (k_tasks k'). \<forall>j<length (k_tasks k').
         t_state (k_tasks k' ! i) = SYN_TASK_DEFERRED \<and> t_state (k_tasks k' ! j) = SYN_TASK_DEFERRED \<longrightarrow> i = j)"
proof -
  obtain k1 al ex where loop:
    "sched_loop (length (k_tasks k)) body now (length (k_tasks k)) k False = (k1, al, ex)" by (metis prod_cases3)
  have run: "alive = al" "k' = k1\<lparr>k_tasks := sched_cleanup ex (k_tasks k1)\<rparr>"
    using assms(2,3) by (auto simp: syn_sched_run_def Let_def loop)
  have "alive \<longleftrightarrow> (\<exists>t\<in>set (k_tasks k). t_state t \<noteq> SYN_TASK_DEAD)"
    using run(1) sched_loop_alive [OF assms(1), of body now] assms(2) by (simp add: loop)
  moreover have "t_state (k_tasks k' ! i) \<noteq> SYN_TASK_WAITING" if "i < length (k_tasks k')" for i
    using that run(2) sched_cleanup_state(1) [of i "k_tasks k1" ex] by simp
  moreover have "ex = Some i" if "i < length (k_tasks k')" "t_state (k_tasks k' ! i) = SYN_TASK_DEFERRED" for i
    using that run(2) sched_cleanup_state(2) [of i "k_tasks k1" ex] by simp
  ultimately show ?thesis by (metis option.inject)
qed

text \<open>A task function for the examples: tasks of priority 0 defer, the others yield; each call is recorded.\<close>

definition demo_defer :: "(nat, nat set) body" where
  "demo_defer f i k =
     (let k1 = k\<lparr>k_world := insert i (k_world k)\<rparr>
      in if t_priority (k_tasks k ! i) = 0
         then (PT_YIELDED, set_task i (\<lambda>t. snd (pt_defer 10 t)) k1)
         else (PT_YIELDED, k1))"

lemmas demo_simps = demo_kernel_def demo_task_def demo_defer_def sched_check_def sched_better_def
  sched_dist_def sched_run_task_def set_task_def pt_defer_def pt_yield_def sched_cleanup_def Let_def

lemma demo_defer_run:
  "syn_sched_run demo_defer 7 demo_kernel =
    (True, demo_kernel\<lparr>k_tasks := [snd (pt_defer 10 (demo_task 0)), demo_task 1, demo_task 1], k_world := {0}\<rparr>)"
  by (simp add: syn_sched_run_def eval_nat_numeral demo_simps)

theorem sched_run_outcome_witness:
  "fst (syn_sched_run demo_defer 7 demo_kernel)
   \<and> t_state (k_tasks (snd (syn_sched_run demo_defer 7 demo_kernel)) ! 2) \<noteq> SYN_TASK_WAITING"
proof -
  have "k_tasks demo_kernel \<noteq> []" by (simp add: demo_kernel_def)
  from sched_run_outcome [OF demo_kernel_wf this demo_defer_run]
  show ?thesis by (simp add: demo_defer_run demo_task_def)
qed

subsection \<open>Fairness\<close>

text \<open>
  What round-robin needs of the task functions. Each call is recorded in the ghost set \<open>calls\<close>;
  a call changes no priority, no round-robin index and no other task's state, in particular
  leaves task \<open>i\<close> alone, does not defer itself, and a task of higher priority than \<open>i\<close> has
  nothing to do (it only waits).
\<close>

definition fair_body :: "('w \<Rightarrow> nat set) \<Rightarrow> nat \<Rightarrow> ('f, 'w) body \<Rightarrow> bool" where
  "fair_body calls i body \<longleftrightarrow> (\<forall>f j k st k'. sched_wf k \<longrightarrow> j < length (k_tasks k) \<longrightarrow> body f j k = (st, k') \<longrightarrow>
     sched_wf k' \<and> length (k_tasks k') = length (k_tasks k) \<and> k_rr k' = k_rr k
     \<and> (\<forall>m<length (k_tasks k). t_priority (k_tasks k' ! m) = t_priority (k_tasks k ! m)
          \<and> (m \<noteq> j \<longrightarrow> t_state (k_tasks k' ! m) = t_state (k_tasks k ! m)))
     \<and> t_state (k_tasks k' ! j) \<noteq> SYN_TASK_DEFERRED
     \<and> (j \<noteq> i \<longrightarrow> k_tasks k' ! i = k_tasks k ! i)
     \<and> (t_priority (k_tasks k ! j) < t_priority (k_tasks k ! i) \<longrightarrow> st = PT_WAITING)
     \<and> insert j (calls (k_world k)) \<subseteq> calls (k_world k'))"

lemma fair_body_wf: "fair_body calls i body \<Longrightarrow> body_keeps_wf body"
  unfolding fair_body_def body_keeps_wf_def by blast

abbreviation prios :: "('f, 'w) kernel \<Rightarrow> u8 list" where
  "prios k \<equiv> map t_priority (k_tasks k)"

abbreviation active :: "('f, 'w) kernel \<Rightarrow> nat set" where
  "active k \<equiv> {j. j < length (k_tasks k) \<and> t_state (k_tasks k ! j) \<noteq> SYN_TASK_WAITING}"

text \<open>One run of a task by the scheduler, for such a body.\<close>

lemma fair_run:
  assumes "fair_body calls i body" "sched_wf k" "j < length (k_tasks k)" "sched_run_task body j k = (st, k')"
  shows "sched_wf k'" "length (k_tasks k') = length (k_tasks k)" "k_rr k' = k_rr k" "prios k' = prios k"
    "\<And>m. m < length (k_tasks k) \<Longrightarrow> m \<noteq> j \<Longrightarrow> t_state (k_tasks k' ! m) = t_state (k_tasks k ! m)"
    "t_state (k_tasks k' ! j) \<noteq> SYN_TASK_DEFERRED"
    "j \<noteq> i \<Longrightarrow> k_tasks k' ! i = k_tasks k ! i"
    "t_priority (k_tasks k ! j) < t_priority (k_tasks k ! i) \<Longrightarrow> st = PT_WAITING"
    "insert j (calls (k_world k)) \<subseteq> calls (k_world k')"
proof -
  obtain k1 where b: "body (t_func (k_tasks k ! j)) j k = (st, k1)"
    using assms(4) by (auto simp: sched_run_task_def Let_def split: prod.splits)
  note fb = assms(1) [unfolded fair_body_def, rule_format, OF assms(2,3) b]
  have k': "k' = k1 \<or> k' = set_task j (\<lambda>t. t\<lparr>t_state := SYN_TASK_DEAD\<rparr>) k1"
    using assms(4) b by (auto simp: sched_run_task_def split: if_splits)
  show "sched_wf k'" "length (k_tasks k') = length (k_tasks k)"
    using sched_run_task_wf [OF fair_body_wf [OF assms(1)] assms(2-4)] by simp_all
  show "prios k' = prios k"
  proof (rule nth_equalityI)
    fix m assume "m < length (prios k')"
    then show "prios k' ! m = prios k ! m" using k' fb by (cases "m = j") (auto simp: set_task_def)
  qed (use k' fb in \<open>auto simp: set_task_def\<close>)
  show "k_rr k' = k_rr k" "t_state (k_tasks k' ! j) \<noteq> SYN_TASK_DEFERRED"
    "j \<noteq> i \<Longrightarrow> k_tasks k' ! i = k_tasks k ! i"
    "t_priority (k_tasks k ! j) < t_priority (k_tasks k ! i) \<Longrightarrow> st = PT_WAITING"
    "insert j (calls (k_world k)) \<subseteq> calls (k_world k')"
    "\<And>m. m < length (k_tasks k) \<Longrightarrow> m \<noteq> j \<Longrightarrow> t_state (k_tasks k' ! m) = t_state (k_tasks k ! m)"
    using k' fb assms(3) by (auto simp: set_task_def)
qed

lemma sched_wake_simps [simp]:
  "k_rr (sched_wake now k) = k_rr k" "k_world (sched_wake now k) = k_world k"
  "k_events (sched_wake now k) = k_events k" "prios (sched_wake now k) = prios k"
  "i < length (k_tasks k) \<Longrightarrow> k_tasks (sched_wake now k) ! i = sched_woken now (k_events k) (k_tasks k ! i)"
  by (simp_all add: sched_wake_def)

lemma sched_woken_waiting:
  "t_state (sched_woken now evs t) = SYN_TASK_WAITING \<longleftrightarrow> t_state t = SYN_TASK_WAITING"
  by (cases "t_state t") (auto simp: sched_check_def Let_def)

lemma sched_woken_ready: "t_state t = SYN_TASK_READY \<Longrightarrow> sched_woken now evs t = t"
  by (simp add: sched_check_def Let_def)

lemma fair_loop_mono:
  assumes "fair_body calls i body"
  shows "sched_wf k \<Longrightarrow> n = length (k_tasks k) \<Longrightarrow>
    calls (k_world k) \<subseteq> calls (k_world (fst (sched_loop m body now n k alive)))"
proof (induction m arbitrary: k alive)
  case (Suc m)
  show ?case
  proof (cases "sb_task (sched_pick now k)")
    case None
    then show ?thesis unfolding sched_loop_Suc [OF Suc.prems(2)] by simp
  next
    case (Some j)
    have j: "j < length (k_tasks (sched_wake now k))" using sched_pick_Some(1) [OF Suc.prems(1) Some] by simp
    obtain st k2 where run: "sched_run_task body j (sched_wake now k) = (st, k2)" by fastforce
    note fr = fair_run [OF assms sched_wf_wake [OF Suc.prems(1)] j run]
    let ?k = "set_task j (\<lambda>t. t\<lparr>t_state := SYN_TASK_WAITING\<rparr>) k2"
    have "sched_wf ?k \<and> length (k_tasks ?k) = length (k_tasks k2)"
      using sched_wf_set_task [of k2 "\<lambda>t. t\<lparr>t_state := SYN_TASK_WAITING\<rparr>" j] fr j by simp
    moreover have "calls (k_world ?k) = calls (k_world k2)" by (simp add: set_task_def)
    ultimately have "calls (k_world k2) \<subseteq> calls (k_world (fst (sched_loop m body now n ?k al)))" for al
      using Suc.IH [of ?k al] fr(2) Suc.prems(2) by simp
    then show ?thesis using fr(9) Some run
      unfolding sched_loop_Suc [OF Suc.prems(2)] by (auto simp: rr_advance_def)
  qed
qed simp

lemma sched_dist_advance:
  assumes "i < n" "j < n" "n \<le> 65535" "length rr = 8" "unat p < 8" "sched_dist rr n p j < sched_dist rr n p i"
  shows "sched_dist (rr[unat p := (if j + 1 \<ge> n then 0 else of_nat (j + 1))]) n p i < sched_dist rr n p i"
proof -
  have "unat (of_nat (j + 1) :: u16) = j + 1" if "j + 1 < n"
    using that assms(3) by (subst unat_of_nat) simp
  then show ?thesis using assms by (auto simp: sched_dist_def Let_def split: if_splits)
qed

text \<open>
  One tick brings a ready task \<open>i\<close> closer: either \<open>i\<close> is called, or a task of its priority that
  is nearer to the round-robin index ran, and the index moved past it.
\<close>

definition fair_ready :: "nat \<Rightarrow> ('f, 'w) kernel \<Rightarrow> bool" where
  "fair_ready i k \<longleftrightarrow> sched_wf k \<and> i < length (k_tasks k)
     \<and> t_state (k_tasks k ! i) = SYN_TASK_READY \<and> t_delay_until (k_tasks k ! i) = 0"

abbreviation fair_dist :: "nat \<Rightarrow> ('f, 'w) kernel \<Rightarrow> nat" where
  "fair_dist i k \<equiv> sched_dist (k_rr k) (length (k_tasks k)) (t_priority (k_tasks k ! i)) i"

lemma fair_ready_pick:
  assumes "fair_ready i k"
  obtains j where "sb_task (sched_pick now k) = Some j"
proof -
  have "sched_ready now (k_events k) (k_tasks k ! i)" "k_tasks k ! i \<in> set (k_tasks k)"
    using assms by (auto simp: fair_ready_def sched_ready_iff)
  then have "sb_task (sched_pick now k) \<noteq> None"
    using sched_pick_None [of k now] assms by (auto simp: fair_ready_def)
  with that show thesis by blast
qed

lemma fair_pick_order:
  assumes "fair_ready i k" "sb_task (sched_pick now k) = Some j" "j \<noteq> i"
  shows "t_priority (k_tasks k ! j) < t_priority (k_tasks k ! i)
    \<or> t_priority (k_tasks k ! j) = t_priority (k_tasks k ! i)
      \<and> sched_dist (k_rr k) (length (k_tasks k)) (t_priority (k_tasks k ! i)) j < fair_dist i k"
proof -
  have wf: "sched_wf k" and i: "i < length (k_tasks k)" "sched_ready now (k_events k) (k_tasks k ! i)"
    using assms(1) by (auto simp: fair_ready_def sched_ready_iff)
  note pick = sched_pick_Some [OF wf assms(2)]
  have "sched_dist (k_rr k) (length (k_tasks k)) p i \<noteq> sched_dist (k_rr k) (length (k_tasks k)) p j" for p
    using sched_dist_inj i(1) pick(1) assms(3) by metis
  from this [of "t_priority (k_tasks k ! i)"] show ?thesis
    using pick(4) [OF i] by (auto simp: sched_better_def sched_cand_def)
qed

text \<open>Marking the task that waited shrinks the set of tasks the rest of the tick may try.\<close>

lemma fair_waiting:
  assumes "fair_body calls i body" "fair_ready i k" "sb_task (sched_pick now k) = Some j" "j \<noteq> i"
    "sched_run_task body j (sched_wake now k) = (st, k2)"
  defines "k3 \<equiv> set_task j (\<lambda>t. t\<lparr>t_state := SYN_TASK_WAITING\<rparr>) k2"
  shows "fair_ready i k3" "k_rr k3 = k_rr k" "prios k3 = prios k" "active k3 = active k - {j}" "j \<in> active k"
proof -
  have wf: "sched_wf k" and i: "i < length (k_tasks k)" using assms(2) by (auto simp: fair_ready_def)
  note pick = sched_pick_Some [OF wf assms(3)]
  have j: "j < length (k_tasks (sched_wake now k))" using pick(1) by simp
  note fr = fair_run [OF assms(1) sched_wf_wake [OF wf] j assms(5)]
  have set: "sched_wf k3 \<and> length (k_tasks k3) = length (k_tasks k2)"
    unfolding k3_def using sched_wf_set_task [of k2 _ j] fr(1,2) j by simp
  have ti: "k_tasks k3 ! i = k_tasks k ! i"
    using fr(7) assms(2,4) i by (simp add: k3_def set_task_def fair_ready_def sched_woken_ready)
  show "fair_ready i k3" using set fr(2) ti assms(2) by (simp add: fair_ready_def)
  show "k_rr k3 = k_rr k" using fr(3) by (simp add: k3_def set_task_def)
  have "prios k3 = (prios k2)[j := prios k2 ! j]" using j fr(2) by (simp add: k3_def set_task_def map_update)
  then show "prios k3 = prios k" using fr(4) by simp
  show "j \<in> active k" using pick(1,2) by (auto simp: sched_ready_iff)
  have "t_state (k_tasks k3 ! m) = SYN_TASK_WAITING \<longleftrightarrow> m = j \<or> t_state (k_tasks k ! m) = SYN_TASK_WAITING"
    if "m < length (k_tasks k)" for m
    using that fr(2,5) by (cases "m = j") (auto simp: k3_def set_task_def sched_woken_waiting)
  then show "active k3 = active k - {j}" using set fr(2) by auto
qed

text \<open>The round-robin index moves past a task of the same priority that ran.\<close>

lemma fair_advance:
  assumes "fair_body calls i body" "fair_ready i k" "j < length (k_tasks k)" "j \<noteq> i"
    "sched_run_task body j (sched_wake now k) = (st, k2)"
    "sched_dist (k_rr k) (length (k_tasks k)) (t_priority (k_tasks k ! i)) j < fair_dist i k"
  defines "k3 \<equiv> rr_advance (length (k_tasks k)) (t_priority (k_tasks k ! i)) j k2"
  shows "fair_ready i k3 \<and> prios k3 = prios k \<and> fair_dist i k3 < fair_dist i k"
proof -
  let ?n = "length (k_tasks k)" and ?p = "t_priority (k_tasks k ! i)"
  have wf: "sched_wf k" and i: "i < ?n" using assms(2) by (auto simp: fair_ready_def)
  note fr = fair_run [OF assms(1) sched_wf_wake [OF wf] _ assms(5), simplified, OF assms(3)]
  have ti: "k_tasks k3 ! i = k_tasks k ! i"
    using fr(7) assms(2,4) i by (simp add: k3_def rr_advance_def fair_ready_def sched_woken_ready)
  have "fair_ready i k3" using assms(2) fr(1,2) ti
    by (simp add: fair_ready_def k3_def rr_advance_def sched_wf_def)
  moreover have "length (k_tasks k3) = ?n" using fr(2) by (simp add: k3_def rr_advance_def)
  moreover have "k_rr k3 = (k_rr k)[unat ?p := (if j + 1 \<ge> ?n then 0 else of_nat (j + 1))]"
    using fr(3) by (simp add: k3_def rr_advance_def)
  moreover have "unat ?p < 8" using wf i by (intro task_wf_prio) (simp add: sched_wf_def)
  moreover have "?n \<le> 65535" "length (k_rr k) = 8" using wf by (simp_all add: sched_wf_def)
  moreover have "prios k3 = prios k" using fr(4) by (simp add: k3_def rr_advance_def)
  ultimately show ?thesis
    using sched_dist_advance [of i ?n j "k_rr k" ?p] assms(6) i assms(3) ti by simp
qed

lemma fair_loop:
  assumes "fair_body calls i body"
  shows "fair_ready i k \<Longrightarrow> n = length (k_tasks k) \<Longrightarrow> card (active k) \<le> m \<Longrightarrow>
    sched_loop m body now n k alive = (k', al, ex) \<Longrightarrow>
    i \<in> calls (k_world k')
    \<or> fair_ready i k' \<and> prios k' = prios k \<and> fair_dist i k' < fair_dist i k"
proof (induction m arbitrary: k alive)
  case 0
  then have "active k = {}" by simp
  then show ?case using 0(1) by (auto simp: fair_ready_def)
next
  case (Suc m)
  note loop = Suc.prems(4) [unfolded sched_loop_Suc [OF Suc.prems(2)]]
  have wf: "sched_wf k" and i: "i < length (k_tasks k)" using Suc.prems(1) by (auto simp: fair_ready_def)
  obtain j where j: "sb_task (sched_pick now k) = Some j" using fair_ready_pick [OF Suc.prems(1)] .
  obtain st k2 where run: "sched_run_task body j (sched_wake now k) = (st, k2)" by fastforce
  have jlen: "j < length (k_tasks (sched_wake now k))" using sched_pick_Some(1) [OF wf j] by simp
  note fr = fair_run [OF assms sched_wf_wake [OF wf] jlen run]
  let ?k3 = "set_task j (\<lambda>t. t\<lparr>t_state := SYN_TASK_WAITING\<rparr>) k2"
  have wf3: "sched_wf ?k3 \<and> length (k_tasks ?k3) = n"
    using sched_wf_set_task [of k2 _ j] fr(1,2) jlen Suc.prems(2) by simp
  show ?case
  proof (cases "j = i")
    case True
    have "calls (k_world k2) \<subseteq> calls (k_world k')"
    proof (cases "st = PT_WAITING")
      case True
      then have "sched_loop m body now n ?k3 (alive \<or> any_alive_in k) = (k', al, ex)"
        using loop j run by simp
      then show ?thesis using fair_loop_mono [OF assms, of ?k3 n m now "alive \<or> any_alive_in k"] wf3
        by (simp add: set_task_def)
    next
      case False
      then show ?thesis using loop j run by (auto simp: rr_advance_def split: if_splits)
    qed
    then show ?thesis using fr(9) True by auto
  next
    case ne: False
    note fw = fair_waiting [OF assms Suc.prems(1) j ne run]
    show ?thesis
    proof (cases "st = PT_WAITING")
      case True
      have "card (active ?k3) \<le> m" using fw(4,5) Suc.prems(3) by (simp add: card_Diff_singleton)
      moreover have "sched_loop m body now n ?k3 (alive \<or> any_alive_in k) = (k', al, ex)"
        using loop j run True by simp
      ultimately have "i \<in> calls (k_world k') \<or> fair_ready i k' \<and> prios k' = prios ?k3 \<and> fair_dist i k' < fair_dist i ?k3"
        using Suc.IH [OF fw(1)] wf3 by simp
      moreover have "fair_dist i ?k3 = fair_dist i k"
        using fw(2,3) wf3 Suc.prems(2) i by (metis nth_map)
      ultimately show ?thesis using fw(3) by simp
    next
      case False
      have prio: "t_priority (k_tasks k ! j) = t_priority (k_tasks k ! i)"
        "sched_dist (k_rr k) n (t_priority (k_tasks k ! i)) j < fair_dist i k"
        using fair_pick_order [OF Suc.prems(1) j ne] fr(8) False jlen i Suc.prems(2) by auto
      have "k' = rr_advance n (sb_prio (sched_pick now k)) j k2"
        using loop j run False fr(6) by simp
      moreover have "sb_prio (sched_pick now k) = t_priority (k_tasks k ! i)"
        using sched_pick_Some(3) [OF wf j] prio(1) by (simp add: sched_cand_def)
      ultimately show ?thesis
        using fair_advance [OF assms Suc.prems(1) _ ne run] jlen prio(2) Suc.prems(2) by simp
    qed
  qed
qed

lemma fair_tick:
  fixes now :: u32
  assumes "fair_body calls i body" "fair_ready i k"
  defines "k' \<equiv> snd (syn_sched_run body now k)"
  shows "i \<in> calls (k_world k') \<or> fair_ready i k' \<and> length (k_tasks k') = length (k_tasks k) \<and> fair_dist i k' < fair_dist i k"
proof -
  let ?n = "length (k_tasks k)"
  obtain k1 al ex where loop: "sched_loop ?n body now ?n k False = (k1, al, ex)" by (metis prod_cases3)
  have k': "k' = k1\<lparr>k_tasks := sched_cleanup ex (k_tasks k1)\<rparr>"
    using assms(2) by (auto simp: k'_def syn_sched_run_def Let_def loop fair_ready_def)
  have "card (active k) \<le> card {..<?n}" by (rule card_mono) auto
  then have "card (active k) \<le> ?n" by simp
  from fair_loop [OF assms(1,2) refl this loop]
  consider "i \<in> calls (k_world k1)" | "fair_ready i k1" "prios k1 = prios k" "fair_dist i k1 < fair_dist i k" by blast
  then show ?thesis
  proof cases
    case 2
    have wf: "sched_wf k'"
      using 2(1) sched_cleanup_wf [of "k_tasks k1" ex] by (simp add: k' sched_wf_def fair_ready_def)
    have "k_tasks k' ! i = k_tasks k1 ! i" using 2(1) by (simp add: k' sched_cleanup_nth fair_ready_def)
    moreover have "length (k_tasks k1) = ?n" using 2(2) by (metis length_map)
    ultimately show ?thesis using 2(1,3) wf by (simp add: fair_ready_def k')
  qed (simp add: k')
qed

lemma fair_ticks_mono:
  assumes "fair_body calls i body"
  shows "sched_wf k \<Longrightarrow> calls (k_world k) \<subseteq> calls (k_world (sched_ticks body nows k))"
proof (induction nows arbitrary: k)
  case (Cons now nows)
  let ?n = "length (k_tasks k)"
  have "k_world (snd (syn_sched_run body now k)) = k_world (fst (sched_loop ?n body now ?n k False))"
    if "k_tasks k \<noteq> []" using that by (simp add: syn_sched_run_def Let_def case_prod_beta)
  then have "calls (k_world k) \<subseteq> calls (k_world (snd (syn_sched_run body now k)))"
    using fair_loop_mono [OF assms Cons.prems refl, of ?n now False]
    by (cases "k_tasks k = []") (auto simp: syn_sched_run_def)
  also have "\<dots> \<subseteq> calls (k_world (sched_ticks body nows (snd (syn_sched_run body now k))))"
    using Cons.IH syn_sched_run_wf [OF fair_body_wf [OF assms] Cons.prems] by blast
  finally show ?case by (simp add: sched_ticks_def)
qed (simp add: sched_ticks_def)

lemma fair_ticks:
  assumes "fair_body calls i body"
  shows "fair_ready i k \<Longrightarrow> fair_dist i k < length nows \<Longrightarrow> i \<in> calls (k_world (sched_ticks body nows k))"
proof (induction nows arbitrary: k)
  case (Cons now nows)
  let ?k = "snd (syn_sched_run body now k)"
  have run: "sched_ticks body (now # nows) k = sched_ticks body nows ?k" by (simp add: sched_ticks_def)
  have wf: "sched_wf ?k"
    using syn_sched_run_wf [OF fair_body_wf [OF assms]] Cons.prems(1) by (simp add: fair_ready_def)
  show ?case
  proof (cases "i \<in> calls (k_world ?k)")
    case True
    then show ?thesis using fair_ticks_mono [OF assms wf, of nows] by (auto simp: run)
  next
    case False
    then have "fair_ready i ?k" "fair_dist i ?k < length nows"
      using fair_tick [OF assms Cons.prems(1), of now] Cons.prems(2) by auto
    then show ?thesis using Cons.IH by (simp add: run)
  qed
qed simp

text \<open>
  C2: Round-robin fairness. A ready task \<open>i\<close> without a pending delay is called within as many
  ticks as there are tasks, whatever tasks of equal priority do with their turns, provided
  tasks of higher priority only wait: a waiting high-priority task starves nobody.
\<close>

theorem sched_no_starvation:
  assumes "fair_body calls i body" "sched_wf k" "i < length (k_tasks k)"
    "t_state (k_tasks k ! i) = SYN_TASK_READY" "t_delay_until (k_tasks k ! i) = 0"
    "length (k_tasks k) \<le> length nows"
  shows "i \<in> calls (k_world (sched_ticks body nows k))"
proof (rule fair_ticks [OF assms(1)])
  show "fair_ready i k" using assms(2-5) by (simp add: fair_ready_def)
  show "fair_dist i k < length nows"
    using sched_dist_less [OF assms(3)] assms(6) by (rule order_less_le_trans)
qed

text \<open>Tasks above priority \<open>p\<close> wait, the others yield; each call is recorded.\<close>

definition demo_yield :: "u8 \<Rightarrow> (nat, nat set) body" where
  "demo_yield p f i k =
     (if t_priority (k_tasks k ! i) < p then PT_WAITING else PT_YIELDED,
      set_task i (\<lambda>t. t\<lparr>t_lc := 10, t_state := SYN_TASK_READY\<rparr>) (k\<lparr>k_world := insert i (k_world k)\<rparr>))"

definition demo_yield_to :: "nat \<Rightarrow> (nat, nat set) body" where
  "demo_yield_to i f j k = demo_yield (t_priority (k_tasks k ! i)) f j k"

lemma demo_yield_fair: "fair_body (\<lambda>w. w) i (demo_yield_to i)"
proof -
  have "sched_wf (set_task j (\<lambda>t. t\<lparr>t_lc := 10, t_state := SYN_TASK_READY\<rparr>) (k\<lparr>k_world := w\<rparr>))"
    if "sched_wf k" "j < length (k_tasks k)" for j and k :: "(nat, nat set) kernel" and w
    using that sched_wf_set_task [of "k\<lparr>k_world := w\<rparr>" "\<lambda>t. t\<lparr>t_lc := 10, t_state := SYN_TASK_READY\<rparr>" j]
    by (simp add: sched_wf_def task_wf_def)
  then show ?thesis
    by (auto simp: fair_body_def demo_yield_def demo_yield_to_def set_task_def nth_list_update)
qed

theorem sched_no_starvation_witness:
  "2 \<in> k_world (sched_ticks (demo_yield_to 2) [0, 1, 2] demo_kernel)"
proof -
  have "t_state (k_tasks demo_kernel ! 2) = SYN_TASK_READY" "t_delay_until (k_tasks demo_kernel ! 2) = 0"
    "length (k_tasks demo_kernel) = 3"
    by (simp_all add: demo_kernel_def demo_task_def)
  then show ?thesis using sched_no_starvation [OF demo_yield_fair demo_kernel_wf, of 2 "[0, 1, 2]"] by simp
qed

subsection \<open>Deferring\<close>

text \<open>Two tasks of priority 0 that defer after each turn, and one of priority 1.\<close>

definition defer_task :: "bool \<Rightarrow> nat syn_task" where
  "defer_task d = (if d then snd (pt_defer 10 (demo_task 0)) else (demo_task 0)\<lparr>t_lc := 10\<rparr>)"

definition defer_kernel :: "bool \<Rightarrow> (nat, nat set) kernel" where
  "defer_kernel d = demo_kernel\<lparr>k_tasks := [defer_task d, defer_task (\<not> d), demo_task 1], k_world := {0, 1}\<rparr>"

lemma defer_kernel_run: "syn_sched_run demo_defer now (defer_kernel d) = (True, defer_kernel (\<not> d))"
  by (cases d) (simp_all add: syn_sched_run_def eval_nat_numeral defer_kernel_def defer_task_def demo_simps insert_commute)

text \<open>
  Deferring does not let lower-priority tasks run when two tasks of the same higher priority both
  defer after each turn: a deferred task is ready again after one tick, the two alternate, and
  the third task is never called, in any number of ticks.
\<close>

theorem sched_defer_starves: "2 \<notin> k_world (sched_ticks demo_defer nows (defer_kernel d))"
proof (induction nows arbitrary: d)
  case Nil
  then show ?case by (simp add: sched_ticks_def defer_kernel_def)
next
  case (Cons now nows)
  then show ?case using Cons.IH [of "\<not> d"] by (simp add: sched_ticks_def defer_kernel_run)
qed



text \<open>
  C21: A task that executes \<^verbatim>\<open>PT_TASK_DELAY_MS(ms)\<close> with 0 < ms < 2^31 waits, is not eligible at any
  tick before ms milliseconds have elapsed, and from ms + 1 milliseconds on (the extra one only when
  the deadline would be the reserved value 0) it is eligible and the macro falls through, wherever
  the 32-bit clock wraps.
\<close>

theorem task_delay_exact:
  assumes "0 < ms" "unat ms < 2 ^ 31" "t_state t = SYN_TASK_READY" "e < 2 ^ 31"
    "pt_delay_enter line now ms t = (r, t')"
  shows "r = Some PT_WAITING
    \<and> (e < unat ms \<longrightarrow> \<not> task_eligible (now + of_nat e) evs t' \<and> fst (pt_delay_resume (now + of_nat e) t') = Some PT_WAITING)
    \<and> (unat ms < e \<longrightarrow> task_eligible (now + of_nat e) evs t'
          \<and> pt_delay_resume (now + of_nat e) t' = (None, t'\<lparr>t_delay_until := 0\<rparr>))"
proof -
  let ?d = "deadline now ms"
  note b = deadline_dist_bounds [OF assms(2), of now]
  have after: "tick_reached (now + of_nat e) ?d \<longleftrightarrow> tick_dist now ?d \<le> e"
    using b(2) assms(2,4) by (intro tick_reached_after) simp_all
  have "now \<noteq> ?d" using b(1) assms(1) tick_dist_eq_0 [of now ?d] by (auto simp: word_less_nat_alt)
  then have "\<not> tick_reached now ?d" using tick_reached_after [of now ?d 0] b(2) assms(2) by simp
  then have "r = Some PT_WAITING" "t' = t\<lparr>t_delay_until := ?d, t_lc := line\<rparr>"
    using assms(5) by (auto simp: pt_delay_enter_def pt_delay_resume_def)
  then show ?thesis using after b assms(3) by (simp add: task_eligible_def pt_delay_resume_def)
qed

theorem task_delay_exact_witness:
  "\<not> task_eligible (4294967290 + of_nat 5) (k_events demo_kernel) (snd (pt_delay_enter 10 4294967290 10 (demo_task 0)))
   \<and> task_eligible (4294967290 + of_nat 11) (k_events demo_kernel) (snd (pt_delay_enter 10 4294967290 10 (demo_task 0)))"
proof -
  have "t_state (demo_task 0) = SYN_TASK_READY" by (simp add: demo_task_def)
  from task_delay_exact [OF _ _ this _ surjective_pairing, of 10 5 10 4294967290 "k_events demo_kernel"]
    task_delay_exact [OF _ _ this _ surjective_pairing, of 10 11 10 4294967290 "k_events demo_kernel"]
  show ?thesis by simp
qed

text \<open>
  C22: Blocking on events. A task in \<^verbatim>\<open>PT_BLOCK_EVENT\<close> is eligible exactly when a flag of its mask is
  set. When the scan at that moment wakes it, the flags it then clears are exactly the matched
  ones: a flag raised between the scan and the resumption, in the mask or not, survives, as do
  the other event groups. With a timeout, the reported flags are the matched ones, so the macro
  reports 0 exactly when it was woken by the timeout alone.
\<close>

theorem block_event_wakeup:
  assumes "t_delay_until t = 0"
    "pt_block_event_enter line g msk t = (st, t1)"
    "pt_block_event_timeout_enter line now0 g msk ms t = (st', u1)"
  shows "(task_eligible now evs t1 \<longleftrightarrow> ef_flags (evs g) AND msk \<noteq> 0)
    \<and> (task_eligible now evs u1 \<longleftrightarrow> ef_flags (evs g) AND msk \<noteq> 0 \<or> tick_reached now (deadline now0 ms))
    \<and> (task_eligible now evs t1 \<longrightarrow>
         (case pt_block_event_resume g evs2 (sched_woken now evs t1) of
            (evs3, t3) \<Rightarrow> evs3 = evs2(g := (evs2 g)\<lparr>ef_flags := ef_flags (evs2 g) AND NOT (ef_flags (evs g) AND msk)\<rparr>)
                         \<and> t_state t3 = SYN_TASK_READY \<and> t_wait_event t3 = None \<and> t_wait_mask t3 = 0))
    \<and> (task_eligible now evs u1 \<longrightarrow>
         (case pt_block_event_timeout_resume g evs2 (sched_woken now evs u1) of
            (matched, evs3, t3) \<Rightarrow> matched = ef_flags (evs g) AND msk
              \<and> evs3 = evs2(g := (evs2 g)\<lparr>ef_flags := ef_flags (evs2 g) AND NOT matched\<rparr>)
              \<and> t_state t3 = SYN_TASK_READY \<and> t_delay_until t3 = 0))"
proof -
  have t1: "t1 = t\<lparr>t_wait_event := Some g, t_wait_mask := msk, t_state := SYN_TASK_BLOCKED, t_lc := line\<rparr>"
    and u1: "u1 = t\<lparr>t_wait_event := Some g, t_wait_mask := msk, t_delay_until := deadline now0 ms,
               t_state := SYN_TASK_BLOCKED, t_lc := line\<rparr>"
    using assms(2,3) by (auto simp: pt_macros)
  show ?thesis using assms(1)
    by (auto simp: t1 u1 task_eligible_def sched_check_def Let_def pt_macros syn_event_flags_get_def
        syn_event_flags_clear_def)
qed

theorem block_event_wakeup_witness:
  "task_eligible 5 (\<lambda>_. \<lparr>ef_flags = 6\<rparr>) (snd (pt_block_event_enter 10 0 4 (demo_task 0)))
   \<and> \<not> task_eligible 5 (\<lambda>_. \<lparr>ef_flags = 2\<rparr>) (snd (pt_block_event_enter 10 0 4 (demo_task 0)))"
proof -
  have "t_delay_until (demo_task 0) = 0" by (simp add: demo_task_def)
  from block_event_wakeup [OF this surjective_pairing surjective_pairing, of 5 "\<lambda>_. \<lparr>ef_flags = 6\<rparr>" 10 0 4]
    block_event_wakeup [OF this surjective_pairing surjective_pairing, of 5 "\<lambda>_. \<lparr>ef_flags = 2\<rparr>" 10 0 4]
  show ?thesis by simp
qed

end
