(* ===== verification/Syn_Sem.thy ===== *)
theory Syn_Sem
  imports Syn_Sched
begin

text \<open>
  Counting semaphores for protothreads (\<^verbatim>\<open>pt/syn_pt_sem.h\<close>). The count is an \<^verbatim>\<open>int16_t\<close>, read
  with \<open>sint\<close>. The waiting macros are given up to their \<^verbatim>\<open>return\<close>, like those of \<^verbatim>\<open>syn_pt.h\<close>:
  \<open>None\<close> falls through with the semaphore taken.
\<close>

record syn_pt_sem =
  sem_count :: u16

definition PT_SEM_INIT :: "int \<Rightarrow> syn_pt_sem" where
  "PT_SEM_INIT initial = \<lparr>sem_count = word_of_int initial\<rparr>"

definition pt_sem_wait :: "u16 \<Rightarrow> syn_pt_sem \<Rightarrow> 'f syn_task
    \<Rightarrow> SYN_PT_Status option \<times> syn_pt_sem \<times> 'f syn_task" where
  "pt_sem_wait line s t =
     (case pt_wait_until line (0 < sint (sem_count s)) t of
        (Some r, t') \<Rightarrow> (Some r, s, t')
      | (None, t') \<Rightarrow> (None, s\<lparr>sem_count := sem_count s - 1\<rparr>, t'))"

definition pt_sem_block :: "u16 \<Rightarrow> syn_pt_sem \<Rightarrow> 'f syn_task
    \<Rightarrow> SYN_PT_Status option \<times> syn_pt_sem \<times> 'f syn_task" where
  "pt_sem_block line s t =
     (case pt_block_condition line (0 < sint (sem_count s)) t of
        (Some r, t') \<Rightarrow> (Some r, s, t')
      | (None, t') \<Rightarrow> (None, s\<lparr>sem_count := sem_count s - 1\<rparr>, t'))"

definition pt_sem_signal :: "syn_pt_sem \<Rightarrow> syn_pt_sem" where
  "pt_sem_signal s = s\<lparr>sem_count := sem_count s + 1\<rparr>"

definition pt_sem_trywait :: "syn_pt_sem \<Rightarrow> bool \<times> syn_pt_sem" where
  "pt_sem_trywait s =
     (if 0 < sint (sem_count s) then (True, s\<lparr>sem_count := sem_count s - 1\<rparr>) else (False, s))"

definition PT_SEM_COUNT :: "syn_pt_sem \<Rightarrow> int" where
  "PT_SEM_COUNT s = sint (sem_count s)"

lemmas sem_ops [syn_defs] =
  PT_SEM_INIT_def pt_sem_wait_def pt_sem_block_def pt_sem_signal_def pt_sem_trywait_def PT_SEM_COUNT_def

subsection \<open>Conservation\<close>

text \<open>Any mix of signals (from tasks or interrupts) and attempts to take the semaphore.\<close>

datatype sem_op = Sem_Signal | Sem_Try | Sem_Wait u16

text \<open>The semaphore and the number of successful takes.\<close>

fun sem_step :: "'f syn_task \<Rightarrow> sem_op \<Rightarrow> syn_pt_sem \<times> nat \<Rightarrow> syn_pt_sem \<times> nat" where
  "sem_step t Sem_Signal (s, n) = (pt_sem_signal s, n)"
| "sem_step t Sem_Try (s, n) = (case pt_sem_trywait s of (ok, s') \<Rightarrow> (s', if ok then n + 1 else n))"
| "sem_step t (Sem_Wait line) (s, n) =
     (case pt_sem_wait line s t of (r, s', t') \<Rightarrow> (s', if r = None then n + 1 else n))"

lemma sint_16_small: "0 \<le> c \<Longrightarrow> c < 2 ^ 15 \<Longrightarrow> sint (word_of_int c :: u16) = c"
  by (simp add: signed_take_bit_int_eq_self sint_sbintrunc')

lemma sem_step_taken:
  "0 < PT_SEM_COUNT s \<Longrightarrow> op \<noteq> Sem_Signal \<Longrightarrow> sem_step t op (s, n) = (\<lparr>sem_count = sem_count s - 1\<rparr>, n + 1)"
  "\<not> 0 < PT_SEM_COUNT s \<Longrightarrow> op \<noteq> Sem_Signal \<Longrightarrow> sem_step t op (s, n) = (s, n)"
  by (cases op; cases s; simp add: sem_ops pt_wait_until_def)+

lemma sem_step_count:
  assumes "s = PT_SEM_INIT c" "0 \<le> c" "c + 1 < 2 ^ 15" "sem_step t op (s, n) = (s', n')"
  shows "s' = PT_SEM_INIT (c + (if op = Sem_Signal then 1 else 0) - (int n' - int n))"
    "n \<le> n'" "0 \<le> c + (if op = Sem_Signal then 1 else 0) - (int n' - int n)"
proof -
  have c: "PT_SEM_COUNT s = c" using assms(1-3) sint_16_small [of c] by (simp add: sem_ops)
  have "s' = PT_SEM_INIT (c + (if op = Sem_Signal then 1 else 0) - (int n' - int n)) \<and> n \<le> n'
    \<and> 0 \<le> c + (if op = Sem_Signal then 1 else 0) - (int n' - int n)"
  proof (cases "op = Sem_Signal")
    case True
    then show ?thesis using assms by (auto simp: sem_ops)
  next
    case False
    then show ?thesis using assms c sem_step_taken [of s op t n]
      by (cases "0 < c") (auto simp: PT_SEM_INIT_def)
  qed
  then show "s' = PT_SEM_INIT (c + (if op = Sem_Signal then 1 else 0) - (int n' - int n))"
    "n \<le> n'" "0 \<le> c + (if op = Sem_Signal then 1 else 0) - (int n' - int n)" by simp_all
qed

definition sem_signals :: "sem_op list \<Rightarrow> nat" where
  "sem_signals ops = length (filter (\<lambda>op. op = Sem_Signal) ops)"

text \<open>
  A semaphore never grants more than it was given: after any sequence of signals and take
  attempts the count equals the initial value plus the signals minus the takes that succeeded,
  and is not negative, as long as the initial value and the signals stay below 2^15.
\<close>

theorem sem_conservation:
  assumes "0 \<le> c" "c + int (sem_signals ops) < 2 ^ 15" "fold (sem_step t) ops (PT_SEM_INIT c, 0) = (s, n)"
  shows "PT_SEM_COUNT s = c + int (sem_signals ops) - int n \<and> 0 \<le> PT_SEM_COUNT s"
proof -
  have "s = PT_SEM_INIT (c + int (sem_signals ops) - (int n - int m))
      \<and> 0 \<le> c + int (sem_signals ops) - (int n - int m) \<and> m \<le> n"
    if "0 \<le> c" "c + int (sem_signals ops) < 2 ^ 15" "fold (sem_step t) ops (PT_SEM_INIT c, m) = (s, n)" for c m
    using that
  proof (induction ops arbitrary: c m)
    case (Cons op ops)
    obtain s1 m1 where st: "sem_step t op (PT_SEM_INIT c, m) = (s1, m1)" by fastforce
    let ?c = "c + (if op = Sem_Signal then 1 else 0) - (int m1 - int m)"
    have sig: "int (sem_signals (op # ops)) = (if op = Sem_Signal then 1 else 0) + int (sem_signals ops)"
      by (simp add: sem_signals_def)
    have step: "s1 = PT_SEM_INIT ?c \<and> m \<le> m1 \<and> 0 \<le> ?c"
    proof (cases "op = Sem_Signal \<or> c + 1 < 2 ^ 15")
      case True
      then have "c + 1 < 2 ^ 15" using Cons.prems(1,2) sig by auto
      from sem_step_count [OF refl Cons.prems(1) this st] show ?thesis by blast
    next
      case False
      then have "PT_SEM_COUNT (PT_SEM_INIT c) = c" "0 < c" "op \<noteq> Sem_Signal"
        using Cons.prems(1,2) sint_16_small [of c] by (auto simp: sem_ops)
      then show ?thesis
        using sem_step_taken(1) [of "PT_SEM_INIT c" op t m] st Cons.prems(1) by (auto simp: PT_SEM_INIT_def)
    qed
    show ?case using Cons.IH [of ?c m1] Cons.prems sig step st by (auto simp: algebra_simps)
  qed (auto simp: sem_signals_def)
  from this [OF assms] show ?thesis
    using sint_16_small [of "c + int (sem_signals ops) - int n"] assms(2) by (auto simp: sem_ops)
qed

theorem sem_conservation_witness:
  "PT_SEM_COUNT (fst (fold (sem_step (demo_task 0)) [Sem_Signal, Sem_Wait 3, Sem_Try, Sem_Try] (PT_SEM_INIT 1, 0))) = 0"
proof -
  let ?ops = "[Sem_Signal, Sem_Wait 3, Sem_Try, Sem_Try]"
  have "fold (sem_step (demo_task 0)) ?ops (PT_SEM_INIT 1, 0) = (\<lparr>sem_count = 0\<rparr>, 2)"
    by (simp add: sem_ops pt_wait_until_def)
  from sem_conservation [OF _ _ this] show ?thesis
    by (simp add: sem_signals_def sem_ops pt_wait_until_def)
qed

subsection \<open>The blocking form\<close>

text \<open>
  A task that finds the semaphore empty in \<^verbatim>\<open>PT_SEM_BLOCK\<close> (with no event to wait for and no
  deadline) is never eligible again, whatever the clock, the event flags and the semaphore
  become: signalling does not wake it. Only \<^verbatim>\<open>syn_task_resume\<close> makes it eligible.
\<close>

theorem sem_block_not_woken_by_signal:
  assumes "PT_SEM_COUNT s \<le> 0" "t_wait_event t = None" "t_delay_until t = 0"
    "pt_sem_block line s t = (r, s', t')"
  shows "r = Some PT_YIELDED \<and> s' = s \<and> (\<forall>now evs. \<not> task_eligible now evs t')
    \<and> (\<forall>now evs. task_eligible now evs (syn_task_resume t'))"
  using assms by (auto simp: sem_ops pt_block_condition_def task_eligible_def syn_task_resume_def)

theorem sem_block_not_woken_by_signal_witness:
  "\<not> task_eligible 9 (\<lambda>_. \<lparr>ef_flags = 0\<rparr>) (snd (snd (pt_sem_block 3 (PT_SEM_INIT 0) (demo_task 0))))"
proof -
  have "PT_SEM_COUNT (PT_SEM_INIT 0) \<le> 0" "t_wait_event (demo_task 0) = None" "t_delay_until (demo_task 0) = 0"
    by (simp_all add: sem_ops demo_task_def)
  from sem_block_not_woken_by_signal [OF this, of 3] show ?thesis by (metis surjective_pairing)
qed

end
