(* ===== verification/Syn_Mutex.thy ===== *)
theory Syn_Mutex
  imports Syn_Sched
begin

text \<open>
  The recursive mutex with priority inheritance of \<^verbatim>\<open>sched/syn_mutex.c\<close>. The owner and the caller
  are pointers to task descriptors, here indices into the task array, which the operations
  change (they boost and restore priorities). Each operation is one critical section. A \<^verbatim>\<open>NULL\<close>
  mutex is the argument \<open>None\<close>.
\<close>

record syn_mutex =
  mx_owner :: ptr
  mx_lock_count :: u16
  mx_original_prio :: u8

definition syn_mutex_init :: "syn_mutex option \<Rightarrow> SYN_Status \<times> syn_mutex option" where
  "syn_mutex_init mutex =
     (case mutex of
        None \<Rightarrow> (SYN_INVALID_PARAM, None)
      | Some m \<Rightarrow> (SYN_OK, Some (m\<lparr>mx_owner := None, mx_lock_count := 0, mx_original_prio := 0\<rparr>)))"

definition syn_mutex_try_lock :: "syn_mutex option \<Rightarrow> ptr \<Rightarrow> 'f syn_task list
    \<Rightarrow> SYN_Status \<times> syn_mutex option \<times> 'f syn_task list" where
  "syn_mutex_try_lock mutex task tasks =
     (case mutex of
        None \<Rightarrow> (SYN_INVALID_PARAM, None, tasks)
      | Some m \<Rightarrow>
          if mx_owner m = None \<and> mx_lock_count m = 0
          then (SYN_OK,
                Some (m\<lparr>mx_owner := task, mx_lock_count := 1,
                        mx_original_prio := (case task of Some i \<Rightarrow> t_base_priority (tasks ! i) | None \<Rightarrow> 0)\<rparr>),
                tasks)
          else if task \<noteq> None \<and> mx_owner m = task
          then (SYN_OK, Some (m\<lparr>mx_lock_count := mx_lock_count m + 1\<rparr>), tasks)
          else
            (SYN_BUSY, Some m,
             case (task, mx_owner m) of
               (Some i, Some ow) \<Rightarrow>
                 if t_priority (tasks ! i) < t_priority (tasks ! ow)
                 then tasks[ow := syn_task_boost_priority (tasks ! ow) (t_priority (tasks ! i))]
                 else tasks
             | _ \<Rightarrow> tasks))"

definition syn_mutex_unlock :: "syn_mutex option \<Rightarrow> ptr \<Rightarrow> 'f syn_task list
    \<Rightarrow> SYN_Status \<times> syn_mutex option \<times> 'f syn_task list" where
  "syn_mutex_unlock mutex task tasks =
     (case mutex of
        None \<Rightarrow> (SYN_INVALID_PARAM, None, tasks)
      | Some m \<Rightarrow>
          if mx_lock_count m = 0 \<or> (task \<noteq> None \<and> mx_owner m \<noteq> task) then (SYN_ERROR, Some m, tasks)
          else
            let m1 = m\<lparr>mx_lock_count := mx_lock_count m - 1\<rparr>
            in if mx_lock_count m1 = 0
               then (SYN_OK, Some (m1\<lparr>mx_owner := None, mx_original_prio := 0\<rparr>),
                     case mx_owner m1 of
                       Some ow \<Rightarrow> tasks[ow := syn_task_restore_priority (tasks ! ow)]
                     | None \<Rightarrow> tasks)
               else (SYN_OK, Some m1, tasks))"

definition syn_mutex_is_locked :: "syn_mutex option \<Rightarrow> bool" where
  "syn_mutex_is_locked mutex = (case mutex of None \<Rightarrow> False | Some m \<Rightarrow> 0 < mx_lock_count m)"

definition syn_mutex_get_owner :: "syn_mutex option \<Rightarrow> ptr" where
  "syn_mutex_get_owner mutex = (case mutex of None \<Rightarrow> None | Some m \<Rightarrow> mx_owner m)"

text \<open>\<^verbatim>\<open>PT_MUTEX_LOCK\<close>: one evaluation of the waiting macro by task \<open>i\<close>.\<close>

definition pt_mutex_lock :: "u16 \<Rightarrow> nat \<Rightarrow> syn_mutex option \<Rightarrow> 'f syn_task list
    \<Rightarrow> SYN_PT_Status option \<times> syn_mutex option \<times> 'f syn_task list" where
  "pt_mutex_lock line i mutex tasks =
     (case syn_mutex_try_lock mutex (Some i) (tasks[i := (tasks ! i)\<lparr>t_lc := line\<rparr>]) of
        (st, mutex', tasks') \<Rightarrow> (if st = SYN_OK then None else Some PT_WAITING, mutex', tasks'))"

lemmas mutex_ops [syn_defs] =
  syn_mutex_init_def syn_mutex_try_lock_def syn_mutex_unlock_def syn_mutex_is_locked_def
  syn_mutex_get_owner_def

subsection \<open>The lock it implements\<close>

text \<open>
  The contract of a recursive lock: free, or held by one owner at some depth. \<open>rlock_acquire\<close> and
  \<open>rlock_release\<close> return whether they succeed.
\<close>

type_synonym rlock = "(nat \<times> nat) option"

fun rlock_acquire :: "nat \<Rightarrow> rlock \<Rightarrow> bool \<times> rlock" where
  "rlock_acquire i None = (True, Some (i, 1))"
| "rlock_acquire i (Some (ow, d)) = (if ow = i then (True, Some (i, d + 1)) else (False, Some (ow, d)))"

fun rlock_release :: "nat \<Rightarrow> rlock \<Rightarrow> bool \<times> rlock" where
  "rlock_release i None = (False, None)"
| "rlock_release i (Some (ow, d)) =
     (if ow = i then (True, if d \<le> 1 then None else Some (i, d - 1)) else (False, Some (ow, d)))"

definition mutex_wf :: "syn_mutex \<Rightarrow> bool" where
  "mutex_wf m \<longleftrightarrow> (mx_lock_count m = 0 \<longleftrightarrow> mx_owner m = None)"

definition mutex_lock :: "syn_mutex \<Rightarrow> rlock" where
  "mutex_lock m = map_option (\<lambda>ow. (ow, unat (mx_lock_count m))) (mx_owner m)"

datatype mutex_op = Mutex_Lock nat | Mutex_Unlock nat

fun mutex_step :: "mutex_op \<Rightarrow> syn_mutex \<times> 'f syn_task list \<Rightarrow> bool \<times> syn_mutex \<times> 'f syn_task list" where
  "mutex_step (Mutex_Lock i) (m, ts) =
     (case syn_mutex_try_lock (Some m) (Some i) ts of (st, m', ts') \<Rightarrow> (st = SYN_OK, the m', ts'))"
| "mutex_step (Mutex_Unlock i) (m, ts) =
     (case syn_mutex_unlock (Some m) (Some i) ts of (st, m', ts') \<Rightarrow> (st = SYN_OK, the m', ts'))"

fun rlock_step :: "mutex_op \<Rightarrow> rlock \<Rightarrow> bool \<times> rlock" where
  "rlock_step (Mutex_Lock i) l = rlock_acquire i l"
| "rlock_step (Mutex_Unlock i) l = rlock_release i l"

text \<open>The results of a sequence of operations, and the final state.\<close>

fun steps_run :: "('op \<Rightarrow> 's \<Rightarrow> bool \<times> 's) \<Rightarrow> 'op list \<Rightarrow> 's \<Rightarrow> bool list \<times> 's" where
  "steps_run step [] s = ([], s)"
| "steps_run step (x # xs) s =
     (case step x s of (r, s') \<Rightarrow> case steps_run step xs s' of (rs, s'') \<Rightarrow> (r # rs, s''))"

lemma unat_dec_16: "w \<noteq> 0 \<Longrightarrow> unat (w - 1) = unat w - 1" for w :: u16
  by (simp add: unat_minus_one)

lemma unat_inc_16: "unat w < 65535 \<Longrightarrow> unat (w + 1) = unat w + 1" for w :: u16
  by (simp only: unat_word_ariths) simp

lemma mutex_step_refines:
  assumes "mutex_wf m" "unat (mx_lock_count m) < 65535" "mutex_step op (m, ts) = (r, m', ts')"
  shows "mutex_wf m' \<and> rlock_step op (mutex_lock m) = (r, mutex_lock m')
    \<and> unat (mx_lock_count m') \<le> unat (mx_lock_count m) + 1"
proof -
  note inc = unat_inc_16 [OF assms(2)]
  have nz: "mx_lock_count m + 1 \<noteq> 0" using inc by (metis add_is_0 unat_0 zero_neq_one)
  show ?thesis
  proof (cases op)
    case (Mutex_Lock i)
    then show ?thesis using assms inc nz
      by (cases "mx_owner m") (auto simp: mutex_wf_def mutex_lock_def syn_mutex_try_lock_def)
  next
    case (Mutex_Unlock i)
    show ?thesis
    proof (cases "mx_lock_count m = 0")
      case False
      then have "unat (mx_lock_count m - 1) = unat (mx_lock_count m) - 1" "0 < unat (mx_lock_count m)"
        by (simp_all add: unat_dec_16 unat_gt_0)
      moreover have "mx_lock_count m - 1 = 0 \<longleftrightarrow> unat (mx_lock_count m) = 1"
        using calculation unat_eq_0 [of "mx_lock_count m - 1"] by auto
      ultimately show ?thesis using assms Mutex_Unlock False
        by (cases "mx_owner m") (auto simp: mutex_wf_def mutex_lock_def syn_mutex_unlock_def Let_def split: if_splits)
    qed (use assms Mutex_Unlock in \<open>auto simp: mutex_wf_def mutex_lock_def syn_mutex_unlock_def\<close>)
  qed
qed


definition demo_mutex :: syn_mutex where
  "demo_mutex = the (snd (syn_mutex_init (Some \<lparr>mx_owner = None, mx_lock_count = 0, mx_original_prio = 0\<rparr>)))"


subsection \<open>Priority inheritance\<close>

definition mutex_contend :: "syn_mutex \<Rightarrow> nat list \<Rightarrow> 'f syn_task list \<Rightarrow> 'f syn_task list" where
  "mutex_contend m ws ts = fold (\<lambda>i ts. snd (snd (syn_mutex_try_lock (Some m) (Some i) ts))) ws ts"

lemma mutex_contend_one:
  assumes "mx_owner m = Some ow" "i \<noteq> ow" "ow < length ts" "i < length ts" "\<forall>t\<in>set ts. task_wf t"
  shows "syn_mutex_try_lock (Some m) (Some i) ts =
    (SYN_BUSY, Some m, ts[ow := (ts ! ow)\<lparr>t_priority := min (t_priority (ts ! ow)) (t_priority (ts ! i))\<rparr>])"
proof (cases "t_priority (ts ! i) < t_priority (ts ! ow)")
  case True
  have wf: "task_wf (ts ! ow)" "task_wf (ts ! i)" using assms(3-5) by simp_all
  then have "t_priority (ts ! i) < SYN_SCHED_PRIO_LEVELS" "t_priority (ts ! i) \<le> t_base_priority (ts ! ow)"
    using True by (auto simp: task_wf_def)
  then show ?thesis using assms True
    by (simp add: syn_mutex_try_lock_def syn_task_boost_priority_def min.absorb4)
next
  case False
  then have "ts[ow := (ts ! ow)\<lparr>t_priority := min (t_priority (ts ! ow)) (t_priority (ts ! i))\<rparr>] = ts"
    using assms(3) by (simp add: min_def not_less)
  with False assms show ?thesis by (simp add: syn_mutex_try_lock_def)
qed

lemma mutex_contend_all:
  assumes "mx_owner m = Some ow"
  shows "ow \<notin> set ws \<Longrightarrow> set ws \<subseteq> {..<length ts} \<Longrightarrow> ow < length ts \<Longrightarrow> \<forall>t\<in>set ts. task_wf t \<Longrightarrow>
    mutex_contend m ws ts = ts[ow := (ts ! ow)\<lparr>t_priority :=
      fold (\<lambda>i p. min p (t_priority (ts ! i))) ws (t_priority (ts ! ow))\<rparr>]"
proof (induction ws arbitrary: ts)
  case (Cons w ws)
  let ?t = "(ts ! ow)\<lparr>t_priority := min (t_priority (ts ! ow)) (t_priority (ts ! w))\<rparr>"
  let ?ts = "ts[ow := ?t]"
  have one: "mutex_contend m (w # ws) ts = mutex_contend m ws ?ts"
    using mutex_contend_one [OF assms, of w ts] Cons.prems by (simp add: mutex_contend_def)
  have "task_wf (ts ! ow)" using Cons.prems(3,4) by simp
  then have "task_wf ?t" by (auto simp: task_wf_def intro: min.coboundedI1)
  then have "\<forall>t\<in>set ?ts. task_wf t" using Cons.prems(4) set_update_subset_insert [of ts ow ?t] by auto
  then have "mutex_contend m ws ?ts = ?ts[ow := (?ts ! ow)\<lparr>t_priority :=
      fold (\<lambda>i p. min p (t_priority (?ts ! i))) ws (t_priority (?ts ! ow))\<rparr>]"
    using Cons.prems by (intro Cons.IH) auto
  also have "fold (\<lambda>i p. min p (t_priority (?ts ! i))) ws (t_priority (?ts ! ow))
      = fold (\<lambda>i p. min p (t_priority (ts ! i))) ws (t_priority ?t)"
    using Cons.prems(1,3) by (intro fold_cong refl) (simp, metis list.set_intros(2) nth_list_update_neq)
  finally show ?case using Cons.prems(3) by (simp add: one)
qed (simp add: mutex_contend_def)

lemma fold_min_Min: "fold (\<lambda>i p. min p (f i)) ws (a :: u8) = Min (insert a (f ` set ws))"
proof (induction ws arbitrary: a)
  case (Cons w ws)
  then show ?case by (cases "ws = []") (simp_all add: min.assoc)
qed simp

text \<open>
  C23: Priority inheritance. While other tasks contend for a held mutex, its owner runs at the most
  urgent of its own priority and theirs, and nothing else in the task array changes; the owner's
  final unlock restores its configured priority and frees the mutex.
\<close>

theorem mutex_priority_inheritance:
  assumes "mx_owner m = Some ow" "ow < length ts" "\<forall>t\<in>set ts. task_wf t"
    "ow \<notin> set ws" "set ws \<subseteq> {..<length ts}" "mx_lock_count m = 1"
  shows "mutex_contend m ws ts =
      ts[ow := (ts ! ow)\<lparr>t_priority := Min (insert (t_priority (ts ! ow)) ((\<lambda>i. t_priority (ts ! i)) ` set ws))\<rparr>]
    \<and> syn_mutex_unlock (Some m) (Some ow) (mutex_contend m ws ts) =
      (SYN_OK, Some (m\<lparr>mx_owner := None, mx_lock_count := 0, mx_original_prio := 0\<rparr>),
       ts[ow := (ts ! ow)\<lparr>t_priority := t_base_priority (ts ! ow)\<rparr>])"
  using mutex_contend_all [OF assms(1,4,5,2,3)] assms
  by (simp add: fold_min_Min syn_mutex_unlock_def syn_task_restore_priority_def)

theorem mutex_priority_inheritance_witness:
  "t_priority (mutex_contend \<lparr>mx_owner = Some 0, mx_lock_count = 1, mx_original_prio = 3\<rparr> [1, 2]
      [demo_task 3, demo_task 2, demo_task 1] ! 0) = 1"
proof -
  have "\<forall>t\<in>set [demo_task 3, demo_task 2, demo_task 1]. task_wf t"
    by (simp add: task_wf_def demo_task_def SYN_SCHED_PRIO_LEVELS_def)
  from mutex_priority_inheritance [OF _ _ this, of "\<lparr>mx_owner = Some 0, mx_lock_count = 1, mx_original_prio = 3\<rparr>" 0 "[1, 2]"]
  show ?thesis by (simp add: demo_task_def)
qed

text \<open>
  Inheritance is per owner, not per mutex: an owner of two mutexes that was boosted by a task
  waiting for one of them falls back to its configured priority when it releases the other,
  though the first is still held and contended.
\<close>

theorem mutex_nested_release_drops_boost:
  assumes "mx_owner a = Some ow" "mx_owner b = Some ow" "mx_lock_count b = 1" "ow < length ts" "w < length ts"
    "w \<noteq> ow" "\<forall>t\<in>set ts. task_wf t" "t_priority (ts ! w) < t_base_priority (ts ! ow)"
  shows "(case syn_mutex_try_lock (Some a) (Some w) ts of
           (st, a', ts1) \<Rightarrow> st = SYN_BUSY \<and> t_priority (ts1 ! ow) \<le> t_priority (ts ! w)
             \<and> (case syn_mutex_unlock (Some b) (Some ow) ts1 of
                  (st2, b', ts2) \<Rightarrow> st2 = SYN_OK \<and> syn_mutex_get_owner a' = Some ow
                    \<and> t_priority (ts1 ! ow) < t_priority (ts2 ! ow)))"
  using mutex_contend_one [OF assms(1,6,4,5,7)] assms
  by (auto simp: syn_mutex_unlock_def syn_task_restore_priority_def syn_mutex_get_owner_def min_less_iff_disj)

theorem mutex_nested_release_drops_boost_witness:
  "(case syn_mutex_try_lock (Some \<lparr>mx_owner = Some 0, mx_lock_count = 1, mx_original_prio = 3\<rparr>) (Some 1)
      [demo_task 3, demo_task 1] of
      (st, a', ts1) \<Rightarrow> st = SYN_BUSY \<and> t_priority (ts1 ! 0) \<le> 1)"
proof -
  have "\<forall>t\<in>set [demo_task 3, demo_task 1]. task_wf t"
    by (simp add: task_wf_def demo_task_def SYN_SCHED_PRIO_LEVELS_def)
  from mutex_nested_release_drops_boost [OF _ _ _ _ _ _ this,
      of "\<lparr>mx_owner = Some 0, mx_lock_count = 1, mx_original_prio = 3\<rparr>" 0
         "\<lparr>mx_owner = Some 0, mx_lock_count = 1, mx_original_prio = 3\<rparr>" 1]
  show ?thesis by (auto simp: demo_task_def split: prod.splits)
qed

end
