(* ===== verification/Syn_Timer.thy ===== *)
theory Syn_Timer
  imports Syn_Prelude
begin

text \<open>
  Software timers (\<^verbatim>\<open>sched/syn_timer.c\<close>). A callback is a name of type \<open>'c\<close>; \<open>syn_timer_service\<close> is
  given what calling it does. Each operation that reads the clock takes the reading; the service
  loop reads it once per active timer, so it takes one reading per index.
\<close>

record 'c syn_timer =
  tm_period_ms :: u32
  tm_target_tick :: u32
  tm_callback :: "'c option"
  tm_user_data :: ptr
  tm_periodic :: bool
  tm_active :: bool

definition syn_timer_init :: "u32 \<Rightarrow> bool \<Rightarrow> 'c option \<Rightarrow> ptr \<Rightarrow> 'c syn_timer" where
  "syn_timer_init period_ms periodic callback user_data =
     \<lparr>tm_period_ms = period_ms, tm_target_tick = 0, tm_callback = callback, tm_user_data = user_data,
      tm_periodic = periodic, tm_active = False\<rparr>"

definition syn_timer_start :: "u32 \<Rightarrow> 'c syn_timer \<Rightarrow> 'c syn_timer" where
  "syn_timer_start now timer = timer\<lparr>tm_target_tick := now + tm_period_ms timer, tm_active := True\<rparr>"

definition syn_timer_stop :: "'c syn_timer \<Rightarrow> 'c syn_timer" where
  "syn_timer_stop timer = timer\<lparr>tm_active := False\<rparr>"

definition syn_timer_set_period :: "u32 \<Rightarrow> 'c syn_timer \<Rightarrow> 'c syn_timer" where
  "syn_timer_set_period period_ms timer = timer\<lparr>tm_period_ms := period_ms\<rparr>"

definition syn_timer_expired :: "u32 \<Rightarrow> 'c syn_timer \<Rightarrow> bool \<times> 'c syn_timer" where
  "syn_timer_expired now timer =
     (if \<not> tm_active timer then (False, timer)
      else if tick_reached now (tm_target_tick timer)
      then (True,
            if tm_periodic timer
            then let timer1 = timer\<lparr>tm_target_tick := tm_target_tick timer + tm_period_ms timer\<rparr>
                 in if tick_reached now (tm_target_tick timer1)
                    then timer1\<lparr>tm_target_tick := now + tm_period_ms timer1\<rparr>
                    else timer1
            else timer\<lparr>tm_active := False\<rparr>)
      else (False, timer))"

text \<open>The timer array and the rest of the system, which callbacks may both change.\<close>

record ('c, 'w) timers =
  ts_timers :: "'c syn_timer list"
  ts_world :: 'w

type_synonym ('c, 'w) timer_cb = "'c \<Rightarrow> nat \<Rightarrow> ptr \<Rightarrow> ('c, 'w) timers \<Rightarrow> ('c, 'w) timers"

definition timer_service_one :: "('c, 'w) timer_cb \<Rightarrow> (nat \<Rightarrow> u32) \<Rightarrow> nat \<Rightarrow> ('c, 'w) timers \<Rightarrow> ('c, 'w) timers" where
  "timer_service_one call clock i s =
     (let t = ts_timers s ! i
      in if \<not> tm_active t then s
         else case syn_timer_expired (clock i) t of
                (expired, t') \<Rightarrow>
                  (let s1 = s\<lparr>ts_timers := (ts_timers s)[i := t']\<rparr>
                   in if expired
                      then case tm_callback t' of Some cb \<Rightarrow> call cb i (tm_user_data t') s1 | None \<Rightarrow> s1
                      else s1))"

definition syn_timer_service :: "('c, 'w) timer_cb \<Rightarrow> (nat \<Rightarrow> u32) \<Rightarrow> nat \<Rightarrow> ('c, 'w) timers \<Rightarrow> ('c, 'w) timers" where
  "syn_timer_service call clock count s = fold (timer_service_one call clock) [0..<count] s"

definition syn_timer_is_active :: "'c syn_timer \<Rightarrow> bool" where
  "syn_timer_is_active timer = tm_active timer"

definition syn_timer_remaining :: "u32 \<Rightarrow> 'c syn_timer \<Rightarrow> u32" where
  "syn_timer_remaining now timer =
     (if \<not> tm_active timer then 0
      else let diff = sint (tm_target_tick timer - now)
           in if diff > 0 then word_of_int diff else 0)"

text \<open>The scan for the earliest expiry: the earliest future target so far and the ready flag.\<close>

definition timer_next_step :: "u32 \<Rightarrow> 'c syn_timer \<Rightarrow> u32 \<times> bool \<Rightarrow> u32 \<times> bool" where
  "timer_next_step now t acc =
     (case acc of (earliest, any_ready_now) \<Rightarrow>
        if \<not> tm_active t then (earliest, any_ready_now)
        else if tick_reached now (tm_target_tick t) then (earliest, True)
        else if tick_before (tm_target_tick t) earliest \<or> earliest = - 1
        then (tm_target_tick t, any_ready_now)
        else (earliest, any_ready_now))"

definition syn_timer_next_expiry :: "u32 \<Rightarrow> 'c syn_timer list \<Rightarrow> u32" where
  "syn_timer_next_expiry now timers =
     (case fold (timer_next_step now) timers (- 1, False) of
        (earliest, any_ready_now) \<Rightarrow> if any_ready_now then now else earliest)"

lemmas timer_ops [syn_defs] =
  syn_timer_init_def syn_timer_start_def syn_timer_stop_def syn_timer_set_period_def
  syn_timer_expired_def syn_timer_is_active_def syn_timer_remaining_def

subsection \<open>Elapsed time\<close>

text \<open>
  Times are counted in milliseconds from an arbitrary origin \<open>o\<close> of the clock, as natural
  numbers that do not wrap; the clock shows \<open>o + of_nat e\<close>.
\<close>

lemma tick_dist_elapsed: "a \<le> b \<Longrightarrow> b - a < 2 ^ 32 \<Longrightarrow> tick_dist (org + of_nat a) (org + of_nat b) = b - a"
  using tick_dist_add [of "b - a" "org + of_nat a"] by (simp flip: of_nat_add add: add.assoc)

lemma tick_reached_elapsed:
  assumes "a \<le> b \<Longrightarrow> b - a < 2 ^ 31" "b \<le> a \<Longrightarrow> a - b \<le> 2 ^ 31"
  shows "tick_reached (org + of_nat b) (org + of_nat a) \<longleftrightarrow> a \<le> b"
proof (cases "a \<le> b")
  case True
  then show ?thesis using assms tick_dist_elapsed [of a b org] by (simp add: tick_simps)
next
  case False
  then have d: "tick_dist (org + of_nat b) (org + of_nat a) = a - b"
    using assms(2) by (intro tick_dist_elapsed) auto
  then have "org + of_nat a \<noteq> org + (of_nat b :: u32)" using False by (metis tick_dist_self diff_is_0_eq)
  then have "tick_dist (org + of_nat a) (org + of_nat b) = 2 ^ 32 - (a - b)"
    using d by (metis tick_dist_swap)
  then show ?thesis using False assms(2) by (simp add: tick_simps)
qed

subsection \<open>Periodic timers do not drift\<close>

text \<open>Polling a timer at the given elapsed times: the number of expirations it reports.\<close>

fun timer_polls :: "u32 \<Rightarrow> 'c syn_timer \<Rightarrow> nat list \<Rightarrow> nat \<times> 'c syn_timer" where
  "timer_polls org t [] = (0, t)"
| "timer_polls org t (e # es) =
     (case syn_timer_expired (org + of_nat e) t of
        (expired, t') \<Rightarrow> case timer_polls org t' es of (n, t'') \<Rightarrow> ((if expired then 1 else 0) + n, t''))"

text \<open>Polled at least once per period from time \<open>a\<close> on.\<close>

fun polled_often :: "nat \<Rightarrow> nat \<Rightarrow> nat list \<Rightarrow> bool" where
  "polled_often p a [] = True"
| "polled_often p a (e # es) \<longleftrightarrow> a \<le> e \<and> e \<le> a + p \<and> polled_often p e es"

lemma div_next_period:
  fixes a e p :: nat
  assumes "0 < p" "a \<le> e" "e \<le> a + p"
  shows "e div p = a div p + (if (a div p + 1) * p \<le> e then 1 else 0)"
proof -
  have a: "a div p * p \<le> a" "a < (a div p + 1) * p"
    using assms(1) by (simp_all add: dividend_less_div_times add.commute)
  show ?thesis
  proof (cases "(a div p + 1) * p \<le> e")
    case True
    have "e < (a div p + 1 + 1) * p" using a assms(3) by (simp add: algebra_simps)
    with True have "e div p = a div p + 1" by (intro div_nat_eqI) (simp_all add: algebra_simps)
    with True show ?thesis by simp
  next
    case False
    then have "e div p = a div p" using order_trans [OF a(1) assms(2)] by (intro div_nat_eqI) (simp_all add: algebra_simps)
    with False show ?thesis by simp
  qed
qed

lemma timer_expired_periodic:
  assumes "tm_periodic t" "tm_active t" "tm_target_tick t = w1" "w1 + tm_period_ms t = w2"
    "tick_reached now w1 \<longleftrightarrow> r" "r \<Longrightarrow> \<not> tick_reached now w2"
  shows "syn_timer_expired now t = (r, if r then t\<lparr>tm_target_tick := w2\<rparr> else t)"
  using assms by (auto simp: syn_timer_expired_def Let_def)

lemma timer_poll_periodic:
  assumes "tm_periodic t" "tm_active t" "tm_period_ms t = of_nat p" "0 < p" "p < 2 ^ 31" "a \<le> e" "e \<le> a + p"
    "tm_target_tick t = org + of_nat ((a div p + 1) * p)"
  shows "syn_timer_expired (org + of_nat e) t =
    ((a div p + 1) * p \<le> e, t\<lparr>tm_target_tick := org + of_nat ((e div p + 1) * p)\<rparr>)"
proof -
  let ?T = "(a div p + 1) * p"
  have a: "a < ?T" "?T \<le> a + p" using assms(4) by (simp_all add: dividend_less_div_times add.commute)
  have r: "tick_reached (org + of_nat e) (org + of_nat ?T) \<longleftrightarrow> ?T \<le> e"
    using a assms(5-7) by (intro tick_reached_elapsed) linarith+
  have "\<not> tick_reached (org + of_nat e) (org + of_nat (?T + p))" if "?T \<le> e"
  proof -
    have "tick_reached (org + of_nat e) (org + of_nat (?T + p)) \<longleftrightarrow> ?T + p \<le> e"
      using a assms(5-7) that by (intro tick_reached_elapsed) linarith+
    then show ?thesis using a assms(7) by linarith
  qed
  moreover have "org + of_nat ?T + tm_period_ms t = org + of_nat (?T + p)" using assms(3) by simp
  ultimately have "syn_timer_expired (org + of_nat e) t =
      (?T \<le> e, if ?T \<le> e then t\<lparr>tm_target_tick := org + of_nat (?T + p)\<rparr> else t)"
    using timer_expired_periodic [OF assms(1,2,8)] r by blast
  moreover have "?T + p = (a div p + 1 + 1) * p" by simp
  ultimately show ?thesis using assms(8) div_next_period [OF assms(4,6,7)] by (cases "?T \<le> e") simp_all
qed

text \<open>
  A periodic timer with period p (0 < p < 2^31) that is polled at least once per period
  reports exactly one expiration per elapsed period, floor(elapsed / p) in total, with its next
  target at the next multiple of p: late polls do not accumulate drift, whatever the clock's
  starting point and however often it wraps.
\<close>

theorem timer_periodic_exact:
  assumes "0 < p" "p < 2 ^ 31" "polled_often p 0 es"
    "timer_polls org (syn_timer_start org (syn_timer_init (of_nat p) True cb ud)) es = (n, t)"
  shows "n = last (0 # es) div p \<and> tm_target_tick t = org + of_nat ((last (0 # es) div p + 1) * p) \<and> tm_active t"
proof -
  have "n + a div p = last (a # es) div p \<and> tm_target_tick t' = org + of_nat ((last (a # es) div p + 1) * p) \<and> tm_active t'"
    if "tm_periodic t" "tm_active t" "tm_period_ms t = of_nat p" "tm_target_tick t = org + of_nat ((a div p + 1) * p)"
      "polled_often p a es" "timer_polls org t es = (n, t')" for a n t and t' :: "'c syn_timer"
    using that
  proof (induction es arbitrary: a t n)
    case (Cons e es)
    note prems = Cons.prems
    have e: "a \<le> e" "e \<le> a + p" "polled_often p e es" using prems(5) by auto
    note poll = timer_poll_periodic [OF prems(1-3) assms(1,2) e(1,2) prems(4)]
    obtain m where m: "timer_polls org (t\<lparr>tm_target_tick := org + of_nat ((e div p + 1) * p)\<rparr>) es = (m, t')"
      "n = (if (a div p + 1) * p \<le> e then 1 else 0) + m"
      using prems(6) poll by (auto split: prod.splits)
    have "m + e div p = last (e # es) div p \<and> tm_target_tick t' = org + of_nat ((last (e # es) div p + 1) * p) \<and> tm_active t'"
      using prems(1-3) e(3) m(1) by (intro Cons.IH) auto
    then show ?case using div_next_period [OF assms(1) e(1,2)] m(2) by simp
  qed simp
  from this [of _ 0, OF _ _ _ _ assms(3,4)] show ?thesis
    by (simp add: syn_timer_start_def syn_timer_init_def)
qed

theorem timer_periodic_exact_witness:
  "fst (timer_polls 4294967290 (syn_timer_start 4294967290 (syn_timer_init (of_nat 10) True (None :: nat option) None))
      [4, 12, 13, 20, 29]) = 2"
proof -
  have "polled_often 10 0 [4, 12, 13, 20, 29]" by simp
  from timer_periodic_exact [OF _ _ this surjective_pairing, of 4294967290 "None :: nat option" None]
  show ?thesis by simp
qed

subsection \<open>One-shot timers\<close>

text \<open>
  A one-shot timer with period p < 2^31, polled at any times less than 2^31 milliseconds after
  it was started, reports exactly one expiration if some poll came p or more milliseconds after
  the start, and none otherwise; it is stopped exactly when it has reported it.
\<close>

theorem timer_oneshot_once:
  assumes "p < 2 ^ 31" "\<forall>e\<in>set es. e < 2 ^ 31"
    "timer_polls org (syn_timer_start org (syn_timer_init (of_nat p) False cb ud)) es = (n, t)"
  shows "n = (if \<exists>e\<in>set es. p \<le> e then 1 else 0) \<and> (tm_active t \<longleftrightarrow> (\<forall>e\<in>set es. e < p))"
proof -
  have stopped: "timer_polls org t es = (0, t)" if "\<not> tm_active t" for t :: "'c syn_timer" and es
    using that by (induction es) (simp_all add: syn_timer_expired_def)
  have "n = (if \<exists>e\<in>set es. p \<le> e then 1 else 0) \<and> (tm_active t' \<longleftrightarrow> (\<forall>e\<in>set es. e < p))"
    if "\<not> tm_periodic t" "tm_active t" "tm_target_tick t = org + of_nat p" "\<forall>e\<in>set es. e < 2 ^ 31"
      "timer_polls org t es = (n, t')" for t t' :: "'c syn_timer"
    using that
  proof (induction es arbitrary: n)
    case (Cons e es)
    have "tick_reached (org + of_nat e) (org + of_nat p) \<longleftrightarrow> p \<le> e"
      using Cons.prems(4) assms(1) by (intro tick_reached_elapsed) (simp_all, linarith+)
    then have ex: "syn_timer_expired (org + of_nat e) t = (p \<le> e, if p \<le> e then t\<lparr>tm_active := False\<rparr> else t)"
      using Cons.prems(1-3) by (simp add: syn_timer_expired_def)
    show ?case
    proof (cases "p \<le> e")
      case True
      then show ?thesis using Cons.prems(5) ex stopped [of "t\<lparr>tm_active := False\<rparr>" es] by auto
    next
      case False
      then show ?thesis using Cons.IH [OF Cons.prems(1-3)] Cons.prems(4,5) ex by (auto split: prod.splits)
    qed
  qed simp
  from this [OF _ _ _ assms(2,3)] show ?thesis by (simp add: syn_timer_start_def syn_timer_init_def)
qed

theorem timer_oneshot_once_witness:
  "fst (timer_polls 4294967290 (syn_timer_start 4294967290 (syn_timer_init (of_nat 10) False (None :: nat option) None))
      [4, 12, 30]) = 1"
  using timer_oneshot_once [OF _ _ surjective_pairing, of 10 "[4, 12, 30]" 4294967290 "None :: nat option" None] by simp

subsection \<open>The service loop\<close>

definition timer_due :: "(nat \<Rightarrow> u32) \<Rightarrow> 'c syn_timer list \<Rightarrow> nat \<Rightarrow> bool" where
  "timer_due clock timers i \<longleftrightarrow> tm_active (timers ! i) \<and> tick_reached (clock i) (tm_target_tick (timers ! i))"

text \<open>The callbacks of the due timers, in index order, with their arguments.\<close>

definition timer_calls :: "(nat \<Rightarrow> u32) \<Rightarrow> 'c syn_timer list \<Rightarrow> nat list \<Rightarrow> ('c \<times> nat \<times> ptr) list" where
  "timer_calls clock timers is =
     map (\<lambda>i. (the (tm_callback (timers ! i)), i, tm_user_data (timers ! i)))
       (filter (\<lambda>i. timer_due clock timers i \<and> tm_callback (timers ! i) \<noteq> None) is)"

lemma syn_timer_expired_fields [simp]:
  "fst (syn_timer_expired now t) \<longleftrightarrow> tm_active t \<and> tick_reached now (tm_target_tick t)"
  "tm_callback (snd (syn_timer_expired now t)) = tm_callback t"
  "tm_user_data (snd (syn_timer_expired now t)) = tm_user_data t"
  "\<not> tm_active t \<Longrightarrow> snd (syn_timer_expired now t) = t"
  by (simp_all add: syn_timer_expired_def Let_def)

text \<open>
  When callbacks leave the timer array alone, one service pass applies the expiry check to every
  timer of the array and calls the callbacks of exactly the due timers, once each, in index order.
\<close>

theorem timer_service_due:
  assumes "\<And>cb i ud s. call cb i ud s = s\<lparr>ts_world := f cb i ud (ts_world s)\<rparr>"
    "count = length (ts_timers s)"
  shows "syn_timer_service call clock count s =
    \<lparr>ts_timers = map (\<lambda>i. snd (syn_timer_expired (clock i) (ts_timers s ! i))) [0..<count],
     ts_world = fold (\<lambda>(cb, i, ud). f cb i ud) (timer_calls clock (ts_timers s) [0..<count]) (ts_world s)\<rparr>"
proof -
  have "fold (timer_service_one call clock) [0..<m] s =
    \<lparr>ts_timers = map (\<lambda>i. snd (syn_timer_expired (clock i) (ts_timers s ! i))) [0..<m] @ drop m (ts_timers s),
     ts_world = fold (\<lambda>(cb, i, ud). f cb i ud) (timer_calls clock (ts_timers s) [0..<m]) (ts_world s)\<rparr>"
    if "m \<le> length (ts_timers s)" for m
    using that
  proof (induction m)
    case (Suc m)
    let ?t = "ts_timers s ! m"
    have drop: "drop m (ts_timers s) = ?t # drop (Suc m) (ts_timers s)"
      using Suc.prems by (intro Cons_nth_drop_Suc [symmetric]) simp
    show ?case
    proof (cases "timer_due clock (ts_timers s) m")
      case True
      then show ?thesis using Suc drop assms(1)
        by (cases "tm_callback ?t")
          (auto simp: timer_service_one_def Let_def case_prod_beta nth_append timer_calls_def timer_due_def list_update_append)
    next
      case False
      then show ?thesis using Suc drop
        by (cases "tm_active ?t")
          (auto simp: timer_service_one_def Let_def case_prod_beta nth_append timer_calls_def timer_due_def list_update_append)
    qed
  qed (cases s, simp add: timer_calls_def)
  from this [of count] assms(2) show ?thesis by (simp add: syn_timer_service_def)
qed

definition demo_timers :: "(nat, nat list) timers" where
  "demo_timers = \<lparr>ts_timers = [syn_timer_start 0 (syn_timer_init 5 False (Some 7) None),
     syn_timer_start 0 (syn_timer_init 50 False (Some 8) None)], ts_world = []\<rparr>"

theorem timer_service_due_witness:
  "ts_world (syn_timer_service (\<lambda>cb i ud s. s\<lparr>ts_world := cb # ts_world s\<rparr>) (\<lambda>_. 9) 2 demo_timers) = [7]"
  using timer_service_due [of "\<lambda>cb i ud s. s\<lparr>ts_world := cb # ts_world s\<rparr>" "\<lambda>cb i ud w. cb # w" 2 demo_timers "\<lambda>_. 9"]
  by (simp add: demo_timers_def timer_calls_def timer_due_def syn_timer_start_def syn_timer_init_def
      tick_simps tick_dist_def upt_rec)

subsection \<open>The earliest of several deadlines\<close>

text \<open>The comparison both wake-up computations use, with \<^verbatim>\<open>UINT32_MAX\<close> as \<open>none yet\<close>.\<close>

definition earlier :: "u32 \<Rightarrow> u32 \<Rightarrow> u32" where
  "earlier target earliest = (if tick_before target earliest \<or> earliest = - 1 then target else earliest)"

lemma tick_before_window:
  assumes "L \<le> tick_dist now a" "tick_dist now a < L + 2 ^ 31" "L \<le> tick_dist now b" "tick_dist now b < L + 2 ^ 31"
  shows "tick_before a b \<longleftrightarrow> tick_dist now a < tick_dist now b"
proof -
  from mod_sum_diff [OF tick_dist_less tick_dist_less tick_dist_split [of now a b]]
  show ?thesis using assms by (auto simp: tick_simps split: if_splits)
qed

lemma fold_earlier:
  assumes "\<forall>d\<in>set ds. d \<noteq> - 1 \<and> L \<le> tick_dist now d \<and> tick_dist now d < L + 2 ^ 31"
  shows "if ds = [] then fold earlier ds (- 1) = - 1
    else fold earlier ds (- 1) \<in> set ds \<and> (\<forall>d\<in>set ds. tick_dist now (fold earlier ds (- 1)) \<le> tick_dist now d)"
  using assms
proof (induction ds rule: rev_induct)
  case (snoc d ds)
  let ?w = "fold earlier ds (- 1)"
  show ?case
  proof (cases "ds = []")
    case True
    then show ?thesis by (simp add: earlier_def)
  next
    case False
    with snoc have w: "?w \<in> set ds" "\<forall>d\<in>set ds. tick_dist now ?w \<le> tick_dist now d" by auto
    then have "tick_before d ?w \<longleftrightarrow> tick_dist now d < tick_dist now ?w"
      using snoc.prems by (intro tick_before_window [of L]) auto
    moreover have "?w \<noteq> - 1" using w(1) snoc.prems by auto
    ultimately show ?thesis using w by (fastforce simp: earlier_def)
  qed
qed simp

abbreviation timer_pending :: "u32 \<Rightarrow> 'c syn_timer \<Rightarrow> bool" where
  "timer_pending now t \<equiv> tm_active t \<and> \<not> tick_reached now (tm_target_tick t)"

lemma timer_next_fold:
  "fold (timer_next_step now) timers (e, r) =
     (fold earlier (map tm_target_tick (filter (timer_pending now) timers)) e,
      r \<or> (\<exists>t\<in>set timers. tm_active t \<and> tick_reached now (tm_target_tick t)))"
  by (induction timers arbitrary: e r) (auto simp: timer_next_step_def earlier_def)

lemma not_reached_window: "\<not> tick_reached now d \<Longrightarrow> 1 \<le> tick_dist now d \<and> tick_dist now d < 1 + 2 ^ 31"
proof -
  assume nr: "\<not> tick_reached now d"
  then have half: "2 ^ 31 \<le> tick_dist d now" by (simp only: tick_reached_dist not_less)
  then have "now \<noteq> d" by (auto simp del: power_numeral)
  then have "tick_dist d now = 2 ^ 32 - tick_dist now d" by (rule tick_dist_swap)
  moreover have "0 < tick_dist now d" using \<open>now \<noteq> d\<close> tick_dist_eq_0 [of now d] by (metis gr0I)
  moreover have "(2 :: nat) ^ 32 = 2 * 2 ^ 31" by simp
  ultimately show ?thesis using half tick_dist_less [of now d] by (intro conjI) linarith+
qed

text \<open>
  The next-expiry computation is safe when no pending timer's target is the value 0xFFFFFFFF: it
  returns the current tick exactly when some timer is due; otherwise, with a pending timer, it
  returns the target of one and no pending timer expires strictly before it; with none, the
  value UINT32_MAX.
\<close>

theorem timer_next_expiry_safe:
  assumes "\<forall>t\<in>set timers. timer_pending now t \<longrightarrow> tm_target_tick t \<noteq> - 1"
  shows "if \<exists>t\<in>set timers. tm_active t \<and> tick_reached now (tm_target_tick t)
    then syn_timer_next_expiry now timers = now
    else if \<exists>t\<in>set timers. tm_active t
    then (\<exists>t\<in>set timers. tm_active t \<and> syn_timer_next_expiry now timers = tm_target_tick t)
      \<and> (\<forall>t\<in>set timers. \<forall>e<tick_dist now (syn_timer_next_expiry now timers).
           \<not> fst (syn_timer_expired (now + of_nat e) t))
    else syn_timer_next_expiry now timers = - 1"
proof -
  let ?ds = "map tm_target_tick (filter (timer_pending now) timers)"
  let ?w = "syn_timer_next_expiry now timers"
  show ?thesis
  proof (cases "\<exists>t\<in>set timers. tm_active t \<and> tick_reached now (tm_target_tick t)")
    case True
    then show ?thesis by (auto simp: syn_timer_next_expiry_def timer_next_fold)
  next
    case False
    have w: "?w = fold earlier ?ds (- 1)" using False by (auto simp: syn_timer_next_expiry_def timer_next_fold)
    have "\<forall>d\<in>set ?ds. d \<noteq> - 1 \<and> 1 \<le> tick_dist now d \<and> tick_dist now d < 1 + 2 ^ 31"
      using assms not_reached_window by auto
    from fold_earlier [OF this] have f: "if ?ds = [] then ?w = - 1
      else ?w \<in> set ?ds \<and> (\<forall>d\<in>set ?ds. tick_dist now ?w \<le> tick_dist now d)" by (simp only: w)
    have no: "\<not> fst (syn_timer_expired (now + of_nat e) t)"
      if "t \<in> set timers" "e < tick_dist now ?w" "?ds \<noteq> []" for t e
    proof
      assume "fst (syn_timer_expired (now + of_nat e) t)"
      then have t: "tm_active t" "tick_reached (now + of_nat e) (tm_target_tick t)" by simp_all
      then have "tm_target_tick t \<in> set ?ds" using that(1) False by auto
      then have le: "tick_dist now ?w \<le> tick_dist now (tm_target_tick t)" using f that(3) by (metis (no_types, lifting))
      have d: "tick_dist now (tm_target_tick t) \<le> 2 ^ 31"
        using not_reached_window [of now "tm_target_tick t"] that(1) t(1) False by auto
      have "e < 2 ^ 31" using that(2) le d by linarith
      from tick_reached_after [OF d this] t(2) le that(2) show False by simp
    qed
    show ?thesis
    proof (cases "\<exists>t\<in>set timers. tm_active t")
      case True
      with False have "?ds \<noteq> []" by (auto simp: filter_empty_conv)
      then show ?thesis using False True f no by auto
    next
      case none: False
      then have "?ds = []" by simp
      then show ?thesis using False none f by auto
    qed
  qed
qed

theorem timer_next_expiry_safe_witness:
  "syn_timer_next_expiry 2 (ts_timers demo_timers) = 5"
proof -
  have "\<forall>t\<in>set (ts_timers demo_timers). timer_pending 2 t \<longrightarrow> tm_target_tick t \<noteq> - 1"
    by (simp add: demo_timers_def syn_timer_start_def syn_timer_init_def)
  from timer_next_expiry_safe [OF this] show ?thesis
    by (auto simp: demo_timers_def syn_timer_start_def syn_timer_init_def tick_simps tick_dist_def
        syn_timer_next_expiry_def timer_next_step_def)
qed

text \<open>
  Without that hypothesis it is not: a pending timer whose target is 0xFFFFFFFF is taken for \<open>none\<close>
  and overwritten by the next pending timer, however late, so the reported wake-up is after the
  first timer's expiry; alone it is reported as no timer at all.
\<close>

theorem timer_next_expiry_misses_max:
  assumes "tm_active a" "tm_active b" "tm_target_tick a = - 1" "tm_target_tick b = - 1 + d"
    "0 < d" "unat d < 2 ^ 30" "now = - 1 - k" "0 < k" "unat k < 2 ^ 30"
  shows "syn_timer_next_expiry now [a, b] = tm_target_tick b
    \<and> tick_dist now (tm_target_tick a) < tick_dist now (syn_timer_next_expiry now [a, b])
    \<and> syn_timer_next_expiry now [a] = - 1"
proof -
  have ka: "tick_dist now (tm_target_tick a) = unat k" using assms(3,7) by (simp add: tick_dist_def)
  have kb: "tick_dist now (tm_target_tick b) = unat k + unat d"
    using tick_dist_split [of now "tm_target_tick b" "tm_target_tick a"] ka assms by (simp add: tick_dist_def)
  have "0 < unat k" "0 < unat d" using assms(5,8) by (simp_all add: unat_gt_0)
  moreover have "\<not> tick_reached now (tm_target_tick a)"
    using tick_reached_after [of now "tm_target_tick a" 0] ka assms(9) calculation by simp
  moreover have "\<not> tick_reached now (tm_target_tick b)"
    using tick_reached_after [of now "tm_target_tick b" 0] kb assms(6,9) calculation(1,2) by simp
  ultimately show ?thesis using ka kb assms(1-3)
    by (simp add: syn_timer_next_expiry_def timer_next_step_def)
qed

theorem timer_next_expiry_misses_max_witness:
  "syn_timer_next_expiry 4294967290
     [syn_timer_start 4294967290 (syn_timer_init 5 False (None :: nat option) None),
      syn_timer_start 4294967290 (syn_timer_init 1000 False None None)] = 994"
  using timer_next_expiry_misses_max [of
      "syn_timer_start 4294967290 (syn_timer_init 5 False (None :: nat option) None)"
      "syn_timer_start 4294967290 (syn_timer_init 1000 False None None)" 995 4294967290 5]
  by (simp add: syn_timer_start_def syn_timer_init_def)

end
