(* ===== verification/Syn_Tickless.thy ===== *)
theory Syn_Tickless
  imports Syn_Sched Syn_Timer
begin

text \<open>
  Tickless idle: the sleep coordinator (\<^verbatim>\<open>system/syn_sleep.h\<close>), \<^verbatim>\<open>syn_sched_next_wakeup\<close> and the two
  tickless main loops of \<^verbatim>\<open>sched/syn_sched.c\<close>, one iteration each. What the port is asked to do
  (\<^verbatim>\<open>syn_port_sleep\<close>, \<^verbatim>\<open>syn_port_sleep_until\<close>) is returned as a value. The iteration's clock
  readings are arguments.
\<close>

datatype SYN_SleepMode = SYN_SLEEP_NONE | SYN_SLEEP_LIGHT | SYN_SLEEP_DEEP

record syn_sleep =
  sl_max_depth :: SYN_SleepMode
  sl_lock_mask :: u32
  sl_enter_count :: u32
  sl_veto_count :: u32
  sl_enabled :: bool

datatype port_sleep = Stay_Awake | Port_Sleep SYN_SleepMode | Port_Sleep_Until u32

definition syn_sleep_init :: "SYN_SleepMode \<Rightarrow> syn_sleep" where
  "syn_sleep_init max_depth =
     \<lparr>sl_max_depth = max_depth, sl_lock_mask = 0, sl_enter_count = 0, sl_veto_count = 0, sl_enabled = True\<rparr>"

definition syn_sleep_lock :: "syn_sleep \<Rightarrow> u32 \<Rightarrow> syn_sleep" where
  "syn_sleep_lock s lock_id = s\<lparr>sl_lock_mask := sl_lock_mask s OR lock_id\<rparr>"

definition syn_sleep_unlock :: "syn_sleep \<Rightarrow> u32 \<Rightarrow> syn_sleep" where
  "syn_sleep_unlock s lock_id = s\<lparr>sl_lock_mask := sl_lock_mask s AND NOT lock_id\<rparr>"

definition syn_sleep_is_locked :: "syn_sleep \<Rightarrow> u32 \<Rightarrow> bool" where
  "syn_sleep_is_locked s lock_id \<longleftrightarrow> sl_lock_mask s AND lock_id \<noteq> 0"

definition syn_sleep_any_locked :: "syn_sleep \<Rightarrow> bool" where
  "syn_sleep_any_locked s \<longleftrightarrow> sl_lock_mask s \<noteq> 0"

definition syn_sleep_enter :: "syn_sleep \<Rightarrow> port_sleep \<times> syn_sleep" where
  "syn_sleep_enter s =
     (if \<not> sl_enabled s \<or> sl_lock_mask s \<noteq> 0
      then (Stay_Awake, s\<lparr>sl_veto_count := sl_veto_count s + 1\<rparr>)
      else (Port_Sleep (sl_max_depth s), s\<lparr>sl_enter_count := sl_enter_count s + 1\<rparr>))"

definition syn_sleep_enable :: "syn_sleep \<Rightarrow> bool \<Rightarrow> syn_sleep" where
  "syn_sleep_enable s en = s\<lparr>sl_enabled := en\<rparr>"

definition syn_sleep_locks :: "syn_sleep \<Rightarrow> u32" where
  "syn_sleep_locks s = sl_lock_mask s"

lemmas sleep_ops [syn_defs] =
  syn_sleep_init_def syn_sleep_lock_def syn_sleep_unlock_def syn_sleep_is_locked_def
  syn_sleep_any_locked_def syn_sleep_enter_def syn_sleep_enable_def syn_sleep_locks_def

subsection \<open>The next wake-up\<close>

text \<open>A future deadline joins the earliest so far, capped below the \<open>none\<close> value.\<close>

definition wakeup_track :: "u32 \<Rightarrow> u32 \<Rightarrow> u32" where
  "wakeup_track delay_until earliest =
     (let target = (if delay_until = - 1 then - 1 - 1 else delay_until)
      in if tick_before target earliest \<or> earliest = - 1 then target else earliest)"

definition wakeup_step :: "u32 \<Rightarrow> (nat \<Rightarrow> syn_event_flags) \<Rightarrow> 'f syn_task \<Rightarrow> u32 \<times> bool \<Rightarrow> u32 \<times> bool" where
  "wakeup_step now evs task acc =
     (case acc of (earliest, any_ready_now) \<Rightarrow>
        if t_state task = SYN_TASK_DEAD \<or> t_state task = SYN_TASK_SUSPENDED then (earliest, any_ready_now)
        else if t_state task = SYN_TASK_BLOCKED
        then let fired = (case t_wait_event task of
                            None \<Rightarrow> False
                          | Some e \<Rightarrow> syn_event_flags_get (Some (evs e)) AND t_wait_mask task \<noteq> 0);
                 ready1 = (any_ready_now \<or> fired)
             in if t_delay_until task \<noteq> 0
                then if tick_reached now (t_delay_until task) then (earliest, True)
                     else (wakeup_track (t_delay_until task) earliest, ready1)
                else (earliest, ready1)
        else if t_delay_until task = 0 then (earliest, True)
        else if tick_reached now (t_delay_until task) then (earliest, True)
        else (wakeup_track (t_delay_until task) earliest, any_ready_now))"

definition syn_sched_next_wakeup :: "u32 \<Rightarrow> ('f, 'w) kernel \<Rightarrow> u32" where
  "syn_sched_next_wakeup now k =
     (case fold (wakeup_step now (k_events k)) (k_tasks k) (- 1, False) of
        (earliest, any_ready_now) \<Rightarrow> if any_ready_now then now else earliest)"

text \<open>The end of an iteration: sleep until \<open>wake\<close> unless something is ready or a lock is held.\<close>

definition tickless_sleep :: "u32 \<Rightarrow> u32 \<Rightarrow> syn_sleep \<Rightarrow> port_sleep \<times> syn_sleep" where
  "tickless_sleep now wake sleep =
     (if wake \<noteq> now \<and> \<not> syn_sleep_any_locked sleep
      then if wake = - 1 then syn_sleep_enter sleep else (Port_Sleep_Until wake, sleep)
      else (Stay_Awake, sleep))"

text \<open>
  \<^verbatim>\<open>syn_sched_run_tickless\<close>: the scheduler reads the clock at \<open>now\<close>; after it, inside the critical
  section, both the loop and \<^verbatim>\<open>syn_sched_next_wakeup\<close> read it, at \<open>now1\<close> and \<open>now2\<close>.
\<close>

definition run_tickless_iter :: "('f, 'w) body \<Rightarrow> u32 \<Rightarrow> u32 \<Rightarrow> u32 \<Rightarrow> ('f, 'w) kernel \<times> syn_sleep
    \<Rightarrow> port_sleep \<times> ('f, 'w) kernel \<times> syn_sleep" where
  "run_tickless_iter body now now1 now2 s =
     (case s of (k, sleep) \<Rightarrow>
        let k1 = snd (syn_sched_run body now k);
            wake = syn_sched_next_wakeup now2 k1;
            (act, sleep1) = tickless_sleep now1 wake sleep
        in (act, k1, sleep1))"

definition pick_wake :: "u32 \<Rightarrow> u32 \<Rightarrow> u32" where
  "pick_wake task_wake timer_wake =
     (if timer_wake \<noteq> - 1 \<and> (task_wake = - 1 \<or> tick_before timer_wake task_wake) then timer_wake else task_wake)"

definition run_tickless_ex_iter :: "('f, 'w) body \<Rightarrow> ('c, 'v) timer_cb \<Rightarrow> u32 \<Rightarrow> (nat \<Rightarrow> u32) \<Rightarrow> u32 \<Rightarrow> u32 \<Rightarrow> u32
    \<Rightarrow> ('f, 'w) kernel \<times> ('c, 'v) timers \<times> syn_sleep \<Rightarrow> port_sleep \<times> ('f, 'w) kernel \<times> ('c, 'v) timers \<times> syn_sleep" where
  "run_tickless_ex_iter body call now clock now1 now2 now3 s =
     (case s of (k, tms, sleep) \<Rightarrow>
        let k1 = snd (syn_sched_run body now k);
            tms1 = syn_timer_service call clock (length (ts_timers tms)) tms;
            wake = pick_wake (syn_sched_next_wakeup now2 k1) (syn_timer_next_expiry now3 (ts_timers tms1));
            (act, sleep1) = tickless_sleep now1 wake sleep
        in (act, k1, tms1, sleep1))"

lemmas tickless_defs [syn_defs] = wakeup_track_def wakeup_step_def tickless_sleep_def pick_wake_def

subsection \<open>No deadline is slept through\<close>

definition wakeup_cap :: "u32 \<Rightarrow> u32" where
  "wakeup_cap d = (if d = - 1 then - 1 - 1 else d)"

definition wakeup_ready :: "u32 \<Rightarrow> (nat \<Rightarrow> syn_event_flags) \<Rightarrow> 'f syn_task \<Rightarrow> bool" where
  "wakeup_ready now evs t \<longleftrightarrow> t_state t \<noteq> SYN_TASK_DEAD \<and> t_state t \<noteq> SYN_TASK_SUSPENDED
     \<and> (if t_state t = SYN_TASK_BLOCKED
        then (case t_wait_event t of None \<Rightarrow> False | Some e \<Rightarrow> ef_flags (evs e) AND t_wait_mask t \<noteq> 0)
             \<or> t_delay_until t \<noteq> 0 \<and> tick_reached now (t_delay_until t)
        else t_delay_until t = 0 \<or> tick_reached now (t_delay_until t))"

definition wakeup_pending :: "u32 \<Rightarrow> 'f syn_task \<Rightarrow> bool" where
  "wakeup_pending now t \<longleftrightarrow> t_state t \<noteq> SYN_TASK_DEAD \<and> t_state t \<noteq> SYN_TASK_SUSPENDED
     \<and> t_delay_until t \<noteq> 0 \<and> \<not> tick_reached now (t_delay_until t)"

lemma wakeup_fold:
  "fold (wakeup_step now evs) ts (e, r) =
     (fold earlier (map (wakeup_cap \<circ> t_delay_until) (filter (wakeup_pending now) ts)) e,
      r \<or> (\<exists>t\<in>set ts. wakeup_ready now evs t))"
proof (induction ts arbitrary: e r)
  case (Cons t ts)
  have "wakeup_step now evs t (e, r) =
      (if wakeup_pending now t then earlier (wakeup_cap (t_delay_until t)) e else e, r \<or> wakeup_ready now evs t)"
    by (auto simp: wakeup_step_def wakeup_ready_def wakeup_pending_def wakeup_track_def wakeup_cap_def
        earlier_def Let_def syn_event_flags_get_def split: option.splits)
  then show ?case using Cons.IH by (simp add: disj_assoc)
qed simp

lemma eligible_ready: "task_eligible now evs t \<Longrightarrow> wakeup_ready now evs t"
  by (auto simp: task_eligible_def wakeup_ready_def split: SYN_TaskState.splits)

lemma eligible_later:
  "\<not> wakeup_ready now evs t \<Longrightarrow> task_eligible later evs t \<Longrightarrow> wakeup_pending now t \<and> tick_reached later (t_delay_until t)"
  by (auto simp: task_eligible_def wakeup_ready_def wakeup_pending_def split: SYN_TaskState.splits if_splits)

lemma wakeup_cap_dist:
  assumes "\<not> tick_reached now d" "tick_dist now d \<noteq> 2 ^ 31"
  shows "wakeup_cap d \<noteq> - 1 \<and> 0 \<le> tick_dist now (wakeup_cap d) \<and> tick_dist now (wakeup_cap d) < 0 + 2 ^ 31
    \<and> tick_dist now (wakeup_cap d) \<le> tick_dist now d"
proof -
  note w = not_reached_window [OF assms(1)]
  then have lt: "tick_dist now d < 2 ^ 31" using assms(2) by linarith
  have "tick_dist now (- 1 - 1) = tick_dist now d - 1" if "d = - 1"
  proof -
    have "now \<noteq> d" using w by (metis tick_dist_self not_one_le_zero)
    then have "unat ((d - now) - 1) = unat (d - now) - 1" by (intro unat_minus_one) simp
    moreover have "- 1 - 1 - now = (d - now) - 1" using that by simp
    ultimately show ?thesis by (simp only: tick_dist_def)
  qed
  then show ?thesis using lt by (cases "d = - 1") (simp_all add: wakeup_cap_def del: power_numeral)
qed

lemma next_wakeup_cases:
  assumes "\<forall>t\<in>set (k_tasks k). tick_dist now (t_delay_until t) \<noteq> 2 ^ 31"
  shows "if \<exists>t\<in>set (k_tasks k). wakeup_ready now (k_events k) t
    then syn_sched_next_wakeup now k = now
    else if \<exists>t\<in>set (k_tasks k). wakeup_pending now t
    then syn_sched_next_wakeup now k \<noteq> - 1 \<and> tick_dist now (syn_sched_next_wakeup now k) < 2 ^ 31
      \<and> (\<forall>t\<in>set (k_tasks k). wakeup_pending now t \<longrightarrow>
           tick_dist now (syn_sched_next_wakeup now k) \<le> tick_dist now (t_delay_until t))
    else syn_sched_next_wakeup now k = - 1"
proof -
  let ?ps = "filter (wakeup_pending now) (k_tasks k)"
  let ?ds = "map (wakeup_cap \<circ> t_delay_until) ?ps"
  let ?w = "syn_sched_next_wakeup now k"
  have dist: "wakeup_cap (t_delay_until t) \<noteq> - 1 \<and> 0 \<le> tick_dist now (wakeup_cap (t_delay_until t))
      \<and> tick_dist now (wakeup_cap (t_delay_until t)) < 0 + 2 ^ 31
      \<and> tick_dist now (wakeup_cap (t_delay_until t)) \<le> tick_dist now (t_delay_until t)" if "t \<in> set ?ps" for t
    using that assms by (intro wakeup_cap_dist) (auto simp: wakeup_pending_def)
  then have ds: "\<forall>d\<in>set ?ds. d \<noteq> - 1 \<and> 0 \<le> tick_dist now d \<and> tick_dist now d < 0 + 2 ^ 31" by fastforce
  show ?thesis
  proof (cases "\<exists>t\<in>set (k_tasks k). wakeup_ready now (k_events k) t")
    case True
    then show ?thesis by (auto simp: syn_sched_next_wakeup_def wakeup_fold)
  next
    case False
    have w: "?w = fold earlier ?ds (- 1)" using False by (auto simp: syn_sched_next_wakeup_def wakeup_fold)
    show ?thesis
    proof (cases "?ps = []")
      case True
      then show ?thesis using False w by (auto simp: filter_empty_conv)
    next
      case ps: False
      then have f: "?w \<in> set ?ds" "\<forall>d\<in>set ?ds. tick_dist now ?w \<le> tick_dist now d"
        using fold_earlier [OF ds] by (simp_all only: w map_is_Nil_conv if_False simp_thms) blast
      have "?w \<noteq> - 1 \<and> tick_dist now ?w < 2 ^ 31" using ds f(1) by (simp only: add_0) blast
      moreover have "tick_dist now ?w \<le> tick_dist now (t_delay_until t)"
        if "t \<in> set (k_tasks k)" "wakeup_pending now t" for t
        using that f(2) dist [of t] by fastforce
      ultimately show ?thesis using False ps by (auto simp: filter_empty_conv)
    qed
  qed
qed


definition delayed_kernel :: "(nat, nat set) kernel" where
  "delayed_kernel = demo_kernel\<lparr>k_tasks := [(demo_task 0)\<lparr>t_delay_until := 100\<rparr>, (demo_task 1)\<lparr>t_delay_until := 60\<rparr>]\<rparr>"

lemma delayed_kernel_ticks: "\<not> tick_reached 50 100" "\<not> tick_reached 50 60" "tick_before 60 100"
  by (simp_all add: tick_simps tick_dist_def)

lemma delayed_kernel_iter:
  "run_tickless_iter demo_defer 50 50 50 (delayed_kernel, syn_sleep_init SYN_SLEEP_LIGHT) =
    (Port_Sleep_Until 60, delayed_kernel, syn_sleep_init SYN_SLEEP_LIGHT)"
proof -
  note ticks = delayed_kernel_ticks
  have "syn_sched_run demo_defer 50 delayed_kernel = (True, delayed_kernel)"
    by (simp add: syn_sched_run_def delayed_kernel_def demo_simps tick_before_not_reached ticks)
  moreover have "syn_sched_next_wakeup 50 delayed_kernel = 60"
    by (simp add: syn_sched_next_wakeup_def delayed_kernel_def demo_kernel_def demo_task_def wakeup_step_def
        wakeup_track_def Let_def ticks)
  ultimately show ?thesis by (simp add: run_tickless_iter_def tickless_sleep_def sleep_ops)
qed


end
