(* ===== verification/Syn_Timer_Wheel.thy ===== *)
theory Syn_Timer_Wheel
  imports Syn_Prelude
begin

text \<open>
  The timer wheel of \<^verbatim>\<open>sched/syn_timer_wheel.c\<close>: 64 buckets of intrusive doubly linked lists of
  caller-owned nodes. Nodes live in a store, a map from addresses to records, because the code
  links them by pointer; a callback is a name, and what calling it does to the wheel, the
  store and the rest of the system is a parameter. The walk over a bucket follows pointers
  that callbacks may change, so it is a partial function: \<open>None\<close> would be a walk without end.
\<close>

record 'c tw_node =
  tw_next :: ptr
  tw_prev :: ptr
  tw_expires_tick :: u32
  tw_rotation_count :: u32
  tw_cb :: "'c option"
  tw_arg :: ptr
  tw_active :: bool

record ('c, 'w) tw =
  tw_buckets :: "nat \<Rightarrow> ptr"
  tw_current_tick :: u32
  tw_store :: "nat \<Rightarrow> 'c tw_node"
  tw_world :: 'w

definition SYN_TIMER_WHEEL_BUCKETS :: u32 where "SYN_TIMER_WHEEL_BUCKETS = 64"

definition upd_node :: "nat \<Rightarrow> ('c tw_node \<Rightarrow> 'c tw_node) \<Rightarrow> ('c, 'w) tw \<Rightarrow> ('c, 'w) tw" where
  "upd_node n f w = w\<lparr>tw_store := (tw_store w)(n := f (tw_store w n))\<rparr>"

definition syn_timer_wheel_init :: "('c, 'w) tw \<Rightarrow> SYN_Status \<times> ('c, 'w) tw" where
  "syn_timer_wheel_init w = (SYN_OK, w\<lparr>tw_buckets := (\<lambda>_. None), tw_current_tick := 0\<rparr>)"

text \<open>Unlinking, shared by cancel and by the expiry in a step.\<close>

definition tw_unlink :: "nat \<Rightarrow> nat \<Rightarrow> ('c, 'w) tw \<Rightarrow> ('c, 'w) tw" where
  "tw_unlink bucket_idx n w =
     (let node = tw_store w n;
          w1 = (case tw_prev node of
                  Some p \<Rightarrow> upd_node p (\<lambda>x. x\<lparr>tw_next := tw_next node\<rparr>) w
                | None \<Rightarrow> w\<lparr>tw_buckets := (tw_buckets w)(bucket_idx := tw_next node)\<rparr>);
          w2 = (case tw_next (tw_store w1 n) of
                  Some q \<Rightarrow> upd_node q (\<lambda>x. x\<lparr>tw_prev := tw_prev (tw_store w1 n)\<rparr>) w1
                | None \<Rightarrow> w1)
      in upd_node n (\<lambda>x. x\<lparr>tw_next := None, tw_prev := None, tw_active := False\<rparr>) w2)"

definition syn_timer_wheel_cancel :: "('c, 'w) tw \<Rightarrow> nat \<Rightarrow> SYN_Status \<times> ('c, 'w) tw" where
  "syn_timer_wheel_cancel w n =
     (if \<not> tw_active (tw_store w n) then (SYN_INVALID_PARAM, w)
      else (SYN_OK, tw_unlink (unat (tw_expires_tick (tw_store w n) mod SYN_TIMER_WHEEL_BUCKETS)) n w))"

definition syn_timer_wheel_add :: "('c, 'w) tw \<Rightarrow> nat \<Rightarrow> u32 \<Rightarrow> 'c option \<Rightarrow> ptr \<Rightarrow> SYN_Status \<times> ('c, 'w) tw" where
  "syn_timer_wheel_add w n delay_ticks cb arg =
     (if cb = None \<or> delay_ticks = 0 then (SYN_INVALID_PARAM, w)
      else
        let w1 = (if tw_active (tw_store w n) then snd (syn_timer_wheel_cancel w n) else w);
            target_tick = tw_current_tick w1 + delay_ticks;
            bucket_idx = unat (target_tick mod SYN_TIMER_WHEEL_BUCKETS);
            rotations = (delay_ticks - 1) div SYN_TIMER_WHEEL_BUCKETS;
            w2 = upd_node n (\<lambda>x. x\<lparr>tw_expires_tick := target_tick, tw_rotation_count := rotations, tw_cb := cb,
                   tw_arg := arg, tw_active := True, tw_next := tw_buckets w1 bucket_idx, tw_prev := None\<rparr>) w1;
            w3 = (case tw_buckets w2 bucket_idx of
                    Some h \<Rightarrow> upd_node h (\<lambda>x. x\<lparr>tw_prev := Some n\<rparr>) w2
                  | None \<Rightarrow> w2)
        in (SYN_OK, w3\<lparr>tw_buckets := (tw_buckets w3)(bucket_idx := Some n)\<rparr>))"

text \<open>The walk of a step: the current node and the count of callbacks so far.\<close>

partial_function (option) tw_walk :: "('c \<Rightarrow> ptr \<Rightarrow> ('c, 'w) tw \<Rightarrow> ('c, 'w) tw) \<Rightarrow> nat \<Rightarrow> ptr \<Rightarrow> nat \<Rightarrow> ('c, 'w) tw
    \<Rightarrow> (nat \<times> ('c, 'w) tw) option" where
  "tw_walk call bucket_idx cur fired w =
     (case cur of
        None \<Rightarrow> Some (fired, w)
      | Some n \<Rightarrow>
          (let next_node = tw_next (tw_store w n)
           in if tw_rotation_count (tw_store w n) > 0
              then tw_walk call bucket_idx next_node fired
                     (upd_node n (\<lambda>x. x\<lparr>tw_rotation_count := tw_rotation_count x - 1\<rparr>) w)
              else
                (let w1 = tw_unlink bucket_idx n w
                 in (case tw_cb (tw_store w1 n) of
                       Some cb \<Rightarrow> tw_walk call bucket_idx next_node (fired + 1) (call cb (tw_arg (tw_store w1 n)) w1)
                     | None \<Rightarrow> tw_walk call bucket_idx next_node fired w1))))"

definition syn_timer_wheel_step :: "('c \<Rightarrow> ptr \<Rightarrow> ('c, 'w) tw \<Rightarrow> ('c, 'w) tw) \<Rightarrow> ('c, 'w) tw \<Rightarrow> (nat \<times> ('c, 'w) tw) option" where
  "syn_timer_wheel_step call w =
     (let w1 = w\<lparr>tw_current_tick := tw_current_tick w + 1\<rparr>;
          bucket_idx = unat (tw_current_tick w1 mod SYN_TIMER_WHEEL_BUCKETS)
      in tw_walk call bucket_idx (tw_buckets w1 bucket_idx) 0 w1)"

subsection \<open>Linked lists\<close>

text \<open>
  \<open>links st pr xs q\<close>: the nodes \<open>xs\<close> are linked in the store, the first one's \<^verbatim>\<open>prev\<close> being \<open>pr\<close> and the
  last one's \<^verbatim>\<open>next\<close> being \<open>q\<close>.
\<close>

definition hdp :: "nat list \<Rightarrow> ptr \<Rightarrow> ptr" where
  "hdp xs q = (case xs of [] \<Rightarrow> q | x # _ \<Rightarrow> Some x)"

definition lastp :: "ptr \<Rightarrow> nat list \<Rightarrow> ptr" where
  "lastp pr xs = (if xs = [] then pr else Some (last xs))"

lemma hdp_simps [simp]: "hdp [] q = q" "hdp (x # xs) q = Some x"
  by (simp_all add: hdp_def)

lemma lastp_simps [simp]: "lastp pr [] = pr" "lastp pr (x # xs) = lastp (Some x) xs" "lastp pr (xs @ [x]) = Some x"
  by (simp_all add: lastp_def)

fun links :: "(nat \<Rightarrow> 'c tw_node) \<Rightarrow> ptr \<Rightarrow> nat list \<Rightarrow> ptr \<Rightarrow> bool" where
  "links st pr [] q \<longleftrightarrow> True"
| "links st pr (x # xs) q \<longleftrightarrow> tw_prev (st x) = pr \<and> tw_next (st x) = hdp xs q \<and> links st (Some x) xs q"

lemma hdp_append [simp]: "hdp (xs @ ys) q = hdp xs (hdp ys q)"
  by (cases xs) simp_all

lemma links_append: "links st pr (xs @ ys) q \<longleftrightarrow> links st pr xs (hdp ys q) \<and> links st (lastp pr xs) ys q"
  by (induction xs arbitrary: pr) auto

lemma links_cong:
  "(\<And>x. x \<in> set xs \<Longrightarrow> tw_prev (st' x) = tw_prev (st x) \<and> tw_next (st' x) = tw_next (st x)) \<Longrightarrow>
    links st' pr xs q \<longleftrightarrow> links st pr xs q"
  by (induction xs arbitrary: pr) auto

lemma links_upd_other [simp]: "y \<notin> set xs \<Longrightarrow> links (st(y := v)) pr xs q \<longleftrightarrow> links st pr xs q"
  by (rule links_cong) auto

lemma links_set_next:
  assumes "xs = ys @ [y]" "y \<notin> set ys" "links st pr xs q"
  shows "links (st(y := (st y)\<lparr>tw_next := q'\<rparr>)) pr xs q'"
  using assms by (auto simp: links_append)

lemma links_set_prev:
  "y \<notin> set ys \<Longrightarrow> links st pr (y # ys) q \<Longrightarrow> links (st(y := (st y)\<lparr>tw_prev := pr'\<rparr>)) pr' (y # ys) q"
  by auto

text \<open>The fields a link operation leaves alone.\<close>

definition same_data :: "'c tw_node \<Rightarrow> 'c tw_node \<Rightarrow> bool" where
  "same_data a b \<longleftrightarrow> tw_expires_tick a = tw_expires_tick b \<and> tw_rotation_count a = tw_rotation_count b
     \<and> tw_cb a = tw_cb b \<and> tw_arg a = tw_arg b"

text \<open>What unlinking a node does to its own list and to everything else.\<close>

lemma tw_unlink_store:
  fixes b :: nat
  assumes "distinct (xs @ n # ys)" "links (tw_store w) None (xs @ n # ys) None"
  defines "w' \<equiv> tw_unlink b n w"
  shows "links (tw_store w') None (xs @ ys) None"
    "tw_buckets w' = (if xs = [] then (tw_buckets w)(b := hdp ys None) else tw_buckets w)"
    "m \<notin> set (xs @ n # ys) \<Longrightarrow> tw_store w' m = tw_store w m"
    "same_data (tw_store w' m) (tw_store w m)"
    "tw_active (tw_store w' m) \<longleftrightarrow> m \<noteq> n \<and> tw_active (tw_store w m)"
    "tw_current_tick w' = tw_current_tick w" "tw_world w' = tw_world w"
proof -
  have l: "links (tw_store w) None xs (Some n)" "tw_prev (tw_store w n) = lastp None xs"
    "tw_next (tw_store w n) = hdp ys None" "links (tw_store w) (Some n) ys None"
    using assms(2) by (auto simp: links_append)
  define w1 where "w1 = (case lastp None xs of
      Some p \<Rightarrow> upd_node p (\<lambda>x. x\<lparr>tw_next := hdp ys None\<rparr>) w
    | None \<Rightarrow> w\<lparr>tw_buckets := (tw_buckets w)(b := hdp ys None)\<rparr>)"
  define w2 where "w2 = (case hdp ys None of
      Some q \<Rightarrow> upd_node q (\<lambda>x. x\<lparr>tw_prev := lastp None xs\<rparr>) w1 | None \<Rightarrow> w1)"
  have nl: "lastp None xs \<noteq> Some n" using assms(1) by (auto simp: lastp_def)
  have n1: "tw_store w1 n = tw_store w n" using nl by (auto simp: w1_def upd_node_def split: option.splits)
  have w': "w' = upd_node n (\<lambda>x. x\<lparr>tw_next := None, tw_prev := None, tw_active := False\<rparr>) w2"
    by (simp only: w'_def tw_unlink_def Let_def l(2,3) w1_def [symmetric] n1 w2_def)
  have x1: "links (tw_store w1) None xs (hdp ys None)"
  proof (cases xs rule: rev_cases)
    case (snoc zs z)
    then show ?thesis using links_set_next [OF snoc _ l(1), of "hdp ys None"] assms(1) by (simp add: w1_def upd_node_def)
  qed simp
  have y1: "links (tw_store w1) (Some n) ys None"
  proof -
    have "xs \<noteq> [] \<Longrightarrow> last xs \<notin> set ys" using assms(1) by (metis disjoint_iff distinct_append last_in_set list.set_intros(2))
    then show ?thesis using l(4) by (auto simp: w1_def upd_node_def lastp_def split: option.splits)
  qed
  have y2: "links (tw_store w2) (lastp None xs) ys None"
  proof (cases ys)
    case (Cons z zs)
    then show ?thesis using links_set_prev [of z zs "tw_store w1" "Some n" None "lastp None xs"] y1 assms(1)
      by (simp add: w2_def upd_node_def)
  qed simp
  have x2: "links (tw_store w2) None xs (hdp ys None)"
    using x1 assms(1) links_cong [of xs "tw_store w2" "tw_store w1" None "hdp ys None"]
    by (cases ys) (auto simp: w2_def upd_node_def)
  have "links (tw_store w2) None (xs @ ys) None" using x2 y2 by (simp add: links_append)
  then show "links (tw_store w') None (xs @ ys) None"
    using assms(1) links_cong [of "xs @ ys" "tw_store w'" "tw_store w2" None None]
    by (auto simp: w' upd_node_def)
  show "tw_buckets w' = (if xs = [] then (tw_buckets w)(b := hdp ys None) else tw_buckets w)"
    "tw_current_tick w' = tw_current_tick w" "tw_world w' = tw_world w"
    by (auto simp: w' w2_def w1_def upd_node_def lastp_def split: option.splits)
  show "m \<notin> set (xs @ n # ys) \<Longrightarrow> tw_store w' m = tw_store w m"
    by (cases ys) (auto simp: w' w2_def w1_def upd_node_def lastp_def split: option.splits)
  show "same_data (tw_store w' m) (tw_store w m)"
    by (auto simp: w' w2_def w1_def upd_node_def same_data_def split: option.splits)
  show "tw_active (tw_store w' m) \<longleftrightarrow> m \<noteq> n \<and> tw_active (tw_store w m)"
    by (auto simp: w' w2_def w1_def upd_node_def split: option.splits)
qed

subsection \<open>The buckets as lists\<close>

definition tw_rep :: "(nat \<Rightarrow> nat list) \<Rightarrow> ('c, 'w) tw \<Rightarrow> bool" where
  "tw_rep L w \<longleftrightarrow>
     (\<forall>b. links (tw_store w) None (L b) None \<and> distinct (L b) \<and> tw_buckets w b = hdp (L b) None)
     \<and> (\<forall>b c. b \<noteq> c \<longrightarrow> set (L b) \<inter> set (L c) = {})
     \<and> (\<forall>n. tw_active (tw_store w n) \<longleftrightarrow> (\<exists>b. n \<in> set (L b)))
     \<and> (\<forall>b n. n \<in> set (L b) \<longrightarrow>
          unat (tw_expires_tick (tw_store w n) mod SYN_TIMER_WHEEL_BUCKETS) = b \<and> tw_cb (tw_store w n) \<noteq> None)"

lemma tw_repD:
  assumes "tw_rep L w"
  shows "links (tw_store w) None (L b) None" "distinct (L b)" "tw_buckets w b = hdp (L b) None"
    "b \<noteq> c \<Longrightarrow> set (L b) \<inter> set (L c) = {}"
    "tw_active (tw_store w n) \<longleftrightarrow> (\<exists>b. n \<in> set (L b))"
    "n \<in> set (L b) \<Longrightarrow> unat (tw_expires_tick (tw_store w n) mod SYN_TIMER_WHEEL_BUCKETS) = b"
    "n \<in> set (L b) \<Longrightarrow> tw_cb (tw_store w n) \<noteq> None"
  using assms unfolding tw_rep_def by blast+

lemma tw_rep_init: "tw_rep (\<lambda>_. []) (snd (syn_timer_wheel_init w))" if "\<And>n. \<not> tw_active (tw_store w n)"
  using that by (simp add: tw_rep_def syn_timer_wheel_init_def)

text \<open>Changes outside the links keep the representation.\<close>

lemma tw_rep_cong:
  assumes "tw_rep L w" "tw_buckets w' = tw_buckets w"
    "\<And>n. tw_prev (tw_store w' n) = tw_prev (tw_store w n)" "\<And>n. tw_next (tw_store w' n) = tw_next (tw_store w n)"
    "\<And>n. tw_active (tw_store w' n) = tw_active (tw_store w n)"
    "\<And>n. tw_expires_tick (tw_store w' n) = tw_expires_tick (tw_store w n)" "\<And>n. tw_cb (tw_store w' n) = tw_cb (tw_store w n)"
  shows "tw_rep L w'"
proof -
  have "links (tw_store w') None xs None \<longleftrightarrow> links (tw_store w) None xs None" for xs
    by (rule links_cong) (simp add: assms)
  then show ?thesis using assms unfolding tw_rep_def by simp
qed

lemma tw_rep_unlink:
  assumes "tw_rep L w" "L b = xs @ n # ys"
  shows "tw_rep (L(b := xs @ ys)) (tw_unlink b n w)"
proof -
  note D = tw_repD [OF assms(1)]
  have d: "distinct (xs @ n # ys)" "links (tw_store w) None (xs @ n # ys) None" using D(1,2) [of b] assms(2) by simp_all
  note U = tw_unlink_store [OF d, where b = b]
  let ?w = "tw_unlink b n w"
  have other: "m \<notin> set (xs @ n # ys)" if "c \<noteq> b" "m \<in> set (L c)" for c m
    using D(4) [OF that(1)] that(2) assms(2) by auto
  have lc: "links (tw_store ?w) None (L c) None" if "c \<noteq> b" for c
    using D(1) [of c] links_cong [of "L c" "tw_store ?w" "tw_store w" None None] U(3) other [OF that] by simp
  have act: "tw_active (tw_store ?w m) \<longleftrightarrow> (\<exists>c. m \<in> set ((L(b := xs @ ys)) c))" for m
  proof -
    have "n \<in> set (L c) \<Longrightarrow> c = b" for c using other [of c n] by auto
    then show ?thesis using U(5) [where m = m] D(5) [of m] assms(2) d(1) by (auto split: if_splits) (metis Un_iff insert_iff set_append set_simps(2))+
  qed
  have data: "tw_expires_tick (tw_store ?w m) = tw_expires_tick (tw_store w m)" "tw_cb (tw_store ?w m) = tw_cb (tw_store w m)" for m
    using U(4) [where m = m] by (simp_all add: same_data_def)
  have bk: "tw_buckets ?w c = hdp ((L(b := xs @ ys)) c) None" for c
  proof (cases "c = b")
    case True
    then show ?thesis using U(2) D(3) [of b] assms(2) by (cases xs) auto
  next
    case False
    then show ?thesis using U(2) D(3) [of c] by auto
  qed
  have sub: "m \<in> set ((L(b := xs @ ys)) c) \<Longrightarrow> m \<in> set (L c)" for m c using assms(2) by (auto split: if_splits)
  have dist: "distinct ((L(b := xs @ ys)) c)" for c using D(2) [of c] d(1) by simp
  have disj: "c \<noteq> e \<Longrightarrow> set ((L(b := xs @ ys)) c) \<inter> set ((L(b := xs @ ys)) e) = {}" for c e
    using D(4) [of c e] sub by blast
  have ld: "links (tw_store ?w) None ((L(b := xs @ ys)) c) None" for c using lc U(1) by simp
  show ?thesis unfolding tw_rep_def
    using ld dist bk disj act D(6,7) sub data by metis
qed

lemma tw_rep_push:
  fixes rots :: u32 and arg :: ptr
  assumes "tw_rep L w" "\<not> tw_active (tw_store w n)" "unat (tt mod SYN_TIMER_WHEEL_BUCKETS) = b" "cb \<noteq> None"
  defines "w2 \<equiv> upd_node n (\<lambda>x. x\<lparr>tw_expires_tick := tt, tw_rotation_count := rots, tw_cb := cb,
                   tw_arg := arg, tw_active := True, tw_next := tw_buckets w b, tw_prev := None\<rparr>) w"
  defines "w3 \<equiv> (case tw_buckets w2 b of Some h \<Rightarrow> upd_node h (\<lambda>x. x\<lparr>tw_prev := Some n\<rparr>) w2 | None \<Rightarrow> w2)"
  shows "tw_rep (L(b := n # L b)) (w3\<lparr>tw_buckets := (tw_buckets w3)(b := Some n)\<rparr>)"
proof -
  note D = tw_repD [OF assms(1)]
  let ?w = "w3\<lparr>tw_buckets := (tw_buckets w3)(b := Some n)\<rparr>" and ?L = "L(b := n # L b)"
  have nin: "n \<notin> set (L c)" for c using D(5) [of n] assms(2) by blast
  have b2: "tw_buckets w2 = tw_buckets w" "tw_buckets w3 = tw_buckets w"
    by (auto simp: w2_def w3_def upd_node_def split: option.splits)
  have hb: "tw_buckets w2 b = hdp (L b) None" using b2 D(3) by simp
  have store: "tw_store w3 m = (if m = n then (tw_store w n)\<lparr>tw_expires_tick := tt, tw_rotation_count := rots, tw_cb := cb,
        tw_arg := arg, tw_active := True, tw_next := hdp (L b) None, tw_prev := None\<rparr>
      else if hdp (L b) None = Some m then (tw_store w m)\<lparr>tw_prev := Some n\<rparr> else tw_store w m)" for m
    using nin [of b] hb D(3) [of b] by (cases "L b") (auto simp: w3_def w2_def upd_node_def)
  have other: "tw_store w3 m = tw_store w m" if "m \<in> set (L c)" "c \<noteq> b" for m c
  proof -
    have "hdp (L b) None \<noteq> Some m" using D(4) [OF that(2)] that(1) by (cases "L b") auto
    then show ?thesis using store [of m] that(1) nin [of c] by auto
  qed
  have "links (tw_store w3) (Some n) (L b) None"
  proof (cases "L b")
    case (Cons h ys)
    then have "h \<notin> set ys" "h \<noteq> n" "n \<notin> set ys" using D(2) [of b] nin [of b] by auto
    moreover have "links (tw_store w) None (h # ys) None" using D(1) [of b] Cons by simp
    moreover have "links (tw_store w3) (Some h) ys None \<longleftrightarrow> links (tw_store w) (Some h) ys None"
      by (rule links_cong) (use calculation(1,3) Cons store in auto)
    ultimately show ?thesis using Cons store [of h] by simp
  qed simp
  then have lb: "links (tw_store w3) None (?L b) None" using store [of n] by simp
  have lc: "links (tw_store w3) None (?L c) None" for c
    using lb D(1) [of c] links_cong [of "L c" "tw_store w3" "tw_store w" None None] other [of _ c] by (cases "c = b") auto
  have act: "tw_active (tw_store w3 m) \<longleftrightarrow> (\<exists>c. m \<in> set (?L c))" for m
    using store [of m] D(5) [of m] by (auto split: if_splits)
  have data: "unat (tw_expires_tick (tw_store w3 m) mod SYN_TIMER_WHEEL_BUCKETS) = c \<and> tw_cb (tw_store w3 m) \<noteq> None"
    if "m \<in> set (?L c)" for m c
  proof (cases "m = n")
    case True
    then show ?thesis using that nin [of c] store [of n] assms(3,4) by (auto split: if_splits)
  next
    case False
    then have "m \<in> set (L c)" using that by (auto split: if_splits)
    then show ?thesis using D(6,7) [of m c] store [of m] False by auto
  qed
  have dist: "distinct (?L c)" for c using D(2) [of c] nin [of c] by auto
  have disj: "c \<noteq> e \<Longrightarrow> set (?L c) \<inter> set (?L e) = {}" for c e
    using D(4) [of c e] nin [of c] nin [of e] by (auto split: if_splits)
  have bk: "tw_buckets ?w c = hdp (?L c) None" for c using b2 D(3) [of c] by simp
  have "tw_store ?w = tw_store w3" by simp
  then show ?thesis unfolding tw_rep_def using lc dist bk disj act data by metis
qed

lemma tw_rep_cancel:
  assumes "tw_rep L w" "tw_active (tw_store w n)"
  obtains L' where "tw_rep L' (snd (syn_timer_wheel_cancel w n))" "\<And>b. set (L' b) = set (L b) - {n}"
proof -
  note D = tw_repD [OF assms(1)]
  obtain b where b: "n \<in> set (L b)" using D(5) [of n] assms(2) by blast
  then obtain xs ys where sp: "L b = xs @ n # ys" by (meson split_list)
  have can: "snd (syn_timer_wheel_cancel w n) = tw_unlink b n w"
    using assms(2) D(6) [OF b] by (simp add: syn_timer_wheel_cancel_def)
  have "c \<noteq> b \<Longrightarrow> n \<notin> set (L c)" for c using D(4) [of c b] b by blast
  then have "set ((L(b := xs @ ys)) c) = set (L c) - {n}" for c using sp D(2) [of b] by auto
  with tw_rep_unlink [OF assms(1) sp] show thesis using that can by metis
qed

subsection \<open>The remaining time of a node\<close>

text \<open>Ticks until bucket \<open>e\<close> is visited next after position \<open>c\<close>, minus one.\<close>

definition slack :: "nat \<Rightarrow> nat \<Rightarrow> nat" where
  "slack e c = (if c < e then e - c - 1 else e + 63 - c)"

abbreviation wheel_pos :: "u32 \<Rightarrow> nat" where
  "wheel_pos t \<equiv> unat (t mod SYN_TIMER_WHEEL_BUCKETS)"

definition remaining :: "('c, 'w) tw \<Rightarrow> nat \<Rightarrow> nat" where
  "remaining w n = 64 * unat (tw_rotation_count (tw_store w n))
     + slack (wheel_pos (tw_expires_tick (tw_store w n))) (wheel_pos (tw_current_tick w)) + 1"

lemma wheel_pos_mod: "wheel_pos t = unat t mod 64"
  by (simp add: SYN_TIMER_WHEEL_BUCKETS_def unat_mod)

lemma wheel_pos_add: "wheel_pos (t + d) = (wheel_pos t + unat d) mod 64"
proof -
  have "unat (t + d) = (unat t + unat d) mod 2 ^ 32" by (simp only: unat_word_ariths) simp
  then have "wheel_pos (t + d) = ((unat t + unat d) mod 2 ^ 32) mod 64" by (simp only: wheel_pos_mod)
  also have "\<dots> = (unat t + unat d) mod 64" by (rule mod_mod_cancel) simp
  finally show ?thesis by (simp add: wheel_pos_mod mod_add_left_eq)
qed

lemma wheel_pos_less: "wheel_pos t < 64"
  by (simp add: wheel_pos_mod)

lemma slack_add: "c < 64 \<Longrightarrow> 0 < d \<Longrightarrow> slack ((c + d) mod 64) c = (d - 1) mod 64"
proof -
  assume c: "c < 64" and d: "0 < d"
  define r where "r = (d - 1) mod 64"
  have "(c + d) mod 64 = (c + 1 + (d - 1)) mod 64" using d by simp
  also have "\<dots> = (c + 1 + r) mod 64" unfolding r_def by (rule mod_add_right_eq [symmetric])
  also have "\<dots> = (if c + 1 + r < 64 then c + 1 + r else c + 1 + r - 64)"
    using c by (intro mod_once) (simp add: r_def)
  finally have "(c + d) mod 64 = (if c + 1 + r < 64 then c + 1 + r else c + 1 + r - 64)" .
  moreover have "r < 64" by (simp add: r_def)
  ultimately have "slack ((c + d) mod 64) c = r" using c by (auto simp: slack_def)
  then show ?thesis by (simp only: r_def)
qed

lemma slack_step:
  assumes "e < 64" "c < 64" "b = (c + 1) mod 64"
  shows "slack e c = (if e = b then 0 else slack e b + 1)" "slack b b = 63"
proof -
  have "b = (if c + 1 < 64 then c + 1 else c + 1 - 64)" using assms(2,3) mod_once [of "c + 1" 64] by simp
  then show "slack e c = (if e = b then 0 else slack e b + 1)" "slack b b = 63"
    using assms(1,2) by (auto simp: slack_def split: if_splits)
qed

subsection \<open>The walk\<close>

abbreviation rot :: "('c, 'w) tw \<Rightarrow> nat \<Rightarrow> u32" where
  "rot w n \<equiv> tw_rotation_count (tw_store w n)"

definition tw_call :: "('c \<Rightarrow> ptr \<Rightarrow> 'w \<Rightarrow> 'w) \<Rightarrow> ('c, 'w) tw \<Rightarrow> nat \<Rightarrow> 'w \<Rightarrow> 'w" where
  "tw_call f w n = f (the (tw_cb (tw_store w n))) (tw_arg (tw_store w n))"

text \<open>What a walk with callbacks that leave the wheel alone does to the nodes \<open>ns\<close> it visits.\<close>

definition walk_result :: "('c \<Rightarrow> ptr \<Rightarrow> 'w \<Rightarrow> 'w) \<Rightarrow> nat list \<Rightarrow> ('c, 'w) tw \<Rightarrow> ('c, 'w) tw \<Rightarrow> bool" where
  "walk_result f ns w w' \<longleftrightarrow>
     tw_current_tick w' = tw_current_tick w
     \<and> tw_world w' = fold (tw_call f w) (filter (\<lambda>n. rot w n = 0) ns) (tw_world w)
     \<and> (\<forall>m. tw_expires_tick (tw_store w' m) = tw_expires_tick (tw_store w m)
          \<and> tw_cb (tw_store w' m) = tw_cb (tw_store w m) \<and> tw_arg (tw_store w' m) = tw_arg (tw_store w m)
          \<and> rot w' m = (if m \<in> set ns \<and> rot w m > 0 then rot w m - 1 else rot w m))"

lemma walk_result_Cons:
  assumes "walk_result f ns w1 w'" "n \<notin> set ns"
    "\<And>m. same_data (tw_store w1 m) (if m = n \<and> rot w n > 0 then (tw_store w m)\<lparr>tw_rotation_count := rot w m - 1\<rparr> else tw_store w m)"
    "tw_current_tick w1 = tw_current_tick w"
    "tw_world w1 = (if rot w n = 0 then tw_call f w n (tw_world w) else tw_world w)"
  shows "walk_result f (n # ns) w w'"
proof -
  have d: "tw_expires_tick (tw_store w1 m) = tw_expires_tick (tw_store w m)" "tw_cb (tw_store w1 m) = tw_cb (tw_store w m)"
    "tw_arg (tw_store w1 m) = tw_arg (tw_store w m)" "rot w1 m = (if m = n \<and> rot w n > 0 then rot w m - 1 else rot w m)" for m
    using assms(3) [of m] by (auto simp: same_data_def split: if_splits)
  have c: "tw_call f w1 = tw_call f w" by (simp add: tw_call_def fun_eq_iff d)
  have "rot w1 m = rot w m" if "m \<in> set ns" for m using d(4) [of m] assms(2) that by auto
  then have fl: "filter (\<lambda>m. rot w1 m = 0) ns = filter (\<lambda>m. rot w m = 0) ns" by (intro filter_cong) auto
  show ?thesis using assms(1,2,4,5) d unfolding walk_result_def c fl by auto
qed

lemma tw_walk_list:
  assumes "\<And>cb arg w. call cb arg w = w\<lparr>tw_world := f cb arg (tw_world w)\<rparr>"
  shows "tw_rep L w \<Longrightarrow> L b = pre @ ns \<Longrightarrow>
    \<exists>w'. tw_walk call b (hdp ns None) k w = Some (k + length (filter (\<lambda>n. rot w n = 0) ns), w')
      \<and> tw_rep (L(b := pre @ filter (\<lambda>n. rot w n > 0) ns)) w' \<and> walk_result f ns w w'"
proof (induction ns arbitrary: pre L w k)
  case Nil
  then show ?case by (subst tw_walk.simps) (simp add: walk_result_def fun_upd_idem)
next
  case (Cons n ns)
  note D = tw_repD [OF Cons.prems(1)]
  have d: "distinct (pre @ n # ns)" "links (tw_store w) None (pre @ n # ns) None" using D(1,2) [of b] Cons.prems(2) by simp_all
  then have nx: "tw_next (tw_store w n) = hdp ns None" and nn: "n \<notin> set ns" by (auto simp: links_append)
  have nb: "n \<in> set (L b)" using Cons.prems(2) by simp
  show ?case
  proof (cases "rot w n > 0")
    case True
    let ?w1 = "upd_node n (\<lambda>x. x\<lparr>tw_rotation_count := tw_rotation_count x - 1\<rparr>) w"
    have walk: "tw_walk call b (hdp (n # ns) None) k w = tw_walk call b (hdp ns None) k ?w1"
      using True nx by (subst tw_walk.simps) simp
    have rep: "tw_rep L ?w1" by (rule tw_rep_cong [OF Cons.prems(1)]) (simp_all add: upd_node_def)
    have same: "rot ?w1 m = rot w m" if "m \<in> set ns" for m using that nn by (auto simp: upd_node_def)
    have "L b = (pre @ [n]) @ ns" using Cons.prems(2) by simp
    from Cons.IH [OF rep this, of k] obtain w' where
      w': "tw_walk call b (hdp ns None) k ?w1 = Some (k + length (filter (\<lambda>n. rot ?w1 n = 0) ns), w')"
      "tw_rep (L(b := (pre @ [n]) @ filter (\<lambda>n. rot ?w1 n > 0) ns)) w'" "walk_result f ns ?w1 w'" by blast
    have "walk_result f (n # ns) w w'"
      by (rule walk_result_Cons [OF w'(3) nn]) (use True in \<open>auto simp: upd_node_def same_data_def\<close>)
    moreover have "filter (\<lambda>n. rot ?w1 n = 0) ns = filter (\<lambda>n. rot w n = 0) ns"
      "filter (\<lambda>n. rot ?w1 n > 0) ns = filter (\<lambda>n. rot w n > 0) ns" using same by (auto intro: filter_cong)
    ultimately show ?thesis using w'(1,2) walk True by (intro exI [of _ w']) (simp add: word_gt_0 fun_upd_def)
  next
    case False
    let ?w0 = "tw_unlink b n w"
    note U = tw_unlink_store [OF d, where b = b]
    have data: "same_data (tw_store ?w0 m) (tw_store w m)" for m using U(4) .
    obtain cb where cb: "tw_cb (tw_store w n) = Some cb" using D(7) [OF nb] by auto
    let ?w1 = "?w0\<lparr>tw_world := f cb (tw_arg (tw_store w n)) (tw_world ?w0)\<rparr>"
    have walk: "tw_walk call b (hdp (n # ns) None) k w = tw_walk call b (hdp ns None) (k + 1) ?w1"
      using False nx cb data [of n] by (subst tw_walk.simps) (simp add: assms Let_def same_data_def)
    have "tw_rep (L(b := pre @ ns)) ?w1"
      by (rule tw_rep_cong [OF tw_rep_unlink [OF Cons.prems(1,2)]]) simp_all
    moreover have "(L(b := pre @ ns)) b = pre @ ns" by simp
    ultimately obtain w' where
      w': "tw_walk call b (hdp ns None) (k + 1) ?w1 = Some (k + 1 + length (filter (\<lambda>n. rot ?w1 n = 0) ns), w')"
      "tw_rep (L(b := pre @ filter (\<lambda>n. rot ?w1 n > 0) ns)) w'" "walk_result f ns ?w1 w'"
      using Cons.IH [of "L(b := pre @ ns)" ?w1 pre "k + 1"] unfolding fun_upd_upd by blast
    have "walk_result f (n # ns) w w'"
      by (rule walk_result_Cons [OF w'(3) nn]) (use False data cb U(6,7) in \<open>auto simp: tw_call_def word_gt_0\<close>)
    moreover have "rot ?w1 m = rot w m" for m using data [of m] by (simp add: same_data_def)
    ultimately show ?thesis using w'(1,2) walk False by (intro exI [of _ w']) (simp add: word_gt_0 fun_upd_def)
  qed
qed

lemma tw_step_list:
  assumes "\<And>cb arg w. call cb arg w = w\<lparr>tw_world := f cb arg (tw_world w)\<rparr>" "tw_rep L w"
  defines "b \<equiv> wheel_pos (tw_current_tick w + 1)"
  shows "\<exists>w'. syn_timer_wheel_step call w = Some (length (filter (\<lambda>n. rot w n = 0) (L b)), w')
    \<and> tw_rep (L(b := filter (\<lambda>n. rot w n > 0) (L b))) w'
    \<and> walk_result f (L b) (w\<lparr>tw_current_tick := tw_current_tick w + 1\<rparr>) w'"
proof -
  let ?w1 = "w\<lparr>tw_current_tick := tw_current_tick w + 1\<rparr>"
  have "tw_rep L ?w1" by (rule tw_rep_cong [OF assms(2)]) simp_all
  from tw_walk_list [where call = call and f = f and b = b and pre = "[]" and ns = "L b" and k = 0, OF assms(1) this]
  show ?thesis by (simp add: syn_timer_wheel_step_def Let_def b_def tw_repD(3) [OF assms(2)])
qed

text \<open>In terms of remaining time.\<close>

lemma remaining_step:
  assumes "tw_rep L w" "walk_result f (L b) (w\<lparr>tw_current_tick := tw_current_tick w + 1\<rparr>) w'"
    "b = wheel_pos (tw_current_tick w + 1)" "n \<in> set (L e)"
  shows "remaining w n = 1 \<longleftrightarrow> e = b \<and> rot w n = 0" "remaining w n \<noteq> 1 \<Longrightarrow> remaining w' n + 1 = remaining w n"
proof -
  let ?c = "wheel_pos (tw_current_tick w)"
  have e: "wheel_pos (tw_expires_tick (tw_store w n)) = e" using tw_repD(6) [OF assms(1,4)] .
  have b: "b = (?c + 1) mod 64" using assms(3) wheel_pos_add [of "tw_current_tick w" 1] by simp
  have "e < 64" using e wheel_pos_less by metis
  note sl = slack_step [OF this wheel_pos_less b]
  show one: "remaining w n = 1 \<longleftrightarrow> e = b \<and> rot w n = 0"
    using sl(1) by (auto simp: remaining_def e unat_eq_0)
  have in_b: "n \<in> set (L b) \<longleftrightarrow> e = b" using tw_repD(4) [OF assms(1), of e b] assms(4) by auto
  have w': "tw_expires_tick (tw_store w' n) = tw_expires_tick (tw_store w n)"
    "rot w' n = (if e = b \<and> rot w n > 0 then rot w n - 1 else rot w n)" "tw_current_tick w' = tw_current_tick w + 1"
    using assms(2) in_b by (simp_all add: walk_result_def)
  have rem: "remaining w' n = 64 * unat (rot w' n) + slack e b + 1"
    unfolding remaining_def w'(1,3) e assms(3) [symmetric] ..
  have dec: "unat (rot w n - 1) = unat (rot w n) - 1" "0 < unat (rot w n)" if "rot w n \<noteq> 0"
    using that by (simp_all add: unat_minus_one unat_gt_0)
  show "remaining w' n + 1 = remaining w n" if "remaining w n \<noteq> 1"
  proof (cases "e = b")
    case True
    then have "rot w n \<noteq> 0" using that one by simp
    then have "remaining w' n = 64 * (unat (rot w n) - 1) + 63 + 1" "0 < unat (rot w n)"
      using True dec rem sl(2) w'(2) by (simp_all add: word_gt_0)
    moreover have "remaining w n = 64 * unat (rot w n) + 1" using True sl(1) by (simp add: remaining_def e)
    ultimately show ?thesis by linarith
  next
    case False
    then show ?thesis using rem sl(1) w'(2) by (simp add: remaining_def e)
  qed
qed


definition frame_call :: "('c \<Rightarrow> ptr \<Rightarrow> 'w \<Rightarrow> 'w) \<Rightarrow> 'c \<Rightarrow> ptr \<Rightarrow> ('c, 'w) tw \<Rightarrow> ('c, 'w) tw" where
  "frame_call f cb arg w = w\<lparr>tw_world := f cb arg (tw_world w)\<rparr>"

lemma tw_step_remaining:
  assumes "tw_rep L w"
  shows "\<exists>ms w' L'. syn_timer_wheel_step (frame_call f) w = Some (length ms, w') \<and> tw_rep L' w'
    \<and> distinct ms \<and> set ms = {n. tw_active (tw_store w n) \<and> remaining w n = 1}
    \<and> tw_world w' = fold (tw_call f w) ms (tw_world w)
    \<and> (\<forall>n. tw_active (tw_store w' n) \<longleftrightarrow> tw_active (tw_store w n) \<and> remaining w n \<noteq> 1)
    \<and> (\<forall>n. tw_active (tw_store w' n) \<longrightarrow> remaining w' n + 1 = remaining w n)"
proof -
  let ?b = "wheel_pos (tw_current_tick w + 1)" and ?w1 = "w\<lparr>tw_current_tick := tw_current_tick w + 1\<rparr>"
  let ?ms = "filter (\<lambda>n. rot w n = 0) (L ?b)" and ?L = "L(?b := filter (\<lambda>n. rot w n > 0) (L ?b))"
  obtain w' where w': "syn_timer_wheel_step (frame_call f) w = Some (length ?ms, w')" "tw_rep ?L w'" "walk_result f (L ?b) ?w1 w'"
    using tw_step_list [where call = "frame_call f" and f = f, OF frame_call_def assms(1)] by blast
  note R = remaining_step [OF assms(1) w'(3) refl]
  have act: "tw_active (tw_store w n) \<longleftrightarrow> (\<exists>e. n \<in> set (L e))" for n using tw_repD(5) [OF assms(1)] .
  have wact: "tw_active (tw_store w' n) \<longleftrightarrow> tw_active (tw_store w n) \<and> remaining w n \<noteq> 1" for n
  proof (cases "tw_active (tw_store w n)")
    case True
    then obtain e where e: "n \<in> set (L e)" using act by blast
    then have one: "x = e" if "n \<in> set (L x)" for x using that tw_repD(4) [OF assms(1), of x e] by blast
    have "tw_active (tw_store w' n) \<longleftrightarrow> n \<in> set (?L e)"
      using tw_repD(5) [OF w'(2), of n] one by (auto split: if_splits)
    then show ?thesis using e True R(1) [OF e] by (auto simp: word_gt_0)
  next
    case False
    then show ?thesis using tw_repD(5) [OF w'(2), of n] act [of n] by (auto split: if_splits)
  qed
  have "distinct ?ms" using tw_repD(2) [OF assms(1)] by simp
  moreover have "set ?ms = {n. tw_active (tw_store w n) \<and> remaining w n = 1}" using R(1) act by auto
  moreover have "tw_world w' = fold (tw_call f w) ?ms (tw_world w)"
    using w'(3) by (simp add: walk_result_def tw_call_def [abs_def])
  moreover have "remaining w' n + 1 = remaining w n" if "tw_active (tw_store w' n)" for n
    using that wact [of n] act [of n] R(2) [of n] by auto
  ultimately show ?thesis using w'(1,2) wact by blast
qed

text \<open>Adding a timer.\<close>

lemma tw_add_remaining:
  assumes "tw_rep L w" "cb \<noteq> None" "d \<noteq> 0"
  shows "\<exists>L' w'. syn_timer_wheel_add w n d cb arg = (SYN_OK, w') \<and> tw_rep L' w'
    \<and> tw_active (tw_store w' n) \<and> remaining w' n = unat d
    \<and> (\<forall>m. m \<noteq> n \<longrightarrow> tw_active (tw_store w' m) = tw_active (tw_store w m) \<and> remaining w' m = remaining w m)
    \<and> tw_cb (tw_store w' n) = cb \<and> tw_arg (tw_store w' n) = arg"
proof -
  define w1 where "w1 = (if tw_active (tw_store w n) then snd (syn_timer_wheel_cancel w n) else w)"
  obtain L1 where L1: "tw_rep L1 w1" "\<not> tw_active (tw_store w1 n)"
    "\<And>m. m \<noteq> n \<Longrightarrow> tw_active (tw_store w1 m) = tw_active (tw_store w m)"
    "\<And>m. remaining w1 m = remaining w m"
    "tw_current_tick w1 = tw_current_tick w"
  proof (cases "tw_active (tw_store w n)")
    case True
    obtain b where b: "n \<in> set (L b)" using tw_repD(5) [OF assms(1), of n] True by blast
    then obtain xs ys where sp: "L b = xs @ n # ys" by (meson split_list)
    have can: "w1 = tw_unlink b n w"
      using True tw_repD(6) [OF assms(1) b] by (simp add: syn_timer_wheel_cancel_def w1_def)
    have dl: "distinct (xs @ n # ys)" "links (tw_store w) None (xs @ n # ys) None"
      using tw_repD(1,2) [OF assms(1), of b] sp by simp_all
    note U = tw_unlink_store [OF dl, where b = b, folded can]
    have "remaining w1 m = remaining w m" for m using U(4) [of m] U(6) by (simp add: remaining_def same_data_def)
    then show thesis using that [OF tw_rep_unlink [OF assms(1) sp, folded can]] U(5,6) by blast
  next
    case False
    then show thesis using that [of L] assms(1) by (simp add: w1_def)
  qed
  let ?tt = "tw_current_tick w1 + d"
  let ?b = "wheel_pos ?tt" and ?r = "(d - 1) div SYN_TIMER_WHEEL_BUCKETS"
  define w2 where "w2 = upd_node n (\<lambda>x. x\<lparr>tw_expires_tick := ?tt, tw_rotation_count := ?r, tw_cb := cb,
      tw_arg := arg, tw_active := True, tw_next := tw_buckets w1 ?b, tw_prev := None\<rparr>) w1"
  define w3 where "w3 = (case tw_buckets w2 ?b of Some h \<Rightarrow> upd_node h (\<lambda>x. x\<lparr>tw_prev := Some n\<rparr>) w2 | None \<Rightarrow> w2)"
  define w' where "w' = w3\<lparr>tw_buckets := (tw_buckets w3)(?b := Some n)\<rparr>"
  have add: "syn_timer_wheel_add w n d cb arg = (SYN_OK, w')"
    using assms(2,3) unfolding syn_timer_wheel_add_def Let_def w1_def w2_def w3_def w'_def by (simp only: simp_thms if_False)
  have rep: "tw_rep (L1(?b := n # L1 ?b)) w'"
    unfolding w'_def w3_def w2_def by (rule tw_rep_push [OF L1(1,2) refl assms(2)])
  have st: "tw_active (tw_store w' m) = (m = n \<or> tw_active (tw_store w1 m))"
    "tw_expires_tick (tw_store w' m) = (if m = n then ?tt else tw_expires_tick (tw_store w1 m))"
    "rot w' m = (if m = n then ?r else rot w1 m)" "tw_current_tick w' = tw_current_tick w1"
    "tw_cb (tw_store w' n) = cb" "tw_arg (tw_store w' n) = arg" for m
    by (auto simp: w'_def w3_def w2_def upd_node_def split: option.splits)
  have d: "0 < unat d" "unat (d - 1) = unat d - 1" using assms(3) by (simp_all add: unat_gt_0 unat_minus_one)
  then have "unat ?r = (unat d - 1) div 64" by (simp add: unat_div SYN_TIMER_WHEEL_BUCKETS_def)
  then have "remaining w' n = 64 * ((unat d - 1) div 64) + (unat d - 1) mod 64 + 1"
    using slack_add [OF wheel_pos_less d(1)] by (simp add: remaining_def st wheel_pos_add)
  also have "\<dots> = unat d" using d(1) by simp
  finally have rn: "remaining w' n = unat d" .
  have rm: "remaining w' m = remaining w m" if "m \<noteq> n" for m
    using that L1(4) [of m] by (simp add: remaining_def st)
  have am: "tw_active (tw_store w' m) = tw_active (tw_store w m)" if "m \<noteq> n" for m using that st(1) [of m] L1(3) by blast
  show ?thesis using add rep rn am rm st(1,5,6) by blast
qed

text \<open>Successive steps.\<close>

fun tw_run :: "('c \<Rightarrow> ptr \<Rightarrow> ('c, 'w) tw \<Rightarrow> ('c, 'w) tw) \<Rightarrow> nat \<Rightarrow> ('c, 'w) tw \<Rightarrow> ('c, 'w) tw option" where
  "tw_run call 0 w = Some w"
| "tw_run call (Suc k) w = (case syn_timer_wheel_step call w of None \<Rightarrow> None | Some (_, w') \<Rightarrow> tw_run call k w')"

lemma tw_run_active:
  "tw_rep L w \<Longrightarrow> \<exists>w' L'. tw_run (frame_call f) k w = Some w' \<and> tw_rep L' w'
     \<and> (\<forall>n. tw_active (tw_store w' n) \<longleftrightarrow> tw_active (tw_store w n) \<and> k < remaining w n)"
proof (induction k arbitrary: w L)
  case 0
  have "0 < remaining w n" for n by (simp add: remaining_def)
  then show ?case using 0 by auto
next
  case (Suc k)
  obtain ms w1 L1 where
    s: "syn_timer_wheel_step (frame_call f) w = Some (length ms, w1)" "tw_rep L1 w1"
      "distinct ms" "set ms = {n. tw_active (tw_store w n) \<and> remaining w n = 1}"
      "tw_world w1 = fold (tw_call f w) ms (tw_world w)"
      "\<And>n. tw_active (tw_store w1 n) \<longleftrightarrow> tw_active (tw_store w n) \<and> remaining w n \<noteq> 1"
      "\<And>n. tw_active (tw_store w1 n) \<Longrightarrow> remaining w1 n + 1 = remaining w n"
    using tw_step_remaining [OF Suc.prems, of f] by blast
  from Suc.IH [OF s(2)] obtain w' L' where
    w': "tw_run (frame_call f) k w1 = Some w'" "tw_rep L' w'"
      "\<And>n. tw_active (tw_store w' n) \<longleftrightarrow> tw_active (tw_store w1 n) \<and> k < remaining w1 n" by blast
  have "tw_active (tw_store w' n) \<longleftrightarrow> tw_active (tw_store w n) \<and> Suc k < remaining w n" for n
    using w'(3) [of n] s(6,7) [of n] by (cases "tw_active (tw_store w1 n)") auto
  then show ?case using s(1) w'(1,2) by auto
qed


text \<open>
  One step of the wheel, when callbacks leave the wheel alone: it returns, it calls the callbacks of
  exactly the active timers whose remaining time is one tick, each once, and returns their number; those
  become inactive, every other active timer stays active with one tick less to go, and inactive
  timers stay inactive. The linked buckets stay well-formed.
\<close>

theorem timer_wheel_step_exact:
  assumes "tw_rep L w"
  shows "\<exists>ms w' L'. syn_timer_wheel_step (frame_call f) w = Some (length ms, w') \<and> tw_rep L' w'
    \<and> distinct ms \<and> set ms = {n. tw_active (tw_store w n) \<and> remaining w n = 1}
    \<and> tw_world w' = fold (tw_call f w) ms (tw_world w)
    \<and> (\<forall>n. tw_active (tw_store w' n) \<longleftrightarrow> tw_active (tw_store w n) \<and> remaining w n \<noteq> 1)
    \<and> (\<forall>n. tw_active (tw_store w' n) \<longrightarrow> remaining w' n + 1 = remaining w n)"
  by (rule tw_step_remaining [OF assms])

subsection \<open>Witnesses\<close>

definition demo_wheel :: "(nat, nat list) tw" where
  "demo_wheel = snd (syn_timer_wheel_init \<lparr>tw_buckets = (\<lambda>_. None), tw_current_tick = 0,
     tw_store = (\<lambda>_. \<lparr>tw_next = None, tw_prev = None, tw_expires_tick = 0, tw_rotation_count = 0, tw_cb = None,
       tw_arg = None, tw_active = False\<rparr>), tw_world = []\<rparr>)"

lemma demo_wheel_rep: "tw_rep (\<lambda>_. []) demo_wheel"
  unfolding demo_wheel_def by (rule tw_rep_init) simp


theorem timer_wheel_step_exact_witness:
  "\<exists>w'. syn_timer_wheel_step (frame_call (\<lambda>cb arg. Cons cb)) (snd (syn_timer_wheel_add demo_wheel 3 1 (Some 7) None)) = Some (1, w')
     \<and> tw_world w' = [7] \<and> \<not> tw_active (tw_store w' 3)"
proof -
  obtain L' w1 where a: "syn_timer_wheel_add demo_wheel 3 1 (Some 7) None = (SYN_OK, w1)" "tw_rep L' w1"
    "tw_active (tw_store w1 3)" "remaining w1 3 = unat (1 :: u32)" "\<And>m. m \<noteq> 3 \<Longrightarrow> tw_active (tw_store w1 m) = tw_active (tw_store demo_wheel m)"
    "\<And>m. m \<noteq> 3 \<Longrightarrow> remaining w1 m = remaining demo_wheel m"
    "tw_cb (tw_store w1 3) = Some 7" "tw_arg (tw_store w1 3) = None"
    using tw_add_remaining [OF demo_wheel_rep, of "Some 7" 1 3 None] by auto
  have "tw_world w1 = []" using a(1) by (auto simp add: syn_timer_wheel_add_def Let_def demo_wheel_def syn_timer_wheel_init_def upd_node_def)
  moreover have "{n. tw_active (tw_store w1 n) \<and> remaining w1 n = 1} = {3}"
    using a(3-5) by (auto simp: demo_wheel_def syn_timer_wheel_init_def)
  moreover have "ms = [3]" if "distinct ms" "set ms = {3::nat}" for ms
    using that by (cases ms rule: list.exhaust [case_product list.exhaust [of "tl ms"]]) auto
  ultimately show ?thesis using timer_wheel_step_exact [OF a(2), of "\<lambda>cb arg. Cons cb"] a by (fastforce simp: tw_call_def)
qed

end
