(* ===== verification/Syn_Crc.thy ===== *)
theory Syn_Crc
  imports Syn_Prelude
begin

text \<open>
  The checksums of \<^verbatim>\<open>util/syn_crc.c\<close>, in both builds: table-driven (\<^verbatim>\<open>SYN_CRC_USE_TABLE\<close>, the default) and
  bit by bit. The tables are those of the source. The main result is that the two builds agree
  for CRC-16/CCITT, CRC-16/Modbus and CRC-32, and that for CRC-8 they do not: one row of the
  table is wrong.
\<close>

subsection \<open>Bit-by-bit updates\<close>

text \<open>One step of the inner loop: most significant bit first, and reflected.\<close>

definition crc_step_left :: "'a::len word \<Rightarrow> 'a word \<Rightarrow> 'a word \<Rightarrow> 'a word" where
  "crc_step_left msb poly crc = (if crc AND msb \<noteq> 0 then push_bit 1 crc XOR poly else push_bit 1 crc)"

definition crc_step_right :: "'a::len word \<Rightarrow> 'a word \<Rightarrow> 'a word" where
  "crc_step_right poly crc = (if crc AND 1 \<noteq> 0 then drop_bit 1 crc XOR poly else drop_bit 1 crc)"

definition crc8_bits :: "u8 \<Rightarrow> u8 list \<Rightarrow> u8" where
  "crc8_bits crc data = fold (\<lambda>b crc. (crc_step_left 0x80 0x31 ^^ 8) (crc XOR b)) data crc"

definition crc16_ccitt_bits :: "u16 \<Rightarrow> u8 list \<Rightarrow> u16" where
  "crc16_ccitt_bits crc data =
     fold (\<lambda>b crc. (crc_step_left 0x8000 0x1021 ^^ 8) (crc XOR push_bit 8 (ucast b))) data crc"

definition crc16_modbus_bits :: "u16 \<Rightarrow> u8 list \<Rightarrow> u16" where
  "crc16_modbus_bits crc data = fold (\<lambda>b crc. (crc_step_right 0xA001 ^^ 8) (crc XOR ucast b)) data crc"

definition crc32_bits :: "u32 \<Rightarrow> u8 list \<Rightarrow> u32" where
  "crc32_bits crc data = fold (\<lambda>b crc. (crc_step_right 0xEDB88320 ^^ 8) (crc XOR ucast b)) data crc"

subsection \<open>Table-driven updates\<close>

definition crc8_table :: "u8 list" where
  "crc8_table = [
     0, 0x31, 0x62, 0x53, 0xC4, 0xF5, 0xA6, 0x97, 0xB9, 0x88, 0xDB, 0xEA, 0x7D, 0x4C, 0x1F, 0x2E,
     0x43, 0x72, 0x21, 0x10, 0x87, 0xB6, 0xE5, 0xD4, 0xFA, 0xCB, 0x98, 0xA9, 0x3E, 0xF, 0x5C, 0x6D,
     0x86, 0xB7, 0xE4, 0xD5, 0x42, 0x73, 0x20, 0x11, 0x3F, 0xE, 0x5D, 0x6C, 0xFB, 0xCA, 0x99, 0xA8,
     0xC5, 0xF4, 0xA7, 0x96, 1, 0x30, 0x63, 0x52, 0x7C, 0x4D, 0x1E, 0x2F, 0xB8, 0x89, 0xDA, 0xEB,
     0x3D, 0xC, 0x5F, 0x6E, 0xF9, 0xC8, 0x9B, 0xAA, 0x84, 0xB5, 0xE6, 0xD7, 0x40, 0x71, 0x22, 0x13,
     0x7E, 0x4F, 0x1C, 0x2D, 0xBA, 0x8B, 0xD8, 0xE9, 0xC7, 0xF6, 0xA5, 0x94, 0x3, 0x32, 0x61, 0x50,
     0xBB, 0x8A, 0xD9, 0xE8, 0x7F, 0x4E, 0x1D, 0x2C, 0x2, 0x33, 0x60, 0x51, 0xC6, 0xF7, 0xA4, 0x95,
     0xF8, 0xC9, 0x9A, 0xAB, 0x3C, 0xD, 0x5E, 0x6F, 0x41, 0x70, 0x23, 0x12, 0x85, 0xB4, 0xE7, 0xD6,
     0x7A, 0x4B, 0x18, 0x29, 0xBE, 0x8F, 0xDC, 0xED, 0xC3, 0xF2, 0xA1, 0x90, 0x7, 0x36, 0x65, 0x54,
     0x39, 0x8, 0x5B, 0x6A, 0xFD, 0xCC, 0x9F, 0xAE, 0x80, 0xB1, 0xE2, 0xD3, 0x44, 0x75, 0x26, 0x17,
     0xFC, 0xCD, 0x9E, 0xAF, 0x38, 0x9, 0x5A, 0x6B, 0x45, 0x74, 0x27, 0x16, 0x81, 0xB0, 0xE3, 0xD2,
     0xBF, 0x8E, 0xDD, 0xEC, 0x7B, 0x4A, 0x19, 0x28, 0x6, 0x37, 0x64, 0x55, 0xC2, 0xF3, 0xA0, 0x91,
     0x47, 0x76, 0x25, 0x14, 0x83, 0xB2, 0xE1, 0xD0, 0xFE, 0xCF, 0x9C, 0xAD, 0x3A, 0xB, 0x58, 0x69,
     0x4, 0x35, 0x66, 0x57, 0xC0, 0xF1, 0xA2, 0x93, 0xBD, 0x8C, 0xDF, 0xEE, 0x79, 0x48, 0x1B, 0x2A,
     0xE1, 0xD0, 0x83, 0xB2, 0x25, 0x14, 0x47, 0x76, 0x58, 0x69, 0x3A, 0xB, 0x9C, 0xAD, 0xFE, 0xCF,
     0x82, 0xB3, 0xE0, 0xD1, 0x46, 0x77, 0x24, 0x15, 0x3B, 0xA, 0x59, 0x68, 0xFF, 0xCE, 0x9D, 0xAC]"

definition crc16_ccitt_table :: "u16 list" where
  "crc16_ccitt_table = [
     0, 0x1021, 0x2042, 0x3063, 0x4084, 0x50A5, 0x60C6, 0x70E7, 0x8108, 0x9129, 0xA14A, 0xB16B,
     0xC18C, 0xD1AD, 0xE1CE, 0xF1EF, 0x1231, 0x210, 0x3273, 0x2252, 0x52B5, 0x4294, 0x72F7, 0x62D6,
     0x9339, 0x8318, 0xB37B, 0xA35A, 0xD3BD, 0xC39C, 0xF3FF, 0xE3DE, 0x2462, 0x3443, 0x420, 0x1401,
     0x64E6, 0x74C7, 0x44A4, 0x5485, 0xA56A, 0xB54B, 0x8528, 0x9509, 0xE5EE, 0xF5CF, 0xC5AC, 0xD58D,
     0x3653, 0x2672, 0x1611, 0x630, 0x76D7, 0x66F6, 0x5695, 0x46B4, 0xB75B, 0xA77A, 0x9719, 0x8738,
     0xF7DF, 0xE7FE, 0xD79D, 0xC7BC, 0x48C4, 0x58E5, 0x6886, 0x78A7, 0x840, 0x1861, 0x2802, 0x3823,
     0xC9CC, 0xD9ED, 0xE98E, 0xF9AF, 0x8948, 0x9969, 0xA90A, 0xB92B, 0x5AF5, 0x4AD4, 0x7AB7, 0x6A96,
     0x1A71, 0xA50, 0x3A33, 0x2A12, 0xDBFD, 0xCBDC, 0xFBBF, 0xEB9E, 0x9B79, 0x8B58, 0xBB3B, 0xAB1A,
     0x6CA6, 0x7C87, 0x4CE4, 0x5CC5, 0x2C22, 0x3C03, 0xC60, 0x1C41, 0xEDAE, 0xFD8F, 0xCDEC, 0xDDCD,
     0xAD2A, 0xBD0B, 0x8D68, 0x9D49, 0x7E97, 0x6EB6, 0x5ED5, 0x4EF4, 0x3E13, 0x2E32, 0x1E51, 0xE70,
     0xFF9F, 0xEFBE, 0xDFDD, 0xCFFC, 0xBF1B, 0xAF3A, 0x9F59, 0x8F78, 0x9188, 0x81A9, 0xB1CA, 0xA1EB,
     0xD10C, 0xC12D, 0xF14E, 0xE16F, 0x1080, 0xA1, 0x30C2, 0x20E3, 0x5004, 0x4025, 0x7046, 0x6067,
     0x83B9, 0x9398, 0xA3FB, 0xB3DA, 0xC33D, 0xD31C, 0xE37F, 0xF35E, 0x2B1, 0x1290, 0x22F3, 0x32D2,
     0x4235, 0x5214, 0x6277, 0x7256, 0xB5EA, 0xA5CB, 0x95A8, 0x8589, 0xF56E, 0xE54F, 0xD52C, 0xC50D,
     0x34E2, 0x24C3, 0x14A0, 0x481, 0x7466, 0x6447, 0x5424, 0x4405, 0xA7DB, 0xB7FA, 0x8799, 0x97B8,
     0xE75F, 0xF77E, 0xC71D, 0xD73C, 0x26D3, 0x36F2, 0x691, 0x16B0, 0x6657, 0x7676, 0x4615, 0x5634,
     0xD94C, 0xC96D, 0xF90E, 0xE92F, 0x99C8, 0x89E9, 0xB98A, 0xA9AB, 0x5844, 0x4865, 0x7806, 0x6827,
     0x18C0, 0x8E1, 0x3882, 0x28A3, 0xCB7D, 0xDB5C, 0xEB3F, 0xFB1E, 0x8BF9, 0x9BD8, 0xABBB, 0xBB9A,
     0x4A75, 0x5A54, 0x6A37, 0x7A16, 0xAF1, 0x1AD0, 0x2AB3, 0x3A92, 0xFD2E, 0xED0F, 0xDD6C, 0xCD4D,
     0xBDAA, 0xAD8B, 0x9DE8, 0x8DC9, 0x7C26, 0x6C07, 0x5C64, 0x4C45, 0x3CA2, 0x2C83, 0x1CE0, 0xCC1,
     0xEF1F, 0xFF3E, 0xCF5D, 0xDF7C, 0xAF9B, 0xBFBA, 0x8FD9, 0x9FF8, 0x6E17, 0x7E36, 0x4E55, 0x5E74,
     0x2E93, 0x3EB2, 0xED1, 0x1EF0]"

definition crc16_modbus_table :: "u16 list" where
  "crc16_modbus_table = [
     0, 0xC0C1, 0xC181, 0x140, 0xC301, 0x3C0, 0x280, 0xC241, 0xC601, 0x6C0, 0x780, 0xC741,
     0x500, 0xC5C1, 0xC481, 0x440, 0xCC01, 0xCC0, 0xD80, 0xCD41, 0xF00, 0xCFC1, 0xCE81, 0xE40,
     0xA00, 0xCAC1, 0xCB81, 0xB40, 0xC901, 0x9C0, 0x880, 0xC841, 0xD801, 0x18C0, 0x1980, 0xD941,
     0x1B00, 0xDBC1, 0xDA81, 0x1A40, 0x1E00, 0xDEC1, 0xDF81, 0x1F40, 0xDD01, 0x1DC0, 0x1C80, 0xDC41,
     0x1400, 0xD4C1, 0xD581, 0x1540, 0xD701, 0x17C0, 0x1680, 0xD641, 0xD201, 0x12C0, 0x1380, 0xD341,
     0x1100, 0xD1C1, 0xD081, 0x1040, 0xF001, 0x30C0, 0x3180, 0xF141, 0x3300, 0xF3C1, 0xF281, 0x3240,
     0x3600, 0xF6C1, 0xF781, 0x3740, 0xF501, 0x35C0, 0x3480, 0xF441, 0x3C00, 0xFCC1, 0xFD81, 0x3D40,
     0xFF01, 0x3FC0, 0x3E80, 0xFE41, 0xFA01, 0x3AC0, 0x3B80, 0xFB41, 0x3900, 0xF9C1, 0xF881, 0x3840,
     0x2800, 0xE8C1, 0xE981, 0x2940, 0xEB01, 0x2BC0, 0x2A80, 0xEA41, 0xEE01, 0x2EC0, 0x2F80, 0xEF41,
     0x2D00, 0xEDC1, 0xEC81, 0x2C40, 0xE401, 0x24C0, 0x2580, 0xE541, 0x2700, 0xE7C1, 0xE681, 0x2640,
     0x2200, 0xE2C1, 0xE381, 0x2340, 0xE101, 0x21C0, 0x2080, 0xE041, 0xA001, 0x60C0, 0x6180, 0xA141,
     0x6300, 0xA3C1, 0xA281, 0x6240, 0x6600, 0xA6C1, 0xA781, 0x6740, 0xA501, 0x65C0, 0x6480, 0xA441,
     0x6C00, 0xACC1, 0xAD81, 0x6D40, 0xAF01, 0x6FC0, 0x6E80, 0xAE41, 0xAA01, 0x6AC0, 0x6B80, 0xAB41,
     0x6900, 0xA9C1, 0xA881, 0x6840, 0x7800, 0xB8C1, 0xB981, 0x7940, 0xBB01, 0x7BC0, 0x7A80, 0xBA41,
     0xBE01, 0x7EC0, 0x7F80, 0xBF41, 0x7D00, 0xBDC1, 0xBC81, 0x7C40, 0xB401, 0x74C0, 0x7580, 0xB541,
     0x7700, 0xB7C1, 0xB681, 0x7640, 0x7200, 0xB2C1, 0xB381, 0x7340, 0xB101, 0x71C0, 0x7080, 0xB041,
     0x5000, 0x90C1, 0x9181, 0x5140, 0x9301, 0x53C0, 0x5280, 0x9241, 0x9601, 0x56C0, 0x5780, 0x9741,
     0x5500, 0x95C1, 0x9481, 0x5440, 0x9C01, 0x5CC0, 0x5D80, 0x9D41, 0x5F00, 0x9FC1, 0x9E81, 0x5E40,
     0x5A00, 0x9AC1, 0x9B81, 0x5B40, 0x9901, 0x59C0, 0x5880, 0x9841, 0x8801, 0x48C0, 0x4980, 0x8941,
     0x4B00, 0x8BC1, 0x8A81, 0x4A40, 0x4E00, 0x8EC1, 0x8F81, 0x4F40, 0x8D01, 0x4DC0, 0x4C80, 0x8C41,
     0x4400, 0x84C1, 0x8581, 0x4540, 0x8701, 0x47C0, 0x4680, 0x8641, 0x8201, 0x42C0, 0x4380, 0x8341,
     0x4100, 0x81C1, 0x8081, 0x4040]"

definition crc32_table :: "u32 list" where
  "crc32_table = [
     0, 0x77073096, 0xEE0E612C, 0x990951BA, 0x76DC419, 0x706AF48F, 0xE963A535, 0x9E6495A3,
     0xEDB8832, 0x79DCB8A4, 0xE0D5E91E, 0x97D2D988, 0x9B64C2B, 0x7EB17CBD, 0xE7B82D07, 0x90BF1D91,
     0x1DB71064, 0x6AB020F2, 0xF3B97148, 0x84BE41DE, 0x1ADAD47D, 0x6DDDE4EB, 0xF4D4B551, 0x83D385C7,
     0x136C9856, 0x646BA8C0, 0xFD62F97A, 0x8A65C9EC, 0x14015C4F, 0x63066CD9, 0xFA0F3D63, 0x8D080DF5,
     0x3B6E20C8, 0x4C69105E, 0xD56041E4, 0xA2677172, 0x3C03E4D1, 0x4B04D447, 0xD20D85FD, 0xA50AB56B,
     0x35B5A8FA, 0x42B2986C, 0xDBBBC9D6, 0xACBCF940, 0x32D86CE3, 0x45DF5C75, 0xDCD60DCF, 0xABD13D59,
     0x26D930AC, 0x51DE003A, 0xC8D75180, 0xBFD06116, 0x21B4F4B5, 0x56B3C423, 0xCFBA9599, 0xB8BDA50F,
     0x2802B89E, 0x5F058808, 0xC60CD9B2, 0xB10BE924, 0x2F6F7C87, 0x58684C11, 0xC1611DAB, 0xB6662D3D,
     0x76DC4190, 0x1DB7106, 0x98D220BC, 0xEFD5102A, 0x71B18589, 0x6B6B51F, 0x9FBFE4A5, 0xE8B8D433,
     0x7807C9A2, 0xF00F934, 0x9609A88E, 0xE10E9818, 0x7F6A0DBB, 0x86D3D2D, 0x91646C97, 0xE6635C01,
     0x6B6B51F4, 0x1C6C6162, 0x856530D8, 0xF262004E, 0x6C0695ED, 0x1B01A57B, 0x8208F4C1, 0xF50FC457,
     0x65B0D9C6, 0x12B7E950, 0x8BBEB8EA, 0xFCB9887C, 0x62DD1DDF, 0x15DA2D49, 0x8CD37CF3, 0xFBD44C65,
     0x4DB26158, 0x3AB551CE, 0xA3BC0074, 0xD4BB30E2, 0x4ADFA541, 0x3DD895D7, 0xA4D1C46D, 0xD3D6F4FB,
     0x4369E96A, 0x346ED9FC, 0xAD678846, 0xDA60B8D0, 0x44042D73, 0x33031DE5, 0xAA0A4C5F, 0xDD0D7CC9,
     0x5005713C, 0x270241AA, 0xBE0B1010, 0xC90C2086, 0x5768B525, 0x206F85B3, 0xB966D409, 0xCE61E49F,
     0x5EDEF90E, 0x29D9C998, 0xB0D09822, 0xC7D7A8B4, 0x59B33D17, 0x2EB40D81, 0xB7BD5C3B, 0xC0BA6CAD,
     0xEDB88320, 0x9ABFB3B6, 0x3B6E20C, 0x74B1D29A, 0xEAD54739, 0x9DD277AF, 0x4DB2615, 0x73DC1683,
     0xE3630B12, 0x94643B84, 0xD6D6A3E, 0x7A6A5AA8, 0xE40ECF0B, 0x9309FF9D, 0xA00AE27, 0x7D079EB1,
     0xF00F9344, 0x8708A3D2, 0x1E01F268, 0x6906C2FE, 0xF762575D, 0x806567CB, 0x196C3671, 0x6E6B06E7,
     0xFED41B76, 0x89D32BE0, 0x10DA7A5A, 0x67DD4ACC, 0xF9B9DF6F, 0x8EBEEFF9, 0x17B7BE43, 0x60B08ED5,
     0xD6D6A3E8, 0xA1D1937E, 0x38D8C2C4, 0x4FDFF252, 0xD1BB67F1, 0xA6BC5767, 0x3FB506DD, 0x48B2364B,
     0xD80D2BDA, 0xAF0A1B4C, 0x36034AF6, 0x41047A60, 0xDF60EFC3, 0xA867DF55, 0x316E8EEF, 0x4669BE79,
     0xCB61B38C, 0xBC66831A, 0x256FD2A0, 0x5268E236, 0xCC0C7795, 0xBB0B4703, 0x220216B9, 0x5505262F,
     0xC5BA3BBE, 0xB2BD0B28, 0x2BB45A92, 0x5CB36A04, 0xC2D7FFA7, 0xB5D0CF31, 0x2CD99E8B, 0x5BDEAE1D,
     0x9B64C2B0, 0xEC63F226, 0x756AA39C, 0x26D930A, 0x9C0906A9, 0xEB0E363F, 0x72076785, 0x5005713,
     0x95BF4A82, 0xE2B87A14, 0x7BB12BAE, 0xCB61B38, 0x92D28E9B, 0xE5D5BE0D, 0x7CDCEFB7, 0xBDBDF21,
     0x86D3D2D4, 0xF1D4E242, 0x68DDB3F8, 0x1FDA836E, 0x81BE16CD, 0xF6B9265B, 0x6FB077E1, 0x18B74777,
     0x88085AE6, 0xFF0F6A70, 0x66063BCA, 0x11010B5C, 0x8F659EFF, 0xF862AE69, 0x616BFFD3, 0x166CCF45,
     0xA00AE278, 0xD70DD2EE, 0x4E048354, 0x3903B3C2, 0xA7672661, 0xD06016F7, 0x4969474D, 0x3E6E77DB,
     0xAED16A4A, 0xD9D65ADC, 0x40DF0B66, 0x37D83BF0, 0xA9BCAE53, 0xDEBB9EC5, 0x47B2CF7F, 0x30B5FFE9,
     0xBDBDF21C, 0xCABAC28A, 0x53B39330, 0x24B4A3A6, 0xBAD03605, 0xCDD70693, 0x54DE5729, 0x23D967BF,
     0xB3667A2E, 0xC4614AB8, 0x5D681B02, 0x2A6F2B94, 0xB40BBE37, 0xC30C8EA1, 0x5A05DF1B, 0x2D02EF8D]"

definition syn_crc8_update :: "u8 \<Rightarrow> u8 list \<Rightarrow> u8" where
  "syn_crc8_update crc data = fold (\<lambda>b crc. crc8_table ! unat (crc XOR b)) data crc"

definition syn_crc16_ccitt_update :: "u16 \<Rightarrow> u8 list \<Rightarrow> u16" where
  "syn_crc16_ccitt_update crc data =
     fold (\<lambda>b crc. push_bit 8 crc XOR crc16_ccitt_table ! unat (drop_bit 8 crc XOR ucast b)) data crc"

definition syn_crc16_modbus_update :: "u16 \<Rightarrow> u8 list \<Rightarrow> u16" where
  "syn_crc16_modbus_update crc data =
     fold (\<lambda>b crc. drop_bit 8 crc XOR crc16_modbus_table ! unat ((crc XOR ucast b) AND 0xFF)) data crc"

definition syn_crc32_update :: "u32 \<Rightarrow> u8 list \<Rightarrow> u32" where
  "syn_crc32_update crc data =
     fold (\<lambda>b crc. drop_bit 8 crc XOR crc32_table ! unat ((crc XOR ucast b) AND 0xFF)) data crc"

text \<open>The whole-buffer forms of \<^verbatim>\<open>syn_crc.h\<close>.\<close>

definition syn_crc8 :: "u8 list \<Rightarrow> u8" where "syn_crc8 data = syn_crc8_update 0 data"
definition syn_crc16_ccitt :: "u8 list \<Rightarrow> u16" where "syn_crc16_ccitt data = syn_crc16_ccitt_update 0xFFFF data"
definition syn_crc16_modbus :: "u8 list \<Rightarrow> u16" where "syn_crc16_modbus data = syn_crc16_modbus_update 0xFFFF data"
definition syn_crc32_final :: "u32 \<Rightarrow> u32" where "syn_crc32_final crc = crc XOR 0xFFFFFFFF"
definition syn_crc32 :: "u8 list \<Rightarrow> u32" where "syn_crc32 data = syn_crc32_final (syn_crc32_update 0xFFFFFFFF data)"

subsection \<open>Linearity\<close>

lemma and_one_bit: "c AND 1 \<noteq> 0 \<longleftrightarrow> bit c 0" for c :: "'a::len word"
  by (simp add: and_one_eq bit_0 even_iff_mod_2_eq_zero)

lemma and_exp_bit: "c AND 2 ^ n \<noteq> 0 \<longleftrightarrow> bit c n" for c :: "'a::len word"
proof -
  have "bit (c AND 2 ^ n) m \<longleftrightarrow> m = n \<and> bit c n" for m
    using bit_imp_le_length [of c n] by (auto simp: bit_and_iff bit_exp_iff)
  then show ?thesis by (metis bit_0_eq bit_eqI bot_apply bot_bool_def)
qed

lemma step_right_bit: "crc_step_right poly c = drop_bit 1 c XOR (if bit c 0 then poly else 0)"
  by (simp add: crc_step_right_def and_one_bit)

lemma step_left_bit: "crc_step_left (2 ^ n) poly c = push_bit 1 c XOR (if bit c n then poly else 0)"
  by (simp add: crc_step_left_def and_exp_bit)

lemma step_right_xor: "crc_step_right poly (a XOR b) = crc_step_right poly a XOR crc_step_right poly b"
  by (auto simp: step_right_bit drop_bit_xor bit_xor_iff ac_simps)

lemma step_left_xor: "crc_step_left (2 ^ n) poly (a XOR b) = crc_step_left (2 ^ n) poly a XOR crc_step_left (2 ^ n) poly b"
  by (auto simp: step_left_bit push_bit_xor bit_xor_iff ac_simps)

lemma funpow_xor: "(\<And>a b. f (a XOR b) = f a XOR f b) \<Longrightarrow> (f ^^ n) (a XOR b) = (f ^^ n) a XOR (f ^^ n) b"
  for a :: "'a::len word" and f :: "'a word \<Rightarrow> 'a word"
  by (induction n) simp_all

text \<open>A register whose next bits out are zero is only shifted.\<close>

lemma steps_right_shift: "(\<forall>i<n. \<not> bit c i) \<Longrightarrow> (crc_step_right poly ^^ n) c = drop_bit n c"
proof (induction n)
  case (Suc n)
  then have "(crc_step_right poly ^^ n) c = drop_bit n c" by simp
  moreover have "\<not> bit (drop_bit n c) 0" using Suc.prems by (simp add: bit_drop_bit_eq)
  ultimately show ?case by (simp add: step_right_bit [of poly "drop_bit n c"])
qed simp

lemma steps_left_shift:
  "(\<forall>i<n. \<not> bit c (m - i)) \<Longrightarrow> n \<le> m \<Longrightarrow> (crc_step_left (2 ^ m) poly ^^ n) c = push_bit n c"
proof (induction n)
  case (Suc n)
  then have "(crc_step_left (2 ^ m) poly ^^ n) c = push_bit n c" by simp
  moreover have "\<not> bit (push_bit n c) m" using Suc.prems by (auto simp: bit_push_bit_iff)
  ultimately show ?case by (simp add: step_left_bit [of m poly "push_bit n c"] push_bit_double)
qed simp

subsection \<open>The tables\<close>

lemma funpow_8: "(f ^^ 8) x = f (f (f (f (f (f (f (f x)))))))"
  by (simp add: eval_nat_numeral)

text \<open>A table of a linear function is built from its values at powers of two by doubling.\<close>

fun double_table :: "'a::len word list \<Rightarrow> 'a word list \<Rightarrow> 'a word list" where
  "double_table t [] = t"
| "double_table t (b # bs) = double_table (t @ map (\<lambda>x. b XOR x) t) bs"

lemma of_nat_pow_add_xor: "i < 2 ^ k \<Longrightarrow> (of_nat (2 ^ k + i) :: 'a::len word) = of_nat (2 ^ k) XOR of_nat i"
proof -
  assume "i < 2 ^ k"
  then have "2 ^ k AND i = 0" by (auto intro!: bit_eqI simp: bit_and_iff bit_exp_iff) (metis bit_take_bit_iff less_irrefl take_bit_nat_eq_self)
  then have "2 ^ k + i = 2 ^ k XOR i" by (rule disjunctive_add_eq_xor)
  then show ?thesis by (simp only: of_nat_xor_eq)
qed

lemma double_table_linear:
  fixes f :: "'a::len word \<Rightarrow> 'a word"
  assumes "\<And>a b. f (a XOR b) = f a XOR f b"
  shows "double_table (map (\<lambda>i. f (of_nat i)) [0..<2 ^ k]) (map (\<lambda>j. f (of_nat (2 ^ j))) [k..<k + m])
    = map (\<lambda>i. f (of_nat i)) [0..<2 ^ (k + m)]"
proof (induction m arbitrary: k)
  case (Suc m)
  let ?g = "\<lambda>i. f (of_nat i)"
  have "map (\<lambda>x. ?g (2 ^ k) XOR x) (map ?g [0..<2 ^ k]) = map ?g (map ((+) (2 ^ k)) [0..<2 ^ k])"
    by (auto simp: of_nat_pow_add_xor assms simp del: of_nat_add)
  also have "map ((+) (2 ^ k)) [0..<2 ^ k] = [2 ^ k..<2 ^ k + 2 ^ k]"
    by (rule nth_equalityI) simp_all
  finally have "map ?g [0..<2 ^ k] @ map (\<lambda>x. ?g (2 ^ k) XOR x) (map ?g [0..<2 ^ k]) = map ?g [0..<2 ^ Suc k]"
    by (metis map_append upt_add_eq_append le0 power_Suc mult_2)
  moreover have "[k..<k + Suc m] = k # [Suc k..<Suc k + m]" by (simp add: upt_conv_Cons)
  ultimately show ?case using Suc.IH [of "Suc k"] by simp
qed simp

lemma linear_table:
  fixes f :: "'a::len word \<Rightarrow> 'a word"
  assumes "\<And>a b. f (a XOR b) = f a XOR f b"
    "double_table [0] (map f [1, 2, 4, 8, 16, 32, 64, 128]) = t" "i < 256"
  shows "t ! i = f (of_nat i)"
proof -
  have "f 0 = 0" using assms(1) [of 0 0] by simp
  then have one: "map (\<lambda>i. f (of_nat i)) [0..<2 ^ 0] = [0]" by simp
  have pows: "map (\<lambda>j. f (of_nat (2 ^ j))) [0..<0 + 8] = map f [1, 2, 4, 8, 16, 32, 64, 128]"
    by (simp add: upt_rec)
  have t: "t = map (\<lambda>i. f (of_nat i)) [0..<2 ^ (0 + 8)]"
    using double_table_linear [of f 0 8, OF assms(1)] unfolding one pows assms(2) .
  have "map (\<lambda>i. f (of_nat i)) [0..<2 ^ (0 + 8)] ! i = f (of_nat (0 + i))"
    by (rule nth_map_upt) (use assms(3) in simp)
  then show ?thesis by (simp only: t add_0)
qed

lemma crc16_ccitt_table_nth:
  assumes "i < 256"
  shows "crc16_ccitt_table ! i = (crc_step_left (2 ^ 15) 0x1021 ^^ 8) (push_bit 8 (of_nat i))"
proof (rule linear_table [where f = "\<lambda>v. (crc_step_left (2 ^ 15) 0x1021 ^^ 8) (push_bit 8 v)"])
  show "double_table [0] (map (\<lambda>v. (crc_step_left (2 ^ 15) 0x1021 ^^ 8) (push_bit 8 v)) [1, 2, 4, 8, 16, 32, 64, 128])
      = crc16_ccitt_table" by (simp add: funpow_8 crc_step_left_def crc16_ccitt_table_def)
qed (simp_all only: push_bit_xor funpow_xor [OF step_left_xor] assms)

lemma crc16_modbus_table_nth:
  assumes "i < 256"
  shows "crc16_modbus_table ! i = (crc_step_right 0xA001 ^^ 8) (of_nat i)"
proof (rule linear_table [where f = "crc_step_right 0xA001 ^^ 8"])
  show "double_table [0] (map (crc_step_right 0xA001 ^^ 8) [1, 2, 4, 8, 16, 32, 64, 128]) = crc16_modbus_table"
    by (simp add: funpow_8 crc_step_right_def crc16_modbus_table_def)
qed (simp_all add: funpow_xor step_right_xor assms)

lemma crc32_table_nth:
  assumes "i < 256"
  shows "crc32_table ! i = (crc_step_right 0xEDB88320 ^^ 8) (of_nat i)"
proof (rule linear_table [where f = "crc_step_right 0xEDB88320 ^^ 8"])
  show "double_table [0] (map (crc_step_right 0xEDB88320 ^^ 8) [1, 2, 4, 8, 16, 32, 64, 128]) = crc32_table"
    by (simp add: funpow_8 crc_step_right_def crc32_table_def)
qed (simp_all add: funpow_xor step_right_xor assms)

subsection \<open>The two builds agree\<close>

lemma fold_eq: "(\<And>x s. f x s = g x s) \<Longrightarrow> fold f xs s = fold g xs s"
  by (induction xs arbitrary: s) simp_all

lemma split_low_byte: "x = push_bit 8 (drop_bit 8 x) XOR take_bit 8 x" for x :: "'a::len word"
  by (rule bit_eqI) (auto simp: bit_push_bit_iff bit_drop_bit_eq bit_take_bit_iff bit_xor_iff)

lemma unat_take_8: "unat (take_bit 8 x) < 256" for x :: "'a::len word"
proof -
  have "unat (take_bit 8 x) = take_bit 8 (unat x)" by (simp add: unsigned_take_bit_eq)
  also have "\<dots> < 2 ^ 8" by (rule take_bit_nat_less_exp)
  finally show ?thesis by simp
qed

lemma drop_push_8: "drop_bit 8 (push_bit 8 (drop_bit 8 x)) = drop_bit 8 x" for x :: "'a::len word"
  by (rule bit_eqI) (auto simp: bit_push_bit_iff bit_drop_bit_eq dest: bit_imp_le_length)

lemma bit_ucast_byte: "bit (ucast (b :: u8) :: 'a::len word) n \<Longrightarrow> n < 8"
  using bit_imp_le_length [of b n] by (auto simp: bit_ucast_iff)

lemma crc_right_byte:
  fixes crc poly :: "'a::len word" and b :: u8
  assumes "\<And>i. i < 256 \<Longrightarrow> t ! i = (crc_step_right poly ^^ 8) (of_nat i)"
  shows "drop_bit 8 crc XOR t ! unat ((crc XOR ucast b) AND 0xFF) = (crc_step_right poly ^^ 8) (crc XOR ucast b)"
proof -
  let ?x = "crc XOR (ucast b :: 'a word)" and ?F = "crc_step_right poly ^^ 8"
  have "?F ?x = ?F (push_bit 8 (drop_bit 8 ?x)) XOR ?F (take_bit 8 ?x)"
    by (subst split_low_byte) (rule funpow_xor, rule step_right_xor)
  moreover have "?F (push_bit 8 (drop_bit 8 ?x)) = drop_bit 8 ?x"
    by (subst steps_right_shift) (auto simp: bit_push_bit_iff drop_push_8 bit_xor_iff)
  moreover have "drop_bit 8 ?x = drop_bit 8 crc"
    by (rule bit_eqI) (auto simp: bit_drop_bit_eq bit_xor_iff dest: bit_ucast_byte)
  moreover have "?F (take_bit 8 ?x) = t ! unat (take_bit 8 ?x)"
    using assms [OF unat_take_8 [of ?x]] by simp
  ultimately show ?thesis by (simp only: and_255)
qed

lemma crc_ccitt_byte:
  fixes crc :: u16 and b :: u8
  shows "push_bit 8 crc XOR crc16_ccitt_table ! unat (drop_bit 8 crc XOR ucast b)
    = (crc_step_left (2 ^ 15) 0x1021 ^^ 8) (crc XOR push_bit 8 (ucast b))"
proof -
  let ?x = "crc XOR push_bit 8 (ucast b)" and ?h = "drop_bit 8 crc XOR (ucast b :: u16)"
  let ?F = "crc_step_left (2 ^ 15) (0x1021 :: u16) ^^ 8"
  have "?F ?x = ?F (push_bit 8 (drop_bit 8 ?x)) XOR ?F (take_bit 8 ?x)"
    by (subst split_low_byte) (rule funpow_xor, rule step_left_xor)
  moreover have "?F (take_bit 8 ?x) = push_bit 8 (take_bit 8 ?x)"
    by (rule steps_left_shift) (auto simp: bit_take_bit_iff bit_xor_iff)
  moreover have "push_bit 8 (take_bit 8 ?x) = push_bit 8 crc"
    by (rule bit_eqI) (auto simp: bit_push_bit_iff bit_take_bit_iff bit_xor_iff)
  moreover have h: "drop_bit 8 ?x = ?h"
    by (rule bit_eqI) (auto simp: bit_push_bit_iff bit_xor_iff bit_drop_bit_eq bit_ucast_iff dest: bit_imp_le_length)
  moreover have "?h = take_bit 8 ?h"
    by (rule bit_eqI) (auto simp: bit_take_bit_iff bit_xor_iff bit_drop_bit_eq dest: bit_ucast_byte dest: bit_imp_le_length)
  then have "unat ?h < 256" using unat_take_8 [of ?h] by simp
  then have "crc16_ccitt_table ! unat ?h = ?F (push_bit 8 ?h)"
    by (simp only: crc16_ccitt_table_nth of_nat_unat ucast_id)
  ultimately show ?thesis by (simp only: xor.commute)
qed

lemma crc_builds:
  "syn_crc16_ccitt_update c16 data = crc16_ccitt_bits c16 data"
  "syn_crc16_modbus_update m16 data = crc16_modbus_bits m16 data"
  "syn_crc32_update c32 data = crc32_bits c32 data"
proof -
  have p: "(0x8000 :: u16) = 2 ^ 15" by simp
  show "syn_crc16_ccitt_update c16 data = crc16_ccitt_bits c16 data"
    unfolding syn_crc16_ccitt_update_def crc16_ccitt_bits_def p by (rule fold_eq) (rule crc_ccitt_byte)
  show "syn_crc16_modbus_update m16 data = crc16_modbus_bits m16 data"
    unfolding syn_crc16_modbus_update_def crc16_modbus_bits_def
    by (rule fold_eq) (rule crc_right_byte, rule crc16_modbus_table_nth)
  show "syn_crc32_update c32 data = crc32_bits c32 data"
    unfolding syn_crc32_update_def crc32_bits_def
    by (rule fold_eq) (rule crc_right_byte, rule crc32_table_nth)
qed

text \<open>
  C18: The table-driven and the bit-by-bit builds of CRC-16/CCITT, CRC-16/Modbus and CRC-32 compute the
  same checksum of every byte sequence from every starting value.
\<close>

theorem crc_builds_agree:
  "syn_crc16_ccitt_update c16 data = crc16_ccitt_bits c16 data
   \<and> syn_crc16_modbus_update m16 data = crc16_modbus_bits m16 data
   \<and> syn_crc32_update c32 data = crc32_bits c32 data"
  by (simp add: crc_builds)

subsection \<open>CRC-8\<close>

text \<open>
  The table-driven and bit-by-bit builds of CRC-8 disagree: for a table index (register XOR byte)
  from 0xE0 to 0xEF the table entry is off by 0x20, for every other index it is right. So the
  default build computes a different checksum of, for example, the single byte 0xE0.
\<close>

theorem crc8_table_wrong_row:
  "syn_crc8_update crc [b] =
     crc8_bits crc [b] XOR (if 0xE0 \<le> crc XOR b \<and> crc XOR b \<le> 0xEF then 0x20 else 0)"
proof -
  let ?F = "crc_step_left (2 ^ 7) (0x31 :: u8) ^^ 8"
  define good where "good = double_table [0] (map ?F [1, 2, 4, 8, 16, 32, 64, 128])"
  have good: "good ! i = ?F (of_nat i)" if "i < 256" for i
    by (rule linear_table [OF _ good_def [symmetric] that]) (rule funpow_xor, rule step_left_xor)
  have len: "length good = 256" by (simp add: good_def)
  have tbl: "crc8_table = map (\<lambda>(i, x). x XOR (if 224 \<le> i \<and> i \<le> 239 then 0x20 else 0)) (enumerate 0 good)"
    by (simp add: good_def funpow_8 crc_step_left_def crc8_table_def)
  have "crc8_table ! i = ?F (of_nat i) XOR (if 224 \<le> i \<and> i \<le> 239 then 0x20 else 0)" if "i < 256" for i
    unfolding tbl using that good [OF that] by (subst nth_map) (simp_all add: len nth_enumerate_eq)
  moreover have "unat (crc XOR b) < 256" by (rule order_less_le_trans [OF unsigned_less]) simp
  ultimately show ?thesis by (simp add: syn_crc8_update_def crc8_bits_def word_le_nat_alt)
qed

subsection \<open>Error detection\<close>

lemma xor_cancel: "a XOR b = a XOR c \<longleftrightarrow> b = c" for a b c :: "'a::len word"
  by (metis xor.assoc xor.left_neutral xor_self_eq)

lemma xor_cancel_right: "b XOR a = c XOR a \<longleftrightarrow> b = c" for a b c :: "'a::len word"
  by (simp only: xor.commute [of _ a] xor_cancel)

lemma step_right_inj:
  fixes poly :: "'a::len word"
  assumes "bit poly (LENGTH('a) - 1)" "crc_step_right poly a = crc_step_right poly b"
  shows "a = b"
proof -
  let ?n = "LENGTH('a) - 1"
  have msb: "bit (crc_step_right poly c) ?n \<longleftrightarrow> bit c 0" for c
    using assms(1) by (auto simp: step_right_bit bit_xor_iff bit_drop_bit_eq dest: bit_imp_le_length)
  have zero: "bit a 0 \<longleftrightarrow> bit b 0" using msb [of a] msb [of b] assms(2) by simp
  then have "drop_bit 1 a = drop_bit 1 b"
    using assms(2) by (simp only: step_right_bit xor_cancel_right)
  then have shift: "bit a (Suc m) \<longleftrightarrow> bit b (Suc m)" for m by (metis bit_drop_bit_eq comp_apply plus_1_eq_Suc)
  show ?thesis
  proof (rule bit_eqI)
    fix m show "bit a m \<longleftrightarrow> bit b m" using zero shift by (cases m) auto
  qed
qed

lemma step_left_inj:
  fixes poly :: "'a::len word"
  assumes "bit poly 0" "n = LENGTH('a) - 1" "crc_step_left (2 ^ n) poly a = crc_step_left (2 ^ n) poly b"
  shows "a = b"
proof -
  have lsb: "bit (crc_step_left (2 ^ n) poly c) 0 \<longleftrightarrow> bit c n" for c
  proof -
    have "\<not> bit (push_bit 1 c) 0" by (simp only: bit_push_bit_iff) simp
    then show ?thesis using assms(1) unfolding step_left_bit bit_xor_iff by simp
  qed
  have last: "bit a n \<longleftrightarrow> bit b n" using lsb [of a] lsb [of b] assms(3) by simp
  then have "push_bit 1 a = push_bit 1 b"
    using assms(3) by (simp only: step_left_bit xor_cancel_right)
  then have shift: "bit a m \<longleftrightarrow> bit b m" if "Suc m < LENGTH('a)" for m
  proof -
    have "bit (push_bit 1 a) (Suc m) \<longleftrightarrow> bit (push_bit 1 b) (Suc m)" using \<open>push_bit 1 a = push_bit 1 b\<close> by simp
    then show ?thesis using that by (simp only: bit_push_bit_iff) simp
  qed
  show ?thesis
  proof (rule bit_eqI)
    fix m show "bit a m \<longleftrightarrow> bit b m"
      using last shift assms(2) bit_imp_le_length [of a m] bit_imp_le_length [of b m] by (cases "m = n") force+
  qed
qed

lemma ucast_byte_inj: "8 \<le> LENGTH('a) \<Longrightarrow> (ucast (x :: u8) :: 'a::len word) = ucast y \<longleftrightarrow> x = y"
proof
  assume len: "8 \<le> LENGTH('a)" and eq: "(ucast x :: 'a word) = ucast y"
  show "x = y"
  proof (rule bit_eqI)
    fix n show "bit x n \<longleftrightarrow> bit y n"
      using arg_cong [OF eq, of "\<lambda>w. bit w n"] len bit_imp_le_length [of x n] bit_imp_le_length [of y n]
      by (auto simp: bit_ucast_iff)
  qed
qed simp

lemma push_byte_inj: "push_bit 8 (ucast (x :: u8) :: u16) = push_bit 8 (ucast y) \<Longrightarrow> x = y"
proof (rule bit_eqI)
  fix n assume eq: "push_bit 8 (ucast x :: u16) = push_bit 8 (ucast y)"
  show "bit x n \<longleftrightarrow> bit y n"
    using arg_cong [OF eq, of "\<lambda>w. bit w (8 + n)"] bit_imp_le_length [of x n] bit_imp_le_length [of y n]
    by (auto simp: bit_push_bit_iff bit_ucast_iff)
qed

lemma funpow_inj: fixes f :: "'b \<Rightarrow> 'b" shows "(\<And>a b. f a = f b \<Longrightarrow> a = b) \<Longrightarrow> (f ^^ n) a = (f ^^ n) b \<Longrightarrow> a = b"
  by (induction n) auto

lemma fold_byte_differs:
  assumes "\<And>b c d. f b c = f b d \<Longrightarrow> c = d" "f x c \<noteq> f y c"
  shows "fold f (x # zs) c \<noteq> fold f (y # zs) c"
proof -
  have "c = d" if "fold f zs c = fold f zs d" for c d zs
    using that by (induction zs arbitrary: c d) (simp, metis assms(1) fold_simps(2))
  then show ?thesis using assms(2) by auto
qed

text \<open>
  Corruption confined to one byte is always detected: replacing one byte of a message by a
  different one changes its CRC-16/CCITT, CRC-16/Modbus and CRC-32, whatever surrounds it.
\<close>

theorem crc_detects_byte_error:
  assumes "x \<noteq> y"
  shows "syn_crc16_ccitt_update c16 (pre @ x # post) \<noteq> syn_crc16_ccitt_update c16 (pre @ y # post)
    \<and> syn_crc16_modbus_update m16 (pre @ x # post) \<noteq> syn_crc16_modbus_update m16 (pre @ y # post)
    \<and> syn_crc32_update c32 (pre @ x # post) \<noteq> syn_crc32_update c32 (pre @ y # post)"
proof -
  let ?fc = "\<lambda>(b :: u8) crc. (crc_step_left 0x8000 0x1021 ^^ 8) (crc XOR push_bit 8 (ucast b) :: u16)"
  let ?fm = "\<lambda>(b :: u8) crc. (crc_step_right 0xA001 ^^ 8) (crc XOR ucast b :: u16)"
  let ?f32 = "\<lambda>(b :: u8) crc. (crc_step_right 0xEDB88320 ^^ 8) (crc XOR ucast b :: u32)"
  have ijc: "a = b" if "(crc_step_left 0x8000 0x1021 ^^ 8) a = (crc_step_left 0x8000 0x1021 ^^ 8) b" for a b :: u16
    by (rule funpow_inj [OF _ that], rule step_left_inj [of "0x1021" 15]) (simp_all add: bit_numeral_rec)
  have ijm: "a = b" if "(crc_step_right 0xA001 ^^ 8) a = (crc_step_right 0xA001 ^^ 8) b" for a b :: u16
    by (rule funpow_inj [OF step_right_inj that]) (simp_all add: bit_numeral_rec)
  have ij32: "a = b" if "(crc_step_right 0xEDB88320 ^^ 8) a = (crc_step_right 0xEDB88320 ^^ 8) b" for a b :: u32
    by (rule funpow_inj [OF step_right_inj that]) (simp_all add: bit_numeral_rec)
  have uc: "(ucast x :: u16) \<noteq> ucast y" "(ucast x :: u32) \<noteq> ucast y"
    using assms by (simp_all add: ucast_byte_inj)
  have pc: "push_bit 8 (ucast x :: u16) \<noteq> push_bit 8 (ucast y)"
    using assms push_byte_inj by blast
  have "fold ?fc (x # post) c \<noteq> fold ?fc (y # post) c" for c
    by (rule fold_byte_differs) (auto dest!: ijc simp: xor_cancel_right xor_cancel pc)
  moreover have "fold ?fm (x # post) c \<noteq> fold ?fm (y # post) c" for c
    by (rule fold_byte_differs) (auto dest!: ijm simp: xor_cancel_right xor_cancel uc)
  moreover have "fold ?f32 (x # post) c \<noteq> fold ?f32 (y # post) c" for c
    by (rule fold_byte_differs) (auto dest!: ij32 simp: xor_cancel_right xor_cancel uc)
  ultimately show ?thesis
    unfolding crc_builds crc16_ccitt_bits_def crc16_modbus_bits_def crc32_bits_def fold_append comp_apply by blast
qed

theorem crc_detects_byte_error_witness:
  "syn_crc32_update 0xFFFFFFFF ([1, 2] @ 3 # [4]) \<noteq> syn_crc32_update 0xFFFFFFFF ([1, 2] @ 7 # [4])"
  using crc_detects_byte_error [of 3 7 0 "[1, 2]" "[4]" 0 "0xFFFFFFFF"] by simp

end
