(* ===== verification/Syn_Cobs.thy ===== *)
theory Syn_Cobs
  imports Syn_Prelude
begin

text \<open>
  COBS packet framing (\<^verbatim>\<open>proto/syn_cobs.c\<close>). The encoder writes to a separate buffer, modelled as the
  list of bytes written so far with a reserved code byte. The decoder may run in place (the
  streaming decoder calls it so), so it works on a memory: reads and writes go through
  addresses, and \<^verbatim>\<open>memmove\<close> copies as if through a temporary.
\<close>

subsection \<open>Encoder\<close>

text \<open>The bytes from \<^verbatim>\<open>dst\<close> to \<^verbatim>\<open>d\<close>, the index \<^verbatim>\<open>code_ptr - dst\<close>, and \<^verbatim>\<open>code\<close>.\<close>

record cobs_enc =
  ce_out :: "u8 list"
  ce_code_ptr :: nat
  ce_code :: u8

text \<open>\<^verbatim>\<open>*code_ptr = code; code_ptr = d++; code = 1\<close> (the new code byte is not written yet).\<close>

definition cobs_close_run :: "cobs_enc \<Rightarrow> cobs_enc" where
  "cobs_close_run e =
     \<lparr>ce_out = (ce_out e)[ce_code_ptr e := ce_code e] @ [0], ce_code_ptr = length (ce_out e), ce_code = 1\<rparr>"

definition cobs_enc_byte :: "u8 \<Rightarrow> cobs_enc \<Rightarrow> cobs_enc" where
  "cobs_enc_byte b e =
     (if b = 0 then cobs_close_run e
      else
        let e1 = e\<lparr>ce_out := ce_out e @ [b], ce_code := ce_code e + 1\<rparr>
        in if ce_code e1 = 0xFF then cobs_close_run e1 else e1)"

definition syn_cobs_encode :: "u8 list \<Rightarrow> u8 list" where
  "syn_cobs_encode src =
     (if src = [] then []
      else let e = fold cobs_enc_byte src \<lparr>ce_out = [0], ce_code_ptr = 0, ce_code = 1\<rparr>
           in (ce_out e)[ce_code_ptr e := ce_code e])"

subsection \<open>Decoder\<close>

definition memmove :: "(nat \<Rightarrow> u8) \<Rightarrow> nat \<Rightarrow> nat \<Rightarrow> nat \<Rightarrow> nat \<Rightarrow> u8" where
  "memmove mem dst src n = (\<lambda>a. if dst \<le> a \<and> a < dst + n then mem (src + (a - dst)) else mem a)"

text \<open>The loop: memory, \<^verbatim>\<open>s\<close>, \<^verbatim>\<open>remaining\<close>, \<^verbatim>\<open>d\<close>; \<open>None\<close> is the malformed exit.\<close>

fun cobs_dec_loop :: "(nat \<Rightarrow> u8) \<Rightarrow> nat \<Rightarrow> nat \<Rightarrow> nat \<Rightarrow> (nat \<Rightarrow> u8) \<times> nat option" where
  "cobs_dec_loop mem s 0 d = (mem, Some d)"
| "cobs_dec_loop mem s (Suc remaining) d =
     (let code = mem s; run = unat (code - 1)
      in if code = 0 then (mem, None)
         else if run > remaining then (mem, None)
         else
           let mem1 = memmove mem d (s + 1) run; d1 = d + run;
               s1 = s + 1 + run; remaining1 = remaining - run
           in if code < 0xFF \<and> remaining1 > 0
              then cobs_dec_loop (mem1(d1 := 0)) s1 remaining1 (d1 + 1)
              else cobs_dec_loop mem1 s1 remaining1 d1)"

definition syn_cobs_decode :: "(nat \<Rightarrow> u8) \<Rightarrow> nat \<Rightarrow> nat \<Rightarrow> nat \<Rightarrow> nat \<times> (nat \<Rightarrow> u8)" where
  "syn_cobs_decode mem src src_len dst =
     (if src_len = 0 then (0, mem)
      else case cobs_dec_loop mem src src_len dst of
             (mem', None) \<Rightarrow> (0, mem')
           | (mem', Some d) \<Rightarrow> (d - dst, mem'))"

subsection \<open>Streaming decoder\<close>

text \<open>\<open>cd_cb\<close>: whether a callback is installed. A call of it is the packet returned by \<open>feed\<close>.\<close>

record cobs_decoder =
  cd_buf :: "u8 list"
  cd_buf_size :: nat
  cd_idx :: nat
  cd_overflow :: bool
  cd_cb :: bool

definition syn_cobs_decoder_init :: "cobs_decoder \<Rightarrow> u8 list \<Rightarrow> nat \<Rightarrow> bool \<Rightarrow> cobs_decoder" where
  "syn_cobs_decoder_init dec buf buf_size callback =
     (if buf_size = 0 then dec
      else \<lparr>cd_buf = buf, cd_buf_size = buf_size, cd_idx = 0, cd_overflow = False, cd_cb = callback\<rparr>)"

definition mem_of :: "u8 list \<Rightarrow> nat \<Rightarrow> u8" where
  "mem_of buf a = (if a < length buf then buf ! a else 0)"

definition syn_cobs_decoder_feed :: "cobs_decoder \<Rightarrow> u8 \<Rightarrow> u8 list option \<times> cobs_decoder" where
  "syn_cobs_decoder_feed dec byte =
     (if byte = 0
      then
        let (pkt, buf) =
              (if \<not> cd_overflow dec \<and> cd_idx dec > 0 \<and> cd_cb dec
               then case syn_cobs_decode (mem_of (cd_buf dec)) 0 (cd_idx dec) 0 of
                      (dec_len, mem') \<Rightarrow>
                        (if dec_len > 0 then Some (map mem' [0..<dec_len]) else None,
                         map mem' [0..<length (cd_buf dec)])
               else (None, cd_buf dec))
        in (pkt, dec\<lparr>cd_buf := buf, cd_idx := 0, cd_overflow := False\<rparr>)
      else if \<not> cd_overflow dec
      then if cd_idx dec < cd_buf_size dec
           then (None, dec\<lparr>cd_buf := (cd_buf dec)[cd_idx dec := byte], cd_idx := cd_idx dec + 1\<rparr>)
           else (None, dec\<lparr>cd_overflow := True, cd_idx := 0\<rparr>)
      else (None, dec))"

definition syn_cobs_decoder_reset :: "cobs_decoder \<Rightarrow> cobs_decoder" where
  "syn_cobs_decoder_reset dec = dec\<lparr>cd_idx := 0, cd_overflow := False\<rparr>"

text \<open>Feeding a byte sequence: the packets delivered, and the final state.\<close>

fun cobs_feed_all :: "cobs_decoder \<Rightarrow> u8 list \<Rightarrow> u8 list list \<times> cobs_decoder" where
  "cobs_feed_all dec [] = ([], dec)"
| "cobs_feed_all dec (b # bs) =
     (case syn_cobs_decoder_feed dec b of
        (pkt, dec1) \<Rightarrow> case cobs_feed_all dec1 bs of
           (pkts, dec2) \<Rightarrow> ((case pkt of None \<Rightarrow> pkts | Some p \<Rightarrow> p # pkts), dec2))"

subsection \<open>The code on lists\<close>

text \<open>Encoding with the current run of non-zero bytes, and decoding.\<close>

fun cobs_runs :: "u8 list \<Rightarrow> u8 list \<Rightarrow> u8 list" where
  "cobs_runs run [] = of_nat (length run + 1) # run"
| "cobs_runs run (b # bs) =
     (if b = 0 then (of_nat (length run + 1) # run) @ cobs_runs [] bs
      else if length run = 253 then (0xFF # run @ [b]) @ cobs_runs [] bs
      else cobs_runs (run @ [b]) bs)"

function cobs_list :: "u8 list \<Rightarrow> u8 list option" where
  "cobs_list [] = Some []"
| "cobs_list (c # bs) =
     (let run = unat (c - 1); rest = drop run bs
      in if c = 0 \<or> run > length bs then None
         else map_option (\<lambda>r. take run bs @ (if c < 0xFF \<and> rest \<noteq> [] then [0] else []) @ r) (cobs_list rest))"
  by pat_completeness auto
termination by (relation "measure length") auto

lemma of_nat_code: "length run < 254 \<Longrightarrow> unat (of_nat (length run + 1) :: u8) = length run + 1"
  by (subst unat_of_nat) simp

lemma cobs_enc_fold:
  assumes "length run < 254"
  shows "(let e = fold cobs_enc_byte bs \<lparr>ce_out = out @ p # run, ce_code_ptr = length out, ce_code = of_nat (length run + 1)\<rparr>
          in (ce_out e)[ce_code_ptr e := ce_code e]) = out @ cobs_runs run bs"
  using assms
proof (induction bs arbitrary: out p run)
  case (Cons b bs)
  let ?e = "\<lparr>ce_out = out @ p # run, ce_code_ptr = length out, ce_code = of_nat (length run + 1)\<rparr>"
  have code: "(of_nat (length run + 1) :: u8) + 1 = 0xFF \<longleftrightarrow> length run = 253"
  proof -
    have "(of_nat (length run + 1) :: u8) + 1 = of_nat (length run + 2)" by simp
    then have "(of_nat (length run + 1) :: u8) + 1 = 0xFF \<longleftrightarrow> unat (of_nat (length run + 2) :: u8) = unat (0xFF :: u8)"
      by (simp only: word_unat_eq_iff)
    also have "unat (of_nat (length run + 2) :: u8) = length run + 2" using Cons.prems by (subst unat_of_nat) simp
    finally show ?thesis by simp
  qed
  have new: "\<lparr>ce_out = o' @ [0], ce_code_ptr = length o', ce_code = 1\<rparr>
      = \<lparr>ce_out = o' @ 0 # [], ce_code_ptr = length o', ce_code = of_nat (length ([] :: u8 list) + 1)\<rparr>" for o'
    by simp
  show ?case
  proof (cases "b = 0")
    case True
    have "cobs_enc_byte b ?e = \<lparr>ce_out = (out @ of_nat (length run + 1) # run) @ [0],
        ce_code_ptr = length (out @ of_nat (length run + 1) # run), ce_code = 1\<rparr>"
      using True by (simp add: cobs_enc_byte_def cobs_close_run_def)
    then show ?thesis using True Cons.IH [of "[]" "out @ of_nat (length run + 1) # run" 0] by (simp add: new)
  next
    case nz: False
    show ?thesis
    proof (cases "length run = 253")
      case True
      have "cobs_enc_byte b ?e = \<lparr>ce_out = (out @ 0xFF # run @ [b]) @ [0],
          ce_code_ptr = length (out @ 0xFF # run @ [b]), ce_code = 1\<rparr>"
        using True nz code by (simp add: cobs_enc_byte_def cobs_close_run_def Let_def)
      then show ?thesis using True nz Cons.IH [of "[]" "out @ 0xFF # run @ [b]" 0] by (simp add: new)
    next
      case False
      have "cobs_enc_byte b ?e = \<lparr>ce_out = out @ p # (run @ [b]), ce_code_ptr = length out,
          ce_code = of_nat (length (run @ [b]) + 1)\<rparr>"
        using False nz code by (simp add: cobs_enc_byte_def Let_def add.commute)
      then show ?thesis using False nz Cons.IH [of "run @ [b]" out p] Cons.prems by simp
    qed
  qed
qed simp

lemma syn_cobs_encode_runs: "src \<noteq> [] \<Longrightarrow> syn_cobs_encode src = cobs_runs [] src"
  using cobs_enc_fold [of "[]" src "[]" 0] by (simp add: syn_cobs_encode_def)

lemma cobs_runs_nonempty [simp]: "cobs_runs run bs \<noteq> []"
  by (induction run bs rule: cobs_runs.induct) auto

lemma cobs_list_runs: "length run < 254 \<Longrightarrow> cobs_list (cobs_runs run bs) = Some (run @ bs)"
proof (induction run bs rule: cobs_runs.induct)
  case (1 run)
  have "unat (of_nat (length run + 1) - 1 :: u8) = length run" using 1 of_nat_code [of run] by (simp add: unat_of_nat)
  moreover have "(of_nat (length run + 1) :: u8) \<noteq> 0" using of_nat_code [OF 1] by (metis add_is_0 unat_0 zero_neq_one)
  ultimately show ?case by (simp add: Let_def)
next
  case (2 run b bs)
  have u: "unat (of_nat (length run + 1) - 1 :: u8) = length run" using 2(4) by (simp add: unat_of_nat)
  have nz: "(of_nat (length run + 1) :: u8) \<noteq> 0" using of_nat_code [OF 2(4)] by (metis add_is_0 unat_0 zero_neq_one)
  have lt: "(of_nat (length run + 1) :: u8) < 0xFF" using of_nat_code [OF 2(4)] 2(4) by (simp add: word_less_nat_alt)
  show ?case using 2 u nz lt by (auto simp: Let_def)
qed

lemma cobs_runs_no_zero: "length run < 254 \<Longrightarrow> 0 \<notin> set run \<Longrightarrow> 0 \<notin> set (cobs_runs run bs)"
proof (induction run bs rule: cobs_runs.induct)
  case (1 run)
  have "(of_nat (length run + 1) :: u8) \<noteq> 0" using of_nat_code [OF 1(1)] by (metis add_is_0 unat_0 zero_neq_one)
  then show ?case using 1(2) by auto
next
  case (2 run b bs)
  have "(of_nat (length run + 1) :: u8) \<noteq> 0" using of_nat_code [OF 2(4)] by (metis add_is_0 unat_0 zero_neq_one)
  then show ?case using 2 by auto
qed

text \<open>Every 254 bytes cost at most one extra code byte.\<close>

lemma cobs_runs_length: "length run < 254 \<Longrightarrow>
    length (cobs_runs run bs) \<le> length run + length bs + 1 + (length run + length bs) div 254"
proof (induction run bs rule: cobs_runs.induct)
  case (2 run b bs)
  show ?case
  proof (cases "b = 0")
    case True
    have "length bs div 254 \<le> (length run + length (b # bs)) div 254" by (intro div_le_mono) simp
    then show ?thesis using 2(1) True by simp
  next
    case nz: False
    show ?thesis
    proof (cases "length run = 253")
      case True
      then have "(length run + length (b # bs)) div 254 = Suc (length bs div 254)" by simp
      then show ?thesis using 2(2) nz True by simp
    next
      case False
      then show ?thesis using 2(3) nz 2(4) by simp
    qed
  qed
qed simp

text \<open>
  COBS round trip. The encoding of a non-empty packet contains no zero byte, has at most one code
  byte more than one per 254 bytes, and decodes (run-length reading of the format) to the packet.
\<close>

theorem cobs_roundtrip:
  assumes "src \<noteq> []"
  shows "0 \<notin> set (syn_cobs_encode src)
    \<and> length (syn_cobs_encode src) \<le> length src + 1 + length src div 254
    \<and> cobs_list (syn_cobs_encode src) = Some src"
  using cobs_runs_no_zero [of "[]" src] cobs_runs_length [of "[]" src] cobs_list_runs [of "[]" src]
  by (simp add: syn_cobs_encode_runs [OF assms])

theorem cobs_roundtrip_witness: "cobs_list (syn_cobs_encode [1, 0, 0, 2]) = Some [1, 0, 0, 2]"
  using cobs_roundtrip [of "[1, 0, 0, 2]"] by simp

subsection \<open>Decoding in memory, in place or not\<close>

definition mem_slice :: "(nat \<Rightarrow> u8) \<Rightarrow> nat \<Rightarrow> nat \<Rightarrow> u8 list" where
  "mem_slice mem a n = map mem [a..<a + n]"

lemma length_mem_slice [simp]: "length (mem_slice mem a n) = n"
  by (simp add: mem_slice_def)

lemma mem_slice_Suc: "mem_slice mem a (Suc n) = mem a # mem_slice mem (Suc a) n"
  by (simp add: mem_slice_def upt_conv_Cons del: upt_Suc)

lemma mem_slice_cong: "(\<And>x. a \<le> x \<Longrightarrow> x < a + n \<Longrightarrow> m x = m' x) \<Longrightarrow> mem_slice m a n = mem_slice m' a n"
  by (simp add: mem_slice_def)

lemma mem_slice_take: "k \<le> n \<Longrightarrow> take k (mem_slice m a n) = mem_slice m a k"
  by (simp add: mem_slice_def take_map)

lemma mem_slice_drop: "drop k (mem_slice m a n) = mem_slice m (a + k) (n - k)"
  by (cases "k \<le> n") (simp_all add: mem_slice_def drop_map)

lemma mem_slice_append: "mem_slice m a (n + k) = mem_slice m a n @ mem_slice m (a + n) k"
proof -
  have "[a..<a + n + k] = [a..<a + n] @ [a + n..<a + n + k]" by (rule upt_add_eq_append) simp
  then show ?thesis by (simp only: mem_slice_def add.assoc map_append)
qed

lemma nth_mem_slice: "i < n \<Longrightarrow> mem_slice m a n ! i = m (a + i)"
  unfolding mem_slice_def by (rule nth_map_upt) simp

lemma memmove_slice: "mem_slice (memmove m d s n) d n = mem_slice m s n"
  by (rule nth_equalityI) (simp_all add: nth_mem_slice memmove_def)

text \<open>The output after one run: the old output, the run, and perhaps a restored zero.\<close>

lemma cobs_out_slice:
  fixes z :: bool and mem :: "nat \<Rightarrow> u8" and s run base d :: nat
  assumes "base \<le> d"
  defines "m1 \<equiv> memmove mem d s run" and "zs \<equiv> if z then [0 :: u8] else []"
  defines "m2 \<equiv> if z then m1(d + run := 0) else m1"
  shows "mem_slice m2 base (d + run + (if z then 1 else 0) - base) = mem_slice mem base (d - base) @ mem_slice mem s run @ zs"
proof -
  have "d + run + (if z then 1 else 0) - base = (d - base) + (run + length zs)"
    using assms(1) by (simp add: zs_def)
  then have "mem_slice m2 base (d + run + (if z then 1 else 0) - base)
      = mem_slice m2 base (d - base) @ mem_slice m2 d run @ mem_slice m2 (d + run) (length zs)"
    using assms(1) by (simp only: mem_slice_append) simp
  moreover have "mem_slice m2 base (d - base) = mem_slice mem base (d - base)"
    using assms(1) by (intro mem_slice_cong) (auto simp: memmove_def m2_def m1_def)
  moreover have "mem_slice m2 d run = mem_slice m1 d run" by (intro mem_slice_cong) (auto simp: m2_def)
  moreover have "mem_slice m2 (d + run) (length zs) = zs" by (simp add: mem_slice_def m2_def zs_def)
  ultimately show ?thesis by (simp only: memmove_slice m1_def)
qed

text \<open>Writes never reach unread input: the write position is behind it or past its end.\<close>

lemma cobs_dec_loop_list:
  assumes "d \<le> s \<or> s + n \<le> d" "base \<le> d"
  shows "case cobs_list (mem_slice mem s n) of
      None \<Rightarrow> snd (cobs_dec_loop mem s n d) = None
    | Some r \<Rightarrow> snd (cobs_dec_loop mem s n d) = Some (d + length r)
        \<and> mem_slice (fst (cobs_dec_loop mem s n d)) base (d + length r - base) = mem_slice mem base (d - base) @ r"
  using assms
proof (induction mem s n d rule: cobs_dec_loop.induct)
  case (2 mem s n d)
  define run where "run = unat (mem s - 1)"
  let ?m1 = "memmove mem d (s + 1) run"
  show ?case
  proof (cases "mem s = 0 \<or> n < run")
    case True
    then show ?thesis by (auto simp: mem_slice_Suc run_def Let_def)
  next
    case False
    define z where "z = (mem s < 0xFF \<and> n - run > 0)"
    let ?m2 = "if z then ?m1(d + run := 0) else ?m1" and ?d2 = "d + run + (if z then 1 else 0)"
    let ?zs = "if z then [0 :: u8] else []"
    have loop: "cobs_dec_loop mem s (Suc n) d = cobs_dec_loop ?m2 (s + 1 + run) (n - run) ?d2"
      using False by (simp add: Let_def run_def z_def)
    have rest: "mem_slice ?m2 (s + 1 + run) (n - run) = mem_slice mem (s + 1 + run) (n - run)"
      using 2(3) False by (intro mem_slice_cong) (auto simp: memmove_def z_def)
    have lst: "cobs_list (mem_slice mem s (Suc n)) =
        map_option (\<lambda>r. mem_slice mem (s + 1) run @ ?zs @ r) (cobs_list (mem_slice mem (s + 1 + run) (n - run)))"
    proof -
      have "mem_slice mem (s + 1 + run) (n - run) \<noteq> [] \<longleftrightarrow> n - run > 0" by (metis length_greater_0_conv length_mem_slice)
      then show ?thesis using False
        by (simp add: mem_slice_Suc Let_def run_def [symmetric] mem_slice_take mem_slice_drop z_def)
    qed
    have out: "mem_slice ?m2 base (?d2 - base) = mem_slice mem base (d - base) @ mem_slice mem (s + 1) run @ ?zs" by (rule cobs_out_slice [OF 2(4)])
    have IH: "case cobs_list (mem_slice ?m2 (s + 1 + run) (n - run)) of
        None \<Rightarrow> snd (cobs_dec_loop ?m2 (s + 1 + run) (n - run) ?d2) = None
      | Some r \<Rightarrow> snd (cobs_dec_loop ?m2 (s + 1 + run) (n - run) ?d2) = Some (?d2 + length r)
          \<and> mem_slice (fst (cobs_dec_loop ?m2 (s + 1 + run) (n - run) ?d2)) base (?d2 + length r - base)
            = mem_slice ?m2 base (?d2 - base) @ r"
    proof -
      have c: "mem s \<noteq> 0" "\<not> n < run" using False by auto
      have w: "?d2 \<le> s + 1 + run \<or> s + 1 + run + (n - run) \<le> ?d2" using 2(3) False by auto
      have b: "base \<le> ?d2" using 2(4) by simp
      show ?thesis
      proof (cases z)
        case True
        then show ?thesis using 2(1) [OF refl run_def c refl refl refl refl] w b
          unfolding z_def by (simp only: if_True simp_thms)
      next
        case nz: False
        then show ?thesis using 2(2) [OF refl run_def c refl refl refl refl] w b
          unfolding z_def by (simp only: if_False simp_thms add_0_right)
      qed
    qed
    show ?thesis using IH unfolding loop lst rest out
      by (cases "cobs_list (mem_slice mem (s + 1 + run) (n - run))") (auto simp: add.assoc)
  qed
qed (simp add: mem_slice_def)

lemma syn_cobs_decode_list:
  assumes "dst \<le> src \<or> src + n \<le> dst" "syn_cobs_decode mem src n dst = (len, mem')"
  shows "mem_slice mem' dst len = (case cobs_list (mem_slice mem src n) of None \<Rightarrow> [] | Some r \<Rightarrow> r)"
proof (cases "n = 0")
  case True
  then show ?thesis using assms(2) by (simp add: syn_cobs_decode_def mem_slice_def)
next
  case False
  have "case cobs_list (mem_slice mem src n) of
      None \<Rightarrow> snd (cobs_dec_loop mem src n dst) = None
    | Some r \<Rightarrow> snd (cobs_dec_loop mem src n dst) = Some (dst + length r)
        \<and> mem_slice (fst (cobs_dec_loop mem src n dst)) dst (dst + length r - dst) = mem_slice mem dst (dst - dst) @ r"
    by (rule cobs_dec_loop_list [OF assms(1)]) simp
  then show ?thesis using assms(2) False
    by (auto simp: syn_cobs_decode_def mem_slice_def split: prod.splits option.splits)
qed

text \<open>
  The decoder recovers the packet in memory: if the encoding of a non-empty packet lies at \<open>src\<close>, then
  decoding it, to a buffer that lies at or before it (in particular in place) or past its end,
  returns the packet's length and leaves the packet at \<open>dst\<close>.
\<close>

theorem cobs_decode_in_memory:
  assumes "pkt \<noteq> []" "n = length (syn_cobs_encode pkt)" "mem_slice mem src n = syn_cobs_encode pkt"
    "dst \<le> src \<or> src + n \<le> dst" "syn_cobs_decode mem src n dst = (len, mem')"
  shows "len = length pkt \<and> mem_slice mem' dst len = pkt"
proof -
  have "mem_slice mem' dst len = pkt"
    using syn_cobs_decode_list [OF assms(4,5)] cobs_list_runs [of "[]" pkt] assms(3)
    by (simp add: syn_cobs_encode_runs [OF assms(1)])
  then show ?thesis by (metis length_mem_slice)
qed

theorem cobs_decode_in_memory_witness:
  "fst (syn_cobs_decode (mem_of (syn_cobs_encode [1, 0, 2])) 0 4 0) = 3"
proof -
  have e: "syn_cobs_encode [1, 0, 2] = [2, 1, 2, 2]"
    by (simp add: syn_cobs_encode_def cobs_enc_byte_def cobs_close_run_def Let_def)
  have "mem_slice (mem_of [2, 1, 2, 2]) 0 4 = [2, 1, 2, 2]"
    by (simp add: mem_slice_def mem_of_def upt_rec)
  then show ?thesis
    using cobs_decode_in_memory [of "[1, 0, 2]" 4 "mem_of [2, 1, 2, 2]" 0 0, OF _ _ _ _ surjective_pairing]
    by (simp add: e)
qed

subsection \<open>The streaming decoder\<close>

definition dec_ok :: "nat \<Rightarrow> cobs_decoder \<Rightarrow> bool" where
  "dec_ok sz dec \<longleftrightarrow> length (cd_buf dec) = sz \<and> cd_buf_size dec = sz \<and> cd_idx dec \<le> sz \<and> cd_cb dec"

abbreviation dec_clean :: "cobs_decoder \<Rightarrow> bool" where
  "dec_clean dec \<equiv> cd_idx dec = 0 \<and> \<not> cd_overflow dec"

lemma cobs_feed_all_append:
  "cobs_feed_all dec (xs @ ys) =
     (case cobs_feed_all dec xs of (ps, dec1) \<Rightarrow> case cobs_feed_all dec1 ys of (qs, dec2) \<Rightarrow> (ps @ qs, dec2))"
  by (induction xs arbitrary: dec) (auto split: prod.splits option.splits)

lemma feed_ok: "dec_ok sz dec \<Longrightarrow> dec_ok sz (snd (syn_cobs_decoder_feed dec b))"
  by (auto simp: dec_ok_def syn_cobs_decoder_feed_def Let_def split: prod.splits)

lemma feed_all_ok: "dec_ok sz dec \<Longrightarrow> dec_ok sz (snd (cobs_feed_all dec bs))"
proof (induction bs arbitrary: dec)
  case (Cons b bs)
  obtain p d1 where f: "syn_cobs_decoder_feed dec b = (p, d1)" by fastforce
  have "dec_ok sz (snd (cobs_feed_all d1 bs))" using Cons.IH [of d1] feed_ok [OF Cons.prems, of b] f by simp
  then show ?case by (auto simp: f split: prod.splits)
qed simp

lemma feed_zero_clean: "dec_clean (snd (syn_cobs_decoder_feed dec 0))"
  by (simp add: syn_cobs_decoder_feed_def Let_def split: prod.split)

lemma feed_zero_cleanD: "syn_cobs_decoder_feed dec 0 = (p, d) \<Longrightarrow> dec_clean d"
  by (metis feed_zero_clean snd_conv)

text \<open>Non-zero bytes accumulate until they no longer fit; then the whole frame is discarded.\<close>

lemma feed_overflow:
  "0 \<notin> set bs \<Longrightarrow> cd_overflow dec \<Longrightarrow> cobs_feed_all dec bs = ([], dec)"
  by (induction bs) (auto simp: syn_cobs_decoder_feed_def)

lemma feed_nonzero:
  assumes "dec_ok sz dec" "\<not> cd_overflow dec" "0 \<notin> set bs"
  shows "\<exists>dec'. cobs_feed_all dec bs = ([], dec') \<and>
    (if cd_idx dec + length bs \<le> sz
     then \<not> cd_overflow dec' \<and> cd_idx dec' = cd_idx dec + length bs
       \<and> take (cd_idx dec') (cd_buf dec') = take (cd_idx dec) (cd_buf dec) @ bs
     else cd_overflow dec')"
  using assms
proof (induction bs arbitrary: dec)
  case (Cons b bs)
  show ?case
  proof (cases "cd_idx dec < sz")
    case True
    let ?d = "dec\<lparr>cd_buf := (cd_buf dec)[cd_idx dec := b], cd_idx := cd_idx dec + 1\<rparr>"
    have feed: "syn_cobs_decoder_feed dec b = (None, ?d)"
      using True Cons.prems by (auto simp: syn_cobs_decoder_feed_def dec_ok_def)
    have "dec_ok sz ?d" "\<not> cd_overflow ?d" using True Cons.prems(1,2) by (simp_all add: dec_ok_def)
    from Cons.IH [OF this] Cons.prems(3) obtain d' where
      "cobs_feed_all ?d bs = ([], d')" "if cd_idx ?d + length bs \<le> sz
         then \<not> cd_overflow d' \<and> cd_idx d' = cd_idx ?d + length bs
           \<and> take (cd_idx d') (cd_buf d') = take (cd_idx ?d) (cd_buf ?d) @ bs else cd_overflow d'" by auto
    moreover have "take (cd_idx ?d) (cd_buf ?d) = take (cd_idx dec) (cd_buf dec) @ [b]"
      using True Cons.prems(1) by (simp add: dec_ok_def take_Suc_conv_app_nth)
    ultimately show ?thesis using feed by (intro exI [of _ d']) (auto split: if_splits)
  next
    case False
    then have idx: "cd_idx dec = sz" using Cons.prems(1) by (simp add: dec_ok_def)
    let ?d = "dec\<lparr>cd_overflow := True, cd_idx := 0\<rparr>"
    have "syn_cobs_decoder_feed dec b = (None, ?d)"
      using idx Cons.prems by (auto simp: syn_cobs_decoder_feed_def dec_ok_def)
    then show ?thesis using idx Cons.prems(3) feed_overflow [of bs ?d] by auto
  qed
qed (simp add: dec_ok_def)

lemma feed_delimiter:
  assumes "dec_ok sz dec" "pkt \<noteq> []"
    "if cd_overflow dec then r = [] else r = [pkt] \<and> cd_idx dec = length (syn_cobs_encode pkt)
       \<and> take (cd_idx dec) (cd_buf dec) = syn_cobs_encode pkt"
  shows "fst (cobs_feed_all dec [0]) = r"
proof (cases "cd_overflow dec")
  case True
  then show ?thesis using assms(3) by (simp add: syn_cobs_decoder_feed_def)
next
  case False
  let ?n = "cd_idx dec"
  have n: "?n = length (syn_cobs_encode pkt)" "take ?n (cd_buf dec) = syn_cobs_encode pkt" using assms(3) False by auto
  then have "0 < ?n" by (simp add: syn_cobs_encode_runs [OF assms(2)])
  have len: "?n \<le> length (cd_buf dec)" using assms(1) by (simp add: dec_ok_def)
  obtain dl mem' where d: "syn_cobs_decode (mem_of (cd_buf dec)) 0 ?n 0 = (dl, mem')" by fastforce
  have "mem_slice (mem_of (cd_buf dec)) 0 ?n = take ?n (cd_buf dec)"
    using len by (intro nth_equalityI) (simp_all add: nth_mem_slice mem_of_def)
  then have "mem_slice mem' 0 dl = pkt"
    using syn_cobs_decode_list [OF _ d] n(2) cobs_list_runs [of "[]" pkt] by (simp add: syn_cobs_encode_runs [OF assms(2)])
  then have "map mem' [0..<dl] = pkt" "0 < dl" using assms(2) by (auto simp: mem_slice_def)
  then show ?thesis using False \<open>0 < ?n\<close> assms(1,3) d
    by (simp add: syn_cobs_decoder_feed_def dec_ok_def)
qed

lemma feed_frame:
  assumes "dec_ok sz dec" "dec_clean dec" "pkt \<noteq> []"
  shows "fst (cobs_feed_all dec (syn_cobs_encode pkt @ [0])) = (if length (syn_cobs_encode pkt) \<le> sz then [pkt] else [])
    \<and> dec_clean (snd (cobs_feed_all dec (syn_cobs_encode pkt @ [0])))"
proof -
  let ?e = "syn_cobs_encode pkt"
  have "0 \<notin> set ?e" using cobs_runs_no_zero [of "[]" pkt] by (simp add: syn_cobs_encode_runs [OF assms(3)])
  from feed_nonzero [OF assms(1) _ this] assms(2)
  have
    "\<exists>d1. cobs_feed_all dec ?e = ([], d1) \<and>
      (if length ?e \<le> sz then \<not> cd_overflow d1 \<and> cd_idx d1 = length ?e \<and> take (cd_idx d1) (cd_buf d1) = ?e
       else cd_overflow d1)" by (metis (no_types, lifting) add_0 append_Nil take_0)
  then obtain d1 where d1: "cobs_feed_all dec ?e = ([], d1)"
    "if length ?e \<le> sz then \<not> cd_overflow d1 \<and> cd_idx d1 = length ?e \<and> take (cd_idx d1) (cd_buf d1) = ?e
     else cd_overflow d1" by blast
  have ok: "dec_ok sz d1" using feed_all_ok [OF assms(1), of ?e] d1(1) by simp
  have "fst (cobs_feed_all d1 [0]) = (if length ?e \<le> sz then [pkt] else [])"
    using d1(2) by (intro feed_delimiter [OF ok assms(3)]) (auto split: if_splits)
  moreover have "dec_clean (snd (cobs_feed_all d1 [0]))"
    by (auto dest: feed_zero_cleanD split: prod.splits)
  ultimately show ?thesis by (simp add: cobs_feed_all_append d1(1) split: prod.splits)
qed

definition cobs_frames :: "u8 list list \<Rightarrow> u8 list" where
  "cobs_frames pkts = concat (map (\<lambda>p. syn_cobs_encode p @ [0]) pkts)"

text \<open>
  C19: The streaming decoder resynchronises at every delimiter. From any state of a decoder whose buffer
  has its declared size, after any bytes and one delimiter, a stream of framed non-empty packets
  is delivered exactly: every packet whose encoding fits the buffer, once, in order, unchanged;
  a packet that does not fit is dropped whole and does not disturb the next.
\<close>

theorem cobs_stream_delivers:
  assumes "dec_ok sz dec" "\<forall>p\<in>set pkts. p \<noteq> []"
  shows "fst (cobs_feed_all dec (junk @ [0] @ cobs_frames pkts)) =
    fst (cobs_feed_all dec (junk @ [0])) @ filter (\<lambda>p. length (syn_cobs_encode p) \<le> sz) pkts"
proof -
  have frames: "fst (cobs_feed_all d (cobs_frames pkts)) = filter (\<lambda>p. length (syn_cobs_encode p) \<le> sz) pkts"
    if "dec_ok sz d" "dec_clean d" for d
    using that assms(2)
  proof (induction pkts arbitrary: d)
    case (Cons p pkts)
    let ?f = "syn_cobs_encode p @ [0]"
    have p: "p \<noteq> []" using Cons.prems(3) by simp
    obtain ps d1 where f: "cobs_feed_all d ?f = (ps, d1)" by fastforce
    have "fst (cobs_feed_all d1 (cobs_frames pkts)) = filter (\<lambda>p. length (syn_cobs_encode p) \<le> sz) pkts"
      using feed_frame [OF Cons.prems(1,2) p] feed_all_ok [OF Cons.prems(1), of ?f] f Cons.prems(3)
      by (intro Cons.IH) auto
    moreover have "cobs_frames (p # pkts) = ?f @ cobs_frames pkts" by (simp add: cobs_frames_def)
    ultimately show ?case
      using feed_frame [OF Cons.prems(1,2) p] f
      by (auto simp: cobs_feed_all_append [of d ?f] simp del: append_assoc split: prod.split)
  qed (simp add: cobs_frames_def)
  obtain ps d1 where j: "cobs_feed_all dec (junk @ [0]) = (ps, d1)" by fastforce
  have "dec_clean d1" using j by (auto simp: cobs_feed_all_append dest: feed_zero_cleanD split: prod.splits)
  moreover have "dec_ok sz d1" using feed_all_ok [OF assms(1), of "junk @ [0]"] j by simp
  ultimately show ?thesis
    using frames [of d1] cobs_feed_all_append [of dec "junk @ [0]" "cobs_frames pkts"] j by (simp split: prod.splits)
qed

definition demo_decoder :: cobs_decoder where
  "demo_decoder = \<lparr>cd_buf = [9, 9, 9, 9], cd_buf_size = 4, cd_idx = 2, cd_overflow = True, cd_cb = True\<rparr>"

theorem cobs_stream_delivers_witness:
  "fst (cobs_feed_all demo_decoder ([5] @ [0] @ cobs_frames [[1, 0, 2], [1, 2, 3, 4], [7]])) = [[1, 0, 2], [7]]"
proof -
  have "dec_ok 4 demo_decoder" by (simp add: dec_ok_def demo_decoder_def)
  moreover have "fst (cobs_feed_all demo_decoder ([5] @ [0])) = []"
    by (simp add: demo_decoder_def syn_cobs_decoder_feed_def)
  ultimately show ?thesis using cobs_stream_delivers [of 4 demo_decoder "[[1, 0, 2], [1, 2, 3, 4], [7]]" "[5]"]
    by (simp add: syn_cobs_encode_def cobs_enc_byte_def cobs_close_run_def Let_def)
qed

end
