(* ===== verification/Syn_Base64.thy ===== *)
theory Syn_Base64
  imports Syn_Prelude
begin

text \<open>
  The Base64 and Base64URL codecs of \<^verbatim>\<open>util/syn_base64.c\<close>. Characters are their 8-bit codes; sizes are
  32-bit \<^verbatim>\<open>size_t\<close> values with their wrap-around written out. An encoder returns what it wrote to
  \<^verbatim>\<open>dst\<close>, terminator included, and \<^verbatim>\<open>*out_len\<close>; the decoder returns the bytes it wrote.
  \<open>None\<close> is the result \<^verbatim>\<open>false\<close>.
\<close>

definition B64_STD_TABLE :: "u8 list" where
  "B64_STD_TABLE = map of_char ''ABCDEFGHIJKLMNOPQRSTUVWXYZabcdefghijklmnopqrstuvwxyz0123456789+/''"

definition B64_URL_TABLE :: "u8 list" where
  "B64_URL_TABLE = map of_char ''ABCDEFGHIJKLMNOPQRSTUVWXYZabcdefghijklmnopqrstuvwxyz0123456789-_''"

definition B64_VAL_INVALID :: u8 where "B64_VAL_INVALID = 0xFF"
definition B64_VAL_PAD :: u8 where "B64_VAL_PAD = 0xFE"
definition B64_VAL_WS :: u8 where "B64_VAL_WS = 0xFD"

abbreviation chr :: "char \<Rightarrow> u8" where "chr \<equiv> of_char"

definition decode_char :: "u8 \<Rightarrow> bool \<Rightarrow> u8" where
  "decode_char c url_mode =
     (if chr CHR ''A'' \<le> c \<and> c \<le> chr CHR ''Z'' then c - chr CHR ''A''
      else if chr CHR ''a'' \<le> c \<and> c \<le> chr CHR ''z'' then c - chr CHR ''a'' + 26
      else if chr CHR ''0'' \<le> c \<and> c \<le> chr CHR ''9'' then c - chr CHR ''0'' + 52
      else if c = chr CHR ''+'' \<and> \<not> url_mode then 62
      else if c = chr CHR ''-'' \<and> url_mode then 62
      else if c = chr CHR ''/'' \<and> \<not> url_mode then 63
      else if c = chr CHR ''_'' \<and> url_mode then 63
      else if c = chr CHR ''='' then B64_VAL_PAD
      else if c = chr CHR '' '' \<or> c = 9 \<or> c = 13 \<or> c = 10 then B64_VAL_WS
      else B64_VAL_INVALID)"

definition syn_base64_calc_encoded_size :: "nat \<Rightarrow> nat" where
  "syn_base64_calc_encoded_size raw_len = (((raw_len + 2) mod 2 ^ 32 div 3 * 4) mod 2 ^ 32 + 1) mod 2 ^ 32"

definition syn_base64_calc_max_decoded_size :: "nat \<Rightarrow> nat" where
  "syn_base64_calc_max_decoded_size b64_len = ((b64_len + 3) mod 2 ^ 32 div 4 * 3) mod 2 ^ 32"

text \<open>The table lookup \<^verbatim>\<open>T[(triple >> k) & 0x3F]\<close>.\<close>

definition b64_sym :: "u8 list \<Rightarrow> u32 \<Rightarrow> nat \<Rightarrow> u8" where
  "b64_sym tbl triple k = tbl ! unat (drop_bit k triple AND 0x3F)"

text \<open>The loop over whole triples and the remainder of one or two bytes.\<close>

fun b64_chars :: "u8 list \<Rightarrow> bool \<Rightarrow> u8 list \<Rightarrow> u8 list" where
  "b64_chars tbl with_padding (a # b # c # src) =
     (let triple = push_bit 16 (ucast a) OR push_bit 8 (ucast b) OR ucast c
      in [b64_sym tbl triple 18, b64_sym tbl triple 12, b64_sym tbl triple 6, b64_sym tbl triple 0]
         @ b64_chars tbl with_padding src)"
| "b64_chars tbl with_padding [a, b] =
     (let triple = push_bit 16 (ucast a) OR push_bit 8 (ucast b)
      in [b64_sym tbl triple 18, b64_sym tbl triple 12, b64_sym tbl triple 6]
         @ (if with_padding then [chr CHR ''=''] else []))"
| "b64_chars tbl with_padding [a] =
     (let triple = push_bit 16 (ucast a)
      in [b64_sym tbl triple 18, b64_sym tbl triple 12]
         @ (if with_padding then [chr CHR ''='', chr CHR ''=''] else []))"
| "b64_chars tbl with_padding [] = []"

definition syn_base64_encode :: "u8 list \<Rightarrow> nat \<Rightarrow> (u8 list \<times> nat) option" where
  "syn_base64_encode src dst_size =
     (if dst_size < syn_base64_calc_encoded_size (length src) then None
      else let out = b64_chars B64_STD_TABLE True src in Some (out @ [0], length out))"

definition syn_base64url_encode :: "u8 list \<Rightarrow> nat \<Rightarrow> bool \<Rightarrow> (u8 list \<times> nat) option" where
  "syn_base64url_encode src dst_size with_padding =
     (let req_len = (if with_padding then syn_base64_calc_encoded_size (length src)
                     else (((length src * 4) mod 2 ^ 32 + 2) mod 2 ^ 32 div 3 + 1) mod 2 ^ 32)
      in if dst_size < req_len then None
         else let out = b64_chars B64_URL_TABLE with_padding src in Some (out @ [0], length out))"

text \<open>The decoder's loop: \<^verbatim>\<open>block\<close>, \<^verbatim>\<open>bits\<close>, the bytes written so far, \<^verbatim>\<open>pad_seen\<close>.\<close>

fun b64_dec_loop :: "bool \<Rightarrow> nat \<Rightarrow> u32 \<Rightarrow> nat \<Rightarrow> u8 list \<Rightarrow> bool \<Rightarrow> u8 list \<Rightarrow> u8 list option" where
  "b64_dec_loop url_mode dst_size block bits out pad_seen [] = Some out"
| "b64_dec_loop url_mode dst_size block bits out pad_seen (c # src) =
     (let val = decode_char c url_mode
      in if val = B64_VAL_WS then b64_dec_loop url_mode dst_size block bits out pad_seen src
         else if val = B64_VAL_INVALID then None
         else if val = B64_VAL_PAD then b64_dec_loop url_mode dst_size block bits out True src
         else if pad_seen then None
         else
           let block1 = push_bit 6 block OR ucast val; bits1 = bits + 6
           in if bits1 \<ge> 8
              then let bits2 = bits1 - 8
                   in if length out \<ge> dst_size then None
                      else b64_dec_loop url_mode dst_size block1 bits2
                             (out @ [ucast (drop_bit bits2 block1 AND 0xFF)]) pad_seen src
              else b64_dec_loop url_mode dst_size block1 bits1 out pad_seen src)"

text \<open>\<^verbatim>\<open>src\<close> is the memory from the pointer on: with \<^verbatim>\<open>src_len\<close> zero its length is that of the C string.\<close>

definition base64_decode_internal :: "u8 list \<Rightarrow> nat \<Rightarrow> nat \<Rightarrow> bool \<Rightarrow> u8 list option" where
  "base64_decode_internal src src_len dst_size url_mode =
     (let n = (if src_len = 0 then length (takeWhile (\<lambda>c. c \<noteq> 0) src) else src_len)
      in b64_dec_loop url_mode dst_size 0 0 [] False (take n src))"

definition syn_base64_decode :: "u8 list \<Rightarrow> nat \<Rightarrow> nat \<Rightarrow> u8 list option" where
  "syn_base64_decode src src_len dst_size = base64_decode_internal src src_len dst_size False"

definition syn_base64url_decode :: "u8 list \<Rightarrow> nat \<Rightarrow> nat \<Rightarrow> u8 list option" where
  "syn_base64url_decode src src_len dst_size = base64_decode_internal src src_len dst_size True"

subsection \<open>Symbols\<close>

definition b64_table :: "bool \<Rightarrow> u8 list" where
  "b64_table url = (if url then B64_URL_TABLE else B64_STD_TABLE)"

lemma std_table_vals:
  "map (\<lambda>c. decode_char c False) B64_STD_TABLE = map of_nat [0..<64]" "0 \<notin> set B64_STD_TABLE" "length B64_STD_TABLE = 64"
  by (simp_all add: B64_STD_TABLE_def decode_char_def upt_rec)

lemma url_table_vals:
  "map (\<lambda>c. decode_char c True) B64_URL_TABLE = map of_nat [0..<64]" "0 \<notin> set B64_URL_TABLE" "length B64_URL_TABLE = 64"
  by (simp_all add: B64_URL_TABLE_def decode_char_def upt_rec)

lemma decode_sym:
  assumes "v < 64"
  shows "decode_char (b64_table url ! v) url = of_nat v" "b64_table url ! v \<noteq> 0"
proof -
  have l: "length (b64_table url) = 64" "0 \<notin> set (b64_table url)"
    "map (\<lambda>c. decode_char c url) (b64_table url) = map of_nat [0..<64]"
    using std_table_vals url_table_vals by (simp_all add: b64_table_def)
  show "decode_char (b64_table url ! v) url = of_nat v"
    using arg_cong [OF l(3), of "\<lambda>xs. xs ! v"] assms l(1) by simp
  show "b64_table url ! v \<noteq> 0" using assms l(1,2) by (metis nth_mem)
qed

lemma decode_pad [simp]: "decode_char 61 url = B64_VAL_PAD"
  by (simp add: decode_char_def)


subsection \<open>Round trip\<close>

lemma and_3F: "(w :: u32) AND 0x3F = take_bit 6 w"
  by (simp add: take_bit_eq_mask mask_eq_exp_minus_1)

lemma decode_b64_sym:
  "decode_char (b64_sym (b64_table url) t k) url = ucast (take_bit 6 (drop_bit k t))"
  "b64_sym (b64_table url) t k \<noteq> 0"
proof -
  have "unat (take_bit 6 (drop_bit k t)) < 64" by (simp add: unsigned_take_bit_eq take_bit_nat_def)
  note d = decode_sym [OF this, of url]
  show "decode_char (b64_sym (b64_table url) t k) url = ucast (take_bit 6 (drop_bit k t))"
    using d(1) by (simp add: b64_sym_def and_3F)
  show "b64_sym (b64_table url) t k \<noteq> 0" using d(2) by (simp add: b64_sym_def and_3F)
qed

lemma ucast_take_6: "ucast (ucast (take_bit 6 (w :: u32)) :: u8) = take_bit 6 w"
  by (rule bit_word_eqI) (auto simp: bit_simps)

lemma ucast_take_6_small: "(ucast (take_bit 6 (w :: u32)) :: u8) < 64"
proof -
  have "unat (ucast (take_bit 6 w) :: u8) < 64"
    by (simp add: unsigned_ucast_eq unsigned_take_bit_eq take_bit_nat_def min_def)
  then show ?thesis by (simp add: word_less_nat_alt)
qed

text \<open>The accumulator shifts in six bits of the triple; eight bits of it are the original byte.\<close>

definition acc6 :: "u32 \<Rightarrow> u32 \<Rightarrow> nat \<Rightarrow> u32" where
  "acc6 block t k = push_bit 6 block OR take_bit 6 (drop_bit k t)"

lemma bit_acc6: "m < 32 \<Longrightarrow> bit (acc6 block t k) m \<longleftrightarrow> (if m < 6 then bit t (k + m) else bit block (m - 6))"
  by (auto simp: acc6_def bit_simps)

lemma loop_sym:
  "b64_dec_loop url n block bits out False (b64_sym (b64_table url) t k # src) =
     (if 2 \<le> bits then if n \<le> length out then None
        else b64_dec_loop url n (acc6 block t k) (bits - 2)
               (out @ [ucast (take_bit 8 (drop_bit (bits - 2) (acc6 block t k)))]) False src
      else b64_dec_loop url n (acc6 block t k) (bits + 6) out False src)"
proof -
  have "(ucast (take_bit 6 (drop_bit k t)) :: u8) \<noteq> B64_VAL_WS \<and> (ucast (take_bit 6 (drop_bit k t)) :: u8) \<noteq> B64_VAL_PAD
      \<and> (ucast (take_bit 6 (drop_bit k t)) :: u8) \<noteq> B64_VAL_INVALID"
    using ucast_take_6_small [of "drop_bit k t"] by (auto simp: B64_VAL_WS_def B64_VAL_PAD_def B64_VAL_INVALID_def)
  then show ?thesis
    by (simp add: decode_b64_sym ucast_take_6 and_FF Let_def acc6_def)
qed


lemma acc6_byte: "(ucast (take_bit 8 (drop_bit s (acc6 (acc6 block t (k + 6)) t k))) :: u8) = ucast (drop_bit (k + s) t)"
  if "s \<le> 4"
proof (rule bit_word_eqI)
  fix n assume n: "n < LENGTH(8)"
  have "bit (acc6 (acc6 block t (k + 6)) t k) (s + n) \<longleftrightarrow> bit t (k + s + n)"
    using n that by (auto simp: bit_acc6 add.commute add.left_commute)
  then show "bit (ucast (take_bit 8 (drop_bit s (acc6 (acc6 block t (k + 6)) t k))) :: u8) n = bit (ucast (drop_bit (k + s) t) :: u8) n"
    using n by (simp add: bit_simps)
qed

lemma triple_bytes:
  fixes a b c :: u8
  defines "t \<equiv> push_bit 16 (ucast a) OR push_bit 8 (ucast b) OR ucast c :: u32"
  shows "ucast (drop_bit 16 t) = a" "ucast (drop_bit 8 t) = b" "ucast t = c"
proof -
  have nb: "\<not> bit w (8 + n)" "\<not> bit w (16 + n)" for w :: u8 and n by (auto dest: bit_imp_le_length)
  show "ucast (drop_bit 16 t) = a" "ucast (drop_bit 8 t) = b" "ucast t = c"
    by (auto simp: t_def bit_simps nb intro!: bit_word_eqI)
qed

lemma loop_pad: "b64_dec_loop url n block bits out p (chr CHR ''='' # src) = b64_dec_loop url n block bits out True src"
  by (simp add: B64_VAL_WS_def B64_VAL_PAD_def B64_VAL_INVALID_def)


declare b64_dec_loop.simps(2) [simp del]

lemma dec_loop_chars:
  "length out + length src \<le> n \<Longrightarrow>
    b64_dec_loop url n block 0 out False (b64_chars (b64_table url) p src) = Some (out @ src)"
proof (induction "b64_table url" p src arbitrary: block out rule: b64_chars.induct)
  case (1 p a b c src)
  let ?t = "push_bit 16 (ucast a) OR push_bit 8 (ucast b) OR ucast c :: u32"
  note T = triple_bytes [of a b c]
  have "b64_dec_loop url n block 0 out False (b64_chars (b64_table url) p (a # b # c # src)) =
      b64_dec_loop url n (acc6 (acc6 (acc6 (acc6 block ?t 18) ?t 12) ?t 6) ?t 0) 0 (out @ [a, b, c]) False (b64_chars (b64_table url) p src)"
    using 1(2) acc6_byte [of 4 block ?t 12] acc6_byte [of 2 "acc6 block ?t 18" ?t 6]
      acc6_byte [of 0 "acc6 (acc6 block ?t 18) ?t 12" ?t 0] T
    by (simp add: Let_def loop_sym)
  also have "\<dots> = Some ((out @ [a, b, c]) @ src)" by (rule 1(1)) (use 1(2) in \<open>simp_all\<close>)
  finally show ?case by simp
next
  case (2 p a b)
  let ?t = "push_bit 16 (ucast a) OR push_bit 8 (ucast b) OR ucast (0 :: u8) :: u32"
  show ?case
    using 2 acc6_byte [of 4 block ?t 12] acc6_byte [of 2 "acc6 block ?t 18" ?t 6] triple_bytes [of a b 0]
    by (simp add: Let_def loop_sym loop_pad [simplified])
next
  case (3 p a)
  let ?t = "push_bit 16 (ucast a) OR push_bit 8 (ucast (0 :: u8)) OR ucast (0 :: u8) :: u32"
  show ?case
    using 3 acc6_byte [of 4 block ?t 12] triple_bytes [of a 0 0]
    by (simp add: Let_def loop_sym loop_pad [simplified])
next
  case (4 p)
  then show ?case by simp
qed


lemma length_b64_chars: "length (b64_chars tbl p src) = (if p then (length src + 2) div 3 * 4 else (length src * 4 + 2) div 3)"
proof (induction tbl p src rule: b64_chars.induct)
  case (1 tbl p a b c src)
  have "(length (a # b # c # src) + 2) div 3 = (length src + 2) div 3 + 1"
    "(length (a # b # c # src) * 4 + 2) div 3 = (length src * 4 + 2) div 3 + 4" by simp_all
  then show ?case using 1 [OF refl] by (simp only: b64_chars.simps Let_def length_append if_split) simp
qed (simp_all add: Let_def)

lemma b64_chars_no_nul: "0 \<notin> set (b64_chars (b64_table url) p src)"
  by (induction "b64_table url" p src rule: b64_chars.induct) (auto simp: Let_def decode_b64_sym(2) [symmetric])

text \<open>White space is skipped wherever it stands.\<close>

definition b64_ws :: "u8 \<Rightarrow> bool" where
  "b64_ws c \<longleftrightarrow> c = 32 \<or> c = 9 \<or> c = 13 \<or> c = 10"

lemma vals_distinct [simp]:
  "B64_VAL_WS \<noteq> B64_VAL_INVALID" "B64_VAL_WS \<noteq> B64_VAL_PAD" "B64_VAL_INVALID \<noteq> B64_VAL_PAD"
  "B64_VAL_INVALID \<noteq> B64_VAL_WS" "B64_VAL_PAD \<noteq> B64_VAL_WS" "B64_VAL_PAD \<noteq> B64_VAL_INVALID"
  by (simp_all add: B64_VAL_WS_def B64_VAL_PAD_def B64_VAL_INVALID_def)

definition b64_data :: "bool \<Rightarrow> u8 \<Rightarrow> bool" where
  "b64_data url c \<longleftrightarrow> decode_char c url \<noteq> B64_VAL_WS \<and> decode_char c url \<noteq> B64_VAL_INVALID \<and> decode_char c url \<noteq> B64_VAL_PAD"

lemma loop_class:
  "decode_char c url = B64_VAL_WS \<Longrightarrow> b64_dec_loop url n block bits out p (c # src) = b64_dec_loop url n block bits out p src"
  "decode_char c url = B64_VAL_INVALID \<Longrightarrow> b64_dec_loop url n block bits out p (c # src) = None"
  "decode_char c url = B64_VAL_PAD \<Longrightarrow> b64_dec_loop url n block bits out p (c # src) = b64_dec_loop url n block bits out True src"
  "b64_data url c \<Longrightarrow> b64_dec_loop url n block bits out True (c # src) = None"
  by (simp_all add: b64_dec_loop.simps(2) b64_data_def)

lemma loop_data:
  fixes url c block
  defines "block1 \<equiv> push_bit 6 block OR ucast (decode_char c url)"
  assumes "b64_data url c"
  shows "b64_dec_loop url n block bits out False (c # src) =
    (if 2 \<le> bits then if n \<le> length out then None
       else b64_dec_loop url n block1 (bits - 2) (out @ [ucast (drop_bit (bits - 2) block1 AND 0xFF)]) False src
     else b64_dec_loop url n block1 (bits + 6) out False src)"
  using assms by (simp add: b64_dec_loop.simps(2) b64_data_def Let_def)

lemma char_class_cases:
  obtains (ws) "decode_char c url = B64_VAL_WS" | (invalid) "decode_char c url = B64_VAL_INVALID"
    | (pad) "decode_char c url = B64_VAL_PAD" | (data) "b64_data url c"
  by (auto simp: b64_data_def)

lemma b64_ws_char: "b64_ws c \<Longrightarrow> decode_char c url = B64_VAL_WS"
  unfolding b64_ws_def by (elim disjE) (simp_all add: decode_char_def)

lemma dec_loop_filter:
  "b64_dec_loop url n block bits out p (filter (\<lambda>c. \<not> b64_ws c) src) = b64_dec_loop url n block bits out p src"
proof (induction src arbitrary: block bits out p)
  case (Cons c src)
  show ?case
  proof (cases "b64_ws c")
    case True
    then show ?thesis using Cons by (simp add: loop_class b64_ws_char)
  next
    case False
    then show ?thesis by (simp only: filter.simps if_True simp_thms b64_dec_loop.simps(2) Cons)
  qed
qed simp

text \<open>The strings the decoder takes: no invalid character, and after a padding character no data.\<close>

fun b64_wf :: "bool \<Rightarrow> bool \<Rightarrow> u8 list \<Rightarrow> bool" where
  "b64_wf url pad_seen [] \<longleftrightarrow> True"
| "b64_wf url pad_seen (c # src) \<longleftrightarrow>
     decode_char c url \<noteq> B64_VAL_INVALID \<and> \<not> (pad_seen \<and> b64_data url c)
     \<and> b64_wf url (pad_seen \<or> decode_char c url = B64_VAL_PAD) src"

definition b64_len :: "bool \<Rightarrow> u8 list \<Rightarrow> nat" where
  "b64_len url src = 6 * length (filter (b64_data url) src)"

lemma b64_len_Cons: "b64_len url (c # src) = (if b64_data url c then 6 else 0) + b64_len url src"
  by (simp add: b64_len_def)

lemma wf_pad_len: "b64_wf url True src \<Longrightarrow> b64_len url src = 0"
  by (induction src) (auto simp: b64_len_def)

lemma dec_loop_accepts:
  "bits < 8 \<Longrightarrow> length out \<le> n \<Longrightarrow>
    (b64_dec_loop url n block bits out p src = None \<longleftrightarrow> \<not> (b64_wf url p src \<and> length out + (bits + b64_len url src) div 8 \<le> n))"
proof (induction src arbitrary: block bits out p)
  case Nil
  then show ?case by (simp add: b64_len_def)
next
  case (Cons c src)
  show ?case
  proof (cases rule: char_class_cases [of c url])
    case ws
    then show ?thesis using Cons.IH [OF Cons.prems] by (simp add: loop_class b64_len_Cons b64_data_def)
  next
    case invalid
    then show ?thesis by (simp add: loop_class)
  next
    case pad
    then show ?thesis using Cons.IH [OF Cons.prems] by (simp add: loop_class b64_len_Cons b64_data_def)
  next
    case data
    then have nd: "decode_char c url \<noteq> B64_VAL_PAD" "decode_char c url \<noteq> B64_VAL_INVALID" by (simp_all add: b64_data_def)
    show ?thesis
    proof (cases p)
      case True
      then show ?thesis using data by (simp add: loop_class)
    next
      case False
      let ?block1 = "push_bit 6 block OR ucast (decode_char c url)"
      note step = loop_data [OF data, of n block bits out src]
      show ?thesis
      proof (cases "2 \<le> bits")
        case True
        have "(bits + (6 + b64_len url src)) div 8 = Suc ((bits - 2 + b64_len url src) div 8)" using True by simp
        then show ?thesis using Cons.IH [of "bits - 2" "out @ [_]" ?block1 False] Cons.prems step True False data nd
          by (auto simp: b64_len_Cons)
      next
        case b: False
        then show ?thesis using Cons.IH [of "bits + 6" out ?block1 False] Cons.prems step False data nd
          by (simp add: b64_len_Cons add.assoc)
      qed
    qed
  qed
qed

lemma calc_size_nowrap:
  assumes "m < 2 ^ 30"
  shows "syn_base64_calc_encoded_size m = (m + 2) div 3 * 4 + 1" "(((m * 4) mod 2 ^ 32 + 2) mod 2 ^ 32 div 3 + 1) mod 2 ^ 32 = (m * 4 + 2) div 3 + 1"
proof -
  have b: "m + 2 < 2 ^ 32" "m * 4 + 2 < 2 ^ 32" "(m + 2) div 3 * 4 + 1 < 2 ^ 32" "(m * 4 + 2) div 3 + 1 < 2 ^ 32" using assms by simp_all
  then show "syn_base64_calc_encoded_size m = (m + 2) div 3 * 4 + 1"
    unfolding syn_base64_calc_encoded_size_def by simp
  show "(((m * 4) mod 2 ^ 32 + 2) mod 2 ^ 32 div 3 + 1) mod 2 ^ 32 = (m * 4 + 2) div 3 + 1" using b(2,4) by simp
qed

lemma decode_encoded:
  assumes "length src \<le> dec_size" "out = b64_chars (b64_table url) p src"
  shows "takeWhile (\<lambda>c. c \<noteq> 0) (out @ [0]) = out"
    "base64_decode_internal (out @ [0]) (length out) dec_size url = Some src"
    "base64_decode_internal (out @ [0]) 0 dec_size url = Some src"
    "filter (\<lambda>c. \<not> b64_ws c) ws_src = out \<Longrightarrow> base64_decode_internal ws_src (length ws_src) dec_size url = Some src"
proof -
  have loop: "b64_dec_loop url dec_size 0 0 [] False out = Some src"
    using dec_loop_chars [of "[]" src dec_size url 0 p] assms by simp
  have "\<forall>c\<in>set out. c \<noteq> 0" using b64_chars_no_nul assms(2) by metis
  then show tw: "takeWhile (\<lambda>c. c \<noteq> 0) (out @ [0]) = out" by (simp add: takeWhile_append)
  show "base64_decode_internal (out @ [0]) (length out) dec_size url = Some src"
    "base64_decode_internal (out @ [0]) 0 dec_size url = Some src"
    using loop tw by (simp_all add: base64_decode_internal_def Let_def)
  show "base64_decode_internal ws_src (length ws_src) dec_size url = Some src" if "filter (\<lambda>c. \<not> b64_ws c) ws_src = out"
    using loop dec_loop_filter [of url dec_size 0 0 "[]" False ws_src] that
    by (cases "ws_src = []") (simp_all add: base64_decode_internal_def)
qed

text \<open>
  C28: Base64 and Base64URL round trip. For any bytes (fewer than 2 to the 30) and a destination of the
  required size, encoding succeeds; what it writes fits the destination and is a C string of the
  reported length; decoding it, by its length or as a C string, gives the bytes back, and so does
  decoding any text that differs from it by white space only. For the URL variant this holds with
  and without padding.
\<close>

theorem base64_roundtrip:
  assumes "length src < 2 ^ 30" "length src \<le> dec_size" "(length src + 2) div 3 * 4 + 1 \<le> dst_size"
  shows "(\<exists>out. syn_base64_encode src dst_size = Some (out @ [0], length out) \<and> length (out @ [0]) \<le> dst_size
      \<and> takeWhile (\<lambda>c. c \<noteq> 0) (out @ [0]) = out
      \<and> syn_base64_decode (out @ [0]) (length out) dec_size = Some src \<and> syn_base64_decode (out @ [0]) 0 dec_size = Some src
      \<and> (filter (\<lambda>c. \<not> b64_ws c) ws_src = out \<longrightarrow> syn_base64_decode ws_src (length ws_src) dec_size = Some src))
    \<and> (\<exists>out. syn_base64url_encode src dst_size with_padding = Some (out @ [0], length out) \<and> length (out @ [0]) \<le> dst_size
      \<and> takeWhile (\<lambda>c. c \<noteq> 0) (out @ [0]) = out
      \<and> syn_base64url_decode (out @ [0]) (length out) dec_size = Some src \<and> syn_base64url_decode (out @ [0]) 0 dec_size = Some src
      \<and> (filter (\<lambda>c. \<not> b64_ws c) ws_src = out \<longrightarrow> syn_base64url_decode ws_src (length ws_src) dec_size = Some src))"
proof -
  note sz = calc_size_nowrap [OF assms(1)]
  let ?s = "b64_chars B64_STD_TABLE True src" and ?u = "b64_chars B64_URL_TABLE with_padding src"
  have "(length src * 4 + 2) div 3 \<le> (length src + 2) div 3 * 4" by simp
  then have le: "(length src * 4 + 2) div 3 + 1 \<le> dst_size" using assms(3) by linarith
  have u: "syn_base64url_encode src dst_size with_padding = Some (?u @ [0], length ?u)" "length ?u + 1 \<le> dst_size"
    using assms(3) le unfolding syn_base64url_encode_def sz length_b64_chars Let_def by (auto split: if_splits)
  have s: "syn_base64_encode src dst_size = Some (?s @ [0], length ?s)" "length ?s + 1 \<le> dst_size"
    using assms(3) sz by (simp_all add: syn_base64_encode_def length_b64_chars Let_def)
  have "?s = b64_chars (b64_table False) True src" "?u = b64_chars (b64_table True) with_padding src" by (simp_all add: b64_table_def)
  note d = decode_encoded [OF assms(2) this(1)] decode_encoded [OF assms(2) this(2)]
  have "\<exists>out. syn_base64_encode src dst_size = Some (out @ [0], length out) \<and> length (out @ [0]) \<le> dst_size
      \<and> takeWhile (\<lambda>c. c \<noteq> 0) (out @ [0]) = out
      \<and> syn_base64_decode (out @ [0]) (length out) dec_size = Some src \<and> syn_base64_decode (out @ [0]) 0 dec_size = Some src
      \<and> (filter (\<lambda>c. \<not> b64_ws c) ws_src = out \<longrightarrow> syn_base64_decode ws_src (length ws_src) dec_size = Some src)"
    using s d(1-4) unfolding syn_base64_decode_def by auto
  moreover have "\<exists>out. syn_base64url_encode src dst_size with_padding = Some (out @ [0], length out) \<and> length (out @ [0]) \<le> dst_size
      \<and> takeWhile (\<lambda>c. c \<noteq> 0) (out @ [0]) = out
      \<and> syn_base64url_decode (out @ [0]) (length out) dec_size = Some src \<and> syn_base64url_decode (out @ [0]) 0 dec_size = Some src
      \<and> (filter (\<lambda>c. \<not> b64_ws c) ws_src = out \<longrightarrow> syn_base64url_decode ws_src (length ws_src) dec_size = Some src)"
    using u d(5-8) unfolding syn_base64url_decode_def by auto
  ultimately show ?thesis by (rule conjI)
qed

theorem base64_roundtrip_witness:
  "syn_base64_decode (fst (the (syn_base64_encode [1, 0, 255, 7] 9))) 0 4 = Some [1, 0, 255, 7]"
  using base64_roundtrip [of "[1, 0, 255, 7]" 4 9 "[]" True] by auto


end
