(* ===== verification/Syn_Codec.thy ===== *)
theory Syn_Codec
  imports Syn_Prelude
begin

text \<open>
  Self-delimiting byte encodings, the contract shared by the wire formats of the development: an encoder
  to byte lists and a decoder of a prefix, related by a round trip on the admissible
  values. Sequences of encodings and unique decodability are derived here once.
\<close>

locale prefix_codec =
  fixes enc :: "'a \<Rightarrow> u8 list"
    and dec :: "u8 list \<Rightarrow> ('a \<times> u8 list) option"
    and ok :: "'a \<Rightarrow> bool"
  assumes dec_enc: "ok x \<Longrightarrow> dec (enc x @ r) = Some (x, r)"
begin

fun dec_n :: "nat \<Rightarrow> u8 list \<Rightarrow> ('a list \<times> u8 list) option" where
  "dec_n 0 bs = Some ([], bs)"
| "dec_n (Suc n) bs =
     (case dec bs of None \<Rightarrow> None
      | Some (x, r) \<Rightarrow> (case dec_n n r of None \<Rightarrow> None | Some (xs, r') \<Rightarrow> Some (x # xs, r')))"

lemma dec_n_enc: "\<forall>x\<in>set xs. ok x \<Longrightarrow> dec_n (length xs) (concat (map enc xs) @ r) = Some (xs, r)"
  by (induction xs) (simp_all add: dec_enc)

text \<open>No admissible encoding is a proper prefix of another.\<close>

lemma enc_prefix_free: "ok x \<Longrightarrow> ok y \<Longrightarrow> enc x @ r = enc y @ s \<Longrightarrow> x = y \<and> r = s"
  by (metis dec_enc option.inject prod.inject)

lemma enc_inj: "ok x \<Longrightarrow> ok y \<Longrightarrow> enc x = enc y \<Longrightarrow> x = y"
  by (metis enc_prefix_free append_Nil2)

end

end
