(* ===== verification/Syn_Protobuf.thy ===== *)
theory Syn_Protobuf
  imports Syn_Codec
begin

text \<open>
  The Protocol Buffers encoder and decoder of \<^verbatim>\<open>util/syn_protobuf.c\<close>. A cursor over a buffer is a record;
  a decoding operation returns an error status or the value (\<^verbatim>\<open>*value\<close> is only written on success),
  with the advanced cursor. \<^verbatim>\<open>size_t\<close> is 32 bits wide where a 64-bit length is converted to it.
\<close>

record pb_encoder =
  pe_buf :: "u8 list"
  pe_capacity :: nat
  pe_offset :: nat

record pb_decoder =
  pd_buf :: "u8 list"
  pd_size :: nat
  pd_offset :: nat

record pb_tag =
  tag_field_number :: u32
  tag_wire_type :: u8

definition SYN_PB_WIRE_VARINT :: u8 where "SYN_PB_WIRE_VARINT = 0"
definition SYN_PB_WIRE_FIXED64 :: u8 where "SYN_PB_WIRE_FIXED64 = 1"
definition SYN_PB_WIRE_LENGTH_DELIMITED :: u8 where "SYN_PB_WIRE_LENGTH_DELIMITED = 2"
definition SYN_PB_WIRE_FIXED32 :: u8 where "SYN_PB_WIRE_FIXED32 = 5"

subsection \<open>Encoder\<close>

definition syn_pb_encoder_init :: "pb_encoder \<Rightarrow> u8 list \<Rightarrow> nat \<Rightarrow> SYN_Status \<times> pb_encoder" where
  "syn_pb_encoder_init enc buf capacity =
     (if capacity = 0 then (SYN_INVALID_PARAM, enc)
      else (SYN_OK, \<lparr>pe_buf = buf, pe_capacity = capacity, pe_offset = 0\<rparr>))"

text \<open>\<^verbatim>\<open>enc->buf[enc->offset++] = b\<close>\<close>

definition pb_put :: "u8 \<Rightarrow> pb_encoder \<Rightarrow> pb_encoder" where
  "pb_put b enc = enc\<lparr>pe_buf := (pe_buf enc)[pe_offset enc := b], pe_offset := pe_offset enc + 1\<rparr>"

lemma drop_7_less: "0x80 \<le> (v :: u64) \<Longrightarrow> unat (drop_bit 7 v) < unat v"
proof -
  assume "0x80 \<le> v"
  then have "128 \<le> unat v" by (simp add: word_le_nat_alt)
  then show ?thesis by (simp add: drop_bit_eq_div unat_div)
qed

function syn_pb_encode_varint :: "pb_encoder \<Rightarrow> u64 \<Rightarrow> SYN_Status \<times> pb_encoder" where
  "syn_pb_encode_varint enc value =
     (if value \<ge> 0x80
      then if pe_offset enc \<ge> pe_capacity enc then (SYN_ERROR, enc)
           else syn_pb_encode_varint (pb_put (ucast ((value AND 0x7F) OR 0x80)) enc) (drop_bit 7 value)
      else if pe_offset enc \<ge> pe_capacity enc then (SYN_ERROR, enc)
      else (SYN_OK, pb_put (ucast (value AND 0x7F)) enc))"
  by auto
termination by (relation "measure (\<lambda>(enc, value). unat value)") (auto simp: drop_7_less)

declare syn_pb_encode_varint.simps [simp del]

definition syn_pb_encode_tag :: "pb_encoder \<Rightarrow> u32 \<Rightarrow> u8 \<Rightarrow> SYN_Status \<times> pb_encoder" where
  "syn_pb_encode_tag enc field_number wire_type =
     (if field_number = 0 then (SYN_INVALID_PARAM, enc)
      else
        let key = push_bit 3 field_number OR ucast (wire_type AND 0x07)
        in syn_pb_encode_varint enc (ucast key))"

definition syn_pb_encode_int32 :: "pb_encoder \<Rightarrow> u32 \<Rightarrow> u32 \<Rightarrow> SYN_Status \<times> pb_encoder" where
  "syn_pb_encode_int32 enc field_number value =
     (case syn_pb_encode_tag enc field_number SYN_PB_WIRE_VARINT of
        (SYN_OK, enc1) \<Rightarrow> syn_pb_encode_varint enc1 (scast value)
      | (_, enc1) \<Rightarrow> (SYN_ERROR, enc1))"

definition syn_pb_encode_uint32 :: "pb_encoder \<Rightarrow> u32 \<Rightarrow> u32 \<Rightarrow> SYN_Status \<times> pb_encoder" where
  "syn_pb_encode_uint32 enc field_number value =
     (case syn_pb_encode_tag enc field_number SYN_PB_WIRE_VARINT of
        (SYN_OK, enc1) \<Rightarrow> syn_pb_encode_varint enc1 (ucast value)
      | (_, enc1) \<Rightarrow> (SYN_ERROR, enc1))"

definition syn_pb_encode_bool :: "pb_encoder \<Rightarrow> u32 \<Rightarrow> bool \<Rightarrow> SYN_Status \<times> pb_encoder" where
  "syn_pb_encode_bool enc field_number value = syn_pb_encode_uint32 enc field_number (if value then 1 else 0)"

definition syn_pb_encode_fixed32 :: "pb_encoder \<Rightarrow> u32 \<Rightarrow> u32 \<Rightarrow> SYN_Status \<times> pb_encoder" where
  "syn_pb_encode_fixed32 enc field_number value =
     (case syn_pb_encode_tag enc field_number SYN_PB_WIRE_FIXED32 of
        (SYN_OK, enc1) \<Rightarrow>
          if pe_offset enc1 + 4 > pe_capacity enc1 then (SYN_ERROR, enc1)
          else (SYN_OK, pb_put (ucast (drop_bit 24 value AND 0xFF)) (pb_put (ucast (drop_bit 16 value AND 0xFF))
                 (pb_put (ucast (drop_bit 8 value AND 0xFF)) (pb_put (ucast (value AND 0xFF)) enc1))))
      | (_, enc1) \<Rightarrow> (SYN_ERROR, enc1))"

definition syn_pb_encode_bytes :: "pb_encoder \<Rightarrow> u32 \<Rightarrow> u8 list \<Rightarrow> SYN_Status \<times> pb_encoder" where
  "syn_pb_encode_bytes enc field_number bytes =
     (case syn_pb_encode_tag enc field_number SYN_PB_WIRE_LENGTH_DELIMITED of
        (SYN_OK, enc1) \<Rightarrow>
          (case syn_pb_encode_varint enc1 (of_nat (length bytes)) of
             (SYN_OK, enc2) \<Rightarrow>
               if length bytes > pe_capacity enc2 - pe_offset enc2 then (SYN_ERROR, enc2)
               else (SYN_OK, enc2\<lparr>pe_buf := take (pe_offset enc2) (pe_buf enc2) @ bytes
                                     @ drop (pe_offset enc2 + length bytes) (pe_buf enc2),
                                  pe_offset := pe_offset enc2 + length bytes\<rparr>)
           | (_, enc2) \<Rightarrow> (SYN_ERROR, enc2))
      | (_, enc1) \<Rightarrow> (SYN_ERROR, enc1))"

text \<open>\<^verbatim>\<open>str\<close> is the memory from the pointer on.\<close>

definition syn_pb_encode_string :: "pb_encoder \<Rightarrow> u32 \<Rightarrow> u8 list \<Rightarrow> SYN_Status \<times> pb_encoder" where
  "syn_pb_encode_string enc field_number str =
     syn_pb_encode_bytes enc field_number (takeWhile (\<lambda>c. c \<noteq> 0) str)"

subsection \<open>Decoder\<close>

definition syn_pb_decoder_init :: "u8 list \<Rightarrow> nat \<Rightarrow> SYN_Status \<times> pb_decoder" where
  "syn_pb_decoder_init buf n = (SYN_OK, \<lparr>pd_buf = buf, pd_size = n, pd_offset = 0\<rparr>)"

function pb_varint_loop :: "pb_decoder \<Rightarrow> u64 \<Rightarrow> nat \<Rightarrow> (SYN_Status + u64) \<times> pb_decoder" where
  "pb_varint_loop dec val shift =
     (if pd_offset dec < pd_size dec
      then
        let b = pd_buf dec ! pd_offset dec; dec1 = dec\<lparr>pd_offset := pd_offset dec + 1\<rparr>;
            val1 = val OR push_bit shift (ucast (b AND 0x7F))
        in if b AND 0x80 = 0 then (Inr val1, dec1)
           else if shift + 7 \<ge> 64 then (Inl SYN_ERROR, dec1)
           else pb_varint_loop dec1 val1 (shift + 7)
      else (Inl SYN_ERROR, dec))"
  by auto
termination by (relation "measure (\<lambda>(dec, val, shift). pd_size dec - pd_offset dec)") auto

declare pb_varint_loop.simps [simp del]

definition syn_pb_decode_varint :: "pb_decoder \<Rightarrow> (SYN_Status + u64) \<times> pb_decoder" where
  "syn_pb_decode_varint dec = pb_varint_loop dec 0 0"

definition syn_pb_decode_tag :: "pb_decoder \<Rightarrow> (SYN_Status + pb_tag) \<times> pb_decoder" where
  "syn_pb_decode_tag dec =
     (if pd_offset dec \<ge> pd_size dec then (Inl SYN_ERROR, dec)
      else case syn_pb_decode_varint dec of
             (Inr key, dec1) \<Rightarrow> (Inr \<lparr>tag_field_number = ucast (drop_bit 3 key), tag_wire_type = ucast (key AND 0x07)\<rparr>, dec1)
           | (Inl _, dec1) \<Rightarrow> (Inl SYN_ERROR, dec1))"

definition syn_pb_decode_fixed32 :: "pb_decoder \<Rightarrow> (SYN_Status + u32) \<times> pb_decoder" where
  "syn_pb_decode_fixed32 dec =
     (if pd_offset dec + 4 > pd_size dec then (Inl SYN_ERROR, dec)
      else
        let o1 = pd_offset dec; buf = pd_buf dec;
            val = ucast (buf ! o1) OR push_bit 8 (ucast (buf ! (o1 + 1)))
                    OR push_bit 16 (ucast (buf ! (o1 + 2))) OR push_bit 24 (ucast (buf ! (o1 + 3)))
        in (Inr val, dec\<lparr>pd_offset := o1 + 4\<rparr>))"

text \<open>The bytes are returned as the pointer's offset in the buffer and the length.\<close>

definition syn_pb_decode_bytes :: "pb_decoder \<Rightarrow> (SYN_Status + nat \<times> nat) \<times> pb_decoder" where
  "syn_pb_decode_bytes dec =
     (case syn_pb_decode_varint dec of
        (Inr l, dec1) \<Rightarrow>
          (let n = unat (ucast l :: u32)
           in if n > pd_size dec1 - pd_offset dec1 then (Inl SYN_ERROR, dec1)
              else (Inr (pd_offset dec1, n), dec1\<lparr>pd_offset := pd_offset dec1 + n\<rparr>))
      | (Inl _, dec1) \<Rightarrow> (Inl SYN_ERROR, dec1))"

definition status_of :: "SYN_Status + 'a \<Rightarrow> SYN_Status" where
  "status_of r = (case r of Inl s \<Rightarrow> s | Inr _ \<Rightarrow> SYN_OK)"

definition syn_pb_skip_field :: "pb_decoder \<Rightarrow> u8 \<Rightarrow> SYN_Status \<times> pb_decoder" where
  "syn_pb_skip_field dec wire_type =
     (if wire_type = SYN_PB_WIRE_VARINT then (case syn_pb_decode_varint dec of (r, dec1) \<Rightarrow> (status_of r, dec1))
      else if wire_type = SYN_PB_WIRE_FIXED32 then (case syn_pb_decode_fixed32 dec of (r, dec1) \<Rightarrow> (status_of r, dec1))
      else if wire_type = SYN_PB_WIRE_LENGTH_DELIMITED then (case syn_pb_decode_bytes dec of (r, dec1) \<Rightarrow> (status_of r, dec1))
      else if wire_type = SYN_PB_WIRE_FIXED64
      then if pd_offset dec + 8 > pd_size dec then (SYN_ERROR, dec) else (SYN_OK, dec\<lparr>pd_offset := pd_offset dec + 8\<rparr>)
      else (SYN_ERROR, dec))"


subsection \<open>The encodings as byte lists\<close>

function vi_enc :: "u64 \<Rightarrow> u8 list" where
  "vi_enc v = (if v \<ge> 0x80 then ucast ((v AND 0x7F) OR 0x80) # vi_enc (drop_bit 7 v) else [ucast (v AND 0x7F)])"
  by auto
termination by (relation "measure unat") (auto simp: drop_7_less)

declare vi_enc.simps [simp del]

fun vi_dec :: "nat \<Rightarrow> u64 \<Rightarrow> u8 list \<Rightarrow> (u64 \<times> u8 list) option" where
  "vi_dec shift val [] = None"
| "vi_dec shift val (b # bs) =
     (let val1 = val OR push_bit shift (ucast (b AND 0x7F))
      in if b AND 0x80 = 0 then Some (val1, bs) else if shift + 7 \<ge> 64 then None else vi_dec (shift + 7) val1 bs)"

lemma and_7F: "(v :: 'a :: len word) AND 0x7F = take_bit 7 v"
  by (simp add: take_bit_eq_mask mask_eq_exp_minus_1)

lemma bit_80: "bit (0x80 :: int) n \<longleftrightarrow> n = 7"
  using bit_exp_iff [where 'a = int, of 7 n] by auto

lemma and_80_eq_0: "(b :: u8) AND 0x80 = 0 \<longleftrightarrow> \<not> bit b 7"
proof -
  have "b AND 0x80 = (if bit b 7 then 0x80 else 0)" by (rule bit_word_eqI) (auto simp: bit_simps bit_80)
  then show ?thesis by simp
qed

lemma varint_byte_more:
  "(ucast (((v :: u64) AND 0x7F) OR 0x80) :: u8) AND 0x7F = ucast (take_bit 7 v)"
  "bit (ucast ((v AND 0x7F) OR 0x80) :: u8) 7"
  "\<not> bit (ucast (v AND 0x7F) :: u8) 7" "(ucast (v AND 0x7F) :: u8) AND 0x7F = ucast (take_bit 7 v)"
  by (auto simp: and_7F bit_simps bit_80 intro!: bit_word_eqI)

lemma ucast_take_7: "ucast (ucast (take_bit 7 (v :: u64)) :: u8) = take_bit 7 v"
  by (rule bit_word_eqI) (auto simp: bit_simps)

lemma less_128_bits: "\<not> 0x80 \<le> (v :: u64) \<Longrightarrow> take_bit 7 v = v"
proof -
  assume "\<not> 0x80 \<le> v"
  then have "unat v < 2 ^ 7" by (simp add: word_le_nat_alt)
  then have "take_bit 7 (unat v) = unat v" by (simp add: take_bit_nat_eq_self_iff)
  then show ?thesis by (metis unsigned_take_bit_eq word_unat_eq_iff)
qed

lemma vi_dec_enc:
  "shift < 64 \<Longrightarrow> \<forall>n. bit v n \<longrightarrow> n + shift < 64 \<Longrightarrow>
    vi_dec shift val (vi_enc v @ r) = Some (val OR push_bit shift v, r)"
proof (induction v arbitrary: shift val rule: vi_enc.induct)
  case (1 v)
  show ?case
  proof (cases "0x80 \<le> v")
    case True
    have "shift + 7 < 64"
    proof (rule ccontr)
      assume "\<not> shift + 7 < 64"
      then have hi: "\<not> bit v n" if "7 \<le> n" for n using 1(3) that by auto
      then have "take_bit 7 v = v" by (intro bit_word_eqI) (simp add: bit_simps, metis hi not_less)
      then have "unat v < 2 ^ 7" by (metis take_bit_nat_eq_self_iff unsigned_take_bit_eq)
      then show False using True by (simp add: word_le_nat_alt)
    qed
    moreover have "\<forall>n. bit (drop_bit 7 v) n \<longrightarrow> n + (shift + 7) < 64" using 1(3) by (auto simp: bit_simps)
    ultimately have IH: "vi_dec (shift + 7) w (vi_enc (drop_bit 7 v) @ r) = Some (w OR push_bit (shift + 7) (drop_bit 7 v), r)" for w
      using 1(1) [OF True] by blast
    have "push_bit shift (take_bit 7 v) OR push_bit (shift + 7) (drop_bit 7 v) = push_bit shift v"
    proof (rule bit_word_eqI)
      fix n
      have "7 + (n - (shift + 7)) = n - shift" if "shift + 7 \<le> n" using that by simp
      then show "bit (push_bit shift (take_bit 7 v) OR push_bit (shift + 7) (drop_bit 7 v)) n = bit (push_bit shift v) n"
        by (cases "shift + 7 \<le> n") (auto simp: bit_simps)
    qed
    moreover define b where "b = (ucast ((v AND 0x7F) OR 0x80) :: u8)"
    have "b AND 0x80 \<noteq> 0" "ucast (b AND 0x7F) = take_bit 7 v"
      by (simp_all only: b_def and_80_eq_0 varint_byte_more ucast_take_7 simp_thms)
    moreover have "vi_enc v = b # vi_enc (drop_bit 7 v)" using True by (subst vi_enc.simps) (simp add: b_def)
    ultimately show ?thesis using \<open>shift + 7 < 64\<close> by (simp add: IH Let_def or.assoc)
  next
    case False
    then show ?thesis using ucast_take_7 [of v]
      by (subst vi_enc.simps) (simp add: varint_byte_more and_80_eq_0 less_128_bits Let_def)
  qed
qed

interpretation vi: prefix_codec vi_enc "vi_dec 0 0" "\<lambda>_. True"
  by unfold_locales (simp add: vi_dec_enc bit_imp_le_length [where 'a = 64, simplified])


definition le32 :: "u32 \<Rightarrow> u8 list" where
  "le32 v = [ucast (v AND 0xFF), ucast (drop_bit 8 v AND 0xFF), ucast (drop_bit 16 v AND 0xFF), ucast (drop_bit 24 v AND 0xFF)]"

definition un_le32 :: "u8 \<Rightarrow> u8 \<Rightarrow> u8 \<Rightarrow> u8 \<Rightarrow> u32" where
  "un_le32 a b c d = ucast a OR push_bit 8 (ucast b) OR push_bit 16 (ucast c) OR push_bit 24 (ucast d)"

lemma un_le32_le32:
  "un_le32 (ucast (v AND 0xFF)) (ucast (drop_bit 8 v AND 0xFF)) (ucast (drop_bit 16 v AND 0xFF)) (ucast (drop_bit 24 v AND 0xFF)) = v"
proof (rule bit_word_eqI)
  fix n assume "n < LENGTH(32)"
  then consider "n < 8" | "8 \<le> n" "n < 16" | "16 \<le> n" "n < 24" | "24 \<le> n" "n < 32" by fastforce
  then show "bit (un_le32 (ucast (v AND 0xFF)) (ucast (drop_bit 8 v AND 0xFF)) (ucast (drop_bit 16 v AND 0xFF)) (ucast (drop_bit 24 v AND 0xFF))) n = bit v n"
    by cases (auto simp: un_le32_def and_FF bit_simps)
qed

text \<open>A field as it stands on the wire: number and payload.\<close>

datatype pb_payload = PB_Varint u64 | PB_Fixed32 u32 | PB_Bytes "u8 list"

fun payload_wire :: "pb_payload \<Rightarrow> u8" where
  "payload_wire (PB_Varint _) = SYN_PB_WIRE_VARINT"
| "payload_wire (PB_Fixed32 _) = SYN_PB_WIRE_FIXED32"
| "payload_wire (PB_Bytes _) = SYN_PB_WIRE_LENGTH_DELIMITED"

fun payload_enc :: "pb_payload \<Rightarrow> u8 list" where
  "payload_enc (PB_Varint v) = vi_enc v"
| "payload_enc (PB_Fixed32 v) = le32 v"
| "payload_enc (PB_Bytes bs) = vi_enc (of_nat (length bs)) @ bs"

definition tag_enc :: "u32 \<Rightarrow> u8 \<Rightarrow> u8 list" where
  "tag_enc f w = vi_enc (ucast (push_bit 3 f OR ucast (w AND 0x07)))"

definition field_enc :: "u32 \<times> pb_payload \<Rightarrow> u8 list" where
  "field_enc fp = tag_enc (fst fp) (payload_wire (snd fp)) @ payload_enc (snd fp)"

text \<open>Admissible: a field number the 32-bit key can hold, a length a 32-bit \<^verbatim>\<open>size_t\<close> can hold.\<close>

definition field_ok :: "u32 \<times> pb_payload \<Rightarrow> bool" where
  "field_ok fp \<longleftrightarrow> fst fp \<noteq> 0 \<and> unat (fst fp) < 2 ^ 29
     \<and> (case snd fp of PB_Bytes bs \<Rightarrow> length bs < 2 ^ 32 | _ \<Rightarrow> True)"

fun payload_dec :: "u8 \<Rightarrow> u8 list \<Rightarrow> (pb_payload \<times> u8 list) option" where
  "payload_dec w bs =
     (if w = SYN_PB_WIRE_VARINT then map_option (\<lambda>(v, r). (PB_Varint v, r)) (vi_dec 0 0 bs)
      else if w = SYN_PB_WIRE_FIXED32
      then (case bs of a # b # c # d # r \<Rightarrow> Some (PB_Fixed32 (un_le32 a b c d), r) | _ \<Rightarrow> None)
      else if w = SYN_PB_WIRE_LENGTH_DELIMITED
      then (case vi_dec 0 0 bs of None \<Rightarrow> None
            | Some (l, r) \<Rightarrow> let n = unat (ucast l :: u32) in
                if n > length r then None else Some (PB_Bytes (take n r), drop n r))
      else None)"

definition field_dec :: "u8 list \<Rightarrow> ((u32 \<times> pb_payload) \<times> u8 list) option" where
  "field_dec bs = (case vi_dec 0 0 bs of None \<Rightarrow> None
     | Some (key, r) \<Rightarrow> map_option (\<lambda>(p, s). ((ucast (drop_bit 3 key), p), s)) (payload_dec (ucast (key AND 0x07)) r))"

lemma payload_dec_enc:
  assumes "case p of PB_Bytes bs \<Rightarrow> length bs < 2 ^ 32 | _ \<Rightarrow> True"
  shows "payload_dec (payload_wire p) (payload_enc p @ r) = Some (p, r)"
proof (cases p)
  case (PB_Bytes bs)
  then have "unat (ucast (of_nat (length bs) :: u64) :: u32) = length bs"
    using assms by (simp add: unsigned_ucast_eq unsigned_of_nat take_bit_nat_eq_self)
  then show ?thesis using PB_Bytes
    by (simp add: vi.dec_enc SYN_PB_WIRE_LENGTH_DELIMITED_def SYN_PB_WIRE_VARINT_def SYN_PB_WIRE_FIXED32_def Let_def)
qed (simp_all add: vi.dec_enc le32_def un_le32_le32 SYN_PB_WIRE_LENGTH_DELIMITED_def SYN_PB_WIRE_VARINT_def SYN_PB_WIRE_FIXED32_def)

lemma tag_key:
  fixes f :: u32 and w :: u8
  assumes "unat f < 2 ^ 29"
  defines "key \<equiv> ucast (push_bit 3 f OR ucast (w AND 0x07)) :: u64"
  shows "ucast (drop_bit 3 key) = f" "ucast (key AND 0x07) = w AND 0x07"
proof -
  have and_7: "x AND 0x07 = take_bit 3 x" for x :: "'a :: len word" by (simp add: take_bit_eq_mask mask_eq_exp_minus_1)
  have "take_bit 29 (unat f) = unat f" using assms(1) by (simp add: take_bit_nat_eq_self_iff)
  then have "take_bit 29 f = f" by (metis unsigned_take_bit_eq word_unat_eq_iff)
  then have hi: "\<not> bit f n" if "29 \<le> n" for n using that by (metis bit_take_bit_iff not_less)
  show "ucast (drop_bit 3 key) = f"
    by (rule bit_word_eqI) (auto simp: key_def and_7 bit_simps, metis hi not_less)
  show "ucast (key AND 0x07) = w AND 0x07"
    by (rule bit_word_eqI) (auto simp: key_def and_7 bit_simps)
qed

lemma payload_wire_and [simp]: "payload_wire p AND 0x07 = payload_wire p"
  by (cases p) (simp_all add: SYN_PB_WIRE_LENGTH_DELIMITED_def SYN_PB_WIRE_VARINT_def SYN_PB_WIRE_FIXED32_def)

interpretation field: prefix_codec field_enc field_dec field_ok
proof
  fix x r assume "field_ok x"
  then have "unat (fst x) < 2 ^ 29" "case snd x of PB_Bytes bs \<Rightarrow> length bs < 2 ^ 32 | _ \<Rightarrow> True" by (auto simp: field_ok_def)
  then show "field_dec (field_enc x @ r) = Some (x, r)"
    using payload_dec_enc [of "snd x" r] tag_key [of "fst x" "payload_wire (snd x)"]
    by (simp add: field_enc_def field_dec_def tag_enc_def vi.dec_enc del: payload_dec.simps)
qed


subsection \<open>The encoder writes the encodings\<close>

definition pe_wf :: "pb_encoder \<Rightarrow> bool" where
  "pe_wf enc \<longleftrightarrow> pe_offset enc \<le> pe_capacity enc \<and> pe_capacity enc \<le> length (pe_buf enc)"

definition pe_out :: "pb_encoder \<Rightarrow> u8 list" where
  "pe_out enc = take (pe_offset enc) (pe_buf enc)"

lemma length_pe_out: "pe_wf enc \<Longrightarrow> length (pe_out enc) = pe_offset enc"
  by (simp add: pe_wf_def pe_out_def)

text \<open>\<open>r\<close> is the result of writing \<open>bs\<close> after what \<open>enc\<close> holds: all of it if it fits, else an error.\<close>

definition pb_writes :: "pb_encoder \<Rightarrow> u8 list \<Rightarrow> SYN_Status \<times> pb_encoder \<Rightarrow> bool" where
  "pb_writes enc bs r \<longleftrightarrow> pe_wf (snd r) \<and> pe_capacity (snd r) = pe_capacity enc
     \<and> (if pe_offset enc + length bs \<le> pe_capacity enc then fst r = SYN_OK \<and> pe_out (snd r) = pe_out enc @ bs
        else fst r = SYN_ERROR)"

lemma pb_writes_append:
  assumes "pe_wf enc" "pb_writes enc as r1" "fst r1 = SYN_OK \<Longrightarrow> pb_writes (snd r1) bs r" "fst r1 \<noteq> SYN_OK \<Longrightarrow> r = (SYN_ERROR, snd r1)"
  shows "pb_writes enc (as @ bs) r"
proof (cases "pe_offset enc + length as \<le> pe_capacity enc")
  case True
  then have "pe_offset (snd r1) = pe_offset enc + length as" "pe_out (snd r1) = pe_out enc @ as" "fst r1 = SYN_OK"
    using assms(1,2) length_pe_out [of enc] length_pe_out [of "snd r1"] by (auto simp: pb_writes_def)
  then show ?thesis using assms(2,3) by (auto simp: pb_writes_def add.assoc)
next
  case False
  then show ?thesis using assms(2,4) by (auto simp: pb_writes_def)
qed

lemma pb_put_writes:
  "pe_wf enc \<Longrightarrow> pe_offset enc < pe_capacity enc \<Longrightarrow> pb_writes enc [b] (SYN_OK, pb_put b enc)"
  by (auto simp: pb_writes_def pe_wf_def pe_out_def pb_put_def take_Suc_conv_app_nth)

lemma pb_full_writes: "pe_wf enc \<Longrightarrow> \<not> pe_offset enc < pe_capacity enc \<Longrightarrow> bs \<noteq> [] \<Longrightarrow> pb_writes enc bs (SYN_ERROR, enc)"
  by (cases bs) (auto simp: pb_writes_def pe_wf_def)

lemma encode_varint_writes: "pe_wf enc \<Longrightarrow> pb_writes enc (vi_enc v) (syn_pb_encode_varint enc v)"
proof (induction enc v rule: syn_pb_encode_varint.induct)
  case (1 enc v)
  have ne: "vi_enc v \<noteq> []" by (subst vi_enc.simps) simp
  show ?case
  proof (cases "pe_offset enc < pe_capacity enc")
    case False
    then show ?thesis using pb_full_writes [OF 1(2) False ne] by (subst syn_pb_encode_varint.simps) simp
  next
    case fits: True
    show ?thesis
    proof (cases "0x80 \<le> v")
      case True
      let ?b = "ucast ((v AND 0x7F) OR 0x80) :: u8"
      have w: "pb_writes enc [?b] (SYN_OK, pb_put ?b enc)" using pb_put_writes [OF 1(2) fits] .
      have "pb_writes (pb_put ?b enc) (vi_enc (drop_bit 7 v)) (syn_pb_encode_varint (pb_put ?b enc) (drop_bit 7 v))"
        using 1(1) True fits w by (auto simp: pb_writes_def)
      from pb_writes_append [OF 1(2) w, of "vi_enc (drop_bit 7 v)"] this
      show ?thesis using True fits by (subst syn_pb_encode_varint.simps, subst vi_enc.simps) auto
    next
      case False
      then show ?thesis using fits pb_put_writes [OF 1(2) fits]
        by (subst syn_pb_encode_varint.simps, subst vi_enc.simps) auto
    qed
  qed
qed

lemma encode_tag_writes: "pe_wf enc \<Longrightarrow> f \<noteq> 0 \<Longrightarrow> pb_writes enc (tag_enc f w) (syn_pb_encode_tag enc f w)"
  by (simp add: syn_pb_encode_tag_def tag_enc_def encode_varint_writes)

text \<open>A payload after its tag.\<close>

lemma pb_field_writes:
  assumes "pe_wf enc" "fst fp \<noteq> 0" "r1 = syn_pb_encode_tag enc (fst fp) (payload_wire (snd fp))"
    "\<And>e. pe_wf e \<Longrightarrow> pb_writes e (payload_enc (snd fp)) (k e)"
    "r = (case r1 of (SYN_OK, e) \<Rightarrow> k e | (_, e) \<Rightarrow> (SYN_ERROR, e))"
  shows "pb_writes enc (field_enc fp) r"
  unfolding field_enc_def
proof (rule pb_writes_append [OF assms(1)])
  show w: "pb_writes enc (tag_enc (fst fp) (payload_wire (snd fp))) r1"
    using encode_tag_writes [OF assms(1,2)] assms(3) by simp
  show "pb_writes (snd r1) (payload_enc (snd fp)) r" if "fst r1 = SYN_OK"
    using that assms(4,5) w by (cases r1) (simp add: pb_writes_def)
  show "r = (SYN_ERROR, snd r1)" if "fst r1 \<noteq> SYN_OK"
    using that assms(5) by (cases r1; cases "fst r1") simp_all
qed

lemma le32_writes:
  assumes "pe_wf e"
  shows "pb_writes e (le32 v) (if pe_offset e + 4 > pe_capacity e then (SYN_ERROR, e)
     else (SYN_OK, pb_put (ucast (drop_bit 24 v AND 0xFF)) (pb_put (ucast (drop_bit 16 v AND 0xFF))
                 (pb_put (ucast (drop_bit 8 v AND 0xFF)) (pb_put (ucast (v AND 0xFF)) e)))))"
  using assms by (auto simp: pb_writes_def pe_wf_def pe_out_def pb_put_def le32_def take_Suc_conv_app_nth)

lemma bytes_writes:
  assumes "pe_wf e"
  shows "pb_writes e bs (if length bs > pe_capacity e - pe_offset e then (SYN_ERROR, e)
     else (SYN_OK, e\<lparr>pe_buf := take (pe_offset e) (pe_buf e) @ bs @ drop (pe_offset e + length bs) (pe_buf e),
                    pe_offset := pe_offset e + length bs\<rparr>))"
  using assms by (auto simp: pb_writes_def pe_wf_def pe_out_def)


text \<open>The calls of the encoder and the field each one writes.\<close>

datatype pb_call = Int32 u32 | Uint32 u32 | Bool bool | Fixed32 u32 | Bytes "u8 list" | String "u8 list"

fun pb_encode :: "pb_encoder \<Rightarrow> u32 \<times> pb_call \<Rightarrow> SYN_Status \<times> pb_encoder" where
  "pb_encode enc (f, Int32 v) = syn_pb_encode_int32 enc f v"
| "pb_encode enc (f, Uint32 v) = syn_pb_encode_uint32 enc f v"
| "pb_encode enc (f, Bool v) = syn_pb_encode_bool enc f v"
| "pb_encode enc (f, Fixed32 v) = syn_pb_encode_fixed32 enc f v"
| "pb_encode enc (f, Bytes bs) = syn_pb_encode_bytes enc f bs"
| "pb_encode enc (f, String bs) = syn_pb_encode_string enc f bs"

fun pb_field :: "u32 \<times> pb_call \<Rightarrow> u32 \<times> pb_payload" where
  "pb_field (f, Int32 v) = (f, PB_Varint (scast v))"
| "pb_field (f, Uint32 v) = (f, PB_Varint (ucast v))"
| "pb_field (f, Bool v) = (f, PB_Varint (ucast (if v then 1 else 0 :: u32)))"
| "pb_field (f, Fixed32 v) = (f, PB_Fixed32 v)"
| "pb_field (f, Bytes bs) = (f, PB_Bytes bs)"
| "pb_field (f, String str) = (f, PB_Bytes (takeWhile (\<lambda>c. c \<noteq> 0) str))"

lemma encode_bytes_writes: "pe_wf enc \<Longrightarrow> f \<noteq> 0 \<Longrightarrow> pb_writes enc (field_enc (f, PB_Bytes bs)) (syn_pb_encode_bytes enc f bs)"
proof (rule pb_field_writes [where k = "\<lambda>e. case syn_pb_encode_varint e (of_nat (length bs)) of
      (SYN_OK, e2) \<Rightarrow> if length bs > pe_capacity e2 - pe_offset e2 then (SYN_ERROR, e2)
        else (SYN_OK, e2\<lparr>pe_buf := take (pe_offset e2) (pe_buf e2) @ bs @ drop (pe_offset e2 + length bs) (pe_buf e2),
                         pe_offset := pe_offset e2 + length bs\<rparr>)
    | (_, e2) \<Rightarrow> (SYN_ERROR, e2)"])
  fix e assume e: "pe_wf e"
  let ?r = "syn_pb_encode_varint e (of_nat (length bs))"
  have w: "pb_writes e (vi_enc (of_nat (length bs))) ?r" by (rule encode_varint_writes [OF e])
  show "pb_writes e (payload_enc (snd (f, PB_Bytes bs))) (case ?r of
      (SYN_OK, e2) \<Rightarrow> if length bs > pe_capacity e2 - pe_offset e2 then (SYN_ERROR, e2)
        else (SYN_OK, e2\<lparr>pe_buf := take (pe_offset e2) (pe_buf e2) @ bs @ drop (pe_offset e2 + length bs) (pe_buf e2),
                         pe_offset := pe_offset e2 + length bs\<rparr>)
    | (_, e2) \<Rightarrow> (SYN_ERROR, e2))"
    unfolding snd_conv payload_enc.simps
  proof (rule pb_writes_append [OF e w], goal_cases)
    case 1
    then obtain e2 where r: "?r = (SYN_OK, e2)" by (cases ?r) simp
    have "pe_wf e2" using w r by (simp add: pb_writes_def)
    from bytes_writes [OF this, of bs] show ?case by (simp add: r)
  next
    case 2
    then show ?case by (cases ?r; cases "fst ?r") simp_all
  qed
qed (simp_all add: syn_pb_encode_bytes_def)

lemma encode_varint_field_writes:
  assumes "pe_wf enc" "f \<noteq> 0"
  shows "pb_writes enc (field_enc (f, PB_Varint v))
    (case syn_pb_encode_tag enc f SYN_PB_WIRE_VARINT of (SYN_OK, e) \<Rightarrow> syn_pb_encode_varint e v | (_, e) \<Rightarrow> (SYN_ERROR, e))"
  by (rule pb_field_writes [OF assms(1) _ refl, where k = "\<lambda>e. syn_pb_encode_varint e v"])
    (simp_all add: assms encode_varint_writes)

lemma encode_fixed32_writes:
  assumes "pe_wf enc" "f \<noteq> 0"
  shows "pb_writes enc (field_enc (f, PB_Fixed32 v)) (syn_pb_encode_fixed32 enc f v)"
proof (rule pb_field_writes [OF assms(1) _ refl])
  fix e assume "pe_wf e"
  from le32_writes [OF this, of v] show "pb_writes e (payload_enc (snd (f, PB_Fixed32 v)))
    (if pe_offset e + 4 > pe_capacity e then (SYN_ERROR, e)
     else (SYN_OK, pb_put (ucast (drop_bit 24 v AND 0xFF)) (pb_put (ucast (drop_bit 16 v AND 0xFF))
                 (pb_put (ucast (drop_bit 8 v AND 0xFF)) (pb_put (ucast (v AND 0xFF)) e)))))" by simp
qed (simp_all add: assms syn_pb_encode_fixed32_def)

lemma pb_encode_writes:
  assumes "pe_wf enc" "fst fc \<noteq> 0"
  shows "pb_writes enc (field_enc (pb_field fc)) (pb_encode enc fc)"
proof -
  obtain f c where fc: "fc = (f, c)" by (cases fc)
  show ?thesis
    using assms encode_varint_field_writes [OF assms(1), of f] encode_fixed32_writes [OF assms(1), of f]
      encode_bytes_writes [OF assms(1), of f]
    by (cases c) (simp_all add: fc syn_pb_encode_int32_def syn_pb_encode_uint32_def syn_pb_encode_bool_def syn_pb_encode_string_def
        del: if_split)
qed

text \<open>A message: the calls one after the other until one fails.\<close>

fun pb_encode_all :: "pb_encoder \<Rightarrow> (u32 \<times> pb_call) list \<Rightarrow> SYN_Status \<times> pb_encoder" where
  "pb_encode_all enc [] = (SYN_OK, enc)"
| "pb_encode_all enc (c # cs) = (case pb_encode enc c of (SYN_OK, e) \<Rightarrow> pb_encode_all e cs | (_, e) \<Rightarrow> (SYN_ERROR, e))"

lemma pb_encode_all_writes:
  "pe_wf enc \<Longrightarrow> \<forall>c\<in>set cs. fst c \<noteq> 0 \<Longrightarrow>
    pb_writes enc (concat (map (field_enc \<circ> pb_field) cs)) (pb_encode_all enc cs)"
proof (induction cs arbitrary: enc)
  case Nil
  then show ?case by (simp add: pb_writes_def pe_wf_def)
next
  case (Cons c cs)
  let ?r = "pb_encode enc c"
  have w: "pb_writes enc (field_enc (pb_field c)) ?r" using pb_encode_writes Cons.prems by simp
  show ?case unfolding list.map concat.simps o_apply
  proof (rule pb_writes_append [OF Cons.prems(1) w], goal_cases)
    case 1
    then show ?case using w Cons.IH [of "snd ?r"] Cons.prems(2) by (cases ?r) (simp add: pb_writes_def o_def)
  next
    case 2
    then show ?case by (cases ?r; cases "fst ?r") simp_all
  qed
qed

subsection \<open>The decoder reads the encodings\<close>

definition pd_wf :: "pb_decoder \<Rightarrow> bool" where
  "pd_wf dec \<longleftrightarrow> pd_offset dec \<le> pd_size dec \<and> pd_size dec \<le> length (pd_buf dec)"

definition pd_rest :: "pb_decoder \<Rightarrow> u8 list" where
  "pd_rest dec = drop (pd_offset dec) (take (pd_size dec) (pd_buf dec))"

text \<open>The cursor moved, forward and within its bounds, over the same buffer.\<close>

definition pd_moved :: "pb_decoder \<Rightarrow> pb_decoder \<Rightarrow> bool" where
  "pd_moved dec dec' \<longleftrightarrow> pd_wf dec' \<and> pd_buf dec' = pd_buf dec \<and> pd_size dec' = pd_size dec \<and> pd_offset dec \<le> pd_offset dec'"

lemma pd_moved_trans: "pd_moved a b \<Longrightarrow> pd_moved b c \<Longrightarrow> pd_moved a c"
  by (auto simp: pd_moved_def)

lemma pd_moved_refl: "pd_wf a \<Longrightarrow> pd_moved a a"
  by (simp add: pd_moved_def)

lemma length_pd_rest: "pd_wf dec \<Longrightarrow> length (pd_rest dec) = pd_size dec - pd_offset dec"
  by (simp add: pd_rest_def pd_wf_def)

lemma pd_advance:
  assumes "pd_wf dec" "n \<le> pd_size dec - pd_offset dec"
  shows "pd_moved dec (dec\<lparr>pd_offset := pd_offset dec + n\<rparr>)"
    "pd_rest (dec\<lparr>pd_offset := pd_offset dec + n\<rparr>) = drop n (pd_rest dec)"
    "take n (pd_rest dec) = take n (drop (pd_offset dec) (pd_buf dec))"
proof -
  show "pd_moved dec (dec\<lparr>pd_offset := pd_offset dec + n\<rparr>)" using assms by (auto simp: pd_moved_def pd_wf_def)
  show "pd_rest (dec\<lparr>pd_offset := pd_offset dec + n\<rparr>) = drop n (pd_rest dec)" by (simp add: pd_rest_def add.commute)
  show "take n (pd_rest dec) = take n (drop (pd_offset dec) (pd_buf dec))" using assms(2) by (simp add: pd_rest_def drop_take min_def)
qed

lemma pd_rest_Cons:
  assumes "pd_wf dec" "pd_offset dec < pd_size dec"
  shows "pd_rest dec = (pd_buf dec ! pd_offset dec) # pd_rest (dec\<lparr>pd_offset := pd_offset dec + 1\<rparr>)"
  using assms by (simp add: pd_rest_def pd_wf_def Cons_nth_drop_Suc [symmetric])

lemma pb_varint_loop_reads:
  "pd_wf dec \<Longrightarrow> (case pb_varint_loop dec val shift of (res, dec') \<Rightarrow> pd_moved dec dec'
     \<and> (case vi_dec shift val (pd_rest dec) of None \<Rightarrow> res = Inl SYN_ERROR | Some (v, r) \<Rightarrow> res = Inr v \<and> pd_rest dec' = r))"
proof (induction dec val shift rule: pb_varint_loop.induct)
  case (1 dec val shift)
  show ?case
  proof (cases "pd_offset dec < pd_size dec")
    case False
    then have "pd_rest dec = []" using 1(2) by (simp add: pd_rest_def)
    then show ?thesis using False 1(2) by (subst pb_varint_loop.simps) (simp add: pd_moved_refl)
  next
    case True
    let ?b = "pd_buf dec ! pd_offset dec" and ?d = "dec\<lparr>pd_offset := pd_offset dec + 1\<rparr>"
    have mv: "pd_moved dec ?d" using pd_advance(1) [OF 1(2), of 1] True by simp
    note rest = pd_rest_Cons [OF 1(2) True]
    show ?thesis
    proof (cases "?b AND 0x80 = 0 \<or> 64 \<le> shift + 7")
      case c: True
      then show ?thesis using True mv rest by (subst pb_varint_loop.simps) (auto simp: Let_def)
    next
      case c: False
      let ?v = "val OR push_bit shift (ucast (?b AND 0x7F))"
      have "pb_varint_loop dec val shift = pb_varint_loop ?d ?v (shift + 7)"
        using True c by (subst pb_varint_loop.simps) (simp add: Let_def)
      moreover have "vi_dec shift val (pd_rest dec) = vi_dec (shift + 7) ?v (pd_rest ?d)"
        using rest c by (simp add: Let_def)
      moreover have "pd_wf ?d" using mv by (simp add: pd_moved_def)
      then have "case pb_varint_loop ?d ?v (shift + 7) of (res, dec') \<Rightarrow> pd_moved ?d dec'
          \<and> (case vi_dec (shift + 7) ?v (pd_rest ?d) of None \<Rightarrow> res = Inl SYN_ERROR | Some (v, r) \<Rightarrow> res = Inr v \<and> pd_rest dec' = r)"
        by (rule 1(1) [OF True refl refl refl, rotated 2]) (use c in simp_all)
      ultimately show ?thesis using pd_moved_trans [OF mv] by (cases "pb_varint_loop ?d ?v (shift + 7)") simp
    qed
  qed
qed


lemma decode_varint_reads:
  assumes "pd_wf dec" "syn_pb_decode_varint dec = (res, dec')"
  shows "pd_moved dec dec'"
    "case vi_dec 0 0 (pd_rest dec) of None \<Rightarrow> res = Inl SYN_ERROR | Some (v, r) \<Rightarrow> res = Inr v \<and> pd_rest dec' = r"
  using pb_varint_loop_reads [OF assms(1), of 0 0] assms(2) by (simp_all add: syn_pb_decode_varint_def)

lemma decode_tag_reads:
  assumes "pd_wf dec" "syn_pb_decode_tag dec = (res, dec')"
  shows "pd_moved dec dec'"
    "case vi_dec 0 0 (pd_rest dec) of None \<Rightarrow> res = Inl SYN_ERROR
     | Some (key, r) \<Rightarrow> res = Inr \<lparr>tag_field_number = ucast (drop_bit 3 key), tag_wire_type = ucast (key AND 0x07)\<rparr> \<and> pd_rest dec' = r"
proof -
  obtain v d where v: "syn_pb_decode_varint dec = (v, d)" by fastforce
  note R = decode_varint_reads [OF assms(1) v]
  have e: "pd_rest dec = []" if "pd_size dec \<le> pd_offset dec" using that by (simp add: pd_rest_def)
  show "pd_moved dec dec'"
    using R(1) assms v pd_moved_refl by (auto simp: syn_pb_decode_tag_def split: if_splits sum.splits)
  show "case vi_dec 0 0 (pd_rest dec) of None \<Rightarrow> res = Inl SYN_ERROR
     | Some (key, r) \<Rightarrow> res = Inr \<lparr>tag_field_number = ucast (drop_bit 3 key), tag_wire_type = ucast (key AND 0x07)\<rparr> \<and> pd_rest dec' = r"
    using R(2) assms(2) v e by (auto simp: syn_pb_decode_tag_def split: if_splits sum.splits option.splits)
qed

lemma decode_fixed32_reads:
  assumes "pd_wf dec" "syn_pb_decode_fixed32 dec = (res, dec')"
  shows "pd_moved dec dec'"
    "case pd_rest dec of a # b # c # d # r \<Rightarrow> res = Inr (un_le32 a b c d) \<and> pd_rest dec' = r | _ \<Rightarrow> res = Inl SYN_ERROR"
proof -
  show "pd_moved dec dec'"
    using assms pd_advance(1) [OF assms(1), of 4] pd_moved_refl
    by (auto simp: syn_pb_decode_fixed32_def Let_def split: if_splits)
  show "case pd_rest dec of a # b # c # d # r \<Rightarrow> res = Inr (un_le32 a b c d) \<and> pd_rest dec' = r | _ \<Rightarrow> res = Inl SYN_ERROR"
  proof (cases "pd_offset dec + 4 \<le> pd_size dec")
    case True
    let ?o = "pd_offset dec" and ?b = "pd_buf dec"
    let ?d = "\<lambda>k. dec\<lparr>pd_offset := ?o + k\<rparr>"
    have "pd_rest dec = ?b ! ?o # ?b ! (?o + 1) # ?b ! (?o + 2) # ?b ! (?o + 3) # pd_rest (?d 4)"
      using True assms(1) pd_rest_Cons [of dec] pd_rest_Cons [of "?d 1"] pd_rest_Cons [of "?d 2"] pd_rest_Cons [of "?d 3"]
      by (simp add: pd_wf_def eval_nat_numeral)
    then show ?thesis using True assms(2) by (auto simp: syn_pb_decode_fixed32_def Let_def un_le32_def)
  next
    case False
    then have "length (pd_rest dec) < 4" using length_pd_rest [OF assms(1)] by simp
    then show ?thesis using False assms(2)
      by (auto simp: syn_pb_decode_fixed32_def split: list.splits)
  qed
qed

lemma decode_bytes_reads:
  assumes "pd_wf dec" "syn_pb_decode_bytes dec = (res, dec')"
  shows "pd_moved dec dec'"
    "case vi_dec 0 0 (pd_rest dec) of None \<Rightarrow> res = Inl SYN_ERROR
     | Some (l, r) \<Rightarrow> let n = unat (ucast l :: u32) in
         if n > length r then res = Inl SYN_ERROR
         else \<exists>p. res = Inr (p, n) \<and> p + n \<le> pd_size dec \<and> take n (drop p (pd_buf dec)) = take n r \<and> pd_rest dec' = drop n r"
proof -
  obtain v d where v: "syn_pb_decode_varint dec = (v, d)" by fastforce
  note R = decode_varint_reads [OF assms(1) v]
  have wd: "pd_wf d" "pd_buf d = pd_buf dec" "pd_size d = pd_size dec" using R(1) by (simp_all add: pd_moved_def)
  note A = pd_advance [OF wd(1)]
  have le: "length (pd_rest d) = pd_size d - pd_offset d" using length_pd_rest [OF wd(1)] .
  show "pd_moved dec dec'"
    using R(1) assms(2) v A(1) pd_moved_trans [OF R(1)]
    by (auto simp: syn_pb_decode_bytes_def Let_def split: if_splits sum.splits)
  show "case vi_dec 0 0 (pd_rest dec) of None \<Rightarrow> res = Inl SYN_ERROR
     | Some (l, r) \<Rightarrow> let n = unat (ucast l :: u32) in
         if n > length r then res = Inl SYN_ERROR
         else \<exists>p. res = Inr (p, n) \<and> p + n \<le> pd_size dec \<and> take n (drop p (pd_buf dec)) = take n r \<and> pd_rest dec' = drop n r"
  proof (cases "vi_dec 0 0 (pd_rest dec)")
    case None
    then show ?thesis using R(2) v assms(2) by (simp add: syn_pb_decode_bytes_def)
  next
    case (Some lr)
    obtain l r where lr: "lr = (l, r)" by (cases lr)
    let ?n = "unat (ucast l :: u32)"
    have vr: "v = Inr l" "pd_rest d = r" using R(2) Some lr by simp_all
    show ?thesis
    proof (cases "?n > length r")
      case True
      then show ?thesis using Some lr vr v assms(2) le by (simp add: syn_pb_decode_bytes_def Let_def)
    next
      case False
      then have le2: "?n \<le> pd_size d - pd_offset d" using le vr by simp
      then show ?thesis using Some lr vr v assms(2) A(2,3) [OF le2] wd False
        by (auto simp: syn_pb_decode_bytes_def Let_def pd_wf_def)
    qed
  qed
qed

text \<open>Reading a field: the tag, then the payload its wire type announces.\<close>

definition pb_read_payload :: "pb_decoder \<Rightarrow> u8 \<Rightarrow> pb_payload option \<times> pb_decoder" where
  "pb_read_payload d w =
     (if w = SYN_PB_WIRE_VARINT then (case syn_pb_decode_varint d of (Inr v, d2) \<Rightarrow> (Some (PB_Varint v), d2) | (Inl _, d2) \<Rightarrow> (None, d2))
      else if w = SYN_PB_WIRE_FIXED32
      then (case syn_pb_decode_fixed32 d of (Inr v, d2) \<Rightarrow> (Some (PB_Fixed32 v), d2) | (Inl _, d2) \<Rightarrow> (None, d2))
      else if w = SYN_PB_WIRE_LENGTH_DELIMITED
      then (case syn_pb_decode_bytes d of
              (Inr (p, n), d2) \<Rightarrow> (Some (PB_Bytes (take n (drop p (pd_buf d)))), d2) | (Inl _, d2) \<Rightarrow> (None, d2))
      else (None, d))"

definition pb_read_field :: "pb_decoder \<Rightarrow> (u32 \<times> pb_payload) option \<times> pb_decoder" where
  "pb_read_field dec =
     (case syn_pb_decode_tag dec of
        (Inl _, d) \<Rightarrow> (None, d)
      | (Inr tag, d) \<Rightarrow> (case pb_read_payload d (tag_wire_type tag) of
            (p, d2) \<Rightarrow> (map_option (Pair (tag_field_number tag)) p, d2)))"

lemma pb_read_payload_reads:
  assumes "pd_wf d" "payload_dec w (pd_rest d) = Some (p, r)"
  shows "\<exists>d'. pb_read_payload d w = (Some p, d') \<and> pd_moved d d' \<and> pd_rest d' = r"
proof -
  consider "w = SYN_PB_WIRE_VARINT" | "w = SYN_PB_WIRE_FIXED32" | "w = SYN_PB_WIRE_LENGTH_DELIMITED"
    using assms(2) by (auto split: if_splits)
  then show ?thesis
  proof cases
    case 1
    obtain v d' where v: "syn_pb_decode_varint d = (v, d')" by fastforce
    show ?thesis using decode_varint_reads [OF assms(1) v] assms(2) 1 v
      by (auto simp: pb_read_payload_def split: option.splits)
  next
    case 2
    obtain v d' where v: "syn_pb_decode_fixed32 d = (v, d')" by fastforce
    show ?thesis using decode_fixed32_reads [OF assms(1) v] assms(2) 2 v
      by (auto simp: pb_read_payload_def SYN_PB_WIRE_VARINT_def SYN_PB_WIRE_FIXED32_def split: list.splits)
  next
    case 3
    obtain v d' where v: "syn_pb_decode_bytes d = (v, d')" by fastforce
    show ?thesis using decode_bytes_reads [OF assms(1) v] assms(2) 3 v
      by (auto simp: pb_read_payload_def SYN_PB_WIRE_VARINT_def SYN_PB_WIRE_FIXED32_def SYN_PB_WIRE_LENGTH_DELIMITED_def Let_def
          split: option.splits if_splits)
  qed
qed

lemma pb_read_field_reads:
  assumes "pd_wf dec" "field_dec (pd_rest dec) = Some (x, r)"
  shows "\<exists>dec'. pb_read_field dec = (Some x, dec') \<and> pd_moved dec dec' \<and> pd_rest dec' = r"
proof -
  obtain t d where t: "syn_pb_decode_tag dec = (t, d)" by fastforce
  note R = decode_tag_reads [OF assms(1) t]
  obtain key s p where k: "vi_dec 0 0 (pd_rest dec) = Some (key, s)" "payload_dec (ucast (key AND 0x07)) s = Some (p, r)"
    "x = (ucast (drop_bit 3 key), p)"
    using assms(2) by (auto simp: field_dec_def simp del: payload_dec.simps split: option.splits)
  have t': "t = Inr \<lparr>tag_field_number = ucast (drop_bit 3 key), tag_wire_type = ucast (key AND 0x07)\<rparr>" "pd_rest d = s"
    using R(2) k(1) by simp_all
  have "pd_wf d" using R(1) by (simp add: pd_moved_def)
  from pb_read_payload_reads [OF this] k(2) t'(2) obtain d' where
    "pb_read_payload d (ucast (key AND 0x07)) = (Some p, d')" "pd_moved d d'" "pd_rest d' = r" by blast
  then show ?thesis using t t' k(3) pd_moved_trans [OF R(1)] by (auto simp: pb_read_field_def)
qed


fun pb_read_n :: "nat \<Rightarrow> pb_decoder \<Rightarrow> (u32 \<times> pb_payload) list option \<times> pb_decoder" where
  "pb_read_n 0 dec = (Some [], dec)"
| "pb_read_n (Suc n) dec =
     (case pb_read_field dec of
        (None, d) \<Rightarrow> (None, d)
      | (Some x, d) \<Rightarrow> (case pb_read_n n d of (xs, d2) \<Rightarrow> (map_option (Cons x) xs, d2)))"

lemma pb_read_n_reads:
  "pd_wf dec \<Longrightarrow> field.dec_n n (pd_rest dec) = Some (xs, r) \<Longrightarrow>
    \<exists>dec'. pb_read_n n dec = (Some xs, dec') \<and> pd_moved dec dec' \<and> pd_rest dec' = r"
proof (induction n arbitrary: dec xs)
  case 0
  then show ?case by (simp add: pd_moved_refl)
next
  case (Suc n)
  then obtain x s ys where f: "field_dec (pd_rest dec) = Some (x, s)" "field.dec_n n s = Some (ys, r)" "xs = x # ys"
    by (auto split: option.splits)
  from pb_read_field_reads [OF Suc.prems(1) f(1)] obtain d where
    d: "pb_read_field dec = (Some x, d)" "pd_moved dec d" "pd_rest d = s" by blast
  have "pd_wf d" using d(2) by (simp add: pd_moved_def)
  from Suc.IH [OF this] f(2) d(3) obtain d' where "pb_read_n n d = (Some ys, d')" "pd_moved d d'" "pd_rest d' = r" by blast
  then show ?case using d f(3) pd_moved_trans [OF d(2)] by auto
qed

text \<open>
  C14: Protocol Buffers round trip. Encoding calls with admissible field numbers (1 to 2^29-1) succeed
  exactly as long as the encodings fit the capacity. When all succeed, decoding the written bytes,
  tag by tag with the decoder the wire type names, gives the fields and values back in order and
  consumes the message exactly.
\<close>

theorem protobuf_roundtrip:
  assumes "syn_pb_encoder_init enc0 buf capacity = (SYN_OK, enc)" "capacity \<le> length buf"
    "\<forall>c\<in>set cs. field_ok (pb_field c)" "pb_encode_all enc cs = (st, enc')"
  shows "(st = SYN_OK \<longleftrightarrow> length (concat (map (field_enc \<circ> pb_field) cs)) \<le> capacity)
    \<and> (st = SYN_OK \<longrightarrow>
         (\<exists>dec dec'. syn_pb_decoder_init (pe_buf enc') (pe_offset enc') = (SYN_OK, dec)
            \<and> pb_read_n (length cs) dec = (Some (map pb_field cs), dec') \<and> pd_offset dec' = pd_size dec'))"
proof -
  have enc: "pe_wf enc" "pe_offset enc = 0" "pe_capacity enc = capacity" "pe_out enc = []"
    using assms(1,2) by (auto simp: syn_pb_encoder_init_def pe_wf_def pe_out_def split: if_splits)
  have f: "fst (pb_field c) = fst c" for c by (cases c; cases "snd c") auto
  have nz: "\<forall>c\<in>set cs. fst c \<noteq> 0" using assms(3) f by (auto simp: field_ok_def)
  let ?bs = "concat (map (field_enc \<circ> pb_field) cs)"
  have w: "pb_writes enc ?bs (st, enc')" using pb_encode_all_writes [OF enc(1) nz] assms(4) by simp
  then have st: "st = SYN_OK \<longleftrightarrow> length ?bs \<le> capacity" using enc by (auto simp: pb_writes_def split: if_splits)
  moreover have "\<exists>dec'. pb_read_n (length cs) dec = (Some (map pb_field cs), dec') \<and> pd_offset dec' = pd_size dec'"
    if ok: "st = SYN_OK" and dec: "dec = \<lparr>pd_buf = pe_buf enc', pd_size = pe_offset enc', pd_offset = 0\<rparr>" for dec
  proof -
    have out: "pe_out enc' = ?bs" "pe_wf enc'" using w ok st enc by (auto simp: pb_writes_def split: if_splits)
    have d: "pd_wf dec" "pd_rest dec = ?bs" using out dec by (simp_all add: pd_wf_def pe_wf_def pd_rest_def pe_out_def)
    have "field.dec_n (length (map pb_field cs)) (concat (map field_enc (map pb_field cs)) @ []) = Some (map pb_field cs, [])"
      by (rule field.dec_n_enc) (use assms(3) in simp)
    then have "field.dec_n (length cs) (pd_rest dec) = Some (map pb_field cs, [])" using d(2) by simp
    from pb_read_n_reads [OF d(1) this] obtain dec' where
      "pb_read_n (length cs) dec = (Some (map pb_field cs), dec')" "pd_moved dec dec'" "pd_rest dec' = []" by blast
    then show ?thesis by (auto simp: pd_moved_def pd_wf_def pd_rest_def)
  qed
  ultimately show ?thesis by (simp add: syn_pb_decoder_init_def)
qed

theorem protobuf_roundtrip_witness:
  "fst (pb_encode_all (snd (syn_pb_encoder_init \<lparr>pe_buf = [], pe_capacity = 0, pe_offset = 0\<rparr> (replicate 16 0) 16))
       [(1, Fixed32 7), (2, Bytes [5, 6])]) = SYN_OK"
proof -
  let ?enc = "\<lparr>pe_buf = replicate 16 0, pe_capacity = 16, pe_offset = 0\<rparr> :: pb_encoder"
  let ?cs = "[(1, Fixed32 7), (2, Bytes [5, 6])] :: (u32 \<times> pb_call) list"
  have i: "syn_pb_encoder_init \<lparr>pe_buf = [], pe_capacity = 0, pe_offset = 0\<rparr> (replicate 16 0) 16 = (SYN_OK, ?enc)"
    by (simp add: syn_pb_encoder_init_def)
  have v: "length (vi_enc v) = 1" if "\<not> 0x80 \<le> v" for v using that by (subst vi_enc.simps) simp
  have "length (concat (map (field_enc \<circ> pb_field) ?cs)) \<le> 16"
    by (simp add: field_enc_def tag_enc_def v le32_def SYN_PB_WIRE_FIXED32_def SYN_PB_WIRE_LENGTH_DELIMITED_def)
  moreover have "\<forall>c\<in>set ?cs. field_ok (pb_field c)" by (simp add: field_ok_def)
  moreover obtain st enc' where "pb_encode_all ?enc ?cs = (st, enc')" by fastforce
  ultimately show ?thesis using protobuf_roundtrip [OF i, of ?cs st enc'] i by simp
qed

text \<open>
  C27: The decoder stays within its buffer on any input: from a cursor within its bounds every operation,
  also on malformed or hostile bytes, leaves the cursor between where it was and the end, and a
  byte string it hands out lies inside the message. It reads only below the cursor's end.
\<close>

theorem protobuf_decode_in_bounds:
  assumes "pd_wf dec"
  shows "pd_moved dec (snd (syn_pb_decode_varint dec)) \<and> pd_moved dec (snd (syn_pb_decode_tag dec))
    \<and> pd_moved dec (snd (syn_pb_decode_fixed32 dec)) \<and> pd_moved dec (snd (syn_pb_decode_bytes dec))
    \<and> pd_moved dec (snd (syn_pb_skip_field dec w))
    \<and> (fst (syn_pb_decode_bytes dec) = Inr (p, n) \<longrightarrow> p + n \<le> pd_size dec)"
proof -
  have m: "pd_moved dec (snd (syn_pb_decode_varint dec))" "pd_moved dec (snd (syn_pb_decode_tag dec))"
    "pd_moved dec (snd (syn_pb_decode_fixed32 dec))" "pd_moved dec (snd (syn_pb_decode_bytes dec))"
    using decode_varint_reads(1) [OF assms] decode_tag_reads(1) [OF assms] decode_fixed32_reads(1) [OF assms]
      decode_bytes_reads(1) [OF assms] by (metis prod.collapse)+
  moreover have "pd_moved dec (dec\<lparr>pd_offset := pd_offset dec + 8\<rparr>)" if "pd_offset dec + 8 \<le> pd_size dec"
    using pd_advance(1) [OF assms, of 8] that by simp
  then have "pd_moved dec (snd (syn_pb_skip_field dec w))"
    using m pd_moved_refl [OF assms] by (auto simp: syn_pb_skip_field_def split: prod.splits)
  moreover have "p + n \<le> pd_size dec" if "fst (syn_pb_decode_bytes dec) = Inr (p, n)"
    using decode_bytes_reads(2) [OF assms, of "Inr (p, n)" "snd (syn_pb_decode_bytes dec)"] that
    by (auto simp: Let_def prod_eq_iff split: option.splits if_splits)
  ultimately show ?thesis by blast
qed

theorem protobuf_decode_in_bounds_witness:
  "pd_moved \<lparr>pd_buf = [255, 3], pd_size = 2, pd_offset = 0\<rparr> (snd (syn_pb_decode_bytes \<lparr>pd_buf = [255, 3], pd_size = 2, pd_offset = 0\<rparr>))"
  using protobuf_decode_in_bounds [of "\<lparr>pd_buf = [255, 3], pd_size = 2, pd_offset = 0\<rparr>" 0 0 0] by (simp add: pd_wf_def)

end
