(* ===== verification/Syn_Cbor.thy ===== *)
theory Syn_Cbor
  imports Syn_Codec
begin

text \<open>
  The CBOR writer and reader of \<^verbatim>\<open>util/syn_cbor_write.c\<close> and \<^verbatim>\<open>util/syn_cbor_read.c\<close>. Writer and reader are
  records with the sticky flags \<^verbatim>\<open>overflow\<close> and \<^verbatim>\<open>ok\<close>; a float is its 32 bits (the code copies
  them with \<^verbatim>\<open>memcpy\<close>); \<^verbatim>\<open>size_t\<close> is 32 bits wide where a 64-bit argument is converted to it.
\<close>

datatype SYN_CborType = SYN_CBOR_UINT | SYN_CBOR_INT | SYN_CBOR_BYTES | SYN_CBOR_TEXT | SYN_CBOR_ARRAY
  | SYN_CBOR_MAP | SYN_CBOR_FLOAT | SYN_CBOR_BOOL | SYN_CBOR_NULL | SYN_CBOR_ERROR

record cbor_writer =
  cw_buf :: "u8 list"
  cw_cap :: nat
  cw_len :: nat
  cw_overflow :: bool

record cbor_reader =
  cr_buf :: "u8 list"
  cr_len :: nat
  cr_pos :: nat
  cr_ok :: bool

text \<open>The conversion \<^verbatim>\<open>(size_t)v\<close>.\<close>

definition to_size :: "u64 \<Rightarrow> nat" where
  "to_size v = unat (ucast v :: u32)"

subsection \<open>Writer\<close>

definition emit_byte :: "u8 \<Rightarrow> cbor_writer \<Rightarrow> cbor_writer" where
  "emit_byte b w =
     (if cw_overflow w then w
      else if cw_len w \<ge> cw_cap w then w\<lparr>cw_overflow := True\<rparr>
      else w\<lparr>cw_buf := (cw_buf w)[cw_len w := b], cw_len := cw_len w + 1\<rparr>)"

definition emit_raw :: "u8 list \<Rightarrow> cbor_writer \<Rightarrow> cbor_writer" where
  "emit_raw data w = fold emit_byte data w"

definition emit_head :: "u8 \<Rightarrow> u64 \<Rightarrow> cbor_writer \<Rightarrow> cbor_writer" where
  "emit_head major val w =
     (let mt = push_bit 5 (major AND 0x07) in
      if val \<le> 23 then emit_byte (mt OR ucast val) w
      else if val \<le> 0xFF then emit_byte (ucast val) (emit_byte (mt OR 24) w)
      else if val \<le> 0xFFFF then emit_byte (ucast val) (emit_byte (ucast (drop_bit 8 val)) (emit_byte (mt OR 25) w))
      else if val \<le> 0xFFFFFFFF
      then emit_byte (ucast val) (emit_byte (ucast (drop_bit 8 val)) (emit_byte (ucast (drop_bit 16 val))
             (emit_byte (ucast (drop_bit 24 val)) (emit_byte (mt OR 26) w))))
      else emit_byte (ucast val) (emit_byte (ucast (drop_bit 8 val)) (emit_byte (ucast (drop_bit 16 val))
             (emit_byte (ucast (drop_bit 24 val)) (emit_byte (ucast (drop_bit 32 val)) (emit_byte (ucast (drop_bit 40 val))
                (emit_byte (ucast (drop_bit 48 val)) (emit_byte (ucast (drop_bit 56 val)) (emit_byte (mt OR 27) w)))))))))"

definition syn_cbor_writer_init :: "u8 list \<Rightarrow> nat \<Rightarrow> cbor_writer" where
  "syn_cbor_writer_init buf cap = \<lparr>cw_buf = buf, cw_cap = cap, cw_len = 0, cw_overflow = False\<rparr>"

definition syn_cbor_write_map_begin :: "cbor_writer \<Rightarrow> nat \<Rightarrow> cbor_writer" where
  "syn_cbor_write_map_begin w count = emit_head 5 (of_nat count) w"

definition syn_cbor_write_array_begin :: "cbor_writer \<Rightarrow> nat \<Rightarrow> cbor_writer" where
  "syn_cbor_write_array_begin w count = emit_head 4 (of_nat count) w"

definition syn_cbor_write_uint :: "cbor_writer \<Rightarrow> u64 \<Rightarrow> cbor_writer" where
  "syn_cbor_write_uint w v = emit_head 0 v w"

definition syn_cbor_write_int :: "cbor_writer \<Rightarrow> u64 \<Rightarrow> cbor_writer" where
  "syn_cbor_write_int w v = (if 0 \<le> sint v then emit_head 0 v w else emit_head 1 (- 1 - v) w)"

definition syn_cbor_write_float :: "cbor_writer \<Rightarrow> u32 \<Rightarrow> cbor_writer" where
  "syn_cbor_write_float w bits =
     emit_byte (ucast bits) (emit_byte (ucast (drop_bit 8 bits)) (emit_byte (ucast (drop_bit 16 bits))
       (emit_byte (ucast (drop_bit 24 bits)) (emit_byte 0xFA w))))"

definition syn_cbor_write_bool :: "cbor_writer \<Rightarrow> bool \<Rightarrow> cbor_writer" where
  "syn_cbor_write_bool w v = emit_byte (if v then 0xF5 else 0xF4) w"

definition syn_cbor_write_null :: "cbor_writer \<Rightarrow> cbor_writer" where
  "syn_cbor_write_null w = emit_byte 0xF6 w"

definition syn_cbor_write_text :: "cbor_writer \<Rightarrow> u8 list \<Rightarrow> cbor_writer" where
  "syn_cbor_write_text w str = emit_raw str (emit_head 3 (of_nat (length str)) w)"

definition syn_cbor_write_text_cstr :: "cbor_writer \<Rightarrow> u8 list \<Rightarrow> cbor_writer" where
  "syn_cbor_write_text_cstr w str = syn_cbor_write_text w (takeWhile (\<lambda>c. c \<noteq> 0) str)"

definition syn_cbor_write_bytes :: "cbor_writer \<Rightarrow> u8 list \<Rightarrow> cbor_writer" where
  "syn_cbor_write_bytes w data = emit_raw data (emit_head 2 (of_nat (length data)) w)"

definition syn_cbor_writer_len :: "cbor_writer \<Rightarrow> nat" where
  "syn_cbor_writer_len w = cw_len w"

definition syn_cbor_writer_ok :: "cbor_writer \<Rightarrow> bool" where
  "syn_cbor_writer_ok w \<longleftrightarrow> \<not> cw_overflow w"

subsection \<open>Reader\<close>

definition consume_byte :: "cbor_reader \<Rightarrow> u8 \<times> cbor_reader" where
  "consume_byte r =
     (if cr_pos r \<ge> cr_len r then (0, r\<lparr>cr_ok := False\<rparr>)
      else (cr_buf r ! cr_pos r, r\<lparr>cr_pos := cr_pos r + 1\<rparr>))"

definition peek_byte :: "cbor_reader \<Rightarrow> u8" where
  "peek_byte r = (if cr_pos r \<ge> cr_len r then 0 else cr_buf r ! cr_pos r)"

text \<open>The loop \<^verbatim>\<open>v = (v << 8) | consume_byte(r)\<close>.\<close>

fun consume_be :: "nat \<Rightarrow> u64 \<Rightarrow> cbor_reader \<Rightarrow> u64 \<times> cbor_reader" where
  "consume_be 0 v r = (v, r)"
| "consume_be (Suc n) v r = (case consume_byte r of (b, r1) \<Rightarrow> consume_be n (push_bit 8 v OR ucast b) r1)"

definition decode_arg :: "cbor_reader \<Rightarrow> u8 \<Rightarrow> u64 \<times> cbor_reader" where
  "decode_arg r info =
     (if info \<le> 23 then (ucast info, r)
      else if info = 24 then (case consume_byte r of (b, r1) \<Rightarrow> (ucast b, r1))
      else if info = 25
      then (case consume_byte r of (hi, r1) \<Rightarrow> case consume_byte r1 of (lo, r2) \<Rightarrow>
              (push_bit 8 (ucast hi) OR ucast lo, r2))
      else if info = 26
      then (case consume_byte r of (b3, r1) \<Rightarrow> case consume_byte r1 of (b2, r2) \<Rightarrow>
            case consume_byte r2 of (b1, r3) \<Rightarrow> case consume_byte r3 of (b0, r4) \<Rightarrow>
              (push_bit 24 (ucast b3) OR push_bit 16 (ucast b2) OR push_bit 8 (ucast b1) OR ucast b0, r4))
      else if info = 27 then consume_be 8 0 r
      else (0, r\<lparr>cr_ok := False\<rparr>))"

definition syn_cbor_reader_init :: "u8 list \<Rightarrow> nat \<Rightarrow> cbor_reader" where
  "syn_cbor_reader_init buf n = \<lparr>cr_buf = buf, cr_len = n, cr_pos = 0, cr_ok = True\<rparr>"

definition syn_cbor_peek_type :: "cbor_reader \<Rightarrow> SYN_CborType" where
  "syn_cbor_peek_type r =
     (if cr_pos r \<ge> cr_len r then SYN_CBOR_ERROR
      else
        let b = peek_byte r; major = drop_bit 5 b; info = b AND 0x1F
        in if major \<le> 5
           then (if major = 0 then SYN_CBOR_UINT else if major = 1 then SYN_CBOR_INT
                 else if major = 2 then SYN_CBOR_BYTES else if major = 3 then SYN_CBOR_TEXT
                 else if major = 4 then SYN_CBOR_ARRAY else SYN_CBOR_MAP)
           else if info = 20 \<or> info = 21 then SYN_CBOR_BOOL
           else if info = 22 then SYN_CBOR_NULL
           else if info = 25 \<or> info = 26 \<or> info = 27 then SYN_CBOR_FLOAT
           else SYN_CBOR_ERROR)"

definition SKIP_MAX_DEPTH :: nat where "SKIP_MAX_DEPTH = 8"

text \<open>
  The loop of \<^verbatim>\<open>syn_cbor_skip\<close>. The array \<^verbatim>\<open>pending[0..depth]\<close> is a list with the innermost
  level first. \<open>skip_item\<close> is one pass of the body up to the popping of levels; \<open>None\<close> is an early return.
\<close>

definition skip_item :: "nat list \<Rightarrow> cbor_reader \<Rightarrow> nat list option \<times> cbor_reader" where
  "skip_item pending r =
     (if cr_pos r \<ge> cr_len r then (None, r\<lparr>cr_ok := False\<rparr>)
      else case consume_byte r of (b, r1) \<Rightarrow>
        let major = drop_bit 5 b; info = b AND 0x1F
        in if major = 7
           then let skip_bytes = (if info = 25 then 2 else if info = 26 then 4 else if info = 27 then 8 else 0)
                in if skip_bytes > 0
                   then if cr_len r1 - cr_pos r1 < skip_bytes then (None, r1\<lparr>cr_ok := False\<rparr>)
                        else (Some pending, r1\<lparr>cr_pos := cr_pos r1 + skip_bytes\<rparr>)
                   else (Some pending, r1)
           else if major = 2 \<or> major = 3
           then (case decode_arg r1 info of (n, r2) \<Rightarrow>
                   if \<not> cr_ok r2 \<or> to_size n > cr_len r2 - cr_pos r2 then (None, r2\<lparr>cr_ok := False\<rparr>)
                   else (Some pending, r2\<lparr>cr_pos := cr_pos r2 + to_size n\<rparr>))
           else if major = 4
           then (case decode_arg r1 info of (n, r2) \<Rightarrow>
                   if length pending \<ge> SKIP_MAX_DEPTH then (None, r2\<lparr>cr_ok := False\<rparr>)
                   else (Some (to_size n # pending), r2))
           else if major = 5
           then (case decode_arg r1 info of (n, r2) \<Rightarrow>
                   if length pending \<ge> SKIP_MAX_DEPTH then (None, r2\<lparr>cr_ok := False\<rparr>)
                   else (Some (to_size (n * 2) # pending), r2))
           else (case decode_arg r1 info of (n, r2) \<Rightarrow> (Some pending, r2)))"

text \<open>Popping completed levels; the outermost level stays.\<close>

fun pop_levels :: "nat list \<Rightarrow> nat list" where
  "pop_levels (0 # p # ps) = pop_levels (p # ps)"
| "pop_levels ps = ps"

text \<open>
  How an operation may change a reader: same buffer, the position moves forward and not past the
  end, and the error flag is sticky.
\<close>

definition cr_adv :: "cbor_reader \<Rightarrow> cbor_reader \<Rightarrow> bool" where
  "cr_adv r r' \<longleftrightarrow> cr_buf r' = cr_buf r \<and> cr_len r' = cr_len r \<and> cr_pos r \<le> cr_pos r'
     \<and> (cr_pos r \<le> cr_len r \<longrightarrow> cr_pos r' \<le> cr_len r) \<and> (cr_ok r' \<longrightarrow> cr_ok r)"

lemma cr_adv_refl [simp]: "cr_adv r r"
  by (simp add: cr_adv_def)

lemma cr_adv_trans: "cr_adv a b \<Longrightarrow> cr_adv b c \<Longrightarrow> cr_adv a c"
  by (auto simp: cr_adv_def)

lemma cr_adv_fail [simp]: "cr_adv a (b\<lparr>cr_ok := False\<rparr>)" if "cr_adv a b"
  using that by (auto simp: cr_adv_def)

lemma cr_adv_skip: "cr_adv a b \<Longrightarrow> n \<le> cr_len b - cr_pos b \<Longrightarrow> cr_adv a (b\<lparr>cr_pos := cr_pos b + n\<rparr>)"
  by (auto simp: cr_adv_def)

lemma consume_byte_adv: "consume_byte r = (b, r1) \<Longrightarrow> cr_adv r r1"
  by (auto simp: consume_byte_def cr_adv_def split: if_splits)

lemma consume_be_adv: "consume_be n v r = (x, r1) \<Longrightarrow> cr_adv r r1"
proof (induction n arbitrary: v r)
  case (Suc n)
  obtain b r' where b: "consume_byte r = (b, r')" by fastforce
  then show ?case using Suc cr_adv_trans [OF consume_byte_adv [OF b]] by simp
qed simp

lemma decode_arg_adv: "decode_arg r info = (n, r1) \<Longrightarrow> cr_adv r r1"
  by (auto simp: decode_arg_def split: if_splits prod.splits
      intro: consume_byte_adv consume_be_adv cr_adv_trans [OF consume_byte_adv])
    (meson consume_byte_adv cr_adv_trans)

lemma skip_item_adv:
  assumes "skip_item pending r = (res, r')"
  shows "cr_adv r r'" "res = Some p' \<Longrightarrow> cr_pos r < cr_len r \<and> cr_pos r < cr_pos r'"
proof -
  obtain b r1 where b: "consume_byte r = (b, r1)" by fastforce
  obtain n r2 where n: "decode_arg r1 (b AND 0x1F) = (n, r2)" by fastforce
  note a1 = consume_byte_adv [OF b] and a2 = decode_arg_adv [OF n]
  note a = a1 cr_adv_trans [OF a1 a2]
  show "cr_adv r r'"
    using assms a b n cr_adv_skip [OF a1, of 2] by (auto simp: skip_item_def Let_def intro: cr_adv_skip split: if_splits)
  have "cr_pos r < cr_pos r1" if "cr_pos r < cr_len r" using b that by (auto simp: consume_byte_def)
  moreover have "cr_pos r1 \<le> cr_pos r2" using a2 by (simp add: cr_adv_def)
  ultimately show "cr_pos r < cr_len r \<and> cr_pos r < cr_pos r'" if "res = Some p'"
    using assms b n that by (auto simp: skip_item_def Let_def split: if_splits)
qed

lemma skip_item_measure: "skip_item pending r = (Some p', r') \<Longrightarrow> cr_len r' - cr_pos r' < cr_len r - cr_pos r"
  using skip_item_adv [of pending r "Some p'" r'] by (simp add: cr_adv_def) linarith

function cbor_skip_loop :: "nat list \<Rightarrow> cbor_reader \<Rightarrow> cbor_reader" where
  "cbor_skip_loop pending r =
     (case pending of
        [] \<Rightarrow> r
      | p # ps \<Rightarrow>
          if p > 0 then
            (case skip_item ((p - 1) # ps) r of
               (None, r1) \<Rightarrow> r1
             | (Some pending1, r1) \<Rightarrow> cbor_skip_loop (pop_levels pending1) r1)
          else r)"
  by auto
termination
  by (relation "measure (\<lambda>(pending, r). cr_len r - cr_pos r)")
    (auto dest!: sym [of _ "skip_item _ _"] skip_item_measure)


declare cbor_skip_loop.simps [simp del]

definition syn_cbor_skip :: "cbor_reader \<Rightarrow> cbor_reader" where
  "syn_cbor_skip r = cbor_skip_loop [1] r"

text \<open>The common opening of the read operations: one header byte, or the error of an exhausted input.\<close>

definition syn_cbor_read_map_begin :: "cbor_reader \<Rightarrow> nat \<times> cbor_reader" where
  "syn_cbor_read_map_begin r =
     (if cr_pos r \<ge> cr_len r then (0, r\<lparr>cr_ok := False\<rparr>)
      else case consume_byte r of (b, r1) \<Rightarrow>
        if drop_bit 5 b \<noteq> 5 then (0, r1\<lparr>cr_ok := False\<rparr>)
        else (case decode_arg r1 (b AND 0x1F) of (n, r2) \<Rightarrow> (to_size n, r2)))"

definition syn_cbor_read_array_begin :: "cbor_reader \<Rightarrow> nat \<times> cbor_reader" where
  "syn_cbor_read_array_begin r =
     (if cr_pos r \<ge> cr_len r then (0, r\<lparr>cr_ok := False\<rparr>)
      else case consume_byte r of (b, r1) \<Rightarrow>
        if drop_bit 5 b \<noteq> 4 then (0, r1\<lparr>cr_ok := False\<rparr>)
        else (case decode_arg r1 (b AND 0x1F) of (n, r2) \<Rightarrow> (to_size n, r2)))"

definition syn_cbor_read_uint :: "cbor_reader \<Rightarrow> u64 \<times> cbor_reader" where
  "syn_cbor_read_uint r =
     (if cr_pos r \<ge> cr_len r then (0, r\<lparr>cr_ok := False\<rparr>)
      else case consume_byte r of (b, r1) \<Rightarrow>
        if drop_bit 5 b \<noteq> 0 then (0, r1\<lparr>cr_ok := False\<rparr>) else decode_arg r1 (b AND 0x1F))"

definition syn_cbor_read_int :: "cbor_reader \<Rightarrow> u64 \<times> cbor_reader" where
  "syn_cbor_read_int r =
     (if cr_pos r \<ge> cr_len r then (0, r\<lparr>cr_ok := False\<rparr>)
      else case consume_byte r of (b, r1) \<Rightarrow>
        let major = drop_bit 5 b; info = b AND 0x1F
        in if major = 0 then decode_arg r1 info
           else if major = 1 then (case decode_arg r1 info of (n, r2) \<Rightarrow> (- 1 - n, r2))
           else (0, r1\<lparr>cr_ok := False\<rparr>))"

definition syn_cbor_read_float :: "cbor_reader \<Rightarrow> u32 \<times> cbor_reader" where
  "syn_cbor_read_float r =
     (if cr_pos r \<ge> cr_len r then (0, r\<lparr>cr_ok := False\<rparr>)
      else case consume_byte r of (b, r0) \<Rightarrow>
        if b \<noteq> 0xFA then (0, r0\<lparr>cr_ok := False\<rparr>)
        else case consume_byte r0 of (b3, r1) \<Rightarrow> case consume_byte r1 of (b2, r2) \<Rightarrow>
             case consume_byte r2 of (b1, r3) \<Rightarrow> case consume_byte r3 of (b0, r4) \<Rightarrow>
               if \<not> cr_ok r4 then (0, r4)
               else (push_bit 24 (ucast b3) OR push_bit 16 (ucast b2) OR push_bit 8 (ucast b1) OR ucast b0, r4))"

definition syn_cbor_read_bool :: "cbor_reader \<Rightarrow> bool \<times> cbor_reader" where
  "syn_cbor_read_bool r =
     (if cr_pos r \<ge> cr_len r then (False, r\<lparr>cr_ok := False\<rparr>)
      else case consume_byte r of (b, r1) \<Rightarrow>
        if b = 0xF5 then (True, r1) else if b = 0xF4 then (False, r1) else (False, r1\<lparr>cr_ok := False\<rparr>))"

definition syn_cbor_read_null :: "cbor_reader \<Rightarrow> cbor_reader" where
  "syn_cbor_read_null r =
     (if cr_pos r \<ge> cr_len r then r\<lparr>cr_ok := False\<rparr>
      else case consume_byte r of (b, r1) \<Rightarrow> if b \<noteq> 0xF6 then r1\<lparr>cr_ok := False\<rparr> else r1)"

text \<open>
  Reading a string into a caller's buffer \<open>buf\<close> of \<open>cap\<close> bytes (\<open>None\<close> is \<^verbatim>\<open>NULL\<close>): the length in the
  message, the buffer, the reader. A text is truncated to leave room for its terminator.
\<close>

definition store_at :: "u8 list \<Rightarrow> u8 list \<Rightarrow> u8 list" where
  "store_at buf data = data @ drop (length data) buf"

definition syn_cbor_read_text :: "cbor_reader \<Rightarrow> u8 list option \<Rightarrow> nat \<Rightarrow> nat \<times> u8 list option \<times> cbor_reader" where
  "syn_cbor_read_text r buf cap =
     (if cr_pos r \<ge> cr_len r then (0, buf, r\<lparr>cr_ok := False\<rparr>)
      else case consume_byte r of (b, r1) \<Rightarrow>
        if drop_bit 5 b \<noteq> 3 then (0, buf, r1\<lparr>cr_ok := False\<rparr>)
        else case decode_arg r1 (b AND 0x1F) of (arg, r2) \<Rightarrow>
          let n = to_size arg;
              available = (if cr_pos r2 < cr_len r2 then cr_len r2 - cr_pos r2 else 0);
              copy0 = (if n < cap then n else if cap > 0 then cap - 1 else 0);
              copy = (if copy0 > available then available else copy0);
              buf1 = (if cap > 0 then map_option (\<lambda>m. store_at m (take copy (drop (cr_pos r2) (cr_buf r2)) @ [0])) buf else buf)
          in if n \<le> available then (n, buf1, r2\<lparr>cr_pos := cr_pos r2 + n\<rparr>)
             else (n, buf1, r2\<lparr>cr_pos := cr_len r2, cr_ok := False\<rparr>))"

definition syn_cbor_read_bytes :: "cbor_reader \<Rightarrow> u8 list option \<Rightarrow> nat \<Rightarrow> nat \<times> u8 list option \<times> cbor_reader" where
  "syn_cbor_read_bytes r buf cap =
     (if cr_pos r \<ge> cr_len r then (0, buf, r\<lparr>cr_ok := False\<rparr>)
      else case consume_byte r of (b, r1) \<Rightarrow>
        if drop_bit 5 b \<noteq> 2 then (0, buf, r1\<lparr>cr_ok := False\<rparr>)
        else case decode_arg r1 (b AND 0x1F) of (arg, r2) \<Rightarrow>
          let n = to_size arg;
              available = (if cr_pos r2 < cr_len r2 then cr_len r2 - cr_pos r2 else 0);
              copy0 = (if n < cap then n else cap);
              copy = (if copy0 > available then available else copy0);
              buf1 = map_option (\<lambda>m. store_at m (take copy (drop (cr_pos r2) (cr_buf r2)))) buf
          in if n \<le> available then (n, buf1, r2\<lparr>cr_pos := cr_pos r2 + n\<rparr>)
             else (n, buf1, r2\<lparr>cr_pos := cr_len r2, cr_ok := False\<rparr>))"

definition syn_cbor_reader_ok :: "cbor_reader \<Rightarrow> bool" where
  "syn_cbor_reader_ok r \<longleftrightarrow> cr_ok r"

definition syn_cbor_reader_done :: "cbor_reader \<Rightarrow> bool" where
  "syn_cbor_reader_done r \<longleftrightarrow> cr_pos r \<ge> cr_len r"

subsection \<open>The encodings as byte lists\<close>

text \<open>Big-endian bytes and their value.\<close>

fun be_bytes :: "nat \<Rightarrow> 'a::len word \<Rightarrow> u8 list" where
  "be_bytes 0 v = []"
| "be_bytes (Suc k) v = ucast (drop_bit (8 * k) v) # be_bytes k v"

fun be_val :: "u8 list \<Rightarrow> 'a::len word \<Rightarrow> 'a word" where
  "be_val [] acc = acc"
| "be_val (b # bs) acc = be_val bs (push_bit 8 acc OR ucast b)"

lemma length_be_bytes [simp]: "length (be_bytes k v) = k"
  by (induction k) simp_all

lemma be_val_bytes: "be_val (be_bytes k v) acc = push_bit (8 * k) acc OR take_bit (8 * k) v"
proof (induction k arbitrary: acc)
  case (Suc k)
  have "push_bit (8 * k) (push_bit 8 acc OR ucast (ucast (drop_bit (8 * k) v) :: u8)) OR take_bit (8 * k) v =
      push_bit (8 * Suc k) acc OR take_bit (8 * Suc k) v"
  proof (rule bit_word_eqI)
    fix n assume n: "n < LENGTH('a)"
    consider "n < 8 * k" | "8 * k \<le> n" "n < 8 * k + 8" | "8 * k + 8 \<le> n" by linarith
    then show "bit (push_bit (8 * k) (push_bit 8 acc OR ucast (ucast (drop_bit (8 * k) v) :: u8)) OR take_bit (8 * k) v) n =
      bit (push_bit (8 * Suc k) acc OR take_bit (8 * Suc k) v) n"
      using n by cases (auto simp: bit_simps add.commute)
  qed
  then show ?case by (simp only: be_bytes.simps be_val.simps Suc.IH)
qed simp


definition head_bytes :: "u8 \<Rightarrow> u64 \<Rightarrow> u8 list" where
  "head_bytes major val =
     (let mt = push_bit 5 (major AND 0x07) in
      if val \<le> 23 then [mt OR ucast val]
      else if val \<le> 0xFF then (mt OR 24) # be_bytes 1 val
      else if val \<le> 0xFFFF then (mt OR 25) # be_bytes 2 val
      else if val \<le> 0xFFFFFFFF then (mt OR 26) # be_bytes 4 val
      else (mt OR 27) # be_bytes 8 val)"

lemma be_bytes_numerals:
  "be_bytes 1 v = [ucast v]" "be_bytes 2 v = [ucast (drop_bit 8 v), ucast v]"
  "be_bytes 4 v = [ucast (drop_bit 24 v), ucast (drop_bit 16 v), ucast (drop_bit 8 v), ucast v]"
  "be_bytes 8 v = [ucast (drop_bit 56 v), ucast (drop_bit 48 v), ucast (drop_bit 40 v), ucast (drop_bit 32 v),
     ucast (drop_bit 24 v), ucast (drop_bit 16 v), ucast (drop_bit 8 v), ucast v]"
  by (simp_all add: be_bytes.simps(2) [of 0, simplified] be_bytes.simps(2) [of 1, simplified]
      numeral_eq_Suc)

lemma emit_head_raw: "emit_head major val w = emit_raw (head_bytes major val) w"
  by (simp add: emit_head_def head_bytes_def emit_raw_def be_bytes_numerals Let_def)

lemma head_bytes_nonempty: "head_bytes major val \<noteq> []"
  by (simp add: head_bytes_def Let_def)

subsection \<open>The writer appends\<close>

definition cw_wf :: "cbor_writer \<Rightarrow> bool" where
  "cw_wf w \<longleftrightarrow> cw_len w \<le> cw_cap w \<and> cw_cap w \<le> length (cw_buf w)"

definition cw_out :: "cbor_writer \<Rightarrow> u8 list" where
  "cw_out w = take (cw_len w) (cw_buf w)"

definition cw_writes :: "cbor_writer \<Rightarrow> u8 list \<Rightarrow> cbor_writer \<Rightarrow> bool" where
  "cw_writes w bs w' \<longleftrightarrow> cw_wf w' \<and> cw_cap w' = cw_cap w
     \<and> (cw_overflow w' \<longleftrightarrow> cw_overflow w \<or> cw_cap w < cw_len w + length bs)
     \<and> (\<not> cw_overflow w' \<longrightarrow> cw_out w' = cw_out w @ bs)"

lemma cw_writes_Nil: "cw_wf w \<Longrightarrow> cw_writes w [] w"
  by (simp add: cw_writes_def cw_wf_def)

lemma cw_writes_append:
  assumes "cw_wf w" "cw_writes w as w1" "cw_writes w1 bs w2"
  shows "cw_writes w (as @ bs) w2"
proof (cases "cw_overflow w1")
  case False
  then have o: "cw_out w1 = cw_out w @ as" "cw_wf w1" using assms(2) by (auto simp: cw_writes_def)
  then have "length (cw_out w1) = length (cw_out w) + length as" by simp
  then have "cw_len w1 = cw_len w + length as" using assms(1) o(2) by (simp add: cw_out_def cw_wf_def)
  then show ?thesis using assms(2,3) o False by (auto simp: cw_writes_def)
qed (use assms(2,3) in \<open>auto simp: cw_writes_def\<close>)

lemma emit_byte_writes: "cw_wf w \<Longrightarrow> cw_writes w [b] (emit_byte b w)"
  by (auto simp: cw_writes_def cw_wf_def cw_out_def emit_byte_def take_Suc_conv_app_nth)

lemma emit_raw_writes: "cw_wf w \<Longrightarrow> cw_writes w bs (emit_raw bs w)"
proof (induction bs arbitrary: w)
  case Nil
  then show ?case by (simp add: emit_raw_def cw_writes_Nil)
next
  case (Cons b bs)
  have e: "cw_writes w [b] (emit_byte b w)" by (rule emit_byte_writes [OF Cons.prems])
  then have "cw_writes (emit_byte b w) bs (emit_raw bs (emit_byte b w))" using Cons.IH by (simp add: cw_writes_def)
  from cw_writes_append [OF Cons.prems e this] show ?case by (simp add: emit_raw_def)
qed

lemma emit_raw_append: "emit_raw bs (emit_raw as w) = emit_raw (as @ bs) w"
  by (simp add: emit_raw_def)

lemma emit_byte_raw: "emit_byte b w = emit_raw [b] w"
  by (simp add: emit_raw_def)


subsection \<open>The reader reads back\<close>

definition cr_wf :: "cbor_reader \<Rightarrow> bool" where
  "cr_wf r \<longleftrightarrow> cr_pos r \<le> cr_len r \<and> cr_len r \<le> length (cr_buf r)"

definition cr_rest :: "cbor_reader \<Rightarrow> u8 list" where
  "cr_rest r = drop (cr_pos r) (take (cr_len r) (cr_buf r))"

abbreviation cr_move :: "nat \<Rightarrow> cbor_reader \<Rightarrow> cbor_reader" where
  "cr_move n r \<equiv> r\<lparr>cr_pos := cr_pos r + n\<rparr>"

lemma length_cr_rest: "cr_wf r \<Longrightarrow> length (cr_rest r) = cr_len r - cr_pos r"
  by (simp add: cr_wf_def cr_rest_def)

lemma cr_rest_move: "cr_rest (cr_move n r) = drop n (cr_rest r)"
  by (simp add: cr_rest_def add.commute)

lemma cr_move_split:
  assumes "cr_wf r" "cr_rest r = bs @ s"
  shows "cr_wf (cr_move (length bs) r)" "cr_rest (cr_move (length bs) r) = s" "length bs \<le> cr_len r - cr_pos r"
    "take (length bs) (drop (cr_pos r) (cr_buf r)) = bs" "n \<le> length bs \<Longrightarrow> take n (drop (cr_pos r) (cr_buf r)) = take n bs"
proof -
  have l: "length bs + length s = cr_len r - cr_pos r" using length_cr_rest [OF assms(1)] assms(2) by simp
  show "cr_wf (cr_move (length bs) r)" "length bs \<le> cr_len r - cr_pos r" using assms(1) l by (auto simp: cr_wf_def)
  show "cr_rest (cr_move (length bs) r) = s" by (simp add: cr_rest_move assms(2))
  have "take n (drop (cr_pos r) (cr_buf r)) = take n (cr_rest r)" if "n \<le> cr_len r - cr_pos r" for n
    using that by (simp add: cr_rest_def drop_take min_def)
  then show "take (length bs) (drop (cr_pos r) (cr_buf r)) = bs" "n \<le> length bs \<Longrightarrow> take n (drop (cr_pos r) (cr_buf r)) = take n bs"
    using l assms(2) by auto
qed

lemma consume_byte_rest:
  assumes "cr_wf r" "cr_rest r = b # s"
  shows "consume_byte r = (b, cr_move 1 r)" "cr_pos r < cr_len r"
proof -
  show lt: "cr_pos r < cr_len r" using length_cr_rest [OF assms(1)] assms(2) by simp
  have "cr_buf r ! cr_pos r = hd (cr_rest r)" using lt assms(1) by (simp add: cr_rest_def cr_wf_def hd_drop_conv_nth)
  then show "consume_byte r = (b, cr_move 1 r)" using lt assms(2) by (simp add: consume_byte_def)
qed

lemma consume_be_rest:
  "cr_wf r \<Longrightarrow> cr_rest r = bs @ s \<Longrightarrow> consume_be (length bs) v r = (be_val bs v, cr_move (length bs) r)"
proof (induction bs arbitrary: r v)
  case (Cons b bs)
  then have c: "consume_byte r = (b, cr_move 1 r)" using consume_byte_rest by simp
  have "cr_wf (cr_move 1 r)" "cr_rest (cr_move 1 r) = bs @ s"
    using cr_move_split [of r "[b]" "bs @ s"] Cons.prems by simp_all
  from Cons.IH [OF this] c show ?case by simp
qed simp

lemma decode_arg_be:
  "decode_arg r 24 = consume_be 1 0 r" "decode_arg r 25 = consume_be 2 0 r"
  "decode_arg r 26 = consume_be 4 0 r" "decode_arg r 27 = consume_be 8 0 r"
proof -
  have n: "(1 :: nat) = Suc 0" "(2 :: nat) = Suc (Suc 0)" "(4 :: nat) = Suc (Suc (Suc (Suc 0)))" by simp_all
  show "decode_arg r 24 = consume_be 1 0 r" unfolding n(1) by (simp add: decode_arg_def split: prod.splits)
  show "decode_arg r 25 = consume_be 2 0 r" unfolding n(2) by (simp add: decode_arg_def split: prod.splits)
  show "decode_arg r 26 = consume_be 4 0 r" unfolding n(3)
    by (simp add: decode_arg_def push_bit_or or.assoc split: prod.splits)
  show "decode_arg r 27 = consume_be 8 0 r" by (simp add: decode_arg_def)
qed

lemma head_byte:
  fixes x :: u8
  assumes "unat x < 32"
  shows "drop_bit 5 (push_bit 5 (major AND 0x07) OR x) = major AND 0x07" "(push_bit 5 (major AND 0x07) OR x) AND 0x1F = x"
proof -
  have and_7: "y AND 0x07 = take_bit 3 y" "y AND 0x1F = take_bit 5 y" for y :: u8
    by (simp_all add: take_bit_eq_mask mask_eq_exp_minus_1)
  have "take_bit 5 (unat x) = unat x" using assms by (simp add: take_bit_nat_eq_self_iff)
  then have "take_bit 5 x = x" by (metis unsigned_take_bit_eq word_unat_eq_iff)
  then have hi: "\<not> bit x n" if "5 \<le> n" for n using that by (metis bit_take_bit_iff not_less)
  have lo: "n < 5" if "bit x n" for n using hi that not_less by blast
  show "drop_bit 5 (push_bit 5 (major AND 0x07) OR x) = major AND 0x07"
    by (rule bit_word_eqI) (auto simp: and_7 bit_simps hi)
  show "(push_bit 5 (major AND 0x07) OR x) AND 0x1F = x"
    by (rule bit_word_eqI) (auto simp: and_7 bit_simps dest: lo)
qed

text \<open>A header read back: its first byte tells the major type, and the argument follows.\<close>

lemma read_head:
  assumes "cr_wf r" "cr_rest r = head_bytes major val @ s" "major AND 0x07 = major"
  shows "\<exists>b. cr_pos r < cr_len r \<and> consume_byte r = (b, cr_move 1 r) \<and> drop_bit 5 b = major
    \<and> decode_arg (cr_move 1 r) (b AND 0x1F) = (val, cr_move (length (head_bytes major val)) r)"
proof -
  have gen: ?thesis if hb: "head_bytes major val = (push_bit 5 (major AND 0x07) OR x) # bs" and x: "unat x < 32"
    and arg: "\<And>r. cr_wf r \<Longrightarrow> cr_rest r = bs @ s \<Longrightarrow> decode_arg r x = (val, cr_move (length bs) r)" for x bs
  proof -
    let ?b = "push_bit 5 (major AND 0x07) OR x"
    have c: "consume_byte r = (?b, cr_move 1 r)" "cr_pos r < cr_len r"
      using consume_byte_rest [OF assms(1)] assms(2) hb by simp_all
    have "cr_wf (cr_move 1 r)" "cr_rest (cr_move 1 r) = bs @ s"
      using cr_move_split [of r "[?b]" "bs @ s"] assms(1,2) hb by simp_all
    from arg [OF this] have "decode_arg (cr_move 1 r) x = (val, cr_move (length (head_bytes major val)) r)" using hb by simp
    then show ?thesis using c head_byte [OF x, of major] assms(3) by metis
  qed
  have be: "decode_arg r x = (val, cr_move (length (be_bytes k val)) r)"
    if "cr_wf r" "cr_rest r = be_bytes k val @ s" "decode_arg r x = consume_be k 0 r" "take_bit (8 * k) val = val" for r k x
    using consume_be_rest [OF that(1,2), of 0] that(3,4) by (simp add: be_val_bytes)
  have tb: "take_bit n val = val" if "unat val < 2 ^ n" for n
    using that by (metis take_bit_nat_eq_self_iff unsigned_take_bit_eq word_unat_eq_iff)
  consider "val \<le> 23" | "\<not> val \<le> 23" "val \<le> 0xFF" | "\<not> val \<le> 0xFF" "val \<le> 0xFFFF"
    | "\<not> val \<le> 0xFFFF" "val \<le> 0xFFFFFFFF" | "\<not> val \<le> 0xFFFFFFFF" by fastforce
  then show ?thesis
  proof cases
    case 1
    then have u: "unat val \<le> 23" by (simp add: word_le_nat_alt)
    have t8: "take_bit 8 (unat val) = unat val" by (rule take_bit_nat_eq_self) (use u in simp)
    have u8: "unat (ucast val :: u8) = unat val" using tb [of 8] u t8 by (simp add: unsigned_ucast_eq)
    then have "(ucast val :: u8) \<le> 23" "ucast (ucast val :: u8) = val"
      using u tb [of 8] t8 by (simp_all add: word_le_nat_alt word_unat_eq_iff [of _ val] unsigned_ucast_eq)
    then show ?thesis using 1 u u8 by (intro gen [of "ucast val" "[]"]) (simp_all add: head_bytes_def decode_arg_def)
  next
    case 2
    then show ?thesis by (intro gen [of 24 "be_bytes 1 val"] be)
      (auto simp: head_bytes_def Let_def decode_arg_be intro!: tb simp: word_le_nat_alt)
  next
    case 3
    then have "\<not> val \<le> 23" by (auto simp: word_le_nat_alt)
    then show ?thesis using 3 by (intro gen [of 25 "be_bytes 2 val"] be)
      (auto simp: head_bytes_def Let_def decode_arg_be intro!: tb simp: word_le_nat_alt)
  next
    case 4
    then have "\<not> val \<le> 23" "\<not> val \<le> 0xFF" by (auto simp: word_le_nat_alt)
    then show ?thesis using 4 by (intro gen [of 26 "be_bytes 4 val"] be)
      (auto simp: head_bytes_def Let_def decode_arg_be intro!: tb simp: word_le_nat_alt)
  next
    case 5
    then have "\<not> val \<le> 23" "\<not> val \<le> 0xFF" "\<not> val \<le> 0xFFFF" by (auto simp: word_le_nat_alt)
    then show ?thesis using 5 tb [of 64] unsigned_less [of val] by (intro gen [of 27 "be_bytes 8 val"] be)
      (auto simp: head_bytes_def Let_def decode_arg_be)
  qed
qed


lemma to_size_of_nat: "n < 2 ^ 32 \<Longrightarrow> to_size (of_nat n) = n"
  by (simp add: to_size_def unsigned_ucast_eq unsigned_of_nat take_bit_nat_eq_self)

text \<open>What the writer can be asked to write, and the bytes of it.\<close>

datatype cbor_token = T_uint u64 | T_int u64 | T_float u32 | T_bool bool | T_null | T_text "u8 list" | T_bytes "u8 list"
  | T_array nat | T_map nat

fun cbor_write :: "cbor_writer \<Rightarrow> cbor_token \<Rightarrow> cbor_writer" where
  "cbor_write w (T_uint v) = syn_cbor_write_uint w v"
| "cbor_write w (T_int v) = syn_cbor_write_int w v"
| "cbor_write w (T_float v) = syn_cbor_write_float w v"
| "cbor_write w (T_bool v) = syn_cbor_write_bool w v"
| "cbor_write w T_null = syn_cbor_write_null w"
| "cbor_write w (T_text str) = syn_cbor_write_text w str"
| "cbor_write w (T_bytes data) = syn_cbor_write_bytes w data"
| "cbor_write w (T_array n) = syn_cbor_write_array_begin w n"
| "cbor_write w (T_map n) = syn_cbor_write_map_begin w n"

fun token_bytes :: "cbor_token \<Rightarrow> u8 list" where
  "token_bytes (T_uint v) = head_bytes 0 v"
| "token_bytes (T_int v) = (if 0 \<le> sint v then head_bytes 0 v else head_bytes 1 (- 1 - v))"
| "token_bytes (T_float v) = 0xFA # be_bytes 4 v"
| "token_bytes (T_bool v) = [if v then 0xF5 else 0xF4]"
| "token_bytes T_null = [0xF6]"
| "token_bytes (T_text str) = head_bytes 3 (of_nat (length str)) @ str"
| "token_bytes (T_bytes data) = head_bytes 2 (of_nat (length data)) @ data"
| "token_bytes (T_array n) = head_bytes 4 (of_nat n)"
| "token_bytes (T_map n) = head_bytes 5 (of_nat n)"

lemma cbor_write_raw: "cbor_write w t = emit_raw (token_bytes t) w"
  by (cases t) (simp_all add: syn_cbor_write_uint_def syn_cbor_write_int_def syn_cbor_write_float_def
      syn_cbor_write_bool_def syn_cbor_write_null_def syn_cbor_write_text_def syn_cbor_write_bytes_def
      syn_cbor_write_array_begin_def syn_cbor_write_map_begin_def emit_head_raw emit_raw_append emit_byte_raw be_bytes_numerals)

text \<open>Reading an item of a token's kind; strings into a zeroed buffer of \<open>cap\<close> bytes.\<close>

fun cbor_read :: "nat \<Rightarrow> cbor_token \<Rightarrow> cbor_reader \<Rightarrow> cbor_token \<times> cbor_reader" where
  "cbor_read cap (T_uint _) r = apfst T_uint (syn_cbor_read_uint r)"
| "cbor_read cap (T_int _) r = apfst T_int (syn_cbor_read_int r)"
| "cbor_read cap (T_float _) r = apfst T_float (syn_cbor_read_float r)"
| "cbor_read cap (T_bool _) r = apfst T_bool (syn_cbor_read_bool r)"
| "cbor_read cap T_null r = (T_null, syn_cbor_read_null r)"
| "cbor_read cap (T_text _) r = (case syn_cbor_read_text r (Some (replicate cap 0)) cap of
     (n, buf, r1) \<Rightarrow> (T_text (take n (the buf)), r1))"
| "cbor_read cap (T_bytes _) r = (case syn_cbor_read_bytes r (Some (replicate cap 0)) cap of
     (n, buf, r1) \<Rightarrow> (T_bytes (take n (the buf)), r1))"
| "cbor_read cap (T_array _) r = apfst T_array (syn_cbor_read_array_begin r)"
| "cbor_read cap (T_map _) r = apfst T_map (syn_cbor_read_map_begin r)"

fun token_ok :: "nat \<Rightarrow> cbor_token \<Rightarrow> bool" where
  "token_ok cap (T_text str) \<longleftrightarrow> length str < 2 ^ 32 \<and> length str < cap"
| "token_ok cap (T_bytes data) \<longleftrightarrow> length data < 2 ^ 32 \<and> length data \<le> cap"
| "token_ok cap (T_array n) \<longleftrightarrow> n < 2 ^ 32"
| "token_ok cap (T_map n) \<longleftrightarrow> n < 2 ^ 32"
| "token_ok cap _ \<longleftrightarrow> True"

lemma cbor_read_token:
  assumes "cr_wf r" "cr_rest r = token_bytes t @ s" "token_ok cap t" "cr_ok r"
  shows "cbor_read cap t r = (t, cr_move (length (token_bytes t)) r)"
proof (cases t)
  case (T_uint v)
  then show ?thesis using read_head [of r 0 v s] assms by (auto simp: syn_cbor_read_uint_def)
next
  case (T_int v)
  then show ?thesis using read_head [of r 0 v s] read_head [of r 1 "- 1 - v" s] assms
    by (cases "0 \<le> sint v") (auto simp: syn_cbor_read_int_def Let_def)
next
  case (T_bool v)
  then show ?thesis using consume_byte_rest [of r "if v then 0xF5 else 0xF4" s] assms by (auto simp: syn_cbor_read_bool_def)
next
  case T_null
  then show ?thesis using consume_byte_rest [of r "0xF6" s] assms by (auto simp: syn_cbor_read_null_def)
next
  case (T_array n)
  then show ?thesis using read_head [of r 4 "of_nat n" s] assms by (auto simp: syn_cbor_read_array_begin_def to_size_of_nat)
next
  case (T_map n)
  then show ?thesis using read_head [of r 5 "of_nat n" s] assms by (auto simp: syn_cbor_read_map_begin_def to_size_of_nat)
next
  case (T_float v)
  let ?b = "\<lambda>k. ucast (drop_bit k v) :: u8"
  have r: "cr_rest r = 0xFA # ?b 24 # ?b 16 # ?b 8 # ?b 0 # s" using T_float assms(2) by (simp add: be_bytes_numerals)
  have st: "consume_byte (cr_move k r) = (x, cr_move (k + 1) r)" "cr_pos r + k < cr_len r" if "drop k (cr_rest r) = x # xs" for k x xs
  proof -
    have "k < length (cr_rest r)" using that by (metis drop_eq_Nil list.distinct(1) not_le)
    then have "cr_wf (cr_move k r)" using assms(1) length_cr_rest [OF assms(1)] by (simp add: cr_wf_def)
    from consume_byte_rest [OF this] that show "consume_byte (cr_move k r) = (x, cr_move (k + 1) r)" "cr_pos r + k < cr_len r"
      by (simp_all add: cr_rest_move)
  qed
  have "be_val (be_bytes 4 v) 0 = v" by (simp add: be_val_bytes take_bit_word_eq_self)
  then have v: "push_bit 24 (ucast (?b 24)) OR push_bit 16 (ucast (?b 16)) OR push_bit 8 (ucast (?b 8)) OR ucast (?b 0) = v"
    by (simp add: be_bytes_numerals push_bit_or or.assoc)
  show ?thesis using st [of 0] st [of 1] st [of 2] st [of 3] st [of 4] r v assms(4) T_float
    by (simp add: syn_cbor_read_float_def be_bytes_numerals)
next
  case (T_text str)
  let ?h = "head_bytes 3 (of_nat (length str))"
  let ?r = "cr_move (length ?h) r"
  have r: "cr_rest r = ?h @ str @ s" using T_text assms(2) by simp
  obtain b where b: "cr_pos r < cr_len r" "consume_byte r = (b, cr_move 1 r)" "drop_bit 5 b = 3"
    "decode_arg (cr_move 1 r) (b AND 0x1F) = (of_nat (length str), ?r)"
    using read_head [OF assms(1) r] by auto
  note m = cr_move_split [OF assms(1) r]
  note m2 = cr_move_split [OF m(1,2)]
  show ?thesis using b m2(3,4) assms(3,4) T_text
    by (auto simp: syn_cbor_read_text_def to_size_of_nat store_at_def Let_def add.assoc)
next
  case (T_bytes data)
  let ?h = "head_bytes 2 (of_nat (length data))"
  let ?r = "cr_move (length ?h) r"
  have r: "cr_rest r = ?h @ data @ s" using T_bytes assms(2) by simp
  obtain b where b: "cr_pos r < cr_len r" "consume_byte r = (b, cr_move 1 r)" "drop_bit 5 b = 2"
    "decode_arg (cr_move 1 r) (b AND 0x1F) = (of_nat (length data), ?r)"
    using read_head [OF assms(1) r] by auto
  note m = cr_move_split [OF assms(1) r]
  note m2 = cr_move_split [OF m(1,2)]
  have "data = [] \<or> cr_pos ?r < cr_len ?r" "length data \<le> length (cr_buf r) - cr_pos ?r"
    using m2(3) assms(1) by (cases data, auto simp: cr_wf_def)
  then show ?thesis using b m2(3,4) assms(3,4) T_bytes
    by (auto simp add: syn_cbor_read_bytes_def to_size_of_nat store_at_def Let_def add.assoc)
qed


fun cbor_read_all :: "nat \<Rightarrow> cbor_token list \<Rightarrow> cbor_reader \<Rightarrow> cbor_token list \<times> cbor_reader" where
  "cbor_read_all cap [] r = ([], r)"
| "cbor_read_all cap (t # ts) r =
     (case cbor_read cap t r of (x, r1) \<Rightarrow> case cbor_read_all cap ts r1 of (xs, r2) \<Rightarrow> (x # xs, r2))"

lemma cbor_read_tokens:
  "cr_wf r \<Longrightarrow> cr_ok r \<Longrightarrow> cr_rest r = concat (map token_bytes ts) @ s \<Longrightarrow> \<forall>t\<in>set ts. token_ok cap t \<Longrightarrow>
    cbor_read_all cap ts r = (ts, cr_move (length (concat (map token_bytes ts))) r)"
proof (induction ts arbitrary: r)
  case (Cons t ts)
  have r: "cr_rest r = token_bytes t @ (concat (map token_bytes ts) @ s)" using Cons.prems(3) by simp
  have "cbor_read cap t r = (t, cr_move (length (token_bytes t)) r)"
    using cbor_read_token [OF Cons.prems(1) r] Cons.prems(2,4) by simp
  moreover note m = cr_move_split [OF Cons.prems(1) r]
  have "cbor_read_all cap ts (cr_move (length (token_bytes t)) r) =
      (ts, cr_move (length (concat (map token_bytes ts))) (cr_move (length (token_bytes t)) r))"
    by (rule Cons.IH) (use m Cons.prems(2,4) in simp_all)
  ultimately show ?case by (simp add: add.assoc)
qed simp

lemma cbor_write_all_raw: "foldl cbor_write w ts = emit_raw (concat (map token_bytes ts)) w"
  by (induction ts arbitrary: w) (simp_all add: cbor_write_raw emit_raw_append, simp add: emit_raw_def)

text \<open>
  C11: CBOR round trip. A sequence of write calls reports an overflow exactly when the encodings together do
  not fit the capacity. Otherwise the same sequence of read calls on the written bytes
  (with string buffers large enough) returns the written values in order, reports no error,
  and has consumed all bytes.
\<close>

theorem cbor_roundtrip:
  assumes "cap \<le> length buf" "w = foldl cbor_write (syn_cbor_writer_init buf cap) ts"
    "\<forall>t\<in>set ts. token_ok scap t"
  shows "(syn_cbor_writer_ok w \<longleftrightarrow> length (concat (map token_bytes ts)) \<le> cap)
    \<and> (syn_cbor_writer_ok w \<longrightarrow>
        (\<exists>r. cbor_read_all scap ts (syn_cbor_reader_init (cw_buf w) (syn_cbor_writer_len w)) = (ts, r)
           \<and> syn_cbor_reader_ok r \<and> syn_cbor_reader_done r))"
proof -
  let ?bs = "concat (map token_bytes ts)" and ?w0 = "syn_cbor_writer_init buf cap"
  let ?r = "syn_cbor_reader_init (cw_buf w) (syn_cbor_writer_len w)"
  have "cw_wf ?w0" using assms(1) by (simp add: cw_wf_def syn_cbor_writer_init_def)
  from emit_raw_writes [OF this, of ?bs] have w: "cw_writes ?w0 ?bs w" using assms(2) by (simp add: cbor_write_all_raw)
  then have ok: "syn_cbor_writer_ok w \<longleftrightarrow> length ?bs \<le> cap"
    by (auto simp: cw_writes_def syn_cbor_writer_ok_def syn_cbor_writer_init_def)
  moreover have "\<exists>r. cbor_read_all scap ts ?r = (ts, r) \<and> syn_cbor_reader_ok r \<and> syn_cbor_reader_done r"
    if "syn_cbor_writer_ok w"
  proof -
    have out: "cw_out w = ?bs" "cw_wf w" using w that
      by (auto simp: cw_writes_def syn_cbor_writer_ok_def syn_cbor_writer_init_def cw_out_def)
    have wf: "cr_wf ?r" "cr_ok ?r" using out(2) by (simp_all add: cr_wf_def cw_wf_def syn_cbor_reader_init_def syn_cbor_writer_len_def)
    have rest: "cr_rest ?r = ?bs @ []"
      using out(1) by (simp add: cr_rest_def cw_out_def syn_cbor_reader_init_def syn_cbor_writer_len_def)
    have "length ?bs = syn_cbor_writer_len w" using arg_cong [OF out(1), of length] out(2) by (simp add: cw_out_def cw_wf_def syn_cbor_writer_len_def)
    then show ?thesis using cbor_read_tokens [OF wf rest assms(3)]
      by (simp add: syn_cbor_reader_ok_def syn_cbor_reader_done_def syn_cbor_reader_init_def)
  qed
  ultimately show ?thesis by blast
qed

theorem cbor_roundtrip_witness:
  "\<exists>r. cbor_read_all 4 [T_map 1, T_text [104, 105], T_uint 300]
         (syn_cbor_reader_init (cw_buf (foldl cbor_write (syn_cbor_writer_init (replicate 16 0) 16) [T_map 1, T_text [104, 105], T_uint 300]))
           (syn_cbor_writer_len (foldl cbor_write (syn_cbor_writer_init (replicate 16 0) 16) [T_map 1, T_text [104, 105], T_uint 300])))
       = ([T_map 1, T_text [104, 105], T_uint 300], r) \<and> syn_cbor_reader_ok r"
proof -
  have "length (concat (map token_bytes [T_map 1, T_text [104, 105], T_uint 300])) \<le> 16"
    by (simp add: head_bytes_def be_bytes_numerals)
  then show ?thesis using cbor_roundtrip [of 16 "replicate 16 0" _ "[T_map 1, T_text [104, 105], T_uint 300]" 4, OF _ refl] by auto
qed


subsection \<open>Skipping\<close>

text \<open>Items as trees; a map is the list of its keys and values in turn.\<close>

datatype cbor_item = Scalar cbor_token | Arr "cbor_item list" | Mp "cbor_item list"

fun item_bytes :: "cbor_item \<Rightarrow> u8 list" where
  "item_bytes (Scalar t) = token_bytes t"
| "item_bytes (Arr is) = token_bytes (T_array (length is)) @ concat (map item_bytes is)"
| "item_bytes (Mp is) = token_bytes (T_map (length is div 2)) @ concat (map item_bytes is)"

fun item_depth :: "cbor_item \<Rightarrow> nat" where
  "item_depth (Scalar t) = 0"
| "item_depth (Arr is) = Suc (fold max (map item_depth is) 0)"
| "item_depth (Mp is) = Suc (fold max (map item_depth is) 0)"

fun scalar_ok :: "cbor_token \<Rightarrow> bool" where
  "scalar_ok (T_text str) \<longleftrightarrow> length str < 2 ^ 32"
| "scalar_ok (T_bytes data) \<longleftrightarrow> length data < 2 ^ 32"
| "scalar_ok (T_array n) \<longleftrightarrow> False"
| "scalar_ok (T_map n) \<longleftrightarrow> False"
| "scalar_ok _ \<longleftrightarrow> True"

fun item_ok :: "cbor_item \<Rightarrow> bool" where
  "item_ok (Scalar t) \<longleftrightarrow> scalar_ok t"
| "item_ok (Arr is) \<longleftrightarrow> length is < 2 ^ 32 \<and> list_all item_ok is"
| "item_ok (Mp is) \<longleftrightarrow> length is < 2 ^ 32 \<and> even (length is) \<and> list_all item_ok is"

lemma fold_max_le: "fold max xs (a :: nat) \<le> n \<longleftrightarrow> a \<le> n \<and> (\<forall>x\<in>set xs. x \<le> n)"
  by (induction xs arbitrary: a) auto

lemma item_bytes_nonempty: "item_bytes i \<noteq> []"
  by (cases i; cases "case i of Scalar t \<Rightarrow> t | _ \<Rightarrow> T_null") (auto simp: head_bytes_nonempty)

lemma skip_scalar:
  assumes "cr_wf r" "cr_ok r" "cr_rest r = token_bytes t @ s" "scalar_ok t"
  shows "skip_item ps r = (Some ps, cr_move (length (token_bytes t)) r)"
proof -
  have int: "skip_item ps r = (Some ps, cr_move (length (head_bytes m v)) r)"
    if "cr_rest r = head_bytes m v @ s" "m = 0 \<or> m = 1" for m v
    using read_head [OF assms(1) that(1)] that(2) by (auto simp: skip_item_def Let_def)
  have str: "skip_item ps r = (Some ps, cr_move (length (head_bytes m (of_nat (length d)) @ d)) r)"
    if h: "cr_rest r = head_bytes m (of_nat (length d)) @ d @ s" and m: "m = 2 \<or> m = 3" and l: "length d < 2 ^ 32" for m d
  proof -
    note mv = cr_move_split [OF assms(1) h]
    have "length d \<le> cr_len r - (cr_pos r + length (head_bytes m (of_nat (length d))))"
      using cr_move_split(3) [OF mv(1,2)] by simp
    then show ?thesis using read_head [OF assms(1) h] m assms(2) to_size_of_nat [OF l] by (auto simp: skip_item_def Let_def add.assoc)
  qed
  have one: "skip_item ps r = (Some ps, cr_move 1 r)" if "cr_rest r = b # s" "b = 0xF4 \<or> b = 0xF5 \<or> b = 0xF6" for b
    using consume_byte_rest [OF assms(1) that(1)] that(2) by (auto simp: skip_item_def Let_def)
  show ?thesis
  proof (cases t)
    case (T_int v)
    then show ?thesis using assms(3) int [of 0 v] int [of 1 "- 1 - v"] by (auto split: if_splits)
  next
    case (T_float v)
    then have r: "cr_rest r = 0xFA # be_bytes 4 v @ s" using assms(3) by simp
    have "4 \<le> cr_len r - (cr_pos r + 1)" using length_cr_rest [OF assms(1)] r by simp
    then show ?thesis using consume_byte_rest [OF assms(1) r] T_float by (simp add: skip_item_def Let_def)
  qed (use assms(3,4) int [of 0] str [of 2] str [of 3] one in \<open>auto split: if_splits\<close>)
qed

text \<open>Skipping the header of a collection opens a level with its items.\<close>

lemma skip_collection:
  assumes "cr_wf r" "item_ok i" "item_depth i + length ps \<le> 8" "\<nexists>t. i = Scalar t"
  shows "\<exists>h js. item_bytes i = h @ concat (map item_bytes js) \<and> h \<noteq> []
    \<and> (\<forall>s. cr_rest r = h @ s \<longrightarrow> skip_item ps r = (Some (length js # ps), cr_move (length h) r))
    \<and> (\<forall>k\<in>set js. item_ok k \<and> item_depth k + 1 \<le> item_depth i)"
proof (cases i)
  case (Arr js)
  let ?h = "head_bytes 4 (of_nat (length js))"
  have d: "item_depth k + 1 \<le> item_depth i" if "k \<in> set js" for k
    using that Arr fold_max_le [of "map item_depth js" 0 "fold max (map item_depth js) 0"] by auto
  have "skip_item ps r = (Some (length js # ps), cr_move (length ?h) r)" if "cr_rest r = ?h @ s" for s
    using read_head [OF assms(1) that] assms(2,3) Arr by (auto simp: skip_item_def Let_def to_size_of_nat SKIP_MAX_DEPTH_def)
  then show ?thesis using Arr assms(2) d by (intro exI [of _ ?h] exI [of _ js]) (auto simp: head_bytes_nonempty list_all_iff)
next
  case (Mp js)
  let ?n = "of_nat (length js div 2) :: u64"
  let ?h = "head_bytes 5 ?n"
  have d: "item_depth k + 1 \<le> item_depth i" if "k \<in> set js" for k
    using that Mp fold_max_le [of "map item_depth js" 0 "fold max (map item_depth js) 0"] by auto
  have "?n * 2 = of_nat (length js div 2 * 2)" by simp
  also have "length js div 2 * 2 = length js" using Mp assms(2) by simp
  finally have n: "to_size (?n * 2) = length js" using Mp assms(2) by (simp add: to_size_of_nat)
  have "skip_item ps r = (Some (length js # ps), cr_move (length ?h) r)" if "cr_rest r = ?h @ s" for s
    using read_head [OF assms(1) that] assms(2,3) Mp n by (auto simp: skip_item_def Let_def SKIP_MAX_DEPTH_def)
  then show ?thesis using Mp assms(2) d by (intro exI [of _ ?h] exI [of _ js]) (auto simp: head_bytes_nonempty list_all_iff)
qed (use assms(4) in blast)

text \<open>The remaining items at each level, innermost first.\<close>

lemma skip_loop_items:
  fixes iss :: "cbor_item list list"
  shows "cr_wf r \<Longrightarrow> cr_ok r \<Longrightarrow> cr_rest r = concat (map item_bytes (concat iss)) @ s \<Longrightarrow> iss \<noteq> [] \<Longrightarrow>
    (\<forall>j < length iss. \<forall>i\<in>set (iss ! j). item_ok i \<and> item_depth i + (length iss - j) \<le> 8) \<Longrightarrow>
    cbor_skip_loop (pop_levels (map length iss)) r = cr_move (length (concat (map item_bytes (concat iss)))) r"
proof (induction "2 * length (concat (map item_bytes (concat iss))) + length iss" arbitrary: iss r rule: less_induct)
  case less
  obtain is0 iss' where iss: "iss = is0 # iss'" using less.prems(4) by (cases iss) auto
  show ?case
  proof (cases is0)
    case Nil
    show ?thesis
    proof (cases iss')
      case Nil
      then show ?thesis using \<open>is0 = []\<close> iss by (subst cbor_skip_loop.simps) simp
    next
      case (Cons a b)
      have "\<forall>j < length iss'. \<forall>i\<in>set (iss' ! j). item_ok i \<and> item_depth i + (length iss' - j) \<le> 8"
      proof (intro allI impI)
        fix j assume "j < length iss'"
        then show "\<forall>i\<in>set (iss' ! j). item_ok i \<and> item_depth i + (length iss' - j) \<le> 8"
          using less.prems(5) [rule_format, of "Suc j"] iss by auto
      qed
      then have "cbor_skip_loop (pop_levels (map length iss')) r = cr_move (length (concat (map item_bytes (concat iss')))) r"
        by (intro less.hyps) (use less.prems Cons iss \<open>is0 = []\<close> in simp_all)
      then show ?thesis using iss \<open>is0 = []\<close> Cons by simp
    qed
  next
    case (Cons i its)
    note ii = iss [unfolded Cons]
    let ?R = "concat (map item_bytes (its @ concat iss'))" and ?ps = "length its # map length iss'"
    have lvl: "item_ok k \<and> item_depth k + (length iss - j) \<le> 8" if "j < length iss" "k \<in> set (iss ! j)" for j k
      using less.prems(5) that by blast
    have i: "item_ok i" "item_depth i + length iss \<le> 8" using lvl [of 0 i] ii by auto
    have sub: "item_ok k \<and> item_depth k + (length iss - j) \<le> 8" if "j < length (its # iss')" "k \<in> set ((its # iss') ! j)" for j k
      using lvl [of j k] that ii by (cases j) auto
    have step: "cbor_skip_loop (pop_levels (map length iss)) r =
        (case skip_item ?ps r of (None, r1) \<Rightarrow> r1 | (Some p1, r1) \<Rightarrow> cbor_skip_loop (pop_levels p1) r1)"
      using ii by (subst cbor_skip_loop.simps) simp
    show ?thesis
    proof (cases "\<exists>t. i = Scalar t")
      case True
      then obtain t where t: "i = Scalar t" by blast
      have r: "cr_rest r = token_bytes t @ (?R @ s)" using less.prems(3) ii t by simp
      note mv = cr_move_split [OF less.prems(1) r]
      have "cbor_skip_loop (pop_levels (map length (its # iss'))) (cr_move (length (token_bytes t)) r) =
          cr_move (length (concat (map item_bytes (concat (its # iss'))))) (cr_move (length (token_bytes t)) r)"
        by (rule less.hyps) (use mv sub less.prems(2) ii item_bytes_nonempty [of i] t in auto)
      then show ?thesis using step skip_scalar [OF less.prems(1,2) r] i(1) t ii by (simp add: add.assoc)
    next
      case False
      moreover have "item_depth i + length ?ps \<le> 8" using i(2) ii by simp
      ultimately obtain h js where h: "item_bytes i = h @ concat (map item_bytes js)" "h \<noteq> []"
        and sk: "\<And>s. cr_rest r = h @ s \<Longrightarrow> skip_item ?ps r = (Some (length js # ?ps), cr_move (length h) r)"
        and js: "\<forall>k\<in>set js. item_ok k \<and> item_depth k + 1 \<le> item_depth i"
        using skip_collection [OF less.prems(1) i(1)] by blast
      have r: "cr_rest r = h @ (concat (map item_bytes js) @ ?R @ s)" using less.prems(3) ii h by simp
      note mv = cr_move_split [OF less.prems(1) r]
      have hl: "Suc 0 < 2 * length h" using h(2) by (cases h) auto
      have sub2: "item_ok k \<and> item_depth k + (length (js # its # iss') - j) \<le> 8" if "j < length (js # its # iss')" "k \<in> set ((js # its # iss') ! j)" for j k
        using that js i(2) sub [of "j - 1" k] ii by (cases j) auto
      have "cbor_skip_loop (pop_levels (map length (js # its # iss'))) (cr_move (length h) r) =
          cr_move (length (concat (map item_bytes (concat (js # its # iss'))))) (cr_move (length h) r)"
        by (rule less.hyps) (use mv sub2 less.prems(2) ii h hl in auto)
      then show ?thesis using step sk [OF r] ii h by (simp add: add.assoc)
    qed
  qed
qed


text \<open>
  Skipping is exact. On the encoding of any item, arbitrarily structured up to seven nested
  collections, followed by anything, \<^verbatim>\<open>syn_cbor_skip\<close> moves the reader to the first byte after the item
  and reports no error.
\<close>

theorem cbor_skip_exact:
  assumes "cr_wf r" "cr_ok r" "cr_rest r = item_bytes i @ s" "item_ok i" "item_depth i \<le> 7"
  shows "syn_cbor_skip r = r\<lparr>cr_pos := cr_pos r + length (item_bytes i)\<rparr> \<and> cr_rest (syn_cbor_skip r) = s"
proof -
  have "pop_levels [1] = [1]" by simp
  then have "syn_cbor_skip r = cr_move (length (item_bytes i)) r"
    using skip_loop_items [of r "[[i]]" s] assms by (simp add: syn_cbor_skip_def)
  then show ?thesis using cr_move_split [OF assms(1,3)] by simp
qed

theorem cbor_skip_exact_witness:
  "cr_pos (syn_cbor_skip (syn_cbor_reader_init (item_bytes (Arr [Scalar (T_uint 1), Arr [Scalar T_null]]) @ [9]) 5)) = 4"
proof -
  let ?i = "Arr [Scalar (T_uint 1), Arr [Scalar T_null]]"
  have "length (item_bytes ?i) = 4" by (simp add: head_bytes_def)
  then show ?thesis using cbor_skip_exact [of "syn_cbor_reader_init (item_bytes ?i @ [9]) 5" ?i "[9]"]
    by (simp add: cr_wf_def cr_rest_def syn_cbor_reader_init_def)
qed

subsection \<open>Hostile input\<close>

lemma cbor_skip_loop_adv: "cr_adv r (cbor_skip_loop ps r)"
proof (induction ps r rule: cbor_skip_loop.induct)
  case (1 pending r)
  show ?case
  proof (cases pending)
    case Nil
    then show ?thesis by (subst cbor_skip_loop.simps) simp
  next
    case (Cons p ps)
    obtain res r1 where r1: "skip_item ((p - 1) # ps) r = (res, r1)" by fastforce
    note a = skip_item_adv(1) [OF r1]
    show ?thesis
    proof (cases "p > 0")
      case True
      show ?thesis
      proof (cases res)
        case None
        then show ?thesis using True Cons r1 a by (subst cbor_skip_loop.simps) simp
      next
        case (Some p1)
        then have "cr_adv r1 (cbor_skip_loop (pop_levels p1) r1)" using 1 [OF Cons True] r1 by simp
        then show ?thesis using True Cons r1 Some cr_adv_trans [OF a] by (subst cbor_skip_loop.simps) simp
      qed
    next
      case False
      then show ?thesis using Cons by (subst cbor_skip_loop.simps) simp
    qed
  qed
qed

lemma cr_adv_end: "cr_adv r r2 \<Longrightarrow> cr_adv r (r2\<lparr>cr_pos := cr_len r2, cr_ok := False\<rparr>)" if "cr_pos r \<le> cr_len r"
  using that by (auto simp: cr_adv_def)

text \<open>
  C26: The reader stays within its input on any bytes: every read operation and the skip leave the buffer
  alone, move the position forward and never past the end, and never clear a recorded error.
  (That the skip returns at all is part of its definition as a terminating function.)
\<close>

theorem cbor_reader_in_bounds:
  assumes "cr_pos r \<le> cr_len r"
  shows "cr_adv r (syn_cbor_skip r) \<and> cr_adv r (snd (syn_cbor_read_uint r)) \<and> cr_adv r (snd (syn_cbor_read_int r))
    \<and> cr_adv r (snd (syn_cbor_read_float r)) \<and> cr_adv r (snd (syn_cbor_read_bool r)) \<and> cr_adv r (syn_cbor_read_null r)
    \<and> cr_adv r (snd (syn_cbor_read_array_begin r)) \<and> cr_adv r (snd (syn_cbor_read_map_begin r))
    \<and> cr_adv r (snd (snd (syn_cbor_read_text r buf cap))) \<and> cr_adv r (snd (snd (syn_cbor_read_bytes r buf cap)))"
proof -
  obtain b r1 where b: "consume_byte r = (b, r1)" by fastforce
  obtain n r2 where n: "decode_arg r1 (b AND 0x1F) = (n, r2)" by fastforce
  note a1 = consume_byte_adv [OF b]
  have a2: "cr_adv r r2" using cr_adv_trans [OF a1 decode_arg_adv [OF n]] .
  have fl: "cr_adv r r5" if "consume_byte r1 = (x2, r3)" "consume_byte r3 = (x3, r4)" "consume_byte r4 = (x4, r6)" "consume_byte r6 = (x5, r5)"
    for x2 x3 x4 x5 r3 r4 r5 r6
    using that consume_byte_adv a1 cr_adv_trans by meson
  show ?thesis
  proof (intro conjI)
    show "cr_adv r (syn_cbor_skip r)" by (simp add: syn_cbor_skip_def cbor_skip_loop_adv)
    show "cr_adv r (snd (syn_cbor_read_uint r))" using b n a1 a2 by (simp add: syn_cbor_read_uint_def)
    show "cr_adv r (snd (syn_cbor_read_int r))" using b n a1 a2 by (simp add: syn_cbor_read_int_def Let_def)
    show "cr_adv r (snd (syn_cbor_read_float r))" using b a1 fl
      by (auto simp: syn_cbor_read_float_def split: prod.splits)
    show "cr_adv r (snd (syn_cbor_read_bool r))" using b a1 by (simp add: syn_cbor_read_bool_def)
    show "cr_adv r (syn_cbor_read_null r)" using b a1 by (simp add: syn_cbor_read_null_def)
    show "cr_adv r (snd (syn_cbor_read_array_begin r))" using b n a1 a2 by (simp add: syn_cbor_read_array_begin_def)
    show "cr_adv r (snd (syn_cbor_read_map_begin r))" using b n a1 a2 by (simp add: syn_cbor_read_map_begin_def)
    show "cr_adv r (snd (snd (syn_cbor_read_text r buf cap)))"
      using b n a1 a2 cr_adv_skip [OF a2] cr_adv_end [OF assms a2] by (auto simp: syn_cbor_read_text_def Let_def)
    show "cr_adv r (snd (snd (syn_cbor_read_bytes r buf cap)))"
      using b n a1 a2 cr_adv_skip [OF a2] cr_adv_end [OF assms a2] by (auto simp: syn_cbor_read_bytes_def Let_def)
  qed
qed

theorem cbor_reader_in_bounds_witness: "cr_adv (syn_cbor_reader_init [0x9F, 255] 2) (syn_cbor_skip (syn_cbor_reader_init [0x9F, 255] 2))"
  using cbor_reader_in_bounds [of "syn_cbor_reader_init [0x9F, 255] 2" None 0] by (simp add: syn_cbor_reader_init_def)

text \<open>
  A tag (major type 6) is not recognised: for the tags 20 to 22 and 25 to 27 the type query answers
  as if the byte were a simple value or a float, and skipping a tag stops in front of the item it
  tags.
\<close>

theorem cbor_tag_misread:
  "syn_cbor_peek_type (syn_cbor_reader_init [0xD4, 0] 2) = SYN_CBOR_BOOL
   \<and> cr_pos (syn_cbor_skip (syn_cbor_reader_init [0xD4, 0] 2)) = 1"
proof
  show "syn_cbor_peek_type (syn_cbor_reader_init [0xD4, 0] 2) = SYN_CBOR_BOOL" by code_simp
  show "cr_pos (syn_cbor_skip (syn_cbor_reader_init [0xD4, 0] 2)) = 1" by code_simp
qed

end
