(* ===== verification/Syn_Errlog.thy ===== *)
theory Syn_Errlog
  imports Syn_Prelude
begin

text \<open>
  The error log of \<^verbatim>\<open>system/syn_errlog.c\<close>: a circular buffer of records that keeps the latest
  \<^verbatim>\<open>capacity\<close> of them. \<^verbatim>\<open>total_count\<close> is a \<^verbatim>\<open>size_t\<close> of 32 bits that wraps; indices are bounded by the buffer.
\<close>

datatype SYN_ErrSeverity = SYN_ERR_INFO | SYN_ERR_WARNING | SYN_ERR_ERROR | SYN_ERR_FATAL

fun severity_code :: "SYN_ErrSeverity \<Rightarrow> u8" where
  "severity_code SYN_ERR_INFO = 0"
| "severity_code SYN_ERR_WARNING = 1"
| "severity_code SYN_ERR_ERROR = 2"
| "severity_code SYN_ERR_FATAL = 3"

record err_entry =
  ee_code :: u16
  ee_severity :: u8
  ee_context :: u32
  ee_timestamp :: u32
  ee_boot_count :: u32

record errlog =
  el_entries :: "err_entry list"
  el_capacity :: nat
  el_head :: nat
  el_total_count :: u32
  el_boot_count :: u32
  el_enabled :: bool

definition zero_entry :: err_entry where
  "zero_entry = \<lparr>ee_code = 0, ee_severity = 0, ee_context = 0, ee_timestamp = 0, ee_boot_count = 0\<rparr>"

definition syn_errlog_init :: "nat \<Rightarrow> u32 \<Rightarrow> errlog" where
  "syn_errlog_init capacity boot_count =
     \<lparr>el_entries = replicate capacity zero_entry, el_capacity = capacity, el_head = 0, el_total_count = 0,
      el_boot_count = boot_count, el_enabled = True\<rparr>"

definition syn_errlog_record :: "errlog \<Rightarrow> u16 \<Rightarrow> SYN_ErrSeverity \<Rightarrow> u32 \<Rightarrow> u32 \<Rightarrow> errlog" where
  "syn_errlog_record log code severity context now =
     (if \<not> el_enabled log then log
      else
        let e = \<lparr>ee_code = code, ee_severity = severity_code severity, ee_context = context, ee_timestamp = now,
                 ee_boot_count = el_boot_count log\<rparr>;
            head1 = el_head log + 1
        in log\<lparr>el_entries := (el_entries log)[el_head log := e],
               el_head := (if head1 \<ge> el_capacity log then 0 else head1),
               el_total_count := el_total_count log + 1\<rparr>)"

definition syn_errlog_count :: "errlog \<Rightarrow> u32" where
  "syn_errlog_count log = el_total_count log"

definition syn_errlog_available :: "errlog \<Rightarrow> nat" where
  "syn_errlog_available log =
     (if unat (el_total_count log) < el_capacity log then unat (el_total_count log) else el_capacity log)"

definition syn_errlog_enable :: "errlog \<Rightarrow> bool \<Rightarrow> errlog" where
  "syn_errlog_enable log en = log\<lparr>el_enabled := en\<rparr>"

definition errlog_start :: "errlog \<Rightarrow> nat" where
  "errlog_start log = (if unat (el_total_count log) \<le> el_capacity log then 0 else el_head log)"

definition syn_errlog_read :: "errlog \<Rightarrow> nat \<Rightarrow> err_entry option" where
  "syn_errlog_read log index =
     (if index \<ge> syn_errlog_available log then None
      else Some (el_entries log ! ((errlog_start log + index) mod el_capacity log)))"

definition syn_errlog_clear :: "errlog \<Rightarrow> errlog" where
  "syn_errlog_clear log =
     log\<lparr>el_head := 0, el_total_count := 0, el_entries := replicate (el_capacity log) zero_entry\<rparr>"

definition syn_errlog_latest :: "errlog \<Rightarrow> err_entry option" where
  "syn_errlog_latest log =
     (if el_total_count log = 0 then None
      else Some (el_entries log ! (if el_head log = 0 then el_capacity log - 1 else el_head log - 1)))"

definition syn_errlog_count_severity :: "errlog \<Rightarrow> SYN_ErrSeverity \<Rightarrow> nat" where
  "syn_errlog_count_severity log severity =
     fold (\<lambda>i count. if ee_severity (el_entries log ! ((errlog_start log + i) mod el_capacity log)) = severity_code severity
                     then count + 1 else count) [0..<syn_errlog_available log] 0"

subsection \<open>The log as the list of everything recorded\<close>

definition el_rep :: "err_entry list \<Rightarrow> errlog \<Rightarrow> bool" where
  "el_rep hist log \<longleftrightarrow> 0 < el_capacity log \<and> el_capacity log < 2 ^ 32 \<and> length (el_entries log) = el_capacity log
     \<and> length hist < 2 ^ 32 \<and> el_total_count log = of_nat (length hist) \<and> el_head log = length hist mod el_capacity log
     \<and> (\<forall>j<length hist. length hist \<le> j + el_capacity log \<longrightarrow> el_entries log ! (j mod el_capacity log) = hist ! j)"

lemma el_rep_total: "el_rep hist log \<Longrightarrow> unat (el_total_count log) = length hist"
  by (simp add: el_rep_def unat_of_nat)

lemma el_rep_init: "0 < capacity \<Longrightarrow> capacity < 2 ^ 32 \<Longrightarrow> el_rep [] (syn_errlog_init capacity boot)"
  by (simp add: el_rep_def syn_errlog_init_def)

lemma mod_Suc_once: "(0::nat) < c \<Longrightarrow> Suc n mod c = (if Suc (n mod c) \<ge> c then 0 else Suc (n mod c))"
  by (simp add: mod_Suc) (metis Suc_leI le_antisym mod_less_divisor)

lemma window_distinct:
  fixes j n c :: nat
  assumes "j < n" "n + 1 \<le> j + c"
  shows "j mod c \<noteq> n mod c"
proof
  assume "j mod c = n mod c"
  then have "c dvd n - j" using assms(1) by (metis mod_eq_dvd_iff_nat less_imp_le)
  then have "c \<le> n - j" using assms(1) by (simp add: dvd_imp_le)
  then show False using assms by linarith
qed

lemma el_rep_record:
  assumes "el_rep hist log" "el_enabled log" "length hist + 1 < 2 ^ 32"
  shows "el_rep (hist @ [\<lparr>ee_code = code, ee_severity = severity_code sev, ee_context = ctx, ee_timestamp = now,
                 ee_boot_count = el_boot_count log\<rparr>]) (syn_errlog_record log code sev ctx now)"
proof -
  let ?e = "\<lparr>ee_code = code, ee_severity = severity_code sev, ee_context = ctx, ee_timestamp = now, ee_boot_count = el_boot_count log\<rparr>"
  let ?c = "el_capacity log" and ?n = "length hist"
  note R = assms(1) [unfolded el_rep_def]
  have c: "0 < ?c" using R by blast
  have h: "el_head log < length (el_entries log)" using R by simp
  have "(el_entries log)[el_head log := ?e] ! (j mod ?c) = (hist @ [?e]) ! j" if "j < ?n + 1" "?n + 1 \<le> j + ?c" for j
  proof (cases "j = ?n")
    case True
    then show ?thesis using R h by simp
  next
    case False
    then have j: "j < ?n" using that(1) by simp
    have "j mod ?c \<noteq> el_head log" using window_distinct [OF j that(2)] R by simp
    then show ?thesis using R j that(2) by (simp add: nth_append)
  qed
  then show ?thesis
    using R assms(2,3) mod_Suc_once [OF c, of ?n] by (auto simp: el_rep_def syn_errlog_record_def Let_def)
qed

text \<open>The records still held: the latest ones, as many as there are slots.\<close>

definition el_held :: "err_entry list \<Rightarrow> errlog \<Rightarrow> err_entry list" where
  "el_held hist log = drop (length hist - el_capacity log) hist"

lemma el_slot:
  assumes "el_rep hist log" "i < syn_errlog_available log"
  shows "el_entries log ! ((errlog_start log + i) mod el_capacity log) = el_held hist log ! i" "i < length (el_held hist log)"
proof -
  let ?c = "el_capacity log" and ?n = "length hist"
  note R = assms(1) [unfolded el_rep_def] and T = el_rep_total [OF assms(1)]
  have i: "i < ?n" "i < ?c" using assms(2) T by (auto simp: syn_errlog_available_def split: if_splits)
  then show "i < length (el_held hist log)" by (simp add: el_held_def)
  show "el_entries log ! ((errlog_start log + i) mod ?c) = el_held hist log ! i"
  proof (cases "?n \<le> ?c")
    case True
    then show ?thesis using R T i by (simp add: errlog_start_def el_held_def)
  next
    case False
    have "(?n mod ?c + i) mod ?c = (?n + i) mod ?c" by (simp add: mod_add_left_eq)
    also have "?n + i = ?n - ?c + i + ?c" using False by simp
    also have "\<dots> mod ?c = (?n - ?c + i) mod ?c" by simp
    finally have "(errlog_start log + i) mod ?c = (?n - ?c + i) mod ?c" using False R T by (simp add: errlog_start_def)
    moreover have "el_entries log ! ((?n - ?c + i) mod ?c) = hist ! (?n - ?c + i)" using R i False by simp
    ultimately show ?thesis using False i by (simp add: el_held_def add.commute)
  qed
qed

lemma fold_count: "fold (\<lambda>i c. if P i then c + 1 else c) is (n::nat) = n + length (filter P is)"
  by (induction "is" arbitrary: n) auto

text \<open>
  The error log keeps the latest records. After any sequence of records (fewer than 2^32 since the last
  clear) the log holds exactly the last \<^verbatim>\<open>capacity\<close> of them: reading by index gives them oldest first
  and fails beyond, the latest entry is the last one recorded, and the severity count counts
  them.
\<close>

theorem errlog_keeps_latest:
  assumes "el_rep hist log"
  shows "syn_errlog_read log i = (if i < min (length hist) (el_capacity log) then Some (el_held hist log ! i) else None)
    \<and> syn_errlog_latest log = (if hist = [] then None else Some (last hist))
    \<and> syn_errlog_count_severity log sev = length (filter (\<lambda>e. ee_severity e = severity_code sev) (el_held hist log))
    \<and> (el_enabled log \<and> length hist + 1 < 2 ^ 32 \<longrightarrow>
         el_rep (hist @ [\<lparr>ee_code = code, ee_severity = severity_code sev, ee_context = ctx, ee_timestamp = now,
                 ee_boot_count = el_boot_count log\<rparr>]) (syn_errlog_record log code sev ctx now))"
proof -
  let ?c = "el_capacity log" and ?n = "length hist" and ?a = "syn_errlog_available log"
  note R = assms [unfolded el_rep_def] and T = el_rep_total [OF assms]
  have av: "?a = min ?n ?c" using T by (simp add: syn_errlog_available_def)
  have len: "length (el_held hist log) = ?a" using av by (simp add: el_held_def min_def)
  have "syn_errlog_read log i = (if i < min ?n ?c then Some (el_held hist log ! i) else None)"
    using el_slot(1) [OF assms, of i] av by (auto simp: syn_errlog_read_def)
  moreover have "syn_errlog_latest log = (if hist = [] then None else Some (last hist))"
  proof (cases "hist = []")
    case True
    then show ?thesis using R by (simp add: syn_errlog_latest_def)
  next
    case False
    then have n: "0 < ?n" by simp
    have nz: "el_total_count log \<noteq> 0" using T n by auto
    define m where "m = (?n - 1) mod ?c"
    have "m < ?c" "el_head log = (if Suc m \<ge> ?c then 0 else Suc m)"
      using R mod_Suc_once [of ?c "?n - 1"] n by (simp_all add: m_def)
    then have "(if el_head log = 0 then ?c - 1 else el_head log - 1) = (?n - 1) mod ?c"
      unfolding m_def [symmetric] by auto
    moreover have "el_entries log ! ((?n - 1) mod ?c) = hist ! (?n - 1)" using R n by auto
    ultimately show ?thesis using nz False by (simp add: syn_errlog_latest_def last_conv_nth)
  qed
  moreover have "syn_errlog_count_severity log sev = length (filter (\<lambda>e. ee_severity e = severity_code sev) (el_held hist log))"
  proof -
    have "map (\<lambda>i. el_entries log ! ((errlog_start log + i) mod ?c)) [0..<?a] = el_held hist log"
      by (rule nth_equalityI) (use len el_slot(1) [OF assms] in simp_all)
    then show ?thesis
      unfolding syn_errlog_count_severity_def fold_count by (metis (no_types, lifting) add_0 filter_map length_map o_apply filter_cong)
  qed
  moreover note el_rep_record [OF assms]
  ultimately show ?thesis by blast
qed


theorem errlog_keeps_latest_witness:
  "syn_errlog_read (syn_errlog_record (syn_errlog_init 2 1) 7 SYN_ERR_ERROR 5 100) 0
     = Some \<lparr>ee_code = 7, ee_severity = 2, ee_context = 5, ee_timestamp = 100, ee_boot_count = 1\<rparr>"
proof -
  let ?l = "syn_errlog_init 2 1"
  have "el_rep [] ?l" by (rule el_rep_init) simp_all
  then have "el_rep [\<lparr>ee_code = 7, ee_severity = 2, ee_context = 5, ee_timestamp = 100, ee_boot_count = 1\<rparr>]
      (syn_errlog_record ?l 7 SYN_ERR_ERROR 5 100)"
    using el_rep_record [of "[]" ?l 7 SYN_ERR_ERROR 5 100] by (simp add: syn_errlog_init_def)
  from errlog_keeps_latest [OF this, of 0] show ?thesis
    by (simp add: el_held_def syn_errlog_record_def syn_errlog_init_def Let_def)
qed

end
