(* ===== verification/Syn_Watchdog.thy ===== *)
theory Syn_Watchdog
  imports Syn_Errlog
begin

text \<open>
  The task watchdog of \<^verbatim>\<open>sched/syn_watchdog.c\<close>, which records timeouts in the error log. What the timeout
  callback does to the watchdog and to the rest of the system (\<open>wd_world\<close>) is a parameter. Task
  identifiers are \<^verbatim>\<open>int8_t\<close> values, here integers obtained by reading the index as a signed byte.
\<close>

record wdt_entry =
  we_name :: ptr
  we_timeout_ms :: u32
  we_last_checkin :: u32
  we_active :: bool

record 'w wdt =
  wd_entries :: "wdt_entry list"
  wd_capacity :: u8
  wd_count :: u8
  wd_callback :: bool
  wd_errlog :: "errlog option"
  wd_world :: 'w

definition SYN_WDT_ERR_TIMEOUT :: u16 where "SYN_WDT_ERR_TIMEOUT = 0x0200"

definition syn_watchdog_init :: "u8 \<Rightarrow> bool \<Rightarrow> 'w \<Rightarrow> 'w wdt" where
  "syn_watchdog_init capacity callback world =
     \<lparr>wd_entries = replicate (unat capacity) \<lparr>we_name = None, we_timeout_ms = 0, we_last_checkin = 0, we_active = False\<rparr>,
      wd_capacity = capacity, wd_count = 0, wd_callback = callback, wd_errlog = None, wd_world = world\<rparr>"

definition upd_entry :: "nat \<Rightarrow> (wdt_entry \<Rightarrow> wdt_entry) \<Rightarrow> 'w wdt \<Rightarrow> 'w wdt" where
  "upd_entry i f w = w\<lparr>wd_entries := (wd_entries w)[i := f (wd_entries w ! i)]\<rparr>"

text \<open>The search for a free slot: the first index below the capacity that is not active.\<close>

definition find_free :: "'w wdt \<Rightarrow> nat option" where
  "find_free w = find (\<lambda>i. \<not> we_active (wd_entries w ! i)) [0..<unat (wd_capacity w)]"

definition int8_of :: "nat \<Rightarrow> int" where
  "int8_of i = sint (of_nat i :: u8)"

definition syn_watchdog_register :: "'w wdt \<Rightarrow> ptr \<Rightarrow> u32 \<Rightarrow> u32 \<Rightarrow> int \<times> 'w wdt" where
  "syn_watchdog_register w name timeout_ms now =
     (if wd_count w \<ge> wd_capacity w then (- 1, w)
      else case find_free w of
             None \<Rightarrow> (- 1, w)
           | Some i \<Rightarrow> (int8_of i,
               (upd_entry i (\<lambda>_. \<lparr>we_name = name, we_timeout_ms = timeout_ms, we_last_checkin = now, we_active = True\<rparr>) w)
                 \<lparr>wd_count := wd_count w + 1\<rparr>))"

text \<open>The assertions are preconditions: \<open>None\<close> is a failed assertion.\<close>

definition syn_watchdog_checkin :: "'w wdt \<Rightarrow> int \<Rightarrow> u32 \<Rightarrow> 'w wdt option" where
  "syn_watchdog_checkin w tid now =
     (if 0 \<le> tid \<and> nat tid < unat (wd_capacity w) \<and> we_active (wd_entries w ! nat tid)
      then Some (upd_entry (nat tid) (\<lambda>e. e\<lparr>we_last_checkin := now\<rparr>) w) else None)"

definition syn_watchdog_unregister :: "'w wdt \<Rightarrow> int \<Rightarrow> 'w wdt option" where
  "syn_watchdog_unregister w tid =
     (if 0 \<le> tid \<and> nat tid < unat (wd_capacity w)
      then if \<not> we_active (wd_entries w ! nat tid) then Some w
           else Some ((upd_entry (nat tid) (\<lambda>e. e\<lparr>we_active := False\<rparr>) w)\<lparr>wd_count := wd_count w - 1\<rparr>)
      else None)"

definition watchdog_check :: "(nat \<Rightarrow> 'w wdt \<Rightarrow> 'w wdt) \<Rightarrow> u32 \<Rightarrow> nat \<Rightarrow> 'w wdt \<Rightarrow> 'w wdt" where
  "watchdog_check call now i w =
     (let e = wd_entries w ! i in
      if \<not> we_active e then w
      else if now - we_last_checkin e \<ge> we_timeout_ms e
      then
        let w1 = (case wd_errlog w of None \<Rightarrow> w
                  | Some log \<Rightarrow> w\<lparr>wd_errlog := Some (syn_errlog_record log SYN_WDT_ERR_TIMEOUT SYN_ERR_ERROR (of_nat i) now)\<rparr>);
            w2 = (if wd_callback w1 then call i w1 else w1)
        in upd_entry i (\<lambda>e. e\<lparr>we_last_checkin := now\<rparr>) w2
      else w)"

definition syn_watchdog_update :: "(nat \<Rightarrow> 'w wdt \<Rightarrow> 'w wdt) \<Rightarrow> 'w wdt \<Rightarrow> u32 \<Rightarrow> 'w wdt" where
  "syn_watchdog_update call w now = fold (watchdog_check call now) [0..<unat (wd_capacity w)] w"

subsection \<open>The bookkeeping invariant\<close>

definition wd_active :: "'w wdt \<Rightarrow> nat list" where
  "wd_active w = filter (\<lambda>i. we_active (wd_entries w ! i)) [0..<unat (wd_capacity w)]"

definition wd_wf :: "'w wdt \<Rightarrow> bool" where
  "wd_wf w \<longleftrightarrow> length (wd_entries w) = unat (wd_capacity w) \<and> unat (wd_count w) = length (wd_active w)"

lemma wd_wf_init: "wd_wf (syn_watchdog_init capacity cb world)"
  by (simp add: wd_wf_def syn_watchdog_init_def wd_active_def filter_empty_conv)

lemma filter_upt_switch:
  assumes "i < n" "P i" "\<not> Q i" "\<And>j. j \<noteq> i \<Longrightarrow> P j = Q j"
  shows "length (filter P [0..<n]) = length (filter Q [0..<n]) + 1"
proof -
  have "P x = (x = i \<or> Q x)" for x using assms by (cases "x = i") auto
  then have "{j. j < n \<and> P j} = insert i {j. j < n \<and> Q j}" using assms(1) by auto
  moreover have "length (filter R [0..<n]) = card {j. j < n \<and> R j}" for R
    using distinct_card [of "filter R [0..<n]"] by (simp add: atLeast0LessThan)
  ultimately show ?thesis using assms(3) by simp
qed

lemma wd_active_switch:
  assumes "length (wd_entries w) = unat (wd_capacity w)" "i < unat (wd_capacity w)"
    "we_active (wd_entries w ! i) \<noteq> we_active (f (wd_entries w ! i))"
  shows "length (wd_active (upd_entry i f w)) =
    (if we_active (wd_entries w ! i) then length (wd_active w) - 1 else length (wd_active w) + 1)"
proof -
  let ?P = "\<lambda>j. we_active (wd_entries w ! j)" and ?Q = "\<lambda>j. we_active (wd_entries (upd_entry i f w) ! j)"
  have q: "?Q i = we_active (f (wd_entries w ! i))" "j \<noteq> i \<Longrightarrow> ?Q j = ?P j" for j using assms(1,2) by (simp_all add: upd_entry_def)
  have "wd_capacity (upd_entry i f w) = wd_capacity w" by (simp add: upd_entry_def)
  then show ?thesis
    using filter_upt_switch [of i "unat (wd_capacity w)" ?P ?Q] filter_upt_switch [of i "unat (wd_capacity w)" ?Q ?P] q assms(2,3)
    by (auto simp: wd_active_def)
qed

lemma wd_active_same:
  "(\<And>e. we_active (f e) = we_active e) \<Longrightarrow> wd_active (upd_entry i f w) = wd_active w"
proof -
  assume f: "\<And>e. we_active (f e) = we_active e"
  have "we_active ((wd_entries w)[i := f (wd_entries w ! i)] ! j) = we_active (wd_entries w ! j)" for j
    by (cases "i < length (wd_entries w)"; cases "j = i") (simp_all add: f list_update_beyond)
  then show ?thesis by (simp add: wd_active_def upd_entry_def)
qed


lemma int8_of_small: "i < 128 \<Longrightarrow> int8_of i = int i"
  by (simp add: int8_of_def signed_of_nat signed_take_bit_int_eq_self)

lemma find_free_spec:
  "case find_free w of None \<Rightarrow> wd_active w = [0..<unat (wd_capacity w)]
   | Some i \<Rightarrow> i < unat (wd_capacity w) \<and> \<not> we_active (wd_entries w ! i)"
  by (auto simp: find_free_def wd_active_def find_None_iff find_Some_iff filter_id_conv split: option.split)

lemma wd_set_active:
  assumes "wd_wf w" "i < unat (wd_capacity w)" "\<not> we_active (wd_entries w ! i)" "we_active e"
    "w' = (upd_entry i (\<lambda>_. e) w)\<lparr>wd_count := wd_count w + 1\<rparr>"
  shows "wd_wf w'" "set (wd_active w') = insert i (set (wd_active w))" "wd_entries w' ! i = e" "wd_capacity w' = wd_capacity w"
proof -
  let ?u = "upd_entry i (\<lambda>_. e) w"
  have wf: "length (wd_entries w) = unat (wd_capacity w)" "unat (wd_count w) = length (wd_active w)" using assms(1) by (simp_all add: wd_wf_def)
  have u: "wd_active w' = wd_active ?u" "wd_entries w' = wd_entries ?u" "wd_capacity w' = wd_capacity w" "wd_count w' = wd_count w + 1"
    by (simp_all add: assms(5) wd_active_def upd_entry_def)
  have len: "length (wd_active ?u) = length (wd_active w) + 1"
    using wd_active_switch [OF wf(1) assms(2), of "\<lambda>_. e"] assms(3,4) by simp
  have "length (wd_active ?u) \<le> unat (wd_capacity w)"
    using length_filter_le [of _ "[0..<unat (wd_capacity w)]"] by (simp add: wd_active_def upd_entry_def)
  moreover have "unat (wd_capacity w) < 2 ^ 8" using unsigned_less [of "wd_capacity w"] by simp
  ultimately have "unat (wd_count w) + 1 < 2 ^ 8" using len wf(2) by simp
  then have "unat (wd_count w + 1) = unat (wd_count w) + 1" by (simp add: unat_word_ariths)
  then show "wd_wf w'" using wf len u by (simp add: wd_wf_def upd_entry_def)
  show "set (wd_active w') = insert i (set (wd_active w))" "wd_entries w' ! i = e"
    using u wf(1) assms(2,4) by (auto simp: wd_active_def upd_entry_def nth_list_update)
  show "wd_capacity w' = wd_capacity w" by (rule u(3))
qed

lemma wd_clear_active:
  assumes "wd_wf w" "i < unat (wd_capacity w)" "we_active (wd_entries w ! i)"
    "w' = (upd_entry i (\<lambda>e. e\<lparr>we_active := False\<rparr>) w)\<lparr>wd_count := wd_count w - 1\<rparr>"
  shows "wd_wf w'" "set (wd_active w') = set (wd_active w) - {i}"
proof -
  let ?u = "upd_entry i (\<lambda>e. e\<lparr>we_active := False\<rparr>) w"
  have wf: "length (wd_entries w) = unat (wd_capacity w)" "unat (wd_count w) = length (wd_active w)" using assms(1) by (simp_all add: wd_wf_def)
  have u: "wd_active w' = wd_active ?u" "wd_entries w' = wd_entries ?u" "wd_capacity w' = wd_capacity w" "wd_count w' = wd_count w - 1"
    by (simp_all add: assms(4) wd_active_def upd_entry_def)
  have len: "length (wd_active ?u) = length (wd_active w) - 1"
    using wd_active_switch [OF wf(1) assms(2), of "\<lambda>e. e\<lparr>we_active := False\<rparr>"] assms(3) by simp
  have "i \<in> set (wd_active w)" using assms(2,3) by (simp add: wd_active_def)
  then have "0 < unat (wd_count w)" using wf(2) by (cases "wd_active w") auto
  then have "unat (wd_count w - 1) = unat (wd_count w) - 1" by (metis unat_gt_0 unat_minus_one)
  then show "wd_wf w'" using wf len u by (simp add: wd_wf_def upd_entry_def)
  show "set (wd_active w') = set (wd_active w) - {i}"
    using u wf(1) assms(2) by (auto simp: wd_active_def upd_entry_def nth_list_update split: if_splits)
qed

text \<open>
  The watchdog's bookkeeping. With the entry count equal to the number of active entries (which
  initialisation establishes and every operation keeps), registering fails exactly when every
  slot is active; otherwise it makes an inactive slot active with a fresh check-in and
  returns its index (for a capacity of at most 128, beyond which the signed identifier cannot hold
  it), and unregistering that identifier frees exactly that slot.
\<close>

theorem watchdog_register_exact:
  assumes "wd_wf w" "unat (wd_capacity w) \<le> 128" "syn_watchdog_register w name timeout now = (tid, w')"
  shows "wd_wf w' \<and> (tid = - 1 \<longleftrightarrow> wd_active w = [0..<unat (wd_capacity w)]) \<and> (tid = - 1 \<longrightarrow> w' = w)
    \<and> (tid \<noteq> - 1 \<longrightarrow> 0 \<le> tid \<and> nat tid < unat (wd_capacity w) \<and> nat tid \<notin> set (wd_active w)
         \<and> set (wd_active w') = insert (nat tid) (set (wd_active w))
         \<and> wd_entries w' ! nat tid = \<lparr>we_name = name, we_timeout_ms = timeout, we_last_checkin = now, we_active = True\<rparr>
         \<and> (\<exists>w''. syn_watchdog_unregister w' tid = Some w'' \<and> wd_wf w'' \<and> set (wd_active w'') = set (wd_active w)))"
proof (cases "wd_active w = [0..<unat (wd_capacity w)]")
  case True
  then have "unat (wd_count w) = unat (wd_capacity w)" using assms(1) by (simp add: wd_wf_def)
  then show ?thesis using True assms by (simp add: syn_watchdog_register_def word_le_nat_alt)
next
  case False
  obtain i where i: "find_free w = Some i" using find_free_spec [of w] False by (cases "find_free w") auto
  then have i2: "i < unat (wd_capacity w)" "\<not> we_active (wd_entries w ! i)" using find_free_spec [of w] by auto
  have "length (wd_active w) < length [0..<unat (wd_capacity w)]"
    unfolding wd_active_def by (rule length_filter_less [of i]) (use i2 in simp_all)
  then have cnt: "\<not> wd_capacity w \<le> wd_count w" using assms(1) by (simp add: wd_wf_def word_le_nat_alt)
  let ?e = "\<lparr>we_name = name, we_timeout_ms = timeout, we_last_checkin = now, we_active = True\<rparr>"
  have w': "tid = int i" "w' = (upd_entry i (\<lambda>_. ?e) w)\<lparr>wd_count := wd_count w + 1\<rparr>"
    using assms(2,3) cnt i i2 int8_of_small [of i] by (simp_all add: syn_watchdog_register_def)
  note S = wd_set_active [OF assms(1) i2 _ w'(2)]
  have ni: "i \<notin> set (wd_active w)" using i2 by (simp add: wd_active_def)
  have S': "wd_wf w'" "set (wd_active w') = insert i (set (wd_active w))" "wd_entries w' ! i = ?e" "wd_capacity w' = wd_capacity w"
    using S by simp_all
  let ?w'' = "(upd_entry i (\<lambda>e. e\<lparr>we_active := False\<rparr>) w')\<lparr>wd_count := wd_count w' - 1\<rparr>"
  have "syn_watchdog_unregister w' tid = Some ?w''" using w'(1) S' i2(1) by (simp add: syn_watchdog_unregister_def)
  moreover have "wd_wf ?w''" "set (wd_active ?w'') = set (wd_active w') - {i}"
    using wd_clear_active [OF S'(1) _ _ refl, of i] S'(3,4) i2(1) by simp_all
  ultimately show ?thesis using w'(1) S' i2(1) ni False by auto
qed


theorem watchdog_register_exact_witness:
  "wd_wf (snd (syn_watchdog_register (syn_watchdog_init 2 False ()) None 50 7)) \<and>
   fst (syn_watchdog_register (syn_watchdog_init 2 False ()) None 50 7) = 0"
proof -
  let ?w = "syn_watchdog_init 2 False ()"
  obtain tid w' where r: "syn_watchdog_register ?w None 50 7 = (tid, w')" by fastforce
  have "unat (wd_capacity ?w) \<le> 128" by (simp add: syn_watchdog_init_def)
  from watchdog_register_exact [OF wd_wf_init this r] have "wd_wf w'" by blast
  moreover have "tid = 0"
    using r by (simp add: syn_watchdog_register_def syn_watchdog_init_def find_free_def int8_of_def upt_rec)
  ultimately show ?thesis using r by simp
qed

subsection \<open>The update\<close>

definition wd_due :: "'w wdt \<Rightarrow> u32 \<Rightarrow> nat \<Rightarrow> bool" where
  "wd_due w now i \<longleftrightarrow> we_active (wd_entries w ! i) \<and> we_timeout_ms (wd_entries w ! i) \<le> now - we_last_checkin (wd_entries w ! i)"

definition wd_frame :: "(nat \<Rightarrow> 'w \<Rightarrow> 'w) \<Rightarrow> nat \<Rightarrow> 'w wdt \<Rightarrow> 'w wdt" where
  "wd_frame f i w = w\<lparr>wd_world := f i (wd_world w)\<rparr>"

definition wd_log :: "u32 \<Rightarrow> nat list \<Rightarrow> errlog \<Rightarrow> errlog" where
  "wd_log now ds log = fold (\<lambda>i l. syn_errlog_record l SYN_WDT_ERR_TIMEOUT SYN_ERR_ERROR (of_nat i) now) ds log"

lemma watchdog_prefix:
  assumes "length (wd_entries w) = unat (wd_capacity w)"
  shows "n \<le> unat (wd_capacity w) \<Longrightarrow> w' = fold (watchdog_check (wd_frame f) now) [0..<n] w \<Longrightarrow> ds = filter (wd_due w now) [0..<n] \<Longrightarrow>
    length (wd_entries w') = length (wd_entries w) \<and> wd_capacity w' = wd_capacity w \<and> wd_count w' = wd_count w \<and> wd_callback w' = wd_callback w
    \<and> wd_world w' = (if wd_callback w then fold f ds (wd_world w) else wd_world w)
    \<and> wd_errlog w' = map_option (wd_log now ds) (wd_errlog w)
    \<and> (\<forall>i<unat (wd_capacity w). wd_entries w' ! i =
         (if i < n \<and> wd_due w now i then (wd_entries w ! i)\<lparr>we_last_checkin := now\<rparr> else wd_entries w ! i))"
proof (induction n arbitrary: w' ds)
  case 0
  then show ?case by (simp add: wd_log_def option.map_id [unfolded id_def])
next
  case (Suc n)
  let ?v = "fold (watchdog_check (wd_frame f) now) [0..<n] w" and ?d = "filter (wd_due w now) [0..<n]"
  have n: "n < unat (wd_capacity w)" using Suc.prems(1) by simp
  note H = Suc.IH [OF less_imp_le [OF n] refl refl]
  have en: "wd_entries ?v ! n = wd_entries w ! n" using H n by simp
  have w': "w' = watchdog_check (wd_frame f) now n ?v" using Suc.prems(2) by simp
  show ?case
  proof (cases "wd_due w now n")
    case True
    then have d: "ds = ?d @ [n]" using Suc.prems(3) by simp
    have ve: "wd_due ?v now n" using True en by (simp add: wd_due_def)
    have ent: "wd_entries w' = (wd_entries ?v)[n := (wd_entries ?v ! n)\<lparr>we_last_checkin := now\<rparr>]"
      "wd_capacity w' = wd_capacity ?v" "wd_count w' = wd_count ?v" "wd_callback w' = wd_callback ?v"
      "wd_world w' = (if wd_callback ?v then f n (wd_world ?v) else wd_world ?v)"
      "wd_errlog w' = map_option (\<lambda>l. syn_errlog_record l SYN_WDT_ERR_TIMEOUT SYN_ERR_ERROR (of_nat n) now) (wd_errlog ?v)"
      using ve by (auto simp: w' watchdog_check_def wd_due_def wd_frame_def upd_entry_def Let_def split: option.splits)
    show ?thesis using H ent True assms n d by (auto simp: wd_log_def nth_list_update less_Suc_eq option.map_comp o_def)
  next
    case False
    then have "ds = ?d" using Suc.prems(3) by simp
    moreover have "w' = ?v" using False en by (simp add: w' watchdog_check_def wd_due_def Let_def)
    ultimately show ?thesis using H False by (auto simp: less_Suc_eq)
  qed
qed

text \<open>
  A watchdog update reports exactly the overdue tasks: for every active entry whose last check-in is at
  least its timeout ago (also across the wrap of the clock), in index order, it records one error with the
  entry's index and calls the timeout callback once; it restarts the period of those entries and
  changes nothing else. The callback is assumed to leave the watchdog alone.
\<close>

theorem watchdog_update_exact:
  assumes "wd_wf w" "w' = syn_watchdog_update (wd_frame f) w now" "ds = filter (wd_due w now) [0..<unat (wd_capacity w)]"
  shows "wd_wf w' \<and> wd_world w' = (if wd_callback w then fold f ds (wd_world w) else wd_world w)
    \<and> wd_errlog w' = map_option (wd_log now ds) (wd_errlog w)
    \<and> (\<forall>i<unat (wd_capacity w). wd_entries w' ! i =
         (if i \<in> set ds then (wd_entries w ! i)\<lparr>we_last_checkin := now\<rparr> else wd_entries w ! i))"
proof -
  have len: "length (wd_entries w) = unat (wd_capacity w)" using assms(1) by (simp add: wd_wf_def)
  note P = watchdog_prefix [OF len le_refl assms(2) [unfolded syn_watchdog_update_def] assms(3)]
  have "wd_active w' = wd_active w" unfolding wd_active_def using P by (intro filter_cong) auto
  then have "wd_wf w'" using P assms(1) by (simp add: wd_wf_def)
  then show ?thesis using P assms(3) by auto
qed

theorem watchdog_update_exact_witness:
  "wd_world (syn_watchdog_update (wd_frame (\<lambda>i. Cons i))
     (snd (syn_watchdog_register (syn_watchdog_init 2 True []) None 50 7)) 57) = [0]"
proof -
  let ?w = "snd (syn_watchdog_register (syn_watchdog_init 2 True []) None 50 7)"
  have rep: "replicate 2 x = [x, x]" for x :: wdt_entry by (simp add: numeral_2_eq_2)
  have r: "?w = \<lparr>wd_entries = [\<lparr>we_name = None, we_timeout_ms = 50, we_last_checkin = 7, we_active = True\<rparr>,
      \<lparr>we_name = None, we_timeout_ms = 0, we_last_checkin = 0, we_active = False\<rparr>],
      wd_capacity = 2, wd_count = 1, wd_callback = True, wd_errlog = None, wd_world = []\<rparr>"
    by (simp add: syn_watchdog_register_def syn_watchdog_init_def find_free_def upd_entry_def upt_rec rep)
  have "wd_wf ?w" unfolding r by (simp add: wd_wf_def wd_active_def upt_rec)
  from watchdog_update_exact [OF this refl refl, of "\<lambda>i. Cons i" 57] show ?thesis
    unfolding r by (simp add: wd_due_def upt_rec)
qed

end
