(* ===== verification/Syn_Fsm.thy ===== *)
theory Syn_Fsm
  imports Syn_Prelude
begin

text \<open>
  The table-driven state machine of \<^verbatim>\<open>util/syn_fsm.c\<close>. Tables are lists ended by a row with the state
  \<^verbatim>\<open>SYN_FSM_STATE_NONE\<close>. Guards and actions are names; what calling them does to their context
  (\<open>fsm_ctx\<close>, everything the pointer \<^verbatim>\<open>ctx\<close> reaches) are parameters \<open>guard\<close> and \<open>act\<close>, a guard
  possibly changing it too. Callbacks do not call back into the machine. Logging is not
  modelled.
\<close>

type_synonym fsm_state = int
type_synonym fsm_event = int

definition SYN_FSM_STATE_NONE :: fsm_state where "SYN_FSM_STATE_NONE = - 1"

record ('g, 'c) fsm_transition =
  tr_from :: fsm_state
  tr_event :: fsm_event
  tr_to :: fsm_state
  tr_guard :: "'g option"
  tr_action :: "'c option"

record 'c fsm_state_desc =
  sd_state :: fsm_state
  sd_on_enter :: "'c option"
  sd_on_exit :: "'c option"

record ('g, 'c, 'w) fsm =
  fsm_transitions :: "('g, 'c) fsm_transition list"
  fsm_state_descs :: "'c fsm_state_desc list option"
  fsm_state_names :: "string list option"
  fsm_tag :: "string option"
  fsm_current :: fsm_state
  fsm_ctx :: 'w

fun find_desc :: "'c fsm_state_desc list \<Rightarrow> fsm_state \<Rightarrow> 'c fsm_state_desc option" where
  "find_desc [] state = None"
| "find_desc (d # ds) state =
     (if sd_state d = SYN_FSM_STATE_NONE then None else if sd_state d = state then Some d else find_desc ds state)"

definition find_state_desc :: "('g, 'c, 'w) fsm \<Rightarrow> fsm_state \<Rightarrow> 'c fsm_state_desc option" where
  "find_state_desc fsm state = (case fsm_state_descs fsm of None \<Rightarrow> None | Some ds \<Rightarrow> find_desc ds state)"

definition run_action :: "('c \<Rightarrow> 'w \<Rightarrow> 'w) \<Rightarrow> 'c option \<Rightarrow> ('g, 'c, 'w) fsm \<Rightarrow> ('g, 'c, 'w) fsm" where
  "run_action act a fsm = (case a of None \<Rightarrow> fsm | Some c \<Rightarrow> fsm\<lparr>fsm_ctx := act c (fsm_ctx fsm)\<rparr>)"

definition fire_exit :: "('c \<Rightarrow> 'w \<Rightarrow> 'w) \<Rightarrow> ('g, 'c, 'w) fsm \<Rightarrow> fsm_state \<Rightarrow> ('g, 'c, 'w) fsm" where
  "fire_exit act fsm state = (case find_state_desc fsm state of None \<Rightarrow> fsm | Some d \<Rightarrow> run_action act (sd_on_exit d) fsm)"

definition fire_enter :: "('c \<Rightarrow> 'w \<Rightarrow> 'w) \<Rightarrow> ('g, 'c, 'w) fsm \<Rightarrow> fsm_state \<Rightarrow> ('g, 'c, 'w) fsm" where
  "fire_enter act fsm state = (case find_state_desc fsm state of None \<Rightarrow> fsm | Some d \<Rightarrow> run_action act (sd_on_enter d) fsm)"

definition syn_fsm_init :: "('g, 'c) fsm_transition list \<Rightarrow> fsm_state \<Rightarrow> string option \<Rightarrow> 'w \<Rightarrow> ('g, 'c, 'w) fsm" where
  "syn_fsm_init transitions initial tag null_ctx =
     \<lparr>fsm_transitions = transitions, fsm_state_descs = None, fsm_state_names = None, fsm_tag = tag,
      fsm_current = initial, fsm_ctx = null_ctx\<rparr>"

definition syn_fsm_set_state_descs :: "('g, 'c, 'w) fsm \<Rightarrow> 'c fsm_state_desc list option \<Rightarrow> ('g, 'c, 'w) fsm" where
  "syn_fsm_set_state_descs fsm descs = fsm\<lparr>fsm_state_descs := descs\<rparr>"

definition syn_fsm_set_state_names :: "('g, 'c, 'w) fsm \<Rightarrow> string list option \<Rightarrow> ('g, 'c, 'w) fsm" where
  "syn_fsm_set_state_names fsm names = fsm\<lparr>fsm_state_names := names\<rparr>"

definition syn_fsm_set_context :: "('g, 'c, 'w) fsm \<Rightarrow> 'w \<Rightarrow> ('g, 'c, 'w) fsm" where
  "syn_fsm_set_context fsm ctx = fsm\<lparr>fsm_ctx := ctx\<rparr>"

text \<open>The scan of \<^verbatim>\<open>syn_fsm_dispatch\<close> from the row pointer on.\<close>

fun fsm_scan :: "('g \<Rightarrow> 'w \<Rightarrow> bool \<times> 'w) \<Rightarrow> ('c \<Rightarrow> 'w \<Rightarrow> 'w) \<Rightarrow> fsm_event \<Rightarrow> ('g, 'c) fsm_transition list
    \<Rightarrow> ('g, 'c, 'w) fsm \<Rightarrow> bool \<times> ('g, 'c, 'w) fsm" where
  "fsm_scan guard act event [] fsm = (False, fsm)"
| "fsm_scan guard act event (t # ts) fsm =
     (if tr_from t = SYN_FSM_STATE_NONE then (False, fsm)
      else if tr_from t = fsm_current fsm \<and> tr_event t = event
      then
        (case (case tr_guard t of None \<Rightarrow> (True, fsm_ctx fsm) | Some g \<Rightarrow> guard g (fsm_ctx fsm)) of (allowed, ctx1) \<Rightarrow>
           let fsm1 = fsm\<lparr>fsm_ctx := ctx1\<rparr>
           in if \<not> allowed then fsm_scan guard act event ts fsm1
              else
                let old_state = fsm_current fsm1;
                    fsm2 = fire_exit act fsm1 old_state;
                    fsm3 = run_action act (tr_action t) fsm2;
                    fsm4 = fsm3\<lparr>fsm_current := tr_to t\<rparr>
                in (True, fire_enter act fsm4 (tr_to t)))
      else fsm_scan guard act event ts fsm)"

definition syn_fsm_dispatch :: "('g \<Rightarrow> 'w \<Rightarrow> bool \<times> 'w) \<Rightarrow> ('c \<Rightarrow> 'w \<Rightarrow> 'w) \<Rightarrow> ('g, 'c, 'w) fsm \<Rightarrow> fsm_event
    \<Rightarrow> bool \<times> ('g, 'c, 'w) fsm" where
  "syn_fsm_dispatch guard act fsm event = fsm_scan guard act event (fsm_transitions fsm) fsm"

definition syn_fsm_state :: "('g, 'c, 'w) fsm \<Rightarrow> fsm_state" where
  "syn_fsm_state fsm = fsm_current fsm"

definition syn_fsm_in_state :: "('g, 'c, 'w) fsm \<Rightarrow> fsm_state \<Rightarrow> bool" where
  "syn_fsm_in_state fsm s \<longleftrightarrow> fsm_current fsm = s"

definition syn_fsm_set_state :: "('c \<Rightarrow> 'w \<Rightarrow> 'w) \<Rightarrow> ('g, 'c, 'w) fsm \<Rightarrow> fsm_state \<Rightarrow> ('g, 'c, 'w) fsm" where
  "syn_fsm_set_state act fsm state =
     (if fsm_current fsm \<noteq> state
      then fire_enter act ((fire_exit act fsm (fsm_current fsm))\<lparr>fsm_current := state\<rparr>) state
      else fsm)"

subsection \<open>Reference semantics\<close>

text \<open>The rows of a table, and the row an event selects when guards only inspect the context.\<close>

definition fsm_rows :: "('g, 'c, 'w) fsm \<Rightarrow> ('g, 'c) fsm_transition list" where
  "fsm_rows fsm = takeWhile (\<lambda>t. tr_from t \<noteq> SYN_FSM_STATE_NONE) (fsm_transitions fsm)"

definition row_enabled :: "('g \<Rightarrow> 'w \<Rightarrow> bool) \<Rightarrow> fsm_state \<Rightarrow> fsm_event \<Rightarrow> 'w \<Rightarrow> ('g, 'c) fsm_transition \<Rightarrow> bool" where
  "row_enabled g s event ctx t \<longleftrightarrow> tr_from t = s \<and> tr_event t = event \<and> (case tr_guard t of None \<Rightarrow> True | Some x \<Rightarrow> g x ctx)"

definition opt_act :: "('c \<Rightarrow> 'w \<Rightarrow> 'w) \<Rightarrow> 'c option \<Rightarrow> 'w \<Rightarrow> 'w" where
  "opt_act act c = (case c of None \<Rightarrow> (\<lambda>w. w) | Some x \<Rightarrow> act x)"

definition desc_hook :: "('c fsm_state_desc \<Rightarrow> 'c option) \<Rightarrow> ('g, 'c, 'w) fsm \<Rightarrow> fsm_state \<Rightarrow> 'c option" where
  "desc_hook h fsm s = Option.bind (find_state_desc fsm s) h"

lemma run_action_ctx: "run_action act a fsm = fsm\<lparr>fsm_ctx := opt_act act a (fsm_ctx fsm)\<rparr>"
  by (simp add: run_action_def opt_act_def split: option.split)

lemma fire_ctx:
  "fire_exit act fsm s = fsm\<lparr>fsm_ctx := opt_act act (desc_hook sd_on_exit fsm s) (fsm_ctx fsm)\<rparr>"
  "fire_enter act fsm s = fsm\<lparr>fsm_ctx := opt_act act (desc_hook sd_on_enter fsm s) (fsm_ctx fsm)\<rparr>"
  by (simp_all add: fire_exit_def fire_enter_def desc_hook_def run_action_ctx opt_act_def split: option.split)

lemma desc_hook_upd [simp]:
  "desc_hook h (fsm\<lparr>fsm_ctx := c\<rparr>) s = desc_hook h fsm s" "desc_hook h (fsm\<lparr>fsm_current := x\<rparr>) s = desc_hook h fsm s"
  by (simp_all add: desc_hook_def find_state_desc_def)

lemma fsm_scan_first:
  "fsm_scan (\<lambda>x w. (g x w, w)) act event ts fsm =
     (case find (row_enabled g (fsm_current fsm) event (fsm_ctx fsm)) (takeWhile (\<lambda>t. tr_from t \<noteq> SYN_FSM_STATE_NONE) ts) of
        None \<Rightarrow> (False, fsm)
      | Some t \<Rightarrow> (True, fsm\<lparr>fsm_current := tr_to t,
          fsm_ctx := opt_act act (desc_hook sd_on_enter fsm (tr_to t))
            (opt_act act (tr_action t) (opt_act act (desc_hook sd_on_exit fsm (fsm_current fsm)) (fsm_ctx fsm)))\<rparr>))"
proof (induction ts)
  case (Cons t ts)
  have self: "fsm\<lparr>fsm_ctx := fsm_ctx fsm\<rparr> = fsm" by simp
  show ?case
  proof (cases "tr_from t \<noteq> SYN_FSM_STATE_NONE \<and> row_enabled g (fsm_current fsm) event (fsm_ctx fsm) t")
    case True
    then show ?thesis by (cases "tr_guard t") (simp_all add: row_enabled_def fire_ctx run_action_ctx Let_def)
  next
    case False
    then show ?thesis using Cons self by (cases "tr_guard t") (auto simp: row_enabled_def Let_def)
  qed
qed simp

text \<open>
  Dispatching an event fires exactly one row: the first row of the table (up to its end marker) for the
  current state and the event whose guard holds. The exit action of the old state, the row's
  action and the entry action of the new state run in this order, each at most once, and the
  machine is in the row's target state. When no row is enabled nothing happens and the
  dispatch reports so. Guards are assumed not to change the context.
\<close>

theorem fsm_dispatch_first_enabled:
  "syn_fsm_dispatch (\<lambda>x w. (g x w, w)) act fsm event =
     (case find (row_enabled g (fsm_current fsm) event (fsm_ctx fsm)) (fsm_rows fsm) of
        None \<Rightarrow> (False, fsm)
      | Some t \<Rightarrow> (True, fsm\<lparr>fsm_current := tr_to t,
          fsm_ctx := (opt_act act (desc_hook sd_on_enter fsm (tr_to t)) \<circ> opt_act act (tr_action t)
            \<circ> opt_act act (desc_hook sd_on_exit fsm (fsm_current fsm))) (fsm_ctx fsm)\<rparr>))"
  unfolding syn_fsm_dispatch_def fsm_rows_def fsm_scan_first by (simp split: option.split)

text \<open>A dispatch leaves the tables alone.\<close>

lemma fsm_scan_tables:
  "fsm_transitions (snd (fsm_scan guard act event ts fsm)) = fsm_transitions fsm
   \<and> fsm_state_descs (snd (fsm_scan guard act event ts fsm)) = fsm_state_descs fsm"
  by (induction ts arbitrary: fsm) (auto simp: fire_ctx run_action_ctx Let_def split: prod.splits)

end
