(* ===== verification/Syn_Ao.thy ===== *)
theory Syn_Ao
  imports Syn_Sched Syn_Mailbox Syn_Fsm
begin

text \<open>
  Active objects (\<^verbatim>\<open>sched/syn_ao.c\<close>): a task that feeds the events of its mailbox to its state machine and
  blocks while the mailbox is empty; posting an event wakes it. The machine's context is the
  active object, of which actions use the last event and the object's own data. The task function is
  given twice: as one call that nothing interrupts, and as the atomic steps between which an
  interrupt handler may post.
\<close>

record ao_event =
  ev_sig :: u16
  ev_data :: ptr

record ('f, 'g, 'c, 'w) active_object =
  ao_task :: "'f syn_task"
  ao_mailbox :: "ao_event syn_mailbox"
  ao_fsm :: "('g, 'c, ao_event \<times> 'w) fsm"

text \<open>The field \<^verbatim>\<open>last_event\<close> is the first part of the machine's context.\<close>

definition ao_last_event :: "('f, 'g, 'c, 'w) active_object \<Rightarrow> ao_event" where
  "ao_last_event ao = fst (fsm_ctx (ao_fsm ao))"

definition syn_ao_init :: "('f, 'g, 'c, 'w) active_object \<Rightarrow> string \<Rightarrow> ('g, 'c) fsm_transition list \<Rightarrow> fsm_state \<Rightarrow> ao_event list \<Rightarrow> nat
    \<Rightarrow> nat \<Rightarrow> 'f \<Rightarrow> nat \<Rightarrow> ('f, 'g, 'c, 'w) active_object" where
  "syn_ao_init ao name transitions initial_state mailbox_buf mailbox_cap event_size run self =
     (let ctx = fsm_ctx (ao_fsm ao) in
      ao\<lparr>ao_mailbox := syn_mailbox_init (ao_mailbox ao) mailbox_buf event_size mailbox_cap,
         ao_fsm := syn_fsm_set_context (syn_fsm_init transitions initial_state (Some name) ctx) ctx,
         ao_task := syn_task_create (ao_task ao) name (Some run) 0 (Some self)\<rparr>)"

definition syn_ao_post :: "('f, 'g, 'c, 'w) active_object \<Rightarrow> u16 \<Rightarrow> ptr \<Rightarrow> bool \<times> ('f, 'g, 'c, 'w) active_object" where
  "syn_ao_post ao sig data =
     (case syn_mailbox_post (ao_mailbox ao) \<lparr>ev_sig = sig, ev_data = data\<rparr> of (success, mb) \<Rightarrow>
        (success, ao\<lparr>ao_mailbox := mb,
           ao_task := (if success \<and> t_state (ao_task ao) = SYN_TASK_BLOCKED then syn_task_resume (ao_task ao) else ao_task ao)\<rparr>))"

text \<open>Receive one event and hand it to the machine; the signal is read as an \<^verbatim>\<open>int16_t\<close>.\<close>

definition ao_dispatch :: "('g \<Rightarrow> ao_event \<times> 'w \<Rightarrow> bool \<times> ao_event \<times> 'w) \<Rightarrow> ('c \<Rightarrow> ao_event \<times> 'w \<Rightarrow> ao_event \<times> 'w)
    \<Rightarrow> ao_event \<Rightarrow> ('g, 'c, ao_event \<times> 'w) fsm \<Rightarrow> ('g, 'c, ao_event \<times> 'w) fsm" where
  "ao_dispatch guard act ev fsm =
     snd (syn_fsm_dispatch guard act (fsm\<lparr>fsm_ctx := (ev, snd (fsm_ctx fsm))\<rparr>) (sint (ev_sig ev)))"

definition ao_take :: "('g \<Rightarrow> ao_event \<times> 'w \<Rightarrow> bool \<times> ao_event \<times> 'w) \<Rightarrow> ('c \<Rightarrow> ao_event \<times> 'w \<Rightarrow> ao_event \<times> 'w)
    \<Rightarrow> ('f, 'g, 'c, 'w) active_object \<Rightarrow> ('f, 'g, 'c, 'w) active_object" where
  "ao_take guard act ao =
     (case syn_mailbox_receive (ao_mailbox ao) of
        (None, mb) \<Rightarrow> ao\<lparr>ao_mailbox := mb\<rparr>
      | (Some ev, mb) \<Rightarrow> ao\<lparr>ao_mailbox := mb, ao_fsm := ao_dispatch guard act ev (ao_fsm ao)\<rparr>)"

text \<open>The call: its loop ends by yielding when the mailbox is empty.\<close>

partial_function (option) syn_ao_pt_run :: "('g \<Rightarrow> ao_event \<times> 'w \<Rightarrow> bool \<times> ao_event \<times> 'w) \<Rightarrow> ('c \<Rightarrow> ao_event \<times> 'w \<Rightarrow> ao_event \<times> 'w)
    \<Rightarrow> u16 \<Rightarrow> ('f, 'g, 'c, 'w) active_object \<Rightarrow> (SYN_PT_Status \<times> ('f, 'g, 'c, 'w) active_object) option" where
  "syn_ao_pt_run guard act line ao =
     (case pt_block_condition line (\<not> syn_mailbox_empty (ao_mailbox ao)) (ao_task ao) of
        (Some status, t) \<Rightarrow> Some (status, ao\<lparr>ao_task := t\<rparr>)
      | (None, t) \<Rightarrow> syn_ao_pt_run guard act line (ao_take guard act (ao\<lparr>ao_task := t\<rparr>)))"

lemma ao_take_contents:
  assumes "mb_wf (ao_mailbox ao)" "mb_contents (ao_mailbox ao) = ev # evs"
  shows "mb_wf (ao_mailbox (ao_take guard act ao))" "mb_contents (ao_mailbox (ao_take guard act ao)) = evs"
    "ao_fsm (ao_take guard act ao) = ao_dispatch guard act ev (ao_fsm ao)" "ao_task (ao_take guard act ao) = ao_task ao"
proof -
  obtain r mb where r: "syn_mailbox_receive (ao_mailbox ao) = (r, mb)" by fastforce
  note m = mb_receive_contents [OF assms(1) r]
  show "mb_wf (ao_mailbox (ao_take guard act ao))" "mb_contents (ao_mailbox (ao_take guard act ao)) = evs"
    "ao_fsm (ao_take guard act ao) = ao_dispatch guard act ev (ao_fsm ao)" "ao_task (ao_take guard act ao) = ao_task ao"
    using m assms(2) by (simp_all add: ao_take_def r)
qed

lemma ao_run_drains_list:
  "mb_wf (ao_mailbox ao) \<Longrightarrow> mb_contents (ao_mailbox ao) = evs \<Longrightarrow>
    \<exists>ao'. syn_ao_pt_run guard act line ao = Some (PT_YIELDED, ao') \<and> mb_wf (ao_mailbox ao') \<and> mb_contents (ao_mailbox ao') = []
      \<and> ao_fsm ao' = fold (ao_dispatch guard act) evs (ao_fsm ao) \<and> t_state (ao_task ao') = SYN_TASK_BLOCKED"
proof (induction evs arbitrary: ao)
  case Nil
  then have "syn_mailbox_empty (ao_mailbox ao)" by (simp add: mb_empty_contents)
  then show ?case using Nil by (subst syn_ao_pt_run.simps) (simp add: pt_block_condition_def)
next
  case (Cons ev evs)
  then have ne: "\<not> syn_mailbox_empty (ao_mailbox ao)" by (simp add: mb_empty_contents)
  let ?ao = "ao\<lparr>ao_task := (ao_task ao)\<lparr>t_state := SYN_TASK_READY\<rparr>\<rparr>"
  have "mb_wf (ao_mailbox ?ao)" "mb_contents (ao_mailbox ?ao) = ev # evs" using Cons.prems by simp_all
  note t = ao_take_contents [OF this, of guard act]
  have "syn_ao_pt_run guard act line ao = syn_ao_pt_run guard act line (ao_take guard act ?ao)"
    using ne by (subst syn_ao_pt_run.simps) (simp add: pt_block_condition_def)
  then show ?case using Cons.IH [OF t(1,2)] t(3) by simp
qed


subsection \<open>Posting from interrupts\<close>

datatype ao_pc = AO_Idle | AO_Armed | AO_Take | AO_Yield

text \<open>
  Where the task function is: not running; \<^verbatim>\<open>state = BLOCKED\<close> just stored; the mailbox found not
  empty and \<^verbatim>\<open>state = READY\<close> stored; the mailbox found empty. \<open>accepted\<close> and \<open>dispatched\<close> record the events so far.
\<close>

record ('f, 'g, 'c, 'w) ao_sys =
  sys_ao :: "('f, 'g, 'c, 'w) active_object"
  sys_pc :: ao_pc
  sys_accepted :: "ao_event list"
  sys_dispatched :: "ao_event list"

definition set_ao_state :: "SYN_TaskState \<Rightarrow> ('f, 'g, 'c, 'w) active_object \<Rightarrow> ('f, 'g, 'c, 'w) active_object" where
  "set_ao_state st ao = ao\<lparr>ao_task := (ao_task ao)\<lparr>t_state := st\<rparr>\<rparr>"

inductive ao_step :: "('g \<Rightarrow> ao_event \<times> 'w \<Rightarrow> bool \<times> ao_event \<times> 'w) \<Rightarrow> ('c \<Rightarrow> ao_event \<times> 'w \<Rightarrow> ao_event \<times> 'w)
    \<Rightarrow> ('f, 'g, 'c, 'w) ao_sys \<Rightarrow> ('f, 'g, 'c, 'w) ao_sys \<Rightarrow> bool" for guard act where
  post: "syn_ao_post (sys_ao s) sig data = (ok, ao') \<Longrightarrow>
    ao_step guard act s (s\<lparr>sys_ao := ao',
      sys_accepted := (if ok then sys_accepted s @ [\<lparr>ev_sig = sig, ev_data = data\<rparr>] else sys_accepted s)\<rparr>)"
| start: "sys_pc s = AO_Idle \<Longrightarrow> sched_check now evs (ao_task (sys_ao s)) = (t, True, True) \<Longrightarrow>
    ao_step guard act s (s\<lparr>sys_ao := set_ao_state SYN_TASK_BLOCKED ((sys_ao s)\<lparr>ao_task := t\<rparr>), sys_pc := AO_Armed\<rparr>)"
| check_some: "sys_pc s = AO_Armed \<Longrightarrow> \<not> syn_mailbox_empty (ao_mailbox (sys_ao s)) \<Longrightarrow>
    ao_step guard act s (s\<lparr>sys_ao := set_ao_state SYN_TASK_READY (sys_ao s), sys_pc := AO_Take\<rparr>)"
| check_none: "sys_pc s = AO_Armed \<Longrightarrow> syn_mailbox_empty (ao_mailbox (sys_ao s)) \<Longrightarrow>
    ao_step guard act s (s\<lparr>sys_pc := AO_Yield\<rparr>)"
| take: "sys_pc s = AO_Take \<Longrightarrow>
    ao_step guard act s (s\<lparr>sys_ao := set_ao_state SYN_TASK_BLOCKED (ao_take guard act (sys_ao s)), sys_pc := AO_Armed,
      sys_dispatched := sys_dispatched s @ take 1 (mb_contents (ao_mailbox (sys_ao s)))\<rparr>)"
| yield: "sys_pc s = AO_Yield \<Longrightarrow> ao_step guard act s (s\<lparr>sys_pc := AO_Idle\<rparr>)"

definition ao_init_sys :: "('f, 'g, 'c, 'w) active_object \<Rightarrow> ('f, 'g, 'c, 'w) ao_sys" where
  "ao_init_sys ao = \<lparr>sys_ao = ao, sys_pc = AO_Idle, sys_accepted = [], sys_dispatched = []\<rparr>"

text \<open>A task that blocked saw an empty mailbox after it had announced that it blocks.\<close>

definition ao_inv :: "('g \<Rightarrow> ao_event \<times> 'w \<Rightarrow> bool \<times> ao_event \<times> 'w) \<Rightarrow> ('c \<Rightarrow> ao_event \<times> 'w \<Rightarrow> ao_event \<times> 'w)
    \<Rightarrow> ('g, 'c, ao_event \<times> 'w) fsm \<Rightarrow> ('f, 'g, 'c, 'w) ao_sys \<Rightarrow> bool" where
  "ao_inv guard act fsm0 s \<longleftrightarrow>
     (let ao = sys_ao s; t = ao_task ao; q = mb_contents (ao_mailbox ao) in
      mb_wf (ao_mailbox ao) \<and> sys_accepted s = sys_dispatched s @ q
      \<and> ao_fsm ao = fold (ao_dispatch guard act) (sys_dispatched s) fsm0
      \<and> t_wait_event t = None \<and> t_delay_until t = 0 \<and> (t_state t = SYN_TASK_READY \<or> t_state t = SYN_TASK_BLOCKED)
      \<and> (sys_pc s = AO_Take \<longrightarrow> q \<noteq> [])
      \<and> (sys_pc s = AO_Idle \<or> sys_pc s = AO_Yield \<longrightarrow> t_state t = SYN_TASK_BLOCKED \<longrightarrow> q = []))"

lemma sched_check_idle:
  assumes "t_wait_event t = None" "t_delay_until t = 0" "t_state t = SYN_TASK_READY \<or> t_state t = SYN_TASK_BLOCKED"
  shows "sched_check now evs t = (t, True, t_state t = SYN_TASK_READY)"
  using assms by (auto simp: sched_check_def Let_def)

lemma ao_inv_step:
  assumes "ao_inv guard act fsm0 s" "ao_step guard act s s'"
  shows "ao_inv guard act fsm0 s'"
  using assms(2)
proof cases
  case (post sig data ok ao')
  obtain success mb where mb: "syn_mailbox_post (ao_mailbox (sys_ao s)) \<lparr>ev_sig = sig, ev_data = data\<rparr> = (success, mb)" by fastforce
  have wf: "mb_wf (ao_mailbox (sys_ao s))" using assms(1) by (simp add: ao_inv_def Let_def)
  note P = mb_post_contents [OF wf mb]
  let ?t = "ao_task (sys_ao s)"
  let ?t' = "if success \<and> t_state ?t = SYN_TASK_BLOCKED then syn_task_resume ?t else ?t"
  have ao': "ao' = (sys_ao s)\<lparr>ao_mailbox := mb, ao_task := ?t'\<rparr>" "ok = success"
    using post(2) by (auto simp: syn_ao_post_def mb)
  note I = assms(1) [unfolded ao_inv_def Let_def]
  have t': "t_wait_event ?t' = None" "t_delay_until ?t' = 0" "t_state ?t' = (if success then SYN_TASK_READY else t_state ?t)"
    using I by (auto simp: syn_task_resume_def)
  show ?thesis
  proof (cases success)
    case True
    then show ?thesis unfolding post(1) ao_inv_def Let_def using I P(1,3) t' by (simp add: ao' del: if_split)
  next
    case False
    then show ?thesis unfolding post(1) ao_inv_def Let_def using I P(1,3) t' by (simp add: ao')
  qed
next
  case (start now evs t)
  have "t = ao_task (sys_ao s)"
    using start(3) assms(1) sched_check_idle [of "ao_task (sys_ao s)" now evs] by (auto simp: ao_inv_def Let_def)
  then show ?thesis using assms(1) start(1) by (simp add: ao_inv_def Let_def set_ao_state_def)
next
  case check_some
  then show ?thesis using assms(1) mb_empty_contents [of "ao_mailbox (sys_ao s)"]
    by (simp add: ao_inv_def Let_def set_ao_state_def)
next
  case check_none
  then show ?thesis using assms(1) mb_empty_contents [of "ao_mailbox (sys_ao s)"]
    by (simp add: ao_inv_def Let_def)
next
  case take
  then obtain ev evs where q: "mb_contents (ao_mailbox (sys_ao s)) = ev # evs"
    using assms(1) by (auto simp: ao_inv_def Let_def neq_Nil_conv)
  have wf: "mb_wf (ao_mailbox (sys_ao s))" using assms(1) by (simp add: ao_inv_def Let_def)
  note T = ao_take_contents [OF wf q, of guard act]
  show ?thesis using assms(1) take T q by (simp add: ao_inv_def Let_def set_ao_state_def)
next
  case yield
  then show ?thesis using assms(1) by (simp add: ao_inv_def Let_def)
qed

lemma ao_inv_reachable:
  "(ao_step guard act)\<^sup>*\<^sup>* s0 s \<Longrightarrow> ao_inv guard act fsm0 s0 \<Longrightarrow> ao_inv guard act fsm0 s"
  by (induction rule: rtranclp_induct) (auto intro: ao_inv_step)

text \<open>
  C3: No event posted to an active object is lost or delayed for want of a wake-up, wherever an interrupt
  handler's post falls between the steps of the task function. In every reachable state the
  events accepted so far are those dispatched so far followed by the queued ones, the machine is in the state
  the dispatched events lead to in order, and whenever the task is not running while events are
  queued, the scheduler finds it ready.
\<close>

theorem ao_no_lost_wakeup:
  assumes "mb_wf (ao_mailbox ao)" "mb_contents (ao_mailbox ao) = []" "t_state (ao_task ao) = SYN_TASK_READY"
    "t_wait_event (ao_task ao) = None" "t_delay_until (ao_task ao) = 0"
    "(ao_step guard act)\<^sup>*\<^sup>* (ao_init_sys ao) s"
  shows "sys_accepted s = sys_dispatched s @ mb_contents (ao_mailbox (sys_ao s))
    \<and> ao_fsm (sys_ao s) = fold (ao_dispatch guard act) (sys_dispatched s) (ao_fsm ao)
    \<and> (sys_pc s = AO_Idle \<and> mb_contents (ao_mailbox (sys_ao s)) \<noteq> [] \<longrightarrow>
         sched_check now evs (ao_task (sys_ao s)) = (ao_task (sys_ao s), True, True))"
proof -
  have "ao_inv guard act (ao_fsm ao) (ao_init_sys ao)" using assms(1-5) by (simp add: ao_inv_def ao_init_sys_def)
  from ao_inv_reachable [OF assms(6) this] have inv: "ao_inv guard act (ao_fsm ao) s" .
  then show ?thesis using sched_check_idle [of "ao_task (sys_ao s)" now evs] by (auto simp: ao_inv_def Let_def)
qed


definition demo_ao :: "(nat, nat, nat, nat) active_object" where
  "demo_ao = syn_ao_init
     \<lparr>ao_task = \<lparr>t_lc = 0, t_func = 0, t_name = [], t_priority = 0, t_base_priority = 0, t_state = SYN_TASK_DEAD,
                 t_delay_until = 0, t_user_data = None, t_wait_event = None, t_wait_mask = 0\<rparr>,
      ao_mailbox = \<lparr>mb_buf = [], mb_msg_size = 0, mb_capacity = 0, mb_head = 0, mb_tail = 0, mb_overflow = 0\<rparr>,
      ao_fsm = syn_fsm_init [] 0 None (\<lparr>ev_sig = 0, ev_data = None\<rparr>, 0)\<rparr>
     ''led'' [\<lparr>tr_from = 0, tr_event = 5, tr_to = 1, tr_guard = None, tr_action = None\<rparr>,
              \<lparr>tr_from = SYN_FSM_STATE_NONE, tr_event = 0, tr_to = 0, tr_guard = None, tr_action = None\<rparr>]
     0 (replicate 4 \<lparr>ev_sig = 0, ev_data = None\<rparr>) 4 8 1 7"

lemma demo_ao_ready:
  "mb_wf (ao_mailbox demo_ao)" "mb_contents (ao_mailbox demo_ao) = []" "t_state (ao_task demo_ao) = SYN_TASK_READY"
  "t_wait_event (ao_task demo_ao) = None" "t_delay_until (ao_task demo_ao) = 0"
  by (simp_all add: demo_ao_def syn_ao_init_def mb_init_wf Let_def syn_task_create_def SYN_SCHED_PRIO_LEVELS_def)


theorem ao_no_lost_wakeup_witness:
  "\<exists>s. (ao_step (\<lambda>g w. (True, w)) (\<lambda>c w. w))\<^sup>*\<^sup>* (ao_init_sys demo_ao) s \<and> length (mb_contents (ao_mailbox (sys_ao s))) = 1
     \<and> sched_check 0 (\<lambda>_. \<lparr>ef_flags = 0\<rparr>) (ao_task (sys_ao s)) = (ao_task (sys_ao s), True, True)"
proof -
  obtain ok ao' where p: "syn_ao_post demo_ao 5 None = (ok, ao')" by fastforce
  obtain success mb where mb: "syn_mailbox_post (ao_mailbox demo_ao) \<lparr>ev_sig = 5, ev_data = None\<rparr> = (success, mb)" by fastforce
  note P = mb_post_contents [OF demo_ao_ready(1) mb]
  have "mb_capacity (ao_mailbox demo_ao) = 4" by (simp add: demo_ao_def syn_ao_init_def syn_mailbox_init_def Let_def)
  then have "success" "mb_contents mb = [\<lparr>ev_sig = 5, ev_data = None\<rparr>]" using P demo_ao_ready(2) by simp_all
  then have ao': "mb_contents (ao_mailbox ao') = [\<lparr>ev_sig = 5, ev_data = None\<rparr>]" using p by (auto simp: syn_ao_post_def mb)
  let ?s = "(ao_init_sys demo_ao)\<lparr>sys_ao := ao', sys_accepted := (if ok then sys_accepted (ao_init_sys demo_ao) @ [\<lparr>ev_sig = 5, ev_data = None\<rparr>]
       else sys_accepted (ao_init_sys demo_ao))\<rparr>"
  have "ao_step (\<lambda>g w. (True, w)) (\<lambda>c w. w) (ao_init_sys demo_ao) ?s"
    by (rule ao_step.post) (simp add: ao_init_sys_def p)
  then have r: "(ao_step (\<lambda>g w. (True, w)) (\<lambda>c w. w))\<^sup>*\<^sup>* (ao_init_sys demo_ao) ?s" by simp
  have "sys_pc ?s = AO_Idle" "mb_contents (ao_mailbox (sys_ao ?s)) = [\<lparr>ev_sig = 5, ev_data = None\<rparr>]"
    using ao' by (simp_all add: ao_init_sys_def)
  then show ?thesis using ao_no_lost_wakeup [OF demo_ao_ready r, of 0 "\<lambda>_. \<lparr>ef_flags = 0\<rparr>"] r by (intro exI [of _ ?s]) simp
qed

end
