(* ===== verification/Syn_Slab.thy ===== *)
theory Syn_Slab
  imports Syn_Prelude
begin

text \<open>
  The slab allocator of \<^verbatim>\<open>util/syn_slab.c\<close>. Addresses are natural numbers, sizes are 32-bit \<^verbatim>\<open>size_t\<close> values
  with their wrap-around, a pointer takes four bytes. The links of the free lists live in the
  free blocks themselves: \<open>sl_mem\<close> gives the pointer stored at an address.
\<close>

definition SYN_SLAB_MAX_CLASSES :: nat where "SYN_SLAB_MAX_CLASSES = 8"

record slab_class =
  sc_block_size :: u32
  sc_total_blocks :: u32
  sc_free_count :: u32
  sc_start_ptr :: nat
  sc_freelist :: ptr

record slab =
  sl_backing_memory :: nat
  sl_total_memory_size :: u32
  sl_classes :: "slab_class list"
  sl_mem :: "nat \<Rightarrow> ptr"

record slab_stats =
  ss_total_bytes :: u32
  ss_allocated_bytes :: u32
  ss_total_allocs :: u32

definition ALIGN4 :: "u32 \<Rightarrow> u32" where
  "ALIGN4 x = (x + 3) AND NOT 3"

text \<open>Building the embedded free list of \<open>n\<close> blocks: the list's head and the memory.\<close>

fun build_freelist :: "nat \<Rightarrow> nat \<Rightarrow> nat \<Rightarrow> (nat \<Rightarrow> ptr) \<Rightarrow> ptr \<times> (nat \<Rightarrow> ptr)" where
  "build_freelist start b_size 0 mem = (None, mem)"
| "build_freelist start b_size (Suc j) mem =
     (case build_freelist start b_size j mem of (freelist, mem1) \<Rightarrow>
        let block = start + j * b_size in (Some block, mem1(block := freelist)))"

text \<open>The loop over the classes; on failure the remaining classes stay zero.\<close>

definition zero_class :: slab_class where
  "zero_class = \<lparr>sc_block_size = 0, sc_total_blocks = 0, sc_free_count = 0, sc_start_ptr = 0, sc_freelist = None\<rparr>"

fun slab_init_loop :: "(u32 \<times> u32) list \<Rightarrow> nat \<Rightarrow> u32 \<Rightarrow> (nat \<Rightarrow> ptr) \<Rightarrow> SYN_Status \<times> slab_class list \<times> (nat \<Rightarrow> ptr)" where
  "slab_init_loop [] curr_ptr remaining mem = (SYN_OK, [], mem)"
| "slab_init_loop ((bs, count) # rest) curr_ptr remaining mem =
     (let b_size0 = ALIGN4 bs; b_size = (if b_size0 < 4 then 4 else b_size0); req_size = b_size * count
      in if req_size > remaining then (SYN_INVALID_PARAM, map (\<lambda>_. zero_class) ((bs, count) # rest), mem)
         else
           (case build_freelist curr_ptr (unat b_size) (unat count) mem of (freelist, mem1) \<Rightarrow>
            case slab_init_loop rest (curr_ptr + unat req_size) (remaining - req_size) mem1 of (st, cs, mem2) \<Rightarrow>
              (st, \<lparr>sc_block_size = b_size, sc_total_blocks = count, sc_free_count = count, sc_start_ptr = curr_ptr,
                    sc_freelist = freelist\<rparr> # cs, mem2)))"

definition syn_slab_init :: "slab \<Rightarrow> nat \<Rightarrow> u32 \<Rightarrow> (u32 \<times> u32) list \<Rightarrow> SYN_Status \<times> slab" where
  "syn_slab_init slab backing_memory total_size cfg =
     (if cfg = [] \<or> length cfg > SYN_SLAB_MAX_CLASSES then (SYN_INVALID_PARAM, slab)
      else case slab_init_loop cfg backing_memory total_size (sl_mem slab) of (st, cs, mem) \<Rightarrow>
        (st, slab\<lparr>sl_backing_memory := backing_memory, sl_total_memory_size := total_size, sl_classes := cs, sl_mem := mem\<rparr>))"

fun slab_alloc_loop :: "u32 \<Rightarrow> (nat \<Rightarrow> ptr) \<Rightarrow> slab_class list \<Rightarrow> ptr \<times> slab_class list" where
  "slab_alloc_loop n mem [] = (None, [])"
| "slab_alloc_loop n mem (sc # rest) =
     (case sc_freelist sc of
        Some p \<Rightarrow>
          if sc_block_size sc \<ge> n \<and> sc_free_count sc > 0
          then (Some p, sc\<lparr>sc_freelist := mem p, sc_free_count := sc_free_count sc - 1\<rparr> # rest)
          else (case slab_alloc_loop n mem rest of (r, cs) \<Rightarrow> (r, sc # cs))
      | None \<Rightarrow> (case slab_alloc_loop n mem rest of (r, cs) \<Rightarrow> (r, sc # cs)))"

definition syn_slab_alloc :: "slab \<Rightarrow> u32 \<Rightarrow> ptr \<times> slab" where
  "syn_slab_alloc slab n =
     (if n = 0 then (None, slab)
      else case slab_alloc_loop n (sl_mem slab) (sl_classes slab) of (r, cs) \<Rightarrow> (r, slab\<lparr>sl_classes := cs\<rparr>))"

fun slab_free_loop :: "nat \<Rightarrow> (nat \<Rightarrow> ptr) \<Rightarrow> slab_class list \<Rightarrow> SYN_Status \<times> slab_class list \<times> (nat \<Rightarrow> ptr)" where
  "slab_free_loop p mem [] = (SYN_INVALID_PARAM, [], mem)"
| "slab_free_loop p mem (sc # rest) =
     (let slab_bytes = unat (sc_block_size sc * sc_total_blocks sc)
      in if p \<ge> sc_start_ptr sc \<and> p < sc_start_ptr sc + slab_bytes
         then if (p - sc_start_ptr sc) mod unat (sc_block_size sc) \<noteq> 0 then (SYN_INVALID_PARAM, sc # rest, mem)
              else if sc_free_count sc \<ge> sc_total_blocks sc then (SYN_INVALID_PARAM, sc # rest, mem)
              else (SYN_OK, sc\<lparr>sc_freelist := Some p, sc_free_count := sc_free_count sc + 1\<rparr> # rest, mem(p := sc_freelist sc))
         else (case slab_free_loop p mem rest of (st, cs, mem1) \<Rightarrow> (st, sc # cs, mem1)))"

definition syn_slab_free :: "slab \<Rightarrow> ptr \<Rightarrow> SYN_Status \<times> slab" where
  "syn_slab_free slab p0 =
     (case p0 of None \<Rightarrow> (SYN_INVALID_PARAM, slab)
      | Some p \<Rightarrow> (case slab_free_loop p (sl_mem slab) (sl_classes slab) of (st, cs, mem) \<Rightarrow>
          (st, slab\<lparr>sl_classes := cs, sl_mem := mem\<rparr>)))"

definition syn_slab_get_stats :: "slab \<Rightarrow> slab_stats" where
  "syn_slab_get_stats slab =
     fold (\<lambda>sc st. let used = sc_total_blocks sc - sc_free_count sc
                   in st\<lparr>ss_allocated_bytes := ss_allocated_bytes st + used * sc_block_size sc,
                         ss_total_allocs := ss_total_allocs st + used\<rparr>)
       (sl_classes slab) \<lparr>ss_total_bytes = sl_total_memory_size slab, ss_allocated_bytes = 0, ss_total_allocs = 0\<rparr>"

subsection \<open>Contract of a block allocator\<close>

text \<open>
  \<open>blocks s\<close> are the blocks managed, as pairs of address and size, \<open>avail s\<close> the addresses of the free ones.
\<close>

locale block_allocator =
  fixes inv :: "'s \<Rightarrow> bool"
    and blocks :: "'s \<Rightarrow> (nat \<times> nat) set"
    and avail :: "'s \<Rightarrow> nat set"
    and alloc :: "'n \<Rightarrow> 's \<Rightarrow> ptr \<times> 's"
    and release :: "nat \<Rightarrow> 's \<Rightarrow> 's"
    and store :: "nat \<Rightarrow> ptr \<Rightarrow> 's \<Rightarrow> 's"
    and fits :: "'n \<Rightarrow> nat \<Rightarrow> bool"
  assumes disjoint: "inv s \<Longrightarrow> (p, m) \<in> blocks s \<Longrightarrow> (q, k) \<in> blocks s \<Longrightarrow> p \<noteq> q \<Longrightarrow> {p..<p + m} \<inter> {q..<q + k} = {}"
    and alloc_some: "inv s \<Longrightarrow> alloc n s = (Some p, s') \<Longrightarrow>
      p \<in> avail s \<and> avail s' = avail s - {p} \<and> blocks s' = blocks s \<and> inv s' \<and> (\<exists>m. (p, m) \<in> blocks s \<and> fits n m)"
    and release_live: "inv s \<Longrightarrow> (p, m) \<in> blocks s \<Longrightarrow> p \<notin> avail s \<Longrightarrow>
      inv (release p s) \<and> avail (release p s) = insert p (avail s) \<and> blocks (release p s) = blocks s"
    and store_live: "inv s \<Longrightarrow> (p, m) \<in> blocks s \<Longrightarrow> p \<notin> avail s \<Longrightarrow> p \<le> a \<Longrightarrow> a < p + m \<Longrightarrow>
      inv (store a v s) \<and> avail (store a v s) = avail s \<and> blocks (store a v s) = blocks s"
begin

text \<open>What clients hold and what is free partition the blocks.\<close>

definition held_ok :: "'s \<Rightarrow> nat set \<Rightarrow> bool" where
  "held_ok s live \<longleftrightarrow> inv s \<and> live \<inter> avail s = {} \<and> live \<union> avail s = fst ` blocks s"

lemma held_alloc: "held_ok s live \<Longrightarrow> alloc n s = (Some p, s') \<Longrightarrow> held_ok s' (insert p live)"
  using alloc_some [of s n p s'] by (auto simp: held_ok_def)

lemma held_block: "held_ok s live \<Longrightarrow> p \<in> live \<Longrightarrow> \<exists>m. (p, m) \<in> blocks s \<and> p \<notin> avail s"
  by (force simp: held_ok_def)

lemma held_release: "held_ok s live \<Longrightarrow> p \<in> live \<Longrightarrow> held_ok (release p s) (live - {p})"
proof -
  assume h: "held_ok s live" and p: "p \<in> live"
  obtain m where "(p, m) \<in> blocks s" "p \<notin> avail s" using held_block [OF h p] by blast
  with release_live [of s p m] h have r: "inv (release p s)" "avail (release p s) = insert p (avail s)" "blocks (release p s) = blocks s"
    by (simp_all add: held_ok_def)
  have "(live - {p}) \<union> insert p (avail s) = live \<union> avail s" "(live - {p}) \<inter> insert p (avail s) = live \<inter> avail s - {p}"
    using p by auto
  then show ?thesis using h by (simp add: held_ok_def r)
qed

lemma held_store:
  "held_ok s live \<Longrightarrow> p \<in> live \<Longrightarrow> (p, m) \<in> blocks s \<Longrightarrow> p \<le> a \<Longrightarrow> a < p + m \<Longrightarrow> held_ok (store a v s) live"
proof -
  assume h: "held_ok s live" "p \<in> live" and a: "(p, m) \<in> blocks s" "p \<le> a" "a < p + m"
  have "p \<notin> avail s" using h by (auto simp: held_ok_def)
  from store_live [OF _ a(1) this a(2,3)] h(1) show ?thesis by (simp add: held_ok_def)
qed

text \<open>A grant is a block that nobody holds, overlapping none that is held, and large enough.\<close>

lemma grant_fresh:
  assumes "held_ok s live" "alloc n s = (Some p, s')"
  shows "p \<notin> live \<and> (\<exists>m. (p, m) \<in> blocks s \<and> fits n m \<and> (\<forall>q k. q \<in> live \<longrightarrow> (q, k) \<in> blocks s \<longrightarrow> {p..<p + m} \<inter> {q..<q + k} = {}))"
proof -
  note A = alloc_some [of s n p s'] and h = assms(1) [unfolded held_ok_def]
  have nl: "p \<notin> live" using A h assms(2) by blast
  moreover obtain m where "(p, m) \<in> blocks s" "fits n m" using A h assms(2) by blast
  ultimately show ?thesis using disjoint [of s p m] h by metis
qed

end

subsection \<open>The slab allocator keeps the contract\<close>

fun chain :: "(nat \<Rightarrow> ptr) \<Rightarrow> ptr \<Rightarrow> nat \<Rightarrow> nat list" where
  "chain mem p 0 = []"
| "chain mem None (Suc n) = []"
| "chain mem (Some a) (Suc n) = a # chain mem (mem a) n"

definition class_blocks :: "slab_class \<Rightarrow> nat set" where
  "class_blocks c = (\<lambda>j. sc_start_ptr c + j * unat (sc_block_size c)) ` {..<unat (sc_total_blocks c)}"

definition class_region :: "slab_class \<Rightarrow> nat set" where
  "class_region c = {sc_start_ptr c ..< sc_start_ptr c + unat (sc_block_size c) * unat (sc_total_blocks c)}"

definition class_free :: "(nat \<Rightarrow> ptr) \<Rightarrow> slab_class \<Rightarrow> nat list" where
  "class_free mem c = chain mem (sc_freelist c) (unat (sc_free_count c))"

definition class_inv :: "(nat \<Rightarrow> ptr) \<Rightarrow> slab_class \<Rightarrow> bool" where
  "class_inv mem c \<longleftrightarrow> 0 < sc_block_size c
     \<and> unat (sc_block_size c * sc_total_blocks c) = unat (sc_block_size c) * unat (sc_total_blocks c)
     \<and> length (class_free mem c) = unat (sc_free_count c) \<and> distinct (class_free mem c) \<and> set (class_free mem c) \<subseteq> class_blocks c"

fun regions_disjoint :: "slab_class list \<Rightarrow> bool" where
  "regions_disjoint [] \<longleftrightarrow> True"
| "regions_disjoint (c # cs) \<longleftrightarrow> (\<forall>d\<in>set cs. class_region c \<inter> class_region d = {}) \<and> regions_disjoint cs"

definition slab_inv :: "slab \<Rightarrow> bool" where
  "slab_inv s \<longleftrightarrow> (\<forall>c\<in>set (sl_classes s). class_inv (sl_mem s) c) \<and> regions_disjoint (sl_classes s)"

definition slab_blocks :: "slab \<Rightarrow> (nat \<times> nat) set" where
  "slab_blocks s = (\<Union>c\<in>set (sl_classes s). (\<lambda>b. (b, unat (sc_block_size c))) ` class_blocks c)"

definition slab_avail :: "slab \<Rightarrow> nat set" where
  "slab_avail s = (\<Union>c\<in>set (sl_classes s). set (class_free (sl_mem s) c))"

lemma chain_upd: "a \<notin> set (chain mem p n) \<Longrightarrow> chain (mem(a := v)) p n = chain mem p n"
  by (induction mem p n rule: chain.induct) auto

lemma chain_cong: "(\<And>a. a \<in> set (chain mem p n) \<Longrightarrow> mem' a = mem a) \<Longrightarrow> chain mem' p n = chain mem p n"
  by (induction mem p n rule: chain.induct) auto

lemma class_free_upd: "a \<notin> set (class_free mem c) \<Longrightarrow> class_free (mem(a := v)) c = class_free mem c"
  by (simp add: class_free_def chain_upd)

lemma block_span:
  assumes "b \<in> class_blocks c"
  shows "{b..<b + unat (sc_block_size c)} \<subseteq> class_region c"
proof -
  obtain j where j: "j < unat (sc_total_blocks c)" "b = sc_start_ptr c + j * unat (sc_block_size c)"
    using assms by (auto simp: class_blocks_def)
  have "Suc j * unat (sc_block_size c) \<le> unat (sc_total_blocks c) * unat (sc_block_size c)" using j(1) by (intro mult_right_mono) auto
  then show ?thesis using j(2) by (auto simp: class_region_def mult.commute)
qed

lemma block_in_region: "0 < sc_block_size c \<Longrightarrow> b \<in> class_blocks c \<Longrightarrow> b \<in> class_region c"
  using block_span [of b c] by (auto simp: word_less_nat_alt)

lemma blocks_apart:
  assumes "a \<in> class_blocks c" "b \<in> class_blocks c" "a \<noteq> b"
  shows "{a..<a + unat (sc_block_size c)} \<inter> {b..<b + unat (sc_block_size c)} = {}"
proof -
  let ?s = "unat (sc_block_size c)"
  have lt: "i * ?s + ?s \<le> j * ?s" if "i < j" for i j
    using mult_le_mono1 [of "Suc i" j ?s] that by simp
  obtain i j where "a = sc_start_ptr c + i * ?s" "b = sc_start_ptr c + j * ?s" using assms(1,2) by (auto simp: class_blocks_def)
  then show ?thesis using assms(3) lt [of i j] lt [of j i] by (cases i j rule: linorder_cases) auto
qed

lemma card_class_blocks: "0 < sc_block_size c \<Longrightarrow> card (class_blocks c) = unat (sc_total_blocks c)"
  unfolding class_blocks_def by (subst card_image) (auto simp: inj_on_def word_gt_0 unat_eq_0)


lemma alloc_loop_none: "slab_alloc_loop n mem cs = (None, cs') \<Longrightarrow> cs' = cs"
  by (induction cs arbitrary: cs') (auto split: option.splits if_splits prod.splits)

lemma alloc_loop_some:
  "slab_alloc_loop n mem cs = (Some p, cs') \<Longrightarrow>
    \<exists>pre c post. cs = pre @ c # post \<and> cs' = pre @ c\<lparr>sc_freelist := mem p, sc_free_count := sc_free_count c - 1\<rparr> # post
      \<and> sc_freelist c = Some p \<and> n \<le> sc_block_size c \<and> sc_free_count c > 0"
proof (induction cs arbitrary: cs')
  case (Cons c cs)
  show ?case
  proof (cases "\<exists>q. sc_freelist c = Some q \<and> n \<le> sc_block_size c \<and> sc_free_count c > 0")
    case True
    then show ?thesis using Cons.prems by (intro exI [of _ "[]"] exI [of _ c] exI [of _ cs]) auto
  next
    case False
    then obtain ds where d: "slab_alloc_loop n mem cs = (Some p, ds)" "cs' = c # ds"
      using Cons.prems by (auto split: option.splits if_splits prod.splits)
    from Cons.IH [OF d(1)] obtain pre d0 post where "cs = pre @ d0 # post \<and>
        ds = pre @ d0\<lparr>sc_freelist := mem p, sc_free_count := sc_free_count d0 - 1\<rparr> # post
      \<and> sc_freelist d0 = Some p \<and> n \<le> sc_block_size d0 \<and> sc_free_count d0 > 0" by blast
    then show ?thesis using d(2) by (intro exI [of _ "c # pre"] exI [of _ d0] exI [of _ post]) auto
  qed
qed simp

text \<open>Replacing a class by one with the same geometry.\<close>

definition same_geometry :: "slab_class \<Rightarrow> slab_class \<Rightarrow> bool" where
  "same_geometry c d \<longleftrightarrow> sc_block_size c = sc_block_size d \<and> sc_total_blocks c = sc_total_blocks d \<and> sc_start_ptr c = sc_start_ptr d"

lemma same_geometryD:
  "same_geometry c d \<Longrightarrow> class_blocks c = class_blocks d" "same_geometry c d \<Longrightarrow> class_region c = class_region d"
  by (simp_all add: same_geometry_def class_blocks_def class_region_def)

lemma regions_disjoint_append:
  "regions_disjoint (xs @ ys) \<longleftrightarrow> regions_disjoint xs \<and> regions_disjoint ys \<and> (\<forall>c\<in>set xs. \<forall>d\<in>set ys. class_region c \<inter> class_region d = {})"
  by (induction xs) auto

lemma regions_disjoint_pair:
  "regions_disjoint cs \<Longrightarrow> c \<in> set cs \<Longrightarrow> d \<in> set cs \<Longrightarrow> c \<noteq> d \<Longrightarrow> class_region c \<inter> class_region d = {}"
  by (induction cs) auto

lemma regions_disjoint_replace:
  "same_geometry c d \<Longrightarrow> regions_disjoint (pre @ c # post) \<longleftrightarrow> regions_disjoint (pre @ d # post)"
  by (simp add: regions_disjoint_append same_geometryD)

lemma slab_blocks_replace:
  assumes "same_geometry c d"
  shows "slab_blocks (s\<lparr>sl_classes := pre @ c # post\<rparr>) = slab_blocks (s\<lparr>sl_classes := pre @ d # post\<rparr>)"
  using assms same_geometryD(1) [OF assms] by (simp add: slab_blocks_def same_geometry_def)

text \<open>Free blocks of different classes are different.\<close>

lemma other_class_free:
  assumes "regions_disjoint (pre @ c # post)" "\<forall>d\<in>set (pre @ c # post). class_inv mem d" "p \<in> class_region c" "d \<in> set (pre @ post)"
  shows "p \<notin> set (class_free mem d)"
proof
  assume "p \<in> set (class_free mem d)"
  moreover have "class_inv mem d" using assms(2,4) by auto
  ultimately have "p \<in> class_region d" using block_in_region by (auto simp: class_inv_def)
  moreover have "class_region c \<inter> class_region d = {}" using assms(1,4) by (auto simp: regions_disjoint_append)
  ultimately show False using assms(3) by blast
qed

lemma slab_alloc_law:
  assumes "slab_inv s" "syn_slab_alloc s n = (Some p, s')"
  shows "p \<in> slab_avail s" "slab_avail s' = slab_avail s - {p}" "slab_blocks s' = slab_blocks s" "slab_inv s'"
    "\<exists>m. (p, m) \<in> slab_blocks s \<and> unat n \<le> m"
proof -
  let ?mem = "sl_mem s"
  obtain cs' where loop: "slab_alloc_loop n ?mem (sl_classes s) = (Some p, cs')" and s': "s' = s\<lparr>sl_classes := cs'\<rparr>"
    using assms(2) by (auto simp: syn_slab_alloc_def split: if_splits prod.splits)
  from alloc_loop_some [OF loop] obtain pre c post where cs: "sl_classes s = pre @ c # post"
    "cs' = pre @ c\<lparr>sc_freelist := ?mem p, sc_free_count := sc_free_count c - 1\<rparr> # post"
    and c: "sc_freelist c = Some p" "n \<le> sc_block_size c" "sc_free_count c > 0" by blast
  let ?c = "c\<lparr>sc_freelist := ?mem p, sc_free_count := sc_free_count c - 1\<rparr>"
  have geo: "same_geometry ?c c" by (simp add: same_geometry_def)
  have inv: "\<forall>d\<in>set (pre @ c # post). class_inv ?mem d" "regions_disjoint (pre @ c # post)"
    using assms(1) cs(1) by (simp_all add: slab_inv_def)
  have n: "unat (sc_free_count c) = Suc (unat (sc_free_count c - 1))"
    using c(3) by (simp add: unat_minus_one word_gt_0 unat_gt_0 Suc_diff_1)
  have fr: "class_free ?mem c = p # class_free ?mem ?c" by (simp add: class_free_def n c(1))
  have ci: "class_inv ?mem c" using inv(1) by simp
  then have cn: "class_inv ?mem ?c" using fr n same_geometryD(1) [OF geo] by (auto simp: class_inv_def)
  have pb: "p \<in> class_blocks c" "p \<in> class_region c" using ci fr block_in_region [of c p] by (auto simp: class_inv_def)
  have oth: "p \<notin> set (class_free ?mem d)" if "d \<in> set (pre @ post)" for d
    using other_class_free [OF inv(2,1) pb(2) that] .
  show "p \<in> slab_avail s" using fr cs(1) by (simp add: slab_avail_def)
  have "p \<notin> set (class_free ?mem ?c)" using ci fr by (auto simp: class_inv_def)
  then show "slab_avail s' = slab_avail s - {p}" using oth fr cs s' by (auto simp: slab_avail_def)
  show "slab_blocks s' = slab_blocks s" using slab_blocks_replace [OF geo, where s = s and pre = pre and post = post] cs s' by (simp add: slab_blocks_def)
  show "slab_inv s'" using inv cn regions_disjoint_replace [OF geo] cs s' by (auto simp: slab_inv_def)
  show "\<exists>m. (p, m) \<in> slab_blocks s \<and> unat n \<le> m" using pb(1) c(2) cs(1)
    by (intro exI [of _ "unat (sc_block_size c)"]) (auto simp: slab_blocks_def word_le_nat_alt)
qed


lemma free_loop_hit:
  assumes "regions_disjoint (pre @ c # post)" "p \<in> class_blocks c" "0 < sc_block_size c"
    "\<forall>d\<in>set (pre @ c # post). unat (sc_block_size d * sc_total_blocks d) = unat (sc_block_size d) * unat (sc_total_blocks d)"
    "sc_free_count c < sc_total_blocks c"
  shows "slab_free_loop p mem (pre @ c # post) =
    (SYN_OK, pre @ c\<lparr>sc_freelist := Some p, sc_free_count := sc_free_count c + 1\<rparr> # post, mem(p := sc_freelist c))"
  using assms(1,4)
proof (induction pre)
  case Nil
  have "p \<in> class_region c" using block_in_region [OF assms(3,2)] .
  moreover have "(p - sc_start_ptr c) mod unat (sc_block_size c) = 0" using assms(2) by (auto simp: class_blocks_def)
  ultimately show ?case using assms(5) Nil.prems(2) by (simp add: class_region_def Let_def not_le fun_upd_def)
next
  case (Cons d pre)
  have "p \<in> class_region c" using block_in_region [OF assms(3,2)] .
  then have "p \<notin> class_region d" using Cons.prems(1) by auto
  then show ?case using Cons.IH Cons.prems by (auto simp: class_region_def Let_def)
qed

lemma slab_free_law:
  assumes "slab_inv s" "(p, m) \<in> slab_blocks s" "p \<notin> slab_avail s" "syn_slab_free s (Some p) = (st, s')"
  shows "st = SYN_OK" "slab_inv s'" "slab_avail s' = insert p (slab_avail s)" "slab_blocks s' = slab_blocks s"
proof -
  let ?mem = "sl_mem s"
  obtain c where c: "c \<in> set (sl_classes s)" "p \<in> class_blocks c" using assms(2) by (auto simp: slab_blocks_def)
  then obtain pre post where cs: "sl_classes s = pre @ c # post" by (meson split_list)
  have inv: "\<forall>d\<in>set (pre @ c # post). class_inv ?mem d" "regions_disjoint (pre @ c # post)"
    using assms(1) cs by (simp_all add: slab_inv_def)
  have ci: "class_inv ?mem c" using inv(1) by simp
  then have bs: "0 < sc_block_size c" by (simp add: class_inv_def)
  have pr: "p \<in> class_region c" using block_in_region [OF bs c(2)] .
  have np: "p \<notin> set (class_free ?mem d)" if "d \<in> set (pre @ c # post)" for d
    using assms(3) that cs by (auto simp: slab_avail_def)
  have "length (class_free ?mem c) = card (set (class_free ?mem c))" using ci by (simp add: class_inv_def distinct_card)
  also have "\<dots> < card (class_blocks c)"
  proof (rule psubset_card_mono)
    show "finite (class_blocks c)" by (simp add: class_blocks_def)
    show "set (class_free ?mem c) \<subset> class_blocks c" using ci np [of c] c(2) by (auto simp: class_inv_def)
  qed
  finally have fc: "unat (sc_free_count c) < unat (sc_total_blocks c)" using ci card_class_blocks [OF bs] by (simp add: class_inv_def)
  let ?c = "c\<lparr>sc_freelist := Some p, sc_free_count := sc_free_count c + 1\<rparr>" and ?m = "?mem(p := sc_freelist c)"
  have "slab_free_loop p ?mem (sl_classes s) = (SYN_OK, pre @ ?c # post, ?m)" unfolding cs
    by (rule free_loop_hit [OF inv(2) c(2) bs]) (use inv(1) fc in \<open>auto simp: class_inv_def word_less_nat_alt\<close>)
  then have s': "st = SYN_OK" "s' = s\<lparr>sl_classes := pre @ ?c # post, sl_mem := ?m\<rparr>" using assms(4) by (simp_all add: syn_slab_free_def)
  have geo: "same_geometry ?c c" by (simp add: same_geometry_def)
  have "unat (sc_total_blocks c) < 2 ^ 32" using unsigned_less [of "sc_total_blocks c"] by simp
  then have "unat (sc_free_count c) + 1 < 2 ^ 32" using fc by linarith
  then have n: "unat (sc_free_count c + 1) = Suc (unat (sc_free_count c))" by (simp add: unat_word_ariths)
  have upd: "class_free ?m d = class_free ?mem d" if "d \<in> set (pre @ c # post)" for d
    using class_free_upd [OF np [OF that]] .
  have fr: "class_free ?m ?c = p # class_free ?mem c"
    using upd [of c] by (simp add: class_free_def n)
  have cn: "class_inv ?m ?c" using ci fr n np [of c] c(2) same_geometryD(1) [OF geo] by (auto simp: class_inv_def)
  have ci': "class_inv ?m d" if "d \<in> set (pre @ post)" for d using inv(1) that upd [of d] by (auto simp: class_inv_def)
  show "st = SYN_OK" by (rule s'(1))
  show "slab_inv s'" using inv(2) cn ci' regions_disjoint_replace [OF geo] by (auto simp: slab_inv_def s'(2))
  have "class_free ?m d = class_free ?mem d" if "d \<in> set pre \<or> d \<in> set post" for d using upd that by auto
  then show "slab_avail s' = insert p (slab_avail s)" using fr by (auto simp: slab_avail_def s'(2) cs)
  show "slab_blocks s' = slab_blocks s"
    using slab_blocks_replace [OF geo, where s = s and pre = pre and post = post] by (simp add: slab_blocks_def s'(2) cs)
qed

lemma slab_disjoint:
  assumes "slab_inv s" "(p, m) \<in> slab_blocks s" "(q, k) \<in> slab_blocks s" "p \<noteq> q"
  shows "{p..<p + m} \<inter> {q..<q + k} = {}"
proof -
  obtain c d where c: "c \<in> set (sl_classes s)" "p \<in> class_blocks c" "m = unat (sc_block_size c)"
    and d: "d \<in> set (sl_classes s)" "q \<in> class_blocks d" "k = unat (sc_block_size d)"
    using assms(2,3) by (auto simp: slab_blocks_def)
  show ?thesis
  proof (cases "c = d")
    case True
    then show ?thesis using blocks_apart [of p c q] c d assms(4) by simp
  next
    case False
    then have "class_region c \<inter> class_region d = {}"
      using regions_disjoint_pair [of "sl_classes s" c d] assms(1) c(1) d(1) by (auto simp: slab_inv_def)
    then show ?thesis using block_span [OF c(2)] block_span [OF d(2)] c(3) d(3) by blast
  qed
qed

lemma slab_store_law:
  fixes s :: slab and a :: nat and v :: ptr
  assumes "slab_inv s" "(p, m) \<in> slab_blocks s" "p \<notin> slab_avail s" "p \<le> a" "a < p + m"
  defines "s' \<equiv> s\<lparr>sl_mem := (sl_mem s)(a := v)\<rparr>"
  shows "slab_inv s'" "slab_avail s' = slab_avail s" "slab_blocks s' = slab_blocks s"
proof -
  have na: "a \<notin> set (class_free (sl_mem s) d)" if d: "d \<in> set (sl_classes s)" for d
  proof
    assume a: "a \<in> set (class_free (sl_mem s) d)"
    have di: "class_inv (sl_mem s) d" using assms(1) d by (simp add: slab_inv_def)
    then have "a \<in> class_blocks d" "0 < sc_block_size d" using a by (auto simp: class_inv_def)
    then have "(a, unat (sc_block_size d)) \<in> slab_blocks s" "a \<in> {a..<a + unat (sc_block_size d)}"
      using d by (auto simp: slab_blocks_def word_less_nat_alt)
    moreover have "a \<noteq> p" using a assms(3) d by (auto simp: slab_avail_def)
    ultimately show False using slab_disjoint [OF assms(1,2), of a "unat (sc_block_size d)"] assms(4,5) by auto
  qed
  then have "class_free ((sl_mem s)(a := v)) d = class_free (sl_mem s) d" if "d \<in> set (sl_classes s)" for d
    using class_free_upd that by blast
  then show "slab_inv s'" "slab_avail s' = slab_avail s" "slab_blocks s' = slab_blocks s"
    using assms(1) by (auto simp: s'_def slab_inv_def slab_avail_def slab_blocks_def class_inv_def)
qed

interpretation slab: block_allocator slab_inv slab_blocks slab_avail "\<lambda>n s. syn_slab_alloc s n"
  "\<lambda>p s. snd (syn_slab_free s (Some p))" "\<lambda>a v s. s\<lparr>sl_mem := (sl_mem s)(a := v)\<rparr>" "\<lambda>n m. unat n \<le> m"
proof (unfold_locales, goal_cases)
  case (1 s p m q k)
  then show ?case by (rule slab_disjoint)
next
  case (2 s n p s')
  then show ?case using slab_alloc_law [OF 2] by blast
next
  case (3 s p m)
  then show ?case using slab_free_law [OF 3, of "fst (syn_slab_free s (Some p))"] by simp
next
  case (4 s p m a v)
  then show ?case using slab_store_law [OF 4] by blast
qed


subsection \<open>Initialisation\<close>

definition block_size_of :: "u32 \<Rightarrow> u32" where
  "block_size_of bs = (if ALIGN4 bs < 4 then 4 else ALIGN4 bs)"

text \<open>The products \<^verbatim>\<open>b_size * count\<close> of the configuration do not wrap around.\<close>

definition cfg_no_wrap :: "(u32 \<times> u32) list \<Rightarrow> bool" where
  "cfg_no_wrap cfg = list_all (\<lambda>(bs, count). unat (block_size_of bs) * unat count < 2 ^ 32) cfg"

lemma block_size_of_pos: "0 < block_size_of bs"
proof (cases "ALIGN4 bs < 4")
  case False
  then have "4 \<le> ALIGN4 bs" by simp
  then have "(0::u32) < ALIGN4 bs" using less_le_trans [of "0::u32" 4] by simp
  then show ?thesis using False by (simp add: block_size_of_def)
qed (simp add: block_size_of_def)

lemma build_freelist_mem:
  "build_freelist start b n mem = (fl, mem') \<Longrightarrow> (\<forall>j<n. a \<noteq> start + j * b) \<Longrightarrow> mem' a = mem a"
  by (induction n arbitrary: fl mem') (auto split: prod.splits simp: Let_def)

lemma build_freelist_chain:
  "0 < b \<Longrightarrow> build_freelist start b n mem = (fl, mem') \<Longrightarrow> chain mem' fl n = rev (map (\<lambda>j. start + j * b) [0..<n])"
proof (induction n arbitrary: fl mem')
  case (Suc n)
  obtain f m where f: "build_freelist start b n mem = (f, m)" by (cases "build_freelist start b n mem")
  have ch: "chain m f n = rev (map (\<lambda>j. start + j * b) [0..<n])" using Suc.IH [OF Suc.prems(1) f] .
  have new: "start + n * b \<notin> set (chain m f n)" using Suc.prems(1) by (auto simp: ch)
  show ?case using Suc.prems(2) f chain_upd [OF new, of f] ch by (auto simp: Let_def fun_upd_def)
qed simp

lemma build_class:
  assumes "build_freelist start (unat b) (unat count) mem = (fl, mem')" "0 < b" "unat b * unat count < 2 ^ 32"
  defines "c \<equiv> \<lparr>sc_block_size = b, sc_total_blocks = count, sc_free_count = count, sc_start_ptr = start, sc_freelist = fl\<rparr>"
  shows "class_inv mem' c" "set (class_free mem' c) = class_blocks c"
proof -
  have b: "0 < unat b" using assms(2) by (simp add: word_less_nat_alt)
  have fr: "class_free mem' c = rev (map (\<lambda>j. start + j * unat b) [0..<unat count])"
    using build_freelist_chain [OF b assms(1)] by (simp add: class_free_def c_def)
  show blocks: "set (class_free mem' c) = class_blocks c"
    unfolding fr by (simp add: class_blocks_def c_def atLeast0LessThan)
  have "distinct (class_free mem' c)" using b by (simp add: fr distinct_map inj_on_def)
  moreover have "unat (b * count) = unat b * unat count" using assms(3) by (simp add: unat_word_ariths)
  moreover have "length (class_free mem' c) = unat count" by (simp add: fr)
  ultimately show "class_inv mem' c" using assms(2) blocks by (simp add: class_inv_def c_def)
qed

definition class_within :: "nat \<Rightarrow> nat \<Rightarrow> slab_class \<Rightarrow> bool" where
  "class_within lo hi c \<longleftrightarrow> lo \<le> sc_start_ptr c \<and> sc_start_ptr c + unat (sc_block_size c) * unat (sc_total_blocks c) \<le> hi"

lemma class_within_region: "class_within lo hi c \<Longrightarrow> a \<in> class_region c \<Longrightarrow> lo \<le> a \<and> a < hi"
  by (auto simp: class_within_def class_region_def)

lemma slab_init_loop_ok:
  "slab_init_loop cfg start room mem = (SYN_OK, cs, mem') \<Longrightarrow> cfg_no_wrap cfg \<Longrightarrow>
    (\<forall>c\<in>set cs. class_inv mem' c \<and> set (class_free mem' c) = class_blocks c \<and> class_within start (start + unat room) c)
    \<and> regions_disjoint cs \<and> (\<forall>a < start. mem' a = mem a)"
proof (induction cfg start room mem arbitrary: cs mem' rule: slab_init_loop.induct)
  case (2 bs count rest start room mem)
  let ?b = "block_size_of bs"
  let ?req = "?b * count"
  have nw: "unat ?b * unat count < 2 ^ 32" "cfg_no_wrap rest" using "2.prems"(2) by (simp_all add: cfg_no_wrap_def)
  have rq: "unat ?req = unat ?b * unat count" using nw(1) by (simp add: unat_word_ariths)
  obtain fl m1 where bf: "build_freelist start (unat ?b) (unat count) mem = (fl, m1)"
    by (cases "build_freelist start (unat ?b) (unat count) mem")
  obtain st ds m2 where lp: "slab_init_loop rest (start + unat ?req) (room - ?req) m1 = (st, ds, m2)"
    by (cases "slab_init_loop rest (start + unat ?req) (room - ?req) m1")
  let ?c = "\<lparr>sc_block_size = ?b, sc_total_blocks = count, sc_free_count = count, sc_start_ptr = start, sc_freelist = fl\<rparr>"
  have fits: "\<not> room < ?req" and res: "st = SYN_OK" "cs = ?c # ds" "mem' = m2"
    using "2.prems"(1) bf lp by (auto simp: Let_def block_size_of_def split: if_splits)
  have tot: "unat (room - ?req) = unat room - unat ?req" "unat ?req \<le> unat room"
    using fits by (simp_all add: unat_sub not_less word_le_nat_alt)
  note IH = "2.IH" [OF refl refl refl, folded block_size_of_def, OF fits bf [symmetric], of ds m2]
  have rest: "\<forall>c\<in>set ds. class_inv m2 c \<and> set (class_free m2 c) = class_blocks c
      \<and> class_within (start + unat ?req) (start + unat room) c" "regions_disjoint ds" "\<forall>a < start + unat ?req. m2 a = m1 a"
    using IH lp res(1) nw(2) tot by auto
  have c1: "class_inv m1 ?c" "set (class_free m1 ?c) = class_blocks ?c"
    using build_class [OF bf block_size_of_pos nw(1)] by auto
  have eq: "class_free m2 ?c = class_free m1 ?c"
  proof -
    have "a < start + unat ?req" if "a \<in> set (class_free m1 ?c)" for a
      using block_in_region [of ?c a] block_size_of_pos that c1(2) rq by (auto simp: class_region_def)
    then show ?thesis unfolding class_free_def using rest(3) by (intro chain_cong) auto
  qed
  have "class_inv m2 ?c \<and> set (class_free m2 ?c) = class_blocks ?c \<and> class_within start (start + unat room) ?c"
    using c1 eq tot(2) rq by (simp add: class_inv_def class_within_def)
  moreover have "class_within start (start + unat room) d \<and> class_region ?c \<inter> class_region d = {}" if "d \<in> set ds" for d
    using rest(1) that rq by (fastforce simp: class_within_def class_region_def)
  moreover have "m2 a = mem a" if "a < start" for a
    using rest(3) that build_freelist_mem [OF bf, of a] by auto
  ultimately show ?case using rest(1,2) res by auto
qed (simp add: cfg_no_wrap_def)


definition slab_within :: "slab \<Rightarrow> bool" where
  "slab_within s \<longleftrightarrow> (\<forall>(p, m)\<in>slab_blocks s. sl_backing_memory s \<le> p \<and> p + m \<le> sl_backing_memory s + unat (sl_total_memory_size s))"

lemma block_end: "0 < sc_block_size c \<Longrightarrow> b \<in> class_blocks c \<Longrightarrow> class_within lo hi c \<Longrightarrow> lo \<le> b \<and> b + unat (sc_block_size c) \<le> hi"
proof -
  assume p: "0 < sc_block_size c" and b: "b \<in> class_blocks c" and w: "class_within lo hi c"
  have "b + unat (sc_block_size c) - 1 \<in> {b..<b + unat (sc_block_size c)}" using p by (auto simp: word_less_nat_alt)
  then have "b + unat (sc_block_size c) - 1 \<in> class_region c" using block_span [OF b] by blast
  with class_within_region [OF w this] class_within_region [OF w block_in_region [OF p b]] show ?thesis by auto
qed

lemma slab_init_ok:
  assumes "syn_slab_init s0 base total_size cfg = (SYN_OK, s)" "cfg_no_wrap cfg"
  shows "slab.held_ok s {}" "slab_within s"
proof -
  obtain cs mem where l: "slab_init_loop cfg base total_size (sl_mem s0) = (SYN_OK, cs, mem)"
    and s: "sl_backing_memory s = base" "sl_total_memory_size s = total_size" "sl_classes s = cs" "sl_mem s = mem"
    using assms(1) by (auto simp: syn_slab_init_def split: if_splits prod.splits)
  note ok = slab_init_loop_ok [OF l assms(2)]
  have "slab_inv s" using ok s by (simp add: slab_inv_def)
  moreover have "slab_avail s = fst ` slab_blocks s"
    using ok by (auto simp: slab_avail_def slab_blocks_def s image_Union image_image)
  ultimately show "slab.held_ok s {}" by (simp add: slab.held_ok_def)
  show "slab_within s" using ok block_end by (fastforce simp: slab_within_def slab_blocks_def s class_inv_def)
qed

subsection \<open>Clients\<close>

text \<open>
  The states reached by clients that obtain blocks, write anywhere into a block they hold, and give back blocks they
  hold; \<open>live\<close> is the set of blocks held.
\<close>

inductive slab_run :: "slab \<Rightarrow> nat set \<Rightarrow> bool" where
  run_init: "syn_slab_init s0 base total_size cfg = (SYN_OK, s) \<Longrightarrow> cfg_no_wrap cfg \<Longrightarrow> slab_run s {}"
| run_alloc: "slab_run s live \<Longrightarrow> syn_slab_alloc s n = (Some p, s') \<Longrightarrow> slab_run s' (insert p live)"
| run_fail: "slab_run s live \<Longrightarrow> syn_slab_alloc s n = (None, s') \<Longrightarrow> slab_run s' live"
| run_free: "slab_run s live \<Longrightarrow> p \<in> live \<Longrightarrow> syn_slab_free s (Some p) = (st, s') \<Longrightarrow> slab_run s' (live - {p})"
| run_write: "slab_run s live \<Longrightarrow> p \<in> live \<Longrightarrow> (p, m) \<in> slab_blocks s \<Longrightarrow> p \<le> a \<Longrightarrow> a < p + m \<Longrightarrow>
    slab_run (s\<lparr>sl_mem := (sl_mem s)(a := v)\<rparr>) live"

lemma alloc_none: "syn_slab_alloc s n = (None, s') \<Longrightarrow> s' = s"
  using alloc_loop_none by (fastforce simp: syn_slab_alloc_def split: if_splits prod.splits)

lemma slab_fixed_fields:
  "sl_backing_memory (snd (syn_slab_alloc s n)) = sl_backing_memory s"
  "sl_total_memory_size (snd (syn_slab_alloc s n)) = sl_total_memory_size s"
  "sl_backing_memory (snd (syn_slab_free s q)) = sl_backing_memory s"
  "sl_total_memory_size (snd (syn_slab_free s q)) = sl_total_memory_size s"
  by (auto simp: syn_slab_alloc_def syn_slab_free_def split: prod.splits option.splits)

lemma slab_within_cong:
  "slab_within s \<Longrightarrow> slab_blocks s' = slab_blocks s \<Longrightarrow> sl_backing_memory s' = sl_backing_memory s \<Longrightarrow>
    sl_total_memory_size s' = sl_total_memory_size s \<Longrightarrow> slab_within s'"
  by (simp add: slab_within_def)

lemma slab_run_inv: "slab_run s live \<Longrightarrow> slab.held_ok s live \<and> slab_within s"
proof (induction rule: slab_run.induct)
  case (run_init s0 base total_size cfg s)
  then show ?case using slab_init_ok by blast
next
  case (run_alloc s live n p s')
  then have "slab_inv s" by (simp add: slab.held_ok_def)
  then have "slab_blocks s' = slab_blocks s" using slab_alloc_law(3) run_alloc.hyps(2) by blast
  then show ?case using run_alloc slab.held_alloc slab_within_cong [of s s'] slab_fixed_fields(1,2) [of s n] by auto
next
  case (run_fail s live n s')
  then show ?case using alloc_none by blast
next
  case (run_free s live p st s')
  then have inv: "slab_inv s" and h: "slab.held_ok s live" by (simp_all add: slab.held_ok_def)
  then obtain m where "(p, m) \<in> slab_blocks s" "p \<notin> slab_avail s" using slab.held_block [OF h run_free.hyps(2)] by blast
  then have "slab_blocks s' = slab_blocks s" using slab_free_law(4) [OF inv _ _ run_free.hyps(3)] by blast
  then show ?case using run_free slab.held_release [OF h, of p] slab_within_cong [of s s'] slab_fixed_fields(3,4) [of s "Some p"] by auto
next
  case (run_write s live p m a v)
  then have "slab.held_ok (s\<lparr>sl_mem := (sl_mem s)(a := v)\<rparr>) live" using slab.held_store by blast
  moreover have "slab_within (s\<lparr>sl_mem := (sl_mem s)(a := v)\<rparr>)" using run_write by (simp add: slab_within_def slab_blocks_def)
  ultimately show ?case by blast
qed


definition demo_slab :: slab where
  "demo_slab = snd (syn_slab_init \<lparr>sl_backing_memory = 0, sl_total_memory_size = 0, sl_classes = [], sl_mem = \<lambda>_. None\<rparr>
     1000 64 [(6, 2), (13, 2)])"

lemma build_freelist_two:
  "build_freelist start b 2 mem = (Some (start + b), mem(start := None, start + b := Some start))"
  by (simp add: numeral_2_eq_2 Let_def)

lemma demo_slab_eq:
  "demo_slab = \<lparr>sl_backing_memory = 1000, sl_total_memory_size = 64,
     sl_classes = [\<lparr>sc_block_size = 8, sc_total_blocks = 2, sc_free_count = 2, sc_start_ptr = 1000, sc_freelist = Some 1008\<rparr>,
                   \<lparr>sc_block_size = 16, sc_total_blocks = 2, sc_free_count = 2, sc_start_ptr = 1016, sc_freelist = Some 1032\<rparr>],
     sl_mem = (\<lambda>_. None)(1000 := None, 1008 := Some 1000, 1016 := None, 1032 := Some 1016)\<rparr>"
  by (simp add: demo_slab_def syn_slab_init_def ALIGN4_def Let_def SYN_SLAB_MAX_CLASSES_def build_freelist_two)

lemma demo_slab_run: "slab_run demo_slab {}"
proof (rule run_init)
  show "syn_slab_init \<lparr>sl_backing_memory = 0, sl_total_memory_size = 0, sl_classes = [], sl_mem = \<lambda>_. None\<rparr>
      1000 64 [(6, 2), (13, 2)] = (SYN_OK, demo_slab)"
    by (simp add: demo_slab_def syn_slab_init_def ALIGN4_def Let_def SYN_SLAB_MAX_CLASSES_def build_freelist_two)
  show "cfg_no_wrap [(6, 2), (13, 2)]" by (simp add: cfg_no_wrap_def block_size_of_def ALIGN4_def)
qed


text \<open>
  The double-free check of \<open>syn_slab_free\<close> compares a counter only. With one other block of the class in use, freeing a block twice
  is accepted, and two allocations then return the same address.
\<close>

theorem slab_double_free_aliases:
  "let (a, s1) = syn_slab_alloc demo_slab 8; (b, s2) = syn_slab_alloc s1 8;
       (r1, s3) = syn_slab_free s2 a; (r2, s4) = syn_slab_free s3 a;
       (x, s5) = syn_slab_alloc s4 8; (y, s6) = syn_slab_alloc s5 8
   in r1 = SYN_OK \<and> r2 = SYN_OK \<and> x = Some 1008 \<and> y = Some 1008"
  by (simp add: demo_slab_eq syn_slab_alloc_def syn_slab_free_def Let_def word_le_nat_alt)

text \<open>
  The size check of \<open>syn_slab_init\<close> compares the wrapped product: two blocks of \<^verbatim>\<open>0x80000000\<close> bytes are accepted for
  an empty backing memory, and the first grant lies two gigabytes behind it.
\<close>

theorem slab_init_wraps:
  "let (st, s) = syn_slab_init s0 base 0 [(0x80000000, 2)]
   in st = SYN_OK \<and> fst (syn_slab_alloc s 1) = Some (base + 0x80000000)"
  by (simp add: syn_slab_init_def ALIGN4_def Let_def SYN_SLAB_MAX_CLASSES_def build_freelist_two syn_slab_alloc_def)

end
