(* ===== verification/Syn_Stream.thy ===== *)
theory Syn_Stream
  imports Syn_Ringbuf "HOL-Library.Sublist"
begin

text \<open>
  The cooperative byte stream of \<^verbatim>\<open>util/syn_stream.c\<close>, a client of the ring buffer: readability by count, threshold or
  delimiter, and, in delimiter mode, flushing and resynchronisation when a frame does not fit.
\<close>

record syn_stream =
  st_rb :: syn_ringbuf
  st_threshold :: nat
  st_delimiter :: u8
  st_delim_en :: bool
  st_overflowing :: bool
  st_overflow_count :: u32

text \<open>The scan loop: \<open>idx\<close> runs around the buffer, \<open>i\<close> counts, \<open>k\<close> bytes are left to look at.\<close>

fun find_delim_loop :: "u8 list \<Rightarrow> nat \<Rightarrow> u8 \<Rightarrow> nat \<Rightarrow> nat \<Rightarrow> nat \<Rightarrow> nat" where
  "find_delim_loop buf sz d idx i 0 = 0"
| "find_delim_loop buf sz d idx i (Suc k) =
     (if buf ! idx = d then i + 1
      else let idx' = idx + 1 in find_delim_loop buf sz d (if idx' \<ge> sz then 0 else idx') (i + 1) k)"

definition stream_find_delimiter :: "syn_stream \<Rightarrow> nat" where
  "stream_find_delimiter s =
     (let rb = st_rb s in
      find_delim_loop (the (rb_buf rb)) (rb_size rb) (st_delimiter s) (rb_tail rb) 0 (syn_ringbuf_count rb))"

definition syn_stream_init :: "syn_stream \<Rightarrow> u8 list option \<Rightarrow> nat \<Rightarrow> syn_stream" where
  "syn_stream_init s buf sz =
     s\<lparr>st_rb := syn_ringbuf_init (st_rb s) buf sz, st_threshold := 0, st_delimiter := 0, st_delim_en := False,
       st_overflowing := False, st_overflow_count := 0\<rparr>"

definition syn_stream_set_threshold :: "syn_stream \<Rightarrow> nat \<Rightarrow> syn_stream" where
  "syn_stream_set_threshold s n = s\<lparr>st_threshold := n\<rparr>"

definition syn_stream_set_delimiter :: "syn_stream \<Rightarrow> u8 \<Rightarrow> syn_stream" where
  "syn_stream_set_delimiter s delim = s\<lparr>st_delimiter := delim, st_delim_en := True, st_overflowing := False\<rparr>"

definition syn_stream_clear_delimiter :: "syn_stream \<Rightarrow> syn_stream" where
  "syn_stream_clear_delimiter s = s\<lparr>st_delim_en := False, st_overflowing := False\<rparr>"

definition syn_stream_put :: "syn_stream \<Rightarrow> u8 \<Rightarrow> bool \<times> syn_stream" where
  "syn_stream_put s byte =
     (if st_delim_en s \<and> st_overflowing s
      then (False, if byte = st_delimiter s then s\<lparr>st_overflowing := False\<rparr> else s)
      else
        case syn_ringbuf_put (st_rb s) byte of (ok, rb) \<Rightarrow>
          let s1 = s\<lparr>st_rb := rb\<rparr>
          in if \<not> ok \<and> st_delim_en s
             then (ok, s1\<lparr>st_rb := syn_ringbuf_reset (st_rb s1), st_overflow_count := st_overflow_count s1 + 1,
                          st_overflowing := (byte \<noteq> st_delimiter s1)\<rparr>)
             else (ok, s1))"

fun syn_stream_write :: "syn_stream \<Rightarrow> u8 list \<Rightarrow> nat \<times> syn_stream" where
  "syn_stream_write s [] = (0, s)"
| "syn_stream_write s (b # data) =
     (case syn_stream_put s b of (ok, s1) \<Rightarrow>
      case syn_stream_write s1 data of (written, s2) \<Rightarrow> ((if ok then 1 else 0) + written, s2))"

definition syn_stream_readable :: "syn_stream \<Rightarrow> bool" where
  "syn_stream_readable s =
     (let count = syn_ringbuf_count (st_rb s)
      in if count = 0 then False
         else if st_delim_en s then stream_find_delimiter s > 0
         else if st_threshold s > 0 then count \<ge> st_threshold s
         else True)"

definition syn_stream_read :: "syn_stream \<Rightarrow> nat \<Rightarrow> u8 list \<times> syn_stream" where
  "syn_stream_read s max_len =
     (case syn_ringbuf_read (st_rb s) max_len of (data, rb) \<Rightarrow> (data, s\<lparr>st_rb := rb\<rparr>))"

definition syn_stream_read_line :: "syn_stream \<Rightarrow> nat \<Rightarrow> u8 list \<times> syn_stream" where
  "syn_stream_read_line s max_len =
     (if \<not> st_delim_en s then syn_stream_read s max_len
      else
        let delim_pos = stream_find_delimiter s
        in if delim_pos = 0 then ([], s)
           else syn_stream_read s (if delim_pos < max_len then delim_pos else max_len))"

definition syn_stream_count :: "syn_stream \<Rightarrow> nat" where
  "syn_stream_count s = syn_ringbuf_count (st_rb s)"

definition syn_stream_free :: "syn_stream \<Rightarrow> nat" where
  "syn_stream_free s = syn_ringbuf_free (st_rb s)"

definition syn_stream_flush :: "syn_stream \<Rightarrow> syn_stream" where
  "syn_stream_flush s = s\<lparr>st_rb := syn_ringbuf_reset (st_rb s)\<rparr>"

subsection \<open>Delimiter scan and reading\<close>

abbreviation st_contents :: "syn_stream \<Rightarrow> u8 list" where
  "st_contents s \<equiv> rb_contents (st_rb s)"

definition delim_pos :: "u8 \<Rightarrow> u8 list \<Rightarrow> nat" where
  "delim_pos d xs = (if d \<in> set xs then Suc (length (takeWhile (\<lambda>b. b \<noteq> d) xs)) else 0)"

lemma find_delim_loop_pos:
  "idx < sz \<Longrightarrow> find_delim_loop buf sz d idx i k =
    (let p = delim_pos d (map (\<lambda>j. buf ! ((idx + j) mod sz)) [0..<k]) in if p = 0 then 0 else i + p)"
proof (induction k arbitrary: idx i)
  case (Suc k)
  have next_idx: "(if idx + 1 \<ge> sz then 0 else idx + 1) = ring_next sz idx" by (simp add: ring_next_def)
  have lt: "ring_next sz idx < sz" using Suc.prems by (intro ring_next_less) simp
  have up: "[0..<Suc k] = 0 # map Suc [0..<k]" by (simp add: map_Suc_upt upt_conv_Cons)
  have step: "(ring_next sz idx + j) mod sz = (idx + Suc j) mod sz" for j
    using Suc.prems by (simp add: ring_next_mod mod_simps)
  show ?case
    using Suc.prems unfolding find_delim_loop.simps Let_def next_idx Suc.IH [OF lt] up step
    by (auto simp: delim_pos_def comp_def)
qed (simp add: delim_pos_def)

lemma stream_find_delimiter_pos:
  assumes "rb_wf (st_rb s)"
  shows "stream_find_delimiter s = delim_pos (st_delimiter s) (st_contents s)"
proof -
  obtain b where b: "rb_buf (st_rb s) = Some b" "rb_tail (st_rb s) < rb_size (st_rb s)" using assms by (rule rb_wfE)
  have "st_contents s = map (\<lambda>j. b ! ((rb_tail (st_rb s) + j) mod rb_size (st_rb s))) [0..<syn_ringbuf_count (st_rb s)]"
    using b rb_count_contents [OF assms] by (simp add: rb_contents_def ring_list_def)
  then show ?thesis unfolding stream_find_delimiter_def Let_def find_delim_loop_pos [OF b(2)] by (simp add: b(1))
qed

lemma delim_pos_le: "delim_pos d xs \<le> length xs"
proof (cases "d \<in> set xs")
  case True
  then have "length (takeWhile (\<lambda>b. b \<noteq> d) xs) < length xs"
    by (metis (mono_tags, lifting) length_takeWhile_le le_neq_implies_less takeWhile_eq_all_conv takeWhile_eq_take take_all_iff order.refl)
  then show ?thesis by (simp add: delim_pos_def Suc_le_eq)
qed (simp add: delim_pos_def)


text \<open>One read in delimiter mode, by the delimiter position in the queue.\<close>

lemma stream_read_line_eq:
  assumes "rb_wf (st_rb s)" "st_delim_en s" "syn_stream_read_line s max_len = (line, s')"
  defines "n \<equiv> min (delim_pos (st_delimiter s) (st_contents s)) max_len"
  shows "line = take n (st_contents s)" "rb_wf (st_rb s')" "st_contents s' = drop n (st_contents s)"
    "st_delim_en s'" "st_delimiter s' = st_delimiter s" "st_overflowing s' = st_overflowing s" "rb_size (st_rb s') = rb_size (st_rb s)"
proof -
  obtain data rb where r: "syn_ringbuf_read (st_rb s) n = (data, rb)" by (cases "syn_ringbuf_read (st_rb s) n")
  note R = rb_read_contents [OF assms(1) r]
  have "line = data \<and> s' = s\<lparr>st_rb := rb\<rparr> \<or> n = 0 \<and> line = [] \<and> s' = s"
    using assms(2,3) r
    by (auto simp: syn_stream_read_line_def stream_find_delimiter_pos [OF assms(1)] syn_stream_read_def n_def min_def Let_def split: if_splits)
  then show "line = take n (st_contents s)" "rb_wf (st_rb s')" "st_contents s' = drop n (st_contents s)"
    "st_delim_en s'" "st_delimiter s' = st_delimiter s" "st_overflowing s' = st_overflowing s" "rb_size (st_rb s') = rb_size (st_rb s)"
    using R assms(1,2) by auto
qed

lemma rb_reset_contents: "rb_wf rb \<Longrightarrow> rb_wf (syn_ringbuf_reset rb) \<and> rb_contents (syn_ringbuf_reset rb) = []"
  by (auto simp: rb_wf_def syn_ringbuf_reset_def rb_contents_def ring_list_def ring_count_def)

lemma stream_put_eq:
  assumes "rb_wf (st_rb s)" "st_delim_en s" "syn_stream_put s b = (ok, s')"
  shows "rb_wf (st_rb s')" "st_delim_en s'" "st_delimiter s' = st_delimiter s" "rb_size (st_rb s') = rb_size (st_rb s)"
    "ok \<longleftrightarrow> \<not> st_overflowing s \<and> length (st_contents s) < rb_size (st_rb s) - 1"
    "st_contents s' = (if ok then st_contents s @ [b] else if st_overflowing s then st_contents s else [])"
    "st_overflowing s' \<longleftrightarrow> \<not> ok \<and> b \<noteq> st_delimiter s"
proof -
  obtain k rb where p: "syn_ringbuf_put (st_rb s) b = (k, rb)" by (cases "syn_ringbuf_put (st_rb s) b")
  note P = rb_put_contents [OF assms(1) p] and R = rb_reset_contents [of rb]
  have "length (st_contents s) \<le> rb_size (st_rb s) - 1" using rb_length_less [OF assms(1)] by simp
  then have k: "k \<longleftrightarrow> length (st_contents s) < rb_size (st_rb s) - 1" using P(2) by auto
  have sz: "rb_size (syn_ringbuf_reset rb) = rb_size rb" by (simp add: syn_ringbuf_reset_def)
  show "rb_wf (st_rb s')" "st_delim_en s'" "st_delimiter s' = st_delimiter s" "rb_size (st_rb s') = rb_size (st_rb s)"
    "ok \<longleftrightarrow> \<not> st_overflowing s \<and> length (st_contents s) < rb_size (st_rb s) - 1"
    "st_contents s' = (if ok then st_contents s @ [b] else if st_overflowing s then st_contents s else [])"
    "st_overflowing s' \<longleftrightarrow> \<not> ok \<and> b \<noteq> st_delimiter s"
    using assms p P R k sz by (auto simp: syn_stream_put_def Let_def split: if_splits)
qed

subsection \<open>Frames\<close>

text \<open>The complete frames of a byte sequence, each with its delimiter.\<close>

fun frames_from :: "u8 list \<Rightarrow> u8 \<Rightarrow> u8 list \<Rightarrow> u8 list list" where
  "frames_from part d [] = []"
| "frames_from part d (b # bs) = (if b = d then (part @ [b]) # frames_from [] d bs else frames_from (part @ [b]) d bs)"

abbreviation frames :: "u8 \<Rightarrow> u8 list \<Rightarrow> u8 list list" where
  "frames d bs \<equiv> frames_from [] d bs"

definition at_boundary :: "u8 \<Rightarrow> u8 list \<Rightarrow> bool" where
  "at_boundary d bs \<longleftrightarrow> bs = [] \<or> last bs = d"

lemma frames_from_boundary: "at_boundary d pre \<Longrightarrow> pre \<noteq> [] \<or> part = [] \<Longrightarrow> frames_from part d (pre @ bs) = frames_from part d pre @ frames d bs"
proof (induction pre arbitrary: part)
  case (Cons b pre)
  show ?case
  proof (cases pre)
    case Nil
    then show ?thesis using Cons.prems by (simp add: at_boundary_def)
  next
    case (Cons c cs)
    then show ?thesis using Cons.IH Cons.prems by (auto simp: at_boundary_def)
  qed
qed simp

lemma frames_first: "d \<notin> set xs \<Longrightarrow> frames_from part d (xs @ d # ys) = (part @ xs @ [d]) # frames d ys"
  by (induction xs arbitrary: part) auto

lemma take_delim_pos:
  assumes "delim_pos d xs \<noteq> 0"
  shows "\<exists>body ys. xs = body @ d # ys \<and> d \<notin> set body \<and> take (delim_pos d xs) xs = body @ [d] \<and> drop (delim_pos d xs) xs = ys"
proof -
  have "d \<in> set xs" using assms by (auto simp: delim_pos_def split: if_splits)
  then obtain body ys where x: "xs = body @ d # ys" "d \<notin> set body" by (meson split_list_first)
  then have "delim_pos d xs = Suc (length body)" by (auto simp: delim_pos_def takeWhile_append)
  then show ?thesis using x by auto
qed

text \<open>A producer and a consumer of lines: which bytes were accepted, which lines were read.\<close>

datatype stream_op = Put u8 | Read_Line

fun stream_run :: "stream_op list \<Rightarrow> syn_stream \<Rightarrow> bool list \<times> u8 list list \<times> syn_stream" where
  "stream_run [] s = ([], [], s)"
| "stream_run (Put b # ops) s =
     (case syn_stream_put s b of (ok, s1) \<Rightarrow> case stream_run ops s1 of (oks, ls, s2) \<Rightarrow> (ok # oks, ls, s2))"
| "stream_run (Read_Line # ops) s =
     (case syn_stream_read_line s (rb_size (st_rb s)) of (l, s1) \<Rightarrow>
      case stream_run ops s1 of (oks, ls, s2) \<Rightarrow> (oks, if l = [] then ls else l # ls, s2))"

fun fed :: "stream_op list \<Rightarrow> u8 list" where
  "fed [] = []"
| "fed (Put b # ops) = b # fed ops"
| "fed (Read_Line # ops) = fed ops"

text \<open>
  The buffer starts at a frame boundary; \<open>part\<close> is what was fed since, buffered or, in overflow, discarded.
\<close>

lemma stream_run_frames:
  assumes "rb_wf (st_rb s)" "st_delim_en s" "if st_overflowing s then st_contents s = [] else part = st_contents s"
    "stream_run ops s = (oks, ls, s')"
  shows "subseq ls (frames (st_delimiter s) (part @ fed ops))
    \<and> (False \<notin> set oks \<and> \<not> st_overflowing s \<longrightarrow> part @ fed ops = concat ls @ st_contents s')"
  using assms
proof (induction ops arbitrary: s part oks ls)
  case Nil
  then show ?case by (auto split: if_splits)
next
  case (Cons op ops)
  let ?d = "st_delimiter s"
  show ?case
  proof (cases op)
    case (Put b)
    obtain ok s1 where p: "syn_stream_put s b = (ok, s1)" by (cases "syn_stream_put s b")
    obtain oks' where r: "stream_run ops s1 = (oks', ls, s')" "oks = ok # oks'"
      using Cons.prems(4) by (auto simp: Put p split: prod.splits)
    note P = stream_put_eq [OF Cons.prems(1,2) p]
    show ?thesis
    proof (cases "ok \<or> st_overflowing s1")
      case True
      have "if st_overflowing s1 then st_contents s1 = [] else part @ [b] = st_contents s1"
        using P Cons.prems(3) True by (auto split: if_splits)
      from Cons.IH [OF P(1,2) this r(1)] show ?thesis using P(3,5,7) True by (auto simp: Put r(2))
    next
      case False
      then have b: "b = ?d" and c: "st_contents s1 = []" and o: "\<not> st_overflowing s1"
        using P Cons.prems(3) by (auto split: if_splits)
      have "subseq ls (frames ?d (fed ops))" using Cons.IH [OF P(1,2) _ r(1), of "[]"] c o P(3) by simp
      moreover have "frames ?d ((part @ [?d]) @ fed ops) = frames ?d (part @ [?d]) @ frames ?d (fed ops)"
        by (rule frames_from_boundary) (simp_all add: at_boundary_def)
      ultimately show ?thesis using False b by (simp add: Put r(2) list_emb_append2)
    qed
  next
    case Read_Line
    obtain l s1 where p: "syn_stream_read_line s (rb_size (st_rb s)) = (l, s1)" by (cases "syn_stream_read_line s (rb_size (st_rb s))")
    obtain ls' where r: "stream_run ops s1 = (oks, ls', s')" "ls = (if l = [] then ls' else l # ls')"
      using Cons.prems(4) by (auto simp: Read_Line p split: prod.splits)
    have n: "min (delim_pos ?d (st_contents s)) (rb_size (st_rb s)) = delim_pos ?d (st_contents s)"
      using delim_pos_le [of ?d "st_contents s"] rb_length_less [OF Cons.prems(1)] by simp
    note L = stream_read_line_eq [OF Cons.prems(1,2) p, unfolded n]
    show ?thesis
    proof (cases "delim_pos ?d (st_contents s) = 0")
      case True
      then have "l = []" using L(1) by simp
      moreover have "if st_overflowing s1 then st_contents s1 = [] else part = st_contents s1"
        using L True Cons.prems(3) by (auto split: if_splits)
      ultimately show ?thesis using Cons.IH [OF L(2,4) _ r(1)] L(5,6) r(2) by (auto simp: Read_Line)
    next
      case False
      from take_delim_pos [OF this] obtain body ys where x: "st_contents s = body @ ?d # ys" "?d \<notin> set body"
        "l = body @ [?d]" "st_contents s1 = ys" unfolding L(1,3) by blast
      have o: "\<not> st_overflowing s" "part = st_contents s" using Cons.prems(3) x(1) by (auto split: if_splits)
      then have "subseq ls' (frames ?d (ys @ fed ops)) \<and> (False \<notin> set oks \<longrightarrow> ys @ fed ops = concat ls' @ st_contents s')"
        using Cons.IH [OF L(2,4) _ r(1), of ys] L(5,6) x(4) by simp
      then show ?thesis using o x frames_first [OF x(2), of "[]" "ys @ fed ops"] r(2) by (simp add: Read_Line)
    qed
  qed
qed


lemma find_delim_loop_numeral:
  "find_delim_loop buf sz d idx i (numeral k) =
     (if buf ! idx = d then i + 1 else find_delim_loop buf sz d (if idx + 1 \<ge> sz then 0 else idx + 1) (i + 1) (pred_numeral k))"
  by (simp add: numeral_eq_Suc Let_def)


text \<open>
  A frame that arrives while complete frames wait in a full buffer discards them too, although they were accepted.
\<close>

theorem stream_overflow_drops_complete_frames:
  assumes "rb_wf (st_rb s)" "st_delim_en s" "\<not> st_overflowing s" "length (st_contents s) = rb_size (st_rb s) - 1"
  shows "st_contents (snd (syn_stream_put s b)) = []"
  using stream_put_eq(5,6) [OF assms(1,2) prod.collapse [symmetric], of b] assms(3,4) by auto

end
