(* ===== verification/Syn_Sequencer.thy ===== *)
theory Syn_Sequencer
  imports Syn_Prelude
begin

text \<open>
  The timed action sequencer of \<^verbatim>\<open>sched/syn_sequencer.c\<close>. What an action or the completion callback does to the
  sequencer and to the rest of the system (\<open>sq_world\<close>) are parameters \<open>act\<close> and \<open>complete\<close>; \<open>tick\<close> reads the
  clock of the system.
\<close>

datatype SYN_SeqState = SYN_SEQ_IDLE | SYN_SEQ_RUNNING | SYN_SEQ_WAITING | SYN_SEQ_DONE

record 'a seq_step =
  ss_action :: "'a option"
  ss_delay_ms :: u32

record ('a, 'w) sequencer =
  sq_steps :: "'a seq_step list option"
  sq_step_count :: u16
  sq_cur :: u16
  sq_state :: SYN_SeqState
  sq_wait_start :: u32
  sq_loop :: bool
  sq_loop_count :: u16
  sq_on_complete :: bool
  sq_world :: 'w

definition syn_seq_init :: "('a, 'w) sequencer \<Rightarrow> 'a seq_step list option \<Rightarrow> u16 \<Rightarrow> ('a, 'w) sequencer" where
  "syn_seq_init seq steps count =
     (if steps = None \<or> count = 0 then seq
      else seq\<lparr>sq_steps := steps, sq_step_count := count, sq_cur := 0, sq_state := SYN_SEQ_IDLE, sq_wait_start := 0,
               sq_loop := False, sq_loop_count := 0, sq_on_complete := False\<rparr>)"

definition syn_seq_on_complete :: "('a, 'w) sequencer \<Rightarrow> bool \<Rightarrow> ('a, 'w) sequencer" where
  "syn_seq_on_complete seq cb = seq\<lparr>sq_on_complete := cb\<rparr>"

definition syn_seq_set_loop :: "('a, 'w) sequencer \<Rightarrow> bool \<Rightarrow> ('a, 'w) sequencer" where
  "syn_seq_set_loop seq lp = seq\<lparr>sq_loop := lp\<rparr>"

definition syn_seq_start :: "('a, 'w) sequencer \<Rightarrow> ('a, 'w) sequencer" where
  "syn_seq_start seq = seq\<lparr>sq_cur := 0, sq_state := SYN_SEQ_RUNNING\<rparr>"

definition syn_seq_stop :: "('a, 'w) sequencer \<Rightarrow> ('a, 'w) sequencer" where
  "syn_seq_stop seq = seq\<lparr>sq_state := SYN_SEQ_IDLE\<rparr>"

definition syn_seq_is_done :: "('a, 'w) sequencer \<Rightarrow> bool" where
  "syn_seq_is_done seq \<longleftrightarrow> sq_state seq = SYN_SEQ_DONE \<or> sq_state seq = SYN_SEQ_IDLE"

definition syn_seq_current_step :: "('a, 'w) sequencer \<Rightarrow> u16" where
  "syn_seq_current_step seq = sq_cur seq"

definition syn_seq_loops :: "('a, 'w) sequencer \<Rightarrow> u16" where
  "syn_seq_loops seq = sq_loop_count seq"

text \<open>The step is looked up once, before its action runs.\<close>

definition execute_step :: "('a \<Rightarrow> ('a, 'w) sequencer \<Rightarrow> ('a, 'w) sequencer) \<Rightarrow> ('w \<Rightarrow> u32) \<Rightarrow> ('a, 'w) sequencer \<Rightarrow> ('a, 'w) sequencer" where
  "execute_step act tick seq =
     (let step = the (sq_steps seq) ! unat (sq_cur seq);
          seq1 = (case ss_action step of None \<Rightarrow> seq | Some a \<Rightarrow> act a seq)
      in if ss_delay_ms step > 0
         then seq1\<lparr>sq_wait_start := tick (sq_world seq1), sq_state := SYN_SEQ_WAITING\<rparr>
         else seq1\<lparr>sq_cur := sq_cur seq1 + 1\<rparr>)"

text \<open>The loop of \<open>syn_seq_update\<close>, with the number of executions left.\<close>

fun seq_loop :: "('a \<Rightarrow> ('a, 'w) sequencer \<Rightarrow> ('a, 'w) sequencer) \<Rightarrow> (('a, 'w) sequencer \<Rightarrow> ('a, 'w) sequencer) \<Rightarrow> ('w \<Rightarrow> u32)
    \<Rightarrow> nat \<Rightarrow> ('a, 'w) sequencer \<Rightarrow> bool \<times> ('a, 'w) sequencer" where
  "seq_loop act complete tick 0 seq = (False, seq)"
| "seq_loop act complete tick (Suc left) seq =
     (if sq_state seq \<noteq> SYN_SEQ_RUNNING then (False, seq)
      else if sq_cur seq \<ge> sq_step_count seq
      then
        let seq1 = seq\<lparr>sq_loop_count := sq_loop_count seq + 1\<rparr>;
            seq2 = (if sq_on_complete seq1 then complete seq1 else seq1)
        in if sq_loop seq2 then seq_loop act complete tick left (execute_step act tick (seq2\<lparr>sq_cur := 0\<rparr>))
           else (True, seq2\<lparr>sq_state := SYN_SEQ_DONE\<rparr>)
      else seq_loop act complete tick left (execute_step act tick seq))"

definition syn_seq_update :: "('a \<Rightarrow> ('a, 'w) sequencer \<Rightarrow> ('a, 'w) sequencer) \<Rightarrow> (('a, 'w) sequencer \<Rightarrow> ('a, 'w) sequencer) \<Rightarrow> ('w \<Rightarrow> u32)
    \<Rightarrow> ('a, 'w) sequencer \<Rightarrow> bool \<times> ('a, 'w) sequencer" where
  "syn_seq_update act complete tick seq =
     (if sq_steps seq = None then (False, seq)
      else if sq_state seq = SYN_SEQ_IDLE \<or> sq_state seq = SYN_SEQ_DONE then (False, seq)
      else if sq_state seq = SYN_SEQ_WAITING
              \<and> tick (sq_world seq) - sq_wait_start seq < ss_delay_ms (the (sq_steps seq) ! unat (sq_cur seq))
      then (False, seq)
      else
        let seq1 = (if sq_state seq = SYN_SEQ_WAITING then seq\<lparr>sq_cur := sq_cur seq + 1, sq_state := SYN_SEQ_RUNNING\<rparr> else seq)
        in seq_loop act complete tick (unat (sq_step_count seq1) + 1) seq1)"

subsection \<open>What one update does\<close>

text \<open>
  The specification runs on the list of the remaining steps: it executes actions up to and including the first with a delay.
  The result is the number of actions executed, whether it now waits, and the world.
\<close>

fun run_batch :: "('a \<Rightarrow> 'w \<Rightarrow> 'w) \<Rightarrow> 'a seq_step list \<Rightarrow> 'w \<Rightarrow> nat \<times> bool \<times> 'w" where
  "run_batch f [] w = (0, False, w)"
| "run_batch f (st # steps) w =
     (let w1 = (case ss_action st of None \<Rightarrow> w | Some a \<Rightarrow> f a w)
      in if ss_delay_ms st > 0 then (1, True, w1)
         else case run_batch f steps w1 of (n, waits, w2) \<Rightarrow> (n + 1, waits, w2))"

text \<open>Callbacks that do not touch the sequencer.\<close>

definition frame_act :: "('a \<Rightarrow> 'w \<Rightarrow> 'w) \<Rightarrow> 'a \<Rightarrow> ('a, 'w) sequencer \<Rightarrow> ('a, 'w) sequencer" where
  "frame_act f a seq = seq\<lparr>sq_world := f a (sq_world seq)\<rparr>"

definition frame_complete :: "('w \<Rightarrow> 'w) \<Rightarrow> ('a, 'w) sequencer \<Rightarrow> ('a, 'w) sequencer" where
  "frame_complete g seq = seq\<lparr>sq_world := g (sq_world seq)\<rparr>"

definition seq_wf :: "('a, 'w) sequencer \<Rightarrow> bool" where
  "seq_wf seq \<longleftrightarrow> (\<exists>steps. sq_steps seq = Some steps \<and> length steps = unat (sq_step_count seq))
     \<and> unat (sq_cur seq) \<le> unat (sq_step_count seq) \<and> (sq_state seq = SYN_SEQ_WAITING \<longrightarrow> unat (sq_cur seq) < unat (sq_step_count seq))"

lemma run_batch_le: "run_batch f steps w = (n, waits, w') \<Longrightarrow> n \<le> length steps \<and> (waits \<longrightarrow> 0 < n) \<and> (\<not> waits \<longrightarrow> n = length steps)"
  by (induction steps arbitrary: w n waits w') (auto simp: Let_def split: if_splits prod.splits option.splits)

lemma unat_next:
  fixes c m :: u16
  assumes "unat c < unat m"
  shows "unat (c + 1) = unat c + 1"
proof -
  have "unat m < 2 ^ 16" using unsigned_less [of m] by simp
  then show ?thesis using assms by (simp add: unat_word_ariths)
qed

text \<open>The loop from position \<open>i\<close> on, with enough executions left.\<close>

lemma seq_loop_batch:
  assumes "sq_steps seq = Some steps" "length steps = unat (sq_step_count seq)" "sq_state seq = SYN_SEQ_RUNNING" "\<not> sq_loop seq"
    "unat (sq_cur seq) \<le> length steps" "length steps - unat (sq_cur seq) < left"
    "run_batch f (drop (unat (sq_cur seq)) steps) (sq_world seq) = (n, waits, w')"
  shows "seq_loop (frame_act f) (frame_complete g) tick left seq =
    (if waits then (False, seq\<lparr>sq_world := w', sq_cur := sq_cur seq + of_nat (n - 1), sq_wait_start := tick w', sq_state := SYN_SEQ_WAITING\<rparr>)
     else (True, seq\<lparr>sq_world := (if sq_on_complete seq then g w' else w'), sq_cur := sq_step_count seq,
       sq_loop_count := sq_loop_count seq + 1, sq_state := SYN_SEQ_DONE\<rparr>))"
  using assms
proof (induction left arbitrary: seq n)
  case (Suc left)
  let ?i = "unat (sq_cur seq)"
  show ?case
  proof (cases "?i = length steps")
    case True
    then have c: "sq_cur seq = sq_step_count seq" using Suc.prems(2) by (simp add: word_unat_eq_iff)
    have "n = 0 \<and> \<not> waits \<and> w' = sq_world seq" using Suc.prems(7) True by simp
    then show ?thesis using Suc.prems(3,4) c by (simp add: frame_complete_def Let_def)
  next
    case False
    then have lt: "?i < length steps" using Suc.prems(5) by simp
    define st where "st = steps ! ?i"
    define w1 where "w1 = (case ss_action st of None \<Rightarrow> sq_world seq | Some a \<Rightarrow> f a (sq_world seq))"
    have dr: "drop ?i steps = st # drop (Suc ?i) steps" using lt by (simp add: Cons_nth_drop_Suc st_def)
    have nle: "\<not> sq_step_count seq \<le> sq_cur seq" using lt Suc.prems(2) by (simp add: word_le_nat_alt)
    have ex: "execute_step (frame_act f) tick seq =
        (if ss_delay_ms st > 0 then seq\<lparr>sq_world := w1, sq_wait_start := tick w1, sq_state := SYN_SEQ_WAITING\<rparr>
         else seq\<lparr>sq_world := w1, sq_cur := sq_cur seq + 1\<rparr>)"
      using Suc.prems(1) by (auto simp: execute_step_def st_def w1_def frame_act_def Let_def split: option.split)
    show ?thesis
    proof (cases "ss_delay_ms st > 0")
      case True
      then have r: "n = 1" "waits" "w' = w1" using Suc.prems(7) by (simp_all add: dr w1_def)
      have "seq_loop (frame_act f) (frame_complete g) tick left (seq\<lparr>sq_world := w1, sq_wait_start := tick w1, sq_state := SYN_SEQ_WAITING\<rparr>)
          = (False, seq\<lparr>sq_world := w1, sq_wait_start := tick w1, sq_state := SYN_SEQ_WAITING\<rparr>)" by (cases left) simp_all
      then show ?thesis using Suc.prems(3) nle True by (simp add: ex r)
    next
      case False
      obtain m where m: "run_batch f (drop (Suc ?i) steps) w1 = (m, waits, w')" "n = m + 1"
        using Suc.prems(7) False by (auto simp: dr w1_def Let_def split: prod.splits)
      let ?s = "seq\<lparr>sq_world := w1, sq_cur := sq_cur seq + 1\<rparr>"
      have nx: "unat (sq_cur seq + 1) = ?i + 1" using lt Suc.prems(2) by (intro unat_next [of _ "sq_step_count seq"]) simp
      have mw: "of_nat (m + 1 - 1) = 1 + (of_nat (m - 1) :: u16)" if waits
        using run_batch_le [OF m(1)] that by (cases m) simp_all
      have "seq_loop (frame_act f) (frame_complete g) tick left ?s =
        (if waits then (False, ?s\<lparr>sq_world := w', sq_cur := sq_cur ?s + of_nat (m - 1), sq_wait_start := tick w', sq_state := SYN_SEQ_WAITING\<rparr>)
         else (True, ?s\<lparr>sq_world := (if sq_on_complete ?s then g w' else w'), sq_cur := sq_step_count ?s,
           sq_loop_count := sq_loop_count ?s + 1, sq_state := SYN_SEQ_DONE\<rparr>))"
        by (rule Suc.IH) (use Suc.prems lt nx m(1) in simp_all)
      then show ?thesis using Suc.prems(3) nle False mw by (simp add: ex m(2) add.assoc)
    qed
  qed
qed simp


definition next_index :: "('a, 'w) sequencer \<Rightarrow> nat" where
  "next_index seq = (if sq_state seq = SYN_SEQ_WAITING then unat (sq_cur seq) + 1 else unat (sq_cur seq))"

definition seq_due :: "('w \<Rightarrow> u32) \<Rightarrow> ('a, 'w) sequencer \<Rightarrow> bool" where
  "seq_due tick seq \<longleftrightarrow> sq_state seq = SYN_SEQ_RUNNING \<or> sq_state seq = SYN_SEQ_WAITING
     \<and> ss_delay_ms (the (sq_steps seq) ! unat (sq_cur seq)) \<le> tick (sq_world seq) - sq_wait_start seq"

text \<open>
  An update of a sequence that does not loop does nothing before the delay of the current step has elapsed. Once it is due it executes, in order, the
  actions after the current step up to the first with a delay, for which it then waits from that moment on, or,
  if none has one, all of them, counts the completion, calls the callback and is done.
\<close>

theorem seq_update_exact:
  assumes "seq_wf seq" "\<not> sq_loop seq" "steps = the (sq_steps seq)"
    "run_batch f (drop (next_index seq) steps) (sq_world seq) = (n, waits, w')"
    "syn_seq_update (frame_act f) (frame_complete g) tick seq = (fin, seq')"
  shows "seq_wf seq' \<and> (if seq_due tick seq
     then fin = (\<not> waits) \<and> sq_world seq' = (if \<not> waits \<and> sq_on_complete seq then g w' else w')
       \<and> (if waits then sq_state seq' = SYN_SEQ_WAITING \<and> unat (sq_cur seq') = next_index seq + n - 1 \<and> sq_wait_start seq' = tick w'
          else sq_state seq' = SYN_SEQ_DONE \<and> sq_loop_count seq' = sq_loop_count seq + 1)
     else \<not> fin \<and> seq' = seq)"
proof (cases "seq_due tick seq")
  case False
  then have "fin = False \<and> seq' = seq"
    using assms(1,5) by (cases "sq_state seq") (auto simp: syn_seq_update_def seq_due_def seq_wf_def split: if_splits)
  then show ?thesis using False assms(1) by simp
next
  case True
  have st: "sq_steps seq = Some steps" "length steps = unat (sq_step_count seq)" and le: "unat (sq_cur seq) \<le> unat (sq_step_count seq)"
    and wt: "sq_state seq = SYN_SEQ_WAITING \<Longrightarrow> unat (sq_cur seq) < unat (sq_step_count seq)"
    using assms(1,3) by (auto simp: seq_wf_def)
  define r where "r = (if sq_state seq = SYN_SEQ_WAITING then seq\<lparr>sq_cur := sq_cur seq + 1, sq_state := SYN_SEQ_RUNNING\<rparr> else seq)"
  have c: "unat (sq_cur r) = next_index seq" "next_index seq \<le> length steps"
    using wt le unat_next [of "sq_cur seq" "sq_step_count seq"] st(2) by (auto simp: r_def next_index_def)
  have r: "sq_steps r = Some steps" "sq_step_count r = sq_step_count seq" "sq_state r = SYN_SEQ_RUNNING" "\<not> sq_loop r"
    "sq_world r = sq_world seq" "sq_on_complete r = sq_on_complete seq" "sq_loop_count r = sq_loop_count seq"
    using True assms(2) st by (auto simp: r_def seq_due_def)
  have "syn_seq_update (frame_act f) (frame_complete g) tick seq = seq_loop (frame_act f) (frame_complete g) tick (unat (sq_step_count seq) + 1) r"
    using True st(1) by (auto simp: syn_seq_update_def seq_due_def r_def Let_def not_less)
  also have "\<dots> = (if waits then (False, r\<lparr>sq_world := w', sq_cur := sq_cur r + of_nat (n - 1), sq_wait_start := tick w', sq_state := SYN_SEQ_WAITING\<rparr>)
     else (True, r\<lparr>sq_world := (if sq_on_complete r then g w' else w'), sq_cur := sq_step_count r,
       sq_loop_count := sq_loop_count r + 1, sq_state := SYN_SEQ_DONE\<rparr>))"
    by (rule seq_loop_batch) (use r st c assms(4) in simp_all)
  finally have u: "(fin, seq') = \<dots>" using assms(5) by simp
  note b = run_batch_le [OF assms(4)]
  have cu: "unat (sq_cur r + of_nat (n - 1)) = next_index seq + n - 1" "next_index seq + n - 1 < length steps" if waits
  proof -
    have n: "0 < n" "n \<le> length steps - next_index seq" using b that by simp_all
    then show lt: "next_index seq + n - 1 < length steps" using c(2) by linarith
    have "unat (sq_step_count seq) < 2 ^ 16" using unsigned_less [of "sq_step_count seq"] by simp
    then have sm: "next_index seq + (n - 1) < 2 ^ 16" using lt st(2) n(1) by linarith
    then have "unat (of_nat (n - 1) :: u16) = n - 1" by (simp add: unat_of_nat)
    then show "unat (sq_cur r + of_nat (n - 1)) = next_index seq + n - 1" using sm c(1) n(1) by (simp add: unat_word_ariths)
  qed
  show ?thesis
  proof (cases waits)
    case w: True
    have "seq_wf seq'" using u cu [OF w] r st w by (simp add: seq_wf_def)
    then show ?thesis using True w u cu [OF w] by simp
  next
    case w: False
    have "seq_wf seq'" using u r st w by (simp add: seq_wf_def)
    then show ?thesis using True w u r by simp
  qed
qed

definition demo_seq :: "(nat, u32 \<times> nat list) sequencer" where
  "demo_seq = \<lparr>sq_steps = Some [\<lparr>ss_action = Some 1, ss_delay_ms = 0\<rparr>, \<lparr>ss_action = Some 2, ss_delay_ms = 50\<rparr>, \<lparr>ss_action = Some 3, ss_delay_ms = 0\<rparr>],
     sq_step_count = 3, sq_cur = 0, sq_state = SYN_SEQ_RUNNING, sq_wait_start = 0, sq_loop = False, sq_loop_count = 0,
     sq_on_complete = False, sq_world = (7, [])\<rparr>"

theorem seq_update_exact_witness:
  "sq_world (snd (syn_seq_update (frame_act (\<lambda>a (c, l). (c, l @ [a]))) (frame_complete (\<lambda>w. w)) fst demo_seq)) = (7, [1, 2])"
proof -
  let ?f = "\<lambda>a (c :: u32, l). (c, l @ [a])" and ?g = "\<lambda>w. w"
  let ?u = "syn_seq_update (frame_act ?f) (frame_complete ?g) fst demo_seq"
  have wf: "seq_wf demo_seq" by (simp add: seq_wf_def demo_seq_def)
  have "run_batch ?f (drop (next_index demo_seq) (the (sq_steps demo_seq))) (sq_world demo_seq) = (2, True, (7, [1, 2]))"
    by (simp add: demo_seq_def next_index_def)
  from seq_update_exact [OF wf _ refl this, of ?g fst "fst ?u" "snd ?u"] show ?thesis
    by (simp add: demo_seq_def seq_due_def)
qed

text \<open>
  \<open>syn_seq_stop\<close> called from an action that has a delay, or from the completion callback of a looping sequence whose first step
  has one, does not stop the sequence.
\<close>

theorem seq_stop_in_action_lost:
  assumes "seq_wf seq" "sq_state seq = SYN_SEQ_RUNNING" "unat (sq_cur seq) < unat (sq_step_count seq)"
    "ss_action (the (sq_steps seq) ! unat (sq_cur seq)) = Some a" "0 < ss_delay_ms (the (sq_steps seq) ! unat (sq_cur seq))"
  shows "sq_state (snd (syn_seq_update (\<lambda>_. syn_seq_stop) complete tick seq)) = SYN_SEQ_WAITING"
proof -
  have stop: "seq_loop (\<lambda>_. syn_seq_stop) complete tick m s = (False, s)" if "sq_state s = SYN_SEQ_WAITING" for m s
    using that by (cases m) simp_all
  have "\<not> sq_step_count seq \<le> sq_cur seq" using assms(3) by (simp add: word_le_nat_alt)
  then show ?thesis using assms by (auto simp: syn_seq_update_def seq_wf_def execute_step_def Let_def stop)
qed

end
