(* ===== verification/Syn_Pubsub.thy ===== *)
theory Syn_Pubsub
  imports Syn_Prelude "HOL-Library.Multiset"
begin

text \<open>
  The publish/subscribe broker of \<^verbatim>\<open>util/syn_pubsub.c\<close>. The entries in use are a list; a handler is a name, and \<open>call\<close>, a
  parameter, gives what calling it does to the broker and the rest of the system (\<open>bk_world\<close>). A
  publication walks the table while handlers may change it, and may not end.
\<close>

definition SYN_PUBSUB_TOPIC_ALL :: u16 where "SYN_PUBSUB_TOPIC_ALL = 0xFFFF"

record 'h subscription =
  ps_topic :: u16
  ps_handler :: 'h
  ps_ctx :: ptr

record ('h, 'w) broker =
  bk_subs :: "'h subscription list option"
  bk_capacity :: nat
  bk_world :: 'w

definition syn_pubsub_init :: "('h, 'w) broker \<Rightarrow> bool \<Rightarrow> nat \<Rightarrow> ('h, 'w) broker" where
  "syn_pubsub_init b has_array capacity = b\<lparr>bk_subs := (if has_array then Some [] else None), bk_capacity := capacity\<rparr>"

definition syn_pubsub_subscribe :: "('h, 'w) broker \<Rightarrow> u16 \<Rightarrow> 'h option \<Rightarrow> ptr \<Rightarrow> bool \<times> ('h, 'w) broker" where
  "syn_pubsub_subscribe b topic handler ctx =
     (case (bk_subs b, handler) of
        (Some subs, Some h) \<Rightarrow>
          if length subs \<ge> bk_capacity b then (False, b)
          else if list_ex (\<lambda>e. ps_topic e = topic \<and> ps_handler e = h \<and> ps_ctx e = ctx) subs then (True, b)
          else (True, b\<lparr>bk_subs := Some (subs @ [\<lparr>ps_topic = topic, ps_handler = h, ps_ctx = ctx\<rparr>])\<rparr>)
      | _ \<Rightarrow> (False, b))"

text \<open>Removal moves the last entry into the gap.\<close>

definition swap_remove :: "nat \<Rightarrow> 'a list \<Rightarrow> 'a list" where
  "swap_remove i xs = (let n = length xs - 1 in if i \<noteq> n then (take n xs)[i := xs ! n] else take n xs)"

definition syn_pubsub_unsubscribe :: "('h, 'w) broker \<Rightarrow> u16 \<Rightarrow> 'h option \<Rightarrow> bool \<times> ('h, 'w) broker" where
  "syn_pubsub_unsubscribe b topic handler =
     (case (bk_subs b, handler) of
        (Some subs, Some h) \<Rightarrow>
          (case find (\<lambda>i. ps_topic (subs ! i) = topic \<and> ps_handler (subs ! i) = h) [0..<length subs] of
             Some i \<Rightarrow> (True, b\<lparr>bk_subs := Some (swap_remove i subs)\<rparr>)
           | None \<Rightarrow> (False, b))
      | _ \<Rightarrow> (False, b))"

definition matches :: "u16 \<Rightarrow> 'h subscription \<Rightarrow> bool" where
  "matches topic e \<longleftrightarrow> ps_topic e = topic \<or> ps_topic e = SYN_PUBSUB_TOPIC_ALL"

partial_function (option) publish_loop :: "('h \<Rightarrow> ptr \<Rightarrow> ('h, 'w) broker \<Rightarrow> ('h, 'w) broker) \<Rightarrow> u16 \<Rightarrow> nat \<Rightarrow> ('h, 'w) broker
    \<Rightarrow> ('h, 'w) broker option" where
  "publish_loop call topic i b =
     (if i < length (the (bk_subs b))
      then
        let e = the (bk_subs b) ! i
        in if matches topic e
           then
             let b1 = call (ps_handler e) (ps_ctx e) b;
                 subs1 = the (bk_subs b1)
             in if length subs1 > i \<and> subs1 ! i \<noteq> e then publish_loop call topic i b1
                else publish_loop call topic (i + 1) b1
           else publish_loop call topic (i + 1) b
      else Some b)"

text \<open>\<open>call\<close> is the handlers' behaviour for the topic and payload of this publication.\<close>

definition syn_pubsub_publish :: "('h \<Rightarrow> u16 \<Rightarrow> 'p \<Rightarrow> ptr \<Rightarrow> ('h, 'w) broker \<Rightarrow> ('h, 'w) broker) \<Rightarrow> ('h, 'w) broker \<Rightarrow> u16 \<Rightarrow> 'p
    \<Rightarrow> ('h, 'w) broker option" where
  "syn_pubsub_publish call b topic payload =
     (if bk_subs b = None then Some b else publish_loop (\<lambda>h ctx. call h topic payload ctx) topic 0 b)"

definition syn_pubsub_count :: "('h, 'w) broker \<Rightarrow> nat" where
  "syn_pubsub_count b = length (the (bk_subs b))"

definition syn_pubsub_reset :: "('h, 'w) broker \<Rightarrow> ('h, 'w) broker" where
  "syn_pubsub_reset b = b\<lparr>bk_subs := map_option (\<lambda>_. []) (bk_subs b)\<rparr>"

subsection \<open>Handlers that may unsubscribe themselves\<close>

text \<open>
  A handler records its call and, where \<open>once\<close> names a topic, cancels its subscription to it.
\<close>

definition log_call :: "('h \<Rightarrow> u16 option) \<Rightarrow> 'h \<Rightarrow> ptr \<Rightarrow> ('h, ('h \<times> ptr) list) broker \<Rightarrow> ('h, ('h \<times> ptr) list) broker" where
  "log_call once h ctx b =
     (let b1 = b\<lparr>bk_world := bk_world b @ [(h, ctx)]\<rparr>
      in case once h of None \<Rightarrow> b1 | Some t \<Rightarrow> snd (syn_pubsub_unsubscribe b1 t (Some h)))"

definition sub_key :: "'h subscription \<Rightarrow> u16 \<times> 'h" where
  "sub_key e = (ps_topic e, ps_handler e)"

definition called :: "'h subscription \<Rightarrow> 'h \<times> ptr" where
  "called e = (ps_handler e, ps_ctx e)"

definition once_ok :: "('h \<Rightarrow> u16 option) \<Rightarrow> 'h subscription list \<Rightarrow> bool" where
  "once_ok once subs \<longleftrightarrow> distinct (map sub_key subs) \<and> (\<forall>e\<in>set subs. once (ps_handler e) = None \<or> once (ps_handler e) = Some (ps_topic e))"

lemma swap_remove_parts:
  assumes "i < length xs"
  shows "take i (swap_remove i xs) = take i xs" "mset (drop i xs) = add_mset (xs ! i) (mset (drop i (swap_remove i xs)))"
    "length (swap_remove i xs) = length xs - 1" "mset xs = add_mset (xs ! i) (mset (swap_remove i xs))"
proof -
  obtain ys z where x: "xs = ys @ [z]" using assms by (metis append_butlast_last_id list.size(3) not_less_zero)
  have sr: "swap_remove i xs = (if i < length ys then ys[i := z] else ys)" using assms by (auto simp: swap_remove_def x Let_def nth_append)
  show "take i (swap_remove i xs) = take i xs" "length (swap_remove i xs) = length xs - 1"
    unfolding sr using assms by (auto simp: x)
  show d: "mset (drop i xs) = add_mset (xs ! i) (mset (drop i (swap_remove i xs)))"
  proof (cases "i < length ys")
    case True
    then have "drop i ys = ys ! i # drop (Suc i) ys" "drop i (ys[i := z]) = z # drop (Suc i) ys"
      by (simp_all add: Cons_nth_drop_Suc drop_update_swap flip: Cons_nth_drop_Suc)
    then show ?thesis unfolding sr using True by (simp add: x nth_append)
  next
    case False
    then have "i = length ys" using assms by (simp add: x)
    then show ?thesis unfolding sr by (simp add: x)
  qed
  have "mset xs = mset (take i xs) + mset (drop i xs)" by (metis append_take_drop_id mset_append)
  also have "\<dots> = add_mset (xs ! i) (mset (take i (swap_remove i xs)) + mset (drop i (swap_remove i xs)))"
    using d \<open>take i (swap_remove i xs) = take i xs\<close> by simp
  also have "\<dots> = add_mset (xs ! i) (mset (swap_remove i xs))" by (metis append_take_drop_id mset_append)
  finally show "mset xs = add_mset (xs ! i) (mset (swap_remove i xs))" .
qed

lemma find_self:
  assumes "distinct (map sub_key subs)" "i < length subs"
  shows "find (\<lambda>j. ps_topic (subs ! j) = ps_topic (subs ! i) \<and> ps_handler (subs ! j) = ps_handler (subs ! i)) [0..<length subs] = Some i"
proof -
  let ?P = "\<lambda>j. ps_topic (subs ! j) = ps_topic (subs ! i) \<and> ps_handler (subs ! j) = ps_handler (subs ! i)"
  have "j = i" if "j < length subs" "?P j" for j
    using assms that nth_eq_iff_index_eq [OF assms(1), of j i] by (simp add: sub_key_def)
  then have "find ?P [0..<length subs] \<noteq> None" "\<And>j. find ?P [0..<length subs] = Some j \<Longrightarrow> j = i"
    using assms(2) by (auto simp: find_None_iff find_Some_iff)
  then show ?thesis by (cases "find ?P [0..<length subs]") auto
qed


lemma log_call_self:
  assumes "bk_subs b = Some subs" "once_ok once subs" "i < length subs" "e = subs ! i"
  shows "bk_subs (log_call once (ps_handler e) (ps_ctx e) b) = Some (if once (ps_handler e) = None then subs else swap_remove i subs)"
    "bk_world (log_call once (ps_handler e) (ps_ctx e) b) = bk_world b @ [called e]"
proof -
  have o: "once (ps_handler e) = None \<or> once (ps_handler e) = Some (ps_topic e)" and d: "distinct (map sub_key subs)"
    using assms(2-4) by (auto simp: once_ok_def)
  then show "bk_subs (log_call once (ps_handler e) (ps_ctx e) b) = Some (if once (ps_handler e) = None then subs else swap_remove i subs)"
    "bk_world (log_call once (ps_handler e) (ps_ctx e) b) = bk_world b @ [called e]"
    using find_self [OF d assms(3)] assms(1,4)
    by (auto simp: log_call_def Let_def called_def syn_pubsub_unsubscribe_def split: option.split)
qed

lemma once_ok_swap_remove: "once_ok once subs \<Longrightarrow> i < length subs \<Longrightarrow> once_ok once (swap_remove i subs)"
proof -
  assume o: "once_ok once subs" and i: "i < length subs"
  note m = swap_remove_parts(4) [OF i]
  have "mset (map sub_key subs) = add_mset (sub_key (subs ! i)) (mset (map sub_key (swap_remove i subs)))"
    using m by (metis image_mset_add_mset mset_map)
  then have "distinct (map sub_key (swap_remove i subs))"
    using o by (metis distinct.simps(2) mset.simps(2) mset_eq_imp_distinct_iff once_ok_def)
  moreover have "set (swap_remove i subs) \<subseteq> set subs" using m by (metis set_mset_add_mset_insert set_mset_mset subset_insertI)
  ultimately show ?thesis using o by (auto simp: once_ok_def)
qed

definition stays :: "('h \<Rightarrow> u16 option) \<Rightarrow> u16 \<Rightarrow> 'h subscription \<Rightarrow> bool" where
  "stays once topic e \<longleftrightarrow> \<not> matches topic e \<or> once (ps_handler e) = None"

text \<open>From position \<open>i\<close> on, every matching entry is called once, whatever moves.\<close>

lemma publish_loop_once:
  assumes "bk_subs b = Some subs" "once_ok once subs"
  shows "\<exists>b' subs' calls. publish_loop (log_call once) topic i b = Some b' \<and> bk_subs b' = Some subs'
    \<and> bk_world b' = bk_world b @ map called calls \<and> mset calls = filter_mset (matches topic) (mset (drop i subs))
    \<and> mset subs' = mset (take i subs) + filter_mset (stays once topic) (mset (drop i subs))"
  using assms
proof (induction "length subs - i" arbitrary: i b subs)
  case 0
  then show ?case by (subst publish_loop.simps) (auto intro!: exI [of _ "[]"])
next
  case (Suc n)
  then have i: "i < length subs" by simp
  define e where "e = subs ! i"
  note L = log_call_self [OF Suc.prems i e_def] and S = swap_remove_parts [OF i, folded e_def]
  let ?b = "log_call once (ps_handler e) (ps_ctx e) b"
  have dr: "drop i subs = e # drop (Suc i) subs" and tk: "take (Suc i) subs = take i subs @ [e]"
    using i by (simp_all add: Cons_nth_drop_Suc take_Suc_conv_app_nth e_def)
  show ?case
  proof (cases "matches topic e \<and> once (ps_handler e) \<noteq> None")
    case True
    let ?s = "swap_remove i subs"
    have ok: "once_ok once ?s" using once_ok_swap_remove [OF Suc.prems(2) i] .
    have ne: "?s ! i \<noteq> e" if "i < length ?s"
    proof
      assume "?s ! i = e"
      then have "e \<in># mset ?s" using that by (metis nth_mem set_mset_mset)
      moreover have "distinct subs" using Suc.prems(2) by (simp add: once_ok_def distinct_map)
      ultimately show False using S(4) by (metis distinct.simps(2) mset.simps(2) mset_eq_imp_distinct_iff set_mset_mset)
    qed
    have lp: "publish_loop (log_call once) topic i b = (if i < length ?s then publish_loop (log_call once) topic i ?b else publish_loop (log_call once) topic (i + 1) ?b)"
      using True i ne L(1) Suc.prems(1) by (subst publish_loop.simps) (auto simp: Let_def e_def [symmetric])
    show ?thesis
    proof (cases "i < length ?s")
      case in_s: True
      have "n = length ?s - i" using Suc.hyps(2) S(3) by simp
      from Suc.hyps(1) [OF this _ ok, of ?b] L True obtain b' subs' calls where
        r: "publish_loop (log_call once) topic i ?b = Some b'" "bk_subs b' = Some subs'" "bk_world b' = bk_world ?b @ map called calls"
          "mset calls = filter_mset (matches topic) (mset (drop i ?s))"
          "mset subs' = mset (take i ?s) + filter_mset (stays once topic) (mset (drop i ?s))" by auto
      show ?thesis
        by (intro exI [of _ b'] exI [of _ subs'] exI [of _ "e # calls"]) (use r L S True in_s in \<open>simp add: lp stays_def\<close>)
    next
      case False
      then have "drop i ?s = []" "take i ?s = ?s" by simp_all
      moreover have "publish_loop (log_call once) topic (i + 1) ?b = Some ?b"
        using False L(1) True by (subst publish_loop.simps) simp
      ultimately show ?thesis
        by (intro exI [of _ ?b] exI [of _ ?s] exI [of _ "[e]"]) (use L S True False in \<open>simp add: lp stays_def\<close>)
    qed
  next
    case False
    define b1 where "b1 = (if matches topic e then ?b else b)"
    have b1: "bk_subs b1 = Some subs" "bk_world b1 = bk_world b @ map called (if matches topic e then [e] else [])"
      using L False Suc.prems(1) by (auto simp: b1_def)
    have lp: "publish_loop (log_call once) topic i b = publish_loop (log_call once) topic (Suc i) b1"
      using False i L(1) Suc.prems(1) by (subst publish_loop.simps) (auto simp: Let_def e_def [symmetric] b1_def)
    have "n = length subs - Suc i" using Suc.hyps(2) by simp
    from Suc.hyps(1) [OF this b1(1) Suc.prems(2)] obtain b' subs' calls where
      r: "publish_loop (log_call once) topic (Suc i) b1 = Some b'" "bk_subs b' = Some subs'" "bk_world b' = bk_world b1 @ map called calls"
        "mset calls = filter_mset (matches topic) (mset (drop (Suc i) subs))"
        "mset subs' = mset (take (Suc i) subs) + filter_mset (stays once topic) (mset (drop (Suc i) subs))" by blast
    show ?thesis
      by (intro exI [of _ b'] exI [of _ subs'] exI [of _ "(if matches topic e then [e] else []) @ calls"])
        (use r False in \<open>auto simp: lp b1(2) dr tk stays_def\<close>)
  qed
qed




text \<open>
  Two handlers of the same topic that each renew their own subscription keep a publication from ever returning: the renewed entry moves to the
  end, the other takes its place, and the position is evaluated again.
\<close>

definition renew :: "u16 \<Rightarrow> 'h \<Rightarrow> ptr \<Rightarrow> ('h, 'w) broker \<Rightarrow> ('h, 'w) broker" where
  "renew topic h ctx b = snd (syn_pubsub_subscribe (snd (syn_pubsub_unsubscribe b topic (Some h))) topic (Some h) ctx)"

definition two_subs :: "u16 \<Rightarrow> 'h \<Rightarrow> 'h \<Rightarrow> 'h subscription list" where
  "two_subs topic h k = [\<lparr>ps_topic = topic, ps_handler = h, ps_ctx = None\<rparr>, \<lparr>ps_topic = topic, ps_handler = k, ps_ctx = None\<rparr>]"

lemma renew_swaps:
  assumes "bk_subs b = Some (two_subs topic h k)" "h \<noteq> k" "2 \<le> bk_capacity b"
  shows "bk_subs (renew topic h None b) = Some (two_subs topic k h)" "bk_capacity (renew topic h None b) = bk_capacity b"
  using assms by (simp_all add: renew_def two_subs_def syn_pubsub_unsubscribe_def syn_pubsub_subscribe_def swap_remove_def)

lemma publish_loop_renew:
  fixes b :: "('h, 'w) broker"
  assumes "publish_loop (renew topic) topic 0 b = Some r"
  shows "\<forall>h k. h \<noteq> k \<longrightarrow> 2 \<le> bk_capacity b \<longrightarrow> bk_subs b \<noteq> Some (two_subs topic h k)"
proof -
  let ?P = "\<lambda>(call :: 'h \<Rightarrow> ptr \<Rightarrow> ('h, 'w) broker \<Rightarrow> ('h, 'w) broker) t (i :: nat) (b :: ('h, 'w) broker) (r :: ('h, 'w) broker). call = renew topic \<and> t = topic \<and> i = 0 \<longrightarrow>
    (\<forall>h k. h \<noteq> k \<longrightarrow> 2 \<le> bk_capacity b \<longrightarrow> bk_subs b \<noteq> Some (two_subs topic h k))"
  have "?P (renew topic) topic 0 b r"
  proof (rule publish_loop.raw_induct [where P = ?P, OF _ assms], intro impI allI notI, elim conjE)
    fix loop :: "('h \<Rightarrow> ptr \<Rightarrow> ('h, 'w) broker \<Rightarrow> ('h, 'w) broker) \<Rightarrow> u16 \<Rightarrow> nat \<Rightarrow> ('h, 'w) broker \<Rightarrow> ('h, 'w) broker option"
      and call t i and b r :: "('h, 'w) broker" and h k
    assume IH: "\<And>call t i b r. loop call t i b = Some r \<Longrightarrow> ?P call t i b r"
      and a: "call = renew topic" "t = topic" "i = 0" "h \<noteq> k" "2 \<le> bk_capacity b" "bk_subs b = Some (two_subs topic h k)"
      and body: "(if i < length (the (bk_subs b))
          then let e = the (bk_subs b) ! i
               in if matches t e
                  then let b1 = call (ps_handler e) (ps_ctx e) b; subs1 = the (bk_subs b1)
                       in if i < length subs1 \<and> subs1 ! i \<noteq> e then loop call t i b1 else loop call t (i + 1) b1
                  else loop call t (i + 1) b
          else Some b) = Some r"
    note R = renew_swaps [OF a(6,4,5)]
    have "loop (renew topic) topic 0 (renew topic h None b) = Some r"
      using body a R(1) by (simp add: Let_def two_subs_def matches_def)
    from IH [OF this] R a(4,5) show False by metis
  qed
  then show ?thesis by blast
qed

theorem publish_renew_diverges:
  assumes "bk_subs b = Some (two_subs topic h k)" "h \<noteq> k" "2 \<le> bk_capacity b"
  shows "syn_pubsub_publish (\<lambda>h t p ctx. renew topic h ctx) b topic payload = None"
proof (rule ccontr)
  assume "\<not> ?thesis"
  then obtain r where "publish_loop (renew topic) topic 0 b = Some r" using assms(1) by (auto simp: syn_pubsub_publish_def)
  from publish_loop_renew [OF this] assms show False by blast
qed

end
