(* ===== verification/Syn_Pack.thy ===== *)
theory Syn_Pack
  imports Syn_Prelude
begin

text \<open>
  Serialisation of integers at a cursor or a fixed offset of a byte buffer (\<^verbatim>\<open>util/syn_pack.h\<close>), big and little endian. A packing function returns the
  buffer and the advanced cursor. Signed variants convert the signed value, an integer, to the unsigned word and back.
\<close>

unbundle bit_operations_syntax

definition syn_pack_u8 :: "u8 list \<Rightarrow> nat \<Rightarrow> u8 \<Rightarrow> u8 list \<times> nat" where
  "syn_pack_u8 buf pos val = (copy_into buf pos [val], pos + 1)"

definition syn_unpack_u8 :: "u8 list \<Rightarrow> nat \<Rightarrow> u8 \<times> nat" where
  "syn_unpack_u8 buf pos = (buf ! pos, pos + 1)"

definition syn_peek_u8 :: "u8 list \<Rightarrow> nat \<Rightarrow> u8" where
  "syn_peek_u8 buf pos = buf ! pos"

definition syn_pack_bytes :: "u8 list \<Rightarrow> nat \<Rightarrow> u8 list \<Rightarrow> u8 list \<times> nat" where
  "syn_pack_bytes buf pos data = (copy_into buf pos data, pos + length data)"

definition syn_unpack_bytes :: "u8 list \<Rightarrow> nat \<Rightarrow> nat \<Rightarrow> u8 list \<times> nat" where
  "syn_unpack_bytes buf pos len = (take len (drop pos buf), pos + len)"

definition syn_pack_u16 :: "u8 list \<Rightarrow> nat \<Rightarrow> u16 \<Rightarrow> u8 list \<times> nat" where
  "syn_pack_u16 buf pos val =
     (copy_into buf pos [ucast (drop_bit 8 val), ucast val], pos + 2)"

definition syn_unpack_u16 :: "u8 list \<Rightarrow> nat \<Rightarrow> u16 \<times> nat" where
  "syn_unpack_u16 buf pos =
     (push_bit 8 (ucast (buf ! pos)) OR ucast (buf ! (pos + 1)), pos + 2)"

definition syn_pack_u32 :: "u8 list \<Rightarrow> nat \<Rightarrow> u32 \<Rightarrow> u8 list \<times> nat" where
  "syn_pack_u32 buf pos val =
     (copy_into buf pos [ucast (drop_bit 24 val), ucast (drop_bit 16 val), ucast (drop_bit 8 val), ucast val], pos + 4)"

definition syn_unpack_u32 :: "u8 list \<Rightarrow> nat \<Rightarrow> u32 \<times> nat" where
  "syn_unpack_u32 buf pos =
     (push_bit 24 (ucast (buf ! pos)) OR push_bit 16 (ucast (buf ! (pos + 1))) OR push_bit 8 (ucast (buf ! (pos + 2))) OR ucast (buf ! (pos + 3)), pos + 4)"

definition syn_pack_u64 :: "u8 list \<Rightarrow> nat \<Rightarrow> u64 \<Rightarrow> u8 list \<times> nat" where
  "syn_pack_u64 buf pos val =
     (copy_into buf pos [ucast (drop_bit 56 val), ucast (drop_bit 48 val), ucast (drop_bit 40 val), ucast (drop_bit 32 val), ucast (drop_bit 24 val), ucast (drop_bit 16 val), ucast (drop_bit 8 val), ucast val], pos + 8)"

definition syn_unpack_u64 :: "u8 list \<Rightarrow> nat \<Rightarrow> u64 \<times> nat" where
  "syn_unpack_u64 buf pos =
     (push_bit 56 (ucast (buf ! pos)) OR push_bit 48 (ucast (buf ! (pos + 1))) OR push_bit 40 (ucast (buf ! (pos + 2))) OR push_bit 32 (ucast (buf ! (pos + 3))) OR push_bit 24 (ucast (buf ! (pos + 4))) OR push_bit 16 (ucast (buf ! (pos + 5))) OR push_bit 8 (ucast (buf ! (pos + 6))) OR ucast (buf ! (pos + 7)), pos + 8)"

definition syn_pack_u16_le :: "u8 list \<Rightarrow> nat \<Rightarrow> u16 \<Rightarrow> u8 list \<times> nat" where
  "syn_pack_u16_le buf pos val =
     (copy_into buf pos [ucast val, ucast (drop_bit 8 val)], pos + 2)"

definition syn_unpack_u16_le :: "u8 list \<Rightarrow> nat \<Rightarrow> u16 \<times> nat" where
  "syn_unpack_u16_le buf pos =
     (ucast (buf ! pos) OR push_bit 8 (ucast (buf ! (pos + 1))), pos + 2)"

definition syn_pack_u32_le :: "u8 list \<Rightarrow> nat \<Rightarrow> u32 \<Rightarrow> u8 list \<times> nat" where
  "syn_pack_u32_le buf pos val =
     (copy_into buf pos [ucast val, ucast (drop_bit 8 val), ucast (drop_bit 16 val), ucast (drop_bit 24 val)], pos + 4)"

definition syn_unpack_u32_le :: "u8 list \<Rightarrow> nat \<Rightarrow> u32 \<times> nat" where
  "syn_unpack_u32_le buf pos =
     (ucast (buf ! pos) OR push_bit 8 (ucast (buf ! (pos + 1))) OR push_bit 16 (ucast (buf ! (pos + 2))) OR push_bit 24 (ucast (buf ! (pos + 3))), pos + 4)"

definition syn_pack_u64_le :: "u8 list \<Rightarrow> nat \<Rightarrow> u64 \<Rightarrow> u8 list \<times> nat" where
  "syn_pack_u64_le buf pos val =
     (copy_into buf pos [ucast val, ucast (drop_bit 8 val), ucast (drop_bit 16 val), ucast (drop_bit 24 val), ucast (drop_bit 32 val), ucast (drop_bit 40 val), ucast (drop_bit 48 val), ucast (drop_bit 56 val)], pos + 8)"

definition syn_unpack_u64_le :: "u8 list \<Rightarrow> nat \<Rightarrow> u64 \<times> nat" where
  "syn_unpack_u64_le buf pos =
     (ucast (buf ! pos) OR push_bit 8 (ucast (buf ! (pos + 1))) OR push_bit 16 (ucast (buf ! (pos + 2))) OR push_bit 24 (ucast (buf ! (pos + 3))) OR push_bit 32 (ucast (buf ! (pos + 4))) OR push_bit 40 (ucast (buf ! (pos + 5))) OR push_bit 48 (ucast (buf ! (pos + 6))) OR push_bit 56 (ucast (buf ! (pos + 7))), pos + 8)"

definition syn_peek_u16 :: "u8 list \<Rightarrow> nat \<Rightarrow> u16" where
  "syn_peek_u16 buf pos = push_bit 8 (ucast (buf ! pos)) OR ucast (buf ! (pos + 1))"

definition syn_poke_u16 :: "u16 \<Rightarrow> u8 list \<Rightarrow> nat \<Rightarrow> u8 list" where
  "syn_poke_u16 val buf pos = copy_into buf pos [ucast (drop_bit 8 val AND 0xFF), ucast (val AND 0xFF)]"

definition syn_peek_u32 :: "u8 list \<Rightarrow> nat \<Rightarrow> u32" where
  "syn_peek_u32 buf pos = push_bit 24 (ucast (buf ! pos)) OR push_bit 16 (ucast (buf ! (pos + 1))) OR push_bit 8 (ucast (buf ! (pos + 2))) OR ucast (buf ! (pos + 3))"

definition syn_poke_u32 :: "u32 \<Rightarrow> u8 list \<Rightarrow> nat \<Rightarrow> u8 list" where
  "syn_poke_u32 val buf pos = copy_into buf pos [ucast (drop_bit 24 val AND 0xFF), ucast (drop_bit 16 val AND 0xFF), ucast (drop_bit 8 val AND 0xFF), ucast (val AND 0xFF)]"

definition syn_peek_u16_le :: "u8 list \<Rightarrow> nat \<Rightarrow> u16" where
  "syn_peek_u16_le buf pos = ucast (buf ! pos) OR push_bit 8 (ucast (buf ! (pos + 1)))"

definition syn_poke_u16_le :: "u16 \<Rightarrow> u8 list \<Rightarrow> nat \<Rightarrow> u8 list" where
  "syn_poke_u16_le val buf pos = copy_into buf pos [ucast (val AND 0xFF), ucast (drop_bit 8 val AND 0xFF)]"

definition syn_peek_u32_le :: "u8 list \<Rightarrow> nat \<Rightarrow> u32" where
  "syn_peek_u32_le buf pos = ucast (buf ! pos) OR push_bit 8 (ucast (buf ! (pos + 1))) OR push_bit 16 (ucast (buf ! (pos + 2))) OR push_bit 24 (ucast (buf ! (pos + 3)))"

definition syn_poke_u32_le :: "u32 \<Rightarrow> u8 list \<Rightarrow> nat \<Rightarrow> u8 list" where
  "syn_poke_u32_le val buf pos = copy_into buf pos [ucast (val AND 0xFF), ucast (drop_bit 8 val AND 0xFF), ucast (drop_bit 16 val AND 0xFF), ucast (drop_bit 24 val AND 0xFF)]"

definition syn_pack_i8 :: "u8 list \<Rightarrow> nat \<Rightarrow> int \<Rightarrow> u8 list \<times> nat" where
  "syn_pack_i8 buf pos val = syn_pack_u8 buf pos (of_int val)"

definition syn_unpack_i8 :: "u8 list \<Rightarrow> nat \<Rightarrow> int \<times> nat" where
  "syn_unpack_i8 buf pos = (let (val, pos1) = syn_unpack_u8 buf pos in (sint val, pos1))"

definition syn_pack_i16 :: "u8 list \<Rightarrow> nat \<Rightarrow> int \<Rightarrow> u8 list \<times> nat" where
  "syn_pack_i16 buf pos val = syn_pack_u16 buf pos (of_int val)"

definition syn_unpack_i16 :: "u8 list \<Rightarrow> nat \<Rightarrow> int \<times> nat" where
  "syn_unpack_i16 buf pos = (let (val, pos1) = syn_unpack_u16 buf pos in (sint val, pos1))"

definition syn_pack_i16_le :: "u8 list \<Rightarrow> nat \<Rightarrow> int \<Rightarrow> u8 list \<times> nat" where
  "syn_pack_i16_le buf pos val = syn_pack_u16_le buf pos (of_int val)"

definition syn_unpack_i16_le :: "u8 list \<Rightarrow> nat \<Rightarrow> int \<times> nat" where
  "syn_unpack_i16_le buf pos = (let (val, pos1) = syn_unpack_u16_le buf pos in (sint val, pos1))"

definition syn_pack_i32 :: "u8 list \<Rightarrow> nat \<Rightarrow> int \<Rightarrow> u8 list \<times> nat" where
  "syn_pack_i32 buf pos val = syn_pack_u32 buf pos (of_int val)"

definition syn_unpack_i32 :: "u8 list \<Rightarrow> nat \<Rightarrow> int \<times> nat" where
  "syn_unpack_i32 buf pos = (let (val, pos1) = syn_unpack_u32 buf pos in (sint val, pos1))"

definition syn_pack_i32_le :: "u8 list \<Rightarrow> nat \<Rightarrow> int \<Rightarrow> u8 list \<times> nat" where
  "syn_pack_i32_le buf pos val = syn_pack_u32_le buf pos (of_int val)"

definition syn_unpack_i32_le :: "u8 list \<Rightarrow> nat \<Rightarrow> int \<times> nat" where
  "syn_unpack_i32_le buf pos = (let (val, pos1) = syn_unpack_u32_le buf pos in (sint val, pos1))"

subsection \<open>Fixed-width fields\<close>

text \<open>
  The contract of a field of fixed width: within the buffer, writing changes the bytes of the field only and reading gives the value back. Its consequence for
  clients: an array of fields written one after the other reads back, and leaves the rest of the buffer alone.
\<close>

locale fixed_field =
  fixes width :: nat and encode :: "'v \<Rightarrow> u8 list" and get :: "u8 list \<Rightarrow> nat \<Rightarrow> 'v"
  assumes encode_length: "length (encode v) = width"
    and get_encode: "get (xs @ encode v @ ys) (length xs) = v"
begin

definition put :: "u8 list \<Rightarrow> nat \<Rightarrow> 'v \<Rightarrow> u8 list" where
  "put buf pos v = copy_into buf pos (encode v)"

lemma get_put: "pos + width \<le> length buf \<Longrightarrow> get (put buf pos v) pos = v"
  using get_encode [of "take pos buf" v] encode_length [of v] by (simp add: put_def copy_into_def)

lemma get_nth:
  assumes "i < length vs"
  shows "get (xs @ concat (map encode vs) @ ys) (length xs + width * i) = vs ! i"
proof -
  have "length (concat (map encode us)) = width * length us" for us by (induction us) (simp_all add: encode_length)
  moreover have "vs = take i vs @ vs ! i # drop (Suc i) vs" using assms by (rule id_take_nth_drop)
  ultimately show ?thesis using get_encode [of "xs @ concat (map encode (take i vs))" "vs ! i" "concat (map encode (drop (Suc i) vs)) @ ys"] assms
    by (metis (no_types, lifting) append.assoc concat_append concat.simps(2) length_append length_take list.simps(9) map_append min.absorb4)
qed

end

lemma ucast_and_255: "(ucast (x AND 0xFF) :: u8) = ucast x" for x :: "'a::len word"
  by (rule bit_word_eqI) (auto simp: and_255 bit_simps dest: bit_imp_le_length)

text \<open>A word is the disjunction of its bytes.\<close>

lemma byte_at: "bit (push_bit (8 * k) (ucast (ucast (drop_bit (8 * k) v) :: u8)) :: 'a::len word) n \<longleftrightarrow> 8 * k \<le> n \<and> n < 8 * k + 8 \<and> n < LENGTH('a) \<and> bit v n"
  by (auto simp: bit_simps dest: bit_imp_le_length)

lemma byte_at_nums:
  "bit (ucast (ucast v :: u8) :: 'a::len word) n \<longleftrightarrow> n < 8 \<and> n < LENGTH('a) \<and> bit v n"
  "bit (push_bit 8 (ucast (ucast (drop_bit 8 v) :: u8)) :: 'a::len word) n \<longleftrightarrow> 8 \<le> n \<and> n < 16 \<and> n < LENGTH('a) \<and> bit v n"
  "bit (push_bit 16 (ucast (ucast (drop_bit 16 v) :: u8)) :: 'a::len word) n \<longleftrightarrow> 16 \<le> n \<and> n < 24 \<and> n < LENGTH('a) \<and> bit v n"
  "bit (push_bit 24 (ucast (ucast (drop_bit 24 v) :: u8)) :: 'a::len word) n \<longleftrightarrow> 24 \<le> n \<and> n < 32 \<and> n < LENGTH('a) \<and> bit v n"
  "bit (push_bit 32 (ucast (ucast (drop_bit 32 v) :: u8)) :: 'a::len word) n \<longleftrightarrow> 32 \<le> n \<and> n < 40 \<and> n < LENGTH('a) \<and> bit v n"
  "bit (push_bit 40 (ucast (ucast (drop_bit 40 v) :: u8)) :: 'a::len word) n \<longleftrightarrow> 40 \<le> n \<and> n < 48 \<and> n < LENGTH('a) \<and> bit v n"
  "bit (push_bit 48 (ucast (ucast (drop_bit 48 v) :: u8)) :: 'a::len word) n \<longleftrightarrow> 48 \<le> n \<and> n < 56 \<and> n < LENGTH('a) \<and> bit v n"
  "bit (push_bit 56 (ucast (ucast (drop_bit 56 v) :: u8)) :: 'a::len word) n \<longleftrightarrow> 56 \<le> n \<and> n < 64 \<and> n < LENGTH('a) \<and> bit v n"
  using byte_at [of 0 v n] byte_at [of 1 v n] byte_at [of 2 v n] byte_at [of 3 v n] byte_at [of 4 v n] byte_at [of 5 v n] byte_at [of 6 v n] byte_at [of 7 v n]
  by simp_all

lemma join_u16: "(push_bit 8 (ucast (ucast (drop_bit 8 v) :: u8)) OR ucast (ucast v :: u8)) = (v :: u16)"
  by (rule bit_word_eqI) (simp only: bit_or_iff byte_at_nums, auto)

lemma join_u16_le: "(ucast (ucast v :: u8) OR push_bit 8 (ucast (ucast (drop_bit 8 v) :: u8))) = (v :: u16)"
  by (rule bit_word_eqI) (simp only: bit_or_iff byte_at_nums, auto)

lemma join_u32: "(push_bit 24 (ucast (ucast (drop_bit 24 v) :: u8)) OR push_bit 16 (ucast (ucast (drop_bit 16 v) :: u8)) OR push_bit 8 (ucast (ucast (drop_bit 8 v) :: u8)) OR ucast (ucast v :: u8)) = (v :: u32)"
  by (rule bit_word_eqI) (simp only: bit_or_iff byte_at_nums, auto)

lemma join_u32_le: "(ucast (ucast v :: u8) OR push_bit 8 (ucast (ucast (drop_bit 8 v) :: u8)) OR push_bit 16 (ucast (ucast (drop_bit 16 v) :: u8)) OR push_bit 24 (ucast (ucast (drop_bit 24 v) :: u8))) = (v :: u32)"
  by (rule bit_word_eqI) (simp only: bit_or_iff byte_at_nums, auto)

lemma join_u64: "(push_bit 56 (ucast (ucast (drop_bit 56 v) :: u8)) OR push_bit 48 (ucast (ucast (drop_bit 48 v) :: u8)) OR push_bit 40 (ucast (ucast (drop_bit 40 v) :: u8)) OR push_bit 32 (ucast (ucast (drop_bit 32 v) :: u8)) OR push_bit 24 (ucast (ucast (drop_bit 24 v) :: u8)) OR push_bit 16 (ucast (ucast (drop_bit 16 v) :: u8)) OR push_bit 8 (ucast (ucast (drop_bit 8 v) :: u8)) OR ucast (ucast v :: u8)) = (v :: u64)"
  by (rule bit_word_eqI) (simp only: bit_or_iff byte_at_nums, auto)

lemma join_u64_le: "(ucast (ucast v :: u8) OR push_bit 8 (ucast (ucast (drop_bit 8 v) :: u8)) OR push_bit 16 (ucast (ucast (drop_bit 16 v) :: u8)) OR push_bit 24 (ucast (ucast (drop_bit 24 v) :: u8)) OR push_bit 32 (ucast (ucast (drop_bit 32 v) :: u8)) OR push_bit 40 (ucast (ucast (drop_bit 40 v) :: u8)) OR push_bit 48 (ucast (ucast (drop_bit 48 v) :: u8)) OR push_bit 56 (ucast (ucast (drop_bit 56 v) :: u8))) = (v :: u64)"
  by (rule bit_word_eqI) (simp only: bit_or_iff byte_at_nums, auto)

definition enc_u16 :: "u16 \<Rightarrow> u8 list" where
  "enc_u16 val = [ucast (drop_bit 8 val), ucast val]"

definition enc_u16_le :: "u16 \<Rightarrow> u8 list" where
  "enc_u16_le val = [ucast val, ucast (drop_bit 8 val)]"

definition enc_u32 :: "u32 \<Rightarrow> u8 list" where
  "enc_u32 val = [ucast (drop_bit 24 val), ucast (drop_bit 16 val), ucast (drop_bit 8 val), ucast val]"

definition enc_u32_le :: "u32 \<Rightarrow> u8 list" where
  "enc_u32_le val = [ucast val, ucast (drop_bit 8 val), ucast (drop_bit 16 val), ucast (drop_bit 24 val)]"

definition enc_u64 :: "u64 \<Rightarrow> u8 list" where
  "enc_u64 val = [ucast (drop_bit 56 val), ucast (drop_bit 48 val), ucast (drop_bit 40 val), ucast (drop_bit 32 val), ucast (drop_bit 24 val), ucast (drop_bit 16 val), ucast (drop_bit 8 val), ucast val]"

definition enc_u64_le :: "u64 \<Rightarrow> u8 list" where
  "enc_u64_le val = [ucast val, ucast (drop_bit 8 val), ucast (drop_bit 16 val), ucast (drop_bit 24 val), ucast (drop_bit 32 val), ucast (drop_bit 40 val), ucast (drop_bit 48 val), ucast (drop_bit 56 val)]"

interpretation f16: fixed_field 2 enc_u16 "\<lambda>buf pos. fst (syn_unpack_u16 buf pos)"
  by unfold_locales (simp_all add: enc_u16_def syn_unpack_u16_def nth_append join_u16)

interpretation f16le: fixed_field 2 enc_u16_le "\<lambda>buf pos. fst (syn_unpack_u16_le buf pos)"
  by unfold_locales (simp_all add: enc_u16_le_def syn_unpack_u16_le_def nth_append join_u16_le)

interpretation f32: fixed_field 4 enc_u32 "\<lambda>buf pos. fst (syn_unpack_u32 buf pos)"
  by unfold_locales (simp_all add: enc_u32_def syn_unpack_u32_def nth_append join_u32)

interpretation f32le: fixed_field 4 enc_u32_le "\<lambda>buf pos. fst (syn_unpack_u32_le buf pos)"
  by unfold_locales (simp_all add: enc_u32_le_def syn_unpack_u32_le_def nth_append join_u32_le)

interpretation f64: fixed_field 8 enc_u64 "\<lambda>buf pos. fst (syn_unpack_u64 buf pos)"
  by unfold_locales (simp_all add: enc_u64_def syn_unpack_u64_def nth_append join_u64)

interpretation f64le: fixed_field 8 enc_u64_le "\<lambda>buf pos. fst (syn_unpack_u64_le buf pos)"
  by unfold_locales (simp_all add: enc_u64_le_def syn_unpack_u64_le_def nth_append join_u64_le)

text \<open>The packing functions write the field at the cursor and advance it; peeking and poking are the same at a fixed offset.\<close>

lemma pack_u16: "syn_pack_u16 buf pos val = (copy_into buf pos (enc_u16 val), pos + 2)"
  by (simp add: syn_pack_u16_def enc_u16_def)

lemma pack_u16_le: "syn_pack_u16_le buf pos val = (copy_into buf pos (enc_u16_le val), pos + 2)"
  by (simp add: syn_pack_u16_le_def enc_u16_le_def)

lemma pack_u32: "syn_pack_u32 buf pos val = (copy_into buf pos (enc_u32 val), pos + 4)"
  by (simp add: syn_pack_u32_def enc_u32_def)

lemma pack_u32_le: "syn_pack_u32_le buf pos val = (copy_into buf pos (enc_u32_le val), pos + 4)"
  by (simp add: syn_pack_u32_le_def enc_u32_le_def)

lemma pack_u64: "syn_pack_u64 buf pos val = (copy_into buf pos (enc_u64 val), pos + 8)"
  by (simp add: syn_pack_u64_def enc_u64_def)

lemma pack_u64_le: "syn_pack_u64_le buf pos val = (copy_into buf pos (enc_u64_le val), pos + 8)"
  by (simp add: syn_pack_u64_le_def enc_u64_le_def)

lemma peek_u16: "syn_peek_u16 buf pos = fst (syn_unpack_u16 buf pos)"
  by (simp add: syn_peek_u16_def syn_unpack_u16_def)

lemma poke_u16: "syn_poke_u16 val buf pos = copy_into buf pos (enc_u16 val)"
  by (simp add: syn_poke_u16_def enc_u16_def ucast_and_255)

lemma peek_u16_le: "syn_peek_u16_le buf pos = fst (syn_unpack_u16_le buf pos)"
  by (simp add: syn_peek_u16_le_def syn_unpack_u16_le_def)

lemma poke_u16_le: "syn_poke_u16_le val buf pos = copy_into buf pos (enc_u16_le val)"
  by (simp add: syn_poke_u16_le_def enc_u16_le_def ucast_and_255)

lemma peek_u32: "syn_peek_u32 buf pos = fst (syn_unpack_u32 buf pos)"
  by (simp add: syn_peek_u32_def syn_unpack_u32_def)

lemma poke_u32: "syn_poke_u32 val buf pos = copy_into buf pos (enc_u32 val)"
  by (simp add: syn_poke_u32_def enc_u32_def ucast_and_255)

lemma peek_u32_le: "syn_peek_u32_le buf pos = fst (syn_unpack_u32_le buf pos)"
  by (simp add: syn_peek_u32_le_def syn_unpack_u32_le_def)

lemma poke_u32_le: "syn_poke_u32_le val buf pos = copy_into buf pos (enc_u32_le val)"
  by (simp add: syn_poke_u32_le_def enc_u32_le_def ucast_and_255)

text \<open>Signed values survive the conversion to the unsigned field and back.\<close>

lemma sint_of_int: "- (2 ^ (LENGTH('a) - 1)) \<le> x \<Longrightarrow> x < 2 ^ (LENGTH('a) - 1) \<Longrightarrow> sint (of_int x :: 'a::len word) = x"
  by (simp add: sint_sbintrunc' signed_take_bit_int_eq_self)

lemma pack_signed_roundtrip:
  assumes "pos + 4 \<le> length buf"
  shows "- 32768 \<le> x \<and> x < 32768 \<Longrightarrow> fst (syn_unpack_i16 (fst (syn_pack_i16 buf pos x)) pos) = x"
    and "- 32768 \<le> x \<and> x < 32768 \<Longrightarrow> fst (syn_unpack_i16_le (fst (syn_pack_i16_le buf pos x)) pos) = x"
    and "- 2147483648 \<le> x \<and> x < 2147483648 \<Longrightarrow> fst (syn_unpack_i32 (fst (syn_pack_i32 buf pos x)) pos) = x"
    and "- 2147483648 \<le> x \<and> x < 2147483648 \<Longrightarrow> fst (syn_unpack_i32_le (fst (syn_pack_i32_le buf pos x)) pos) = x"
  using f16.get_put [of pos buf] f16le.get_put [of pos buf] f32.get_put [of pos buf] f32le.get_put [of pos buf] assms
  by (simp_all add: syn_unpack_i16_def syn_pack_i16_def syn_unpack_i16_le_def syn_pack_i16_le_def syn_unpack_i32_def syn_pack_i32_def
      syn_unpack_i32_le_def syn_pack_i32_le_def case_prod_beta pack_u16 pack_u16_le pack_u32 pack_u32_le sint_of_int
      f16.put_def f16le.put_def f32.put_def f32le.put_def)

end
