(* ===== verification/Syn_Isotp.thy ===== *)
theory Syn_Isotp
  imports Syn_Pack
begin

text \<open>
  The ISO 15765-2 transport of \<^verbatim>\<open>proto/syn_isotp.c\<close> in its default configuration (classic CAN: frames of eight data bytes):
  segmentation into single, first and consecutive frames, flow control with block size and separation time, and
  reassembly. A \<^verbatim>\<open>memcpy\<close> is \<open>copy_into\<close>, which changes the length of the destination unless it stays inside it.
\<close>

record can_frame =
  cf_id :: u32
  cf_data :: "u8 list"
  cf_dlc :: u8
  cf_extended :: bool
  cf_rtr :: bool

definition SYN_CAN_MAX_DATA_LEN :: nat where "SYN_CAN_MAX_DATA_LEN = 8"
definition SYN_ISOTP_PCI_SF :: u8 where "SYN_ISOTP_PCI_SF = 0x00"
definition SYN_ISOTP_PCI_FF :: u8 where "SYN_ISOTP_PCI_FF = 0x10"
definition SYN_ISOTP_PCI_CF :: u8 where "SYN_ISOTP_PCI_CF = 0x20"
definition SYN_ISOTP_PCI_FC :: u8 where "SYN_ISOTP_PCI_FC = 0x30"
definition SYN_ISOTP_DEFAULT_PADDING :: u8 where "SYN_ISOTP_DEFAULT_PADDING = 0xCC"
definition SYN_ISOTP_DEFAULT_N_BS_MS :: u32 where "SYN_ISOTP_DEFAULT_N_BS_MS = 1000"
definition SYN_ISOTP_DEFAULT_N_CR_MS :: u32 where "SYN_ISOTP_DEFAULT_N_CR_MS = 1000"
definition SYN_ISOTP_FC_CTS :: u8 where "SYN_ISOTP_FC_CTS = 0x00"
definition SYN_ISOTP_FC_WAIT :: u8 where "SYN_ISOTP_FC_WAIT = 0x01"
definition SYN_ISOTP_FC_OVERFLOW :: u8 where "SYN_ISOTP_FC_OVERFLOW = 0x02"

datatype SYN_ISOTP_TxState = SYN_ISOTP_TX_IDLE | SYN_ISOTP_TX_SEND_SF | SYN_ISOTP_TX_SEND_FF | SYN_ISOTP_TX_WAIT_FC | SYN_ISOTP_TX_SEND_CF

datatype SYN_ISOTP_RxState = SYN_ISOTP_RX_IDLE | SYN_ISOTP_RX_WAIT_CF | SYN_ISOTP_RX_COMPLETE

record isotp_link =
  ln_rx_id :: u32
  ln_tx_id :: u32
  ln_tx_buf :: "u8 list"
  ln_tx_buf_size :: nat
  ln_tx_len :: nat
  ln_tx_offset :: nat
  ln_tx_seq :: u8
  ln_tx_state :: SYN_ISOTP_TxState
  ln_tx_bs :: u8
  ln_tx_bs_count :: u8
  ln_tx_st_min :: u8
  ln_tx_st_timer_us :: u32
  ln_n_bs_timeout_us :: u32
  ln_tx_timeout_timer_us :: u32
  ln_padding_byte :: u8
  ln_rx_buf :: "u8 list option"
  ln_rx_buf_size :: nat
  ln_rx_len :: nat
  ln_rx_expected :: nat
  ln_rx_seq :: u8
  ln_rx_state :: SYN_ISOTP_RxState
  ln_rx_fc_pending :: bool
  ln_rx_fc_status :: u8
  ln_rx_fc_bs :: u8
  ln_rx_fc_stmin :: u8
  ln_rx_bs_count :: u8
  ln_n_cr_timeout_us :: u32
  ln_rx_timeout_timer_us :: u32

definition syn_isotp_decode_stmin_us :: "u8 \<Rightarrow> u32" where
  "syn_isotp_decode_stmin_us st_min =
     (if st_min \<le> 0x7F then ucast st_min * 1000
      else if st_min \<ge> 0xF1 \<and> st_min \<le> 0xF9 then ucast (st_min - 0xF0) * 100
      else 127000)"

definition syn_isotp_set_timeouts :: "isotp_link \<Rightarrow> u32 \<Rightarrow> u32 \<Rightarrow> isotp_link" where
  "syn_isotp_set_timeouts l n_bs_ms n_cr_ms =
     l\<lparr>ln_n_bs_timeout_us := (if n_bs_ms > 0 then n_bs_ms * 1000 else SYN_ISOTP_DEFAULT_N_BS_MS * 1000),
       ln_n_cr_timeout_us := (if n_cr_ms > 0 then n_cr_ms * 1000 else SYN_ISOTP_DEFAULT_N_CR_MS * 1000)\<rparr>"

definition syn_isotp_init :: "u32 \<Rightarrow> u32 \<Rightarrow> u8 list option \<Rightarrow> nat \<Rightarrow> u8 list \<Rightarrow> nat \<Rightarrow> isotp_link" where
  "syn_isotp_init rx_id tx_id rx_buf rx_buf_size tx_buf tx_buf_size =
     \<lparr>ln_rx_id = rx_id, ln_tx_id = tx_id, ln_tx_buf = tx_buf, ln_tx_buf_size = tx_buf_size, ln_tx_len = 0, ln_tx_offset = 0,
      ln_tx_seq = 0, ln_tx_state = SYN_ISOTP_TX_IDLE, ln_tx_bs = 0, ln_tx_bs_count = 0, ln_tx_st_min = 0, ln_tx_st_timer_us = 0,
      ln_n_bs_timeout_us = SYN_ISOTP_DEFAULT_N_BS_MS * 1000, ln_tx_timeout_timer_us = 0, ln_padding_byte = SYN_ISOTP_DEFAULT_PADDING,
      ln_rx_buf = rx_buf, ln_rx_buf_size = rx_buf_size, ln_rx_len = 0, ln_rx_expected = 0, ln_rx_seq = 0, ln_rx_state = SYN_ISOTP_RX_IDLE,
      ln_rx_fc_pending = False, ln_rx_fc_status = 0, ln_rx_fc_bs = 0, ln_rx_fc_stmin = 0, ln_rx_bs_count = 0,
      ln_n_cr_timeout_us = SYN_ISOTP_DEFAULT_N_CR_MS * 1000, ln_rx_timeout_timer_us = 0\<rparr>"

definition syn_isotp_set_fc_params :: "isotp_link \<Rightarrow> u8 \<Rightarrow> u8 \<Rightarrow> isotp_link" where
  "syn_isotp_set_fc_params l bs stmin = l\<lparr>ln_rx_fc_bs := bs, ln_rx_fc_stmin := stmin\<rparr>"

definition syn_isotp_set_padding :: "isotp_link \<Rightarrow> u8 \<Rightarrow> isotp_link" where
  "syn_isotp_set_padding l pad_byte = l\<lparr>ln_padding_byte := pad_byte\<rparr>"

definition syn_isotp_send :: "isotp_link \<Rightarrow> u8 list option \<Rightarrow> SYN_Status \<times> isotp_link" where
  "syn_isotp_send l payload0 =
     (case payload0 of None \<Rightarrow> (SYN_INVALID_PARAM, l)
      | Some payload \<Rightarrow>
          let payload_len = length payload
          in if payload_len < 1 then (SYN_INVALID_PARAM, l)
             else if ln_tx_state l \<noteq> SYN_ISOTP_TX_IDLE then (SYN_BUSY, l)
             else if payload_len > ln_tx_buf_size l then (SYN_INVALID_PARAM, l)
             else (SYN_OK, l\<lparr>ln_tx_buf := copy_into (ln_tx_buf l) 0 payload, ln_tx_len := payload_len, ln_tx_offset := 0,
                     ln_tx_seq := 1, ln_tx_bs_count := 0,
                     ln_tx_state := (if payload_len \<le> 7 then SYN_ISOTP_TX_SEND_SF else SYN_ISOTP_TX_SEND_FF)\<rparr>))"

text \<open>The frame cleared and filled with padding at the start of \<open>syn_isotp_get_tx_frame\<close>, with its first bytes set.\<close>

definition tx_frame :: "isotp_link \<Rightarrow> u8 list \<Rightarrow> can_frame" where
  "tx_frame l bytes =
     \<lparr>cf_id = ln_tx_id l, cf_data = copy_into (replicate SYN_CAN_MAX_DATA_LEN (ln_padding_byte l)) 0 bytes, cf_dlc = 8,
      cf_extended = False, cf_rtr = False\<rparr>"

definition tx_fc :: "isotp_link \<Rightarrow> can_frame option \<times> isotp_link" where
  "tx_fc l = (Some (tx_frame l [SYN_ISOTP_PCI_FC OR ln_rx_fc_status l, ln_rx_fc_bs l, ln_rx_fc_stmin l]), l\<lparr>ln_rx_fc_pending := False\<rparr>)"

definition tx_sf :: "isotp_link \<Rightarrow> can_frame option \<times> isotp_link" where
  "tx_sf l = (Some (tx_frame l ((SYN_ISOTP_PCI_SF OR of_nat (ln_tx_len l)) # take (ln_tx_len l) (ln_tx_buf l))),
     l\<lparr>ln_tx_state := SYN_ISOTP_TX_IDLE\<rparr>)"

definition tx_ff :: "isotp_link \<Rightarrow> can_frame option \<times> isotp_link" where
  "tx_ff l =
     (let payload_in_ff = 6
      in (Some (tx_frame l ([SYN_ISOTP_PCI_FF OR of_nat ((ln_tx_len l div 256) mod 16), of_nat (ln_tx_len l mod 256)]
                            @ take payload_in_ff (ln_tx_buf l))),
          l\<lparr>ln_tx_offset := payload_in_ff, ln_tx_state := SYN_ISOTP_TX_WAIT_FC, ln_tx_timeout_timer_us := ln_n_bs_timeout_us l\<rparr>))"

definition tx_cf :: "isotp_link \<Rightarrow> can_frame option \<times> isotp_link" where
  "tx_cf l =
     (if ln_tx_st_timer_us l > 0 then (None, l)
      else
        let rem = ln_tx_len l - ln_tx_offset l
        in if rem = 0 then (None, l\<lparr>ln_tx_state := SYN_ISOTP_TX_IDLE\<rparr>)
           else
             let payload_len = (if rem > 7 then 7 else rem);
                 frame = tx_frame l ((SYN_ISOTP_PCI_CF OR (ln_tx_seq l AND 0x0F)) # take payload_len (drop (ln_tx_offset l) (ln_tx_buf l)));
                 l1 = l\<lparr>ln_tx_offset := ln_tx_offset l + payload_len, ln_tx_seq := (ln_tx_seq l + 1) AND 0x0F,
                        ln_tx_st_timer_us := syn_isotp_decode_stmin_us (ln_tx_st_min l)\<rparr>;
                 l2 = (if ln_tx_bs l1 > 0
                       then let l' = l1\<lparr>ln_tx_bs_count := ln_tx_bs_count l1 + 1\<rparr>
                            in if ln_tx_bs_count l' \<ge> ln_tx_bs l' \<and> ln_tx_offset l' < ln_tx_len l'
                               then l'\<lparr>ln_tx_bs_count := 0, ln_tx_state := SYN_ISOTP_TX_WAIT_FC, ln_tx_timeout_timer_us := ln_n_bs_timeout_us l'\<rparr>
                               else l'
                       else l1)
             in (Some frame, if ln_tx_offset l2 \<ge> ln_tx_len l2 then l2\<lparr>ln_tx_state := SYN_ISOTP_TX_IDLE\<rparr> else l2))"

definition syn_isotp_get_tx_frame :: "isotp_link \<Rightarrow> can_frame option \<times> isotp_link" where
  "syn_isotp_get_tx_frame l =
     (if ln_rx_fc_pending l then tx_fc l
      else case ln_tx_state l of
             SYN_ISOTP_TX_SEND_SF \<Rightarrow> tx_sf l
           | SYN_ISOTP_TX_SEND_FF \<Rightarrow> tx_ff l
           | SYN_ISOTP_TX_WAIT_FC \<Rightarrow> (None, l)
           | SYN_ISOTP_TX_SEND_CF \<Rightarrow> tx_cf l
           | SYN_ISOTP_TX_IDLE \<Rightarrow> (None, l))"

definition rx_sf :: "isotp_link \<Rightarrow> can_frame \<Rightarrow> isotp_link" where
  "rx_sf l frame =
     (let d = cf_data frame;
          len0 = unat (d ! 0 AND 0x0F);
          (sf_len1, data_offset) = (if len0 = 0 then (unat (d ! 1), 2) else (len0, 1));
          frame_cap = (if cf_dlc frame > 0 then unat (cf_dlc frame) else SYN_CAN_MAX_DATA_LEN);
          max_sf_bytes = (if frame_cap > data_offset then frame_cap - data_offset else 0);
          sf_len = (if sf_len1 > max_sf_bytes then max_sf_bytes else sf_len1)
      in case ln_rx_buf l of
           Some rx_buf \<Rightarrow>
             if sf_len \<ge> 1 \<and> sf_len \<le> ln_rx_buf_size l
             then l\<lparr>ln_rx_buf := Some (copy_into rx_buf 0 (take sf_len (drop data_offset d))), ln_rx_len := sf_len,
                    ln_rx_state := SYN_ISOTP_RX_COMPLETE\<rparr>
             else l
         | None \<Rightarrow> l)"

definition rx_ff :: "isotp_link \<Rightarrow> can_frame \<Rightarrow> isotp_link" where
  "rx_ff l frame =
     (let d = cf_data frame;
          len_12 = syn_peek_u16 d 0 AND 0x0FFF;
          (ff_len, data_offset) = (if len_12 \<noteq> 0 then (unat len_12, 2) else (unat (syn_peek_u32 d 2), 6))
      in case ln_rx_buf l of
           Some rx_buf \<Rightarrow>
             if ff_len > 7
             then if ff_len > ln_rx_buf_size l
                  then l\<lparr>ln_rx_fc_pending := True, ln_rx_fc_status := SYN_ISOTP_FC_OVERFLOW, ln_rx_state := SYN_ISOTP_RX_IDLE\<rparr>
                  else
                    let frame_len = (if cf_dlc frame > 0 then unat (cf_dlc frame) else 8);
                        in_ff = (if frame_len > data_offset then frame_len - data_offset else 0);
                        payload_in_ff = (if in_ff > ff_len then ff_len else in_ff)
                    in l\<lparr>ln_rx_buf := Some (copy_into rx_buf 0 (take payload_in_ff (drop data_offset d))), ln_rx_len := payload_in_ff,
                         ln_rx_expected := ff_len, ln_rx_seq := 1, ln_rx_bs_count := 0, ln_rx_fc_pending := True,
                         ln_rx_fc_status := SYN_ISOTP_FC_CTS, ln_rx_state := SYN_ISOTP_RX_WAIT_CF,
                         ln_rx_timeout_timer_us := ln_n_cr_timeout_us l\<rparr>
             else l
         | None \<Rightarrow> l)"

definition rx_cf :: "isotp_link \<Rightarrow> can_frame \<Rightarrow> isotp_link" where
  "rx_cf l frame =
     (if ln_rx_state l \<noteq> SYN_ISOTP_RX_WAIT_CF then l
      else if cf_data frame ! 0 AND 0x0F = ln_rx_seq l
      then
        let frame_len = (if cf_dlc frame > 0 then unat (cf_dlc frame) else 8);
            rem = ln_rx_expected l - ln_rx_len l;
            in_cf = (if frame_len > 1 then frame_len - 1 else 0);
            cf_payload = (if in_cf > rem then rem else in_cf);
            l1 = l\<lparr>ln_rx_buf := Some (copy_into (the (ln_rx_buf l)) (ln_rx_len l) (take cf_payload (drop 1 (cf_data frame)))),
                   ln_rx_len := ln_rx_len l + cf_payload, ln_rx_seq := (ln_rx_seq l + 1) AND 0x0F, ln_rx_bs_count := ln_rx_bs_count l + 1\<rparr>
        in if ln_rx_len l1 \<ge> ln_rx_expected l1
           then l1\<lparr>ln_rx_state := SYN_ISOTP_RX_COMPLETE, ln_rx_timeout_timer_us := 0\<rparr>
           else
             let l2 = l1\<lparr>ln_rx_timeout_timer_us := ln_n_cr_timeout_us l1\<rparr>
             in if ln_rx_fc_bs l2 > 0 \<and> ln_rx_bs_count l2 \<ge> ln_rx_fc_bs l2
                then l2\<lparr>ln_rx_bs_count := 0, ln_rx_fc_pending := True, ln_rx_fc_status := SYN_ISOTP_FC_CTS\<rparr>
                else l2
      else l\<lparr>ln_rx_state := SYN_ISOTP_RX_IDLE, ln_rx_timeout_timer_us := 0\<rparr>)"

definition rx_fc :: "isotp_link \<Rightarrow> can_frame \<Rightarrow> isotp_link" where
  "rx_fc l frame =
     (if ln_tx_state l = SYN_ISOTP_TX_WAIT_FC
      then
        let fc_status = cf_data frame ! 0 AND 0x0F
        in if fc_status = SYN_ISOTP_FC_CTS
           then l\<lparr>ln_tx_bs := cf_data frame ! 1, ln_tx_st_min := cf_data frame ! 2, ln_tx_st_timer_us := 0, ln_tx_timeout_timer_us := 0,
                  ln_tx_state := SYN_ISOTP_TX_SEND_CF\<rparr>
           else if fc_status = SYN_ISOTP_FC_WAIT then l\<lparr>ln_tx_timeout_timer_us := ln_n_bs_timeout_us l\<rparr>
           else if fc_status = SYN_ISOTP_FC_OVERFLOW then l\<lparr>ln_tx_state := SYN_ISOTP_TX_IDLE, ln_tx_timeout_timer_us := 0\<rparr>
           else l
      else l)"

definition syn_isotp_process_rx_frame :: "isotp_link \<Rightarrow> can_frame \<Rightarrow> isotp_link" where
  "syn_isotp_process_rx_frame l frame =
     (if cf_id frame \<noteq> ln_rx_id l then l
      else
        let pci_type = cf_data frame ! 0 AND 0xF0
        in if pci_type = SYN_ISOTP_PCI_SF then rx_sf l frame
           else if pci_type = SYN_ISOTP_PCI_FF then rx_ff l frame
           else if pci_type = SYN_ISOTP_PCI_CF then rx_cf l frame
           else if pci_type = SYN_ISOTP_PCI_FC then rx_fc l frame
           else l)"

text \<open>The returned count is clamped to what a 16-bit \<^verbatim>\<open>ssize_t\<close> can hold.\<close>

definition syn_isotp_receive :: "isotp_link \<Rightarrow> nat \<Rightarrow> (int \<times> u8 list) \<times> isotp_link" where
  "syn_isotp_receive l max_len =
     (if ln_rx_state l = SYN_ISOTP_RX_COMPLETE
      then
        let copy_len = (if ln_rx_len l > max_len then max_len else ln_rx_len l)
        in ((if copy_len > 32767 then 32767 else int copy_len, take copy_len (the (ln_rx_buf l))), l\<lparr>ln_rx_state := SYN_ISOTP_RX_IDLE\<rparr>)
      else ((- 1, []), l))"

definition countdown :: "u32 \<Rightarrow> u32 \<Rightarrow> u32" where
  "countdown dt_us timer = (if dt_us \<ge> timer then 0 else timer - dt_us)"

definition syn_isotp_step_us :: "isotp_link \<Rightarrow> u32 \<Rightarrow> isotp_link" where
  "syn_isotp_step_us l dt_us =
     (let l1 = (if ln_tx_st_timer_us l > 0 then l\<lparr>ln_tx_st_timer_us := countdown dt_us (ln_tx_st_timer_us l)\<rparr> else l);
          l2 = (if ln_tx_state l1 = SYN_ISOTP_TX_WAIT_FC \<and> ln_tx_timeout_timer_us l1 > 0
                then if dt_us \<ge> ln_tx_timeout_timer_us l1
                     then l1\<lparr>ln_tx_timeout_timer_us := 0, ln_tx_state := SYN_ISOTP_TX_IDLE\<rparr>
                     else l1\<lparr>ln_tx_timeout_timer_us := ln_tx_timeout_timer_us l1 - dt_us\<rparr>
                else l1)
      in if ln_rx_state l2 = SYN_ISOTP_RX_WAIT_CF \<and> ln_rx_timeout_timer_us l2 > 0
         then if dt_us \<ge> ln_rx_timeout_timer_us l2
              then l2\<lparr>ln_rx_timeout_timer_us := 0, ln_rx_state := SYN_ISOTP_RX_IDLE\<rparr>
              else l2\<lparr>ln_rx_timeout_timer_us := ln_rx_timeout_timer_us l2 - dt_us\<rparr>
         else l2)"

definition syn_isotp_step :: "isotp_link \<Rightarrow> u32 \<Rightarrow> isotp_link" where
  "syn_isotp_step l dt_ms = syn_isotp_step_us l (dt_ms * 1000)"

definition syn_isotp_is_tx_idle :: "isotp_link \<Rightarrow> bool" where
  "syn_isotp_is_tx_idle l \<longleftrightarrow> ln_tx_state l = SYN_ISOTP_TX_IDLE"


subsection \<open>Memory safety\<close>

text \<open>Buffers keep their size and the counters stay inside them.\<close>

definition link_ok :: "nat \<Rightarrow> nat \<Rightarrow> isotp_link \<Rightarrow> bool" where
  "link_ok tm rm l \<longleftrightarrow> ln_tx_buf_size l = tm \<and> ln_rx_buf_size l = rm \<and> length (ln_tx_buf l) = tm \<and> ln_tx_len l \<le> tm
     \<and> (\<exists>b. ln_rx_buf l = Some b \<and> length b = rm)
     \<and> (ln_rx_state l \<noteq> SYN_ISOTP_RX_IDLE \<longrightarrow> ln_rx_len l \<le> rm)
     \<and> (ln_rx_state l = SYN_ISOTP_RX_WAIT_CF \<longrightarrow> ln_rx_len l \<le> ln_rx_expected l \<and> ln_rx_expected l \<le> rm)
     \<and> (ln_tx_state l = SYN_ISOTP_TX_SEND_SF \<longrightarrow> ln_tx_len l \<le> 7) \<and> (ln_tx_state l = SYN_ISOTP_TX_SEND_FF \<longrightarrow> 7 < ln_tx_len l)
     \<and> (ln_tx_state l = SYN_ISOTP_TX_WAIT_FC \<or> ln_tx_state l = SYN_ISOTP_TX_SEND_CF \<longrightarrow> ln_tx_offset l \<le> ln_tx_len l)"

lemma link_ok_irrelevant [simp]:
  "link_ok tm rm (l\<lparr>ln_tx_st_timer_us := x\<rparr>) = link_ok tm rm l"
  "link_ok tm rm (l\<lparr>ln_tx_timeout_timer_us := x\<rparr>) = link_ok tm rm l"
  "link_ok tm rm (l\<lparr>ln_rx_timeout_timer_us := x\<rparr>) = link_ok tm rm l"
  "link_ok tm rm (l\<lparr>ln_n_bs_timeout_us := x\<rparr>) = link_ok tm rm l"
  "link_ok tm rm (l\<lparr>ln_n_cr_timeout_us := x\<rparr>) = link_ok tm rm l"
  "link_ok tm rm (l\<lparr>ln_rx_fc_pending := y\<rparr>) = link_ok tm rm l"
  "link_ok tm rm (l\<lparr>ln_rx_fc_status := z\<rparr>) = link_ok tm rm l"
  "link_ok tm rm (l\<lparr>ln_rx_fc_bs := z\<rparr>) = link_ok tm rm l"
  "link_ok tm rm (l\<lparr>ln_rx_fc_stmin := z\<rparr>) = link_ok tm rm l"
  "link_ok tm rm (l\<lparr>ln_padding_byte := z\<rparr>) = link_ok tm rm l"
  by (simp_all add: link_ok_def)

lemma link_ok_idle:
  "link_ok tm rm l \<Longrightarrow> link_ok tm rm (l\<lparr>ln_tx_state := SYN_ISOTP_TX_IDLE\<rparr>)"
  "link_ok tm rm l \<Longrightarrow> link_ok tm rm (l\<lparr>ln_rx_state := SYN_ISOTP_RX_IDLE\<rparr>)"
  by (simp_all add: link_ok_def)

definition frame_ok :: "can_frame \<Rightarrow> bool" where
  "frame_ok f \<longleftrightarrow> length (cf_data f) = SYN_CAN_MAX_DATA_LEN \<and> unat (cf_dlc f) \<le> 8"

lemma tx_frame_ok: "length bytes \<le> 8 \<Longrightarrow> frame_ok (tx_frame l bytes)"
  by (simp add: frame_ok_def tx_frame_def SYN_CAN_MAX_DATA_LEN_def)

lemma send_ok: "link_ok tm rm l \<Longrightarrow> link_ok tm rm (snd (syn_isotp_send l p))"
  by (auto simp: syn_isotp_send_def link_ok_def Let_def split: option.split)

lemma get_tx_ok:
  assumes "link_ok tm rm l" "syn_isotp_get_tx_frame l = (f, l')"
  shows "link_ok tm rm l' \<and> (\<forall>x. f = Some x \<longrightarrow> frame_ok x)"
proof -
  have "(f, l') = tx_fc l \<or> (f, l') = tx_sf l \<and> ln_tx_state l = SYN_ISOTP_TX_SEND_SF \<or> (f, l') = tx_ff l \<and> ln_tx_state l = SYN_ISOTP_TX_SEND_FF
      \<or> (f, l') = tx_cf l \<and> ln_tx_state l = SYN_ISOTP_TX_SEND_CF \<or> (f, l') = (None, l)"
    using assms(2) by (auto simp: syn_isotp_get_tx_frame_def split: if_splits SYN_ISOTP_TxState.splits)
  then show ?thesis
  proof (elim disjE conjE)
    assume "(f, l') = tx_fc l"
    then show ?thesis using assms(1) by (auto simp: tx_fc_def link_ok_def intro!: tx_frame_ok)
  next
    assume "(f, l') = tx_sf l" "ln_tx_state l = SYN_ISOTP_TX_SEND_SF"
    then show ?thesis using assms(1) by (auto simp: tx_sf_def link_ok_def intro!: tx_frame_ok)
  next
    assume "(f, l') = tx_ff l" "ln_tx_state l = SYN_ISOTP_TX_SEND_FF"
    then show ?thesis using assms(1) by (auto simp: tx_ff_def link_ok_def Let_def intro!: tx_frame_ok)
  next
    assume a: "(f, l') = tx_cf l" "ln_tx_state l = SYN_ISOTP_TX_SEND_CF"
    have "frame_ok x" if "f = Some x" for x
      using a(1) that by (auto simp: tx_cf_def Let_def split: if_splits intro!: tx_frame_ok)
    moreover have "link_ok tm rm l'" using a assms(1) by (auto simp: tx_cf_def link_ok_def Let_def split: if_splits)
    ultimately show ?thesis by blast
  qed (use assms(1) in simp)
qed

lemma copy_front_length: "length buf = n \<Longrightarrow> k \<le> n \<Longrightarrow> length (copy_into buf 0 (take k xs)) = n"
  by (subst length_copy_into) simp_all

lemma rx_sf_ok:
  assumes "link_ok tm rm l"
  shows "link_ok tm rm (rx_sf l f)"
proof -
  let ?d = "cf_data f"
  obtain len1 off :: nat where p: "(if unat (?d ! 0 AND 0x0F) = 0 then (unat (?d ! 1), 2) else (unat (?d ! 0 AND 0x0F), 1)) = (len1, off)"
    by (cases "unat (?d ! 0 AND 0x0F) = 0") simp_all
  let ?cap = "if cf_dlc f > 0 then unat (cf_dlc f) else SYN_CAN_MAX_DATA_LEN"
  let ?mx = "if ?cap > off then ?cap - off else 0"
  define k where "k = (if len1 > ?mx then ?mx else len1)"
  show ?thesis
  proof (cases "ln_rx_buf l")
    case None
    then show ?thesis using assms unfolding rx_sf_def Let_def p prod.case by simp
  next
    case (Some buf)
    have eq: "rx_sf l f = (if k \<ge> 1 \<and> k \<le> ln_rx_buf_size l
         then l\<lparr>ln_rx_buf := Some (copy_into buf 0 (take k (drop off ?d))), ln_rx_len := k, ln_rx_state := SYN_ISOTP_RX_COMPLETE\<rparr> else l)"
      unfolding rx_sf_def Let_def p prod.case Some option.case k_def by (rule refl)
    show ?thesis using assms Some unfolding eq by (simp add: link_ok_def copy_front_length)
  qed
qed

lemma rx_ff_ok:
  assumes "link_ok tm rm l"
  shows "link_ok tm rm (rx_ff l f)"
proof -
  let ?d = "cf_data f"
  obtain ff off :: nat where p: "(if syn_peek_u16 ?d 0 AND 0x0FFF \<noteq> 0 then (unat (syn_peek_u16 ?d 0 AND 0x0FFF), 2)
      else (unat (syn_peek_u32 ?d 2), 6)) = (ff, off)" by (cases "syn_peek_u16 ?d 0 AND 0x0FFF \<noteq> 0") simp_all
  let ?fl = "if cf_dlc f > 0 then unat (cf_dlc f) else 8"
  let ?in = "if ?fl > off then ?fl - off else 0"
  define n where "n = (if ?in > ff then ff else ?in)"
  have n: "n \<le> ff" by (simp add: n_def)
  show ?thesis
  proof (cases "ln_rx_buf l")
    case None
    then show ?thesis using assms unfolding rx_ff_def Let_def p prod.case by simp
  next
    case (Some buf)
    have eq: "rx_ff l f = (if ff > 7 then if ff > ln_rx_buf_size l
         then l\<lparr>ln_rx_fc_pending := True, ln_rx_fc_status := SYN_ISOTP_FC_OVERFLOW, ln_rx_state := SYN_ISOTP_RX_IDLE\<rparr>
         else l\<lparr>ln_rx_buf := Some (copy_into buf 0 (take n (drop off ?d))), ln_rx_len := n, ln_rx_expected := ff, ln_rx_seq := 1, ln_rx_bs_count := 0,
            ln_rx_fc_pending := True, ln_rx_fc_status := SYN_ISOTP_FC_CTS, ln_rx_state := SYN_ISOTP_RX_WAIT_CF,
            ln_rx_timeout_timer_us := ln_n_cr_timeout_us l\<rparr> else l)"
      unfolding rx_ff_def Let_def p prod.case Some option.case n_def by (rule refl)
    show ?thesis using assms Some n unfolding eq by (simp add: link_ok_def copy_front_length)
  qed
qed

text \<open>An expected consecutive frame appends as many of its bytes as are still missing.\<close>

definition cf_payload_len :: "isotp_link \<Rightarrow> can_frame \<Rightarrow> nat" where
  "cf_payload_len l f =
     (let frame_len = (if cf_dlc f > 0 then unat (cf_dlc f) else 8) in min (frame_len - 1) (ln_rx_expected l - ln_rx_len l))"

definition cf_append :: "isotp_link \<Rightarrow> can_frame \<Rightarrow> isotp_link" where
  "cf_append l f =
     (let k = cf_payload_len l f in
      l\<lparr>ln_rx_buf := Some (copy_into (the (ln_rx_buf l)) (ln_rx_len l) (take k (drop 1 (cf_data f)))),
        ln_rx_len := ln_rx_len l + k, ln_rx_seq := (ln_rx_seq l + 1) AND 0x0F, ln_rx_bs_count := ln_rx_bs_count l + 1\<rparr>)"

lemma rx_cf_eq:
  "ln_rx_state l = SYN_ISOTP_RX_WAIT_CF \<Longrightarrow> cf_data f ! 0 AND 0x0F = ln_rx_seq l \<Longrightarrow> rx_cf l f =
    (let l1 = cf_append l f in
     if ln_rx_len l1 \<ge> ln_rx_expected l then l1\<lparr>ln_rx_state := SYN_ISOTP_RX_COMPLETE, ln_rx_timeout_timer_us := 0\<rparr>
     else if ln_rx_fc_bs l > 0 \<and> ln_rx_bs_count l1 \<ge> ln_rx_fc_bs l
     then l1\<lparr>ln_rx_timeout_timer_us := ln_n_cr_timeout_us l, ln_rx_bs_count := 0, ln_rx_fc_pending := True, ln_rx_fc_status := SYN_ISOTP_FC_CTS\<rparr>
     else l1\<lparr>ln_rx_timeout_timer_us := ln_n_cr_timeout_us l\<rparr>)"
proof -
  assume a: "ln_rx_state l = SYN_ISOTP_RX_WAIT_CF" "cf_data f ! 0 AND 0x0F = ln_rx_seq l"
  let ?fl = "if cf_dlc f > 0 then unat (cf_dlc f) else 8" and ?rem = "ln_rx_expected l - ln_rx_len l"
  have k: "(if (if ?fl > 1 then ?fl - 1 else 0) > ?rem then ?rem else (if ?fl > 1 then ?fl - 1 else 0)) = cf_payload_len l f"
    unfolding cf_payload_len_def Let_def by (simp split: if_splits)
  show ?thesis using a unfolding rx_cf_def Let_def k cf_append_def by simp
qed

lemma rx_cf_ok:
  assumes "link_ok tm rm l"
  shows "link_ok tm rm (rx_cf l f)"
proof (cases "ln_rx_state l = SYN_ISOTP_RX_WAIT_CF \<and> cf_data f ! 0 AND 0x0F = ln_rx_seq l")
  case True
  let ?k = "cf_payload_len l f"
  have "?k \<le> ln_rx_expected l - ln_rx_len l" by (simp add: cf_payload_len_def Let_def)
  moreover have "ln_rx_len l \<le> ln_rx_expected l" using assms True by (simp add: link_ok_def)
  ultimately have k: "ln_rx_len l + ?k \<le> ln_rx_expected l" by linarith
  obtain b where b: "ln_rx_buf l = Some b" "length b = rm" "ln_rx_expected l \<le> rm" using assms True by (auto simp: link_ok_def)
  have "length (copy_into b (ln_rx_len l) (take ?k (drop 1 (cf_data f)))) = rm"
    using b k by (subst length_copy_into) simp_all
  then have "link_ok tm rm (cf_append l f)" "ln_rx_state (cf_append l f) = SYN_ISOTP_RX_WAIT_CF"
    using assms True b k by (simp_all add: link_ok_def cf_append_def Let_def)
  then show ?thesis using True by (simp add: rx_cf_eq Let_def link_ok_def)
next
  case False
  then show ?thesis using assms by (auto simp: rx_cf_def link_ok_def)
qed

lemma rx_fc_ok:
  assumes "link_ok tm rm l"
  shows "link_ok tm rm (rx_fc l f)"
  using assms unfolding rx_fc_def link_ok_def by (auto simp: Let_def)

lemma process_rx_ok: "link_ok tm rm l \<Longrightarrow> link_ok tm rm (syn_isotp_process_rx_frame l f)"
  by (simp add: syn_isotp_process_rx_frame_def Let_def rx_sf_ok rx_ff_ok rx_cf_ok rx_fc_ok)

lemma step_ok: "link_ok tm rm l \<Longrightarrow> link_ok tm rm (syn_isotp_step_us l dt)"
proof -
  have st: "link_ok tm rm x \<Longrightarrow> link_ok tm rm (if p then x\<lparr>ln_tx_st_timer_us := u\<rparr> else x)"
    and tx: "link_ok tm rm x \<Longrightarrow> link_ok tm rm (if p then if q then x\<lparr>ln_tx_timeout_timer_us := 0, ln_tx_state := SYN_ISOTP_TX_IDLE\<rparr>
           else x\<lparr>ln_tx_timeout_timer_us := u\<rparr> else x)"
    and rx: "link_ok tm rm x \<Longrightarrow> link_ok tm rm (if p then if q then x\<lparr>ln_rx_timeout_timer_us := 0, ln_rx_state := SYN_ISOTP_RX_IDLE\<rparr>
           else x\<lparr>ln_rx_timeout_timer_us := u\<rparr> else x)" for x p q u
    by (simp_all add: link_ok_idle)
  assume "link_ok tm rm l"
  then show ?thesis unfolding syn_isotp_step_us_def Let_def by (intro rx tx st)
qed

lemma receive_ok: "link_ok tm rm l \<Longrightarrow> link_ok tm rm (snd (syn_isotp_receive l n)) \<and> length (snd (fst (syn_isotp_receive l n))) \<le> n"
  by (auto simp: syn_isotp_receive_def link_ok_def Let_def)

datatype isotp_event = Ev_Send "u8 list option" | Ev_Rx can_frame | Ev_Get_Tx | Ev_Receive nat | Ev_Step_us u32
  | Ev_Fc_Params u8 u8 | Ev_Padding u8 | Ev_Timeouts u32 u32

text \<open>The link after an event, and the frame put on the bus, if any.\<close>

fun do_event :: "isotp_event \<Rightarrow> isotp_link \<Rightarrow> can_frame option \<times> isotp_link" where
  "do_event (Ev_Send p) l = (None, snd (syn_isotp_send l p))"
| "do_event (Ev_Rx f) l = (None, syn_isotp_process_rx_frame l f)"
| "do_event Ev_Get_Tx l = syn_isotp_get_tx_frame l"
| "do_event (Ev_Receive n) l = (None, snd (syn_isotp_receive l n))"
| "do_event (Ev_Step_us dt) l = (None, syn_isotp_step_us l dt)"
| "do_event (Ev_Fc_Params bs st) l = (None, syn_isotp_set_fc_params l bs st)"
| "do_event (Ev_Padding b) l = (None, syn_isotp_set_padding l b)"
| "do_event (Ev_Timeouts a b) l = (None, syn_isotp_set_timeouts l a b)"

fun isotp_events :: "isotp_event list \<Rightarrow> isotp_link \<Rightarrow> can_frame list \<times> isotp_link" where
  "isotp_events [] l = ([], l)"
| "isotp_events (e # es) l =
     (case do_event e l of (f, l1) \<Rightarrow> case isotp_events es l1 of (fs, l2) \<Rightarrow> ((case f of None \<Rightarrow> fs | Some x \<Rightarrow> x # fs), l2))"

lemma isotp_event_ok:
  assumes "link_ok tm rm l" "do_event e l = (f, l')"
  shows "link_ok tm rm l' \<and> (\<forall>x. f = Some x \<longrightarrow> frame_ok x)"
proof (cases e)
  case Ev_Get_Tx
  then show ?thesis using assms get_tx_ok by simp
next
  case (Ev_Send p)
  then show ?thesis using assms send_ok [of tm rm l p] by simp
next
  case (Ev_Rx g)
  then show ?thesis using assms process_rx_ok [of tm rm l g] by simp
next
  case (Ev_Receive n)
  then show ?thesis using assms receive_ok [of tm rm l n] by simp
next
  case (Ev_Step_us dt)
  then show ?thesis using assms step_ok [of tm rm l dt] by simp
next
  case (Ev_Fc_Params bs st)
  then show ?thesis using assms by (auto simp: syn_isotp_set_fc_params_def)
next
  case (Ev_Padding b)
  then show ?thesis using assms by (auto simp: syn_isotp_set_padding_def)
next
  case (Ev_Timeouts a b)
  then show ?thesis using assms by (auto simp: syn_isotp_set_timeouts_def simp del: if_split)
qed

lemma isotp_events_ok:
  "link_ok tm rm l \<Longrightarrow> isotp_events es l = (fs, l') \<Longrightarrow> link_ok tm rm l' \<and> list_all frame_ok fs"
proof (induction es arbitrary: l fs)
  case (Cons e es)
  obtain f l1 where e: "do_event e l = (f, l1)" by (cases "do_event e l")
  obtain gs where r: "isotp_events es l1 = (gs, l')" "fs = (case f of None \<Rightarrow> gs | Some x \<Rightarrow> x # gs)"
    using Cons.prems(2) by (auto simp: e split: prod.splits)
  from isotp_event_ok [OF Cons.prems(1) e] Cons.IH [OF _ r(1)] show ?case by (auto simp: r(2) split: option.split)
qed simp

text \<open>
  C33: Whatever frames arrive and whatever the application does, in any order, an initialised link writes its buffers only within their sizes,
  keeps its counters inside them, and emits only frames of eight data bytes.
\<close>

theorem isotp_memory_safe:
  assumes "length tx_buf = tx_size" "length rx_buf = rx_size"
    "isotp_events es (syn_isotp_init rx_id tx_id (Some rx_buf) rx_size tx_buf tx_size) = (fs, l)"
  shows "(\<exists>b. ln_rx_buf l = Some b \<and> length b = rx_size) \<and> length (ln_tx_buf l) = tx_size \<and> ln_tx_len l \<le> tx_size
    \<and> (ln_rx_state l \<noteq> SYN_ISOTP_RX_IDLE \<longrightarrow> ln_rx_len l \<le> rx_size) \<and> list_all frame_ok fs"
proof -
  have "link_ok tx_size rx_size (syn_isotp_init rx_id tx_id (Some rx_buf) rx_size tx_buf tx_size)"
    using assms(1,2) by (simp add: link_ok_def syn_isotp_init_def)
  from isotp_events_ok [OF this assms(3)] have "link_ok tx_size rx_size l" "list_all frame_ok fs" by simp_all
  then show ?thesis by (simp add: link_ok_def)
qed

theorem isotp_memory_safe_witness:
  "let (fs, l) = isotp_events [Ev_Send (Some [1, 2, 3]), Ev_Get_Tx, Ev_Receive 4] (syn_isotp_init 1 2 (Some [0, 0, 0]) 3 [0, 0, 0, 0] 4)
   in length (ln_tx_buf l) = 4 \<and> list_all frame_ok fs"
proof -
  let ?r = "isotp_events [Ev_Send (Some [1, 2, 3]), Ev_Get_Tx, Ev_Receive 4] (syn_isotp_init 1 2 (Some [0, 0, 0]) 3 [0, 0, 0, 0] 4)"
  from isotp_memory_safe [of "[0, 0, 0, 0]" 4 "[0, 0, 0]" 3 "[Ev_Send (Some [1, 2, 3]), Ev_Get_Tx, Ev_Receive 4]" 1 2 "fst ?r" "snd ?r"]
  show ?thesis by (simp add: case_prod_beta)
qed

subsection \<open>Transfer of a message\<close>

lemma tx_frame_data:
  "length bytes \<le> 8 \<Longrightarrow> cf_data (tx_frame l bytes) = bytes @ replicate (8 - length bytes) (ln_padding_byte l)"
  by (simp add: tx_frame_def copy_into_def SYN_CAN_MAX_DATA_LEN_def)

lemma ucast_u8: "unat (ucast (x :: u8) :: u32) = unat x"
proof -
  have "unat x < 2 ^ 32" using unsigned_less [of x] by (rule less_le_trans) simp
  then show ?thesis by (simp add: unsigned_ucast_eq take_bit_nat_eq_self)
qed

lemma stmin_bound: "syn_isotp_decode_stmin_us x \<le> 127000"
proof -
  have lt: "unat x < 256" using unsigned_less [of x] by simp
  have "unat (syn_isotp_decode_stmin_us x) \<le> 127000"
  proof (cases "x \<le> 0x7F")
    case True
    then have "unat x \<le> 127" by (simp add: word_le_nat_alt)
    then show ?thesis using True lt by (simp add: syn_isotp_decode_stmin_us_def unat_word_ariths ucast_u8)
  next
    case False
    show ?thesis
    proof (cases "x \<ge> 0xF1 \<and> x \<le> 0xF9")
      case True
      have "unat (x - 0xF0) < 2 ^ 8" using unsigned_less [of "x - 0xF0"] by simp
      then show ?thesis using True False by (simp add: syn_isotp_decode_stmin_us_def unat_word_ariths ucast_u8)
    qed (use False in \<open>auto simp: syn_isotp_decode_stmin_us_def\<close>)
  qed
  then show ?thesis by (simp add: word_le_nat_alt)
qed

text \<open>The PCI byte: type in the high nibble, value in the low one.\<close>

lemma pci_nibbles:
  fixes s :: u8
  shows "(h OR (s AND 0x0F)) AND 0xF0 = h AND 0xF0" "h AND 0x0F = 0 \<Longrightarrow> (h OR (s AND 0x0F)) AND 0x0F = s AND 0x0F"
proof -
  have m: "(0x0F :: u8) AND 0xF0 = 0" by simp
  have "(h OR (s AND 0x0F)) AND 0xF0 = (h AND 0xF0) OR (s AND (0x0F AND 0xF0))" by (simp add: bit.conj_disj_distrib2 and.assoc)
  then show "(h OR (s AND 0x0F)) AND 0xF0 = h AND 0xF0" by (simp add: m)
  assume "h AND 0x0F = 0"
  then show "(h OR (s AND 0x0F)) AND 0x0F = s AND 0x0F" by (simp add: bit.conj_disj_distrib2 and.assoc)
qed

definition sender_at :: "u8 list \<Rightarrow> nat \<Rightarrow> u8 \<Rightarrow> isotp_link \<Rightarrow> bool" where
  "sender_at p k s a \<longleftrightarrow> \<not> ln_rx_fc_pending a \<and> ln_tx_len a = length p \<and> take (length p) (ln_tx_buf a) = p \<and> ln_tx_offset a = k \<and> ln_tx_seq a = s"

lemma step_sender:
  assumes "ln_tx_state a \<noteq> SYN_ISOTP_TX_WAIT_FC" "ln_tx_st_timer_us a \<le> dt"
  shows "ln_tx_st_timer_us (syn_isotp_step_us a dt) = 0" "ln_tx_state (syn_isotp_step_us a dt) = ln_tx_state a"
    "sender_at p k s (syn_isotp_step_us a dt) = sender_at p k s a"
    "ln_tx_bs (syn_isotp_step_us a dt) = ln_tx_bs a" "ln_tx_bs_count (syn_isotp_step_us a dt) = ln_tx_bs_count a"
    "ln_tx_st_min (syn_isotp_step_us a dt) = ln_tx_st_min a" "ln_tx_id (syn_isotp_step_us a dt) = ln_tx_id a"
    "ln_rx_id (syn_isotp_step_us a dt) = ln_rx_id a"
  using assms by (auto simp: syn_isotp_step_us_def Let_def countdown_def sender_at_def word_gt_0)

definition cf_bytes :: "u8 list \<Rightarrow> nat \<Rightarrow> u8 \<Rightarrow> u8 list" where
  "cf_bytes p k s = (SYN_ISOTP_PCI_CF OR (s AND 0x0F)) # take 7 (drop k p)"

text \<open>A sender with data left emits the next consecutive frame.\<close>

definition block_full :: "isotp_link \<Rightarrow> bool" where
  "block_full a \<longleftrightarrow> 0 < ln_tx_bs a \<and> ln_tx_bs a \<le> ln_tx_bs_count a + 1"

lemma tx_cf_eq:
  assumes "ln_tx_st_timer_us a = 0" "ln_tx_offset a < ln_tx_len a" "ln_tx_state a = SYN_ISOTP_TX_SEND_CF"
  defines "n \<equiv> min 7 (ln_tx_len a - ln_tx_offset a)"
  defines "mor \<equiv> ln_tx_offset a + n < ln_tx_len a"
  shows "tx_cf a = (Some (tx_frame a ((SYN_ISOTP_PCI_CF OR (ln_tx_seq a AND 0x0F)) # take n (drop (ln_tx_offset a) (ln_tx_buf a)))),
    a\<lparr>ln_tx_offset := ln_tx_offset a + n, ln_tx_seq := (ln_tx_seq a + 1) AND 0x0F, ln_tx_st_timer_us := syn_isotp_decode_stmin_us (ln_tx_st_min a),
      ln_tx_bs_count := (if 0 < ln_tx_bs a then if block_full a \<and> mor then 0 else ln_tx_bs_count a + 1 else ln_tx_bs_count a),
      ln_tx_state := (if mor then if block_full a then SYN_ISOTP_TX_WAIT_FC else SYN_ISOTP_TX_SEND_CF else SYN_ISOTP_TX_IDLE),
      ln_tx_timeout_timer_us := (if block_full a \<and> mor then ln_n_bs_timeout_us a else ln_tx_timeout_timer_us a)\<rparr>)"
proof -
  have rem: "ln_tx_len a - ln_tx_offset a \<noteq> 0" using assms(2) by simp
  have n: "(if ln_tx_len a - ln_tx_offset a > 7 then 7 else ln_tx_len a - ln_tx_offset a) = n" by (simp add: n_def)
  have m: "ln_tx_len a \<le> ln_tx_offset a + n \<longleftrightarrow> \<not> mor" by (simp add: mor_def not_less)
  show ?thesis
    using assms(1,3) rem unfolding tx_cf_def Let_def n block_full_def
    by (cases "0 < ln_tx_bs a"; cases "ln_tx_bs a \<le> ln_tx_bs_count a + 1"; cases mor) (simp_all add: m mor_def [symmetric])
qed

lemma sender_emits:
  assumes "sender_at p k s a" "ln_tx_state a = SYN_ISOTP_TX_SEND_CF" "k < length p" "ln_tx_st_timer_us a = 0" "syn_isotp_get_tx_frame a = (f, a')"
  shows "f = Some (tx_frame a (cf_bytes p k s))" "ln_tx_id a' = ln_tx_id a" "ln_rx_id a' = ln_rx_id a" "ln_tx_bs a' = ln_tx_bs a" "ln_tx_st_min a' = ln_tx_st_min a"
    "ln_tx_st_timer_us a' \<le> 127000"
    "length p \<le> k + 7 \<Longrightarrow> ln_tx_state a' = SYN_ISOTP_TX_IDLE" "k + 7 < length p \<Longrightarrow> sender_at p (k + 7) ((s + 1) AND 0x0F) a'"
    "k + 7 < length p \<Longrightarrow> ln_tx_state a' = (if block_full a then SYN_ISOTP_TX_WAIT_FC else SYN_ISOTP_TX_SEND_CF)"
    "k + 7 < length p \<Longrightarrow> 0 < ln_tx_bs a \<Longrightarrow> ln_tx_bs_count a' = (if block_full a then 0 else ln_tx_bs_count a + 1)"
proof -
  have a: "ln_tx_offset a = k" "ln_tx_len a = length p" "ln_tx_seq a = s" "\<not> ln_rx_fc_pending a" and buf: "take (length p) (ln_tx_buf a) = p"
    using assms(1) by (simp_all add: sender_at_def)
  have g: "(f, a') = tx_cf a" using assms(2,5) a by (simp add: syn_isotp_get_tx_frame_def)
  note E = tx_cf_eq [OF assms(4) _ assms(2), unfolded a, OF assms(3)]
  have tk: "take (min 7 (length p - k)) (drop k (ln_tx_buf a)) = take 7 (drop k p)"
  proof -
    have "drop k p = take (length p - k) (drop k (ln_tx_buf a))" using buf by (metis drop_take)
    then show ?thesis by (metis take_take)
  qed
  show "f = Some (tx_frame a (cf_bytes p k s))" using g E tk by (simp add: cf_bytes_def)
  show "ln_tx_id a' = ln_tx_id a" "ln_rx_id a' = ln_rx_id a" "ln_tx_bs a' = ln_tx_bs a" "ln_tx_st_min a' = ln_tx_st_min a"
    "ln_tx_st_timer_us a' \<le> 127000"
    using g E stmin_bound by simp_all
  show "length p \<le> k + 7 \<Longrightarrow> ln_tx_state a' = SYN_ISOTP_TX_IDLE" using g E assms(3) by simp
  assume m: "k + 7 < length p"
  then have n: "min 7 (length p - k) = 7" by simp
  show "sender_at p (k + 7) ((s + 1) AND 0x0F) a'" using g E m a buf by (simp add: sender_at_def n)
  show "ln_tx_state a' = (if block_full a then SYN_ISOTP_TX_WAIT_FC else SYN_ISOTP_TX_SEND_CF)" using g E m by (simp add: n)
  show "0 < ln_tx_bs a \<Longrightarrow> ln_tx_bs_count a' = (if block_full a then 0 else ln_tx_bs_count a + 1)" using g E m by (simp add: n)
qed


subsection \<open>The receiving side\<close>

definition receiver_at :: "u8 list \<Rightarrow> nat \<Rightarrow> u8 \<Rightarrow> isotp_link \<Rightarrow> bool" where
  "receiver_at p k s b \<longleftrightarrow> ln_tx_state b = SYN_ISOTP_TX_IDLE \<and> ln_rx_state b = SYN_ISOTP_RX_WAIT_CF \<and> ln_rx_expected b = length p
     \<and> ln_rx_len b = k \<and> ln_rx_seq b = s \<and> (\<exists>buf. ln_rx_buf b = Some buf \<and> length p \<le> length buf \<and> take k buf = take k p)"

definition received :: "u8 list \<Rightarrow> isotp_link \<Rightarrow> bool" where
  "received p b \<longleftrightarrow> ln_rx_state b = SYN_ISOTP_RX_COMPLETE \<and> ln_rx_len b = length p
     \<and> (\<exists>buf. ln_rx_buf b = Some buf \<and> length p \<le> length buf \<and> take (length p) buf = p)"

lemma step_receiver:
  assumes "receiver_at p k s b" "dt < ln_rx_timeout_timer_us b"
  shows "receiver_at p k s (syn_isotp_step_us b dt)" "ln_rx_fc_pending (syn_isotp_step_us b dt) = ln_rx_fc_pending b"
    "ln_rx_fc_bs (syn_isotp_step_us b dt) = ln_rx_fc_bs b" "ln_rx_fc_stmin (syn_isotp_step_us b dt) = ln_rx_fc_stmin b"
    "ln_rx_bs_count (syn_isotp_step_us b dt) = ln_rx_bs_count b" "ln_n_cr_timeout_us (syn_isotp_step_us b dt) = ln_n_cr_timeout_us b"
    "ln_tx_id (syn_isotp_step_us b dt) = ln_tx_id b" "ln_rx_id (syn_isotp_step_us b dt) = ln_rx_id b"
  using assms by (auto simp: syn_isotp_step_us_def Let_def receiver_at_def)

lemma take_copy_into: "k \<le> length buf \<Longrightarrow> take (k + length xs) (copy_into buf k xs) = take k buf @ xs"
  by (simp add: copy_into_def)

text \<open>The expected consecutive frame extends what was received.\<close>

lemma receiver_appends:
  assumes "receiver_at p k s b" "k < length p" "cf_data f = cf_bytes p k s @ pad" "cf_dlc f = 8" "s AND 0x0F = s" "cf_id f = ln_rx_id b"
  defines "b' \<equiv> syn_isotp_process_rx_frame b f"
  defines "fin \<equiv> length p \<le> k + 7"
  defines "ask \<equiv> 0 < ln_rx_fc_bs b \<and> ln_rx_fc_bs b \<le> ln_rx_bs_count b + 1"
  shows "fin \<Longrightarrow> received p b'" "fin \<Longrightarrow> ln_rx_fc_pending b' = ln_rx_fc_pending b" "ln_tx_state b' = SYN_ISOTP_TX_IDLE"
    "\<not> fin \<Longrightarrow> receiver_at p (k + 7) ((s + 1) AND 0x0F) b'"
    "\<not> fin \<Longrightarrow> ln_rx_fc_pending b' = (if ask then True else ln_rx_fc_pending b)"
    "\<not> fin \<Longrightarrow> ask \<Longrightarrow> ln_rx_fc_status b' = SYN_ISOTP_FC_CTS"
    "\<not> fin \<Longrightarrow> ln_rx_bs_count b' = (if ask then 0 else ln_rx_bs_count b + 1)" "\<not> fin \<Longrightarrow> ln_rx_timeout_timer_us b' = ln_n_cr_timeout_us b"
    "ln_rx_fc_bs b' = ln_rx_fc_bs b" "ln_rx_fc_stmin b' = ln_rx_fc_stmin b" "ln_n_cr_timeout_us b' = ln_n_cr_timeout_us b"
    "ln_tx_id b' = ln_tx_id b" "ln_rx_id b' = ln_rx_id b"
proof -
  obtain buf where b: "ln_rx_state b = SYN_ISOTP_RX_WAIT_CF" "ln_rx_expected b = length p" "ln_rx_len b = k" "ln_rx_seq b = s"
    "ln_tx_state b = SYN_ISOTP_TX_IDLE" and buf: "ln_rx_buf b = Some buf" "length p \<le> length buf" "take k buf = take k p"
    using assms(1) by (auto simp: receiver_at_def)
  have d0: "cf_data f ! 0 = SYN_ISOTP_PCI_CF OR (s AND 0x0F)" by (simp add: assms(3) cf_bytes_def)
  have "cf_data f ! 0 AND 0x0F = s AND 0x0F" unfolding d0 by (rule pci_nibbles(2)) (simp add: SYN_ISOTP_PCI_CF_def)
  moreover have "cf_data f ! 0 AND 0xF0 = SYN_ISOTP_PCI_CF" unfolding d0 pci_nibbles(1) by (simp add: SYN_ISOTP_PCI_CF_def)
  ultimately have pci: "cf_data f ! 0 AND 0xF0 = SYN_ISOTP_PCI_CF" "cf_data f ! 0 AND 0x0F = s" using assms(5) by simp_all
  have proc: "b' = rx_cf b f"
    unfolding b'_def syn_isotp_process_rx_frame_def Let_def pci(1)
    by (simp add: assms(6) SYN_ISOTP_PCI_SF_def SYN_ISOTP_PCI_FF_def SYN_ISOTP_PCI_CF_def)
  define n where "n = min 7 (length p - k)"
  have pay: "cf_payload_len b f = n" by (simp add: cf_payload_len_def assms(4) b n_def)
  have bytes: "take n (drop 1 (cf_data f)) = take n (drop k p)" unfolding assms(3) cf_bytes_def by (simp add: n_def)
  have ln: "length (take n (drop k p)) = n" by (simp add: n_def)
  let ?buf = "copy_into buf k (take n (drop k p))"
  have app: "cf_append b f = b\<lparr>ln_rx_buf := Some ?buf, ln_rx_len := k + n, ln_rx_seq := (s + 1) AND 0x0F, ln_rx_bs_count := ln_rx_bs_count b + 1\<rparr>"
    unfolding cf_append_def Let_def pay bytes by (simp add: b buf)
  have "take (k + n) ?buf = take k p @ take n (drop k p)"
    using take_copy_into [of k buf "take n (drop k p)"] assms(2) buf ln by simp
  then have tk: "take (k + n) ?buf = take (k + n) p" by (simp add: take_add)
  have lb: "length ?buf = length buf" using assms(2) buf(2) ln by (subst length_copy_into) (auto simp: n_def)
  note E = rx_cf_eq [OF b(1) pci(2) [folded b(4)], unfolded app b(2)]
  have fin: "fin \<longleftrightarrow> length p \<le> k + n" using assms(2) by (auto simp: fin_def n_def)
  show "ln_tx_state b' = SYN_ISOTP_TX_IDLE" "ln_rx_fc_bs b' = ln_rx_fc_bs b" "ln_rx_fc_stmin b' = ln_rx_fc_stmin b"
    "ln_n_cr_timeout_us b' = ln_n_cr_timeout_us b" "ln_tx_id b' = ln_tx_id b" "ln_rx_id b' = ln_rx_id b"
    unfolding proc E Let_def using b(5) by auto
  {
    assume f: fin
    then have n: "k + n = length p" using assms(2) by (auto simp: fin_def n_def)
    have e: "b' = b\<lparr>ln_rx_buf := Some ?buf, ln_rx_len := k + n, ln_rx_seq := (s + 1) AND 0x0F, ln_rx_bs_count := ln_rx_bs_count b + 1,
        ln_rx_state := SYN_ISOTP_RX_COMPLETE, ln_rx_timeout_timer_us := 0\<rparr>" unfolding proc E Let_def using f fin by simp
    show "received p b'" "ln_rx_fc_pending b' = ln_rx_fc_pending b" using tk lb buf(2) n by (simp_all add: e received_def)
  next
    assume f: "\<not> fin"
    then have n: "n = 7" by (simp add: fin_def n_def)
    have e: "b' = (let b1 = b\<lparr>ln_rx_buf := Some ?buf, ln_rx_len := k + 7, ln_rx_seq := (s + 1) AND 0x0F, ln_rx_bs_count := ln_rx_bs_count b + 1,
          ln_rx_timeout_timer_us := ln_n_cr_timeout_us b\<rparr>
        in if ask then b1\<lparr>ln_rx_bs_count := 0, ln_rx_fc_pending := True, ln_rx_fc_status := SYN_ISOTP_FC_CTS\<rparr> else b1)"
      unfolding proc E Let_def ask_def using f fin n by simp
    show "receiver_at p (k + 7) ((s + 1) AND 0x0F) b'"
      using tk lb buf(2) b unfolding e Let_def by (auto simp: receiver_at_def n)
    show "ln_rx_fc_pending b' = (if ask then True else ln_rx_fc_pending b)" "ask \<Longrightarrow> ln_rx_fc_status b' = SYN_ISOTP_FC_CTS"
      "ln_rx_bs_count b' = (if ask then 0 else ln_rx_bs_count b + 1)" "ln_rx_timeout_timer_us b' = ln_n_cr_timeout_us b"
      unfolding e Let_def by simp_all
  }
qed

text \<open>A flow-control frame to continue releases the sender.\<close>

definition fc_bytes :: "isotp_link \<Rightarrow> u8 list" where
  "fc_bytes b = [SYN_ISOTP_PCI_FC OR ln_rx_fc_status b, ln_rx_fc_bs b, ln_rx_fc_stmin b]"

lemma sender_released:
  assumes "ln_tx_state a = SYN_ISOTP_TX_WAIT_FC" "ln_rx_fc_status b = SYN_ISOTP_FC_CTS" "cf_data f = fc_bytes b @ pad" "cf_id f = ln_rx_id a"
  shows "syn_isotp_process_rx_frame a f = a\<lparr>ln_tx_bs := ln_rx_fc_bs b, ln_tx_st_min := ln_rx_fc_stmin b, ln_tx_st_timer_us := 0,
    ln_tx_timeout_timer_us := 0, ln_tx_state := SYN_ISOTP_TX_SEND_CF\<rparr>"
  using assms by (simp add: syn_isotp_process_rx_frame_def rx_fc_def fc_bytes_def SYN_ISOTP_PCI_FC_def SYN_ISOTP_FC_CTS_def SYN_ISOTP_PCI_SF_def
      SYN_ISOTP_PCI_FF_def SYN_ISOTP_PCI_CF_def)


subsection \<open>Two links on a bus\<close>

text \<open>
  One round of two nodes that poll their links: time passes on both, the first sends what it has, the second processes it and sends what it has.
\<close>

definition deliver :: "can_frame option \<Rightarrow> isotp_link \<Rightarrow> isotp_link" where
  "deliver f l = (case f of None \<Rightarrow> l | Some x \<Rightarrow> syn_isotp_process_rx_frame l x)"

definition isotp_round :: "u32 \<Rightarrow> isotp_link \<times> isotp_link \<Rightarrow> isotp_link \<times> isotp_link" where
  "isotp_round dt = (\<lambda>(a, b).
     let (fa, a1) = syn_isotp_get_tx_frame (syn_isotp_step_us a dt);
         (fb, b1) = syn_isotp_get_tx_frame (deliver fa (syn_isotp_step_us b dt))
     in (deliver fb a1, b1))"

definition in_transfer :: "u8 list \<Rightarrow> nat \<Rightarrow> u8 \<Rightarrow> u32 \<Rightarrow> isotp_link \<Rightarrow> isotp_link \<Rightarrow> bool" where
  "in_transfer p k s dt a b \<longleftrightarrow> sender_at p k s a \<and> ln_tx_state a = SYN_ISOTP_TX_SEND_CF \<and> ln_tx_st_timer_us a \<le> dt
     \<and> ln_tx_bs a = ln_rx_fc_bs b \<and> receiver_at p k s b \<and> \<not> ln_rx_fc_pending b \<and> dt < ln_n_cr_timeout_us b
     \<and> ln_rx_timeout_timer_us b = ln_n_cr_timeout_us b \<and> s AND 0x0F = s \<and> k < length p
     \<and> (0 < ln_rx_fc_bs b \<longrightarrow> ln_tx_bs_count a = ln_rx_bs_count b) \<and> ln_tx_id a = ln_rx_id b \<and> ln_rx_id a = ln_tx_id b"

lemma get_tx_idle: "ln_tx_state b = SYN_ISOTP_TX_IDLE \<Longrightarrow> syn_isotp_get_tx_frame b = (if ln_rx_fc_pending b then tx_fc b else (None, b))"
  by (simp add: syn_isotp_get_tx_frame_def)

lemma tx_fc_eq: "tx_fc b = (Some (tx_frame b (fc_bytes b)), b\<lparr>ln_rx_fc_pending := False\<rparr>)"
  by (simp add: tx_fc_def fc_bytes_def)

lemma cf_bytes_length: "length (cf_bytes p k s) \<le> 8"
  by (simp add: cf_bytes_def)

lemma tx_frame_head: "cf_id (tx_frame l bs) = ln_tx_id l" "cf_dlc (tx_frame l bs) = 8"
  by (simp_all add: tx_frame_def)

text \<open>If the receiver asks for the next block, the sender has stopped for it.\<close>

lemma round_release:
  assumes "sender_at p k s a" "ln_tx_state a = SYN_ISOTP_TX_WAIT_FC" "receiver_at p k s b" "ln_rx_fc_pending b" "ln_rx_fc_status b = SYN_ISOTP_FC_CTS"
    "dt < ln_n_cr_timeout_us b" "ln_rx_timeout_timer_us b = ln_n_cr_timeout_us b" "s AND 0x0F = s" "k < length p"
    "0 < ln_rx_fc_bs b \<longrightarrow> ln_tx_bs_count a = ln_rx_bs_count b" "ln_tx_id a = ln_rx_id b" "ln_rx_id a = ln_tx_id b"
    "syn_isotp_get_tx_frame b = (fb, b')"
  shows "in_transfer p k s dt (deliver fb a) b'"
proof -
  have g: "fb = Some (tx_frame b (fc_bytes b))" "b' = b\<lparr>ln_rx_fc_pending := False\<rparr>"
    using assms(3,4,13) by (simp_all add: get_tx_idle receiver_at_def tx_fc_eq)
  have "deliver fb a = a\<lparr>ln_tx_bs := ln_rx_fc_bs b, ln_tx_st_min := ln_rx_fc_stmin b, ln_tx_st_timer_us := 0,
      ln_tx_timeout_timer_us := 0, ln_tx_state := SYN_ISOTP_TX_SEND_CF\<rparr>"
    unfolding deliver_def g(1) option.case
    by (rule sender_released [OF assms(2,5), where pad = "replicate 5 (ln_padding_byte b)"]) (simp_all add: tx_frame_data tx_frame_head fc_bytes_def assms(12))
  then show ?thesis using assms(1,3,6-12) g(2) by (simp add: in_transfer_def sender_at_def receiver_at_def)
qed

lemma round_cf:
  assumes "in_transfer p k s dt a b" "127000 \<le> dt" "isotp_round dt (a, b) = (a', b')"
  shows "if length p \<le> k + 7 then received p b' \<and> ln_tx_state a' = SYN_ISOTP_TX_IDLE else in_transfer p (k + 7) ((s + 1) AND 0x0F) dt a' b'"
proof -
  note T = assms(1) [unfolded in_transfer_def]
  let ?a = "syn_isotp_step_us a dt" and ?b = "syn_isotp_step_us b dt"
  have na: "ln_tx_state a \<noteq> SYN_ISOTP_TX_WAIT_FC" "ln_tx_st_timer_us a \<le> dt" by (simp_all add: T)
  have nb: "receiver_at p k s b" "dt < ln_rx_timeout_timer_us b" by (simp_all add: T)
  note A = step_sender [OF na] and B = step_receiver [OF nb]
  have a: "sender_at p k s ?a" "ln_tx_state ?a = SYN_ISOTP_TX_SEND_CF" "ln_tx_st_timer_us ?a = 0" using T A by simp_all
  have b: "receiver_at p k s ?b" by (rule B(1))
  obtain fa a1 where ga: "syn_isotp_get_tx_frame ?a = (fa, a1)" by (cases "syn_isotp_get_tx_frame ?a")
  have k: "k < length p" and s: "s AND 0x0F = s" using T by simp_all
  note S = sender_emits [OF a(1,2) k a(3) ga]
  define f where "f = tx_frame ?a (cf_bytes p k s)"
  obtain pad where d: "cf_data f = cf_bytes p k s @ pad" using tx_frame_data [OF cf_bytes_length] by (auto simp: f_def)
  have hd: "cf_id f = ln_rx_id ?b" "cf_dlc f = 8" using T A B by (simp_all add: f_def tx_frame_head)
  define b1 where "b1 = syn_isotp_process_rx_frame ?b f"
  note R = receiver_appends [OF b k d hd(2) s hd(1), folded b1_def]
  obtain fb b2 where gb: "syn_isotp_get_tx_frame b1 = (fb, b2)" by (cases "syn_isotp_get_tx_frame b1")
  have res: "a' = deliver fb a1" "b' = b2"
    using assms(3) ga gb S(1) by (simp_all add: isotp_round_def deliver_def [of "Some f"] f_def [symmetric] b1_def [symmetric])
  have np: "\<not> ln_rx_fc_pending ?b" using T B by simp
  show ?thesis
  proof (cases "length p \<le> k + 7")
    case True
    then have "fb = None" "b2 = b1" using gb get_tx_idle [OF R(3)] R(2) np by simp_all
    then show ?thesis using True R(1) S(7) res by (simp add: deliver_def)
  next
    case False
    have bf: "block_full ?a \<longleftrightarrow> 0 < ln_rx_fc_bs ?b \<and> ln_rx_fc_bs ?b \<le> ln_rx_bs_count ?b + 1" using T A B by (auto simp: block_full_def)
    have s': "((s + 1) AND 0x0F) AND 0x0F = (s + 1) AND 0x0F" by (simp add: and.assoc)
    have cnt: "0 < ln_rx_fc_bs b1 \<longrightarrow> ln_tx_bs_count a1 = ln_rx_bs_count b1" using S(10) R(7,9) False bf T A B by auto
    have tm: "dt < ln_n_cr_timeout_us b1" "ln_rx_timeout_timer_us b1 = ln_n_cr_timeout_us b1" using R(8,11) False T B by simp_all
    have ids: "ln_tx_id a1 = ln_rx_id b1" "ln_rx_id a1 = ln_tx_id b1" using S(2,3) R(12,13) T A B by simp_all
    have pos: "sender_at p (k + 7) ((s + 1) AND 0x0F) a1" "receiver_at p (k + 7) ((s + 1) AND 0x0F) b1" "k + 7 < length p"
      using S(8) R(4) False by simp_all
    show ?thesis
    proof (cases "block_full ?a")
      case full: True
      have "ln_rx_fc_pending b1" "ln_rx_fc_status b1 = SYN_ISOTP_FC_CTS" "ln_tx_state a1 = SYN_ISOTP_TX_WAIT_FC"
        using R(5,6) S(9) False full bf by simp_all
      from round_release [OF pos(1) this(3) pos(2) this(1,2) tm s' pos(3) cnt ids gb] show ?thesis using False res by simp
    next
      case nf: False
      have nb1: "\<not> ln_rx_fc_pending b1" using R(5) False nf bf np by auto
      then have "fb = None" "b2 = b1" using gb get_tx_idle [OF R(3)] by simp_all
      moreover have "ln_tx_state a1 = SYN_ISOTP_TX_SEND_CF" "ln_tx_st_timer_us a1 \<le> dt" "ln_tx_bs a1 = ln_rx_fc_bs b1" "\<not> ln_rx_fc_pending b1"
        using S(4,6,9) R(9) nb1 False nf T A B assms(2) by auto
      ultimately show ?thesis using False res pos tm cnt ids s' by (simp add: in_transfer_def deliver_def)
    qed
  qed
qed


text \<open>The length field of a first frame.\<close>

lemma ff_length:
  assumes "n < 4096"
  shows "syn_peek_u16 ((SYN_ISOTP_PCI_FF OR of_nat ((n div 256) mod 16)) # of_nat (n mod 256) # xs) 0 AND 0x0FFF = (of_nat n :: u16)"
proof -
  have m: "(0x0FFF :: u16) = mask 12" by (simp add: mask_eq_exp_minus_1)
  have bits: "n div 256 mod 16 = take_bit 4 (drop_bit 8 n)" "n mod 256 = take_bit 8 n" by (simp_all add: take_bit_eq_mod drop_bit_eq_div)
  have "SYN_ISOTP_PCI_FF = push_bit 4 1" by (simp add: SYN_ISOTP_PCI_FF_def)
  moreover have "\<not> bit (push_bit 4 (1 :: u8)) j" if "j < 4" for j using that by (simp only: bit_push_bit_iff) simp
  ultimately have "\<not> bit SYN_ISOTP_PCI_FF j" if "j < 4" for j using that by (simp only: not_False_eq_True)
  moreover have "j < 12" if "bit n j" for j
  proof (rule ccontr)
    assume "\<not> j < 12"
    then have "n < 2 ^ j" using assms power_increasing [of 12 j "2 :: nat"] by simp
    then show False using that by (simp add: bit_iff_odd)
  qed
  ultimately show ?thesis
    unfolding syn_peek_u16_def m bits take_bit_eq_mask [symmetric]
    by (intro bit_word_eqI) (fastforce simp: bit_simps)
qed


lemma low_nibble: "m < 16 \<Longrightarrow> (of_nat m :: u8) AND 0x0F = of_nat m"
proof -
  assume "m < 16"
  then have "take_bit 4 m = m" by (simp add: take_bit_nat_eq_self)
  moreover have "(of_nat m :: u8) AND 0x0F = take_bit 4 (of_nat m)" by (simp add: take_bit_eq_mask mask_eq_exp_minus_1)
  ultimately show ?thesis by (simp add: take_bit_of_nat)
qed

definition can_receive :: "u8 list \<Rightarrow> u32 \<Rightarrow> isotp_link \<Rightarrow> bool" where
  "can_receive p dt b \<longleftrightarrow> ln_tx_state b = SYN_ISOTP_TX_IDLE \<and> \<not> ln_rx_fc_pending b \<and> dt < ln_n_cr_timeout_us b
     \<and> (\<exists>buf. ln_rx_buf b = Some buf \<and> length buf = ln_rx_buf_size b) \<and> length p \<le> ln_rx_buf_size b"

lemma step_can_receive:
  assumes "can_receive p dt b"
  shows "can_receive p dt (syn_isotp_step_us b dt)" "ln_tx_id (syn_isotp_step_us b dt) = ln_tx_id b" "ln_rx_id (syn_isotp_step_us b dt) = ln_rx_id b"
    "ln_rx_fc_bs (syn_isotp_step_us b dt) = ln_rx_fc_bs b"
  using assms by (simp_all add: syn_isotp_step_us_def Let_def can_receive_def)

lemma receive_sf:
  assumes "can_receive p dt b" "p \<noteq> []" "length p \<le> 7" "cf_data f = (SYN_ISOTP_PCI_SF OR of_nat (length p)) # p @ pad" "cf_dlc f = 8" "cf_id f = ln_rx_id b"
  shows "received p (syn_isotp_process_rx_frame b f) \<and> syn_isotp_get_tx_frame (syn_isotp_process_rx_frame b f) = (None, syn_isotp_process_rx_frame b f)"
proof -
  obtain buf where buf: "ln_rx_buf b = Some buf" "length buf = ln_rx_buf_size b" "length p \<le> ln_rx_buf_size b" using assms(1) by (auto simp: can_receive_def)
  have n: "(of_nat (length p) :: u8) AND 0x0F = of_nat (length p)" using assms(3) by (intro low_nibble) simp
  have h: "cf_data f ! 0 AND 0xF0 = SYN_ISOTP_PCI_SF" "cf_data f ! 0 AND 0x0F = of_nat (length p)"
    using pci_nibbles(1) [of SYN_ISOTP_PCI_SF "of_nat (length p)"] n by (simp_all add: assms(4) SYN_ISOTP_PCI_SF_def)
  have l: "unat (of_nat (length p) :: u8) = length p" using assms(3) by (simp add: unat_of_nat)
  have "rx_sf b f = b\<lparr>ln_rx_buf := Some (copy_into buf 0 p), ln_rx_len := length p, ln_rx_state := SYN_ISOTP_RX_COMPLETE\<rparr>"
    unfolding rx_sf_def Let_def h(2) l using assms(2,3,4,5) buf by (simp add: Suc_le_eq)
  moreover have "syn_isotp_process_rx_frame b f = rx_sf b f" unfolding syn_isotp_process_rx_frame_def Let_def h(1) by (simp add: assms(6))
  moreover have "take (length p) (copy_into buf 0 p) = p" "length (copy_into buf 0 p) = length buf" using buf by (simp_all add: copy_into_def)
  ultimately show ?thesis using buf assms(1) by (simp add: received_def get_tx_idle can_receive_def)
qed

lemma receive_ff:
  assumes "can_receive p dt b" "7 < length p" "length p < 4096" "cf_dlc f = 8" "cf_id f = ln_rx_id b"
    "cf_data f = [SYN_ISOTP_PCI_FF OR of_nat ((length p div 256) mod 16), of_nat (length p mod 256)] @ take 6 p"
  defines "b' \<equiv> syn_isotp_process_rx_frame b f"
  shows "receiver_at p 6 1 b'" "ln_rx_fc_pending b'" "ln_rx_fc_status b' = SYN_ISOTP_FC_CTS" "ln_rx_timeout_timer_us b' = ln_n_cr_timeout_us b'"
    "ln_n_cr_timeout_us b' = ln_n_cr_timeout_us b" "ln_rx_bs_count b' = 0" "ln_rx_fc_bs b' = ln_rx_fc_bs b" "ln_tx_id b' = ln_tx_id b" "ln_rx_id b' = ln_rx_id b"
proof -
  obtain buf where buf: "ln_rx_buf b = Some buf" "length buf = ln_rx_buf_size b" "length p \<le> ln_rx_buf_size b" using assms(1) by (auto simp: can_receive_def)
  let ?h = "of_nat ((length p div 256) mod 16) :: u8"
  have n: "?h AND 0x0F = ?h" by (intro low_nibble) simp
  have h: "cf_data f ! 0 AND 0xF0 = SYN_ISOTP_PCI_FF"
    using pci_nibbles(1) [of SYN_ISOTP_PCI_FF ?h] unfolding n by (simp add: assms(6) SYN_ISOTP_PCI_FF_def)
  have len: "syn_peek_u16 (cf_data f) 0 AND 0x0FFF = of_nat (length p)" unfolding assms(6) using ff_length [OF assms(3)] by simp
  have un: "unat (of_nat (length p) :: u16) = length p" using assms(3) by (simp add: unat_of_nat)
  then have nz: "(of_nat (length p) :: u16) \<noteq> 0" using assms(2) by (metis not_less_zero unsigned_0)
  have d: "take 6 (drop 2 (cf_data f)) = take 6 p" by (simp add: assms(6))
  have eq: "rx_ff b f = b\<lparr>ln_rx_buf := Some (copy_into buf 0 (take 6 p)), ln_rx_len := 6, ln_rx_expected := length p, ln_rx_seq := 1, ln_rx_bs_count := 0,
      ln_rx_fc_pending := True, ln_rx_fc_status := SYN_ISOTP_FC_CTS, ln_rx_state := SYN_ISOTP_RX_WAIT_CF, ln_rx_timeout_timer_us := ln_n_cr_timeout_us b\<rparr>"
    unfolding rx_ff_def Let_def len un using nz assms(2,4) buf d by simp
  have "b' = rx_ff b f" unfolding b'_def syn_isotp_process_rx_frame_def Let_def h by (simp add: assms(5) SYN_ISOTP_PCI_FF_def SYN_ISOTP_PCI_SF_def)
  moreover have "length (take 6 p) = 6" using assms(2) by simp
  then have "take 6 (copy_into buf 0 (take 6 p)) = take 6 p" "length (copy_into buf 0 (take 6 p)) = length buf"
    using assms(2) buf by (simp_all add: copy_into_def)
  ultimately show "receiver_at p 6 1 b'" "ln_rx_fc_pending b'" "ln_rx_fc_status b' = SYN_ISOTP_FC_CTS" "ln_rx_timeout_timer_us b' = ln_n_cr_timeout_us b'"
    "ln_n_cr_timeout_us b' = ln_n_cr_timeout_us b" "ln_rx_bs_count b' = 0" "ln_rx_fc_bs b' = ln_rx_fc_bs b" "ln_tx_id b' = ln_tx_id b" "ln_rx_id b' = ln_rx_id b"
    using assms(1) buf by (simp_all add: eq receiver_at_def can_receive_def)
qed


lemma send_starts:
  assumes "ln_tx_state a = SYN_ISOTP_TX_IDLE" "\<not> ln_rx_fc_pending a" "p \<noteq> []" "length p \<le> ln_tx_buf_size a" "length (ln_tx_buf a) = ln_tx_buf_size a"
    "syn_isotp_send a (Some p) = (st, a0)"
  shows "st = SYN_OK" "sender_at p 0 1 a0" "ln_tx_state a0 = (if length p \<le> 7 then SYN_ISOTP_TX_SEND_SF else SYN_ISOTP_TX_SEND_FF)" "ln_tx_bs_count a0 = 0"
    "ln_tx_st_timer_us a0 = ln_tx_st_timer_us a" "ln_tx_id a0 = ln_tx_id a" "ln_rx_id a0 = ln_rx_id a"
proof -
  have "take (length p) (copy_into (ln_tx_buf a) 0 p) = p" by (simp add: copy_into_def)
  moreover have "\<not> length p < 1" "\<not> length p > ln_tx_buf_size a" using assms(3,4) by (simp_all add: Suc_le_eq)
  ultimately show "st = SYN_OK" "sender_at p 0 1 a0" "ln_tx_state a0 = (if length p \<le> 7 then SYN_ISOTP_TX_SEND_SF else SYN_ISOTP_TX_SEND_FF)" "ln_tx_bs_count a0 = 0"
    "ln_tx_st_timer_us a0 = ln_tx_st_timer_us a" "ln_tx_id a0 = ln_tx_id a" "ln_rx_id a0 = ln_rx_id a"
    using assms(1,2,6) by (auto simp: syn_isotp_send_def Let_def sender_at_def)
qed

lemma round_sf:
  assumes "sender_at p 0 1 a" "ln_tx_state a = SYN_ISOTP_TX_SEND_SF" "ln_tx_st_timer_us a \<le> dt" "can_receive p dt b" "p \<noteq> []" "length p \<le> 7"
    "ln_tx_id a = ln_rx_id b" "isotp_round dt (a, b) = (a', b')"
  shows "received p b' \<and> ln_tx_state a' = SYN_ISOTP_TX_IDLE"
proof -
  let ?a = "syn_isotp_step_us a dt" and ?b = "syn_isotp_step_us b dt"
  have "ln_tx_state a \<noteq> SYN_ISOTP_TX_WAIT_FC" by (simp add: assms(2))
  note A = step_sender [OF this assms(3)] and B = step_can_receive [OF assms(4)]
  have sa: "\<not> ln_rx_fc_pending ?a" "ln_tx_len ?a = length p" "take (length p) (ln_tx_buf ?a) = p"
    using A(3) [of p 0 1] assms(1) by (simp_all add: sender_at_def)
  define f where "f = tx_frame ?a ((SYN_ISOTP_PCI_SF OR of_nat (length p)) # p)"
  have g: "syn_isotp_get_tx_frame ?a = (Some f, ?a\<lparr>ln_tx_state := SYN_ISOTP_TX_IDLE\<rparr>)"
    using sa A(2) assms(2) by (simp add: syn_isotp_get_tx_frame_def tx_sf_def f_def)
  have "received p (syn_isotp_process_rx_frame ?b f) \<and> syn_isotp_get_tx_frame (syn_isotp_process_rx_frame ?b f) = (None, syn_isotp_process_rx_frame ?b f)"
    by (rule receive_sf [OF B(1) assms(5,6), where pad = "replicate (7 - length p) (ln_padding_byte ?a)"])
      (use assms(6,7) A B in \<open>simp_all add: f_def tx_frame_data tx_frame_head\<close>)
  then show ?thesis using assms(8) g by (auto simp: isotp_round_def deliver_def)
qed

lemma round_ff:
  assumes "sender_at p 0 1 a" "ln_tx_state a = SYN_ISOTP_TX_SEND_FF" "ln_tx_st_timer_us a \<le> dt" "ln_tx_bs_count a = 0" "can_receive p dt b" "7 < length p" "length p < 4096"
    "ln_tx_id a = ln_rx_id b" "ln_rx_id a = ln_tx_id b" "isotp_round dt (a, b) = (a', b')"
  shows "in_transfer p 6 1 dt a' b'"
proof -
  let ?a = "syn_isotp_step_us a dt" and ?b = "syn_isotp_step_us b dt"
  have "ln_tx_state a \<noteq> SYN_ISOTP_TX_WAIT_FC" by (simp add: assms(2))
  note A = step_sender [OF this assms(3)] and B = step_can_receive [OF assms(5)]
  have sa: "\<not> ln_rx_fc_pending ?a" "ln_tx_len ?a = length p" "take (length p) (ln_tx_buf ?a) = p" "ln_tx_seq ?a = 1"
    using A(3) [of p 0 1] assms(1) by (simp_all add: sender_at_def)
  let ?hd = "[SYN_ISOTP_PCI_FF OR of_nat ((length p div 256) mod 16), of_nat (length p mod 256)]"
  have "take 6 (ln_tx_buf ?a) = take 6 (take (length p) (ln_tx_buf ?a))" using assms(6) by (simp add: min_def)
  then have six: "take 6 (ln_tx_buf ?a) = take 6 p" by (simp only: sa(3))
  define f where "f = tx_frame ?a (?hd @ take 6 p)"
  define a1 where "a1 = ?a\<lparr>ln_tx_offset := 6, ln_tx_state := SYN_ISOTP_TX_WAIT_FC, ln_tx_timeout_timer_us := ln_n_bs_timeout_us ?a\<rparr>"
  have g: "syn_isotp_get_tx_frame ?a = (Some f, a1)"
    using sa A(2) assms(2) six by (simp add: syn_isotp_get_tx_frame_def tx_ff_def f_def a1_def)
  have "length (?hd @ take 6 p) = 8" using assms(6) by simp
  then have d: "cf_data f = ?hd @ take 6 p" unfolding f_def by (subst tx_frame_data) simp_all
  have hd: "cf_dlc f = 8" "cf_id f = ln_rx_id ?b" using A B assms(8) by (simp_all add: f_def tx_frame_head)
  define b1 where "b1 = syn_isotp_process_rx_frame ?b f"
  note R = receive_ff [OF B(1) assms(6,7) hd d, folded b1_def]
  obtain fb b2 where gb: "syn_isotp_get_tx_frame b1 = (fb, b2)" by (cases "syn_isotp_get_tx_frame b1")
  have res: "a' = deliver fb a1" "b' = b2" using assms(10) g gb by (simp_all add: isotp_round_def deliver_def [of "Some f"] b1_def [symmetric])
  have s1: "sender_at p 6 1 a1" "ln_tx_state a1 = SYN_ISOTP_TX_WAIT_FC" using sa by (simp_all add: sender_at_def a1_def)
  have dt: "dt < ln_n_cr_timeout_us b1" using R(5) B(1) by (simp add: can_receive_def)
  have ids: "ln_tx_id a1 = ln_rx_id b1" "ln_rx_id a1 = ln_tx_id b1" using R(8,9) A B assms(8,9) by (simp_all add: a1_def)
  have "in_transfer p 6 1 dt (deliver fb a1) b2"
    by (rule round_release [OF s1 R(1,2,3) dt R(4) _ _ _ ids gb]) (use assms(4,6) R(6) A in \<open>simp_all add: a1_def\<close>)
  then show ?thesis by (simp add: res)
qed

lemma transfer_completes:
  assumes "in_transfer p k s dt a b" "127000 \<le> dt" "((isotp_round dt) ^^ ((length p - k + 6) div 7)) (a, b) = (a', b')"
  shows "received p b' \<and> ln_tx_state a' = SYN_ISOTP_TX_IDLE"
  using assms
proof (induction "(length p - k + 6) div 7" arbitrary: k s a b)
  case 0
  then have "length p - k + 6 < 7" by (simp add: div_eq_0_iff)
  moreover have "k < length p" using 0 by (simp add: in_transfer_def)
  ultimately show ?case by simp
next
  case (Suc n)
  obtain a1 b1 where r: "isotp_round dt (a, b) = (a1, b1)" by (cases "isotp_round dt (a, b)")
  have k: "k < length p" using Suc.prems(1) by (simp add: in_transfer_def)
  have it: "((isotp_round dt) ^^ n) (a1, b1) = (a', b')"
    using Suc.prems(3) r by (simp add: Suc.hyps(2) [symmetric] funpow_Suc_right del: funpow.simps)
  note C = round_cf [OF Suc.prems(1,2) r]
  show ?case
  proof (cases "length p \<le> k + 7")
    case True
    then have "length p - k + 6 < 14" by simp
    then have "n = 0" using Suc.hyps(2) by linarith
    then show ?thesis using True C it by simp
  next
    case False
    then have "length p - k + 6 = (length p - (k + 7) + 6) + 7" by simp
    then have n: "n = (length p - (k + 7) + 6) div 7" using Suc.hyps(2) by (metis Suc_inject add_Suc_right add_0_right div_add_self2 zero_neq_numeral Suc_eq_plus1)
    show ?thesis by (rule Suc.hyps(1) [OF n _ Suc.prems(2)]) (use C False it n in simp_all)
  qed
qed




text \<open>
  \<open>syn_isotp_send\<close> accepts any length up to the transmit buffer, but a first frame has twelve bits for it: a longer message is announced
  with its length modulo 4096.
\<close>

theorem isotp_long_message_truncated:
  assumes "ln_tx_state a = SYN_ISOTP_TX_IDLE" "\<not> ln_rx_fc_pending a" "length (ln_tx_buf a) = ln_tx_buf_size a"
    and "4095 < length p" "length p \<le> ln_tx_buf_size a" "syn_isotp_send a (Some p) = (st, a0)" "syn_isotp_get_tx_frame a0 = (Some f, a1)"
  shows "st = SYN_OK \<and> syn_peek_u16 (cf_data f) 0 AND 0x0FFF = of_nat (length p mod 4096)"
proof -
  have ne: "p \<noteq> []" using assms(4) by auto
  note S = send_starts [OF assms(1,2) ne assms(5,3,6)]
  let ?n = "length p mod 4096"
  have "?n = 256 * (length p div 256 mod 16) + length p mod 256" using mod_mult2_eq [of "length p" 256 16] by simp
  then have "?n div 256 mod 16 = length p div 256 mod 16" "?n mod 256 = length p mod 256" by simp_all
  then have "syn_peek_u16 ((SYN_ISOTP_PCI_FF OR of_nat (length p div 256 mod 16)) # of_nat (length p mod 256) # xs) 0 AND 0x0FFF = (of_nat ?n :: u16)" for xs
    using ff_length [of ?n xs] by simp
  moreover have "length (take 6 (ln_tx_buf a0)) \<le> 6" by simp
  then have "cf_data f = [SYN_ISOTP_PCI_FF OR of_nat (length p div 256 mod 16), of_nat (length p mod 256)] @ take 6 (ln_tx_buf a0)
      @ replicate (6 - length (take 6 (ln_tx_buf a0))) (ln_padding_byte a0)"
    using assms(4,7) S(2,3) by (auto simp: syn_isotp_get_tx_frame_def tx_ff_def Let_def sender_at_def tx_frame_data)
  ultimately show ?thesis using S(1) by simp
qed

end
