(* ===== verification/Syn_Lz4.thy ===== *)
theory Syn_Lz4
  imports Syn_Prelude
begin

text \<open>
  LZ4 block compression and decompression (\<^verbatim>\<open>util/syn_lz4.c\<close>). Sizes are natural numbers, which is exact for inputs below 16 MB, where no
  \<^verbatim>\<open>size_t\<close> sum can wrap. The compressor's input pointers are indices into the source, its output pointer is the list
  of the bytes written, compared with the capacity; the decompressor's input pointer is the rest of the input. \<open>None\<close> is the return value 0.
\<close>

definition LZ4_MIN_MATCH :: nat where "LZ4_MIN_MATCH = 4"
definition LZ4_HASH_BITS :: nat where "LZ4_HASH_BITS = 12"

definition SYN_LZ4_HASH_SIZE :: nat where "SYN_LZ4_HASH_SIZE = 4096"

type_synonym lz4_ctx = "u16 list"

definition lz4_hash4 :: "u32 \<Rightarrow> u32" where
  "lz4_hash4 val = drop_bit (32 - LZ4_HASH_BITS) (val * 2654435761)"

definition lz4_read32 :: "u8 list \<Rightarrow> nat \<Rightarrow> u32" where
  "lz4_read32 src i = ucast (src ! i) OR push_bit 8 (ucast (src ! (i + 1))) OR push_bit 16 (ucast (src ! (i + 2)))
     OR push_bit 24 (ucast (src ! (i + 3)))"

definition syn_lz4_init :: "lz4_ctx \<Rightarrow> lz4_ctx" where
  "syn_lz4_init ctx = replicate SYN_LZ4_HASH_SIZE 0"

definition syn_lz4_compress_bound :: "u32 \<Rightarrow> u32" where
  "syn_lz4_compress_bound input_size =
     (if input_size > - 1 - 16 - input_size div 255 then 0 else input_size + input_size div 255 + 16)"

text \<open>Writing one byte, after the check for the end of the output.\<close>

definition lz4_emit :: "nat \<Rightarrow> u8 \<Rightarrow> u8 list \<Rightarrow> u8 list option" where
  "lz4_emit cap b out = (if length out \<ge> cap then None else Some (out @ [b]))"

fun lz4_emit_len :: "nat \<Rightarrow> nat \<Rightarrow> u8 list \<Rightarrow> u8 list option" where
  "lz4_emit_len cap rem out =
     (if rem \<ge> 255 then case lz4_emit cap 255 out of None \<Rightarrow> None | Some out1 \<Rightarrow> lz4_emit_len cap (rem - 255) out1
      else lz4_emit cap (of_nat rem) out)"

declare lz4_emit_len.simps [simp del]

definition lz4_emit_ext :: "nat \<Rightarrow> nat \<Rightarrow> u8 list \<Rightarrow> u8 list option" where
  "lz4_emit_ext cap len out = (if len \<ge> 15 then lz4_emit_len cap (len - 15) out else Some out)"

definition lz4_copy :: "nat \<Rightarrow> u8 list \<Rightarrow> u8 list \<Rightarrow> u8 list option" where
  "lz4_copy cap lits out = (if cap - length out < length lits then None else Some (out @ lits))"

function match_run :: "u8 list \<Rightarrow> nat \<Rightarrow> nat \<Rightarrow> nat" where
  "match_run src p ref = (if p < length src \<and> src ! p = src ! ref then match_run src (p + 1) (ref + 1) else p)"
  by pat_completeness auto
termination by (relation "measure (\<lambda>(src, p, ref). length src - p)") auto

declare match_run.simps [simp del]

text \<open>One sequence: token, literals, offset, match length.\<close>

definition lz4_token :: "nat \<Rightarrow> nat \<Rightarrow> u8" where
  "lz4_token lit_len match_len = push_bit 4 (of_nat (if lit_len \<ge> 15 then 15 else lit_len)) OR of_nat (if match_len \<ge> 15 then 15 else match_len)"

definition lz4_sequence :: "nat \<Rightarrow> u8 list \<Rightarrow> nat \<Rightarrow> nat \<Rightarrow> u8 list \<Rightarrow> u8 list option" where
  "lz4_sequence cap lits offset match_len out =
     (case lz4_emit cap (lz4_token (length lits) match_len) out of None \<Rightarrow> None | Some o1 \<Rightarrow>
      case lz4_emit_ext cap (length lits) o1 of None \<Rightarrow> None | Some o2 \<Rightarrow>
      case lz4_copy cap lits o2 of None \<Rightarrow> None | Some o3 \<Rightarrow>
      case lz4_copy cap [of_nat (offset mod 256), of_nat (offset div 256 mod 256)] o3 of None \<Rightarrow> None | Some o4 \<Rightarrow>
        lz4_emit_ext cap match_len o4)"

definition lz4_literals :: "nat \<Rightarrow> u8 list \<Rightarrow> u8 list \<Rightarrow> u8 list option" where
  "lz4_literals cap lits out =
     (case lz4_emit cap (push_bit 4 (of_nat (if length lits \<ge> 15 then 15 else length lits))) out of None \<Rightarrow> None | Some o1 \<Rightarrow>
      case lz4_emit_ext cap (length lits) o1 of None \<Rightarrow> None | Some o2 \<Rightarrow> lz4_copy cap lits o2)"

definition slice :: "'a list \<Rightarrow> nat \<Rightarrow> nat \<Rightarrow> 'a list" where
  "slice xs i j = take (j - i) (drop i xs)"

lemma match_run_ge: "p \<le> match_run src p ref"
  by (induction src p ref rule: match_run.induct) (subst match_run.simps, auto)

lemma match_run_gt: "ip < match_run src (ip + 4) ref"
  using match_run_ge [of "ip + 4" src ref] by simp

text \<open>The candidate the hash table gives for position \<open>ip\<close>, if its four bytes match, and the table with \<open>ip\<close> entered.\<close>

definition lz4_find :: "u8 list \<Rightarrow> lz4_ctx \<Rightarrow> nat \<Rightarrow> nat option \<times> lz4_ctx" where
  "lz4_find src ctx ip =
     (let val = lz4_read32 src ip;
          hash = unat (lz4_hash4 val);
          mat = unat (ctx ! hash)
      in (if mat < ip \<and> ip - mat \<le> 65535 \<and> lz4_read32 src mat = val then Some mat else None, ctx[hash := of_nat ip]))"

text \<open>The main loop: the position after the last match and the output, or failure.\<close>

function lz4_loop :: "u8 list \<Rightarrow> nat \<Rightarrow> lz4_ctx \<Rightarrow> nat \<Rightarrow> nat \<Rightarrow> u8 list \<Rightarrow> (nat \<times> u8 list) option" where
  "lz4_loop src cap ctx ip anchor out =
     (if ip < length src - 5
      then
        case lz4_find src ctx ip of
          (Some mat, ctx1) \<Rightarrow>
            (case lz4_sequence cap (slice src anchor ip) (ip - mat) (match_run src (ip + 4) (mat + 4) - ip - LZ4_MIN_MATCH) out of
               None \<Rightarrow> None
             | Some out1 \<Rightarrow> lz4_loop src cap ctx1 (match_run src (ip + 4) (mat + 4)) (match_run src (ip + 4) (mat + 4)) out1)
        | (None, ctx1) \<Rightarrow> lz4_loop src cap ctx1 (ip + 1) anchor out
      else Some (anchor, out))"
  by pat_completeness auto
termination
  by (relation "measure (\<lambda>(src, cap, ctx, ip, anchor, out). length src - ip)") (auto intro!: diff_less_mono2 match_run_gt)

declare lz4_loop.simps [simp del]

definition syn_lz4_compress :: "lz4_ctx \<Rightarrow> u8 list \<Rightarrow> nat \<Rightarrow> u8 list option" where
  "syn_lz4_compress ctx src cap =
     (if src = [] then None
      else if length src < LZ4_MIN_MATCH + 1
      then
        if 1 + (if length src \<ge> 15 then (length src - 15) div 255 + 1 else 0) + length src > cap then None
        else lz4_literals cap src []
      else
        case lz4_loop src cap (syn_lz4_init ctx) 0 0 [] of
          None \<Rightarrow> None
        | Some (anchor, out) \<Rightarrow> if length src - anchor > 0 then lz4_literals cap (drop anchor src) out else Some out)"

text \<open>A length continued in the input.\<close>

fun lz4_read_len :: "u8 list \<Rightarrow> nat \<Rightarrow> (nat \<times> u8 list) option" where
  "lz4_read_len [] len = None"
| "lz4_read_len (s # inp) len = (if s = 255 then lz4_read_len inp (len + unat s) else Some (len + unat s, inp))"

definition lz4_read_ext :: "nat \<Rightarrow> u8 list \<Rightarrow> (nat \<times> u8 list) option" where
  "lz4_read_ext len inp = (if len = 15 then lz4_read_len inp len else Some (len, inp))"

fun copy_match :: "nat \<Rightarrow> nat \<Rightarrow> u8 list \<Rightarrow> u8 list" where
  "copy_match offset 0 out = out"
| "copy_match offset (Suc n) out = copy_match offset n (out @ [out ! (length out - offset)])"

lemma read_len_shorter: "lz4_read_len inp len = Some (n, r) \<Longrightarrow> length r < length inp"
  by (induction inp len rule: lz4_read_len.induct) (auto split: if_splits)

lemma read_ext_shorter: "lz4_read_ext len inp = Some (n, r) \<Longrightarrow> length r \<le> length inp"
  using read_len_shorter [of inp len n r] by (auto simp: lz4_read_ext_def split: if_splits)

function lz4_dec_loop :: "nat \<Rightarrow> u8 list \<Rightarrow> u8 list \<Rightarrow> u8 list option" where
  "lz4_dec_loop cap [] out = Some out"
| "lz4_dec_loop cap (token # inp) out =
     (case lz4_read_ext (unat (drop_bit 4 token)) inp of
        None \<Rightarrow> None
      | Some (lit_len, inp1) \<Rightarrow>
          if length inp1 < lit_len then None
          else if cap - length out < lit_len then None
          else
            let out1 = out @ take lit_len inp1; inp2 = drop lit_len inp1
            in case inp2 of
                 [] \<Rightarrow> Some out1
               | [x] \<Rightarrow> None
               | lo # hi # inp3 \<Rightarrow>
                   let offset = unat lo + 256 * unat hi
                   in if offset = 0 \<or> offset > length out1 then None
                      else
                        case lz4_read_ext (unat (token AND 0x0F)) inp3 of
                          None \<Rightarrow> None
                        | Some (m, inp4) \<Rightarrow>
                            let match_len = m + LZ4_MIN_MATCH
                            in if cap - length out1 < match_len then None
                               else lz4_dec_loop cap inp4 (copy_match offset match_len out1))"
  by pat_completeness auto
termination
proof (relation "measure (\<lambda>(cap, inp, out). length inp)", goal_cases)
  case (2 cap token inp out a lit_len inp1 out1 inp2 lo l hi inp3 offset b m inp4 match_len)
  have "length inp4 \<le> length inp3" using 2 read_ext_shorter by auto
  also have "\<dots> < length (lo # hi # inp3)" by simp
  also have "length (lo # hi # inp3) = length inp2" using 2 by metis
  also have "\<dots> \<le> length inp1" using 2 by simp
  also have "\<dots> \<le> length inp" using 2 read_ext_shorter by auto
  finally show ?case by simp
qed auto

definition syn_lz4_decompress :: "u8 list \<Rightarrow> nat \<Rightarrow> u8 list option" where
  "syn_lz4_decompress src dst_capacity = (if src = [] \<or> dst_capacity = 0 then None else lz4_dec_loop dst_capacity src [])"


subsection \<open>What the compressor writes\<close>

fun len_bytes :: "nat \<Rightarrow> u8 list" where
  "len_bytes rem = (if rem \<ge> 255 then 255 # len_bytes (rem - 255) else [of_nat rem])"

declare len_bytes.simps [simp del]

definition ext_bytes :: "nat \<Rightarrow> u8 list" where
  "ext_bytes len = (if len \<ge> 15 then len_bytes (len - 15) else [])"

definition seq_bytes :: "u8 list \<Rightarrow> nat \<Rightarrow> nat \<Rightarrow> u8 list" where
  "seq_bytes lits offset m =
     lz4_token (length lits) m # ext_bytes (length lits) @ lits @ [of_nat (offset mod 256), of_nat (offset div 256 mod 256)] @ ext_bytes m"

definition lit_bytes :: "u8 list \<Rightarrow> u8 list" where
  "lit_bytes lits = lz4_token (length lits) 0 # ext_bytes (length lits) @ lits"

text \<open>The guarded writes store a block if it fits.\<close>

definition put :: "nat \<Rightarrow> u8 list \<Rightarrow> u8 list \<Rightarrow> u8 list option" where
  "put cap xs out = (if length out + length xs \<le> cap then Some (out @ xs) else None)"

lemma put_bind:
  assumes "\<And>o1. length o1 \<le> cap \<Longrightarrow> f o1 = put cap ys o1"
  shows "(case put cap xs out of None \<Rightarrow> None | Some o1 \<Rightarrow> f o1) = put cap (xs @ ys) out"
  using assms by (auto simp: put_def)

lemma emit_put: "length out \<le> cap \<Longrightarrow> lz4_emit cap b out = put cap [b] out"
  by (auto simp: lz4_emit_def put_def)

lemma copy_put: "length out \<le> cap \<Longrightarrow> lz4_copy cap xs out = put cap xs out"
  by (auto simp: lz4_copy_def put_def)

lemma emit_len_put: "length out \<le> cap \<Longrightarrow> lz4_emit_len cap rem out = put cap (len_bytes rem) out"
proof (induction cap rem out rule: lz4_emit_len.induct)
  case (1 cap rem out)
  show ?case
  proof (cases "rem \<ge> 255")
    case True
    have "lz4_emit_len cap rem out = (case put cap [255] out of None \<Rightarrow> None | Some o1 \<Rightarrow> lz4_emit_len cap (rem - 255) o1)"
      using True 1(2) by (subst lz4_emit_len.simps) (simp add: emit_put)
    also have "\<dots> = (case put cap [255] out of None \<Rightarrow> None | Some o1 \<Rightarrow> put cap (len_bytes (rem - 255)) o1)"
      using 1(1) [OF True] 1(2) by (auto simp: put_def emit_put split: option.split)
    also have "\<dots> = put cap ([255] @ len_bytes (rem - 255)) out" by (rule put_bind) simp
    finally show ?thesis using True by (subst len_bytes.simps) simp
  next
    case False
    then show ?thesis using 1(2) by (subst lz4_emit_len.simps, subst len_bytes.simps) (simp add: emit_put)
  qed
qed

lemma emit_ext_put: "length out \<le> cap \<Longrightarrow> lz4_emit_ext cap len out = put cap (ext_bytes len) out"
  by (simp add: lz4_emit_ext_def ext_bytes_def emit_len_put) (simp add: put_def)

lemma sequence_put:
  assumes "length out \<le> cap"
  shows "lz4_sequence cap lits offset m out = put cap (seq_bytes lits offset m) out"
proof -
  let ?o = "[of_nat (offset mod 256), of_nat (offset div 256 mod 256)] :: u8 list"
  have 4: "lz4_emit_ext cap m o4 = put cap (ext_bytes m) o4" if "length o4 \<le> cap" for o4 using that by (rule emit_ext_put)
  have 3: "(case lz4_copy cap ?o o3 of None \<Rightarrow> None | Some o4 \<Rightarrow> lz4_emit_ext cap m o4) = put cap (?o @ ext_bytes m) o3" if "length o3 \<le> cap" for o3
    unfolding copy_put [OF that] by (rule put_bind [OF 4])
  have 2: "(case lz4_copy cap lits o2 of None \<Rightarrow> None | Some o3 \<Rightarrow> case lz4_copy cap ?o o3 of None \<Rightarrow> None | Some o4 \<Rightarrow> lz4_emit_ext cap m o4)
      = put cap (lits @ ?o @ ext_bytes m) o2" if "length o2 \<le> cap" for o2
    unfolding copy_put [OF that] by (rule put_bind [OF 3])
  have 1: "(case lz4_emit_ext cap (length lits) o1 of None \<Rightarrow> None | Some o2 \<Rightarrow> case lz4_copy cap lits o2 of None \<Rightarrow> None | Some o3 \<Rightarrow>
      case lz4_copy cap ?o o3 of None \<Rightarrow> None | Some o4 \<Rightarrow> lz4_emit_ext cap m o4)
      = put cap (ext_bytes (length lits) @ lits @ ?o @ ext_bytes m) o1" if "length o1 \<le> cap" for o1
    unfolding emit_ext_put [OF that] by (rule put_bind [OF 2])
  show ?thesis
    unfolding lz4_sequence_def seq_bytes_def emit_put [OF assms]
    by (subst put_bind [OF 1]) simp_all
qed

lemma literals_put:
  assumes "length out \<le> cap"
  shows "lz4_literals cap lits out = put cap (lit_bytes lits) out"
proof -
  have 1: "(case lz4_emit_ext cap (length lits) o1 of None \<Rightarrow> None | Some o2 \<Rightarrow> lz4_copy cap lits o2)
      = put cap (ext_bytes (length lits) @ lits) o1" if "length o1 \<le> cap" for o1
    unfolding emit_ext_put [OF that] by (rule put_bind [OF copy_put])
  show ?thesis unfolding lz4_literals_def lit_bytes_def emit_put [OF assms]
    by (subst put_bind [OF 1]) (simp_all add: lz4_token_def)
qed

subsection \<open>Reading it back\<close>

lemma read_len_bytes: "lz4_read_len (len_bytes rem @ r) k = Some (k + rem, r)"
proof (induction rem arbitrary: k rule: len_bytes.induct)
  case (1 rem)
  show ?case
  proof (cases "rem \<ge> 255")
    case True
    then show ?thesis using 1 by (subst len_bytes.simps) simp
  next
    case False
    then have u: "unat (of_nat rem :: u8) = rem" by (simp add: unat_of_nat)
    have "(of_nat rem :: u8) \<noteq> 255"
    proof
      assume "(of_nat rem :: u8) = 255"
      then have "unat (of_nat rem :: u8) = unat (255 :: u8)" by simp
      then show False using u False by simp
    qed
    then show ?thesis using False u by (subst len_bytes.simps) simp
  qed
qed


lemma read_ext_bytes: "lz4_read_ext (if len \<ge> 15 then 15 else len) (ext_bytes len @ r) = Some (len, r)"
  by (simp add: lz4_read_ext_def ext_bytes_def read_len_bytes)

lemma token_nibbles:
  fixes a b :: nat
  assumes "a < 16" "b < 16"
  defines "tok \<equiv> push_bit 4 (of_nat a) OR (of_nat b :: u8)"
  shows "unat (drop_bit 4 tok) = a" "unat (tok AND 0x0F) = b"
proof -
  have small: "j < 4" if "bit n j" "n < 16" for n j :: nat
  proof (rule ccontr)
    assume "\<not> j < 4"
    then have "(2::nat) ^ 4 \<le> 2 ^ j" by (intro power_increasing) simp_all
    then show False using that by (simp add: bit_iff_odd)
  qed
  have "drop_bit 4 tok = of_nat a"
    unfolding tok_def by (rule bit_word_eqI) (use small assms(1,2) in \<open>auto simp: bit_simps\<close>)
  then show "unat (drop_bit 4 tok) = a" using assms(1) by (simp add: unat_of_nat)
  have "tok AND 0x0F = take_bit 4 tok" by (simp add: take_bit_eq_mask mask_eq_exp_minus_1)
  also have "\<dots> = of_nat b"
    unfolding tok_def by (rule bit_word_eqI) (use small assms(1,2) in \<open>auto simp: bit_simps\<close>)
  finally show "unat (tok AND 0x0F) = b" using assms(2) by (simp add: unat_of_nat)
qed

lemma token_parts:
  "unat (drop_bit 4 (lz4_token l m)) = (if l \<ge> 15 then 15 else l)" "unat (lz4_token l m AND 0x0F) = (if m \<ge> 15 then 15 else m)"
  using token_nibbles [of "if l \<ge> 15 then 15 else l" "if m \<ge> 15 then 15 else m"] by (simp_all add: lz4_token_def)

lemma offset_bytes:
  assumes "off < 65536"
  shows "unat (of_nat (off mod 256) :: u8) + 256 * unat (of_nat (off div 256 mod 256) :: u8) = off"
proof -
  have "off div 256 < 256" using assms by (simp add: less_mult_imp_div_less)
  then show ?thesis by (simp add: unat_of_nat)
qed

text \<open>The decoder undoes a sequence, whatever follows, and the final literals.\<close>

lemma dec_match:
  assumes "lz4_read_ext (unat (drop_bit 4 tok)) inp = Some (length lits, lits @ lo # hi # inp3)" "lz4_read_ext (unat (tok AND 0x0F)) inp3 = Some (m, inp4)"
    and "unat lo + 256 * unat hi = off" "length out + length lits + m + 4 \<le> cap" "0 < off" "off \<le> length out + length lits"
  shows "lz4_dec_loop cap (tok # inp) out = lz4_dec_loop cap inp4 (copy_match off (m + 4) (out @ lits))"
proof -
  have "\<not> cap - length out < length lits" "\<not> cap - (length out + length lits) < m + 4" using assms(4) by linarith+
  then show ?thesis using assms by (auto simp: Let_def LZ4_MIN_MATCH_def)
qed

lemma dec_sequence:
  assumes "length out + length lits + m + 4 \<le> cap" "0 < off" "off \<le> length out + length lits" "off < 65536"
  shows "lz4_dec_loop cap (seq_bytes lits off m @ rest) out = lz4_dec_loop cap rest (copy_match off (m + 4) (out @ lits))"
  unfolding seq_bytes_def append_Cons
  by (rule dec_match [where ?inp3.0 = "ext_bytes m @ rest", OF _ _ offset_bytes [OF assms(4)] assms(1-3)])
    (simp_all only: token_parts read_ext_bytes append.assoc append_Cons append_Nil)

lemma dec_literals: "length out + length lits \<le> cap \<Longrightarrow> lz4_dec_loop cap (lit_bytes lits) out = Some (out @ lits)"
  using read_ext_bytes [of "length lits" lits] by (simp add: lit_bytes_def token_parts Let_def)

text \<open>Copying from a match reproduces the source.\<close>

lemma copy_match_source:
  "0 < off \<Longrightarrow> off \<le> i \<Longrightarrow> i + n \<le> length src \<Longrightarrow> (\<forall>j<n. src ! (i + j) = src ! (i - off + j)) \<Longrightarrow>
    copy_match off n (take i src) = take (i + n) src"
proof (induction n arbitrary: i)
  case (Suc n)
  have "src ! i = src ! (i - off)" using Suc.prems(4) by (metis add_0_right zero_less_Suc)
  then have s: "take i src @ [take i src ! (length (take i src) - off)] = take (Suc i) src"
    using Suc.prems(1-3) by (simp add: take_Suc_conv_app_nth min_def)
  have "copy_match off n (take (Suc i) src) = take (Suc i + n) src"
  proof (rule Suc.IH)
    show "\<forall>j<n. src ! (Suc i + j) = src ! (Suc i - off + j)"
      using Suc.prems(1,2,4) by (metis Suc_diff_le Suc_less_eq add_Suc add_Suc_right)
  qed (use Suc.prems in simp_all)
  then show ?case using s by simp
qed simp

lemma match_run_equal:
  "p \<le> j \<Longrightarrow> j < match_run src p ref \<Longrightarrow> src ! j = src ! (ref + (j - p))"
proof (induction src p ref rule: match_run.induct)
  case (1 src p ref)
  have c: "p < length src \<and> src ! p = src ! ref" using 1(2,3) by (subst (asm) match_run.simps) (auto split: if_splits)
  then have "match_run src p ref = match_run src (p + 1) (ref + 1)" by (subst match_run.simps) simp
  then have "src ! j = src ! (ref + 1 + (j - (p + 1)))" if "p + 1 \<le> j" using 1(1) [OF c that] 1(3) by simp
  moreover have "ref + 1 + (j - (p + 1)) = ref + (j - p)" if "p + 1 \<le> j" using that by simp
  ultimately show ?case using c 1(2) by (cases "j = p") auto
qed

lemma match_run_le: "p \<le> length src \<Longrightarrow> match_run src p ref \<le> length src"
  by (induction src p ref rule: match_run.induct) (subst match_run.simps, auto)

lemma read32_bytes:
  assumes "lz4_read32 src i = lz4_read32 src k" "j < 4"
  shows "src ! (i + j) = src ! (k + j)"
proof -
  have byte: "src ! (n + j) = ucast (drop_bit (8 * j) (lz4_read32 src n))" for n
  proof (rule bit_word_eqI)
    fix b assume "b < LENGTH(8)"
    moreover have "j = 0 \<or> j = 1 \<or> j = 2 \<or> j = 3" using assms(2) by auto
    ultimately show "bit (src ! (n + j)) b = bit (ucast (drop_bit (8 * j) (lz4_read32 src n)) :: u8) b"
      by (elim disjE) (auto simp: lz4_read32_def bit_simps dest: bit_imp_le_length)
  qed
  show ?thesis unfolding byte using assms(1) by simp
qed

lemma find_match:
  assumes "lz4_find src ctx ip = (Some mat, ctx1)"
  shows "mat < ip \<and> ip - mat < 65536 \<and> (\<forall>j < 4. src ! (ip + j) = src ! (mat + j))"
  using assms read32_bytes [of src mat ip] by (auto simp: lz4_find_def Let_def split: if_splits)

lemma take_slice: "a \<le> b \<Longrightarrow> take a xs @ slice xs a b = take b xs"
  using take_add [of a "b - a" xs] by (simp add: slice_def)

lemma length_slice: "a \<le> b \<Longrightarrow> b \<le> length xs \<Longrightarrow> length (slice xs a b) = b - a"
  by (simp add: slice_def)

text \<open>One sequence of the main loop decodes to the source up to the end of the match.\<close>

lemma match_decodes:
  assumes "lz4_find src ctx ip = (Some mat, ctx1)" "anchor \<le> ip" "ip + 5 < length src" "length src \<le> cap"
  defines "p \<equiv> match_run src (ip + 4) (mat + 4)"
  shows "ip + 4 \<le> p \<and> p \<le> length src
    \<and> lz4_dec_loop cap (seq_bytes (slice src anchor ip) (ip - mat) (p - ip - 4) @ rest) (take anchor src) = lz4_dec_loop cap rest (take p src)"
proof -
  have f: "mat < ip" "ip - mat < 65536" "\<forall>j < 4. src ! (ip + j) = src ! (mat + j)" using find_match [OF assms(1)] by simp_all
  have p: "ip + 4 \<le> p" "p \<le> length src" using match_run_ge [of "ip + 4" src "mat + 4"] match_run_le [of "ip + 4" src "mat + 4"] assms(3) by (simp_all add: p_def)
  have "src ! (ip + j) = src ! (ip - (ip - mat) + j)" if "j < p - ip" for j
  proof (cases "j < 4")
    case False
    then show ?thesis using match_run_equal [of "ip + 4" "ip + j" src "mat + 4"] that f(1) by (simp add: p_def add.commute)
  qed (use f in simp)
  then have "copy_match (ip - mat) (p - ip) (take ip src) = take (ip + (p - ip)) src"
    by (intro copy_match_source) (use f p in auto)
  then have "copy_match (ip - mat) (p - ip - 4 + 4) (take anchor src @ slice src anchor ip) = take p src"
    using p(1) by (simp add: take_slice [OF assms(2)])
  moreover have "length (take anchor src) = anchor" "length (slice src anchor ip) = ip - anchor" using assms(2,3) by (simp_all add: length_slice)
  ultimately show ?thesis
    using dec_sequence [of "take anchor src" "slice src anchor ip" "p - ip - 4" cap "ip - mat" rest] f p assms(2-4) by simp
qed

subsection \<open>Sizes\<close>

lemma length_len_bytes: "length (len_bytes rem) = rem div 255 + 1"
proof (induction rem rule: len_bytes.induct)
  case (1 rem)
  show ?case
  proof (cases "rem \<ge> 255")
    case True
    then have "rem div 255 = (rem - 255) div 255 + 1" by (simp add: le_div_geq)
    then show ?thesis using 1 True by (subst len_bytes.simps) simp
  qed (subst len_bytes.simps, simp)
qed

lemma length_ext_bytes: "length (ext_bytes len) \<le> len div 255 + 1"
  using div_le_mono [of "len - 15" len 255] by (simp add: ext_bytes_def length_len_bytes)

lemma length_ext_bytes_match: "length (ext_bytes m) \<le> m"
proof (cases "15 \<le> m")
  case True
  then have "(m - 15) div 255 + 1 \<le> m" using div_le_dividend [of "m - 15" 255] by linarith
  then show ?thesis using True by (simp add: ext_bytes_def length_len_bytes)
qed (simp add: ext_bytes_def)

lemma length_seq_bytes: "length (seq_bytes lits off m) \<le> length lits + (m + 4) + length lits div 255"
  using length_ext_bytes [of "length lits"] length_ext_bytes_match [of m] by (simp add: seq_bytes_def)

lemma length_lit_bytes: "length (lit_bytes lits) \<le> length lits + length lits div 255 + 2"
  using length_ext_bytes [of "length lits"] by (simp add: lit_bytes_def)

lemma div_add_le: "(a :: nat) div 255 + b div 255 \<le> (a + b) div 255"
  using div_times_less_eq_dividend [of a 255] div_times_less_eq_dividend [of b 255] by (simp add: less_eq_div_iff_mult_less_eq)

subsection \<open>The main loop\<close>

lemma loop_decodes:
  "lz4_loop src cap ctx ip anchor out = Some (a, out1) \<Longrightarrow> anchor \<le> ip \<Longrightarrow> ip \<le> length src \<Longrightarrow> length out \<le> cap \<Longrightarrow> length src \<le> dcap \<Longrightarrow>
    (\<forall>rest. lz4_dec_loop dcap (out @ rest) [] = lz4_dec_loop dcap rest (take anchor src)) \<Longrightarrow>
    a \<le> length src \<and> length out1 \<le> cap \<and> (\<forall>rest. lz4_dec_loop dcap (out1 @ rest) [] = lz4_dec_loop dcap rest (take a src))"
proof (induction src cap ctx ip anchor out rule: lz4_loop.induct)
  case (1 src cap ctx ip anchor out)
  show ?case
  proof (cases "ip < length src - 5")
    case in_loop: True
    obtain f ctx1 where find: "lz4_find src ctx ip = (f, ctx1)" by (cases "lz4_find src ctx ip")
    show ?thesis
    proof (cases f)
      case None
      have "lz4_loop src cap ctx1 (ip + 1) anchor out = Some (a, out1)" using 1(3) in_loop find None by (subst (asm) lz4_loop.simps) simp
      then show ?thesis using 1(1) [OF in_loop find [unfolded None, symmetric] refl] 1(4-8) in_loop by simp
    next
      case (Some mat)
      let ?p = "match_run src (ip + 4) (mat + 4)"
      let ?seq = "seq_bytes (slice src anchor ip) (ip - mat) (?p - ip - 4)"
      have len: "ip + 5 < length src" using in_loop by simp
      note D = match_decodes [OF find [unfolded Some] 1(4) len 1(7)]
      have s: "lz4_sequence cap (slice src anchor ip) (ip - mat) (?p - ip - LZ4_MIN_MATCH) out = put cap ?seq out"
        by (simp add: sequence_put [OF 1(6)] LZ4_MIN_MATCH_def)
      have e: "lz4_loop src cap ctx ip anchor out = (case put cap ?seq out of None \<Rightarrow> None | Some o1 \<Rightarrow> lz4_loop src cap ctx1 ?p ?p o1)"
        using in_loop find Some by (subst lz4_loop.simps) (simp add: s del: diff_diff_left)
      then have fit: "length out + length ?seq \<le> cap" "lz4_loop src cap ctx1 ?p ?p (out @ ?seq) = Some (a, out1)"
        using 1(3) by (auto simp: put_def split: if_splits)
      have "\<forall>rest. lz4_dec_loop dcap ((out @ ?seq) @ rest) [] = lz4_dec_loop dcap rest (take ?p src)" using 1(8) D by simp
      then show ?thesis
        using 1(2) [OF in_loop find [unfolded Some, symmetric] refl, of "out @ ?seq"] s fit D 1(7) by (simp add: put_def)
    qed
  next
    case False
    then have "a = anchor" "out1 = out" using 1(3) by (simp_all add: lz4_loop.simps)
    then show ?thesis using 1 by simp
  qed
qed

lemma loop_fits:
  "anchor \<le> ip \<Longrightarrow> ip \<le> length src \<Longrightarrow> length out \<le> anchor + anchor div 255 \<Longrightarrow> length src + length src div 255 \<le> cap \<Longrightarrow>
    \<exists>a out1. lz4_loop src cap ctx ip anchor out = Some (a, out1) \<and> a \<le> length src \<and> length out1 \<le> a + a div 255"
proof (induction src cap ctx ip anchor out rule: lz4_loop.induct)
  case (1 src cap ctx ip anchor out)
  show ?case
  proof (cases "ip < length src - 5")
    case in_loop: True
    obtain f ctx1 where find: "lz4_find src ctx ip = (f, ctx1)" by (cases "lz4_find src ctx ip")
    show ?thesis
    proof (cases f)
      case None
      have "lz4_loop src cap ctx ip anchor out = lz4_loop src cap ctx1 (ip + 1) anchor out" using in_loop find None by (subst lz4_loop.simps) simp
      then show ?thesis using 1(1) [OF in_loop find [unfolded None, symmetric] refl] 1(3-) in_loop by simp
    next
      case (Some mat)
      let ?p = "match_run src (ip + 4) (mat + 4)"
      let ?seq = "seq_bytes (slice src anchor ip) (ip - mat) (?p - ip - 4)"
      have len: "ip + 5 < length src" using in_loop by simp
      have p: "ip + 4 \<le> ?p" "?p \<le> length src" using match_decodes [OF find [unfolded Some] 1(3) len order_refl] by simp_all
      have "anchor div 255 + (ip - anchor) div 255 \<le> ip div 255" using div_add_le [of anchor "ip - anchor"] 1(3) by simp
      moreover have "ip div 255 \<le> ?p div 255" "?p div 255 \<le> length src div 255" using p by (intro div_le_mono; simp)+
      moreover have "length ?seq \<le> (ip - anchor) + (?p - ip) + (ip - anchor) div 255"
        using length_seq_bytes [of "slice src anchor ip" "ip - mat" "?p - ip - 4"] p(1) 1(3,4) by (simp add: length_slice)
      ultimately have L: "length out + length ?seq \<le> ?p + ?p div 255" "length out + length ?seq \<le> cap" "length out \<le> cap"
        using 1(3,5,6) p by linarith+
      have s: "lz4_sequence cap (slice src anchor ip) (ip - mat) (?p - ip - LZ4_MIN_MATCH) out = Some (out @ ?seq)"
        using L by (simp add: sequence_put LZ4_MIN_MATCH_def put_def)
      then have "lz4_loop src cap ctx ip anchor out = lz4_loop src cap ctx1 ?p ?p (out @ ?seq)"
        using in_loop find Some by (subst lz4_loop.simps) simp
      then show ?thesis using 1(2) [OF in_loop find [unfolded Some, symmetric] refl s] L p 1(6) by simp
    qed
  qed (use 1 in \<open>simp add: lz4_loop.simps\<close>)
qed

subsection \<open>Round trip\<close>

lemma compress_decodes:
  assumes "src \<noteq> []" "length src \<le> dcap" "syn_lz4_compress ctx src cap = Some out"
  shows "lz4_dec_loop dcap out [] = Some src \<and> length out \<le> cap"
proof (cases "length src < LZ4_MIN_MATCH + 1")
  case True
  then have "out = lit_bytes src" "length out \<le> cap" using assms(1,3) by (auto simp: syn_lz4_compress_def literals_put put_def split: if_splits)
  then show ?thesis using dec_literals [of "[]" src dcap] assms(2) by simp
next
  case False
  then obtain a out1 where l: "lz4_loop src cap (syn_lz4_init ctx) 0 0 [] = Some (a, out1)"
    and e: "(if length src - a > 0 then lz4_literals cap (drop a src) out1 else Some out1) = Some out"
    using assms(1,3) by (auto simp: syn_lz4_compress_def split: option.splits)
  have D: "a \<le> length src" "length out1 \<le> cap" "lz4_dec_loop dcap (out1 @ rest) [] = lz4_dec_loop dcap rest (take a src)" for rest
    using loop_decodes [OF l _ _ _ assms(2)] by simp_all
  show ?thesis
  proof (cases "length src - a > 0")
    case True
    then have "out = out1 @ lit_bytes (drop a src)" "length out \<le> cap" using e D(2) by (auto simp: literals_put put_def split: if_splits)
    then show ?thesis using D(3) dec_literals [of "take a src" "drop a src" dcap] assms(2) by simp
  next
    case False
    then show ?thesis using e D(1,2) D(3) [of "[]"] by simp
  qed
qed

lemma compress_fits:
  assumes "src \<noteq> []" "length src + length src div 255 + 2 \<le> cap"
  shows "\<exists>out. syn_lz4_compress ctx src cap = Some out"
proof (cases "length src < LZ4_MIN_MATCH + 1")
  case True
  have "length (lit_bytes src) \<le> cap" using length_lit_bytes [of src] assms(2) by simp
  then show ?thesis using True assms by (auto simp: syn_lz4_compress_def literals_put put_def LZ4_MIN_MATCH_def)
next
  case False
  obtain a out1 where l: "lz4_loop src cap (syn_lz4_init ctx) 0 0 [] = Some (a, out1)" "a \<le> length src" "length out1 \<le> a + a div 255"
    using loop_fits [of 0 0 src "[]" cap "syn_lz4_init ctx"] assms(2) by auto
  have "a div 255 + (length src - a) div 255 \<le> length src div 255" using div_add_le [of a "length src - a"] l(2) by simp
  then have "length out1 + length (lit_bytes (drop a src)) \<le> cap"
    using length_lit_bytes [of "drop a src"] l(2,3) assms(2) by simp
  then show ?thesis using False l assms(1) by (simp add: syn_lz4_compress_def literals_put put_def)
qed

text \<open>The bound is computed without wrapping, or 0.\<close>

lemma unat_compress_bound:
  "unat (syn_lz4_compress_bound n) = (let k = unat n + unat n div 255 + 16 in if k < 2 ^ 32 then k else 0)"
proof -
  have d: "unat (n div 255) = unat n div 255" by (simp add: unat_div)
  have lim: "unat n < 2 ^ 32" "unat n div 255 \<le> unat n" using unsigned_less [of n] by simp_all
  then have q: "unat n div 255 \<le> 16843009" by simp
  have "unat (- 1 - 16 - n div 255) = 4294967279 - unat n div 255"
  proof -
    have m: "(- 1 - 16 :: u32) = 4294967279" by simp
    have "n div 255 \<le> 4294967279" using q by (simp add: word_le_nat_alt d)
    then show ?thesis unfolding m by (simp add: unat_sub d)
  qed
  then have c: "n > - 1 - 16 - n div 255 \<longleftrightarrow> \<not> unat n + unat n div 255 + 16 < 2 ^ 32" using q by (auto simp: word_less_nat_alt)
  show ?thesis
  proof (cases "unat n + unat n div 255 + 16 < 2 ^ 32")
    case True
    then have "unat (n + n div 255 + 16) = unat n + unat n div 255 + 16" by (simp add: unat_word_ariths d)
    then show ?thesis using True c by (simp add: syn_lz4_compress_bound_def Let_def)
  qed (use c in \<open>simp add: syn_lz4_compress_bound_def Let_def\<close>)
qed

text \<open>
  C34: Whenever the compressor returns a block, it fits the output and decompressing it into any buffer that holds the source gives the source back;
  and with an output of the size \<open>syn_lz4_compress_bound\<close> returns (when it is not 0) the compressor always returns one.
\<close>

theorem lz4_roundtrip:
  assumes "src \<noteq> []" "length src < 2 ^ 32" "length src \<le> dcap"
  shows "(\<forall>out. syn_lz4_compress ctx src cap = Some out \<longrightarrow> length out \<le> cap \<and> syn_lz4_decompress out dcap = Some src)
    \<and> (syn_lz4_compress_bound (of_nat (length src)) \<noteq> 0 \<and> unat (syn_lz4_compress_bound (of_nat (length src))) \<le> cap
       \<longrightarrow> (\<exists>out. syn_lz4_compress ctx src cap = Some out))"
proof -
  have "length out \<le> cap \<and> syn_lz4_decompress out dcap = Some src" if c: "syn_lz4_compress ctx src cap = Some out" for out
  proof -
    have "0 < dcap" using assms(1,3) by (cases src) simp_all
    then show ?thesis using compress_decodes [OF assms(1,3) c] assms(1) by (cases "out = []") (auto simp: syn_lz4_decompress_def)
  qed
  moreover have "\<exists>out. syn_lz4_compress ctx src cap = Some out"
    if b: "syn_lz4_compress_bound (of_nat (length src)) \<noteq> 0" "unat (syn_lz4_compress_bound (of_nat (length src))) \<le> cap"
  proof -
    have "unat (of_nat (length src) :: u32) = length src" using assms(2) by (simp add: unat_of_nat)
    moreover have "unat (syn_lz4_compress_bound (of_nat (length src))) \<noteq> 0" using b(1) by (simp add: unat_eq_zero)
    ultimately show ?thesis using b(2) assms(1) compress_fits [of src cap ctx] by (simp add: unat_compress_bound Let_def split: if_splits)
  qed
  ultimately show ?thesis by blast
qed

theorem lz4_roundtrip_witness:
  "\<exists>out. syn_lz4_compress [] [7, 7, 7, 7, 7, 7, 7, 7, 7, 7, 7, 7, 7, 7, 7] 31 = Some out
     \<and> syn_lz4_decompress out 15 = Some [7, 7, 7, 7, 7, 7, 7, 7, 7, 7, 7, 7, 7, 7, 7]"
proof -
  have "unat (syn_lz4_compress_bound (of_nat (length ([7, 7, 7, 7, 7, 7, 7, 7, 7, 7, 7, 7, 7, 7, 7] :: u8 list)))) = 31"
    by (simp add: unat_compress_bound)
  moreover from this have "syn_lz4_compress_bound (of_nat (length ([7, 7, 7, 7, 7, 7, 7, 7, 7, 7, 7, 7, 7, 7, 7] :: u8 list))) \<noteq> 0" by force
  ultimately show ?thesis
    using lz4_roundtrip [of "[7, 7, 7, 7, 7, 7, 7, 7, 7, 7, 7, 7, 7, 7, 7]" 15 "[]" 31] by fastforce
qed

text \<open>On any input the decompressor writes at most the capacity of its output.\<close>

lemma length_copy_match [simp]: "length (copy_match off n out) = length out + n"
  by (induction off n out rule: copy_match.induct) simp_all

lemma dec_loop_bounded: "lz4_dec_loop cap inp out = Some res \<Longrightarrow> length out \<le> cap \<Longrightarrow> length res \<le> cap"
proof (induction cap inp out rule: lz4_dec_loop.induct)
  case (2 cap token inp out)
  then show ?case by (auto simp: Let_def split: option.splits prod.splits if_splits list.splits)
qed simp

lemma lz4_hash_in_table: "unat (lz4_hash4 v) < length (syn_lz4_init ctx)"
proof -
  have "unat (drop_bit 20 w) < 4096" for w :: u32
  proof -
    have "unat w < 2 ^ 32" using unsigned_less [of w] by simp
    then have "unat w div 2 ^ 20 < 4096" by (intro less_mult_imp_div_less) simp
    then show ?thesis by (simp add: drop_bit_eq_div unat_div)
  qed
  then show ?thesis by (simp add: lz4_hash4_def LZ4_HASH_BITS_def syn_lz4_init_def SYN_LZ4_HASH_SIZE_def)
qed

text \<open>
  The LZ4 block format ends every block with at least five literal bytes. This compressor lets a match run to the end of its input: the block of a run of equal
  bytes is one sequence with a match and no literals after it.
\<close>

lemma match_run_replicate: "p \<le> n \<Longrightarrow> ref \<le> p \<Longrightarrow> match_run (replicate n x) p ref = n"
proof (induction "replicate n x" p ref rule: match_run.induct)
  case (1 p ref)
  show ?case
  proof (cases "p < n")
    case True
    then show ?thesis using 1 by (subst match_run.simps) simp
  next
    case False
    then show ?thesis using 1(2) by (subst match_run.simps) simp
  qed
qed

theorem lz4_run_ends_with_match:
  assumes "7 \<le> n" "n + n div 255 + 16 \<le> cap"
  shows "syn_lz4_compress ctx (replicate n x) cap = Some (seq_bytes [x] 1 (n - 5))"
proof -
  let ?src = "replicate n x" and ?t = "syn_lz4_init ctx"
  define v where "v = lz4_read32 ?src 0"
  have v: "lz4_read32 ?src 0 = v" "lz4_read32 ?src 1 = v" using assms(1) by (simp_all add: v_def lz4_read32_def)
  define h where "h = unat (lz4_hash4 v)"
  have h: "h < length ?t" by (simp add: h_def lz4_hash_in_table)
  then have t: "?t[h := 0] ! h = 0" by simp
  have f: "lz4_find ?src ?t 0 = (None, ?t[h := 0])" "lz4_find ?src (?t[h := 0]) 1 = (Some 0, ?t[h := 0, h := 1])"
    using v t by (simp_all add: lz4_find_def Let_def flip: h_def)
  have m: "match_run ?src (1 + 4) (0 + 4) = n" by (rule match_run_replicate) (use assms(1) in simp_all)
  have c: "1 < n - 5" using assms(1) by simp
  have s: "slice ?src 0 1 = [x]" using assms(1) by (cases n) (simp_all add: slice_def)
  have "length (seq_bytes [x] 1 (n - 5)) \<le> cap" using length_seq_bytes [of "[x]" 1 "n - 5"] assms by simp
  then have q: "lz4_sequence cap (slice ?src 0 1) (1 - 0) (n - 1 - LZ4_MIN_MATCH) [] = Some (seq_bytes [x] 1 (n - 5))"
    unfolding s by (simp add: sequence_put put_def LZ4_MIN_MATCH_def)
  have "lz4_loop ?src cap ?t 0 0 [] = lz4_loop ?src cap (?t[h := 0]) 1 0 []" using assms(1) f(1) by (subst lz4_loop.simps) simp
  also have "\<dots> = lz4_loop ?src cap (?t[h := 0, h := 1]) n n (seq_bytes [x] 1 (n - 5))"
    by (subst lz4_loop.simps) (simp only: f m q c length_replicate option.case prod.case if_True)
  also have "\<dots> = Some (n, seq_bytes [x] 1 (n - 5))"
  proof -
    have "\<not> n < n - 5" by simp
    then show ?thesis by (subst lz4_loop.simps) (simp only: length_replicate if_False)
  qed
  finally show ?thesis using assms(1) by (simp add: syn_lz4_compress_def LZ4_MIN_MATCH_def)
qed

end
