(* ===== verification/Syn_Modbus.thy ===== *)
theory Syn_Modbus
  imports Syn_Crc Syn_Pack
begin

text \<open>
  The Modbus RTU slave of \<^verbatim>\<open>proto/syn_modbus.c\<close>: reception, dispatch and every function-code handler. The receive and response buffer is a
  list whose length changes if a write leaves it (\<open>copy_into\<close>). Frames given to the UART are appended to \<open>mb_uart\<close>.
  The application's callbacks are functions on its state \<open>'s\<close>, which the instance carries; they return their verdict and the new state. Lengths and indices
  are natural numbers: they are bounded by the buffer size, which a \<^verbatim>\<open>uint16_t\<close> holds.
\<close>

definition MB_SILENCE_MS :: u32 where "MB_SILENCE_MS = 5"
definition MB_MIN_FRAME_LEN :: nat where "MB_MIN_FRAME_LEN = 4"

definition SYN_MB_FC_READ_COILS :: u8 where "SYN_MB_FC_READ_COILS = 0x01"
definition SYN_MB_FC_READ_DISCRETE_INPUTS :: u8 where "SYN_MB_FC_READ_DISCRETE_INPUTS = 0x02"
definition SYN_MB_FC_READ_HOLDING :: u8 where "SYN_MB_FC_READ_HOLDING = 0x03"
definition SYN_MB_FC_READ_INPUT :: u8 where "SYN_MB_FC_READ_INPUT = 0x04"
definition SYN_MB_FC_WRITE_SINGLE_COIL :: u8 where "SYN_MB_FC_WRITE_SINGLE_COIL = 0x05"
definition SYN_MB_FC_WRITE_SINGLE :: u8 where "SYN_MB_FC_WRITE_SINGLE = 0x06"
definition SYN_MB_FC_READ_EXCEPTION_STATUS :: u8 where "SYN_MB_FC_READ_EXCEPTION_STATUS = 0x07"
definition SYN_MB_FC_DIAGNOSTICS :: u8 where "SYN_MB_FC_DIAGNOSTICS = 0x08"
definition SYN_MB_FC_GET_COMM_EVENT_CNT :: u8 where "SYN_MB_FC_GET_COMM_EVENT_CNT = 0x0B"
definition SYN_MB_FC_GET_COMM_EVENT_LOG :: u8 where "SYN_MB_FC_GET_COMM_EVENT_LOG = 0x0C"
definition SYN_MB_FC_WRITE_MULTIPLE_COILS :: u8 where "SYN_MB_FC_WRITE_MULTIPLE_COILS = 0x0F"
definition SYN_MB_FC_WRITE_MULTIPLE :: u8 where "SYN_MB_FC_WRITE_MULTIPLE = 0x10"
definition SYN_MB_FC_REPORT_SERVER_ID :: u8 where "SYN_MB_FC_REPORT_SERVER_ID = 0x11"
definition SYN_MB_FC_READ_FILE_RECORD :: u8 where "SYN_MB_FC_READ_FILE_RECORD = 0x14"
definition SYN_MB_FC_WRITE_FILE_RECORD :: u8 where "SYN_MB_FC_WRITE_FILE_RECORD = 0x15"
definition SYN_MB_FC_MASK_WRITE_REGISTER :: u8 where "SYN_MB_FC_MASK_WRITE_REGISTER = 0x16"
definition SYN_MB_FC_READ_WRITE_MULTIPLE :: u8 where "SYN_MB_FC_READ_WRITE_MULTIPLE = 0x17"
definition SYN_MB_FC_READ_FIFO_QUEUE :: u8 where "SYN_MB_FC_READ_FIFO_QUEUE = 0x18"
definition SYN_MB_FC_READ_DEVICE_INFO :: u8 where "SYN_MB_FC_READ_DEVICE_INFO = 0x2B"
definition SYN_MB_MEI_TYPE_READ_DEVICE_ID :: u8 where "SYN_MB_MEI_TYPE_READ_DEVICE_ID = 0x0E"
definition SYN_MB_EX_ILLEGAL_FUNC :: u8 where "SYN_MB_EX_ILLEGAL_FUNC = 0x01"
definition SYN_MB_EX_ILLEGAL_ADDR :: u8 where "SYN_MB_EX_ILLEGAL_ADDR = 0x02"
definition SYN_MB_EX_ILLEGAL_VALUE :: u8 where "SYN_MB_EX_ILLEGAL_VALUE = 0x03"
definition SYN_MB_EX_DEVICE_FAILURE :: u8 where "SYN_MB_EX_DEVICE_FAILURE = 0x04"

lemmas mb_codes = SYN_MB_FC_READ_COILS_def SYN_MB_FC_READ_DISCRETE_INPUTS_def SYN_MB_FC_READ_HOLDING_def SYN_MB_FC_READ_INPUT_def
  SYN_MB_FC_WRITE_SINGLE_COIL_def SYN_MB_FC_WRITE_SINGLE_def SYN_MB_FC_READ_EXCEPTION_STATUS_def SYN_MB_FC_DIAGNOSTICS_def
  SYN_MB_FC_GET_COMM_EVENT_CNT_def SYN_MB_FC_GET_COMM_EVENT_LOG_def SYN_MB_FC_WRITE_MULTIPLE_COILS_def SYN_MB_FC_WRITE_MULTIPLE_def
  SYN_MB_FC_REPORT_SERVER_ID_def SYN_MB_FC_READ_FILE_RECORD_def SYN_MB_FC_WRITE_FILE_RECORD_def SYN_MB_FC_MASK_WRITE_REGISTER_def
  SYN_MB_FC_READ_WRITE_MULTIPLE_def SYN_MB_FC_READ_FIFO_QUEUE_def SYN_MB_FC_READ_DEVICE_INFO_def

lemmas mb_exceptions = SYN_MB_EX_ILLEGAL_FUNC_def SYN_MB_EX_ILLEGAL_ADDR_def SYN_MB_EX_ILLEGAL_VALUE_def SYN_MB_EX_DEVICE_FAILURE_def

record modbus_device_info =
  vendor_name :: "u8 list option"
  product_code :: "u8 list option"
  revision :: "u8 list option"
  vendor_url :: "u8 list option"
  product_name :: "u8 list option"
  model_name :: "u8 list option"
  user_app_name :: "u8 list option"

record 's modbus_config =
  slave_addr :: u8
  holding_regs :: "u16 list option"
  holding_count :: u16
  input_regs :: "u16 list option"
  input_count :: u16
  coils :: "u8 list option"
  coils_count :: u16
  discrete_inputs :: "u8 list option"
  discrete_count :: u16
  fifo_queue :: "u16 list option"
  fifo_count :: u16
  on_write :: "('s \<Rightarrow> u16 \<Rightarrow> u16 \<Rightarrow> bool \<times> 's) option"
  silence_ms :: u32
  exception_status :: u8
  device_info :: "modbus_device_info option"
  server_id :: "u8 list option"
  server_id_len :: u8
  on_read_file :: "('s \<Rightarrow> u16 \<Rightarrow> u16 \<Rightarrow> u16 \<Rightarrow> u16 list option \<times> 's) option"
  on_write_file :: "('s \<Rightarrow> u16 \<Rightarrow> u16 \<Rightarrow> u16 \<Rightarrow> u16 list \<Rightarrow> bool \<times> 's) option"

record 's modbus =
  mb_cfg :: "'s modbus_config"
  mb_buf :: "u8 list"
  mb_buf_size :: nat
  mb_rx_len :: nat
  mb_last_byte_tick :: u32
  mb_frame_ready :: bool
  mb_frames_rx :: u32
  mb_frames_tx :: u32
  mb_errors :: u32
  mb_comm_event_counter :: u16
  mb_bus_message_count :: u16
  mb_app :: 's
  mb_uart :: "u8 list list"

subsection \<open>Helpers\<close>

definition read_u16 :: "u8 list \<Rightarrow> nat \<Rightarrow> u16" where "read_u16 buf i = syn_peek_u16 buf i"

definition write_u16 :: "u8 list \<Rightarrow> nat \<Rightarrow> u16 \<Rightarrow> u8 list" where "write_u16 buf i val = fst (syn_pack_u16 buf i val)"

definition check_crc :: "u8 list \<Rightarrow> nat \<Rightarrow> bool" where
  "check_crc buf len = (if len < 2 then False else syn_peek_u16_le buf (len - 2) = syn_crc16_modbus (take (len - 2) buf))"

definition append_crc :: "u8 list \<Rightarrow> nat \<Rightarrow> u8 list" where
  "append_crc buf len = syn_poke_u16_le (syn_crc16_modbus (take len buf)) buf len"

definition set_byte :: "nat \<Rightarrow> u8 \<Rightarrow> 's modbus \<Rightarrow> 's modbus" where
  "set_byte i b mb = mb\<lparr>mb_buf := copy_into (mb_buf mb) i [b]\<rparr>"

definition send_response :: "'s modbus \<Rightarrow> nat \<Rightarrow> 's modbus" where
  "send_response mb len =
     (if mb_buf mb ! 0 = 0 then mb
      else let buf = append_crc (mb_buf mb) len
           in mb\<lparr>mb_buf := buf, mb_uart := mb_uart mb @ [take (len + 2) buf], mb_frames_tx := mb_frames_tx mb + 1\<rparr>)"

definition send_exception :: "'s modbus \<Rightarrow> u8 \<Rightarrow> u8 \<Rightarrow> 's modbus" where
  "send_exception mb func ex_code =
     (if mb_buf mb ! 0 = 0 then mb\<lparr>mb_errors := mb_errors mb + 1\<rparr>
      else
        let mb1 = set_byte 2 ex_code (set_byte 1 (func OR 0x80) (set_byte 0 (slave_addr (mb_cfg mb)) mb));
            mb2 = send_response mb1 3
        in mb2\<lparr>mb_errors := mb_errors mb2 + 1\<rparr>)"

text \<open>The loops that store values as big-endian words, fetch words, and store registers.\<close>

fun write_words :: "u8 list \<Rightarrow> nat \<Rightarrow> u16 list \<Rightarrow> u8 list" where
  "write_words buf i [] = buf"
| "write_words buf i (v # vs) = write_words (write_u16 buf i v) (i + 2) vs"

definition read_words :: "u8 list \<Rightarrow> nat \<Rightarrow> nat \<Rightarrow> u16 list" where
  "read_words buf i n = map (\<lambda>k. read_u16 buf (i + 2 * k)) [0..<n]"

fun store_regs :: "u16 list \<Rightarrow> nat \<Rightarrow> u16 list \<Rightarrow> u16 list" where
  "store_regs regs a [] = regs"
| "store_regs regs a (v # vs) = store_regs (copy_into regs a [v]) (a + 1) vs"

definition fetch_regs :: "u16 list \<Rightarrow> nat \<Rightarrow> nat \<Rightarrow> u16 list" where
  "fetch_regs regs a n = map (\<lambda>k. regs ! (a + k)) [0..<n]"

definition set_holding :: "u16 list \<Rightarrow> 's modbus \<Rightarrow> 's modbus" where
  "set_holding regs mb = mb\<lparr>mb_cfg := (mb_cfg mb)\<lparr>holding_regs := Some regs\<rparr>\<rparr>"

definition set_coils :: "u8 list \<Rightarrow> 's modbus \<Rightarrow> 's modbus" where
  "set_coils bits mb = mb\<lparr>mb_cfg := (mb_cfg mb)\<lparr>coils := Some bits\<rparr>\<rparr>"

definition bump_event :: "'s modbus \<Rightarrow> 's modbus" where
  "bump_event mb = mb\<lparr>mb_comm_event_counter := mb_comm_event_counter mb + 1\<rparr>"

text \<open>The write callback, if there is one: its verdict and the application state.\<close>

definition ask_write :: "'s modbus \<Rightarrow> u16 \<Rightarrow> u16 \<Rightarrow> bool \<times> 's modbus" where
  "ask_write mb addr count =
     (case on_write (mb_cfg mb) of
        None \<Rightarrow> (True, mb)
      | Some f \<Rightarrow> let (ok, s) = f (mb_app mb) addr count in (ok, mb\<lparr>mb_app := s\<rparr>))"

subsection \<open>Register handlers\<close>

definition handle_read_regs :: "'s modbus \<Rightarrow> nat \<Rightarrow> u16 list option \<Rightarrow> u16 \<Rightarrow> 's modbus" where
  "handle_read_regs mb frame_len regs reg_count =
     (let func = mb_buf mb ! 1
      in if frame_len < 8 then send_exception mb func SYN_MB_EX_ILLEGAL_VALUE
         else
           let addr = unat (read_u16 (mb_buf mb) 2);
               count = unat (read_u16 (mb_buf mb) 4)
           in if count = 0 \<or> count > 125 then send_exception mb func SYN_MB_EX_ILLEGAL_VALUE
              else if addr + count > unat reg_count then send_exception mb func SYN_MB_EX_ILLEGAL_ADDR
              else
                let mb1 = set_byte 2 (of_nat (count * 2)) mb;
                    mb2 = mb1\<lparr>mb_buf := write_words (mb_buf mb1) 3 (fetch_regs (the regs) addr count)\<rparr>
                in send_response mb2 (3 + count * 2))"

definition handle_write_single :: "'s modbus \<Rightarrow> nat \<Rightarrow> 's modbus" where
  "handle_write_single mb frame_len =
     (if frame_len < 8 then send_exception mb SYN_MB_FC_WRITE_SINGLE SYN_MB_EX_ILLEGAL_VALUE
      else
        let addr = read_u16 (mb_buf mb) 2;
            value = read_u16 (mb_buf mb) 4
        in if addr \<ge> holding_count (mb_cfg mb) then send_exception mb SYN_MB_FC_WRITE_SINGLE SYN_MB_EX_ILLEGAL_ADDR
           else
             let (ok, mb1) = ask_write mb addr 1
             in if \<not> ok then send_exception mb1 SYN_MB_FC_WRITE_SINGLE SYN_MB_EX_ILLEGAL_VALUE
                else send_response (set_holding (copy_into (the (holding_regs (mb_cfg mb1))) (unat addr) [value]) mb1) 6)"

definition handle_write_multiple :: "'s modbus \<Rightarrow> nat \<Rightarrow> 's modbus" where
  "handle_write_multiple mb frame_len =
     (if frame_len < 9 then send_exception mb SYN_MB_FC_WRITE_MULTIPLE SYN_MB_EX_ILLEGAL_VALUE
      else
        let addr = read_u16 (mb_buf mb) 2;
            count = read_u16 (mb_buf mb) 4;
            bytes = unat (mb_buf mb ! 6)
        in if count = 0 \<or> count > 123 \<or> bytes \<noteq> unat count * 2 \<or> frame_len < 9 + bytes
           then send_exception mb SYN_MB_FC_WRITE_MULTIPLE SYN_MB_EX_ILLEGAL_VALUE
           else if unat addr + unat count > unat (holding_count (mb_cfg mb))
           then send_exception mb SYN_MB_FC_WRITE_MULTIPLE SYN_MB_EX_ILLEGAL_ADDR
           else
             let (ok, mb1) = ask_write mb addr count
             in if \<not> ok then send_exception mb1 SYN_MB_FC_WRITE_MULTIPLE SYN_MB_EX_ILLEGAL_VALUE
                else send_response
                       (set_holding (store_regs (the (holding_regs (mb_cfg mb1))) (unat addr) (read_words (mb_buf mb1) 7 (unat count))) mb1) 6)"

definition handle_read_exception_status :: "'s modbus \<Rightarrow> 's modbus" where
  "handle_read_exception_status mb = send_response (set_byte 2 (exception_status (mb_cfg mb)) mb) 3"

definition handle_read_write_multiple :: "'s modbus \<Rightarrow> nat \<Rightarrow> 's modbus" where
  "handle_read_write_multiple mb frame_len =
     (let fc = SYN_MB_FC_READ_WRITE_MULTIPLE
      in if frame_len < 13 then send_exception mb fc SYN_MB_EX_ILLEGAL_VALUE
         else
           let read_addr = unat (read_u16 (mb_buf mb) 2);
               read_count = unat (read_u16 (mb_buf mb) 4);
               write_addr = read_u16 (mb_buf mb) 6;
               write_count = read_u16 (mb_buf mb) 8;
               write_bytes = unat (mb_buf mb ! 10)
           in if read_count = 0 \<or> read_count > 125 \<or> write_count = 0 \<or> write_count > 121 \<or> write_bytes \<noteq> unat write_count * 2
                 \<or> frame_len < 13 + write_bytes
              then send_exception mb fc SYN_MB_EX_ILLEGAL_VALUE
              else if read_addr + read_count > unat (holding_count (mb_cfg mb))
                 \<or> unat write_addr + unat write_count > unat (holding_count (mb_cfg mb))
              then send_exception mb fc SYN_MB_EX_ILLEGAL_ADDR
              else
                let (ok, mb1) = ask_write mb write_addr write_count
                in if \<not> ok then send_exception mb1 fc SYN_MB_EX_ILLEGAL_VALUE
                   else
                     let regs = store_regs (the (holding_regs (mb_cfg mb1))) (unat write_addr) (read_words (mb_buf mb1) 11 (unat write_count));
                         mb2 = set_byte 2 (of_nat (read_count * 2)) (set_holding regs mb1);
                         mb3 = mb2\<lparr>mb_buf := write_words (mb_buf mb2) 3 (fetch_regs regs read_addr read_count)\<rparr>
                     in send_response mb3 (3 + read_count * 2))"

subsection \<open>Device identification\<close>

definition ascii :: "string \<Rightarrow> u8 list" where "ascii s = map (\<lambda>c. of_char c) s"

definition info_string :: "modbus_device_info option \<Rightarrow> u8 \<Rightarrow> u8 list option" where
  "info_string info oid =
     (let str = (case info of
          None \<Rightarrow> None
        | Some d \<Rightarrow>
            if oid = 0 then vendor_name d else if oid = 1 then product_code d else if oid = 2 then revision d
            else if oid = 3 then vendor_url d else if oid = 4 then product_name d else if oid = 5 then model_name d
            else if oid = 6 then user_app_name d else None)
      in case str of
           Some x \<Rightarrow> Some x
         | None \<Rightarrow>
             if oid = 0 then Some (ascii ''SyntropicOS'') else if oid = 1 then Some (ascii ''SYN-MB'')
             else if oid = 2 then Some (ascii ''1.0.0'') else None)"

text \<open>The loop over the object ids, whose counter is a byte.\<close>

lemma info_string_0: "info_string info 0 \<noteq> None"
  by (simp add: info_string_def split: option.split)

function info_loop :: "modbus_device_info option \<Rightarrow> nat \<Rightarrow> u8 \<Rightarrow> u8 \<Rightarrow> nat \<Rightarrow> u8 \<Rightarrow> u8 list \<Rightarrow> u8 list \<times> nat \<times> u8" where
  "info_loop info buf_size max_obj oid pos obj_count buf =
     (if oid \<le> max_obj
      then
        case info_string info oid of
          None \<Rightarrow> info_loop info buf_size max_obj (oid + 1) pos obj_count buf
        | Some str \<Rightarrow>
            let slen = (if length str > 245 then 245 else length str)
            in if pos + 2 + slen > buf_size - 2 then (buf, pos, obj_count)
               else info_loop info buf_size max_obj (oid + 1) (pos + 2 + slen) (obj_count + 1)
                      (copy_into buf pos ([oid, of_nat slen] @ take slen str))
      else (buf, pos, obj_count))"
  by pat_completeness auto
termination
proof (relation "inv_image (less_than <*lex*> less_than) (\<lambda>(info, buf_size, max_obj, oid, pos, c, buf). (buf_size - pos, unat (- oid)))", goal_cases)
  case (2 info buf_size max_obj oid pos c buf)
  then have "oid \<noteq> 0" using info_string_0 by metis
  then have nz: "- oid \<noteq> 0" by simp
  have "- (oid + 1) = - oid - 1" by simp
  then have "unat (- (oid + 1)) = unat (- oid) - 1" using unat_minus_one [OF nz] by metis
  moreover have "0 < unat (- oid)" using nz by (metis unat_gt_0)
  ultimately have "unat (- (oid + 1)) < unat (- oid)" by linarith
  then show ?case by simp
qed auto

declare info_loop.simps [simp del]

definition handle_read_device_info :: "'s modbus \<Rightarrow> nat \<Rightarrow> 's modbus" where
  "handle_read_device_info mb frame_len =
     (let fc = SYN_MB_FC_READ_DEVICE_INFO
      in if frame_len < 7 then send_exception mb fc SYN_MB_EX_ILLEGAL_VALUE
         else if mb_buf mb ! 2 \<noteq> SYN_MB_MEI_TYPE_READ_DEVICE_ID then send_exception mb fc SYN_MB_EX_ILLEGAL_VALUE
         else
           let read_code = mb_buf mb ! 3;
               object_id = mb_buf mb ! 4
           in if read_code < 1 \<or> read_code > 4 then send_exception mb fc SYN_MB_EX_ILLEGAL_VALUE
              else
                let mb1 = mb\<lparr>mb_buf := copy_into (mb_buf mb) 2 [SYN_MB_MEI_TYPE_READ_DEVICE_ID, read_code, 0x01, 0x00, 0x00]\<rparr>;
                    start_obj = (if read_code = 0x04 then object_id else 0);
                    max_obj = (if read_code = 0x04 then object_id else if read_code = 0x01 then 2 else 6);
                    (buf, pos, obj_count) = info_loop (device_info (mb_cfg mb1)) (mb_buf_size mb1) max_obj start_obj 8 0 (mb_buf mb1)
                in send_response (mb1\<lparr>mb_buf := copy_into buf 7 [obj_count]\<rparr>) pos)"

subsection \<open>File records\<close>

text \<open>
  The loop over the sub-requests of a file read, with its local response array of 256 bytes: an exception code, or the
  array filled up to a position.
\<close>

fun read_file_loop :: "('s \<Rightarrow> u16 \<Rightarrow> u16 \<Rightarrow> u16 \<Rightarrow> u16 list option \<times> 's) \<Rightarrow> nat \<Rightarrow> u8 list \<Rightarrow> nat \<Rightarrow> nat \<Rightarrow> u8 list \<Rightarrow> nat \<Rightarrow> 's
    \<Rightarrow> (u8 + u8 list \<times> nat) \<times> 's" where
  "read_file_loop cb buf_size buf 0 req_pos resp_buf resp_pos s = (Inr (resp_buf, resp_pos), s)"
| "read_file_loop cb buf_size buf (Suc n) req_pos resp_buf resp_pos s =
     (let ref_type = buf ! req_pos;
          file_num = read_u16 buf (req_pos + 1);
          rec_num = read_u16 buf (req_pos + 3);
          rec_len = read_u16 buf (req_pos + 5)
      in if ref_type \<noteq> 0x06 \<or> rec_len = 0 \<or> rec_len > 120 then (Inl SYN_MB_EX_ILLEGAL_VALUE, s)
         else case cb s file_num rec_num rec_len of
                (None, s1) \<Rightarrow> (Inl SYN_MB_EX_ILLEGAL_ADDR, s1)
              | (Some rec_data, s1) \<Rightarrow>
                  if resp_pos + 2 + unat rec_len * 2 > buf_size - 2 then (Inl SYN_MB_EX_ILLEGAL_VALUE, s1)
                  else
                    let resp1 = copy_into resp_buf resp_pos [of_nat (1 + unat rec_len * 2), 0x06];
                        resp2 = write_words resp1 (resp_pos + 2) (fetch_regs rec_data 0 (unat rec_len))
                    in read_file_loop cb buf_size buf n (req_pos + 7) resp2 (resp_pos + 2 + unat rec_len * 2) s1)"

definition handle_read_file_record :: "'s modbus \<Rightarrow> nat \<Rightarrow> 's modbus" where
  "handle_read_file_record mb frame_len =
     (let fc = SYN_MB_FC_READ_FILE_RECORD
      in if frame_len < 5 then send_exception mb fc SYN_MB_EX_ILLEGAL_VALUE
         else
           let byte_count = unat (mb_buf mb ! 2)
           in if byte_count < 7 \<or> byte_count mod 7 \<noteq> 0 \<or> frame_len < 5 + byte_count then send_exception mb fc SYN_MB_EX_ILLEGAL_VALUE
              else case on_read_file (mb_cfg mb) of
                     None \<Rightarrow> send_exception mb fc SYN_MB_EX_ILLEGAL_VALUE
                   | Some cb \<Rightarrow>
                       (case read_file_loop cb (mb_buf_size mb) (mb_buf mb) (byte_count div 7) 3 (replicate 256 0) 3 (mb_app mb) of
                          (Inl ex, s) \<Rightarrow> send_exception (mb\<lparr>mb_app := s\<rparr>) fc ex
                        | (Inr (resp_buf, resp_pos), s) \<Rightarrow>
                            let resp = copy_into resp_buf 0 [slave_addr (mb_cfg mb), fc, of_nat (resp_pos - 3)]
                            in send_response (mb\<lparr>mb_app := s, mb_buf := copy_into (mb_buf mb) 0 (take resp_pos resp)\<rparr>) resp_pos))"

text \<open>The loop over the records of a file write, up to \<open>end_pos\<close>.\<close>

function write_file_loop :: "('s \<Rightarrow> u16 \<Rightarrow> u16 \<Rightarrow> u16 \<Rightarrow> u16 list \<Rightarrow> bool \<times> 's) \<Rightarrow> u8 list \<Rightarrow> nat \<Rightarrow> nat \<Rightarrow> 's \<Rightarrow> u8 option \<times> 's" where
  "write_file_loop cb buf end_pos pos s =
     (if pos < end_pos
      then
        if pos + 7 > end_pos then (Some SYN_MB_EX_ILLEGAL_VALUE, s)
        else
          let ref_type = buf ! pos;
              file_num = read_u16 buf (pos + 1);
              rec_num = read_u16 buf (pos + 3);
              rec_len = read_u16 buf (pos + 5);
              pos1 = pos + 7
          in if ref_type \<noteq> 0x06 \<or> rec_len = 0 \<or> pos1 + unat rec_len * 2 > end_pos then (Some SYN_MB_EX_ILLEGAL_VALUE, s)
             else if rec_len > 120 then (Some SYN_MB_EX_ILLEGAL_VALUE, s)
             else case cb s file_num rec_num rec_len (read_words buf pos1 (unat rec_len)) of
                    (False, s1) \<Rightarrow> (Some SYN_MB_EX_ILLEGAL_ADDR, s1)
                  | (True, s1) \<Rightarrow> write_file_loop cb buf end_pos (pos1 + unat rec_len * 2) s1
      else (None, s))"
  by pat_completeness auto
termination by (relation "measure (\<lambda>(cb, buf, end_pos, pos, s). end_pos - pos)") auto

declare write_file_loop.simps [simp del]

definition handle_write_file_record :: "'s modbus \<Rightarrow> nat \<Rightarrow> 's modbus" where
  "handle_write_file_record mb frame_len =
     (let fc = SYN_MB_FC_WRITE_FILE_RECORD
      in if frame_len < 5 then send_exception mb fc SYN_MB_EX_ILLEGAL_VALUE
         else
           let data_len = unat (mb_buf mb ! 2)
           in if data_len < 9 \<or> frame_len < 5 + data_len then send_exception mb fc SYN_MB_EX_ILLEGAL_VALUE
              else case on_write_file (mb_cfg mb) of
                     None \<Rightarrow> send_exception mb fc SYN_MB_EX_ILLEGAL_VALUE
                   | Some cb \<Rightarrow>
                       (case write_file_loop cb (mb_buf mb) (3 + data_len) 3 (mb_app mb) of
                          (Some ex, s) \<Rightarrow> send_exception (mb\<lparr>mb_app := s\<rparr>) fc ex
                        | (None, s) \<Rightarrow> send_response (mb\<lparr>mb_app := s\<rparr>) (3 + data_len)))"

subsection \<open>Reception\<close>

definition syn_modbus_init :: "'s modbus_config \<Rightarrow> u8 list \<Rightarrow> nat \<Rightarrow> 's \<Rightarrow> 's modbus" where
  "syn_modbus_init cfg buf buf_size app =
     \<lparr>mb_cfg = cfg, mb_buf = buf, mb_buf_size = buf_size, mb_rx_len = 0, mb_last_byte_tick = 0, mb_frame_ready = False, mb_frames_rx = 0,
      mb_frames_tx = 0, mb_errors = 0, mb_comm_event_counter = 0, mb_bus_message_count = 0, mb_app = app, mb_uart = []\<rparr>"

definition silence_gap :: "'s modbus \<Rightarrow> u32" where
  "silence_gap mb = (if silence_ms (mb_cfg mb) > 0 then silence_ms (mb_cfg mb) else MB_SILENCE_MS)"

definition accept_byte :: "u8 \<Rightarrow> u32 \<Rightarrow> 's modbus \<Rightarrow> 's modbus" where
  "accept_byte b now mb =
     (let mb1 = (if mb_rx_len mb < mb_buf_size mb
                 then mb\<lparr>mb_buf := copy_into (mb_buf mb) (mb_rx_len mb) [b], mb_rx_len := mb_rx_len mb + 1\<rparr> else mb)
      in mb1\<lparr>mb_last_byte_tick := now\<rparr>)"

definition syn_modbus_feed :: "'s modbus \<Rightarrow> u32 \<Rightarrow> u8 \<Rightarrow> 's modbus" where
  "syn_modbus_feed mb now byte =
     (if mb_rx_len mb > 0 \<and> now - mb_last_byte_tick mb \<ge> silence_gap mb
      then let mb1 = mb\<lparr>mb_frame_ready := mb_rx_len mb \<ge> MB_MIN_FRAME_LEN\<rparr>
           in if \<not> mb_frame_ready mb1 then mb1\<lparr>mb_rx_len := 0\<rparr> else mb1
      else accept_byte byte now mb)"

subsection \<open>Bit handlers\<close>

definition get_bit :: "u8 list \<Rightarrow> nat \<Rightarrow> nat \<Rightarrow> bool" where
  "get_bit bits base idx \<longleftrightarrow> bits ! (base + idx div 8) AND push_bit (idx mod 8) 1 \<noteq> 0"

definition mb_set_bit :: "u8 list \<Rightarrow> nat \<Rightarrow> nat \<Rightarrow> bool \<Rightarrow> u8 list" where
  "mb_set_bit bits base idx val =
     (let old = bits ! (base + idx div 8)
      in copy_into bits (base + idx div 8) [if val then old OR push_bit (idx mod 8) 1 else old AND NOT (push_bit (idx mod 8) 1)])"

definition read_bits_loop :: "u8 list \<Rightarrow> nat \<Rightarrow> nat \<Rightarrow> u8 list \<Rightarrow> u8 list" where
  "read_bits_loop bits addr count buf =
     fold (\<lambda>i buf. if get_bit bits 0 (addr + i) then mb_set_bit buf 3 i True else buf) [0..<count] buf"

definition write_bits_loop :: "u8 list \<Rightarrow> nat \<Rightarrow> nat \<Rightarrow> u8 list \<Rightarrow> u8 list" where
  "write_bits_loop buf addr count bits = fold (\<lambda>i bits. mb_set_bit bits 0 (addr + i) (get_bit buf 7 i)) [0..<count] bits"

definition handle_read_bits :: "'s modbus \<Rightarrow> nat \<Rightarrow> u8 list option \<Rightarrow> u16 \<Rightarrow> 's modbus" where
  "handle_read_bits mb frame_len bits0 total_bits =
     (let func = mb_buf mb ! 1
      in case bits0 of None \<Rightarrow> send_exception mb func SYN_MB_EX_ILLEGAL_ADDR
         | Some bits \<Rightarrow>
             if frame_len < 8 then send_exception mb func SYN_MB_EX_ILLEGAL_VALUE
             else
               let addr = unat (read_u16 (mb_buf mb) 2);
                   count = unat (read_u16 (mb_buf mb) 4)
               in if count = 0 \<or> count > 2000 then send_exception mb func SYN_MB_EX_ILLEGAL_VALUE
                  else if addr + count > unat total_bits then send_exception mb func SYN_MB_EX_ILLEGAL_ADDR
                  else
                    let num_bytes = (count + 7) div 8;
                        mb1 = set_byte 2 (of_nat num_bytes) mb;
                        buf1 = copy_into (mb_buf mb1) 3 (replicate num_bytes 0);
                        mb2 = mb1\<lparr>mb_buf := read_bits_loop bits addr count buf1\<rparr>
                    in bump_event (send_response mb2 (3 + num_bytes)))"

definition handle_write_single_coil :: "'s modbus \<Rightarrow> nat \<Rightarrow> 's modbus" where
  "handle_write_single_coil mb frame_len =
     (let func = mb_buf mb ! 1
      in case coils (mb_cfg mb) of None \<Rightarrow> send_exception mb func SYN_MB_EX_ILLEGAL_ADDR
         | Some bits \<Rightarrow>
             if frame_len < 8 then send_exception mb func SYN_MB_EX_ILLEGAL_VALUE
             else
               let addr = read_u16 (mb_buf mb) 2;
                   val = read_u16 (mb_buf mb) 4
               in if val \<noteq> 0xFF00 \<and> val \<noteq> 0x0000 then send_exception mb func SYN_MB_EX_ILLEGAL_VALUE
                  else if addr \<ge> coils_count (mb_cfg mb) then send_exception mb func SYN_MB_EX_ILLEGAL_ADDR
                  else bump_event (send_response (set_coils (mb_set_bit bits 0 (unat addr) (val = 0xFF00)) mb) 6))"

definition handle_write_multiple_coils :: "'s modbus \<Rightarrow> nat \<Rightarrow> 's modbus" where
  "handle_write_multiple_coils mb frame_len =
     (let func = mb_buf mb ! 1
      in case coils (mb_cfg mb) of None \<Rightarrow> send_exception mb func SYN_MB_EX_ILLEGAL_ADDR
         | Some bits \<Rightarrow>
             if frame_len < 9 then send_exception mb func SYN_MB_EX_ILLEGAL_VALUE
             else
               let addr = unat (read_u16 (mb_buf mb) 2);
                   count = unat (read_u16 (mb_buf mb) 4);
                   byte_count = unat (mb_buf mb ! 6);
                   expected_bytes = (count + 7) div 8 mod 256
               in if count = 0 \<or> count > 1968 \<or> byte_count \<noteq> expected_bytes \<or> frame_len < 9 + byte_count
                  then send_exception mb func SYN_MB_EX_ILLEGAL_VALUE
                  else if addr + count > unat (coils_count (mb_cfg mb)) then send_exception mb func SYN_MB_EX_ILLEGAL_ADDR
                  else bump_event (send_response (set_coils (write_bits_loop (mb_buf mb) addr count bits) mb) 6))"

subsection \<open>Diagnostics\<close>

definition handle_diagnostics :: "'s modbus \<Rightarrow> nat \<Rightarrow> 's modbus" where
  "handle_diagnostics mb frame_len =
     (let func = mb_buf mb ! 1
      in if frame_len < 6 then send_exception mb func SYN_MB_EX_ILLEGAL_VALUE
         else if read_u16 (mb_buf mb) 2 = 0x0000 then bump_event (send_response mb 6)
         else send_exception mb func SYN_MB_EX_ILLEGAL_VALUE)"

definition handle_get_comm_event_cnt :: "'s modbus \<Rightarrow> 's modbus" where
  "handle_get_comm_event_cnt mb =
     (let mb1 = set_byte 3 0x00 (set_byte 2 0x00 mb)
      in send_response (mb1\<lparr>mb_buf := write_u16 (mb_buf mb1) 4 (mb_comm_event_counter mb1)\<rparr>) 6)"

definition handle_get_comm_event_log :: "'s modbus \<Rightarrow> 's modbus" where
  "handle_get_comm_event_log mb =
     (let mb1 = set_byte 4 0x00 (set_byte 3 0x00 (set_byte 2 0x08 mb));
          mb2 = mb1\<lparr>mb_buf := write_u16 (write_u16 (mb_buf mb1) 5 (mb_comm_event_counter mb1)) 7 (mb_bus_message_count mb1)\<rparr>
      in send_response (set_byte 10 0x00 (set_byte 9 0x00 mb2)) 11)"

definition handle_report_server_id :: "'s modbus \<Rightarrow> 's modbus" where
  "handle_report_server_id mb =
     (let (id_bytes, len0) = (case server_id (mb_cfg mb) of None \<Rightarrow> (ascii ''SYN-MB'', 6) | Some x \<Rightarrow> (x, unat (server_id_len (mb_cfg mb))));
          id_len = (if len0 > 240 then 240 else len0);
          mb1 = set_byte 2 (of_nat (id_len + 1)) mb;
          mb2 = mb1\<lparr>mb_buf := copy_into (mb_buf mb1) 3 (take id_len id_bytes)\<rparr>
      in bump_event (send_response (set_byte (3 + id_len) 0xFF mb2) (4 + id_len)))"

definition handle_mask_write_register :: "'s modbus \<Rightarrow> nat \<Rightarrow> 's modbus" where
  "handle_mask_write_register mb frame_len =
     (let func = mb_buf mb ! 1
      in case holding_regs (mb_cfg mb) of None \<Rightarrow> send_exception mb func SYN_MB_EX_ILLEGAL_ADDR
         | Some _ \<Rightarrow>
             if frame_len < 10 then send_exception mb func SYN_MB_EX_ILLEGAL_VALUE
             else
               let addr = read_u16 (mb_buf mb) 2;
                   and_mask = read_u16 (mb_buf mb) 4;
                   or_mask = read_u16 (mb_buf mb) 6
               in if addr \<ge> holding_count (mb_cfg mb) then send_exception mb func SYN_MB_EX_ILLEGAL_ADDR
                  else
                    let (ok, mb1) = ask_write mb addr 1
                    in if \<not> ok then send_exception mb1 func SYN_MB_EX_ILLEGAL_VALUE
                       else
                         let regs = the (holding_regs (mb_cfg mb1));
                             cur = regs ! unat addr
                         in bump_event (send_response
                              (set_holding (copy_into regs (unat addr) [(cur AND and_mask) OR (or_mask AND NOT and_mask)]) mb1) 8))"

definition handle_read_fifo_queue :: "'s modbus \<Rightarrow> nat \<Rightarrow> 's modbus" where
  "handle_read_fifo_queue mb frame_len =
     (let func = mb_buf mb ! 1
      in if frame_len < 6 then send_exception mb func SYN_MB_EX_ILLEGAL_VALUE
         else case fifo_queue (mb_cfg mb) of
                None \<Rightarrow> send_exception mb func SYN_MB_EX_ILLEGAL_ADDR
              | Some q \<Rightarrow>
                  let n = unat (fifo_count (mb_cfg mb))
                  in if n > 31 then send_exception mb func SYN_MB_EX_DEVICE_FAILURE
                     else
                       let buf1 = write_u16 (write_u16 (mb_buf mb) 2 (of_nat (2 + n * 2))) 4 (fifo_count (mb_cfg mb))
                       in bump_event (send_response (mb\<lparr>mb_buf := write_words buf1 6 (fetch_regs q 0 n)\<rparr>) (6 + n * 2)))"

subsection \<open>Dispatch\<close>

text \<open>The switch over the function code of a frame that passed the checks.\<close>

definition mb_dispatch :: "'s modbus \<Rightarrow> nat \<Rightarrow> bool \<Rightarrow> u8 \<Rightarrow> bool \<times> 's modbus" where
  "mb_dispatch mb len is_broadcast func =
     (if func = SYN_MB_FC_READ_COILS then
        if is_broadcast then (False, mb) else (True, handle_read_bits mb len (coils (mb_cfg mb)) (coils_count (mb_cfg mb)))
      else if func = SYN_MB_FC_READ_DISCRETE_INPUTS then
        if is_broadcast then (False, mb) else (True, handle_read_bits mb len (discrete_inputs (mb_cfg mb)) (discrete_count (mb_cfg mb)))
      else if func = SYN_MB_FC_READ_HOLDING then
        if is_broadcast then (False, mb)
        else (True, bump_event (handle_read_regs mb len (holding_regs (mb_cfg mb)) (holding_count (mb_cfg mb))))
      else if func = SYN_MB_FC_READ_INPUT then
        if is_broadcast then (False, mb)
        else (True, bump_event (handle_read_regs mb len (input_regs (mb_cfg mb)) (input_count (mb_cfg mb))))
      else if func = SYN_MB_FC_WRITE_SINGLE_COIL then (\<not> is_broadcast, handle_write_single_coil mb len)
      else if func = SYN_MB_FC_WRITE_SINGLE then (\<not> is_broadcast, bump_event (handle_write_single mb len))
      else if func = SYN_MB_FC_READ_EXCEPTION_STATUS then
        if is_broadcast then (False, mb) else (True, handle_read_exception_status mb)
      else if func = SYN_MB_FC_DIAGNOSTICS then
        if is_broadcast then (False, mb) else (True, handle_diagnostics mb len)
      else if func = SYN_MB_FC_GET_COMM_EVENT_CNT then
        if is_broadcast then (False, mb) else (True, handle_get_comm_event_cnt mb)
      else if func = SYN_MB_FC_GET_COMM_EVENT_LOG then
        if is_broadcast then (False, mb) else (True, handle_get_comm_event_log mb)
      else if func = SYN_MB_FC_WRITE_MULTIPLE_COILS then (\<not> is_broadcast, handle_write_multiple_coils mb len)
      else if func = SYN_MB_FC_WRITE_MULTIPLE then (\<not> is_broadcast, bump_event (handle_write_multiple mb len))
      else if func = SYN_MB_FC_REPORT_SERVER_ID then
        if is_broadcast then (False, mb) else (True, handle_report_server_id mb)
      else if func = SYN_MB_FC_READ_FILE_RECORD then
        if is_broadcast then (False, mb) else (True, bump_event (handle_read_file_record mb len))
      else if func = SYN_MB_FC_WRITE_FILE_RECORD then (\<not> is_broadcast, bump_event (handle_write_file_record mb len))
      else if func = SYN_MB_FC_MASK_WRITE_REGISTER then (\<not> is_broadcast, handle_mask_write_register mb len)
      else if func = SYN_MB_FC_READ_WRITE_MULTIPLE then (\<not> is_broadcast, bump_event (handle_read_write_multiple mb len))
      else if func = SYN_MB_FC_READ_FIFO_QUEUE then
        if is_broadcast then (False, mb) else (True, handle_read_fifo_queue mb len)
      else if func = SYN_MB_FC_READ_DEVICE_INFO then
        if is_broadcast then (False, mb) else (True, bump_event (handle_read_device_info mb len))
      else (False, if \<not> is_broadcast then send_exception mb func SYN_MB_EX_ILLEGAL_FUNC else mb))"

definition syn_modbus_process :: "'s modbus \<Rightarrow> u32 \<Rightarrow> bool \<times> 's modbus" where
  "syn_modbus_process mb now =
     (if mb_rx_len mb = 0 then (False, mb)
      else
        let silence_elapsed = (mb_last_byte_tick mb = 0 \<or> now - mb_last_byte_tick mb \<ge> silence_gap mb)
        in if \<not> mb_frame_ready mb \<and> \<not> silence_elapsed then (False, mb)
           else if mb_rx_len mb < MB_MIN_FRAME_LEN then (False, mb\<lparr>mb_rx_len := 0, mb_frame_ready := False\<rparr>)
           else
             let len = mb_rx_len mb;
                 mb1 = mb\<lparr>mb_rx_len := 0, mb_frame_ready := False\<rparr>
             in if \<not> check_crc (mb_buf mb1) len then (False, mb1\<lparr>mb_errors := mb_errors mb1 + 1\<rparr>)
                else
                  let mb2 = mb1\<lparr>mb_frames_rx := mb_frames_rx mb1 + 1, mb_bus_message_count := mb_bus_message_count mb1 + 1\<rparr>;
                      addr = mb_buf mb2 ! 0;
                      is_broadcast = (addr = 0)
                  in if \<not> is_broadcast \<and> addr \<noteq> slave_addr (mb_cfg mb2) then (False, mb2)
                     else mb_dispatch mb2 len is_broadcast (mb_buf mb2 ! 1))"

text \<open>\<open>rx\<close> are the bytes the UART has, each with the tick read after it; \<open>now1\<close> and \<open>now2\<close> the ticks read afterwards.\<close>

definition syn_modbus_poll :: "'s modbus \<Rightarrow> (u8 \<times> u32) list \<Rightarrow> u32 \<Rightarrow> u32 \<Rightarrow> bool \<times> 's modbus" where
  "syn_modbus_poll mb rx now1 now2 =
     (let mb1 = fold (\<lambda>(b, t). accept_byte b t) rx mb
      in if mb_rx_len mb1 > 0 \<and> now1 - mb_last_byte_tick mb1 \<ge> MB_SILENCE_MS then syn_modbus_process mb1 now2
         else (False, mb1))"

definition syn_modbus_reset :: "'s modbus \<Rightarrow> 's modbus" where
  "syn_modbus_reset mb = mb\<lparr>mb_rx_len := 0, mb_frame_ready := False\<rparr>"

section \<open>Memory safety and well-formed responses\<close>

subsection \<open>Writing loops as block writes\<close>

lemma copy_into_copy_into:
  "at + length xs + length ys \<le> length buf \<Longrightarrow> copy_into (copy_into buf at xs) (at + length xs) ys = copy_into buf at (xs @ ys)"
  by (simp add: copy_into_def ac_simps)

lemma copy_into_Nil [simp]: "at \<le> length buf \<Longrightarrow> copy_into buf at [] = buf"
  by (simp add: copy_into_def)

lemma length_enc_u16 [simp]: "length (enc_u16 v) = 2"
  by (simp add: enc_u16_def)

lemma write_u16_eq: "write_u16 buf i v = copy_into buf i (enc_u16 v)"
  by (simp add: write_u16_def pack_u16)

lemma write_words_eq: "i + 2 * length vs \<le> length buf \<Longrightarrow> write_words buf i vs = copy_into buf i (concat (map enc_u16 vs))"
proof (induction vs arbitrary: buf i)
  case (Cons v vs)
  have "length (concat (map enc_u16 vs)) = 2 * length vs" by (induction vs) simp_all
  then show ?case using Cons copy_into_copy_into [of i "enc_u16 v" "concat (map enc_u16 vs)" buf] by (simp add: write_u16_eq)
qed simp

lemma length_words [simp]: "length (concat (map enc_u16 vs)) = 2 * length vs"
  by (induction vs) simp_all

lemma store_regs_eq: "a + length vs \<le> length regs \<Longrightarrow> store_regs regs a vs = copy_into regs a vs"
proof (induction vs arbitrary: regs a)
  case (Cons v vs)
  then show ?case using copy_into_copy_into [of a "[v]" vs regs] by simp
qed simp

lemma length_read_words [simp]: "length (read_words buf i n) = n"
  by (simp add: read_words_def)

lemma length_fetch_regs [simp]: "length (fetch_regs regs a n) = n"
  by (simp add: fetch_regs_def)

lemma fetch_regs_eq: "a + n \<le> length regs \<Longrightarrow> fetch_regs regs a n = take n (drop a regs)"
  by (rule nth_equalityI) (simp_all add: fetch_regs_def)

lemma copy_into_first: "0 < at \<Longrightarrow> dst \<noteq> [] \<Longrightarrow> copy_into dst at src ! 0 = dst ! 0"
  by (cases dst; cases at) (simp_all add: copy_into_def)

subsection \<open>Invariant\<close>

text \<open>
  The buffers keep their sizes, \<open>hl\<close> and \<open>cl\<close> being the lengths of the register and coil arrays, and everything sent is a frame of this slave with a valid
  checksum.
\<close>

definition cfg_ok :: "nat option \<Rightarrow> nat option \<Rightarrow> 's modbus_config \<Rightarrow> bool" where
  "cfg_ok hl cl cfg \<longleftrightarrow> map_option length (holding_regs cfg) = hl \<and> map_option length (coils cfg) = cl
     \<and> (hl = None \<longrightarrow> holding_count cfg = 0) \<and> (\<forall>k. hl = Some k \<longrightarrow> unat (holding_count cfg) = k)
     \<and> (\<forall>k. cl = Some k \<longrightarrow> unat (coils_count cfg) \<le> 8 * k) \<and> (\<forall>x. server_id cfg = Some x \<longrightarrow> unat (server_id_len cfg) \<le> length x)"

definition frame_of :: "nat \<Rightarrow> u8 \<Rightarrow> u8 list \<Rightarrow> bool" where
  "frame_of n a f \<longleftrightarrow> 5 \<le> length f \<and> length f \<le> n \<and> f ! 0 = a \<and> check_crc f (length f)"

definition mb_ok :: "nat \<Rightarrow> nat option \<Rightarrow> nat option \<Rightarrow> u8 \<Rightarrow> 's modbus \<Rightarrow> bool" where
  "mb_ok n hl cl a mb \<longleftrightarrow> length (mb_buf mb) = n \<and> mb_buf_size mb = n \<and> mb_rx_len mb \<le> n \<and> cfg_ok hl cl (mb_cfg mb)
     \<and> slave_addr (mb_cfg mb) = a \<and> list_all (frame_of n a) (mb_uart mb)"

text \<open>While a request is handled, the buffer starts with the address 0 or the slave's own.\<close>

definition mb_busy :: "nat \<Rightarrow> nat option \<Rightarrow> nat option \<Rightarrow> u8 \<Rightarrow> 's modbus \<Rightarrow> bool" where
  "mb_busy n hl cl a mb \<longleftrightarrow> 256 \<le> n \<and> mb_ok n hl cl a mb \<and> (mb_buf mb ! 0 = 0 \<or> mb_buf mb ! 0 = a)"

lemma busy_ok: "mb_busy n hl cl a mb \<Longrightarrow> mb_ok n hl cl a mb"
  by (simp add: mb_busy_def)

lemma busy_irrelevant [simp]:
  "mb_busy n hl cl a (mb\<lparr>mb_errors := e\<rparr>) = mb_busy n hl cl a mb"
  "mb_busy n hl cl a (mb\<lparr>mb_app := s\<rparr>) = mb_busy n hl cl a mb"
  "mb_busy n hl cl a (bump_event mb) = mb_busy n hl cl a mb"
  by (simp_all add: mb_busy_def mb_ok_def bump_event_def)

lemma busy_length: "mb_busy n hl cl a mb \<Longrightarrow> length (mb_buf mb) = n \<and> 256 \<le> n"
  by (simp add: mb_busy_def mb_ok_def)

lemma busy_buf:
  "mb_busy n hl cl a mb \<Longrightarrow> length b = n \<Longrightarrow> b ! 0 = mb_buf mb ! 0 \<Longrightarrow> mb_busy n hl cl a (mb\<lparr>mb_buf := b\<rparr>)"
  by (simp add: mb_busy_def mb_ok_def)

lemma busy_copy:
  assumes "mb_busy n hl cl a mb" "0 < at" "at + length xs \<le> n"
  shows "mb_busy n hl cl a (mb\<lparr>mb_buf := copy_into (mb_buf mb) at xs\<rparr>)"
proof (rule busy_buf [OF assms(1)])
  have "mb_buf mb \<noteq> []" using busy_length [OF assms(1)] by auto
  then show "copy_into (mb_buf mb) at xs ! 0 = mb_buf mb ! 0" using copy_into_first assms(2) by blast
qed (use busy_length [OF assms(1)] assms(3) in simp)

lemma busy_set_byte: "mb_busy n hl cl a mb \<Longrightarrow> 0 < i \<Longrightarrow> i < n \<Longrightarrow> mb_busy n hl cl a (set_byte i b mb)"
  unfolding set_byte_def by (rule busy_copy) simp_all

lemma busy_words:
  "mb_busy n hl cl a mb \<Longrightarrow> 0 < i \<Longrightarrow> i + 2 * length vs \<le> n \<Longrightarrow> mb_busy n hl cl a (mb\<lparr>mb_buf := write_words (mb_buf mb) i vs\<rparr>)"
  using busy_copy [of n hl cl a mb i "concat (map enc_u16 vs)"] busy_length [of n hl cl a mb] by (simp add: write_words_eq)

lemma busy_set_holding:
  "mb_busy n hl cl a mb \<Longrightarrow> hl = Some (length regs) \<Longrightarrow> mb_busy n hl cl a (set_holding regs mb)"
  by (simp add: mb_busy_def mb_ok_def cfg_ok_def set_holding_def)

lemma busy_set_coils:
  "mb_busy n hl cl a mb \<Longrightarrow> cl = Some (length bits) \<Longrightarrow> mb_busy n hl cl a (set_coils bits mb)"
  by (simp add: mb_busy_def mb_ok_def cfg_ok_def set_coils_def)

lemma busy_ask_write: "mb_busy n hl cl a mb \<Longrightarrow> mb_busy n hl cl a (snd (ask_write mb x y))"
  by (auto simp: ask_write_def split: option.split prod.split)

text \<open>A checksum appended is accepted.\<close>

lemma append_crc_frame:
  assumes "len + 2 \<le> length buf"
  shows "check_crc (take (len + 2) (append_crc buf len)) (len + 2) \<and> take len (append_crc buf len) = take len buf \<and> length (append_crc buf len) = length buf"
proof -
  let ?b = "append_crc buf len" and ?c = "syn_crc16_modbus (take len buf)"
  have len: "length (enc_u16_le ?c) = 2" by (simp add: enc_u16_le_def)
  have e: "?b = take len buf @ enc_u16_le ?c @ drop (len + 2) buf"
    using assms len by (simp add: append_crc_def poke_u16_le copy_into_def)
  have t: "take len ?b = take len buf" "length ?b = length buf" "take (len + 2) ?b = take len buf @ enc_u16_le ?c"
    using assms len by (simp_all add: e)
  have "syn_peek_u16_le (take len buf @ enc_u16_le ?c) len = ?c"
    using f16le.get_encode [of "take len buf" ?c "[]"] assms by (simp add: peek_u16_le)
  then show ?thesis using t assms by (simp add: check_crc_def)
qed

lemma send_response_ok:
  assumes "mb_busy n hl cl a mb" "3 \<le> len" "len + 2 \<le> n"
  shows "mb_busy n hl cl a (send_response mb len)"
proof (cases "mb_buf mb ! 0 = 0")
  case False
  let ?b = "append_crc (mb_buf mb) len"
  have L: "length (mb_buf mb) = n" using busy_length [OF assms(1)] by simp
  have A: "check_crc (take (len + 2) ?b) (len + 2)" "take len ?b = take len (mb_buf mb)" "length ?b = n"
    using append_crc_frame [of len "mb_buf mb"] assms(3) L by simp_all
  have "?b ! 0 = take len ?b ! 0" using assms(2) by simp
  also have "\<dots> = mb_buf mb ! 0" using A(2) assms(2) by simp
  finally have z: "?b ! 0 = mb_buf mb ! 0" .
  then have "frame_of n a (take (len + 2) ?b)" using A False assms by (simp add: frame_of_def mb_busy_def)
  then show ?thesis using assms(1) A(3) z False by (simp add: send_response_def mb_busy_def mb_ok_def Let_def)
qed (use assms(1) in \<open>simp add: send_response_def\<close>)

lemma send_exception_ok:
  assumes "mb_busy n hl cl a mb"
  shows "mb_busy n hl cl a (send_exception mb func ex)"
proof (cases "mb_buf mb ! 0 = 0")
  case False
  have n: "256 \<le> n" "length (mb_buf mb) = n" using busy_length [OF assms] by simp_all
  then have "mb_busy n hl cl a (set_byte 0 (slave_addr (mb_cfg mb)) mb)"
    using assms by (auto simp: set_byte_def mb_busy_def mb_ok_def copy_into_def)
  then show ?thesis using False n by (simp add: send_exception_def Let_def busy_set_byte send_response_ok)
qed (use assms in \<open>simp add: send_exception_def\<close>)

lemmas busy_intros = send_exception_ok send_response_ok busy_set_byte busy_words busy_copy busy_set_holding busy_set_coils busy_ask_write

subsection \<open>Handlers\<close>

lemma read_regs_ok:
  assumes "mb_busy n hl cl a mb"
  shows "mb_busy n hl cl a (handle_read_regs mb len regs c)"
  using assms busy_length [OF assms] by (auto simp: handle_read_regs_def Let_def intro!: busy_intros)

lemma holding_in_range:
  assumes "mb_busy n hl cl a mb" "unat x < unat (holding_count (mb_cfg mb))"
  obtains regs where "holding_regs (mb_cfg mb) = Some regs" "hl = Some (length regs)" "unat (holding_count (mb_cfg mb)) = length regs"
  using assms by (cases hl) (auto simp: mb_busy_def mb_ok_def cfg_ok_def)

lemma ask_write_cfg [simp]: "mb_cfg (snd (ask_write mb x y)) = mb_cfg mb" "mb_buf (snd (ask_write mb x y)) = mb_buf mb"
  by (auto simp: ask_write_def split: option.split prod.split)

lemma write_single_ok:
  assumes "mb_busy n hl cl a mb"
  shows "mb_busy n hl cl a (handle_write_single mb len)"
proof -
  let ?a = "read_u16 (mb_buf mb) 2"
  have s: "mb_busy n hl cl a (send_response (set_holding (copy_into (the (holding_regs (mb_cfg mb))) (unat ?a) [v]) (snd (ask_write mb ?a 1))) 6)"
    if lt: "\<not> ?a \<ge> holding_count (mb_cfg mb)" for v
  proof -
    obtain regs where r: "holding_regs (mb_cfg mb) = Some regs" "hl = Some (length regs)" "unat (holding_count (mb_cfg mb)) = length regs"
      using holding_in_range [OF assms] lt by (auto simp: word_less_nat_alt not_le)
    then have "unat ?a + 1 \<le> length regs" using lt by (simp add: word_le_nat_alt)
    then show ?thesis using r assms busy_length [OF assms] by (auto intro!: busy_intros)
  qed
  show ?thesis unfolding handle_write_single_def Let_def case_prod_beta using s assms by (auto intro!: busy_intros)
qed

lemma holding_block:
  assumes "mb_busy n hl cl a mb" "0 < k" "x + k \<le> unat (holding_count (mb_cfg mb))"
  obtains regs where "holding_regs (mb_cfg mb) = Some regs" "hl = Some (length regs)" "x + k \<le> length regs"
  using assms by (cases hl) (auto simp: mb_busy_def mb_ok_def cfg_ok_def)

lemma store_block_ok:
  assumes "mb_busy n hl cl a mb" "0 < length vs" "x + length vs \<le> unat (holding_count (mb_cfg mb))"
  shows "mb_busy n hl cl a (set_holding (store_regs (the (holding_regs (mb_cfg mb))) x vs) (snd (ask_write mb p q)))"
proof -
  obtain regs where r: "holding_regs (mb_cfg mb) = Some regs" "hl = Some (length regs)" "x + length vs \<le> length regs"
    by (rule holding_block [OF assms])
  then show ?thesis using assms(1) by (auto simp: store_regs_eq intro!: busy_intros)
qed

lemma write_multiple_ok:
  assumes "mb_busy n hl cl a mb"
  shows "mb_busy n hl cl a (handle_write_multiple mb len)"
proof -
  have "mb_busy n hl cl a (send_response (set_holding (store_regs (the (holding_regs (mb_cfg mb))) x (read_words (mb_buf mb) 7 (unat k))) (snd (ask_write mb p q))) 6)"
    if "k \<noteq> 0" "x + unat k \<le> unat (holding_count (mb_cfg mb))" for x p q and k :: u16
    using store_block_ok [OF assms, of "read_words (mb_buf mb) 7 (unat k)" x p q] that busy_length [OF assms] by (auto intro!: busy_intros simp: unat_gt_0)
  then show ?thesis unfolding handle_write_multiple_def Let_def case_prod_beta using assms
    by (simp add: send_exception_ok busy_ask_write not_less)
qed

lemma read_write_multiple_ok:
  assumes "mb_busy n hl cl a mb"
  shows "mb_busy n hl cl a (handle_read_write_multiple mb len)"
proof -
  let ?regs = "\<lambda>x k. store_regs (the (holding_regs (mb_cfg mb))) x (read_words (mb_buf mb) 11 (unat k))"
  have "mb_busy n hl cl a (let mb2 = set_byte 2 b (set_holding (?regs x k) (snd (ask_write mb p q)));
       mb3 = mb2\<lparr>mb_buf := write_words (mb_buf mb2) 3 (fetch_regs (?regs x k) y c)\<rparr> in send_response mb3 (3 + c * 2))"
    if "k \<noteq> 0" "x + unat k \<le> unat (holding_count (mb_cfg mb))" "c \<le> 125" for x p q b y c and k :: u16
    using store_block_ok [OF assms, of "read_words (mb_buf mb) 11 (unat k)" x p q] that busy_length [OF assms]
    by (auto intro!: busy_intros simp: unat_gt_0 Let_def)
  then show ?thesis unfolding handle_read_write_multiple_def Let_def case_prod_beta using assms
    by (simp add: send_exception_ok busy_ask_write not_less)
qed

lemma info_loop_bounds:
  "info_loop info n max_obj oid pos c buf = (buf1, pos1, c1) \<Longrightarrow> length buf = n \<Longrightarrow> 8 \<le> pos \<Longrightarrow> pos + 2 \<le> n \<Longrightarrow>
    length buf1 = n \<and> 8 \<le> pos1 \<and> pos1 + 2 \<le> n \<and> buf1 ! 0 = buf ! 0"
proof (induction info n max_obj oid pos c buf rule: info_loop.induct)
  case (1 info n max_obj oid pos c buf)
  show ?case
  proof (cases "oid \<le> max_obj")
    case True
    show ?thesis
    proof (cases "info_string info oid")
      case None
      then show ?thesis using 1(1) [OF True None] 1(3-) True by (subst (asm) info_loop.simps) simp
    next
      case (Some str)
      let ?l = "if length str > 245 then 245 else length str"
      let ?b = "copy_into buf pos ([oid, of_nat ?l] @ take ?l str)"
      show ?thesis
      proof (cases "pos + 2 + ?l > n - 2")
        case True
        then show ?thesis using 1(3-) Some by (subst (asm) info_loop.simps) (auto simp: Let_def split: if_splits)
      next
        case False
        have b: "length ?b = n" "?b ! 0 = buf ! 0" using False 1(4-) by (auto intro!: copy_into_first)
        have "info_loop info n max_obj (oid + 1) (pos + 2 + ?l) (c + 1) ?b = (buf1, pos1, c1)"
          using 1(3) True Some False by (subst (asm) info_loop.simps) (simp add: Let_def)
        then have "length buf1 = n \<and> 8 \<le> pos1 \<and> pos1 + 2 \<le> n \<and> buf1 ! 0 = ?b ! 0"
          using 1(2) [OF True Some refl False] b(1) False 1(5,6) by simp
        then show ?thesis using b(2) by simp
      qed
    qed
  qed (use 1(3-) in \<open>subst (asm) info_loop.simps, simp\<close>)
qed

lemma device_info_ok:
  assumes "mb_busy n hl cl a mb"
  shows "mb_busy n hl cl a (handle_read_device_info mb len)"
proof -
  let ?mb1 = "\<lambda>rc. mb\<lparr>mb_buf := copy_into (mb_buf mb) 2 [SYN_MB_MEI_TYPE_READ_DEVICE_ID, rc, 1, 0, 0]\<rparr>"
  have n: "256 \<le> n" "length (mb_buf mb) = n" "mb_buf_size mb = n" using assms by (simp_all add: mb_busy_def mb_ok_def)
  have "mb_busy n hl cl a (case info_loop (device_info (mb_cfg (?mb1 rc))) (mb_buf_size (?mb1 rc)) mx st 8 0 (mb_buf (?mb1 rc)) of
      (buf, pos, obj_count) \<Rightarrow> send_response ((?mb1 rc)\<lparr>mb_buf := copy_into buf 7 [obj_count]\<rparr>) pos)" for rc mx st
  proof -
    obtain buf pos oc where e: "info_loop (device_info (mb_cfg (?mb1 rc))) (mb_buf_size (?mb1 rc)) mx st 8 0 (mb_buf (?mb1 rc)) = (buf, pos, oc)"
      by (metis prod_cases3)
    have b: "mb_busy n hl cl a (?mb1 rc)" using assms n by (intro busy_copy) simp_all
    have B: "length buf = n \<and> 8 \<le> pos \<and> pos + 2 \<le> n \<and> buf ! 0 = mb_buf (?mb1 rc) ! 0"
      using info_loop_bounds [OF e] n by simp
    then have "mb_busy n hl cl a ((?mb1 rc)\<lparr>mb_buf := copy_into buf 7 [oc]\<rparr>)"
    proof (intro busy_buf [OF b])
      have "buf \<noteq> []" using B n by auto
      then show "copy_into buf 7 [oc] ! 0 = mb_buf (?mb1 rc) ! 0" using B copy_into_first [of 7 buf] by simp
    qed (use B n in simp)
    then show ?thesis unfolding e prod.case using B by (intro send_response_ok) simp_all
  qed
  then show ?thesis unfolding handle_read_device_info_def Let_def using assms by (simp add: send_exception_ok)
qed

lemma length_write_words: "i \<le> length buf \<Longrightarrow> i + 2 * length vs \<le> length (write_words buf i vs)"
proof (induction buf i vs rule: write_words.induct)
  case (2 buf i v vs)
  have "i + 2 \<le> length (write_u16 buf i v)" using 2(2) by (simp add: write_u16_eq copy_into_def)
  then show ?case using 2(1) by simp
qed simp

text \<open>The response of a file read fits the slave's buffer; it fits the local array if that is no smaller.\<close>

lemma read_file_loop_bounds:
  "read_file_loop cb bs buf k req resp pos s = (Inr (resp1, pos1), s1) \<Longrightarrow> pos \<le> length resp \<Longrightarrow> 3 \<le> pos \<Longrightarrow> pos + 2 \<le> bs \<Longrightarrow>
    3 \<le> pos1 \<and> pos1 + 2 \<le> bs \<and> pos1 \<le> length resp1 \<and> (bs \<le> length resp + 2 \<longrightarrow> length resp1 = length resp)"
proof (induction k arbitrary: req resp pos s)
  case (Suc k)
  let ?r = "unat (read_u16 buf (req + 5))"
  let ?resp1 = "copy_into resp pos [of_nat (1 + ?r * 2), 0x06]"
  obtain dat s2 where cb: "cb s (read_u16 buf (req + 1)) (read_u16 buf (req + 3)) (read_u16 buf (req + 5)) = (Some dat, s2)"
    and fits: "pos + 2 + ?r * 2 \<le> bs - 2"
    and rec: "read_file_loop cb bs buf k (req + 7) (write_words ?resp1 (pos + 2) (fetch_regs dat 0 ?r)) (pos + 2 + ?r * 2) s2 = (Inr (resp1, pos1), s1)"
    using Suc.prems(1) by (auto simp: Let_def split: if_splits prod.splits option.splits)
  let ?w = "write_words ?resp1 (pos + 2) (fetch_regs dat 0 ?r)"
  have l1: "pos + 2 \<le> length ?resp1" "length resp \<le> length ?resp1" using Suc.prems(2) by (auto simp: copy_into_def)
  then have "pos + 2 + ?r * 2 \<le> length ?w" using length_write_words [of "pos + 2" ?resp1 "fetch_regs dat 0 ?r"] by simp
  moreover have "length ?w = length resp" if "bs \<le> length resp + 2"
  proof -
    have "length ?resp1 = length resp" "pos + 2 + 2 * ?r \<le> length resp" using that fits Suc.prems(4) by simp_all
    then show ?thesis by (simp add: write_words_eq)
  qed
  ultimately show ?case using Suc.IH [OF rec] fits Suc.prems(3,4) by fastforce
qed simp

lemma read_file_ok:
  assumes "mb_busy n hl cl a mb" "mb_buf mb ! 0 = a"
  shows "mb_busy n hl cl a (handle_read_file_record mb len)"
proof -
  have n: "256 \<le> n" "length (mb_buf mb) = n" "mb_buf_size mb = n" "slave_addr (mb_cfg mb) = a" using assms by (simp_all add: mb_busy_def mb_ok_def)
  have "mb_busy n hl cl a (case read_file_loop cb (mb_buf_size mb) (mb_buf mb) k 3 (replicate 256 0) 3 (mb_app mb) of
      (Inl ex, s) \<Rightarrow> send_exception (mb\<lparr>mb_app := s\<rparr>) fc ex
    | (Inr (resp_buf, pos), s) \<Rightarrow> send_response (mb\<lparr>mb_app := s,
        mb_buf := copy_into (mb_buf mb) 0 (take pos (copy_into resp_buf 0 [slave_addr (mb_cfg mb), fc, of_nat (pos - 3)]))\<rparr>) pos)" for cb k fc
  proof -
    obtain r s where e: "read_file_loop cb (mb_buf_size mb) (mb_buf mb) k 3 (replicate 256 0) 3 (mb_app mb) = (r, s)" by force
    show ?thesis
    proof (cases r)
      case (Inl ex)
      then show ?thesis using e assms(1) by (simp add: send_exception_ok)
    next
      case (Inr p)
      obtain resp pos where p: "p = (resp, pos)" by force
      have B: "3 \<le> pos \<and> pos + 2 \<le> n \<and> pos \<le> length resp"
        using read_file_loop_bounds [OF e [unfolded Inr p n(3)]] n(1) by simp
      let ?x = "take pos (copy_into resp 0 [a, fc, of_nat (pos - 3)])"
      have x: "length ?x = pos" "?x ! 0 = a" using B by (auto simp: copy_into_def nth_append min_def)
      have "mb_busy n hl cl a (mb\<lparr>mb_app := s, mb_buf := copy_into (mb_buf mb) 0 ?x\<rparr>)"
      proof (rule busy_buf)
        show "copy_into (mb_buf mb) 0 ?x ! 0 = mb_buf (mb\<lparr>mb_app := s\<rparr>) ! 0"
          using x B n assms(2) by (subst nth_copy_into) auto
      qed (use assms x B n in simp_all)
      then show ?thesis using e Inr p n(4) B by (simp add: send_response_ok)
    qed
  qed
  then show ?thesis unfolding handle_read_file_record_def Let_def using assms by (simp add: send_exception_ok split: option.split)
qed

lemma write_file_ok:
  assumes "mb_busy n hl cl a mb" "len \<le> n"
  shows "mb_busy n hl cl a (handle_write_file_record mb len)"
proof -
  have "mb_busy n hl cl a (case write_file_loop cb (mb_buf mb) (3 + k) 3 (mb_app mb) of
      (Some ex, s) \<Rightarrow> send_exception (mb\<lparr>mb_app := s\<rparr>) fc ex | (None, s) \<Rightarrow> send_response (mb\<lparr>mb_app := s\<rparr>) (3 + k))" if "5 + k \<le> len" for cb k fc
    using that assms by (auto split: prod.split option.split intro!: send_exception_ok send_response_ok)
  then show ?thesis unfolding handle_write_file_record_def Let_def using assms(1) by (simp add: send_exception_ok split: option.split)
qed

lemma length_set_bit: "base + i div 8 < length bits \<Longrightarrow> length (mb_set_bit bits base i v) = length bits"
  by (simp add: mb_set_bit_def Let_def)

lemma set_bit_first: "0 < base \<Longrightarrow> bits \<noteq> [] \<Longrightarrow> mb_set_bit bits base i v ! 0 = bits ! 0"
  unfolding mb_set_bit_def Let_def by (rule copy_into_first) simp_all

lemma read_bits_loop_ok:
  assumes "3 + (k + 7) div 8 \<le> length buf" "buf \<noteq> []"
  shows "length (read_bits_loop bits x k buf) = length buf \<and> read_bits_loop bits x k buf ! 0 = buf ! 0"
  using assms(1)
proof (induction k)
  case (Suc k)
  let ?b = "read_bits_loop bits x k buf"
  have d: "3 + k div 8 < length buf" using Suc.prems by linarith
  have IH: "length ?b = length buf" "?b ! 0 = buf ! 0" using Suc.IH Suc.prems by simp_all
  have ne: "?b \<noteq> []" using IH(1) assms(2) by auto
  have e: "read_bits_loop bits x (Suc k) buf = (if get_bit bits 0 (x + k) then mb_set_bit ?b 3 k True else ?b)"
    by (simp add: read_bits_loop_def)
  show ?case unfolding e using IH d ne by (simp add: length_set_bit set_bit_first)
qed (simp add: read_bits_loop_def)

lemma length_write_bits_loop:
  "x + k \<le> 8 * length bits \<Longrightarrow> length (write_bits_loop buf x k bits) = length bits"
proof (induction k)
  case (Suc k)
  have "(x + k) div 8 < length bits" using Suc.prems by (simp add: less_mult_imp_div_less)
  then show ?case using Suc by (simp add: write_bits_loop_def length_set_bit)
qed (simp add: write_bits_loop_def)

lemma read_bits_ok:
  assumes "mb_busy n hl cl a mb"
  shows "mb_busy n hl cl a (handle_read_bits mb len bits c)"
proof -
  have n: "256 \<le> n" "length (mb_buf mb) = n" using busy_length [OF assms] by simp_all
  have "mb_busy n hl cl a (let mb1 = set_byte 2 v mb; buf1 = copy_into (mb_buf mb1) 3 (replicate ((k + 7) div 8) 0);
       mb2 = mb1\<lparr>mb_buf := read_bits_loop b x k buf1\<rparr> in bump_event (send_response mb2 (3 + (k + 7) div 8)))" if "k \<le> 2000" for v k b x
  proof -
    have d: "(k + 7) div 8 \<le> 250" using that by linarith
    let ?mb1 = "set_byte 2 v mb"
    have b1: "mb_busy n hl cl a ?mb1" using assms n by (intro busy_set_byte) simp_all
    then have l1: "length (mb_buf ?mb1) = n" "mb_buf ?mb1 \<noteq> []" using busy_length n by fastforce+
    let ?buf1 = "copy_into (mb_buf ?mb1) 3 (replicate ((k + 7) div 8) 0)"
    have l2: "length ?buf1 = n" "?buf1 ! 0 = mb_buf ?mb1 ! 0" using l1 d n by (simp_all add: copy_into_first)
    then have "length (read_bits_loop b x k ?buf1) = n \<and> read_bits_loop b x k ?buf1 ! 0 = mb_buf ?mb1 ! 0"
      using read_bits_loop_ok [of k ?buf1 b x] d n by fastforce
    then have "mb_busy n hl cl a (?mb1\<lparr>mb_buf := read_bits_loop b x k ?buf1\<rparr>)" using b1 by (intro busy_buf) simp_all
    then show ?thesis using d n by (simp add: Let_def send_response_ok)
  qed
  then show ?thesis unfolding handle_read_bits_def Let_def using assms by (simp add: send_exception_ok not_less split: option.split)
qed

lemma coils_in_range:
  "mb_busy n hl cl a mb \<Longrightarrow> coils (mb_cfg mb) = Some bits \<Longrightarrow> cl = Some (length bits) \<and> unat (coils_count (mb_cfg mb)) \<le> 8 * length bits"
  by (auto simp: mb_busy_def mb_ok_def cfg_ok_def)

lemma write_single_coil_ok:
  assumes "mb_busy n hl cl a mb"
  shows "mb_busy n hl cl a (handle_write_single_coil mb len)"
proof -
  have "mb_busy n hl cl a (send_response (set_coils (mb_set_bit bits 0 (unat x) v) mb) 6)"
    if b: "coils (mb_cfg mb) = Some bits" and x: "x < coils_count (mb_cfg mb)" for bits x v
  proof -
    have C: "cl = Some (length bits)" "unat (coils_count (mb_cfg mb)) \<le> 8 * length bits" using coils_in_range [OF assms b] by simp_all
    then have "unat x div 8 < length bits" using x by (simp add: word_less_nat_alt less_mult_imp_div_less)
    then show ?thesis using C assms busy_length [OF assms] by (intro busy_intros) (simp_all add: length_set_bit)
  qed
  then show ?thesis unfolding handle_write_single_coil_def Let_def using assms by (simp add: send_exception_ok not_le split: option.split)
qed

lemma write_multiple_coils_ok:
  assumes "mb_busy n hl cl a mb"
  shows "mb_busy n hl cl a (handle_write_multiple_coils mb len)"
proof -
  have "mb_busy n hl cl a (send_response (set_coils (write_bits_loop buf x k bits) mb) 6)"
    if "coils (mb_cfg mb) = Some bits" "x + k \<le> unat (coils_count (mb_cfg mb))" for bits x k buf
    using coils_in_range [OF assms that(1)] that(2) assms busy_length [OF assms] by (intro busy_intros) (simp_all add: length_write_bits_loop)
  then show ?thesis unfolding handle_write_multiple_coils_def Let_def using assms by (simp add: send_exception_ok not_less split: option.split)
qed

lemma simple_handlers_ok:
  assumes "mb_busy n hl cl a mb"
  shows "mb_busy n hl cl a (handle_read_exception_status mb)" "mb_busy n hl cl a (handle_diagnostics mb len)"
    "mb_busy n hl cl a (handle_get_comm_event_cnt mb)" "mb_busy n hl cl a (handle_get_comm_event_log mb)"
proof -
  have n: "256 \<le> n" using busy_length [OF assms] by simp
  show "mb_busy n hl cl a (handle_read_exception_status mb)" "mb_busy n hl cl a (handle_diagnostics mb len)"
    using assms n by (auto simp: handle_read_exception_status_def handle_diagnostics_def Let_def intro!: busy_intros)
  have w: "mb_busy n hl cl a (m\<lparr>mb_buf := write_u16 (mb_buf m) i v\<rparr>)" if "mb_busy n hl cl a m" "0 < i" "i + 2 \<le> n" for m i v
    unfolding write_u16_eq using that by (intro busy_copy) simp_all
  show "mb_busy n hl cl a (handle_get_comm_event_cnt mb)"
    unfolding handle_get_comm_event_cnt_def Let_def using assms n by (intro busy_intros w) simp_all
  have ww: "mb_busy n hl cl a (m\<lparr>mb_buf := write_u16 (write_u16 (mb_buf m) 5 v) 7 v'\<rparr>)" if "mb_busy n hl cl a m" for m v v'
    using w [OF w [OF that, of 5 v], of 7 v'] n by simp
  show "mb_busy n hl cl a (handle_get_comm_event_log mb)"
    unfolding handle_get_comm_event_log_def Let_def using assms n by (intro busy_set_byte send_response_ok ww) simp_all
qed

lemma server_id_ok:
  assumes "mb_busy n hl cl a mb"
  shows "mb_busy n hl cl a (handle_report_server_id mb)"
proof -
  have n: "256 \<le> n" using busy_length [OF assms] by simp
  obtain x k where e: "(case server_id (mb_cfg mb) of None \<Rightarrow> (ascii ''SYN-MB'', 6) | Some x \<Rightarrow> (x, unat (server_id_len (mb_cfg mb)))) = (x, k)" by force
  have "mb_busy n hl cl a (bump_event (send_response (set_byte (3 + (if k > 240 then 240 else k)) 0xFF
      ((set_byte 2 v mb)\<lparr>mb_buf := copy_into (mb_buf (set_byte 2 v mb)) 3 (take (if k > 240 then 240 else k) x)\<rparr>)) (4 + (if k > 240 then 240 else k))))" for v
    unfolding busy_irrelevant using assms n by (intro busy_intros) auto
  then show ?thesis unfolding handle_report_server_id_def e Let_def prod.case by simp
qed

lemma mask_write_ok:
  assumes "mb_busy n hl cl a mb"
  shows "mb_busy n hl cl a (handle_mask_write_register mb len)"
proof -
  have s: "mb_busy n hl cl a (send_response (set_holding (copy_into (the (holding_regs (mb_cfg mb))) (unat x) [v]) (snd (ask_write mb x 1))) 8)"
    if lt: "x < holding_count (mb_cfg mb)" for x v
  proof -
    obtain regs where r: "holding_regs (mb_cfg mb) = Some regs" "hl = Some (length regs)" "unat (holding_count (mb_cfg mb)) = length regs"
      using holding_in_range [OF assms, of x] lt by (auto simp: word_less_nat_alt)
    then have "unat x + 1 \<le> length regs" using lt by (simp add: word_less_nat_alt)
    then show ?thesis using r assms busy_length [OF assms] by (auto intro!: busy_intros)
  qed
  then show ?thesis unfolding handle_mask_write_register_def Let_def case_prod_beta
    using assms by (auto simp: send_exception_ok busy_ask_write not_le split: option.split)
qed

lemma fifo_ok:
  assumes "mb_busy n hl cl a mb"
  shows "mb_busy n hl cl a (handle_read_fifo_queue mb len)"
proof -
  have n: "256 \<le> n" "length (mb_buf mb) = n" using busy_length [OF assms] by simp_all
  have "mb_busy n hl cl a (send_response (mb\<lparr>mb_buf := write_words (write_u16 (write_u16 (mb_buf mb) 2 v) 4 v') 6 (fetch_regs q 0 k)\<rparr>) (6 + k * 2))"
    if "k \<le> 31" for k v v' q
  proof -
    have 1: "mb_busy n hl cl a (mb\<lparr>mb_buf := copy_into (mb_buf mb) 2 (enc_u16 v)\<rparr>)" using assms n by (intro busy_copy) simp_all
    have 2: "mb_busy n hl cl a (mb\<lparr>mb_buf := copy_into (copy_into (mb_buf mb) 2 (enc_u16 v)) 4 (enc_u16 v')\<rparr>)"
      using busy_copy [OF 1, of 4 "enc_u16 v'"] n by simp
    then show ?thesis using busy_words [OF 2, of 6 "fetch_regs q 0 k"] that n by (simp add: write_u16_eq send_response_ok)
  qed
  then show ?thesis unfolding handle_read_fifo_queue_def Let_def using assms by (simp add: send_exception_ok not_less split: option.split)
qed

lemmas handlers_ok = read_bits_ok read_regs_ok write_single_coil_ok write_single_ok simple_handlers_ok write_multiple_coils_ok write_multiple_ok server_id_ok
  write_file_ok mask_write_ok read_write_multiple_ok fifo_ok device_info_ok

lemma dispatch_ok:
  assumes "mb_busy n hl cl a mb" "len \<le> n" "mb_buf mb ! 0 = 0 \<longleftrightarrow> bc"
  shows "mb_busy n hl cl a (snd (mb_dispatch mb len bc func))"
proof -
  have f: "mb_busy n hl cl a (handle_read_file_record mb len)" if "\<not> bc"
    using read_file_ok [OF assms(1)] assms(1,3) that by (simp add: mb_busy_def)
  show ?thesis unfolding mb_dispatch_def using assms(1,2) f by (simp add: handlers_ok send_exception_ok)
qed

lemma process_ok:
  assumes "mb_ok n hl cl a mb" "256 \<le> n"
  shows "mb_ok n hl cl a (snd (syn_modbus_process mb now))"
proof -
  let ?m = "mb\<lparr>mb_rx_len := 0, mb_frame_ready := False, mb_frames_rx := mb_frames_rx mb + 1, mb_bus_message_count := mb_bus_message_count mb + 1\<rparr>"
  have "mb_ok n hl cl a (snd (mb_dispatch ?m (mb_rx_len mb) (mb_buf mb ! 0 = 0) f))" if "mb_buf mb ! 0 = 0 \<or> mb_buf mb ! 0 = slave_addr (mb_cfg mb)" for f
    using assms that by (intro busy_ok dispatch_ok) (auto simp: mb_busy_def mb_ok_def)
  moreover have "mb_ok n hl cl a ?m" "mb_ok n hl cl a (mb\<lparr>mb_rx_len := 0, mb_frame_ready := False\<rparr>)"
     "mb_ok n hl cl a (mb\<lparr>mb_rx_len := 0, mb_frame_ready := False, mb_errors := e\<rparr>)" for e using assms by (simp_all add: mb_ok_def)
  ultimately show ?thesis using assms unfolding syn_modbus_process_def Let_def by auto
qed

lemma accept_byte_ok: "mb_ok n hl cl a mb \<Longrightarrow> mb_ok n hl cl a (accept_byte b now mb)"
  by (simp add: accept_byte_def mb_ok_def Let_def)

lemma mb_feed_ok: "mb_ok n hl cl a mb \<Longrightarrow> mb_ok n hl cl a (syn_modbus_feed mb now b)"
  using accept_byte_ok [of n hl cl a mb b now] by (simp add: syn_modbus_feed_def mb_ok_def Let_def)

lemma poll_ok:
  assumes "mb_ok n hl cl a mb" "256 \<le> n"
  shows "mb_ok n hl cl a (snd (syn_modbus_poll mb rx t u))"
proof -
  have "mb_ok n hl cl a (fold (\<lambda>(b, t). accept_byte b t) rx mb)" using assms(1)
    by (induction rx arbitrary: mb) (auto simp: accept_byte_ok)
  then show ?thesis using assms(2) by (simp add: syn_modbus_poll_def Let_def process_ok)
qed

text \<open>What the bus and the application may do to a slave, in any order.\<close>

datatype mb_event = Mb_Feed u32 u8 | Mb_Process u32 | Mb_Poll "(u8 \<times> u32) list" u32 u32 | Mb_Reset

fun mb_event_step :: "mb_event \<Rightarrow> 's modbus \<Rightarrow> 's modbus" where
  "mb_event_step (Mb_Feed t b) mb = syn_modbus_feed mb t b"
| "mb_event_step (Mb_Process t) mb = snd (syn_modbus_process mb t)"
| "mb_event_step (Mb_Poll rx t u) mb = snd (syn_modbus_poll mb rx t u)"
| "mb_event_step Mb_Reset mb = syn_modbus_reset mb"

lemma events_ok: "mb_ok n hl cl a mb \<Longrightarrow> 256 \<le> n \<Longrightarrow> mb_ok n hl cl a (fold mb_event_step es mb)"
proof (induction es arbitrary: mb)
  case (Cons e es)
  have "mb_ok n hl cl a (mb_event_step e mb)"
    using Cons.prems by (cases e) (simp_all add: mb_feed_ok process_ok poll_ok syn_modbus_reset_def, simp add: mb_ok_def)
  then show ?case using Cons by simp
qed simp


definition demo_config :: "unit modbus_config" where
  "demo_config = \<lparr>slave_addr = 1, holding_regs = Some [10, 20, 30], holding_count = 3, input_regs = None, input_count = 0, coils = None, coils_count = 0,
     discrete_inputs = None, discrete_count = 0, fifo_queue = None, fifo_count = 0, on_write = None, silence_ms = 0, exception_status = 0,
     device_info = None, server_id = None, server_id_len = 0, on_read_file = None, on_write_file = None\<rparr>"


subsection \<open>Departures\<close>

text \<open>
  The file-read handler collects its response in a local array of 256 bytes but checks the space against the slave's buffer: with a larger buffer,
  a request of two sub-requests of 120 words each writes far past the array.
\<close>

lemma read_file_step:
  assumes "buf ! req = 6" "read_u16 buf (req + 5) = 120" "pos + 244 \<le> bs" "cb = (\<lambda>s f r k. (Some (replicate (unat k) 0), s))" "pos \<le> length resp"
  shows "\<exists>resp1. read_file_loop cb bs buf (Suc k) req resp pos s = read_file_loop cb bs buf k (req + 7) resp1 (pos + 242) s \<and> pos + 242 \<le> length resp1"
proof -
  let ?w = "write_words (copy_into resp pos [of_nat (1 + 120 * 2), 0x06]) (pos + 2) (fetch_regs (replicate 120 0) 0 120)"
  have u: "unat (120 :: u16) = 120" "(120 :: u16) \<noteq> 0" by simp_all
  have c: "pos + 2 + 120 * 2 = pos + 242" by simp
  have "\<not> pos + 2 + 120 * 2 > bs - 2" using assms(3) by linarith
  then have e: "read_file_loop cb bs buf (Suc k) req resp pos s = read_file_loop cb bs buf k (req + 7) ?w (pos + 242) s"
    unfolding read_file_loop.simps Let_def assms(1,2,4) u(1) c using u(2) by simp
  have "pos + 2 \<le> length (copy_into resp pos [of_nat (1 + 120 * 2), 0x06] :: u8 list)" using assms(5) by (simp add: copy_into_def)
  then have "pos + 2 + 2 * 120 \<le> length ?w" using length_write_words [of "pos + 2" _ "fetch_regs (replicate 120 0) 0 120"] by simp
  then show ?thesis using e by auto
qed

theorem read_file_overflows_array:
  assumes "489 \<le> buf_size" "cb = (\<lambda>s f r k. (Some (replicate (unat k) 0), s))"
    and "buf = [a, 0x14, 14, 0x06, 0, 1, 0, 0, 0, 120, 0x06, 0, 1, 0, 0, 0, 120] @ rest"
  shows "\<exists>resp. read_file_loop cb buf_size buf (Suc (Suc 0)) 3 (replicate 256 0) 3 s = (Inr (resp, 487), s) \<and> length resp > 256"
proof -
  have r: "read_u16 buf (3 + 5) = 120" "read_u16 buf (10 + 5) = 120" "buf ! 3 = 6" "buf ! 10 = 6"
    unfolding assms(3) read_u16_def syn_peek_u16_def by simp_all
  obtain r1 where 1: "read_file_loop cb buf_size buf (Suc (Suc 0)) 3 (replicate 256 0) 3 s = read_file_loop cb buf_size buf (Suc 0) 10 r1 245 s" "245 \<le> length r1"
    using read_file_step [OF r(3,1) _ assms(2), of 3 buf_size "replicate 256 0" "Suc 0" s] assms(1) by auto
  obtain r2 where 2: "read_file_loop cb buf_size buf (Suc 0) 10 r1 245 s = read_file_loop cb buf_size buf 0 17 r2 487 s" "487 \<le> length r2"
    using read_file_step [OF r(4,2) _ assms(2), of 245 buf_size r1 0 s] assms(1) 1(2) by auto
  show ?thesis using 1 2 by auto
qed

text \<open>
  Asked for the single object 255, the identification loop never sees its byte counter pass 255: it goes on with object 0 and so on, and answers
  with objects that were not asked for.
\<close>

theorem device_info_255_wraps:
  assumes "512 \<le> bs" "length buf = bs"
  shows "info_loop None bs 255 255 8 0 buf = info_loop None bs 255 1 21 1 (copy_into buf 8 ([0, 11] @ ascii ''SyntropicOS''))"
proof -
  have n: "info_string None 255 = None" by (simp add: info_string_def)
  have z: "info_string None 0 = Some (ascii ''SyntropicOS'')" by (simp add: info_string_def)
  have l: "length (ascii ''SyntropicOS'') = 11" by (simp add: ascii_def)
  have w: "(255 :: u8) + 1 = 0" by simp
  have "info_loop None bs 255 255 8 0 buf = info_loop None bs 255 0 8 0 buf"
    using n by (subst info_loop.simps) (simp only: w order_refl if_True option.case)
  also have "\<dots> = info_loop None bs 255 1 21 1 (copy_into buf 8 ([0, 11] @ ascii ''SyntropicOS''))"
  proof -
    have "\<not> bs - 2 < 21" using assms(1) by linarith
    then show ?thesis using z l by (subst info_loop.simps) (simp add: Let_def)
  qed
  finally show ?thesis .
qed

text \<open>
  A byte that arrives after the silence gap while a frame (or a fragment) is still in the buffer is dropped: the next frame loses its first byte.
\<close>

theorem feed_drops_first_byte:
  assumes "mb_rx_len mb > 0" "now - mb_last_byte_tick mb \<ge> silence_gap mb"
  shows "mb_buf (syn_modbus_feed mb now b) = mb_buf mb \<and> mb_rx_len (syn_modbus_feed mb now b) \<le> mb_rx_len mb"
  using assms by (simp add: syn_modbus_feed_def Let_def)

end
