(* ===== verification/Syn_Modbus_Master.thy ===== *)
theory Syn_Modbus_Master
  imports Syn_Modbus Syn_Fifo
begin

text \<open>
  The Modbus RTU master of \<^verbatim>\<open>proto/syn_modbus_master.c\<close>: requests, reception and response processing, and the transaction queue. The
  caller transmits the first \<open>mm_tx_len\<close> bytes of the buffer. Callbacks of the queue are returned as values.
\<close>

datatype SYN_ModbusMaster_State = SYN_MB_MASTER_STATE_IDLE | SYN_MB_MASTER_STATE_WAITING_RESPONSE | SYN_MB_MASTER_STATE_COMPLETE
  | SYN_MB_MASTER_STATE_TIMEOUT | SYN_MB_MASTER_STATE_ERROR

definition SYN_MODBUS_MASTER_MAX_READ_DATA :: nat where "SYN_MODBUS_MASTER_MAX_READ_DATA = 250"

record modbus_master =
  mm_state :: SYN_ModbusMaster_State
  mm_buf :: "u8 list"
  mm_rx_len :: nat
  mm_tx_len :: nat
  mm_slave_addr :: u8
  mm_func_code :: u8
  mm_start_addr :: u16
  mm_count :: u16
  mm_request_tick_ms :: u32
  mm_timeout_ms :: u32
  mm_last_byte_tick_ms :: u32
  mm_response_fc :: u8
  mm_exception_code :: u8
  mm_read_data :: "u16 list"
  mm_read_count :: nat

definition syn_modbus_master_init :: "u32 \<Rightarrow> modbus_master" where
  "syn_modbus_master_init timeout_ms =
     \<lparr>mm_state = SYN_MB_MASTER_STATE_IDLE, mm_buf = replicate 256 0, mm_rx_len = 0, mm_tx_len = 0, mm_slave_addr = 0, mm_func_code = 0,
      mm_start_addr = 0, mm_count = 0, mm_request_tick_ms = 0, mm_timeout_ms = (if timeout_ms > 0 then timeout_ms else 500),
      mm_last_byte_tick_ms = 0, mm_response_fc = 0, mm_exception_code = 0, mm_read_data = replicate SYN_MODBUS_MASTER_MAX_READ_DATA 0, mm_read_count = 0\<rparr>"

definition write_u16_be :: "u8 list \<Rightarrow> nat \<Rightarrow> u16 \<Rightarrow> u8 list" where "write_u16_be buf i val = fst (syn_pack_u16 buf i val)"

definition read_u16_be :: "u8 list \<Rightarrow> nat \<Rightarrow> u16" where "read_u16_be buf i = syn_peek_u16 buf i"

text \<open>Appending the checksum of the first \<open>len\<close> bytes and setting the length to transmit.\<close>

definition finish_request :: "nat \<Rightarrow> modbus_master \<Rightarrow> modbus_master" where
  "finish_request len m = m\<lparr>mm_buf := syn_poke_u16_le (syn_crc16_modbus (take len (mm_buf m))) (mm_buf m) len, mm_tx_len := len + 2\<rparr>"

fun write_values :: "u8 list \<Rightarrow> nat \<Rightarrow> u16 list \<Rightarrow> u8 list" where
  "write_values buf i [] = buf"
| "write_values buf i (v # vs) = write_values (write_u16_be buf i v) (i + 2) vs"

definition send_request :: "modbus_master \<Rightarrow> u8 \<Rightarrow> u8 \<Rightarrow> u16 \<Rightarrow> u16 \<Rightarrow> u16 list \<Rightarrow> SYN_Status \<times> modbus_master" where
  "send_request m slave fc addr count write_vals =
     (if mm_state m = SYN_MB_MASTER_STATE_WAITING_RESPONSE then (SYN_BUSY, m)
      else
        let m1 = m\<lparr>mm_slave_addr := slave, mm_func_code := fc, mm_start_addr := addr, mm_count := count, mm_rx_len := 0, mm_read_count := 0,
                   mm_exception_code := 0, mm_request_tick_ms := 0,
                   mm_buf := write_u16_be (copy_into (mm_buf m) 0 [slave, fc]) 2 addr\<rparr>;
            m2 = (if fc = SYN_MB_FC_READ_HOLDING \<or> fc = SYN_MB_FC_READ_INPUT then
                    finish_request 6 (m1\<lparr>mm_buf := write_u16_be (mm_buf m1) 4 count\<rparr>)
                  else if fc = SYN_MB_FC_WRITE_SINGLE then
                    finish_request 6 (m1\<lparr>mm_buf := write_u16_be (mm_buf m1) 4 count\<rparr>)
                  else if fc = SYN_MB_FC_WRITE_MULTIPLE then
                    let buf1 = copy_into (write_u16_be (mm_buf m1) 4 count) 6 [of_nat (unat count * 2)];
                        buf2 = write_values buf1 7 (take (unat count) write_vals)
                    in finish_request (7 + unat count * 2) (m1\<lparr>mm_buf := buf2\<rparr>)
                  else m1)
        in (SYN_OK, m2\<lparr>mm_state := SYN_MB_MASTER_STATE_WAITING_RESPONSE\<rparr>))"

definition syn_modbus_master_read_holding :: "modbus_master \<Rightarrow> u8 \<Rightarrow> u16 \<Rightarrow> u16 \<Rightarrow> SYN_Status \<times> modbus_master" where
  "syn_modbus_master_read_holding m slave start_addr count =
     (if slave = 0 \<or> count = 0 \<or> count > 125 then (SYN_INVALID_PARAM, m)
      else send_request m slave SYN_MB_FC_READ_HOLDING start_addr count [])"

definition syn_modbus_master_read_input :: "modbus_master \<Rightarrow> u8 \<Rightarrow> u16 \<Rightarrow> u16 \<Rightarrow> SYN_Status \<times> modbus_master" where
  "syn_modbus_master_read_input m slave start_addr count =
     (if slave = 0 \<or> count = 0 \<or> count > 125 then (SYN_INVALID_PARAM, m)
      else send_request m slave SYN_MB_FC_READ_INPUT start_addr count [])"

definition syn_modbus_master_write_single :: "modbus_master \<Rightarrow> u8 \<Rightarrow> u16 \<Rightarrow> u16 \<Rightarrow> SYN_Status \<times> modbus_master" where
  "syn_modbus_master_write_single m slave reg_addr value =
     (if slave = 0 then (SYN_INVALID_PARAM, m) else send_request m slave SYN_MB_FC_WRITE_SINGLE reg_addr value [])"

definition syn_modbus_master_write_multiple :: "modbus_master \<Rightarrow> u8 \<Rightarrow> u16 \<Rightarrow> u16 \<Rightarrow> u16 list option \<Rightarrow> SYN_Status \<times> modbus_master" where
  "syn_modbus_master_write_multiple m slave start_addr count values =
     (case values of None \<Rightarrow> (SYN_INVALID_PARAM, m)
      | Some vs \<Rightarrow> if slave = 0 \<or> count = 0 \<or> count > 123 then (SYN_INVALID_PARAM, m)
                  else send_request m slave SYN_MB_FC_WRITE_MULTIPLE start_addr count vs)"

definition syn_modbus_master_read_coils :: "modbus_master \<Rightarrow> u8 \<Rightarrow> u16 \<Rightarrow> u16 \<Rightarrow> SYN_Status \<times> modbus_master" where
  "syn_modbus_master_read_coils m slave start_addr count =
     (if slave = 0 \<or> count = 0 \<or> count > 2000 then (SYN_INVALID_PARAM, m)
      else send_request m slave SYN_MB_FC_READ_COILS start_addr count [])"

definition syn_modbus_master_read_discrete_inputs :: "modbus_master \<Rightarrow> u8 \<Rightarrow> u16 \<Rightarrow> u16 \<Rightarrow> SYN_Status \<times> modbus_master" where
  "syn_modbus_master_read_discrete_inputs m slave start_addr count =
     (if slave = 0 \<or> count = 0 \<or> count > 2000 then (SYN_INVALID_PARAM, m)
      else send_request m slave SYN_MB_FC_READ_DISCRETE_INPUTS start_addr count [])"

definition syn_modbus_master_write_single_coil :: "modbus_master \<Rightarrow> u8 \<Rightarrow> u16 \<Rightarrow> bool \<Rightarrow> SYN_Status \<times> modbus_master" where
  "syn_modbus_master_write_single_coil m slave coil_addr state =
     (if slave = 0 then (SYN_INVALID_PARAM, m)
      else send_request m slave SYN_MB_FC_WRITE_SINGLE_COIL coil_addr (if state then 0xFF00 else 0x0000) [])"

text \<open>The other requests fill the transaction fields themselves, without the request tick.\<close>

definition begin_request :: "u8 \<Rightarrow> u8 \<Rightarrow> u16 \<Rightarrow> u16 \<Rightarrow> modbus_master \<Rightarrow> modbus_master" where
  "begin_request slave fc addr count m =
     m\<lparr>mm_slave_addr := slave, mm_func_code := fc, mm_start_addr := addr, mm_count := count, mm_rx_len := 0, mm_read_count := 0,
       mm_exception_code := 0, mm_buf := copy_into (mm_buf m) 0 [slave, fc]\<rparr>"

definition syn_modbus_master_write_multiple_coils :: "modbus_master \<Rightarrow> u8 \<Rightarrow> u16 \<Rightarrow> u16 \<Rightarrow> u8 list option \<Rightarrow> SYN_Status \<times> modbus_master" where
  "syn_modbus_master_write_multiple_coils m slave start_addr count coil_bytes =
     (case coil_bytes of None \<Rightarrow> (SYN_INVALID_PARAM, m)
      | Some bytes \<Rightarrow>
          if slave = 0 \<or> count = 0 \<or> count > 1968 then (SYN_INVALID_PARAM, m)
          else if mm_state m = SYN_MB_MASTER_STATE_WAITING_RESPONSE then (SYN_BUSY, m)
          else
            let m1 = begin_request slave SYN_MB_FC_WRITE_MULTIPLE_COILS start_addr count m;
                num_bytes = (unat count + 7) div 8;
                buf1 = copy_into (write_u16_be (write_u16_be (mm_buf m1) 2 start_addr) 4 count) 6 [of_nat num_bytes];
                m2 = finish_request (7 + num_bytes) (m1\<lparr>mm_buf := copy_into buf1 7 (take num_bytes bytes)\<rparr>)
            in (SYN_OK, m2\<lparr>mm_state := SYN_MB_MASTER_STATE_WAITING_RESPONSE\<rparr>))"

definition syn_modbus_master_mask_write_register :: "modbus_master \<Rightarrow> u8 \<Rightarrow> u16 \<Rightarrow> u16 \<Rightarrow> u16 \<Rightarrow> SYN_Status \<times> modbus_master" where
  "syn_modbus_master_mask_write_register m slave reg_addr and_mask or_mask =
     (if slave = 0 then (SYN_INVALID_PARAM, m)
      else if mm_state m = SYN_MB_MASTER_STATE_WAITING_RESPONSE then (SYN_BUSY, m)
      else
        let m1 = begin_request slave SYN_MB_FC_MASK_WRITE_REGISTER reg_addr 1 m;
            m2 = finish_request 8 (m1\<lparr>mm_buf := write_u16_be (write_u16_be (write_u16_be (mm_buf m1) 2 reg_addr) 4 and_mask) 6 or_mask\<rparr>)
        in (SYN_OK, m2\<lparr>mm_state := SYN_MB_MASTER_STATE_WAITING_RESPONSE\<rparr>))"

definition syn_modbus_master_read_fifo_queue :: "modbus_master \<Rightarrow> u8 \<Rightarrow> u16 \<Rightarrow> SYN_Status \<times> modbus_master" where
  "syn_modbus_master_read_fifo_queue m slave fifo_addr =
     (if slave = 0 then (SYN_INVALID_PARAM, m)
      else if mm_state m = SYN_MB_MASTER_STATE_WAITING_RESPONSE then (SYN_BUSY, m)
      else
        let m1 = begin_request slave SYN_MB_FC_READ_FIFO_QUEUE fifo_addr 0 m;
            m2 = finish_request 4 (m1\<lparr>mm_buf := write_u16_be (mm_buf m1) 2 fifo_addr\<rparr>)
        in (SYN_OK, m2\<lparr>mm_state := SYN_MB_MASTER_STATE_WAITING_RESPONSE\<rparr>))"

definition syn_modbus_master_report_server_id :: "modbus_master \<Rightarrow> u8 \<Rightarrow> SYN_Status \<times> modbus_master" where
  "syn_modbus_master_report_server_id m slave =
     (if slave = 0 then (SYN_INVALID_PARAM, m)
      else if mm_state m = SYN_MB_MASTER_STATE_WAITING_RESPONSE then (SYN_BUSY, m)
      else
        let m2 = finish_request 2 (begin_request slave SYN_MB_FC_REPORT_SERVER_ID 0 0 m)
        in (SYN_OK, m2\<lparr>mm_state := SYN_MB_MASTER_STATE_WAITING_RESPONSE\<rparr>))"

definition syn_modbus_master_feed :: "modbus_master \<Rightarrow> u8 \<Rightarrow> modbus_master" where
  "syn_modbus_master_feed m byte =
     (if mm_state m = SYN_MB_MASTER_STATE_WAITING_RESPONSE \<and> mm_rx_len m < 256
      then m\<lparr>mm_buf := copy_into (mm_buf m) (mm_rx_len m) [byte], mm_rx_len := mm_rx_len m + 1\<rparr> else m)"

text \<open>The part of \<open>syn_modbus_master_process\<close> that decodes a successful response.\<close>

definition master_response :: "modbus_master \<Rightarrow> u8 \<Rightarrow> modbus_master" where
  "master_response m fc =
     (if fc = SYN_MB_FC_READ_HOLDING \<or> fc = SYN_MB_FC_READ_INPUT then
        let words0 = unat (mm_buf m ! 2) div 2;
            words = (if words0 > 125 then 125 else words0)
        in m\<lparr>mm_read_data := copy_into (mm_read_data m) 0 (map (\<lambda>i. read_u16_be (mm_buf m) (3 + i * 2)) [0..<words]), mm_read_count := words,
             mm_state := SYN_MB_MASTER_STATE_COMPLETE\<rparr>
      else if fc = SYN_MB_FC_READ_COILS \<or> fc = SYN_MB_FC_READ_DISCRETE_INPUTS \<or> fc = SYN_MB_FC_REPORT_SERVER_ID then
        let byte_count0 = unat (mm_buf m ! 2);
            byte_count = (if byte_count0 > 250 then 250 else byte_count0)
        in m\<lparr>mm_read_data := copy_into (mm_read_data m) 0 (map (\<lambda>i. ucast (mm_buf m ! (3 + i))) [0..<byte_count]), mm_read_count := byte_count,
             mm_state := SYN_MB_MASTER_STATE_COMPLETE\<rparr>
      else if fc = SYN_MB_FC_READ_FIFO_QUEUE then
        let fifo0 = unat (read_u16_be (mm_buf m) 4);
            fifo = (if fifo0 > 31 then 31 else fifo0)
        in m\<lparr>mm_read_data := copy_into (mm_read_data m) 0 (map (\<lambda>i. read_u16_be (mm_buf m) (6 + i * 2)) [0..<fifo]), mm_read_count := fifo,
             mm_state := SYN_MB_MASTER_STATE_COMPLETE\<rparr>
      else if fc = SYN_MB_FC_WRITE_SINGLE \<or> fc = SYN_MB_FC_WRITE_MULTIPLE \<or> fc = SYN_MB_FC_WRITE_SINGLE_COIL
         \<or> fc = SYN_MB_FC_WRITE_MULTIPLE_COILS \<or> fc = SYN_MB_FC_MASK_WRITE_REGISTER then
        m\<lparr>mm_state := SYN_MB_MASTER_STATE_COMPLETE\<rparr>
      else m)"

definition syn_modbus_master_process :: "modbus_master \<Rightarrow> u32 \<Rightarrow> SYN_ModbusMaster_State \<times> modbus_master" where
  "syn_modbus_master_process m current_tick_ms =
     (if mm_state m \<noteq> SYN_MB_MASTER_STATE_WAITING_RESPONSE then (mm_state m, m)
      else
        let m1 = (if mm_request_tick_ms m = 0 then m\<lparr>mm_request_tick_ms := current_tick_ms\<rparr> else m);
            m2 = (if current_tick_ms - mm_request_tick_ms m1 \<ge> mm_timeout_ms m1 then m1\<lparr>mm_state := SYN_MB_MASTER_STATE_TIMEOUT\<rparr>
                  else if mm_rx_len m1 < 5 then m1
                  else if syn_crc16_modbus (take (mm_rx_len m1 - 2) (mm_buf m1)) \<noteq> syn_peek_u16_le (mm_buf m1) (mm_rx_len m1 - 2) then m1
                  else if mm_buf m1 ! 0 \<noteq> mm_slave_addr m1 then m1\<lparr>mm_state := SYN_MB_MASTER_STATE_ERROR\<rparr>
                  else
                    let fc = mm_buf m1 ! 1;
                        m' = m1\<lparr>mm_response_fc := fc\<rparr>
                    in if fc = mm_func_code m' OR 0x80
                       then m'\<lparr>mm_exception_code := mm_buf m' ! 2, mm_state := SYN_MB_MASTER_STATE_ERROR\<rparr>
                       else if fc \<noteq> mm_func_code m' then m'\<lparr>mm_state := SYN_MB_MASTER_STATE_ERROR\<rparr>
                       else master_response m' fc)
        in (mm_state m2, m2))"

subsection \<open>Transaction queue\<close>

definition SYN_MODBUS_QUEUE_SIZE :: nat where "SYN_MODBUS_QUEUE_SIZE = 16"

text \<open>A query; \<open>qy_callback\<close> tells whether a callback is set.\<close>

record master_query =
  qy_slave_addr :: u8
  qy_func_code :: u8
  qy_start_addr :: u16
  qy_count :: u16
  qy_write_value :: u16
  qy_callback :: bool
  qy_user_ctx :: nat

record master_queue =
  mq_queries :: "master_query list"
  mq_head :: nat
  mq_tail :: nat
  mq_count :: nat
  mq_max_retries :: u8
  mq_retry_count :: u8

definition syn_modbus_master_queue_init :: "master_query list \<Rightarrow> u8 \<Rightarrow> master_queue" where
  "syn_modbus_master_queue_init zeroed max_retries =
     \<lparr>mq_queries = zeroed, mq_head = 0, mq_tail = 0, mq_count = 0, mq_max_retries = max_retries, mq_retry_count = 0\<rparr>"

definition syn_modbus_master_queue_push :: "master_queue \<Rightarrow> master_query \<Rightarrow> SYN_Status \<times> master_queue" where
  "syn_modbus_master_queue_push q query =
     (if mq_count q \<ge> SYN_MODBUS_QUEUE_SIZE then (SYN_ERROR, q)
      else (SYN_OK, q\<lparr>mq_queries := (mq_queries q)[mq_tail q := query], mq_tail := (mq_tail q + 1) mod SYN_MODBUS_QUEUE_SIZE,
                      mq_count := mq_count q + 1\<rparr>))"

definition queue_dispatch :: "modbus_master \<Rightarrow> master_query \<Rightarrow> SYN_Status \<times> modbus_master" where
  "queue_dispatch m qry =
     (if qy_func_code qry = SYN_MB_FC_READ_HOLDING then syn_modbus_master_read_holding m (qy_slave_addr qry) (qy_start_addr qry) (qy_count qry)
      else if qy_func_code qry = SYN_MB_FC_READ_INPUT then syn_modbus_master_read_input m (qy_slave_addr qry) (qy_start_addr qry) (qy_count qry)
      else if qy_func_code qry = SYN_MB_FC_WRITE_SINGLE then syn_modbus_master_write_single m (qy_slave_addr qry) (qy_start_addr qry) (qy_write_value qry)
      else if qy_func_code qry = SYN_MB_FC_READ_COILS then syn_modbus_master_read_coils m (qy_slave_addr qry) (qy_start_addr qry) (qy_count qry)
      else if qy_func_code qry = SYN_MB_FC_READ_DISCRETE_INPUTS
      then syn_modbus_master_read_discrete_inputs m (qy_slave_addr qry) (qy_start_addr qry) (qy_count qry)
      else (SYN_ERROR, m))"

definition queue_pop :: "master_queue \<Rightarrow> master_queue" where
  "queue_pop q = q\<lparr>mq_head := (mq_head q + 1) mod SYN_MODBUS_QUEUE_SIZE, mq_count := mq_count q - 1, mq_retry_count := 0\<rparr>"

text \<open>One step: the callback made, if any (query, data, status), the master and the queue.\<close>

definition syn_modbus_master_queue_step ::
  "modbus_master \<Rightarrow> master_queue \<Rightarrow> u32 \<Rightarrow> (master_query \<times> u16 list option \<times> SYN_Status) option \<times> modbus_master \<times> master_queue" where
  "syn_modbus_master_queue_step m q now_ms =
     (let (state, m1) = syn_modbus_master_process m now_ms;
          qry = mq_queries q ! mq_head q
      in if state = SYN_MB_MASTER_STATE_IDLE \<and> mq_count q > 0 then
           let (st, m2) = queue_dispatch m1 qry
           in (None, if st = SYN_OK then snd (syn_modbus_master_process m2 now_ms) else m2, q)
         else if state = SYN_MB_MASTER_STATE_COMPLETE \<and> mq_count q > 0 then
           (if qy_callback qry then Some (qry, Some (take (mm_read_count m1) (mm_read_data m1)), SYN_OK) else None,
            m1\<lparr>mm_state := SYN_MB_MASTER_STATE_IDLE\<rparr>, queue_pop q)
         else if (state = SYN_MB_MASTER_STATE_TIMEOUT \<or> state = SYN_MB_MASTER_STATE_ERROR) \<and> mq_count q > 0 then
           if mq_retry_count q < mq_max_retries q
           then (None, m1\<lparr>mm_state := SYN_MB_MASTER_STATE_IDLE\<rparr>, q\<lparr>mq_retry_count := mq_retry_count q + 1\<rparr>)
           else (if qy_callback qry then Some (qry, None, SYN_ERROR) else None, m1\<lparr>mm_state := SYN_MB_MASTER_STATE_IDLE\<rparr>, queue_pop q)
         else (None, m1, q))"

section \<open>Transactions\<close>

text \<open>A payload with its checksum, as it travels on the bus.\<close>

definition crc_frame :: "u8 list \<Rightarrow> u8 list" where
  "crc_frame xs = xs @ enc_u16_le (syn_crc16_modbus xs)"

lemma length_enc_u16_le [simp]: "length (enc_u16_le v) = 2"
  by (simp add: enc_u16_le_def)

lemma length_crc_frame [simp]: "length (crc_frame xs) = length xs + 2"
  by (simp add: crc_frame_def)

lemma take_crc_frame [simp]: "take (length xs) (crc_frame xs) = xs"
  by (simp add: crc_frame_def)

lemma crc_frame_checks:
  "syn_peek_u16_le (crc_frame xs @ ys) (length xs) = syn_crc16_modbus xs" "take (length xs) (crc_frame xs @ ys) = xs"
  using f16le.get_encode [of xs "syn_crc16_modbus xs" ys] by (simp_all add: crc_frame_def peek_u16_le)

lemma check_crc_frame: "check_crc (crc_frame xs @ ys) (length xs + 2)"
  by (simp add: check_crc_def crc_frame_checks)

lemma append_crc_eq: "len + 2 \<le> length buf \<Longrightarrow> take (len + 2) (append_crc buf len) = crc_frame (take len buf)"
  by (simp add: append_crc_def poke_u16_le copy_into_def crc_frame_def)

lemma read_u16_at: "read_u16 (xs @ enc_u16 v @ ys) (length xs) = v"
  using f16.get_encode [of xs v ys] by (simp add: read_u16_def peek_u16)

lemma read_u16_at2: "read_u16 (a # b # enc_u16 v @ ys) 2 = v" "read_u16 (a # b # enc_u16 u @ enc_u16 v @ ys) 4 = v"
  using read_u16_at [of "[a, b]" v ys] read_u16_at [of "[a, b] @ enc_u16 u" v ys] by (simp_all add: numeral_eq_Suc)

lemma write_values_eq: "write_values buf i vs = write_words buf i vs"
  by (induction buf i vs rule: write_values.induct) (simp_all add: write_u16_be_def write_u16_def)

lemma read_words_at: "read_words (xs @ concat (map enc_u16 vs) @ ys) (length xs) (length vs) = vs"
  by (rule nth_equalityI) (use f16.get_nth [of _ vs xs ys] in \<open>simp_all add: read_words_def read_u16_def peek_u16 mult.commute\<close>)

subsection \<open>What the slave answers\<close>

lemma send_response_simps [simp]:
  "mb_cfg (send_response mb l) = mb_cfg mb" "mb_app (send_response mb l) = mb_app mb" "mb_rx_len (send_response mb l) = mb_rx_len mb"
  by (simp_all add: send_response_def Let_def)

lemma set_byte_simps [simp]:
  "mb_cfg (set_byte i b mb) = mb_cfg mb" "mb_app (set_byte i b mb) = mb_app mb" "mb_rx_len (set_byte i b mb) = mb_rx_len mb"
  "mb_uart (set_byte i b mb) = mb_uart mb" "mb_buf (set_byte i b mb) = copy_into (mb_buf mb) i [b]"
  by (simp_all add: set_byte_def)

lemma bump_event_simps [simp]:
  "mb_cfg (bump_event mb) = mb_cfg mb" "mb_app (bump_event mb) = mb_app mb" "mb_rx_len (bump_event mb) = mb_rx_len mb" "mb_uart (bump_event mb) = mb_uart mb"
  by (simp_all add: bump_event_def)

lemma send_exception_simps [simp]:
  "mb_cfg (send_exception mb f e) = mb_cfg mb" "mb_app (send_exception mb f e) = mb_app mb" "mb_rx_len (send_exception mb f e) = mb_rx_len mb"
  by (simp_all add: send_exception_def Let_def)

lemma send_response_uart:
  "mb_buf mb ! 0 \<noteq> 0 \<Longrightarrow> len + 2 \<le> length (mb_buf mb) \<Longrightarrow> mb_uart (send_response mb len) = mb_uart mb @ [crc_frame (take len (mb_buf mb))]"
  using append_crc_eq [of len "mb_buf mb"] by (simp add: send_response_def Let_def)

lemma send_exception_uart:
  assumes "mb_buf mb ! 0 \<noteq> 0" "5 \<le> length (mb_buf mb)" "slave_addr (mb_cfg mb) \<noteq> 0"
  shows "mb_uart (send_exception mb f e) = mb_uart mb @ [crc_frame [slave_addr (mb_cfg mb), f OR 0x80, e]]"
proof -
  let ?m = "set_byte 2 e (set_byte 1 (f OR 0x80) (set_byte 0 (slave_addr (mb_cfg mb)) mb))"
  obtain x y z r where b: "mb_buf mb = x # y # z # r"
    using assms(2) by (metis Suc_le_length_iff numeral_eq_Suc pred_numeral_simps(2) pred_numeral_simps(3) BitM.simps(1) One_nat_def)
  have "mb_buf ?m = [slave_addr (mb_cfg mb), f OR 0x80, e] @ r" unfolding set_byte_simps b copy_into_def by simp
  then show ?thesis using assms send_response_uart [of ?m 3] by (simp add: send_exception_def Let_def b)
qed

text \<open>Polling a frame addressed to the slave dispatches it.\<close>

lemma accept_frame:
  assumes "mb_rx_len mb + length f \<le> mb_buf_size mb" "length (mb_buf mb) = mb_buf_size mb" "f \<noteq> []"
  shows "fold (\<lambda>(b, t). accept_byte b t) (map (\<lambda>b. (b, t)) f) mb
    = mb\<lparr>mb_buf := copy_into (mb_buf mb) (mb_rx_len mb) f, mb_rx_len := mb_rx_len mb + length f, mb_last_byte_tick := t\<rparr>"
  using assms
proof (induction f arbitrary: mb)
  case (Cons b f)
  let ?m = "mb\<lparr>mb_buf := copy_into (mb_buf mb) (mb_rx_len mb) [b], mb_rx_len := mb_rx_len mb + 1, mb_last_byte_tick := t\<rparr>"
  have a: "accept_byte b t mb = ?m" using Cons.prems by (simp add: accept_byte_def Let_def)
  show ?case
  proof (cases "f = []")
    case False
    then have "fold (\<lambda>(b, t). accept_byte b t) (map (\<lambda>b. (b, t)) f) ?m
      = ?m\<lparr>mb_buf := copy_into (mb_buf ?m) (mb_rx_len ?m) f, mb_rx_len := mb_rx_len ?m + length f, mb_last_byte_tick := t\<rparr>"
      using Cons.prems by (intro Cons.IH) simp_all
    then show ?thesis using a copy_into_copy_into [of "mb_rx_len mb" "[b]" f "mb_buf mb"] Cons.prems by simp
  qed (simp add: a)
qed simp

definition slave_ready :: "u8 \<Rightarrow> 's modbus \<Rightarrow> bool" where
  "slave_ready a mb \<longleftrightarrow> a \<noteq> 0 \<and> mb_rx_len mb = 0 \<and> 256 \<le> mb_buf_size mb \<and> (\<exists>k cl. mb_ok (mb_buf_size mb) (Some k) cl a mb)
     \<and> (\<exists>i. input_regs (mb_cfg mb) = Some i \<and> length i = unat (input_count (mb_cfg mb)))"

lemma ready_facts:
  assumes "slave_ready a mb"
  shows "length (mb_buf mb) = mb_buf_size mb" "256 \<le> mb_buf_size mb" "mb_rx_len mb = 0" "a \<noteq> 0" "slave_addr (mb_cfg mb) = a"
    "\<exists>h. holding_regs (mb_cfg mb) = Some h \<and> length h = unat (holding_count (mb_cfg mb))"
    "\<exists>i. input_regs (mb_cfg mb) = Some i \<and> length i = unat (input_count (mb_cfg mb))"
  using assms by (auto simp: slave_ready_def mb_ok_def cfg_ok_def)

definition settled :: "'s modbus \<Rightarrow> u32 \<Rightarrow> u32 \<Rightarrow> bool" where
  "settled mb t u \<longleftrightarrow> u - t \<ge> silence_gap mb \<and> u - t \<ge> MB_SILENCE_MS"

text \<open>The slave when the dispatcher runs, its buffer starting with the frame.\<close>

definition with_frame :: "'s modbus \<Rightarrow> u8 list \<Rightarrow> u32 \<Rightarrow> 's modbus" where
  "with_frame mb f t = mb\<lparr>mb_buf := f @ drop (length f) (mb_buf mb), mb_last_byte_tick := t, mb_rx_len := 0, mb_frame_ready := False,
     mb_frames_rx := mb_frames_rx mb + 1, mb_bus_message_count := mb_bus_message_count mb + 1\<rparr>"

lemma poll_dispatches:
  assumes "slave_ready a mb" "settled mb t u" "hd xs = a" "2 \<le> length xs" "length xs + 2 \<le> 256"
  shows "syn_modbus_poll mb (map (\<lambda>b. (b, t)) (crc_frame xs)) u u
    = mb_dispatch (with_frame mb (crc_frame xs) t) (length xs + 2) False (xs ! 1)"
proof -
  let ?f = "crc_frame xs"
  have xs: "xs \<noteq> []" "?f ! 0 = a" "?f ! 1 = xs ! 1" "a \<noteq> 0" "?f \<noteq> []"
    using ready_facts(4) [OF assms(1)] assms(3,4) by (auto simp: crc_frame_def nth_append hd_conv_nth)
  let ?m = "mb\<lparr>mb_buf := ?f @ drop (length ?f) (mb_buf mb), mb_rx_len := length xs + 2, mb_last_byte_tick := t\<rparr>"
  have acc: "fold (\<lambda>(b, t). accept_byte b t) (map (\<lambda>b. (b, t)) ?f) mb = ?m"
    using accept_frame [of mb ?f t] ready_facts [OF assms(1)] assms(5) xs(5) by (simp add: copy_into_def)
  have c: "check_crc (?f @ drop (length xs + 2) (mb_buf mb)) (length xs + 2)" by (rule check_crc_frame)
  have z: "(?f @ ys) ! 0 = a" "(?f @ ys) ! 1 = xs ! 1" for ys using xs(2,3) assms(4) by (simp_all add: nth_append)
  have gap: "silence_gap ?m \<le> u - t" using assms(2) by (simp add: settled_def silence_gap_def split: if_splits)
  have "syn_modbus_process ?m u = mb_dispatch (with_frame mb ?f t) (length xs + 2) False (xs ! 1)"
    using ready_facts(3,5) [OF assms(1)] assms(4) c gap xs z unfolding syn_modbus_process_def Let_def
    by (simp add: MB_MIN_FRAME_LEN_def with_frame_def)
  then show ?thesis using assms(2) unfolding syn_modbus_poll_def Let_def acc by (simp add: settled_def)
qed

subsection \<open>Abstract device\<close>

text \<open>
  What a Modbus slave promises to a master: registers that are read and written as arrays, writes that the application may refuse, and exception 2 or 3 where
  the request is out of range or refused.
\<close>

record 's device =
  dv_holding :: "u16 list"
  dv_input :: "u16 list"
  dv_allow :: "('s \<Rightarrow> u16 \<Rightarrow> u16 \<Rightarrow> bool \<times> 's) option"
  dv_app :: 's

datatype mb_request = Read_Holding u16 u16 | Read_Input u16 u16 | Write_Single u16 u16 | Write_Multiple u16 "u16 list"

definition dev_write :: "u16 \<Rightarrow> u16 list \<Rightarrow> 's device \<Rightarrow> (u8 + u16 list) \<times> 's device" where
  "dev_write x vs d =
     (if unat x + length vs > length (dv_holding d) then (Inl 2, d)
      else
        let (ok, s) = (case dv_allow d of None \<Rightarrow> (True, dv_app d) | Some f \<Rightarrow> f (dv_app d) x (of_nat (length vs)));
            d1 = d\<lparr>dv_app := s\<rparr>
        in if ok then (Inr [], d1\<lparr>dv_holding := copy_into (dv_holding d) (unat x) vs\<rparr>) else (Inl 3, d1))"

definition dev_read :: "u16 list \<Rightarrow> u16 \<Rightarrow> u16 \<Rightarrow> u8 + u16 list" where
  "dev_read regs x k = (if unat x + unat k > length regs then Inl 2 else Inr (take (unat k) (drop (unat x) regs)))"

fun serve :: "mb_request \<Rightarrow> 's device \<Rightarrow> (u8 + u16 list) \<times> 's device" where
  "serve (Read_Holding x k) d = (dev_read (dv_holding d) x k, d)"
| "serve (Read_Input x k) d = (dev_read (dv_input d) x k, d)"
| "serve (Write_Single x v) d = dev_write x [v] d"
| "serve (Write_Multiple x vs) d = dev_write x vs d"

definition device_of :: "'s modbus \<Rightarrow> 's device" where
  "device_of mb = \<lparr>dv_holding = the (holding_regs (mb_cfg mb)), dv_input = the (input_regs (mb_cfg mb)), dv_allow = on_write (mb_cfg mb), dv_app = mb_app mb\<rparr>"

lemma device_of_simps [simp]:
  "dv_holding (device_of mb) = the (holding_regs (mb_cfg mb))" "dv_input (device_of mb) = the (input_regs (mb_cfg mb))"
  "dv_allow (device_of mb) = on_write (mb_cfg mb)" "dv_app (device_of mb) = mb_app mb"
  by (simp_all add: device_of_def)

text \<open>The payload of each request, of each answer, and the function code.\<close>

fun request_fc :: "mb_request \<Rightarrow> u8" where
  "request_fc (Read_Holding x k) = SYN_MB_FC_READ_HOLDING"
| "request_fc (Read_Input x k) = SYN_MB_FC_READ_INPUT"
| "request_fc (Write_Single x v) = SYN_MB_FC_WRITE_SINGLE"
| "request_fc (Write_Multiple x vs) = SYN_MB_FC_WRITE_MULTIPLE"

fun request_bytes :: "u8 \<Rightarrow> mb_request \<Rightarrow> u8 list" where
  "request_bytes a (Read_Holding x k) = [a, SYN_MB_FC_READ_HOLDING] @ enc_u16 x @ enc_u16 k"
| "request_bytes a (Read_Input x k) = [a, SYN_MB_FC_READ_INPUT] @ enc_u16 x @ enc_u16 k"
| "request_bytes a (Write_Single x v) = [a, SYN_MB_FC_WRITE_SINGLE] @ enc_u16 x @ enc_u16 v"
| "request_bytes a (Write_Multiple x vs) =
     [a, SYN_MB_FC_WRITE_MULTIPLE] @ enc_u16 x @ enc_u16 (of_nat (length vs)) @ [of_nat (length vs * 2)] @ concat (map enc_u16 vs)"

fun request_ok :: "mb_request \<Rightarrow> bool" where
  "request_ok (Read_Holding x k) \<longleftrightarrow> 0 < unat k \<and> unat k \<le> 125"
| "request_ok (Read_Input x k) \<longleftrightarrow> 0 < unat k \<and> unat k \<le> 125"
| "request_ok (Write_Single x v) \<longleftrightarrow> True"
| "request_ok (Write_Multiple x vs) \<longleftrightarrow> 0 < length vs \<and> length vs \<le> 123"

fun answer_bytes :: "u8 \<Rightarrow> mb_request \<Rightarrow> u8 + u16 list \<Rightarrow> u8 list" where
  "answer_bytes a r (Inl e) = [a, request_fc r OR 0x80, e]"
| "answer_bytes a (Read_Holding x k) (Inr vs) = [a, SYN_MB_FC_READ_HOLDING, of_nat (length vs * 2)] @ concat (map enc_u16 vs)"
| "answer_bytes a (Read_Input x k) (Inr vs) = [a, SYN_MB_FC_READ_INPUT, of_nat (length vs * 2)] @ concat (map enc_u16 vs)"
| "answer_bytes a r (Inr vs) = take 6 (request_bytes a r)"

subsection \<open>The slave implements the device\<close>

lemma take_prefix: "take (length xs) (xs @ ys) = xs"
  by simp

lemma read_regs_answer:
  assumes "mb_buf mb = [a, fc] @ enc_u16 x @ enc_u16 k @ rest" "a \<noteq> 0" "slave_addr (mb_cfg mb) = a" "8 \<le> len" "0 < unat k" "unat k \<le> 125"
    "256 \<le> length (mb_buf mb)" "length regs = unat c"
  defines "mb' \<equiv> handle_read_regs mb len (Some regs) c"
  shows "mb_cfg mb' = mb_cfg mb \<and> mb_app mb' = mb_app mb \<and> mb_rx_len mb' = mb_rx_len mb
    \<and> mb_uart mb' = mb_uart mb @ [crc_frame (case dev_read regs x k of Inl e \<Rightarrow> [a, fc OR 0x80, e]
        | Inr vs \<Rightarrow> [a, fc, of_nat (length vs * 2)] @ concat (map enc_u16 vs))]"
proof -
  let ?buf = "mb_buf mb"
  have r: "read_u16 ?buf 2 = x" "read_u16 ?buf 4 = k" "?buf ! 1 = fc" "?buf ! 0 = a" unfolding assms(1) by (simp_all add: read_u16_at2)
  have nl: "\<not> len < 8" and kk: "\<not> (unat k = 0 \<or> unat k > 125)" using assms(4-6) by simp_all
  show ?thesis
  proof (cases "unat x + unat k > length regs")
    case True
    then have e: "mb' = send_exception mb fc SYN_MB_EX_ILLEGAL_ADDR"
      unfolding mb'_def handle_read_regs_def Let_def r using nl kk assms(8) by simp
    then show ?thesis using True send_exception_uart [of mb fc SYN_MB_EX_ILLEGAL_ADDR] r(4) assms(2,3,7) unfolding e
      by (simp add: dev_read_def SYN_MB_EX_ILLEGAL_ADDR_def)
  next
    case False
    let ?vs = "take (unat k) (drop (unat x) regs)"
    let ?w = "concat (map enc_u16 ?vs)"
    let ?mb1 = "set_byte 2 (of_nat (unat k * 2)) mb"
    let ?mb2 = "?mb1\<lparr>mb_buf := write_words (mb_buf ?mb1) 3 (fetch_regs regs (unat x) (unat k))\<rparr>"
    have e: "mb' = send_response ?mb2 (3 + unat k * 2)"
      unfolding mb'_def handle_read_regs_def Let_def r using nl kk assms(8) False by simp
    have lv: "length ?vs = unat k" using False by simp
    have lb: "length (copy_into ?buf 2 [of_nat (unat k * 2)]) = length ?buf" using assms(7) by simp
    have b2: "mb_buf ?mb2 = copy_into (copy_into ?buf 2 [of_nat (unat k * 2)]) 3 ?w"
      using False lb assms(6,7) by (simp add: fetch_regs_eq write_words_eq)
    also have "\<dots> = [a, fc, of_nat (unat k * 2)] @ ?w @ drop (3 + length ?w) ?buf"
    proof -
      have "2 + length [of_nat (unat k * 2) :: u8] + length ?w \<le> length ?buf" using lv assms(6,7) by simp
      from copy_into_copy_into [OF this] have "copy_into (copy_into ?buf 2 [of_nat (unat k * 2)]) 3 ?w = copy_into ?buf 2 (of_nat (unat k * 2) # ?w)" by simp
      also have "\<dots> = take 2 ?buf @ (of_nat (unat k * 2) # ?w) @ drop (3 + length ?w) ?buf" unfolding copy_into_def by (simp add: numeral_3_eq_3)
      also have "take 2 ?buf = [a, fc]" unfolding assms(1) by simp
      finally show ?thesis by simp
    qed
    finally have b3: "mb_buf ?mb2 = [a, fc, of_nat (unat k * 2)] @ ?w @ drop (3 + length ?w) ?buf" .
    have lw: "length ?w = unat k * 2" using lv by simp
    have l2: "3 + unat k * 2 + 2 \<le> length (mb_buf ?mb2)" using b3 lw assms(6,7) by simp
    have P: "length ([a, fc, of_nat (unat k * 2)] @ ?w) = 3 + unat k * 2" using lw by simp
    have t2: "take (3 + unat k * 2) (mb_buf ?mb2) = [a, fc, of_nat (unat k * 2)] @ ?w"
      using take_prefix [of "[a, fc, of_nat (unat k * 2)] @ ?w" "drop (3 + length ?w) ?buf"] unfolding P b3 by simp
    have "mb_buf ?mb2 ! 0 \<noteq> 0" using b3 assms(2) by simp
    from send_response_uart [OF this l2]
    show ?thesis using False lv unfolding e t2 by (simp add: dev_read_def)
  qed
qed

lemma ask_write_spec:
  "ask_write mb x k = (let (ok, s) = (case on_write (mb_cfg mb) of None \<Rightarrow> (True, mb_app mb) | Some f \<Rightarrow> f (mb_app mb) x k) in (ok, mb\<lparr>mb_app := s\<rparr>))"
  by (simp add: ask_write_def split: option.split)

lemma write_answer_aux:
  assumes "mb_buf mb ! 0 = a" "a \<noteq> 0" "slave_addr (mb_cfg mb) = a" "256 \<le> length (mb_buf mb)"
    "holding_regs (mb_cfg mb) = Some h" "length h = unat (holding_count (mb_cfg mb))" "0 < length vs"
    "take 6 (mb_buf mb) = ack" "ask_write mb x (of_nat (length vs)) = (ok, mb1)"
    and h: "mb' = (if unat x + length vs > length h then send_exception mb fc SYN_MB_EX_ILLEGAL_ADDR
          else if \<not> ok then send_exception mb1 fc SYN_MB_EX_ILLEGAL_VALUE
          else send_response (set_holding (copy_into h (unat x) vs) mb1) 6)"
  shows "device_of mb' = snd (dev_write x vs (device_of mb)) \<and> mb_rx_len mb' = mb_rx_len mb
    \<and> mb_uart mb' = mb_uart mb @ [crc_frame (case fst (dev_write x vs (device_of mb)) of Inl e \<Rightarrow> [a, fc OR 0x80, e] | Inr _ \<Rightarrow> ack)]
    \<and> mb_cfg mb' = (mb_cfg mb)\<lparr>holding_regs := Some (dv_holding (snd (dev_write x vs (device_of mb))))\<rparr>"
proof -
  obtain s where m1: "mb1 = mb\<lparr>mb_app := s\<rparr>" and ok: "(case on_write (mb_cfg mb) of None \<Rightarrow> (True, mb_app mb) | Some f \<Rightarrow> f (mb_app mb) x (of_nat (length vs))) = (ok, s)"
  proof -
    obtain ok' s where e: "(case on_write (mb_cfg mb) of None \<Rightarrow> (True, mb_app mb) | Some f \<Rightarrow> f (mb_app mb) x (of_nat (length vs))) = (ok', s)" by force
    then show ?thesis using that [of s] assms(9) by (simp add: ask_write_spec)
  qed
  have w: "dev_write x vs (device_of mb) = (if unat x + length vs > length h then (Inl 2, device_of mb)
      else if ok then (Inr [], (device_of mb)\<lparr>dv_app := s, dv_holding := copy_into h (unat x) vs\<rparr>) else (Inl 3, (device_of mb)\<lparr>dv_app := s\<rparr>))"
    using ok assms(5) unfolding dev_write_def device_of_simps by simp
  have z: "mb_buf mb ! 0 \<noteq> 0" "5 \<le> length (mb_buf mb)" "8 \<le> length (mb_buf mb)" "slave_addr (mb_cfg mb) \<noteq> 0" using assms(1-4) by simp_all
  show ?thesis
  proof (cases "unat x + length vs > length h")
    case True
    then have e: "mb' = send_exception mb fc 2" using h by (simp add: SYN_MB_EX_ILLEGAL_ADDR_def)
    show ?thesis using True send_exception_uart [OF z(1,2,4), of fc 2] assms(3,5) unfolding e w by (simp add: device_of_def)
  next
    case F: False
    show ?thesis
    proof (cases ok)
      case True
      then have e: "mb' = send_response (set_holding (copy_into h (unat x) vs) mb1) 6" using h F by simp
      have "mb_uart mb' = mb_uart mb @ [crc_frame ack]"
        using send_response_uart [of "set_holding (copy_into h (unat x) vs) mb1" 6] z assms(8) unfolding e m1 by (simp add: set_holding_def)
      then show ?thesis using F True unfolding w e m1 by (simp add: device_of_def set_holding_def)
    next
      case False
      then have e: "mb' = send_exception mb1 fc 3" using h F by (simp add: SYN_MB_EX_ILLEGAL_VALUE_def)
      show ?thesis using F False send_exception_uart [of mb1 fc 3] z assms(3,5) unfolding e w m1 by (simp add: device_of_def)
    qed
  qed
qed

lemma with_frame_simps [simp]:
  "mb_cfg (with_frame mb f t) = mb_cfg mb" "mb_app (with_frame mb f t) = mb_app mb" "mb_uart (with_frame mb f t) = mb_uart mb"
  "mb_rx_len (with_frame mb f t) = 0" "mb_buf (with_frame mb f t) = f @ drop (length f) (mb_buf mb)" "device_of (with_frame mb f t) = device_of mb"
  by (simp_all add: with_frame_def device_of_def)

lemma request_length: "request_ok r \<Longrightarrow> 6 \<le> length (request_bytes a r) \<and> length (request_bytes a r) + 2 \<le> 256"
  by (cases r) simp_all

text \<open>The dispatcher serves a request as the device does.\<close>

definition serves :: "u8 \<Rightarrow> mb_request \<Rightarrow> 's modbus \<Rightarrow> 's modbus \<Rightarrow> bool" where
  "serves a r mb mb' \<longleftrightarrow> device_of mb' = snd (serve r (device_of mb)) \<and> mb_rx_len mb' = 0
     \<and> mb_uart mb' = mb_uart mb @ [crc_frame (answer_bytes a r (fst (serve r (device_of mb))))]
     \<and> (\<exists>h. mb_cfg mb' = (mb_cfg mb)\<lparr>holding_regs := Some h\<rparr>)"

lemma serves_read:
  assumes "slave_ready a mb" "request_ok r" "r = Read_Holding x k \<or> r = Read_Input x k"
  shows "serves a r mb (snd (mb_dispatch (with_frame mb (crc_frame (request_bytes a r)) t) (length (request_bytes a r) + 2) False (request_fc r)))"
proof -
  let ?f = "crc_frame (request_bytes a r)"
  let ?m = "with_frame mb ?f t"
  let ?fc = "request_fc r"
  note R = ready_facts [OF assms(1)]
  obtain h i where h: "holding_regs (mb_cfg mb) = Some h" "length h = unat (holding_count (mb_cfg mb))"
    and i: "input_regs (mb_cfg mb) = Some i" "length i = unat (input_count (mb_cfg mb))" using R(6,7) by blast
  have b: "mb_buf ?m = [a, ?fc] @ enc_u16 x @ enc_u16 k @ (enc_u16_le (syn_crc16_modbus (request_bytes a r)) @ drop (length ?f) (mb_buf mb))"
    using assms(3) by (auto simp: crc_frame_def)
  have l: "256 \<le> length (mb_buf ?m)" using R(1,2) assms(2,3) by auto
  have k: "0 < unat k" "unat k \<le> 125" "length (request_bytes a r) = 6" using assms(2,3) by auto
  note A = read_regs_answer [OF b R(4) _ _ k(1,2) l]
  have ex: "\<exists>h'. mb_cfg mb = (mb_cfg mb)\<lparr>holding_regs := Some h'\<rparr>" using h(1) by (intro exI [of _ h]) simp
  from assms(3) show ?thesis
  proof
    assume r: "r = Read_Holding x k"
    have d: "mb_dispatch ?m 8 False ?fc = (True, bump_event (handle_read_regs ?m 8 (Some h) (holding_count (mb_cfg mb))))"
      using h(1) r by (simp add: mb_dispatch_def mb_codes)
    show ?thesis using A [of 8 h "holding_count (mb_cfg mb)"] h R(5) k(3) d r ex
      by (auto simp: serves_def device_of_def dev_read_def)
  next
    assume r: "r = Read_Input x k"
    have d: "mb_dispatch ?m 8 False ?fc = (True, bump_event (handle_read_regs ?m 8 (Some i) (input_count (mb_cfg mb))))"
      using i(1) r by (simp add: mb_dispatch_def mb_codes)
    show ?thesis using A [of 8 i "input_count (mb_cfg mb)"] i R(5) k(3) d r ex
      by (auto simp: serves_def device_of_def dev_read_def)
  qed
qed

lemma serves_write_single:
  assumes "slave_ready a mb" "r = Write_Single x v"
  shows "serves a r mb (snd (mb_dispatch (with_frame mb (crc_frame (request_bytes a r)) t) (length (request_bytes a r) + 2) False (request_fc r)))"
proof -
  let ?f = "crc_frame (request_bytes a r)"
  let ?m = "with_frame mb ?f t"
  note R = ready_facts [OF assms(1)]
  obtain h where h: "holding_regs (mb_cfg mb) = Some h" "length h = unat (holding_count (mb_cfg mb))" using R(6) by blast
  have b: "mb_buf ?m = a # 6 # enc_u16 x @ enc_u16 v @ (enc_u16_le (syn_crc16_modbus (request_bytes a r)) @ drop (length ?f) (mb_buf mb))"
    using assms(2) by (simp add: crc_frame_def mb_codes)
  have rd: "read_u16 (mb_buf ?m) 2 = x" "read_u16 (mb_buf ?m) 4 = v" unfolding b by (simp_all only: read_u16_at2)
  have l: "256 \<le> length (mb_buf ?m)" "mb_buf ?m ! 0 = a" "take 6 (mb_buf ?m) = request_bytes a r"
    using R(1,2) assms(2) by simp (unfold b, use assms(2) in \<open>simp_all add: mb_codes\<close>)
  obtain ok m1 where w: "ask_write ?m x (of_nat (length [v])) = (ok, m1)" by force
  have m1: "mb_cfg m1 = mb_cfg mb" "mb_buf m1 = mb_buf ?m" using ask_write_cfg [of ?m x "of_nat (length [v])"] unfolding w by simp_all
  have c: "x \<ge> holding_count (mb_cfg mb) \<longleftrightarrow> unat x + length [v] > length h" using h(2) by (auto simp: word_le_nat_alt)
  have e: "handle_write_single ?m 8 = (if unat x + length [v] > length h then send_exception ?m 6 SYN_MB_EX_ILLEGAL_ADDR
      else if \<not> ok then send_exception m1 6 SYN_MB_EX_ILLEGAL_VALUE else send_response (set_holding (copy_into h (unat x) [v]) m1) 6)"
    using w m1 h(1) unfolding handle_write_single_def Let_def rd with_frame_simps(1) c by (simp add: mb_codes)
  note A = write_answer_aux [OF l(2) R(4) _ l(1) _ _ _ l(3) w e]
  have "mb_dispatch ?m 8 False 6 = (True, bump_event (handle_write_single ?m 8))" by (simp add: mb_dispatch_def mb_codes)
  then show ?thesis using A [unfolded with_frame_simps, OF R(5) h] assms(2)
    by (auto simp: serves_def device_of_def mb_codes split: sum.split)
qed

lemma device_of_bump: "device_of (bump_event mb) = device_of mb"
  by (simp add: device_of_def)

lemma serves_write_multiple:
  assumes "slave_ready a mb" "request_ok r" "r = Write_Multiple x vs"
  shows "serves a r mb (snd (mb_dispatch (with_frame mb (crc_frame (request_bytes a r)) t) (length (request_bytes a r) + 2) False (request_fc r)))"
proof -
  let ?f = "crc_frame (request_bytes a r)" and ?n = "length vs"
  let ?m = "with_frame mb ?f t" and ?len = "9 + length vs * 2"
  note R = ready_facts [OF assms(1)]
  have n: "0 < ?n" "?n \<le> 123" "length (request_bytes a r) + 2 = ?len" using assms(2,3) by simp_all
  obtain h where h: "holding_regs (mb_cfg mb) = Some h" "length h = unat (holding_count (mb_cfg mb))" using R(6) by blast
  let ?tail = "enc_u16_le (syn_crc16_modbus (request_bytes a r)) @ drop (length ?f) (mb_buf mb)"
  have b: "mb_buf ?m = a # 0x10 # enc_u16 x @ enc_u16 (of_nat ?n) @ ([of_nat (?n * 2)] @ concat (map enc_u16 vs) @ ?tail)"
    using assms(3) by (simp add: crc_frame_def mb_codes)
  have rd: "read_u16 (mb_buf ?m) 2 = x" "read_u16 (mb_buf ?m) 4 = of_nat ?n" unfolding b by (simp_all only: read_u16_at2)
  have b7: "mb_buf ?m = (a # 0x10 # enc_u16 x @ enc_u16 (of_nat ?n) @ [of_nat (?n * 2)]) @ concat (map enc_u16 vs) @ ?tail" unfolding b by simp
  have words: "read_words (mb_buf ?m) 7 ?n = vs"
    using read_words_at [of "a # 0x10 # enc_u16 x @ enc_u16 (of_nat ?n) @ [of_nat (?n * 2)]" vs ?tail] unfolding b7 by simp
  have "unat (of_nat k :: u8) = k" if "k < 256" for k using that by (simp add: unat_of_nat)
  then have u: "unat (of_nat ?n :: u16) = ?n" "unat (of_nat (?n * 2) :: u8) = ?n * 2" using n(2) by (simp_all add: unat_of_nat del: of_nat_mult)
  have six: "mb_buf ?m ! 6 = of_nat (?n * 2)" unfolding b by (simp add: nth_append)
  have l: "256 \<le> length (mb_buf ?m)" "mb_buf ?m ! 0 = a" "take 6 (mb_buf ?m) = take 6 (request_bytes a r)"
    using R(1,2) n(2) assms(3) by simp (unfold b, use assms(3) in \<open>simp_all add: mb_codes\<close>)
  obtain ok m1 where w: "ask_write ?m x (of_nat ?n) = (ok, m1)" by force
  have m1: "mb_cfg m1 = mb_cfg mb" "mb_buf m1 = mb_buf ?m" using ask_write_cfg [of ?m x "of_nat ?n"] unfolding w by simp_all
  have g: "\<not> (of_nat ?n = (0 :: u16) \<or> (of_nat ?n :: u16) > 123 \<or> ?n * 2 \<noteq> ?n * 2 \<or> ?len < 9 + ?n * 2)"
    using n(1,2) u(1) by (auto simp: word_less_nat_alt simp flip: unat_eq_zero)
  have e: "handle_write_multiple ?m ?len = (if unat x + ?n > length h then send_exception ?m 0x10 SYN_MB_EX_ILLEGAL_ADDR
      else if \<not> ok then send_exception m1 0x10 SYN_MB_EX_ILLEGAL_VALUE else send_response (set_holding (copy_into h (unat x) vs) m1) 6)"
  proof -
    have "\<not> ?len < 9" by simp
    then have "handle_write_multiple ?m ?len = (if unat x + ?n > unat (holding_count (mb_cfg mb)) then send_exception ?m 0x10 SYN_MB_EX_ILLEGAL_ADDR
      else if \<not> ok then send_exception m1 0x10 SYN_MB_EX_ILLEGAL_VALUE else send_response (set_holding (store_regs (the (holding_regs (mb_cfg m1))) (unat x) (read_words (mb_buf m1) 7 ?n)) m1) 6)"
      unfolding handle_write_multiple_def Let_def rd u six w prod.case with_frame_simps(1) SYN_MB_FC_WRITE_MULTIPLE_def if_not_P [OF g] by (simp only: if_False)
    then show ?thesis using h words m1 by (simp add: store_regs_eq)
  qed
  note A = write_answer_aux [OF l(2) R(4) _ l(1) _ _ n(1) l(3) w e]
  have d: "mb_dispatch ?m ?len False 0x10 = (True, bump_event (handle_write_multiple ?m ?len))" by (simp add: mb_dispatch_def mb_codes)
  have ans: "answer_bytes a r y = (case y of Inl ex \<Rightarrow> [a, 0x10 OR 0x80, ex] | Inr _ \<Rightarrow> take 6 (request_bytes a r))" for y
    using assms(3) by (cases y) (simp_all only: answer_bytes.simps sum.case request_fc.simps SYN_MB_FC_WRITE_MULTIPLE_def)
  have sv: "serve r dv = dev_write x vs dv" "request_fc r = 0x10" for dv :: "'a device" using assms(3) by (simp_all add: mb_codes)
  show ?thesis unfolding n(3) sv(2) d snd_conv serves_def sv(1) ans device_of_bump
    using A [unfolded with_frame_simps, OF R(5) h] by (auto simp only: bump_event_simps)
qed

lemma slave_serves:
  assumes "slave_ready a mb" "settled mb t u" "request_ok r" "mb' = snd (syn_modbus_poll mb (map (\<lambda>b. (b, t)) (crc_frame (request_bytes a r))) u u)"
  shows "serves a r mb mb' \<and> slave_ready a mb'"
proof -
  note R = ready_facts [OF assms(1)]
  have h: "hd (request_bytes a r) = a" "request_bytes a r ! 1 = request_fc r" by (cases r; simp)+
  have l: "2 \<le> length (request_bytes a r)" "length (request_bytes a r) + 2 \<le> 256" using request_length [OF assms(3), of a] by linarith+
  have "mb' = snd (mb_dispatch (with_frame mb (crc_frame (request_bytes a r)) t) (length (request_bytes a r) + 2) False (request_fc r))"
    unfolding assms(4) poll_dispatches [OF assms(1,2) h(1) l] h(2) by simp
  then have s: "serves a r mb mb'"
    using serves_read [OF assms(1,3)] serves_write_single [OF assms(1)] serves_write_multiple [OF assms(1,3)] by (cases r) auto
  obtain k cl where ok: "mb_ok (mb_buf_size mb) (Some k) cl a mb" using assms(1) by (auto simp: slave_ready_def)
  have ok': "mb_ok (mb_buf_size mb) (Some k) cl a mb'" unfolding assms(4) by (rule poll_ok [OF ok R(2)])
  then have "mb_buf_size mb' = mb_buf_size mb" by (simp add: mb_ok_def)
  then show ?thesis using s ok' R by (auto simp: slave_ready_def serves_def)
qed

subsection \<open>The master\<close>

definition master_ready :: "modbus_master \<Rightarrow> bool" where
  "master_ready m \<longleftrightarrow> length (mm_buf m) = 256 \<and> mm_state m \<noteq> SYN_MB_MASTER_STATE_WAITING_RESPONSE
     \<and> length (mm_read_data m) = SYN_MODBUS_MASTER_MAX_READ_DATA \<and> 0 < mm_timeout_ms m"

fun master_request :: "modbus_master \<Rightarrow> u8 \<Rightarrow> mb_request \<Rightarrow> SYN_Status \<times> modbus_master" where
  "master_request m a (Read_Holding x k) = syn_modbus_master_read_holding m a x k"
| "master_request m a (Read_Input x k) = syn_modbus_master_read_input m a x k"
| "master_request m a (Write_Single x v) = syn_modbus_master_write_single m a x v"
| "master_request m a (Write_Multiple x vs) = syn_modbus_master_write_multiple m a x (of_nat (length vs)) (Some vs)"

definition awaiting :: "modbus_master \<Rightarrow> u8 \<Rightarrow> u8 \<Rightarrow> bool" where
  "awaiting m a fc \<longleftrightarrow> mm_state m = SYN_MB_MASTER_STATE_WAITING_RESPONSE \<and> length (mm_buf m) = 256 \<and> mm_rx_len m = 0 \<and> mm_slave_addr m = a
     \<and> mm_func_code m = fc \<and> mm_request_tick_ms m = 0 \<and> mm_read_count m = 0 \<and> mm_exception_code m = 0
     \<and> length (mm_read_data m) = SYN_MODBUS_MASTER_MAX_READ_DATA \<and> 0 < mm_timeout_ms m"

lemma write_u16_be_eq: "write_u16_be buf i v = copy_into buf i (enc_u16 v)"
  by (simp add: write_u16_be_def pack_u16)

lemma finish_request_frame:
  assumes "mm_buf m = xs @ ys" "length xs + 2 \<le> length (mm_buf m)"
  shows "take (mm_tx_len (finish_request (length xs) m)) (mm_buf (finish_request (length xs) m)) = crc_frame xs
    \<and> length (mm_buf (finish_request (length xs) m)) = length (mm_buf m)"
  using assms append_crc_eq [of "length xs" "mm_buf m"] append_crc_frame [of "length xs" "mm_buf m"] by (simp add: finish_request_def append_crc_def)

lemma header_bytes:
  assumes "length buf = 256"
  shows "write_u16_be (write_u16_be (copy_into buf 0 [a, fc]) 2 x) 4 k = ([a, fc] @ enc_u16 x @ enc_u16 k) @ drop 6 buf"
  using assms unfolding write_u16_be_eq by (simp add: copy_into_def numeral_eq_Suc)

lemma send_request_header:
  assumes "master_ready m" "fc = SYN_MB_FC_READ_HOLDING \<or> fc = SYN_MB_FC_READ_INPUT \<or> fc = SYN_MB_FC_WRITE_SINGLE"
    "send_request m a fc x k vs = (st, m1)"
  shows "st = SYN_OK \<and> awaiting m1 a fc \<and> take (mm_tx_len m1) (mm_buf m1) = crc_frame ([a, fc] @ enc_u16 x @ enc_u16 k)"
proof -
  let ?b = "write_u16_be (copy_into (mm_buf m) 0 [a, fc]) 2 x"
  let ?m1 = "m\<lparr>mm_slave_addr := a, mm_func_code := fc, mm_start_addr := x, mm_count := k, mm_rx_len := 0, mm_read_count := 0, mm_exception_code := 0,
    mm_request_tick_ms := 0, mm_buf := write_u16_be ?b 4 k\<rparr>"
  have M: "length (mm_buf m) = 256" "mm_state m \<noteq> SYN_MB_MASTER_STATE_WAITING_RESPONSE" using assms(1) by (simp_all add: master_ready_def)
  have e: "(st, m1) = (SYN_OK, (finish_request 6 ?m1)\<lparr>mm_state := SYN_MB_MASTER_STATE_WAITING_RESPONSE\<rparr>)"
    using assms(2,3) M(2) by (auto simp: send_request_def Let_def finish_request_def)
  have b: "mm_buf ?m1 = ([a, fc] @ enc_u16 x @ enc_u16 k) @ drop 6 (mm_buf m)" using header_bytes [OF M(1)] by simp
  have "length ([a, fc] @ enc_u16 x @ enc_u16 k) = 6" by simp
  with finish_request_frame [OF b] b M(1)
  have F: "take (mm_tx_len (finish_request 6 ?m1)) (mm_buf (finish_request 6 ?m1)) = crc_frame ([a, fc] @ enc_u16 x @ enc_u16 k)
      \<and> length (mm_buf (finish_request 6 ?m1)) = 256" by simp
  then show ?thesis using e assms(1) by (simp add: awaiting_def finish_request_def master_ready_def)
qed

lemma drop_prefix: "drop (length xs + k) (xs @ ys) = drop k ys"
  by simp

lemma send_request_multiple:
  assumes "master_ready m" "0 < length vs" "length vs \<le> 123" "send_request m a SYN_MB_FC_WRITE_MULTIPLE x (of_nat (length vs)) vs = (st, m1)"
  shows "st = SYN_OK \<and> awaiting m1 a SYN_MB_FC_WRITE_MULTIPLE \<and> take (mm_tx_len m1) (mm_buf m1) = crc_frame (request_bytes a (Write_Multiple x vs))"
proof -
  let ?fc = "SYN_MB_FC_WRITE_MULTIPLE" and ?k = "of_nat (length vs) :: u16"
  let ?hb = "write_u16_be (write_u16_be (copy_into (mm_buf m) 0 [a, ?fc]) 2 x) 4 ?k"
  have u: "unat ?k = length vs" using assms(3) by (simp add: unat_of_nat)
  let ?b = "write_values (copy_into ?hb 6 [of_nat (length vs * 2)]) 7 vs"
  let ?m1 = "m\<lparr>mm_slave_addr := a, mm_func_code := ?fc, mm_start_addr := x, mm_count := ?k, mm_rx_len := 0, mm_read_count := 0, mm_exception_code := 0,
    mm_request_tick_ms := 0, mm_buf := ?b\<rparr>"
  have M: "length (mm_buf m) = 256" "mm_state m \<noteq> SYN_MB_MASTER_STATE_WAITING_RESPONSE" using assms(1) by (simp_all add: master_ready_def)
  have e: "(st, m1) = (SYN_OK, (finish_request (7 + length vs * 2) ?m1)\<lparr>mm_state := SYN_MB_MASTER_STATE_WAITING_RESPONSE\<rparr>)"
    using assms(4) M(2) u by (simp add: send_request_def Let_def finish_request_def mb_codes)
  let ?h = "[a, ?fc] @ enc_u16 x @ enc_u16 ?k" and ?bytes = "of_nat (length vs * 2) :: u8" and ?w = "concat (map enc_u16 vs)"
  have hb: "?hb = ?h @ drop 6 (mm_buf m)" by (rule header_bytes [OF M(1)])
  then have lh: "length ?hb = 256" using M(1) by simp
  have "?b = copy_into (copy_into ?hb 6 [?bytes]) 7 ?w" using assms(3) lh by (simp add: write_values_eq write_words_eq)
  also have "\<dots> = copy_into ?hb 6 ([?bytes] @ ?w)" using copy_into_copy_into [of 6 "[?bytes]" ?w ?hb] lh assms(3) by simp
  also have "\<dots> = request_bytes a (Write_Multiple x vs) @ drop (7 + length ?w) (mm_buf m)"
  proof -
    have "take 6 ?hb = ?h" unfolding hb by simp
    moreover have "drop (6 + length ([?bytes] @ ?w)) ?hb = drop (7 + length ?w) (mm_buf m)"
    proof -
      have h6: "length ?h = 6" by simp
      have "drop (6 + length ([?bytes] @ ?w)) (?h @ drop 6 (mm_buf m)) = drop (length ([?bytes] @ ?w)) (drop 6 (mm_buf m))"
        using drop_prefix [of ?h "length ([?bytes] @ ?w)" "drop 6 (mm_buf m)"] unfolding h6 .
      then show ?thesis unfolding hb by (simp add: add.commute)
    qed
    ultimately show ?thesis by (simp add: copy_into_def del: of_nat_mult)
  qed
  finally have b: "mm_buf ?m1 = request_bytes a (Write_Multiple x vs) @ drop (7 + length ?w) (mm_buf m)" by simp
  have l: "length (request_bytes a (Write_Multiple x vs)) = 7 + length vs * 2" by simp
  have lb: "length (mm_buf ?m1) = 256" using b M(1) assms(3) by simp
  have F: "take (mm_tx_len (finish_request (7 + length vs * 2) ?m1)) (mm_buf (finish_request (7 + length vs * 2) ?m1)) = crc_frame (request_bytes a (Write_Multiple x vs))
      \<and> length (mm_buf (finish_request (7 + length vs * 2) ?m1)) = 256"
    using finish_request_frame [OF b] lb assms(3) unfolding l by simp
  then show ?thesis using e assms(1) by (simp add: awaiting_def finish_request_def master_ready_def)
qed

lemma master_request_frame:
  assumes "master_ready m" "a \<noteq> 0" "request_ok r" "master_request m a r = (st, m1)"
  shows "st = SYN_OK \<and> awaiting m1 a (request_fc r) \<and> take (mm_tx_len m1) (mm_buf m1) = crc_frame (request_bytes a r)"
proof (cases r)
  case (Read_Holding x k)
  then have "send_request m a SYN_MB_FC_READ_HOLDING x k [] = (st, m1)"
    using assms by (auto simp: syn_modbus_master_read_holding_def word_less_nat_alt split: if_splits)
  then show ?thesis using send_request_header [OF assms(1) _] Read_Holding by fastforce
next
  case (Read_Input x k)
  then have "send_request m a SYN_MB_FC_READ_INPUT x k [] = (st, m1)"
    using assms by (auto simp: syn_modbus_master_read_input_def word_less_nat_alt split: if_splits)
  then show ?thesis using send_request_header [OF assms(1) _] Read_Input by fastforce
next
  case (Write_Single x v)
  then have "send_request m a SYN_MB_FC_WRITE_SINGLE x v [] = (st, m1)"
    using assms by (auto simp: syn_modbus_master_write_single_def split: if_splits)
  then show ?thesis using send_request_header [OF assms(1) _] Write_Single by fastforce
next
  case (Write_Multiple x vs)
  then have n: "0 < length vs" "length vs \<le> 123" using assms(3) by simp_all
  then have "unat (of_nat (length vs) :: u16) = length vs" by (simp add: unat_of_nat)
  then have "\<not> ((of_nat (length vs) :: u16) = 0 \<or> (of_nat (length vs) :: u16) > 123)" using n by (auto simp: word_less_nat_alt simp flip: unat_eq_zero)
  then have "send_request m a SYN_MB_FC_WRITE_MULTIPLE x (of_nat (length vs)) vs = (st, m1)"
    using assms(2,4) Write_Multiple by (simp add: syn_modbus_master_write_multiple_def)
  then show ?thesis using send_request_multiple [OF assms(1) n] Write_Multiple by simp
qed

lemma master_feed_frame:
  assumes "mm_state m = SYN_MB_MASTER_STATE_WAITING_RESPONSE" "length (mm_buf m) = 256" "mm_rx_len m + length f \<le> 256"
  shows "fold (\<lambda>b m. syn_modbus_master_feed m b) f m = m\<lparr>mm_buf := copy_into (mm_buf m) (mm_rx_len m) f, mm_rx_len := mm_rx_len m + length f\<rparr>"
  using assms
proof (induction f arbitrary: m)
  case (Cons b f)
  let ?m = "m\<lparr>mm_buf := copy_into (mm_buf m) (mm_rx_len m) [b], mm_rx_len := mm_rx_len m + 1\<rparr>"
  have a: "syn_modbus_master_feed m b = ?m" using Cons.prems by (simp add: syn_modbus_master_feed_def)
  have "fold (\<lambda>b m. syn_modbus_master_feed m b) f ?m = ?m\<lparr>mm_buf := copy_into (mm_buf ?m) (mm_rx_len ?m) f, mm_rx_len := mm_rx_len ?m + length f\<rparr>"
    using Cons.prems by (intro Cons.IH) simp_all
  then show ?case using a copy_into_copy_into [of "mm_rx_len m" "[b]" f "mm_buf m"] Cons.prems by simp
qed simp

definition master_result :: "modbus_master \<Rightarrow> (u8 + u16 list) option" where
  "master_result m =
     (case mm_state m of
        SYN_MB_MASTER_STATE_COMPLETE \<Rightarrow> Some (Inr (take (mm_read_count m) (mm_read_data m)))
      | SYN_MB_MASTER_STATE_ERROR \<Rightarrow> Some (Inl (mm_exception_code m))
      | _ \<Rightarrow> None)"

text \<open>Processing a complete response with a valid checksum from the addressed slave.\<close>

lemma master_process_frame:
  assumes "awaiting m a fc" "3 \<le> length xs" "length xs + 2 \<le> 256" "xs ! 0 = a" "fc OR 0x80 \<noteq> fc"
    and "m' = snd (syn_modbus_master_process (fold (\<lambda>b m. syn_modbus_master_feed m b) (crc_frame xs) m) now)"
  obtains m1 where "mm_buf m1 = xs @ drop (length xs) (mm_buf m1)" "length (mm_buf m1) = 256" "length (mm_read_data m1) = SYN_MODBUS_MASTER_MAX_READ_DATA"
    "mm_read_count m1 = 0" "mm_exception_code m1 = 0" "0 < mm_timeout_ms m1" "mm_state m1 = SYN_MB_MASTER_STATE_WAITING_RESPONSE"
    "m' = (if xs ! 1 = fc OR 0x80 then m1\<lparr>mm_exception_code := xs ! 2, mm_state := SYN_MB_MASTER_STATE_ERROR\<rparr>
           else if xs ! 1 \<noteq> fc then m1\<lparr>mm_state := SYN_MB_MASTER_STATE_ERROR\<rparr> else master_response m1 fc)"
proof -
  note A = assms(1) [unfolded awaiting_def]
  let ?f = "crc_frame xs"
  let ?m = "m\<lparr>mm_buf := ?f @ drop (length xs + 2) (mm_buf m), mm_rx_len := length xs + 2\<rparr>"
  let ?mt = "?m\<lparr>mm_request_tick_ms := now\<rparr>"
  let ?m1 = "?mt\<lparr>mm_response_fc := xs ! 1\<rparr>"
  have fed: "fold (\<lambda>b m. syn_modbus_master_feed m b) ?f m = ?m"
    using master_feed_frame [of m ?f] A assms(3) by (simp add: copy_into_def)
  have nth: "(?f @ ys) ! 0 = a" "(?f @ ys) ! 1 = xs ! 1" "(?f @ ys) ! 2 = xs ! 2" for ys
  proof -
    have "xs \<noteq> []" using assms(2) by auto
    then show "(?f @ ys) ! 0 = a" "(?f @ ys) ! 1 = xs ! 1" "(?f @ ys) ! 2 = xs ! 2" using assms(2,4) by (simp_all add: crc_frame_def nth_append)
  qed
  have buf: "mm_buf ?m1 = xs @ drop (length xs) (mm_buf ?m1)" by (simp add: crc_frame_def)
  have crc: "syn_crc16_modbus (take (length xs) (?f @ ys)) = syn_peek_u16_le (?f @ ys) (length xs)" for ys by (simp only: crc_frame_checks)
  have to: "\<not> now - now \<ge> mm_timeout_ms m" using A by (simp add: word_gt_0)
  have p: "snd (syn_modbus_master_process ?m now) = (if xs ! 1 = fc OR 0x80 then ?m1\<lparr>mm_exception_code := xs ! 2, mm_state := SYN_MB_MASTER_STATE_ERROR\<rparr>
           else if xs ! 1 \<noteq> fc then ?m1\<lparr>mm_state := SYN_MB_MASTER_STATE_ERROR\<rparr> else master_response ?m1 fc)"
    using A to crc nth assms(2) unfolding syn_modbus_master_process_def Let_def by simp
  show ?thesis
    by (rule that [of ?m1, OF buf _ _ _ _ _ _ assms(6) [unfolded fed p]]) (use A assms(3) in simp_all)
qed

lemma request_fc_plain: "request_fc r OR 0x80 \<noteq> request_fc r"
  by (cases r) (simp_all add: mb_codes)

lemma master_takes_answer:
  assumes "awaiting m a (request_fc r)" "request_ok r" "ans = fst (serve r d)"
    and "m' = snd (syn_modbus_master_process (fold (\<lambda>b m. syn_modbus_master_feed m b) (crc_frame (answer_bytes a r ans)) m) now)"
  shows "master_result m' = Some ans \<and> master_ready m'"
proof (cases ans)
  case (Inl e)
  let ?xs = "[a, request_fc r OR 0x80, e]"
  have "m' = snd (syn_modbus_master_process (fold (\<lambda>b m. syn_modbus_master_feed m b) (crc_frame ?xs) m) now)" using assms(4) Inl by simp
  then obtain m1 where "length (mm_buf m1) = 256" "length (mm_read_data m1) = SYN_MODBUS_MASTER_MAX_READ_DATA" "0 < mm_timeout_ms m1"
     "m' = m1\<lparr>mm_exception_code := e, mm_state := SYN_MB_MASTER_STATE_ERROR\<rparr>"
    using master_process_frame [OF assms(1) _ _ _ request_fc_plain, of ?xs m' now] by auto
  then show ?thesis using Inl by (simp add: master_result_def master_ready_def)
next
  case (Inr vs)
  show ?thesis
  proof (cases "(\<exists>x k. r = Read_Holding x k) \<or> (\<exists>x k. r = Read_Input x k)")
    case True
    then obtain x k where rk: "r = Read_Holding x k \<or> r = Read_Input x k" by blast
    let ?xs = "[a, request_fc r, of_nat (length vs * 2)] @ concat (map enc_u16 vs)"
    have lv: "length vs \<le> 125" using assms(2,3) rk Inr by (auto simp: dev_read_def split: if_splits)
    have "m' = snd (syn_modbus_master_process (fold (\<lambda>b m. syn_modbus_master_feed m b) (crc_frame ?xs) m) now)" using assms(4) Inr rk by auto
    then obtain m1 where b: "mm_buf m1 = ?xs @ drop (length ?xs) (mm_buf m1)" "length (mm_buf m1) = 256"
      and l: "length (mm_read_data m1) = SYN_MODBUS_MASTER_MAX_READ_DATA" "0 < mm_timeout_ms m1"
      and m': "m' = master_response m1 (request_fc r)"
      using master_process_frame [OF assms(1) _ _ _ request_fc_plain, of ?xs m' now] lv request_fc_plain [of r, symmetric] by auto
    have fc: "request_fc r = SYN_MB_FC_READ_HOLDING \<or> request_fc r = SYN_MB_FC_READ_INPUT" using rk by auto
    have two: "mm_buf m1 ! 2 = of_nat (length vs * 2)" by (subst b(1)) simp
    have "unat (of_nat j :: u8) = j" if "j < 256" for j using that by (simp add: unat_of_nat)
    then have w: "unat (of_nat (length vs * 2) :: u8) div 2 = length vs" using lv by (simp del: of_nat_mult)
    have "map (\<lambda>i. read_u16_be (mm_buf m1) (3 + i * 2)) [0..<length vs] = vs"
      using read_words_at [of "[a, request_fc r, of_nat (length vs * 2)]" vs "drop (length ?xs) (mm_buf m1)"] b(1)
      by (simp add: read_words_def read_u16_def read_u16_be_def mult.commute numeral_3_eq_3 del: of_nat_mult)
    then have "m' = m1\<lparr>mm_read_data := copy_into (mm_read_data m1) 0 vs, mm_read_count := length vs, mm_state := SYN_MB_MASTER_STATE_COMPLETE\<rparr>"
      using lv unfolding m' master_response_def Let_def two w if_P [OF fc] by simp
    then show ?thesis using Inr l b(2) lv by (simp add: master_result_def master_ready_def copy_into_def SYN_MODBUS_MASTER_MAX_READ_DATA_def)
  next
    case False
    then obtain x y v where rk: "r = Write_Single x v \<or> r = Write_Multiple x y" by (cases r) auto
    let ?xs = "take 6 (request_bytes a r)"
    have xs: "length ?xs = 6" "?xs ! 0 = a" "?xs ! 1 = request_fc r" "3 \<le> length (request_bytes a r)" using rk by auto
    have "vs = []" using assms(3) rk Inr by (auto simp: dev_write_def Let_def split: if_splits prod.splits)
    moreover
    have "m' = snd (syn_modbus_master_process (fold (\<lambda>b m. syn_modbus_master_feed m b) (crc_frame ?xs) m) now)" using assms(4) Inr rk by auto
    then obtain m1 where m1: "length (mm_buf m1) = 256" "length (mm_read_data m1) = SYN_MODBUS_MASTER_MAX_READ_DATA" "0 < mm_timeout_ms m1"
      "mm_read_count m1 = 0" and m': "m' = master_response m1 (request_fc r)"
      using master_process_frame [OF assms(1) _ _ _ request_fc_plain, of ?xs m' now] xs request_fc_plain [of r, symmetric] by auto
    have "m' = m1\<lparr>mm_state := SYN_MB_MASTER_STATE_COMPLETE\<rparr>" unfolding m' using rk by (auto simp: master_response_def mb_codes)
    ultimately show ?thesis using Inr m1 by (simp add: master_result_def master_ready_def)
  qed
qed

subsection \<open>End to end\<close>

text \<open>
  One transaction: the master sends, the slave receives the bytes at tick \<open>t\<close> and is polled at tick \<open>u\<close>, what it puts on the bus is fed to the master, which
  processes it at tick \<open>w\<close>.
\<close>

definition transaction :: "u8 \<Rightarrow> mb_request \<times> u32 \<times> u32 \<times> u32 \<Rightarrow> modbus_master \<times> 's modbus \<Rightarrow> modbus_master \<times> 's modbus" where
  "transaction a = (\<lambda>(r, t, u, w) (m, mb).
     let m1 = snd (master_request m a r);
         mb1 = snd (syn_modbus_poll mb (map (\<lambda>b. (b, t)) (take (mm_tx_len m1) (mm_buf m1))) u u);
         answer = concat (drop (length (mb_uart mb)) (mb_uart mb1));
         m2 = fold (\<lambda>b m. syn_modbus_master_feed m b) answer m1
     in (snd (syn_modbus_master_process m2 w), mb1))"

lemma transaction_serves:
  assumes "master_ready m" "slave_ready a mb" "request_ok r" "settled mb t u" "transaction a (r, t, u, w) (m, mb) = (m', mb')"
  shows "master_result m' = Some (fst (serve r (device_of mb))) \<and> device_of mb' = snd (serve r (device_of mb)) \<and> master_ready m' \<and> slave_ready a mb'
    \<and> silence_gap mb' = silence_gap mb"
proof -
  have a: "a \<noteq> 0" by (rule ready_facts(4) [OF assms(2)])
  obtain st m1 where q: "master_request m a r = (st, m1)" by force
  note M = master_request_frame [OF assms(1) a assms(3) q]
  let ?mb1 = "snd (syn_modbus_poll mb (map (\<lambda>b. (b, t)) (crc_frame (request_bytes a r))) u u)"
  have S: "serves a r mb ?mb1 \<and> slave_ready a ?mb1" by (rule slave_serves [OF assms(2,4,3) refl])
  let ?ans = "fst (serve r (device_of mb))"
  have "concat (drop (length (mb_uart mb)) (mb_uart ?mb1)) = crc_frame (answer_bytes a r ?ans)" using S by (simp add: serves_def)
  then have e: "m' = snd (syn_modbus_master_process (fold (\<lambda>b m. syn_modbus_master_feed m b) (crc_frame (answer_bytes a r ?ans)) m1) w)" "mb' = ?mb1"
    using assms(5) M q by (simp_all add: transaction_def)
  have "silence_gap mb' = silence_gap mb" using S e(2) by (auto simp: serves_def silence_gap_def)
  then show ?thesis using master_takes_answer [OF _ assms(3) refl e(1)] M S e(2) by (simp add: serves_def)
qed

fun serve_all :: "mb_request list \<Rightarrow> 's device \<Rightarrow> (u8 + u16 list) list \<times> 's device" where
  "serve_all [] d = ([], d)"
| "serve_all (r # rs) d = (let (x, d1) = serve r d; (xs, d2) = serve_all rs d1 in (x # xs, d2))"

fun transact_all :: "u8 \<Rightarrow> (mb_request \<times> u32 \<times> u32 \<times> u32) list \<Rightarrow> modbus_master \<times> 's modbus \<Rightarrow> (u8 + u16 list) option list \<times> modbus_master \<times> 's modbus" where
  "transact_all a [] s = ([], s)"
| "transact_all a (q # qs) s = (let s1 = transaction a q s; (xs, s2) = transact_all a qs s1 in (master_result (fst s1) # xs, s2))"

lemma transact_all_serves:
  "master_ready m \<Longrightarrow> slave_ready a mb \<Longrightarrow> list_all (\<lambda>(r, t, u, w). request_ok r \<and> u - t \<ge> silence_gap mb \<and> u - t \<ge> MB_SILENCE_MS) qs \<Longrightarrow>
    transact_all a qs (m, mb) = (res, m', mb') \<Longrightarrow>
    res = map Some (fst (serve_all (map fst qs) (device_of mb))) \<and> device_of mb' = snd (serve_all (map fst qs) (device_of mb))"
proof (induction qs arbitrary: m mb res)
  case (Cons q qs)
  obtain r t u w where q: "q = (r, t, u, w)" by (cases q)
  obtain m1 mb1 where tr: "transaction a q (m, mb) = (m1, mb1)" by force
  obtain res' where rest: "transact_all a qs (m1, mb1) = (res', m', mb')" "res = master_result m1 # res'"
    using Cons.prems(4) tr by (auto simp: Let_def split: prod.splits)
  have ok: "request_ok r" "settled mb t u" using Cons.prems(3) q by (simp_all add: settled_def)
  note T = transaction_serves [OF Cons.prems(1,2) ok tr [unfolded q]]
  have "res' = map Some (fst (serve_all (map fst qs) (device_of mb1))) \<and> device_of mb' = snd (serve_all (map fst qs) (device_of mb1))"
    by (rule Cons.IH [OF _ _ _ rest(1)]) (use T Cons.prems(3) in simp_all)
  then show ?case using T rest(2) q by (simp add: Let_def case_prod_beta)
qed simp

text \<open>
  C8: A master and a slave joined by a serial line behave as an abstract register device: for any sequence of register reads and writes within the limits of the protocol, with the silence
  between frames that it requires, every result the master obtains, data or exception, is the one the device gives, and the slave's registers end as the
  device's.
\<close>

theorem modbus_refines_device:
  assumes "master_ready m" "slave_ready a mb"
    and "list_all (\<lambda>(r, t, u, w). request_ok r \<and> u - t \<ge> silence_gap mb \<and> u - t \<ge> MB_SILENCE_MS) qs"
    and "transact_all a qs (m, mb) = (res, m', mb')"
  shows "res = map Some (fst (serve_all (map fst qs) (device_of mb))) \<and> device_of mb' = snd (serve_all (map fst qs) (device_of mb))"
  by (rule transact_all_serves [OF assms])

lemma master_init_ready: "master_ready (syn_modbus_master_init timeout)"
  by (simp add: master_ready_def syn_modbus_master_init_def word_gt_0)

theorem modbus_refines_device_witness:
  "let cfg = demo_config\<lparr>input_regs := Some [], input_count := 0\<rparr>;
       (res, m, mb) = transact_all 1 [(Write_Single 1 77, 100, 110, 120), (Read_Holding 0 3, 200, 210, 220), (Read_Holding 2 2, 300, 310, 320)]
         (syn_modbus_master_init 500, syn_modbus_init cfg (replicate 256 0) 256 ())
   in res = [Some (Inr []), Some (Inr [10, 77, 30]), Some (Inl 2)] \<and> dv_holding (device_of mb) = [10, 77, 30]"
proof -
  let ?cfg = "demo_config\<lparr>input_regs := Some [], input_count := 0\<rparr>"
  let ?mb = "syn_modbus_init ?cfg (replicate 256 0) 256 ()"
  let ?qs = "[(Write_Single 1 77, 100, 110, 120), (Read_Holding 0 3, 200, 210, 220), (Read_Holding 2 2, 300, 310, 320)] :: (mb_request \<times> u32 \<times> u32 \<times> u32) list"
  obtain res m mb where r: "transact_all 1 ?qs (syn_modbus_master_init 500, ?mb) = (res, m, mb)" by (metis prod_cases3)
  have "mb_ok 256 (Some 3) None 1 ?mb" by (simp add: mb_ok_def syn_modbus_init_def cfg_ok_def demo_config_def)
  then have "slave_ready 1 ?mb" by (auto simp: slave_ready_def syn_modbus_init_def)
  from modbus_refines_device [OF master_init_ready this _ r]
  have D: "res = map Some (fst (serve_all (map fst ?qs) (device_of ?mb))) \<and> device_of mb = snd (serve_all (map fst ?qs) (device_of ?mb))"
    by (simp add: silence_gap_def syn_modbus_init_def demo_config_def MB_SILENCE_MS_def)
  have d: "device_of ?mb = \<lparr>dv_holding = [10, 20, 30], dv_input = [], dv_allow = None, dv_app = ()\<rparr>"
    by (simp add: device_of_def syn_modbus_init_def demo_config_def)
  have e: "res = [Some (Inr []), Some (Inr [10, 77, 30]), Some (Inl 2)] \<and> dv_holding (device_of mb) = [10, 77, 30]"
    using D unfolding d by (simp add: dev_write_def dev_read_def copy_into_def)
  then show ?thesis unfolding Let_def r prod.case .
qed

section \<open>The transaction queue\<close>

definition mq_contents :: "master_queue \<Rightarrow> master_query list" where
  "mq_contents q = map (\<lambda>i. mq_queries q ! ((mq_head q + i) mod SYN_MODBUS_QUEUE_SIZE)) [0..<mq_count q]"

definition mq_wf :: "master_queue \<Rightarrow> bool" where
  "mq_wf q \<longleftrightarrow> length (mq_queries q) = SYN_MODBUS_QUEUE_SIZE \<and> mq_head q < SYN_MODBUS_QUEUE_SIZE \<and> mq_count q \<le> SYN_MODBUS_QUEUE_SIZE
     \<and> mq_tail q = (mq_head q + mq_count q) mod SYN_MODBUS_QUEUE_SIZE"

definition mq_push :: "master_query \<Rightarrow> master_queue \<Rightarrow> bool \<times> master_queue" where
  "mq_push x q = (let (st, q') = syn_modbus_master_queue_push q x in (st = SYN_OK, q'))"

definition mq_take :: "master_queue \<Rightarrow> master_query option \<times> master_queue" where
  "mq_take q = (if mq_count q = 0 then (None, q) else (Some (mq_queries q ! mq_head q), queue_pop q))"

lemma mq_push_contents:
  assumes "mq_wf q" "mq_push x q = (ok, q')"
  shows "mq_wf q' \<and> ok = (mq_count q < SYN_MODBUS_QUEUE_SIZE) \<and> mq_contents q' = mq_contents q @ (if ok then [x] else [])"
proof (cases "mq_count q < SYN_MODBUS_QUEUE_SIZE")
  case True
  let ?n = SYN_MODBUS_QUEUE_SIZE and ?h = "mq_head q" and ?c = "mq_count q"
  have e: "ok" "q' = q\<lparr>mq_queries := (mq_queries q)[mq_tail q := x], mq_tail := (mq_tail q + 1) mod ?n, mq_count := ?c + 1\<rparr>"
    using assms(2) True by (auto simp: mq_push_def syn_modbus_master_queue_push_def)
  have n: "0 < ?n" by (simp add: SYN_MODBUS_QUEUE_SIZE_def)
  have W: "length (mq_queries q) = ?n" "?h < ?n" "mq_tail q = (?h + ?c) mod ?n" using assms(1) by (simp_all add: mq_wf_def)
  have old: "(mq_queries q)[mq_tail q := x] ! ((?h + i) mod ?n) = mq_queries q ! ((?h + i) mod ?n)" if "i < ?c" for i
    using ring_slot_inj [of ?h ?n i ?c] that True W by (intro nth_list_update_neq) auto
  have new: "(mq_queries q)[mq_tail q := x] ! ((?h + ?c) mod ?n) = x" using W n by simp
  have "mq_contents q' = mq_contents q @ [x]" unfolding e(2) mq_contents_def using old new by simp
  moreover have "mq_wf q'" using assms(1) True n unfolding e(2) by (simp add: mq_wf_def mod_simps)
  ultimately show ?thesis using e(1) True by simp
qed (use assms in \<open>auto simp: mq_push_def syn_modbus_master_queue_push_def\<close>)

lemma mq_take_contents:
  assumes "mq_wf q" "mq_take q = (r, q')"
  shows "mq_wf q' \<and> (case mq_contents q of [] \<Rightarrow> r = None \<and> mq_contents q' = [] | y # ys \<Rightarrow> r = Some y \<and> mq_contents q' = ys)"
proof (cases "mq_count q")
  case (Suc c)
  let ?n = SYN_MODBUS_QUEUE_SIZE and ?h = "mq_head q"
  have n: "0 < ?n" by (simp add: SYN_MODBUS_QUEUE_SIZE_def)
  have e: "r = Some (mq_queries q ! ?h)" "q' = queue_pop q" using assms(2) Suc by (auto simp: mq_take_def)
  have W: "?h < ?n" using assms(1) by (simp add: mq_wf_def)
  have "mq_contents q = mq_queries q ! ?h # map (\<lambda>i. mq_queries q ! ((?h + Suc i) mod ?n)) [0..<c]"
    unfolding mq_contents_def Suc using W by (simp add: upt_conv_Cons map_Suc_upt [symmetric] del: upt_Suc)
  moreover have "mq_contents q' = map (\<lambda>i. mq_queries q ! ((?h + Suc i) mod ?n)) [0..<c]"
    unfolding e(2) mq_contents_def queue_pop_def using Suc by (simp add: mod_simps)
  moreover have "mq_wf q'" using assms(1) Suc n unfolding e(2) by (simp add: mq_wf_def queue_pop_def mod_simps)
  ultimately show ?thesis using e(1) by simp
qed (use assms in \<open>auto simp: mq_take_def mq_contents_def\<close>)

interpretation query_fifo: bounded_fifo mq_wf mq_contents "\<lambda>_. SYN_MODBUS_QUEUE_SIZE" mq_push mq_take
proof (unfold_locales, goal_cases)
  case (1 q) then show ?case by (simp add: mq_wf_def mq_contents_def)
next
  case (2 q x ok q') then show ?case using mq_push_contents [OF 2(1,3)] by (simp add: mq_contents_def)
next
  case (3 q x ok q') then show ?case using mq_push_contents [OF 3(1,3)] by (auto simp: mq_contents_def)
next
  case (4 q x ok q') then show ?case using mq_push_contents [OF 4] by simp
next
  case (5 q r q') then show ?case using mq_take_contents [OF 5] by simp
next
  case (6 q r q') then show ?case using mq_take_contents [OF 6] by simp
qed

text \<open>A step reports the result of the oldest query, and then removes it, or leaves the queue's contents alone.\<close>

lemma queue_step_contents:
  assumes "mq_wf q" "syn_modbus_master_queue_step m q now = (call, m', q')"
  shows "mq_wf q' \<and> (case call of
      None \<Rightarrow> mq_contents q' = mq_contents q \<or> (\<exists>y ys. mq_contents q = y # ys \<and> \<not> qy_callback y \<and> mq_contents q' = ys)
    | Some (y, data, st) \<Rightarrow> \<exists>ys. mq_contents q = y # ys \<and> qy_callback y \<and> mq_contents q' = ys)"
proof -
  let ?y = "mq_queries q ! mq_head q"
  have pop: "mq_wf (queue_pop q) \<and> mq_contents q = ?y # mq_contents (queue_pop q)" if "0 < mq_count q"
  proof -
    have t: "mq_take q = (Some ?y, queue_pop q)" using that by (simp add: mq_take_def)
    show ?thesis using mq_take_contents [OF assms(1) t] by (cases "mq_contents q") simp_all
  qed
  have "q' = q \<and> call = None \<or> q' = q\<lparr>mq_retry_count := mq_retry_count q + 1\<rparr> \<and> call = None
      \<or> 0 < mq_count q \<and> q' = queue_pop q \<and> (if qy_callback ?y then \<exists>d st. call = Some (?y, d, st) else call = None)"
    using assms(2) unfolding syn_modbus_master_queue_step_def Let_def case_prod_beta by (auto split: if_splits)
  then show ?thesis
  proof (elim disjE conjE)
    assume "0 < mq_count q" "q' = queue_pop q" "if qy_callback ?y then \<exists>d st. call = Some (?y, d, st) else call = None"
    then show ?thesis using pop by (auto split: if_splits)
  qed (use assms(1) in \<open>auto simp: mq_wf_def mq_contents_def\<close>)
qed

section \<open>Departures of the master\<close>

text \<open>
  Requests for coils and discrete inputs go to \<open>send_request\<close>, which has no case for them: the master reports success and waits for an answer, but
  has no frame to transmit.
\<close>

theorem master_read_coils_sends_nothing:
  assumes "a \<noteq> 0" "k \<noteq> 0" "k \<le> 2000"
  shows "let (st, m) = syn_modbus_master_read_coils (syn_modbus_master_init timeout) a x k
         in st = SYN_OK \<and> mm_state m = SYN_MB_MASTER_STATE_WAITING_RESPONSE \<and> mm_tx_len m = 0"
  using assms by (simp add: syn_modbus_master_read_coils_def send_request_def syn_modbus_master_init_def mb_codes not_less)

text \<open>
  The requests that do not go through \<open>send_request\<close> keep the start tick of the previous transaction: if that is older than the timeout, the request times out at once,
  whatever was received.
\<close>

theorem master_mask_write_times_out:
  assumes "mm_request_tick_ms m \<noteq> 0" "now - mm_request_tick_ms m \<ge> mm_timeout_ms m" "syn_modbus_master_mask_write_register m a x y z = (SYN_OK, m1)"
  shows "fst (syn_modbus_master_process (fold (\<lambda>b m. syn_modbus_master_feed m b) answer m1) now) = SYN_MB_MASTER_STATE_TIMEOUT"
proof -
  have e: "mm_request_tick_ms m1 = mm_request_tick_ms m" "mm_timeout_ms m1 = mm_timeout_ms m" "mm_state m1 = SYN_MB_MASTER_STATE_WAITING_RESPONSE"
    using assms(3) by (auto simp: syn_modbus_master_mask_write_register_def begin_request_def finish_request_def Let_def split: if_splits)
  have "mm_request_tick_ms (fold (\<lambda>b m. syn_modbus_master_feed m b) answer n) = mm_request_tick_ms n
      \<and> mm_timeout_ms (fold (\<lambda>b m. syn_modbus_master_feed m b) answer n) = mm_timeout_ms n
      \<and> mm_state (fold (\<lambda>b m. syn_modbus_master_feed m b) answer n) = mm_state n" for n
    by (induction answer arbitrary: n) (simp_all add: syn_modbus_master_feed_def)
  then show ?thesis using e assms(1,2) by (simp add: syn_modbus_master_process_def)
qed

text \<open>A query the queue cannot dispatch stays at its head for ever.\<close>

theorem queue_blocked_by_unsupported_query:
  assumes "mm_state m = SYN_MB_MASTER_STATE_IDLE" "0 < mq_count q"
    and "qy_func_code (mq_queries q ! mq_head q) \<in> {SYN_MB_FC_WRITE_MULTIPLE, SYN_MB_FC_WRITE_SINGLE_COIL, SYN_MB_FC_MASK_WRITE_REGISTER}"
  shows "syn_modbus_master_queue_step m q now = (None, m, q)"
  using assms by (auto simp: syn_modbus_master_queue_step_def syn_modbus_master_process_def queue_dispatch_def mb_codes Let_def)

end
