(* ===== verification/Syn_Modbus_Tcp.thy ===== *)
theory Syn_Modbus_Tcp
  imports Syn_Modbus_Master
begin

text \<open>
  Modbus TCP framing (\<^verbatim>\<open>proto/syn_modbus_tcp.c\<close>): the MBAP header, the client's request and the slave, which runs a request through the RTU dispatcher.
  \<open>now\<close> is the tick the dispatcher reads.
\<close>

definition SYN_MBAP_HEADER_LEN :: nat where "SYN_MBAP_HEADER_LEN = 7"

record mbap_header =
  transaction_id :: u16
  protocol_id :: u16
  mbap_length :: u16
  unit_id :: u8

definition syn_mbap_encode_header :: "mbap_header \<Rightarrow> u8 list \<Rightarrow> u8 list" where
  "syn_mbap_encode_header hdr buf0 =
     (let (buf, pos) = syn_pack_u16 buf0 0 (transaction_id hdr);
          (buf, pos) = syn_pack_u16 buf pos (protocol_id hdr);
          (buf, pos) = syn_pack_u16 buf pos (mbap_length hdr);
          (buf, pos) = syn_pack_u8 buf pos (unit_id hdr)
      in buf)"

definition syn_mbap_decode_header :: "u8 list \<Rightarrow> bool \<times> mbap_header" where
  "syn_mbap_decode_header buf =
     (let (tid, pos) = syn_unpack_u16 buf 0;
          (pid, pos) = syn_unpack_u16 buf pos;
          (len, pos) = syn_unpack_u16 buf pos;
          (uid, pos) = syn_unpack_u8 buf pos
      in (pid = 0x0000, \<lparr>transaction_id = tid, protocol_id = pid, mbap_length = len, unit_id = uid\<rparr>))"

fun info_len :: "u8 list \<Rightarrow> nat \<Rightarrow> nat \<Rightarrow> nat \<Rightarrow> nat" where
  "info_len buf 0 p len = len"
| "info_len buf (Suc n) p len = info_len buf n (p + 2 + unat (buf ! (p + 1))) (len + 2 + unat (buf ! (p + 1)))"

definition get_response_pdu_len :: "u8 list \<Rightarrow> nat" where
  "get_response_pdu_len buf =
     (let fc = buf ! 1
      in if fc AND 0x80 \<noteq> 0 then 2
         else if fc \<in> {SYN_MB_FC_READ_COILS, SYN_MB_FC_READ_DISCRETE_INPUTS, SYN_MB_FC_READ_HOLDING, SYN_MB_FC_READ_INPUT, SYN_MB_FC_REPORT_SERVER_ID,
                 SYN_MB_FC_READ_FILE_RECORD, SYN_MB_FC_WRITE_FILE_RECORD} then 2 + unat (buf ! 2)
         else if fc \<in> {SYN_MB_FC_WRITE_SINGLE_COIL, SYN_MB_FC_WRITE_SINGLE, SYN_MB_FC_WRITE_MULTIPLE_COILS, SYN_MB_FC_WRITE_MULTIPLE} then 5
         else if fc = SYN_MB_FC_READ_EXCEPTION_STATUS then 2
         else if fc = SYN_MB_FC_MASK_WRITE_REGISTER then 7
         else if fc = SYN_MB_FC_READ_FIFO_QUEUE then (3 + unat (push_bit 8 (ucast (buf ! 2)) OR ucast (buf ! 3) :: u16)) mod 65536
         else if fc = SYN_MB_FC_READ_DEVICE_INFO then info_len buf (unat (buf ! 7)) 8 7 mod 65536
         else 2 + unat (buf ! 2))"

definition syn_modbus_tcp_process_slave ::
  "'s modbus \<Rightarrow> u32 \<Rightarrow> u8 list \<Rightarrow> u8 list \<Rightarrow> nat \<Rightarrow> (bool \<times> u8 list \<times> nat) \<times> 's modbus" where
  "syn_modbus_tcp_process_slave mb now req_adu resp_adu resp_max =
     (if length req_adu < SYN_MBAP_HEADER_LEN + 1 then ((False, resp_adu, 0), mb)
      else
        let (ok, req_hdr) = syn_mbap_decode_header req_adu
        in if \<not> ok then ((False, resp_adu, 0), mb)
           else
             let expected_payload_len = unat (mbap_length req_hdr)
             in if expected_payload_len < 2 \<or> length req_adu < SYN_MBAP_HEADER_LEN - 1 + expected_payload_len then ((False, resp_adu, 0), mb)
                else
                  let pdu_len = expected_payload_len - 1
                  in if pdu_len + 3 > mb_buf_size mb then ((False, resp_adu, 0), mb)
                     else if unit_id req_hdr \<noteq> slave_addr (mb_cfg mb) \<and> unit_id req_hdr \<noteq> 0 \<and> unit_id req_hdr \<noteq> 0xFF then ((False, resp_adu, 0), mb)
                     else
                       let buf1 = copy_into (copy_into (mb_buf mb) 0 [unit_id req_hdr]) 1 (take pdu_len (drop SYN_MBAP_HEADER_LEN req_adu));
                           crc = syn_crc16_modbus (take (1 + pdu_len) buf1);
                           buf2 = copy_into buf1 (1 + pdu_len) [ucast (crc AND 0xFF), ucast (drop_bit 8 crc AND 0xFF)];
                           (has_response, mb1) = syn_modbus_process (mb\<lparr>mb_buf := buf2, mb_rx_len := 3 + pdu_len\<rparr>) now
                       in if \<not> has_response \<or> mb_buf mb1 ! 0 = 0 then ((False, resp_adu, 0), mb1)
                          else
                            let resp_pdu_len = get_response_pdu_len (mb_buf mb1);
                                total_resp_adu_len = SYN_MBAP_HEADER_LEN + resp_pdu_len
                            in if total_resp_adu_len > resp_max then ((False, resp_adu, 0), mb1)
                               else
                                 let resp_hdr = \<lparr>transaction_id = transaction_id req_hdr, protocol_id = 0x0000, mbap_length = of_nat (1 + resp_pdu_len),
                                                 unit_id = unit_id req_hdr\<rparr>;
                                     resp1 = copy_into (syn_mbap_encode_header resp_hdr resp_adu) SYN_MBAP_HEADER_LEN (take resp_pdu_len (drop 1 (mb_buf mb1)))
                                 in ((True, resp1, total_resp_adu_len), mb1))"

definition syn_modbus_tcp_build_client_adu ::
  "u16 \<Rightarrow> u8 \<Rightarrow> u8 list \<Rightarrow> u8 list \<Rightarrow> nat \<Rightarrow> (SYN_Status \<times> u8 list \<times> nat)" where
  "syn_modbus_tcp_build_client_adu tid uid pdu req_adu req_max =
     (let pdu_len = length pdu
      in if pdu_len = 0 \<or> pdu_len > 253 then (SYN_INVALID_PARAM, req_adu, 0)
         else
           let total_len = SYN_MBAP_HEADER_LEN + pdu_len
           in if total_len > req_max then (SYN_INVALID_PARAM, req_adu, 0)
              else
                let hdr = \<lparr>transaction_id = tid, protocol_id = 0x0000, mbap_length = of_nat (1 + pdu_len), unit_id = uid\<rparr>
                in (SYN_OK, copy_into (syn_mbap_encode_header hdr req_adu) SYN_MBAP_HEADER_LEN pdu, total_len))"

subsection \<open>The header\<close>

definition mbap_bytes :: "mbap_header \<Rightarrow> u8 list" where
  "mbap_bytes h = enc_u16 (transaction_id h) @ enc_u16 (protocol_id h) @ enc_u16 (mbap_length h) @ [unit_id h]"

lemma length_mbap_bytes [simp]: "length (mbap_bytes h) = 7"
  by (simp add: mbap_bytes_def)

lemma encode_header_eq: "7 \<le> length buf \<Longrightarrow> syn_mbap_encode_header h buf = mbap_bytes h @ drop 7 buf"
  by (simp add: syn_mbap_encode_header_def pack_u16 syn_pack_u8_def copy_into_def mbap_bytes_def numeral_eq_Suc)

lemma decode_header_eq: "syn_mbap_decode_header (mbap_bytes h @ ys) = (protocol_id h = 0, h)"
proof -
  have "fst (syn_unpack_u16 (mbap_bytes h @ ys) 0) = transaction_id h" "fst (syn_unpack_u16 (mbap_bytes h @ ys) 2) = protocol_id h"
      "fst (syn_unpack_u16 (mbap_bytes h @ ys) 4) = mbap_length h" "(mbap_bytes h @ ys) ! 6 = unit_id h"
    using f16.get_encode [of "[]" "transaction_id h"] f16.get_encode [of "enc_u16 (transaction_id h)" "protocol_id h"]
      f16.get_encode [of "enc_u16 (transaction_id h) @ enc_u16 (protocol_id h)" "mbap_length h"]
    by (simp_all add: mbap_bytes_def numeral_eq_Suc nth_append)
  moreover have "snd (syn_unpack_u16 (mbap_bytes h @ ys) p) = p + 2" for p by (simp add: syn_unpack_u16_def)
  ultimately have "syn_unpack_u16 (mbap_bytes h @ ys) 0 = (transaction_id h, 2)" "syn_unpack_u16 (mbap_bytes h @ ys) 2 = (protocol_id h, 4)"
      "syn_unpack_u16 (mbap_bytes h @ ys) 4 = (mbap_length h, 6)" "syn_unpack_u8 (mbap_bytes h @ ys) 6 = (unit_id h, 7)"
    by (simp_all add: prod_eq_iff syn_unpack_u8_def)
  then show ?thesis by (simp add: syn_mbap_decode_header_def)
qed

subsection \<open>The slave over TCP\<close>

text \<open>After a response the buffer still starts with the frame sent.\<close>

definition holds_sent :: "'s modbus \<Rightarrow> bool" where
  "holds_sent mb \<longleftrightarrow> mb_uart mb \<noteq> [] \<and> take (length (last (mb_uart mb))) (mb_buf mb) = last (mb_uart mb)"

lemma send_response_holds: "mb_buf mb ! 0 \<noteq> 0 \<Longrightarrow> holds_sent (send_response mb l)"
  by (simp add: holds_sent_def send_response_def Let_def min_def)

lemma send_exception_holds:
  assumes "mb_buf mb ! 0 \<noteq> 0" "3 \<le> length (mb_buf mb)" "slave_addr (mb_cfg mb) \<noteq> 0"
  shows "holds_sent (send_exception mb f e)"
proof -
  let ?m = "set_byte 2 e (set_byte 1 (f OR 0x80) (set_byte 0 (slave_addr (mb_cfg mb)) mb))"
  obtain x y z r where b: "mb_buf mb = x # y # z # r" using assms(2) by (auto simp: Suc_le_length_iff numeral_3_eq_3)
  have "mb_buf ?m ! 0 \<noteq> 0" using assms(3) unfolding set_byte_simps b copy_into_def by simp
  from send_response_holds [OF this, of 3] show ?thesis using assms(1) by (simp add: send_exception_def Let_def holds_sent_def)
qed

lemma dispatch_holds:
  assumes "mb_buf mb ! 0 = a" "a \<noteq> 0" "slave_addr (mb_cfg mb) = a" "256 \<le> length (mb_buf mb)"
    and "fc = 3 \<or> fc = 4 \<or> fc = 6 \<or> fc = 16"
  shows "fst (mb_dispatch mb len False fc) \<and> holds_sent (snd (mb_dispatch mb len False fc))"
proof -
  have ex: "holds_sent (send_exception m f e)" if "mb_buf m = mb_buf mb" "mb_cfg m = mb_cfg mb" for m f e
    using that assms by (intro send_exception_holds) simp_all
  have sr: "holds_sent (send_response m l)" if "mb_buf m ! 0 = mb_buf mb ! 0" for m l using that assms(1,2) by (intro send_response_holds) simp
  have ne: "mb_buf mb \<noteq> []" using assms(4) by auto
  have first: "copy_into (mb_buf mb) i xs ! 0 = mb_buf mb ! 0" if "0 < i" for i xs using copy_into_first [OF that ne] .
  have h1: "holds_sent (handle_read_regs mb len regs c)" for regs c
  proof -
    have "write_words (copy_into (mb_buf mb) 2 [b]) 3 (fetch_regs rs x k) ! 0 = mb_buf mb ! 0" if "k \<le> 125" for b rs x k
    proof -
      let ?b = "copy_into (mb_buf mb) 2 [b]"
      have l: "length ?b = length (mb_buf mb)" using assms(4) by simp
      have "write_words ?b 3 (fetch_regs rs x k) = copy_into ?b 3 (concat (map enc_u16 (fetch_regs rs x k)))" using that l assms(4) by (intro write_words_eq) simp
      moreover have "?b \<noteq> []" using l ne by auto
      ultimately show ?thesis using copy_into_first [of 3 ?b] first by simp
    qed
    then show ?thesis unfolding handle_read_regs_def Let_def by (simp add: ex sr)
  qed
  have h2: "holds_sent (handle_write_single mb len)" "holds_sent (handle_write_multiple mb len)"
    unfolding handle_write_single_def handle_write_multiple_def Let_def case_prod_beta by (simp_all add: ex sr set_holding_def)
  have b: "holds_sent (bump_event m) = holds_sent m" for m :: "'a modbus" by (simp add: holds_sent_def bump_event_def)
  show ?thesis using assms(5) h1 h2 by (auto simp: mb_dispatch_def mb_codes b)
qed

lemma answer_pdu_len:
  assumes "request_ok r" "ans = fst (serve r d)" "buf = answer_bytes a r ans @ rest"
  shows "get_response_pdu_len buf = length (answer_bytes a r ans) - 1"
proof (cases ans)
  case (Inl e)
  have "(request_fc r OR 0x80) AND 0x80 \<noteq> 0" by (cases r) (simp_all add: mb_codes)
  then show ?thesis using Inl assms(3) by (simp add: get_response_pdu_len_def)
next
  case (Inr vs)
  have u: "unat (of_nat k :: u8) = k" if "k < 256" for k using that by (simp add: unat_of_nat)
  show ?thesis
  proof (cases r)
    case (Read_Holding x k)
    then have "length vs * 2 < 256" using assms(1,2) Inr by (auto simp: dev_read_def split: if_splits)
    then show ?thesis using u [of "length vs * 2"] assms(3) Inr Read_Holding by (simp add: get_response_pdu_len_def mb_codes del: of_nat_mult)
  next
    case (Read_Input x k)
    then have "length vs * 2 < 256" using assms(1,2) Inr by (auto simp: dev_read_def split: if_splits)
    then show ?thesis using u [of "length vs * 2"] assms(3) Inr Read_Input by (simp add: get_response_pdu_len_def mb_codes del: of_nat_mult)
  next
    case (Write_Single x v)
    then show ?thesis using assms(3) Inr by (simp add: get_response_pdu_len_def mb_codes)
  next
    case (Write_Multiple x vs)
    then show ?thesis using assms(3) Inr by (simp add: get_response_pdu_len_def mb_codes)
  qed
qed

lemma process_dispatches:
  assumes "slave_ready a mb" "mb_last_byte_tick mb = 0 \<or> now - mb_last_byte_tick mb \<ge> silence_gap mb" "hd xs = a" "2 \<le> length xs" "length xs + 2 \<le> 256"
  shows "syn_modbus_process (mb\<lparr>mb_buf := copy_into (mb_buf mb) 0 (crc_frame xs), mb_rx_len := length xs + 2\<rparr>) now
    = mb_dispatch (with_frame mb (crc_frame xs) (mb_last_byte_tick mb)) (length xs + 2) False (xs ! 1)"
proof -
  let ?f = "crc_frame xs"
  note R = ready_facts [OF assms(1)]
  have ne: "xs \<noteq> []" using assms(4) by auto
  have z: "(?f @ ys) ! 0 = a" "(?f @ ys) ! 1 = xs ! 1" for ys using ne assms(3,4) by (simp_all add: crc_frame_def nth_append hd_conv_nth)
  have c: "check_crc (?f @ ys) (length xs + 2)" for ys by (rule check_crc_frame)
  show ?thesis using R(3-5) assms(2,4) c z unfolding syn_modbus_process_def Let_def
    by (auto simp: MB_MIN_FRAME_LEN_def with_frame_def copy_into_def silence_gap_def)
qed

lemma serves_dispatch:
  assumes "slave_ready a mb" "request_ok r"
  shows "serves a r mb (snd (mb_dispatch (with_frame mb (crc_frame (request_bytes a r)) t) (length (request_bytes a r) + 2) False (request_fc r)))"
  using serves_read [OF assms] serves_write_single [OF assms(1)] serves_write_multiple [OF assms] by (cases r) auto

lemma adu_parts:
  assumes "syn_modbus_tcp_build_client_adu tid a pdu adu0 (length adu0) = (SYN_OK, adu, n)"
  shows "take n adu = mbap_bytes \<lparr>transaction_id = tid, protocol_id = 0, mbap_length = of_nat (1 + length pdu), unit_id = a\<rparr> @ pdu
    \<and> length pdu \<le> 253 \<and> 0 < length pdu"
proof -
  let ?h = "\<lparr>transaction_id = tid, protocol_id = 0, mbap_length = of_nat (1 + length pdu), unit_id = a\<rparr>"
  have l: "0 < length pdu" "length pdu \<le> 253" "n = 7 + length pdu" "7 + length pdu \<le> length adu0"
    and e: "adu = copy_into (syn_mbap_encode_header ?h adu0) 7 pdu"
    using assms by (auto simp: syn_modbus_tcp_build_client_adu_def SYN_MBAP_HEADER_LEN_def Let_def split: if_splits)
  have "adu = mbap_bytes ?h @ pdu @ drop (length pdu) (drop 7 adu0)"
    using l unfolding e by (simp add: encode_header_eq copy_into_def)
  then show ?thesis using l by simp
qed

lemma answer_shape:
  assumes "request_ok r" "ans = fst (serve r d)"
  shows "3 \<le> length (answer_bytes a r ans) \<and> length (answer_bytes a r ans) \<le> 253 \<and> hd (answer_bytes a r ans) = a"
proof (cases ans)
  case (Inr vs)
  have v: "length vs \<le> 125" if "r = Read_Holding x k \<or> r = Read_Input x k" for x k
    using that assms Inr by (auto simp: dev_read_def split: if_splits)
  show ?thesis unfolding Inr by (cases r) (use v in auto)
qed simp

lemma tcp_answer_left:
  assumes "slave_ready a mb" "request_ok r" "ans = answer_bytes a r (fst (serve r (device_of mb)))"
    and "(b, m1) = mb_dispatch (with_frame mb (crc_frame (request_bytes a r)) (mb_last_byte_tick mb)) (length (request_bytes a r) + 2) False (request_fc r)"
  shows "b" "serves a r mb m1" "get_response_pdu_len (mb_buf m1) = length ans - 1" "take (length ans - 1) (drop 1 (mb_buf m1)) = tl ans" "mb_buf m1 ! 0 \<noteq> 0"
    "3 \<le> length ans" "length ans \<le> 253"
proof -
  let ?m = "with_frame mb (crc_frame (request_bytes a r)) (mb_last_byte_tick mb)" and ?B = "mb_buf m1" and ?N = "length ans"
  note R = ready_facts [OF assms(1)]
  have d: "mb_dispatch ?m (length (request_bytes a r) + 2) False (request_fc r) = (b, m1)" using assms(4) by simp
  show S: "serves a r mb m1" using serves_dispatch [OF assms(1,2), of "mb_last_byte_tick mb"] unfolding d by simp
  have "mb_buf ?m ! 0 = a" by (cases r) (simp_all add: crc_frame_def)
  then have "fst (b, m1) \<and> holds_sent (snd (b, m1))"
    unfolding d [symmetric] using R request_length [OF assms(2), of a] by (intro dispatch_holds) (auto, cases r, auto simp: mb_codes)
  then have H: "b" "holds_sent m1" by simp_all
  show "b" by (rule H)
  show A: "3 \<le> ?N" "?N \<le> 253" using answer_shape [of r _ "device_of mb" a, OF assms(2) refl] assms(3) by simp_all
  have hd: "hd ans = a" using answer_shape [of r _ "device_of mb" a, OF assms(2) refl] assms(3) by simp
  have body: "take (length (crc_frame ans)) ?B = crc_frame ans" using S H assms(3) by (simp add: serves_def holds_sent_def)
  have "take ?N ?B = take ?N (take (length (crc_frame ans)) ?B)" by simp
  also have "\<dots> = ans" unfolding body by simp
  finally have B: "?B = ans @ drop ?N ?B" by (metis append_take_drop_id)
  show "get_response_pdu_len ?B = ?N - 1" using answer_pdu_len [of r _ "device_of mb" ?B a "drop ?N ?B", OF assms(2) refl] B assms(3) by simp
  show "take (?N - 1) (drop 1 ?B) = tl ans" using A(1) by (subst B) (cases ans, simp_all)
  show "?B ! 0 \<noteq> 0" using A(1) hd R(4) by (subst B) (cases ans, simp_all)
qed

lemma tcp_request_frame:
  assumes "slave_ready a mb" "request_ok r" "mb_last_byte_tick mb = 0 \<or> now - mb_last_byte_tick mb \<ge> silence_gap mb"
    and "req = request_bytes a r" "b1 = copy_into (copy_into (mb_buf mb) 0 [a]) 1 (tl req)" "c = syn_crc16_modbus req"
    and "b2 = copy_into b1 (length req) [ucast (c AND 0xFF), ucast (drop_bit 8 c AND 0xFF)]"
  shows "take (length req) b1 = req"
    and "syn_modbus_process (mb\<lparr>mb_buf := b2, mb_rx_len := length req + 2\<rparr>) now
      = mb_dispatch (with_frame mb (crc_frame req) (mb_last_byte_tick mb)) (length req + 2) False (request_fc r)"
proof -
  note R = ready_facts [OF assms(1)]
  have L: "2 \<le> length req" "length req + 2 \<le> 256" using request_length [OF assms(2), of a] assms(4) by simp_all
  have req: "req = a # tl req" "req ! 1 = request_fc r" using assms(4) by (cases r; simp)+
  have b1: "b1 = copy_into (mb_buf mb) 0 req"
    using copy_into_copy_into [of 0 "[a]" "tl req" "mb_buf mb"] req(1) R(1,2) L assms(5) by simp
  show "take (length req) b1 = req" unfolding b1 by (simp add: copy_into_def)
  have b2: "b2 = copy_into (mb_buf mb) 0 (crc_frame req)"
    using copy_into_copy_into [of 0 req "enc_u16_le c" "mb_buf mb"] assms(6,7) R(1,2) L by (simp add: b1 crc_frame_def enc_u16_le_def ucast_and_255)
  have h: "hd req = a" by (subst req(1)) simp
  show "syn_modbus_process (mb\<lparr>mb_buf := b2, mb_rx_len := length req + 2\<rparr>) now
      = mb_dispatch (with_frame mb (crc_frame req) (mb_last_byte_tick mb)) (length req + 2) False (request_fc r)"
    using process_dispatches [OF assms(1,3) h L] unfolding req(2) b2 .
qed



subsection \<open>Departures over TCP\<close>

text \<open>Unit identifier 255 passes the check of the unit, but the dispatcher ignores it: such a request is never answered.\<close>

lemma process_other_address:
  "mb_buf mb ! 0 \<noteq> 0 \<Longrightarrow> mb_buf mb ! 0 \<noteq> slave_addr (mb_cfg mb) \<Longrightarrow> \<not> fst (syn_modbus_process mb now)"
  by (simp add: syn_modbus_process_def Let_def)

theorem tcp_unit_255_unanswered:
  assumes "unit_id (snd (syn_mbap_decode_header req_adu)) = 0xFF" "slave_addr (mb_cfg mb) \<noteq> 0xFF" "length (mb_buf mb) = mb_buf_size mb"
  shows "\<not> fst (fst (syn_modbus_tcp_process_slave mb now req_adu resp_adu resp_max))"
proof -
  have z: "copy_into (copy_into (copy_into (mb_buf mb) 0 [0xFF]) 1 xs) k ys ! 0 = 0xFF" if "0 < k" for xs ys k
  proof -
    have "copy_into (copy_into (mb_buf mb) 0 [0xFF]) 1 xs = 0xFF # (xs @ drop (Suc (length xs)) (mb_buf mb))" by (simp add: copy_into_def)
    then show ?thesis using that by (cases k) (simp_all add: copy_into_def)
  qed
  have p: "\<not> fst (syn_modbus_process (mb\<lparr>mb_buf := copy_into (copy_into (copy_into (mb_buf mb) 0 [0xFF]) 1 xs) k ys, mb_rx_len := n\<rparr>) now)" if "0 < k" for xs ys k n
    by (rule process_other_address) (use z [OF that] assms(2) in simp_all)
  show ?thesis unfolding syn_modbus_tcp_process_slave_def Let_def case_prod_beta assms(1) using p by simp
qed

text \<open>
  The answers to function codes 8 and 11 have five bytes, but their length is taken from the third byte of the buffer, which is 0: the client receives two.
\<close>

theorem tcp_truncates_comm_event_counter:
  "get_response_pdu_len ([a, SYN_MB_FC_GET_COMM_EVENT_CNT, 0, 0, hi, lo] @ rest) = 2"
  "get_response_pdu_len ([a, SYN_MB_FC_DIAGNOSTICS, 0, 0, hi, lo] @ rest) = 2"
  by (simp_all add: get_response_pdu_len_def mb_codes)

text \<open>A function code that is not implemented is answered on the serial line, but reported as unanswered: over TCP the client receives nothing.\<close>

theorem unknown_function_reported_unanswered:
  "fst (mb_dispatch mb len False 0x63) = False \<and> snd (mb_dispatch mb len False 0x63) = send_exception mb 0x63 SYN_MB_EX_ILLEGAL_FUNC"
  by (simp add: mb_dispatch_def mb_codes)

end
