(* ===== verification/Syn_Pool.thy ===== *)
theory Syn_Pool
  imports Syn_Slab
begin

text \<open>
  The fixed-size block pool of \<^verbatim>\<open>util/syn_pool.h\<close>, another block allocator. As for the slab allocator, addresses are natural numbers, a
  pointer and a \<^verbatim>\<open>size_t\<close> take 32 bits, and \<open>po_mem\<close> is the pointer stored at an address. \<open>None\<close> as the result of an operation is a
  failed assertion (or, in the initialisation, a division by zero).
\<close>

definition SYN_POOL_ALIGN4 :: "u32 \<Rightarrow> u32" where
  "SYN_POOL_ALIGN4 x = (x + 3) AND NOT 3"

record SYN_Pool =
  po_freelist :: ptr
  po_buf :: nat
  po_block_size :: u32
  po_block_count :: u32
  po_used :: u32
  po_high_water :: u32
  po_mem :: "nat \<Rightarrow> ptr"

text \<open>The loop that threads the free list through the blocks, from the last one down.\<close>

fun pool_thread :: "nat \<Rightarrow> nat \<Rightarrow> nat \<Rightarrow> ptr \<Rightarrow> (nat \<Rightarrow> ptr) \<Rightarrow> ptr \<times> (nat \<Rightarrow> ptr)" where
  "pool_thread buf block_size 0 freelist mem = (freelist, mem)"
| "pool_thread buf block_size (Suc i) freelist mem =
     (let blk = buf + i * block_size in pool_thread buf block_size i (Some blk) (mem(blk := freelist)))"

definition syn_pool_init :: "SYN_Pool \<Rightarrow> nat \<Rightarrow> u32 \<Rightarrow> u32 \<Rightarrow> SYN_Pool option" where
  "syn_pool_init pool buf buf_size block_size =
     (let block_size = (if block_size < 4 then 4 else block_size); block_size = SYN_POOL_ALIGN4 block_size
      in if block_size = 0 then None
         else let count = buf_size div block_size
              in if count = 0 then None
                 else let (freelist, mem) = pool_thread buf (unat block_size) (unat count) None (po_mem pool)
                      in Some \<lparr>po_freelist = freelist, po_buf = buf, po_block_size = block_size, po_block_count = count, po_used = 0,
                               po_high_water = 0, po_mem = mem\<rparr>)"

definition syn_pool_alloc :: "SYN_Pool \<Rightarrow> ptr \<times> SYN_Pool" where
  "syn_pool_alloc pool =
     (case po_freelist pool of
        None \<Rightarrow> (None, pool)
      | Some blk \<Rightarrow>
          let used = po_used pool + 1
          in (Some blk, pool\<lparr>po_freelist := po_mem pool blk, po_used := used,
                             po_high_water := (if used > po_high_water pool then used else po_high_water pool)\<rparr>))"

definition syn_pool_free :: "SYN_Pool \<Rightarrow> ptr \<Rightarrow> SYN_Pool option" where
  "syn_pool_free pool block =
     (case block of
        None \<Rightarrow> Some pool
      | Some b \<Rightarrow>
          let pool = pool\<lparr>po_mem := (po_mem pool)(b := po_freelist pool), po_freelist := Some b\<rparr>
          in if po_used pool > 0 then Some (pool\<lparr>po_used := po_used pool - 1\<rparr>) else None)"

definition syn_pool_available :: "SYN_Pool \<Rightarrow> u32" where "syn_pool_available pool = po_block_count pool - po_used pool"
definition syn_pool_used :: "SYN_Pool \<Rightarrow> u32" where "syn_pool_used pool = po_used pool"
definition syn_pool_high_watermark :: "SYN_Pool \<Rightarrow> u32" where "syn_pool_high_watermark pool = po_high_water pool"
definition syn_pool_block_size :: "SYN_Pool \<Rightarrow> u32" where "syn_pool_block_size pool = po_block_size pool"
definition syn_pool_block_count :: "SYN_Pool \<Rightarrow> u32" where "syn_pool_block_count pool = po_block_count pool"

subsection \<open>The pool keeps the contract of a block allocator\<close>

definition pool_class :: "SYN_Pool \<Rightarrow> slab_class" where
  "pool_class s = \<lparr>sc_block_size = po_block_size s, sc_total_blocks = po_block_count s, sc_free_count = po_block_count s - po_used s,
     sc_start_ptr = po_buf s, sc_freelist = po_freelist s\<rparr>"

text \<open>The free list ends with a null pointer, so one more step than there are blocks reads it whole.\<close>

definition pool_free_list :: "SYN_Pool \<Rightarrow> nat list" where
  "pool_free_list s = chain (po_mem s) (po_freelist s) (Suc (unat (po_block_count s)))"

definition pool_inv :: "SYN_Pool \<Rightarrow> bool" where
  "pool_inv s \<longleftrightarrow> 0 < po_block_size s \<and> po_used s \<le> po_block_count s \<and> length (pool_free_list s) + unat (po_used s) = unat (po_block_count s)
     \<and> distinct (pool_free_list s) \<and> set (pool_free_list s) \<subseteq> class_blocks (pool_class s)"

definition pool_blocks :: "SYN_Pool \<Rightarrow> (nat \<times> nat) set" where
  "pool_blocks s = (\<lambda>b. (b, unat (po_block_size s))) ` class_blocks (pool_class s)"

lemma unat_inc_below: "x < y \<Longrightarrow> unat (x + 1) = unat x + 1" for x y :: u32
proof -
  assume "x < y"
  moreover have "unat y < 2 ^ 32" using unsigned_less [of y] by simp
  ultimately have "unat x + 1 < 2 ^ 32" by (simp add: word_less_nat_alt)
  then show ?thesis by (simp add: unat_word_ariths)
qed

lemma chain_ends: "length (chain mem p n) < n \<Longrightarrow> n \<le> m \<Longrightarrow> chain mem p m = chain mem p n"
proof (induction mem p n arbitrary: m rule: chain.induct)
  case (2 mem n)
  then show ?case by (cases m) auto
next
  case (3 mem a n)
  obtain k where k: "m = Suc k" using "3.prems"(2) by (cases m) simp_all
  have "length (chain mem (mem a) n) < n" "n \<le> k" using "3.prems" k by simp_all
  from "3.IH" [OF this] show ?case by (simp add: k)
qed simp

lemma chain_shorter: "length (chain mem p n) \<le> length (chain mem p (Suc n))"
  by (induction mem p n rule: chain.induct) auto

lemma class_blocks_geometry: "class_blocks c = class_blocks d"
  if "sc_block_size c = sc_block_size d" "sc_total_blocks c = sc_total_blocks d" "sc_start_ptr c = sc_start_ptr d"
  using that by (simp add: class_blocks_def)

lemma pool_alloc_law:
  assumes "pool_inv s" "syn_pool_alloc s = (Some p, s')"
  shows "pool_free_list s = p # pool_free_list s'" "pool_blocks s' = pool_blocks s" "pool_inv s'" "po_used s' = po_used s + 1" "po_used s < po_block_count s"
proof -
  let ?n = "unat (po_block_count s)"
  have f: "po_freelist s = Some p" and s': "s' = s\<lparr>po_freelist := po_mem s p, po_used := po_used s + 1,
      po_high_water := (if po_used s + 1 > po_high_water s then po_used s + 1 else po_high_water s)\<rparr>"
    using assms(2) by (auto simp: syn_pool_alloc_def Let_def split: option.splits)
  have c: "pool_free_list s = p # chain (po_mem s) (po_mem s p) ?n" by (simp add: pool_free_list_def f)
  then have l: "length (chain (po_mem s) (po_mem s p) ?n) + 1 + unat (po_used s) = ?n" using assms(1) by (simp add: pool_inv_def)
  then have "chain (po_mem s) (po_mem s p) (Suc ?n) = chain (po_mem s) (po_mem s p) ?n" by (intro chain_ends) auto
  then have fl: "pool_free_list s' = chain (po_mem s) (po_mem s p) ?n" by (simp add: pool_free_list_def s' del: chain.simps)
  then show P: "pool_free_list s = p # pool_free_list s'" using c by simp
  show u: "po_used s' = po_used s + 1" by (simp add: s')
  show lt: "po_used s < po_block_count s" using l by (simp add: word_less_nat_alt)
  have b: "class_blocks (pool_class s') = class_blocks (pool_class s)" by (rule class_blocks_geometry) (simp_all add: pool_class_def s')
  show "pool_blocks s' = pool_blocks s" using b by (simp add: pool_blocks_def s')
  have un: "unat (po_used s + 1) = unat (po_used s) + 1"
    using unat_inc_below [OF lt] .
  show "pool_inv s'" using assms(1) P l fl u b un by (simp add: pool_inv_def s' word_le_nat_alt)
qed

lemma pool_alloc_none: "pool_inv s \<Longrightarrow> syn_pool_alloc s = (None, s') \<longleftrightarrow> s' = s \<and> pool_free_list s = []"
  by (auto simp: syn_pool_alloc_def pool_free_list_def Let_def split: option.splits)

lemma pool_free_law:
  assumes "pool_inv s" "(p, m) \<in> pool_blocks s" "p \<notin> set (pool_free_list s)"
  obtains s' where "syn_pool_free s (Some p) = Some s'" "pool_inv s'" "pool_free_list s' = p # pool_free_list s" "pool_blocks s' = pool_blocks s"
    "po_used s' = po_used s - 1" "po_used s > 0"
proof -
  let ?n = "unat (po_block_count s)" and ?c = "pool_class s"
  have pb: "p \<in> class_blocks ?c" using assms(2) by (auto simp: pool_blocks_def)
  have "length (pool_free_list s) = card (set (pool_free_list s))" using assms(1) by (simp add: pool_inv_def distinct_card)
  also have "\<dots> < card (class_blocks ?c)" using assms(1,3) pb by (intro psubset_card_mono) (auto simp: pool_inv_def class_blocks_def)
  also have "\<dots> = ?n" using assms(1) card_class_blocks [of ?c] by (simp add: pool_inv_def pool_class_def)
  finally have lt: "length (pool_free_list s) < ?n" .
  have u: "po_used s > 0" using lt assms(1) by (simp add: pool_inv_def word_less_nat_alt)
  let ?m = "(po_mem s)(p := po_freelist s)"
  let ?s = "s\<lparr>po_mem := ?m, po_freelist := Some p, po_used := po_used s - 1\<rparr>"
  have fr: "syn_pool_free s (Some p) = Some ?s" using u by (simp add: syn_pool_free_def Let_def)
  have fl: "pool_free_list ?s = p # pool_free_list s"
  proof -
    have "chain (po_mem s) (po_freelist s) (Suc ?n) = chain (po_mem s) (po_freelist s) ?n"
    proof (rule chain_ends)
      show "length (chain (po_mem s) (po_freelist s) ?n) < ?n"
        using lt chain_shorter [of "po_mem s" "po_freelist s" ?n] unfolding pool_free_list_def by linarith
    qed simp
    then have e: "pool_free_list s = chain (po_mem s) (po_freelist s) ?n" by (simp only: pool_free_list_def)
    then have "chain ?m (po_freelist s) ?n = pool_free_list s" using assms(3) chain_upd [of p "po_mem s" "po_freelist s" ?n] by simp
    then show ?thesis by (simp add: pool_free_list_def [where s = "s\<lparr>po_mem := x, po_freelist := y, po_used := z\<rparr>" for x y z] fun_upd_def)
  qed
  have b: "class_blocks (pool_class ?s) = class_blocks ?c" by (rule class_blocks_geometry) (simp_all add: pool_class_def)
  have "unat (po_used s - 1) = unat (po_used s) - 1" using u by (simp add: unat_minus_one word_gt_0)
  moreover have "unat (po_used s) - 1 \<le> unat (po_block_count s)" using assms(1) unfolding pool_inv_def word_le_nat_alt by linarith
  ultimately have "pool_inv ?s" using assms(1,3) fl b pb u by (simp add: pool_inv_def word_le_nat_alt word_less_nat_alt)
  then show thesis using that [of ?s] u fr fl b by (simp add: pool_blocks_def)
qed

lemma pool_disjoint:
  assumes "(p, m) \<in> pool_blocks s" "(q, k) \<in> pool_blocks s" "p \<noteq> q"
  shows "{p..<p + m} \<inter> {q..<q + k} = {}"
  using assms blocks_apart [of p "pool_class s" q] by (auto simp: pool_blocks_def pool_class_def)

lemma pool_store_law:
  assumes "pool_inv s" "(p, m) \<in> pool_blocks s" "p \<notin> set (pool_free_list s)" "p \<le> a" "a < p + m"
  shows "pool_inv (s\<lparr>po_mem := (po_mem s)(a := v)\<rparr>)" "pool_free_list (s\<lparr>po_mem := (po_mem s)(a := v)\<rparr>) = pool_free_list s"
    "pool_blocks (s\<lparr>po_mem := (po_mem s)(a := v)\<rparr>) = pool_blocks s"
proof -
  let ?s = "s\<lparr>po_mem := (po_mem s)(a := v)\<rparr>"
  have "a \<notin> set (pool_free_list s)"
  proof
    assume a: "a \<in> set (pool_free_list s)"
    then have "(a, unat (po_block_size s)) \<in> pool_blocks s" using assms(1) by (auto simp: pool_inv_def pool_blocks_def)
    moreover have "a \<noteq> p" using a assms(3) by auto
    moreover have "a \<in> {a..<a + unat (po_block_size s)}" using assms(1) by (simp add: pool_inv_def word_less_nat_alt)
    ultimately show False using pool_disjoint [OF assms(2), of a "unat (po_block_size s)"] assms(4,5) by auto
  qed
  then show f: "pool_free_list ?s = pool_free_list s" by (simp add: pool_free_list_def chain_upd del: chain.simps)
  have b: "class_blocks (pool_class ?s) = class_blocks (pool_class s)" by (rule class_blocks_geometry) (simp_all add: pool_class_def)
  then show "pool_inv ?s" "pool_blocks ?s = pool_blocks s" using assms(1) f by (simp_all add: pool_inv_def pool_blocks_def)
qed

text \<open>Releasing a block that is in use never fails an assertion; the other case keeps the state here.\<close>

definition pool_release :: "nat \<Rightarrow> SYN_Pool \<Rightarrow> SYN_Pool" where
  "pool_release p s = (case syn_pool_free s (Some p) of Some s' \<Rightarrow> s' | None \<Rightarrow> s)"

interpretation pool: block_allocator pool_inv pool_blocks "\<lambda>s. set (pool_free_list s)" "\<lambda>(_ :: unit) s. syn_pool_alloc s" pool_release
  "\<lambda>a v s. s\<lparr>po_mem := (po_mem s)(a := v)\<rparr>" "\<lambda>_ m. True"
proof (unfold_locales, goal_cases)
  case (1 s p m q k)
  then show ?case using pool_disjoint by blast
next
  case (2 s n p s')
  note A = pool_alloc_law [OF 2]
  have "p \<notin> set (pool_free_list s')" using A(1) 2(1) by (simp add: pool_inv_def)
  moreover have "p \<in> class_blocks (pool_class s)" using A(1) 2(1) by (simp add: pool_inv_def)
  ultimately show ?case using A by (auto simp: pool_blocks_def)
next
  case (3 s p m)
  then show ?case by (elim pool_free_law [of s p m]) (auto simp: pool_release_def)
next
  case (4 s p m a v)
  then show ?case using pool_store_law [OF 4, of v] by simp
qed

subsection \<open>Initialisation\<close>

lemma pool_thread_mem: "pool_thread buf b n fl mem = (fl', mem') \<Longrightarrow> (\<forall>j<n. a \<noteq> buf + j * b) \<Longrightarrow> mem' a = mem a"
  by (induction n arbitrary: fl mem) (auto simp: Let_def)

lemma pool_thread_chain:
  "0 < b \<Longrightarrow> pool_thread buf b n fl mem = (fl', mem') \<Longrightarrow> (\<forall>a\<in>set (chain mem fl k). \<forall>j<n. a \<noteq> buf + j * b) \<Longrightarrow>
    chain mem' fl' (n + k) = map (\<lambda>j. buf + j * b) [0..<n] @ chain mem fl k"
proof (induction n arbitrary: fl mem k)
  case 0
  then show ?case by simp
next
  case (Suc n)
  let ?m = "mem(buf + n * b := fl)"
  have new: "buf + n * b \<notin> set (chain mem fl k)" using Suc.prems(3) by auto
  have c: "chain ?m (Some (buf + n * b)) (Suc k) = (buf + n * b) # chain mem fl k" using chain_upd [OF new, of fl] by (simp add: fun_upd_def)
  have "chain mem' fl' (n + Suc k) = map (\<lambda>j. buf + j * b) [0..<n] @ chain ?m (Some (buf + n * b)) (Suc k)"
  proof (rule Suc.IH [OF Suc.prems(1)])
    show "pool_thread buf b n (Some (buf + n * b)) ?m = (fl', mem')" using Suc.prems(2) by (simp add: Let_def)
    show "\<forall>a\<in>set (chain ?m (Some (buf + n * b)) (Suc k)). \<forall>j<n. a \<noteq> buf + j * b" unfolding c using Suc.prems(1,3) by auto
  qed
  then show ?case unfolding c by simp
qed

lemma pool_init_ok:
  assumes "syn_pool_init s0 buf bufsz bs = Some s"
  shows "pool.held_ok s {}" "po_used s = 0" "po_high_water s = 0" "po_buf s = buf" "unat (po_block_size s) * unat (po_block_count s) \<le> unat bufsz"
proof -
  define b where "b = SYN_POOL_ALIGN4 (if bs < 4 then 4 else bs)"
  have b: "b \<noteq> 0" "bufsz div b \<noteq> 0" using assms by (auto simp: syn_pool_init_def Let_def b_def split: if_splits)
  define n where "n = bufsz div b"
  obtain fl mem where th: "pool_thread buf (unat b) (unat n) None (po_mem s0) = (fl, mem)" by force
  have s: "s = \<lparr>po_freelist = fl, po_buf = buf, po_block_size = b, po_block_count = n, po_used = 0, po_high_water = 0, po_mem = mem\<rparr>"
    using assms th b by (simp add: syn_pool_init_def Let_def b_def [symmetric] n_def [symmetric])
  have bp: "0 < unat b" using b(1) by (simp add: unat_gt_0)
  have "chain mem fl (unat n + 1) = map (\<lambda>j. buf + j * unat b) [0..<unat n]"
    using pool_thread_chain [OF bp th, of 1] by simp
  then have f: "pool_free_list s = map (\<lambda>j. buf + j * unat b) [0..<unat n]" unfolding pool_free_list_def by (simp add: s del: chain.simps)
  have set: "set (pool_free_list s) = class_blocks (pool_class s)" unfolding f by (simp add: class_blocks_def pool_class_def s atLeast0LessThan)
  moreover have "distinct (pool_free_list s)" using bp by (simp add: f distinct_map inj_on_def)
  moreover have "length (pool_free_list s) = unat n" by (simp add: f)
  ultimately have "pool_inv s" using b(1) by (simp add: pool_inv_def s word_gt_0)
  then show "pool.held_ok s {}" using set by (simp add: pool.held_ok_def pool_blocks_def image_image)
  show "po_used s = 0" "po_high_water s = 0" "po_buf s = buf" by (simp_all add: s)
  show "unat (po_block_size s) * unat (po_block_count s) \<le> unat bufsz" by (simp add: s n_def unat_div)
qed

subsection \<open>Clients\<close>

text \<open>
  The states clients can reach: \<open>live\<close> is the set of blocks they hold, \<open>peak\<close> the largest number held at once, \<open>bufsz\<close> the size of the buffer.
\<close>

inductive pool_run :: "u32 \<Rightarrow> SYN_Pool \<Rightarrow> nat set \<Rightarrow> nat \<Rightarrow> bool" for bufsz where
  pool_run_init: "syn_pool_init s0 buf bufsz bs = Some s \<Longrightarrow> pool_run bufsz s {} 0"
| pool_run_alloc: "pool_run bufsz s live peak \<Longrightarrow> syn_pool_alloc s = (Some p, s') \<Longrightarrow>
    pool_run bufsz s' (insert p live) (max peak (card (insert p live)))"
| pool_run_fail: "pool_run bufsz s live peak \<Longrightarrow> syn_pool_alloc s = (None, s') \<Longrightarrow> pool_run bufsz s' live peak"
| pool_run_free: "pool_run bufsz s live peak \<Longrightarrow> p \<in> live \<Longrightarrow> syn_pool_free s (Some p) = Some s' \<Longrightarrow> pool_run bufsz s' (live - {p}) peak"
| pool_run_null: "pool_run bufsz s live peak \<Longrightarrow> syn_pool_free s None = Some s' \<Longrightarrow> pool_run bufsz s' live peak"
| pool_run_write: "pool_run bufsz s live peak \<Longrightarrow> p \<in> live \<Longrightarrow> (p, m) \<in> pool_blocks s \<Longrightarrow> p \<le> a \<Longrightarrow> a < p + m \<Longrightarrow>
    pool_run bufsz (s\<lparr>po_mem := (po_mem s)(a := v)\<rparr>) live peak"

definition pool_counts :: "u32 \<Rightarrow> SYN_Pool \<Rightarrow> nat set \<Rightarrow> nat \<Rightarrow> bool" where
  "pool_counts bufsz s live peak \<longleftrightarrow> unat (po_used s) = card live \<and> finite live \<and> unat (po_high_water s) = peak
     \<and> unat (po_block_size s) * unat (po_block_count s) \<le> unat bufsz"

lemma pool_run_inv: "pool_run bufsz s live peak \<Longrightarrow> pool.held_ok s live \<and> pool_counts bufsz s live peak"
proof (induction rule: pool_run.induct)
  case (pool_run_init s0 buf bs s)
  then show ?case using pool_init_ok [OF pool_run_init] by (simp add: pool_counts_def)
next
  case (pool_run_alloc s live peak p s')
  then have inv: "pool_inv s" and h: "pool.held_ok s live" by (simp_all add: pool.held_ok_def)
  note A = pool_alloc_law [OF inv pool_run_alloc.hyps(2)]
  have "p \<in> set (pool_free_list s)" using A(1) by simp
  then have p: "p \<notin> live" using h by (auto simp: pool.held_ok_def)
  have u: "unat (po_used s') = unat (po_used s) + 1"
    using unat_inc_below [OF A(5)] A(4) by simp
  have w: "po_high_water s' = (if po_used s' > po_high_water s then po_used s' else po_high_water s)"
      "po_block_size s' = po_block_size s" "po_block_count s' = po_block_count s"
    using pool_run_alloc.hyps(2) by (auto simp: syn_pool_alloc_def Let_def split: option.splits)
  show ?case using pool.held_alloc [OF h pool_run_alloc.hyps(2)] pool_run_alloc.IH u w p
    by (auto simp: pool_counts_def word_less_nat_alt max_def)
next
  case (pool_run_fail s live peak s')
  then show ?case by (auto simp: syn_pool_alloc_def Let_def split: option.splits)
next
  case (pool_run_free s live peak p s')
  then have inv: "pool_inv s" and h: "pool.held_ok s live" by (simp_all add: pool.held_ok_def)
  obtain m where m: "(p, m) \<in> pool_blocks s" "p \<notin> set (pool_free_list s)" using pool.held_block [OF h pool_run_free.hyps(2)] by blast
  from pool_free_law [OF inv m] have u: "po_used s' = po_used s - 1" "po_used s > 0" using pool_run_free.hyps(3) by auto
  have "po_high_water s' = po_high_water s" "po_block_size s' = po_block_size s" "po_block_count s' = po_block_count s"
    using pool_run_free.hyps(3) by (auto simp: syn_pool_free_def Let_def split: if_splits)
  moreover have "unat (po_used s') = unat (po_used s) - 1" using u by (simp add: unat_minus_one word_gt_0)
  moreover have "pool_release p s = s'" using pool_run_free.hyps(3) by (simp add: pool_release_def)
  ultimately show ?case using pool.held_release [OF h pool_run_free.hyps(2)] pool_run_free by (simp add: pool_counts_def card_Diff_singleton)
next
  case (pool_run_null s live peak s')
  then show ?case by (simp add: syn_pool_free_def)
next
  case (pool_run_write s live peak p m a v)
  then show ?case using pool.held_store [of s live p m a v] by (simp add: pool_counts_def)
qed

text \<open>
  C40: However clients interleave allocations, frees of blocks they hold and arbitrary writes into them, a granted block is held by nobody, lies inside the
  buffer and overlaps no block that is held; an allocation fails exactly when every block is held; every block held can be freed; and the counters are exact:
  blocks in use, blocks available, and the largest number ever in use at once.
\<close>

theorem pool_exact:
  assumes "pool_run bufsz s live peak" "b = unat (po_block_size s)"
  shows "(\<forall>p s'. syn_pool_alloc s = (Some p, s') \<longrightarrow> p \<notin> live \<and> po_buf s \<le> p \<and> p + b \<le> po_buf s + unat bufsz \<and> (\<forall>q\<in>live. {p..<p + b} \<inter> {q..<q + b} = {}))
    \<and> (fst (syn_pool_alloc s) = None \<longleftrightarrow> card live = unat (syn_pool_block_count s))
    \<and> (\<forall>q\<in>live. syn_pool_free s (Some q) \<noteq> None)
    \<and> unat (syn_pool_used s) = card live \<and> unat (syn_pool_available s) + card live = unat (syn_pool_block_count s) \<and> unat (syn_pool_high_watermark s) = peak"
proof (intro conjI allI impI)
  have h: "pool.held_ok s live" and c: "pool_counts bufsz s live peak" using pool_run_inv [OF assms(1)] by simp_all
  have inv: "pool_inv s" using h by (simp add: pool.held_ok_def)
  have blk: "(q, k) \<in> pool_blocks s \<longleftrightarrow> q \<in> class_blocks (pool_class s) \<and> k = b" for q k using assms(2) by (auto simp: pool_blocks_def)
  have lv: "q \<in> class_blocks (pool_class s)" if "q \<in> live" for q using pool.held_block [OF h that] blk by blast
  {
    fix p s' assume a: "syn_pool_alloc s = (Some p, s')"
    note G = pool.grant_fresh [OF h a]
    have g: "p \<notin> live" using G by simp
    obtain m where "(p, m) \<in> pool_blocks s" using G by blast
    then have g2: "(p, b) \<in> pool_blocks s" using blk by simp
    show "p \<notin> live" by (rule g)
    have "class_within (po_buf s) (po_buf s + unat bufsz) (pool_class s)" using c by (simp add: class_within_def pool_class_def pool_counts_def)
    then show "po_buf s \<le> p" "p + b \<le> po_buf s + unat bufsz"
      using block_end [of "pool_class s" p "po_buf s" "po_buf s + unat bufsz"] g2 blk inv assms(2) by (auto simp: pool_inv_def pool_class_def)
    show "\<forall>q\<in>live. {p..<p + b} \<inter> {q..<q + b} = {}" using pool_disjoint [OF g2] g lv blk by blast
  }
  have l: "length (pool_free_list s) + card live = unat (po_block_count s)" using inv c by (simp add: pool_inv_def pool_counts_def)
  show "fst (syn_pool_alloc s) = None \<longleftrightarrow> card live = unat (syn_pool_block_count s)"
    using l by (auto simp: syn_pool_alloc_def pool_free_list_def syn_pool_block_count_def Let_def split: option.splits)
  show "\<forall>q\<in>live. syn_pool_free s (Some q) \<noteq> None"
    using pool.held_block [OF h] pool_free_law [OF inv] by (metis option.distinct(1))
  show "unat (syn_pool_used s) = card live" "unat (syn_pool_high_watermark s) = peak"
    using c by (simp_all add: pool_counts_def syn_pool_used_def syn_pool_high_watermark_def)
  have "po_used s \<le> po_block_count s" using inv by (simp add: pool_inv_def)
  then show "unat (syn_pool_available s) + card live = unat (syn_pool_block_count s)"
    using c by (simp add: pool_counts_def syn_pool_available_def syn_pool_block_count_def unat_sub word_le_nat_alt)
qed

definition demo_pool :: SYN_Pool where
  "demo_pool = \<lparr>po_freelist = Some 1000, po_buf = 1000, po_block_size = 8, po_block_count = 2, po_used = 0, po_high_water = 0,
     po_mem = (\<lambda>_. None)(1008 := None, 1000 := Some 1008)\<rparr>"

lemma demo_pool_init: "syn_pool_init \<lparr>po_freelist = None, po_buf = 0, po_block_size = 0, po_block_count = 0, po_used = 0, po_high_water = 0, po_mem = \<lambda>_. None\<rparr> 1000 20 6
   = Some demo_pool"
proof -
  have "pool_thread 1000 8 (Suc (Suc 0)) None (\<lambda>_. None) = (Some 1000, [1000 \<mapsto> 1008])" by (simp add: Let_def fun_eq_iff)
  then have "pool_thread 1000 8 2 None (\<lambda>_. None) = (Some 1000, [1000 \<mapsto> 1008])" by (simp only: numeral_2_eq_2)
  moreover have "(20 :: u32) div 8 = 2" by (simp add: word_arith_nat_div)
  ultimately show ?thesis by (simp add: syn_pool_init_def SYN_POOL_ALIGN4_def Let_def demo_pool_def)
qed

theorem pool_exact_witness:
  "\<exists>s1 s2. syn_pool_alloc demo_pool = (Some 1000, s1) \<and> syn_pool_alloc s1 = (Some 1008, s2) \<and> fst (syn_pool_alloc s2) = None
     \<and> syn_pool_free s2 (Some 1000) \<noteq> None \<and> unat (syn_pool_high_watermark s2) = 2"
proof -
  let ?s1 = "snd (syn_pool_alloc demo_pool)" and ?s2 = "snd (syn_pool_alloc (snd (syn_pool_alloc demo_pool)))"
  have a: "syn_pool_alloc demo_pool = (Some 1000, ?s1)" "syn_pool_alloc ?s1 = (Some 1008, ?s2)"
    by (simp_all add: demo_pool_def syn_pool_alloc_def Let_def)
  have "pool_run 20 ?s2 (insert 1008 (insert 1000 {})) (max (max 0 (card (insert (1000 :: nat) {}))) (card (insert 1008 (insert (1000 :: nat) {}))))"
    by (rule pool_run_alloc [OF pool_run_alloc [OF pool_run_init [OF demo_pool_init] a(1)] a(2)])
  from pool_exact [OF this refl] have "fst (syn_pool_alloc ?s2) = None" "syn_pool_free ?s2 (Some 1000) \<noteq> None" "unat (syn_pool_high_watermark ?s2) = 2"
    by (simp_all add: demo_pool_def syn_pool_alloc_def syn_pool_block_count_def Let_def)
  then show ?thesis using a by blast
qed

text \<open>
  A free is not checked: with another block in use, freeing a block twice is accepted and two allocations return the same address.
\<close>

theorem pool_double_free_aliases:
  "let (a, s1) = syn_pool_alloc demo_pool; (b, s2) = syn_pool_alloc s1; s3 = the (syn_pool_free s2 a); s4 = the (syn_pool_free s3 a);
       (x, s5) = syn_pool_alloc s4; (y, s6) = syn_pool_alloc s5
   in syn_pool_free s2 a = Some s3 \<and> syn_pool_free s3 a = Some s4 \<and> x = Some 1000 \<and> y = Some 1000"
  by (simp add: demo_pool_def syn_pool_alloc_def syn_pool_free_def Let_def)

end
