(* ===== verification/Syn_Json_Write.thy ===== *)
theory Syn_Json_Write
  imports Syn_Prelude
begin

text \<open>
  The streaming JSON writer of \<^verbatim>\<open>util/syn_json_write.c\<close>. Characters are their 8-bit codes, a C string is the list of its characters without the
  terminator; \<open>int32_t\<close> values are 32-bit words read with \<open>sint\<close>. The writer's buffer is a list whose length is its capacity.
\<close>

definition SYN_JSON_MAX_DEPTH :: u8 where "SYN_JSON_MAX_DEPTH = 8"

record SYN_JsonWriter =
  jw_buf :: "u8 list"
  jw_capacity :: nat
  jw_len :: nat
  jw_depth :: u8
  jw_needs_comma :: bool
  jw_overflow :: bool

definition jw_putc :: "u8 \<Rightarrow> SYN_JsonWriter \<Rightarrow> SYN_JsonWriter" where
  "jw_putc ch w =
     (if jw_overflow w then w
      else if jw_len w + 1 \<ge> jw_capacity w then w\<lparr>jw_overflow := True\<rparr>
      else w\<lparr>jw_buf := (jw_buf w)[jw_len w := ch, jw_len w + 1 := 0], jw_len := jw_len w + 1\<rparr>)"

definition jw_puts :: "u8 list \<Rightarrow> SYN_JsonWriter \<Rightarrow> SYN_JsonWriter" where
  "jw_puts s w =
     (if jw_overflow w then w
      else if jw_len w + length s \<ge> jw_capacity w then w\<lparr>jw_overflow := True\<rparr>
      else w\<lparr>jw_buf := (copy_into (jw_buf w) (jw_len w) s)[jw_len w + length s := 0], jw_len := jw_len w + length s\<rparr>)"

text \<open>Backslash is \<^verbatim>\<open>0x5C\<close>, the quote \<^verbatim>\<open>0x22\<close>.\<close>

fun jw_str_loop :: "u8 list \<Rightarrow> SYN_JsonWriter \<Rightarrow> SYN_JsonWriter" where
  "jw_str_loop [] w = w"
| "jw_str_loop (ch # s) w =
     (if jw_overflow w then w
      else jw_str_loop s
        (if ch = 0x22 then jw_puts [0x5C, 0x22] w
         else if ch = 0x5C then jw_puts [0x5C, 0x5C] w
         else if ch = 0x0A then jw_puts [0x5C, of_char CHR ''n''] w
         else if ch = 0x0D then jw_puts [0x5C, of_char CHR ''r''] w
         else if ch = 0x09 then jw_puts [0x5C, of_char CHR ''t''] w
         else if ch < 0x20 then w
         else jw_putc ch w))"

definition jw_str :: "u8 list \<Rightarrow> SYN_JsonWriter \<Rightarrow> SYN_JsonWriter" where
  "jw_str s w = jw_putc 0x22 (jw_str_loop s (jw_putc 0x22 w))"

text \<open>The digits of a number, last one first.\<close>

function jw_digits_loop :: "u32 \<Rightarrow> u8 list" where
  "jw_digits_loop uval = (if uval > 0 then (0x30 + ucast (uval mod 10)) # jw_digits_loop (uval div 10) else [])"
  by auto
termination
  by (relation "measure unat") (auto simp: unat_div word_less_nat_alt)

definition jw_digits :: "u32 \<Rightarrow> u8 list" where
  "jw_digits uval = (if uval = 0 then [0x30] else jw_digits_loop uval)"

definition int_text :: "u32 \<Rightarrow> u8 list" where
  "int_text val =
     (let neg = sint val < 0; uval = (if neg then - (val + 1) + 1 else val)
      in (if neg then [0x2D] else []) @ rev (jw_digits uval))"

definition uint_text :: "u32 \<Rightarrow> u8 list" where
  "uint_text val = rev (jw_digits val)"

definition jw_int :: "u32 \<Rightarrow> SYN_JsonWriter \<Rightarrow> SYN_JsonWriter" where "jw_int val w = jw_puts (int_text val) w"
definition jw_uint :: "u32 \<Rightarrow> SYN_JsonWriter \<Rightarrow> SYN_JsonWriter" where "jw_uint val w = jw_puts (uint_text val) w"

definition jw_comma :: "SYN_JsonWriter \<Rightarrow> SYN_JsonWriter" where
  "jw_comma w = (if jw_needs_comma w then jw_putc 0x2C w else w)\<lparr>jw_needs_comma := True\<rparr>"

definition syn_json_init :: "u8 list \<Rightarrow> SYN_JsonWriter" where
  "syn_json_init buf = \<lparr>jw_buf = buf[0 := 0], jw_capacity = length buf, jw_len = 0, jw_depth = 0, jw_needs_comma = False, jw_overflow = False\<rparr>"

definition jw_open :: "u8 \<Rightarrow> SYN_JsonWriter \<Rightarrow> SYN_JsonWriter" where
  "jw_open bracket w =
     (if jw_depth w \<ge> SYN_JSON_MAX_DEPTH then w\<lparr>jw_overflow := True\<rparr>
      else let w = (if jw_needs_comma w then jw_putc 0x2C w else w); w = jw_putc bracket w
           in w\<lparr>jw_depth := jw_depth w + 1, jw_needs_comma := False\<rparr>)"

definition jw_close :: "u8 \<Rightarrow> SYN_JsonWriter \<Rightarrow> SYN_JsonWriter" where
  "jw_close bracket w =
     (let w = jw_putc bracket w
      in w\<lparr>jw_depth := (if jw_depth w > 0 then jw_depth w - 1 else jw_depth w), jw_needs_comma := True\<rparr>)"

definition syn_json_obj_open :: "SYN_JsonWriter \<Rightarrow> SYN_JsonWriter" where "syn_json_obj_open = jw_open 0x7B"
definition syn_json_obj_close :: "SYN_JsonWriter \<Rightarrow> SYN_JsonWriter" where "syn_json_obj_close = jw_close 0x7D"
definition syn_json_arr_open :: "SYN_JsonWriter \<Rightarrow> SYN_JsonWriter" where "syn_json_arr_open = jw_open 0x5B"
definition syn_json_arr_close :: "SYN_JsonWriter \<Rightarrow> SYN_JsonWriter" where "syn_json_arr_close = jw_close 0x5D"

definition syn_json_key :: "u8 list \<Rightarrow> SYN_JsonWriter \<Rightarrow> SYN_JsonWriter" where
  "syn_json_key key w = (jw_putc 0x3A (jw_str key (jw_comma w)))\<lparr>jw_needs_comma := False\<rparr>"

text \<open>A null pointer for a string value is \<open>None\<close>.\<close>

definition syn_json_key_str :: "u8 list \<Rightarrow> u8 list option \<Rightarrow> SYN_JsonWriter \<Rightarrow> SYN_JsonWriter" where
  "syn_json_key_str key val w = jw_str (case val of Some s \<Rightarrow> s | None \<Rightarrow> []) (jw_putc 0x3A (jw_str key (jw_comma w)))"

definition syn_json_key_int :: "u8 list \<Rightarrow> u32 \<Rightarrow> SYN_JsonWriter \<Rightarrow> SYN_JsonWriter" where
  "syn_json_key_int key val w = jw_int val (jw_putc 0x3A (jw_str key (jw_comma w)))"

definition syn_json_key_uint :: "u8 list \<Rightarrow> u32 \<Rightarrow> SYN_JsonWriter \<Rightarrow> SYN_JsonWriter" where
  "syn_json_key_uint key val w = jw_uint val (jw_putc 0x3A (jw_str key (jw_comma w)))"

definition bool_text :: "bool \<Rightarrow> u8 list" where
  "bool_text b = map of_char (if b then ''true'' else ''false'')"

definition null_text :: "u8 list" where
  "null_text = map of_char ''null''"

definition syn_json_key_bool :: "u8 list \<Rightarrow> bool \<Rightarrow> SYN_JsonWriter \<Rightarrow> SYN_JsonWriter" where
  "syn_json_key_bool key val w = jw_puts (bool_text val) (jw_putc 0x3A (jw_str key (jw_comma w)))"

definition syn_json_key_null :: "u8 list \<Rightarrow> SYN_JsonWriter \<Rightarrow> SYN_JsonWriter" where
  "syn_json_key_null key w = jw_puts null_text (jw_putc 0x3A (jw_str key (jw_comma w)))"

definition syn_json_val_str :: "u8 list option \<Rightarrow> SYN_JsonWriter \<Rightarrow> SYN_JsonWriter" where
  "syn_json_val_str val w = jw_str (case val of Some s \<Rightarrow> s | None \<Rightarrow> []) (jw_comma w)"

definition syn_json_val_int :: "u32 \<Rightarrow> SYN_JsonWriter \<Rightarrow> SYN_JsonWriter" where "syn_json_val_int val w = jw_int val (jw_comma w)"
definition syn_json_val_uint :: "u32 \<Rightarrow> SYN_JsonWriter \<Rightarrow> SYN_JsonWriter" where "syn_json_val_uint val w = jw_uint val (jw_comma w)"
definition syn_json_val_bool :: "bool \<Rightarrow> SYN_JsonWriter \<Rightarrow> SYN_JsonWriter" where "syn_json_val_bool val w = jw_puts (bool_text val) (jw_comma w)"

definition syn_json_len :: "SYN_JsonWriter \<Rightarrow> nat" where "syn_json_len w = jw_len w"
definition syn_json_str :: "SYN_JsonWriter \<Rightarrow> u8 list" where "syn_json_str w = jw_buf w"
definition syn_json_ok :: "SYN_JsonWriter \<Rightarrow> bool" where "syn_json_ok w \<longleftrightarrow> \<not> jw_overflow w"

subsection \<open>What the buffer holds\<close>

text \<open>
  The text \<open>t\<close> was asked for: it is in the buffer, terminated, or it does not fit and the buffer holds a terminated beginning of it.
\<close>

definition jw_holds :: "u8 list \<Rightarrow> SYN_JsonWriter \<Rightarrow> bool" where
  "jw_holds t w \<longleftrightarrow> length (jw_buf w) = jw_capacity w \<and> jw_len w < jw_capacity w \<and> jw_buf w ! jw_len w = 0
     \<and> (\<exists>r. t = take (jw_len w) (jw_buf w) @ r \<and> (if jw_overflow w then jw_capacity w \<le> length t else r = []))"

lemma holds_puts: "jw_holds t w \<Longrightarrow> jw_holds (t @ s) (jw_puts s w)"
proof -
  assume h: "jw_holds t w"
  show ?thesis
  proof (cases "jw_overflow w \<or> jw_len w + length s \<ge> jw_capacity w")
    case True
    then show ?thesis using h by (auto simp: jw_holds_def jw_puts_def)
  next
    case False
    have t: "t = take (jw_len w) (jw_buf w)" using h False by (simp add: jw_holds_def)
    have "take (jw_len w + length s) (copy_into (jw_buf w) (jw_len w) s) = t @ s"
      using h False t by (auto simp: jw_holds_def copy_into_def min_def)
    then show ?thesis using h False by (auto simp: jw_holds_def jw_puts_def nth_append)
  qed
qed

lemma putc_puts: "jw_holds t w \<Longrightarrow> jw_putc c w = jw_puts [c] w"
  by (auto simp: jw_holds_def jw_putc_def jw_puts_def copy_into_def upd_conv_take_nth_drop)

lemma holds_putc: "jw_holds t w \<Longrightarrow> jw_holds (t @ [c]) (jw_putc c w)"
  using putc_puts holds_puts by metis

lemma holds_longer: "jw_holds t w \<Longrightarrow> jw_overflow w \<Longrightarrow> jw_holds (t @ s) w"
  by (auto simp: jw_holds_def)

lemma holds_flags [simp]: "jw_holds t (w\<lparr>jw_needs_comma := c\<rparr>) = jw_holds t w" "jw_holds t (w\<lparr>jw_depth := d\<rparr>) = jw_holds t w"
  by (simp_all add: jw_holds_def)

lemma put_flags [simp]:
  "jw_depth (jw_putc c w) = jw_depth w" "jw_needs_comma (jw_putc c w) = jw_needs_comma w"
  "jw_depth (jw_puts s w) = jw_depth w" "jw_needs_comma (jw_puts s w) = jw_needs_comma w"
  "jw_capacity (jw_putc c w) = jw_capacity w" "jw_capacity (jw_puts s w) = jw_capacity w"
  by (simp_all add: jw_putc_def jw_puts_def)

subsection \<open>Texts\<close>

definition esc_char :: "u8 \<Rightarrow> u8 list" where
  "esc_char ch =
     (if ch = 0x22 \<or> ch = 0x5C then [0x5C, ch]
      else if ch = 0x0A then [0x5C, of_char CHR ''n'']
      else if ch = 0x0D then [0x5C, of_char CHR ''r'']
      else if ch = 0x09 then [0x5C, of_char CHR ''t'']
      else if ch < 0x20 then [] else [ch])"

definition esc :: "u8 list \<Rightarrow> u8 list" where
  "esc s = concat (map esc_char s)"

lemma holds_str_loop: "jw_holds t w \<Longrightarrow> jw_holds (t @ esc s) (jw_str_loop s w)"
proof (induction s arbitrary: t w)
  case (Cons ch s)
  show ?case
  proof (cases "jw_overflow w")
    case True
    then show ?thesis using holds_longer [OF Cons.prems] by simp
  next
    case False
    let ?w = "if ch = 0x22 then jw_puts [0x5C, 0x22] w
         else if ch = 0x5C then jw_puts [0x5C, 0x5C] w
         else if ch = 0x0A then jw_puts [0x5C, of_char CHR ''n''] w
         else if ch = 0x0D then jw_puts [0x5C, of_char CHR ''r''] w
         else if ch = 0x09 then jw_puts [0x5C, of_char CHR ''t''] w
         else if ch < 0x20 then w
         else jw_putc ch w"
    have "jw_holds (t @ esc_char ch) ?w" using holds_puts [OF Cons.prems] holds_putc [OF Cons.prems] Cons.prems by (simp add: esc_char_def)
    from Cons.IH [OF this] show ?thesis using False by (simp add: esc_def)
  qed
qed (simp add: esc_def)

lemma str_loop_flags [simp]: "jw_depth (jw_str_loop s w) = jw_depth w" "jw_needs_comma (jw_str_loop s w) = jw_needs_comma w" "jw_capacity (jw_str_loop s w) = jw_capacity w"
  by (induction s arbitrary: w) auto

definition str_text :: "u8 list \<Rightarrow> u8 list" where
  "str_text s = 0x22 # esc s @ [0x22]"

lemma holds_str: "jw_holds t w \<Longrightarrow> jw_holds (t @ str_text s) (jw_str s w)"
  using holds_putc [OF holds_str_loop [OF holds_putc]] by (fastforce simp: jw_str_def str_text_def)

lemma str_flags [simp]: "jw_depth (jw_str s w) = jw_depth w" "jw_needs_comma (jw_str s w) = jw_needs_comma w" "jw_capacity (jw_str s w) = jw_capacity w"
  by (simp_all add: jw_str_def)

definition comma_text :: "SYN_JsonWriter \<Rightarrow> u8 list" where
  "comma_text w = (if jw_needs_comma w then [0x2C] else [])"

lemma holds_comma: "jw_holds t w \<Longrightarrow> jw_holds (t @ comma_text w) (jw_comma w)"
  using holds_putc by (simp add: jw_comma_def comma_text_def)

lemma comma_flags [simp]: "jw_depth (jw_comma w) = jw_depth w" "jw_needs_comma (jw_comma w)" "jw_capacity (jw_comma w) = jw_capacity w"
  by (simp_all add: jw_comma_def)

lemma holds_init: "buf \<noteq> [] \<Longrightarrow> jw_holds [] (syn_json_init buf)"
  by (simp add: jw_holds_def syn_json_init_def)

lemma holds_open: "jw_holds t w \<Longrightarrow> jw_depth w < SYN_JSON_MAX_DEPTH \<Longrightarrow> jw_holds (t @ comma_text w @ [c]) (jw_open c w)"
  using holds_putc holds_putc [of "t @ [0x2C]"] by (auto simp: jw_open_def comma_text_def Let_def)

lemma open_flags: "jw_depth w < SYN_JSON_MAX_DEPTH \<Longrightarrow> jw_depth (jw_open c w) = jw_depth w + 1" "jw_depth w < SYN_JSON_MAX_DEPTH \<Longrightarrow> \<not> jw_needs_comma (jw_open c w)"
    "jw_capacity (jw_open c w) = jw_capacity w"
  by (auto simp: jw_open_def Let_def)

lemma holds_close: "jw_holds t w \<Longrightarrow> jw_holds (t @ [c]) (jw_close c w)"
  using holds_putc by (simp add: jw_close_def Let_def)

lemma close_flags: "jw_depth (jw_close c w) = (if jw_depth w > 0 then jw_depth w - 1 else jw_depth w)" "jw_needs_comma (jw_close c w)" "jw_capacity (jw_close c w) = jw_capacity w"
  by (auto simp: jw_close_def Let_def)

text \<open>Values, the calls that write them, and their texts. A null inside an array cannot be written.\<close>

datatype json = JStr "u8 list" | JInt u32 | JUint u32 | JBool bool | JNull | JObj "(u8 list \<times> json) list" | JArr "json list"

fun json_text :: "json \<Rightarrow> u8 list" and members_text :: "(u8 list \<times> json) list \<Rightarrow> u8 list" and items_text :: "json list \<Rightarrow> u8 list" where
  "json_text (JStr s) = str_text s"
| "json_text (JInt n) = int_text n"
| "json_text (JUint n) = uint_text n"
| "json_text (JBool b) = bool_text b"
| "json_text JNull = null_text"
| "json_text (JObj ms) = 0x7B # members_text ms @ [0x7D]"
| "json_text (JArr vs) = 0x5B # items_text vs @ [0x5D]"
| "members_text [] = []"
| "members_text ((k, v) # ms) = str_text k @ 0x3A # json_text v @ (if ms = [] then [] else 0x2C # members_text ms)"
| "items_text [] = []"
| "items_text (v # vs) = json_text v @ (if vs = [] then [] else 0x2C # items_text vs)"

fun write_member :: "u8 list \<Rightarrow> json \<Rightarrow> SYN_JsonWriter \<Rightarrow> SYN_JsonWriter"
  and write_members :: "(u8 list \<times> json) list \<Rightarrow> SYN_JsonWriter \<Rightarrow> SYN_JsonWriter"
  and write_item :: "json \<Rightarrow> SYN_JsonWriter \<Rightarrow> SYN_JsonWriter"
  and write_items :: "json list \<Rightarrow> SYN_JsonWriter \<Rightarrow> SYN_JsonWriter" where
  "write_member k (JStr s) w = syn_json_key_str k (Some s) w"
| "write_member k (JInt n) w = syn_json_key_int k n w"
| "write_member k (JUint n) w = syn_json_key_uint k n w"
| "write_member k (JBool b) w = syn_json_key_bool k b w"
| "write_member k JNull w = syn_json_key_null k w"
| "write_member k (JObj ms) w = syn_json_obj_close (write_members ms (syn_json_obj_open (syn_json_key k w)))"
| "write_member k (JArr vs) w = syn_json_arr_close (write_items vs (syn_json_arr_open (syn_json_key k w)))"
| "write_members [] w = w"
| "write_members ((k, v) # ms) w = write_members ms (write_member k v w)"
| "write_item (JStr s) w = syn_json_val_str (Some s) w"
| "write_item (JInt n) w = syn_json_val_int n w"
| "write_item (JUint n) w = syn_json_val_uint n w"
| "write_item (JBool b) w = syn_json_val_bool b w"
| "write_item JNull w = w"
| "write_item (JObj ms) w = syn_json_obj_close (write_members ms (syn_json_obj_open w))"
| "write_item (JArr vs) w = syn_json_arr_close (write_items vs (syn_json_arr_open w))"
| "write_items [] w = w"
| "write_items (v # vs) w = write_items vs (write_item v w)"

definition write_object :: "(u8 list \<times> json) list \<Rightarrow> SYN_JsonWriter \<Rightarrow> SYN_JsonWriter" where
  "write_object ms w = syn_json_obj_close (write_members ms (syn_json_obj_open w))"

text \<open>Values that need at most \<open>n\<close> levels, with no null as an item.\<close>

fun json_within :: "nat \<Rightarrow> json \<Rightarrow> bool" and members_within :: "nat \<Rightarrow> (u8 list \<times> json) list \<Rightarrow> bool" and items_within :: "nat \<Rightarrow> json list \<Rightarrow> bool" where
  "json_within n (JObj ms) \<longleftrightarrow> 0 < n \<and> members_within (n - 1) ms"
| "json_within n (JArr vs) \<longleftrightarrow> 0 < n \<and> items_within (n - 1) vs"
| "json_within n (JStr s) \<longleftrightarrow> True"
| "json_within n (JInt i) \<longleftrightarrow> True"
| "json_within n (JUint i) \<longleftrightarrow> True"
| "json_within n (JBool b) \<longleftrightarrow> True"
| "json_within n JNull \<longleftrightarrow> True"
| "members_within n [] \<longleftrightarrow> True"
| "members_within n ((k, v) # ms) \<longleftrightarrow> json_within n v \<and> members_within n ms"
| "items_within n [] \<longleftrightarrow> True"
| "items_within n (v # vs) \<longleftrightarrow> v \<noteq> JNull \<and> json_within n v \<and> items_within n vs"

subsection \<open>A document is written whole or refused\<close>

text \<open>The call from \<open>w\<close> to \<open>w'\<close> appended \<open>s\<close> on the same level, and a next element needs a comma.\<close>

definition appended :: "SYN_JsonWriter \<Rightarrow> u8 list \<Rightarrow> SYN_JsonWriter \<Rightarrow> bool" where
  "appended w s w' \<longleftrightarrow> (\<forall>t. jw_holds t w \<longrightarrow> jw_holds (t @ s) w') \<and> jw_depth w' = jw_depth w \<and> jw_capacity w' = jw_capacity w \<and> jw_needs_comma w'"

lemma appended_key:
  "jw_holds t w \<Longrightarrow> jw_holds (t @ comma_text w @ str_text k @ [0x3A]) (jw_putc 0x3A (jw_str k (jw_comma w)))"
  using holds_putc [OF holds_str [OF holds_comma]] by fastforce

lemma appended_puts: "(\<And>t. jw_holds t w \<Longrightarrow> jw_holds (t @ s) w1) \<Longrightarrow> jw_depth w1 = jw_depth w \<Longrightarrow> jw_capacity w1 = jw_capacity w \<Longrightarrow> jw_needs_comma w1 \<Longrightarrow> appended w (s @ r) (jw_puts r w1)"
  using holds_puts by (fastforce simp: appended_def)

lemma appended_str: "(\<And>t. jw_holds t w \<Longrightarrow> jw_holds (t @ s) w1) \<Longrightarrow> jw_depth w1 = jw_depth w \<Longrightarrow> jw_capacity w1 = jw_capacity w \<Longrightarrow> jw_needs_comma w1 \<Longrightarrow> appended w (s @ str_text r) (jw_str r w1)"
  using holds_str by (fastforce simp: appended_def)

lemma depth_inc: "jw_depth w < SYN_JSON_MAX_DEPTH \<Longrightarrow> jw_depth w + 1 > 0 \<and> unat (jw_depth w + 1) = unat (jw_depth w) + 1"
  by (simp add: SYN_JSON_MAX_DEPTH_def word_less_nat_alt unat_word_ariths)

text \<open>Opening a bracket, writing inside it and closing it.\<close>

lemma appended_nested:
  assumes d: "jw_depth w < SYN_JSON_MAX_DEPTH"
    and inner: "\<And>t. jw_holds t (jw_open c w) \<Longrightarrow> jw_holds (t @ s) w1" "jw_depth w1 = jw_depth (jw_open c w)" "jw_capacity w1 = jw_capacity (jw_open c w)"
  shows "appended w (comma_text w @ c # s @ [e]) (jw_close e w1)"
proof -
  have "jw_holds (t @ comma_text w @ c # s @ [e]) (jw_close e w1)" if "jw_holds t w" for t
    using holds_close [OF inner(1) [OF holds_open [OF that d]], of e] by simp
  moreover have "jw_depth (jw_close e w1) = jw_depth w" using depth_inc [OF d] open_flags(1,2) [OF d, of c] inner(2) by (simp add: close_flags)
  ultimately show ?thesis using inner(3) open_flags(3) [of c w] by (simp add: appended_def close_flags)
qed

lemma level_below: "unat (jw_depth w) + n \<le> 8 \<Longrightarrow> 0 < n \<Longrightarrow> jw_depth w < SYN_JSON_MAX_DEPTH"
  by (simp add: SYN_JSON_MAX_DEPTH_def word_less_nat_alt)

lemma appended_bracket:
  assumes "unat (jw_depth w) + Suc n \<le> 8"
    and "unat (jw_depth (jw_open c w)) + n \<le> 8 \<Longrightarrow> xs \<noteq> [] \<Longrightarrow> appended (jw_open c w) (comma_text (jw_open c w) @ s) w1"
    and "xs = [] \<Longrightarrow> s = [] \<and> w1 = jw_open c w"
  shows "appended w (comma_text w @ c # s @ [e]) (jw_close e w1)"
proof -
  have d: "jw_depth w < SYN_JSON_MAX_DEPTH" using level_below [OF assms(1)] by simp
  have "(s = [] \<and> w1 = jw_open c w) \<or> appended (jw_open c w) s w1"
    using assms(1) assms(2) assms(3) depth_inc [OF d] open_flags(1,2) [OF d, of c] by (cases "xs = []") (simp_all add: comma_text_def)
  then show ?thesis by (intro appended_nested [OF d]) (auto simp: appended_def)
qed

lemma appended_key_puts: "appended w (comma_text w @ str_text k @ 0x3A # r) (jw_puts r (jw_putc 0x3A (jw_str k (jw_comma w))))"
  using appended_puts [OF appended_key, of w] by simp

lemma appended_comma_puts: "appended w (comma_text w @ r) (jw_puts r (jw_comma w))"
  by (rule appended_puts [OF holds_comma]) simp_all

lemma appended_trans: "appended w s w1 \<Longrightarrow> appended w1 (comma_text w1 @ r) w2 \<Longrightarrow> appended w (s @ 0x2C # r) w2"
  by (fastforce simp: appended_def comma_text_def)

lemma comma_after_key [simp]: "comma_text (syn_json_key k w) = []" "jw_depth (syn_json_key k w) = jw_depth w" "jw_capacity (syn_json_key k w) = jw_capacity w"
  by (simp_all add: comma_text_def syn_json_key_def)

lemma appended_after_key:
  assumes "appended (syn_json_key k w) s w'"
  shows "appended w (comma_text w @ str_text k @ 0x3A # s) w'"
proof -
  have "jw_holds (t @ comma_text w @ str_text k @ [0x3A]) (syn_json_key k w)" if "jw_holds t w" for t
    using appended_key [OF that] by (simp add: syn_json_key_def)
  then have "jw_holds (t @ comma_text w @ str_text k @ 0x3A # s) w'" if "jw_holds t w" for t
    using assms that by (fastforce simp: appended_def)
  then show ?thesis using assms by (simp add: appended_def)
qed

lemma write_appends:
  "json_within n v \<Longrightarrow> unat (jw_depth w) + n \<le> 8 \<Longrightarrow> appended w (comma_text w @ str_text k @ 0x3A # json_text v) (write_member k v w)"
  "members_within n ms \<Longrightarrow> unat (jw_depth w) + n \<le> 8 \<Longrightarrow> ms \<noteq> [] \<Longrightarrow> appended w (comma_text w @ members_text ms) (write_members ms w)"
  "json_within n v \<Longrightarrow> v \<noteq> JNull \<Longrightarrow> unat (jw_depth w) + n \<le> 8 \<Longrightarrow> appended w (comma_text w @ json_text v) (write_item v w)"
  "items_within n vs \<Longrightarrow> unat (jw_depth w) + n \<le> 8 \<Longrightarrow> vs \<noteq> [] \<Longrightarrow> appended w (comma_text w @ items_text vs) (write_items vs w)"
proof (induction k v w and ms w and v w and vs w arbitrary: n and n and n and n rule: write_member_write_members_write_item_write_items.induct)
  case (1 k s w)
  show ?case using appended_str [OF appended_key, of w] by (simp add: syn_json_key_str_def)
next
  case (6 k ms w)
  then obtain m where n: "n = Suc m" by (cases n) auto
  have "appended (syn_json_key k w) (comma_text (syn_json_key k w) @ 0x7B # members_text ms @ [0x7D]) (jw_close 0x7D (write_members ms (jw_open 0x7B (syn_json_key k w))))"
    by (rule appended_bracket [where n = m and xs = ms]) (use 6 n in \<open>auto simp: syn_json_obj_open_def\<close>)
  then show ?case using appended_after_key by (simp add: syn_json_obj_open_def syn_json_obj_close_def)
next
  case (7 k vs w)
  then obtain m where n: "n = Suc m" by (cases n) auto
  have "appended (syn_json_key k w) (comma_text (syn_json_key k w) @ 0x5B # items_text vs @ [0x5D]) (jw_close 0x5D (write_items vs (jw_open 0x5B (syn_json_key k w))))"
    by (rule appended_bracket [where n = m and xs = vs]) (use 7 n in \<open>auto simp: syn_json_arr_open_def\<close>)
  then show ?case using appended_after_key by (simp add: syn_json_arr_open_def syn_json_arr_close_def)
next
  case (9 k v ms w)
  have a: "appended w (comma_text w @ str_text k @ 0x3A # json_text v) (write_member k v w)" using "9.IH"(1) [of n] "9.prems" by simp
  show ?case
  proof (cases "ms = []")
    case False
    then have "appended (write_member k v w) (comma_text (write_member k v w) @ members_text ms) (write_members ms (write_member k v w))"
      using "9.IH"(2) [of n] "9.prems" a by (simp add: appended_def)
    then show ?thesis using appended_trans [OF a] False by simp
  qed (use a in simp)
next
  case (10 s w)
  show ?case using appended_str [OF holds_comma, of w] by (simp add: syn_json_val_str_def)
next
  case (15 ms w)
  then obtain m where n: "n = Suc m" by (cases n) auto
  show ?case using appended_bracket [of w m "0x7B" ms "members_text ms" "write_members ms (jw_open 0x7B w)" "0x7D"] 15 n
    by (auto simp: syn_json_obj_open_def syn_json_obj_close_def)
next
  case (16 vs w)
  then obtain m where n: "n = Suc m" by (cases n) auto
  show ?case using appended_bracket [of w m "0x5B" vs "items_text vs" "write_items vs (jw_open 0x5B w)" "0x5D"] 16 n
    by (auto simp: syn_json_arr_open_def syn_json_arr_close_def)
next
  case (18 v vs w)
  have a: "appended w (comma_text w @ json_text v) (write_item v w)" using "18.IH"(1) [of n] "18.prems" by simp
  show ?case
  proof (cases "vs = []")
    case False
    then have "appended (write_item v w) (comma_text (write_item v w) @ items_text vs) (write_items vs (write_item v w))"
      using "18.IH"(2) [of n] "18.prems" a by (simp add: appended_def)
    then show ?thesis using appended_trans [OF a] False by simp
  qed (use a in simp)
qed (simp_all add: appended_key_puts appended_comma_puts syn_json_key_int_def syn_json_key_uint_def syn_json_key_bool_def syn_json_key_null_def
  syn_json_val_int_def syn_json_val_uint_def syn_json_val_bool_def jw_int_def jw_uint_def)

lemma write_object_holds:
  assumes "members_within 7 ms" "buf \<noteq> []"
  shows "jw_holds (json_text (JObj ms)) (write_object ms (syn_json_init buf)) \<and> jw_capacity (write_object ms (syn_json_init buf)) = length buf"
proof -
  let ?i = "syn_json_init buf"
  have "appended ?i (comma_text ?i @ json_text (JObj ms)) (write_item (JObj ms) ?i)"
    by (rule write_appends(3) [where n = 8]) (use assms(1) in \<open>simp_all add: syn_json_init_def\<close>)
  then show ?thesis using holds_init [OF assms(2)] by (auto simp: appended_def write_object_def comma_text_def syn_json_init_def)
qed

text \<open>
  Writing a document of at most eight levels succeeds exactly when its text and the terminator fit the buffer; then the buffer holds that text, terminated. Otherwise it
  holds a terminated beginning of it, and nothing is written outside the buffer.
\<close>

theorem json_write_exact:
  assumes "members_within 7 ms" "buf \<noteq> []" "w = write_object ms (syn_json_init buf)" "t = json_text (JObj ms)"
  shows "length (syn_json_str w) = length buf \<and> (syn_json_ok w \<longleftrightarrow> length t < length buf)
    \<and> (syn_json_ok w \<longrightarrow> take (syn_json_len w + 1) (syn_json_str w) = t @ [0])
    \<and> (\<not> syn_json_ok w \<longrightarrow> (\<exists>r. t = take (syn_json_len w) (syn_json_str w) @ r)) \<and> syn_json_len w < length buf \<and> syn_json_str w ! syn_json_len w = 0"
proof -
  have "jw_holds t w \<and> jw_capacity w = length buf" using write_object_holds [OF assms(1,2)] assms(3,4) by simp
  then show ?thesis
    by (auto simp: jw_holds_def syn_json_str_def syn_json_ok_def syn_json_len_def take_Suc_conv_app_nth)
qed

declare jw_digits_loop.simps [simp del]

lemma digits_bound: "unat n < 10 ^ k \<Longrightarrow> length (jw_digits_loop n) \<le> k"
proof (induction k arbitrary: n)
  case 0
  then show ?case by (subst jw_digits_loop.simps) (simp add: word_gt_0 unat_eq_0)
next
  case (Suc k)
  have "unat (n div 10) < 10 ^ k" using Suc.prems by (simp add: unat_div less_mult_imp_div_less mult.commute)
  then show ?case using Suc.IH [of "n div 10"] by (subst jw_digits_loop.simps) simp
qed

text \<open>The local arrays \<^verbatim>\<open>tmp\<close> of \<^verbatim>\<open>jw_int\<close> (12 bytes) and \<^verbatim>\<open>jw_uint\<close> (11 bytes) are large enough for every number and its terminator.\<close>

lemma number_texts_fit: "length (int_text n) + 1 \<le> 12" "length (uint_text n) + 1 \<le> 11"
proof -
  have d: "length (jw_digits u) \<le> 10" for u
  proof -
    have "unat u < 2 ^ 32" using unsigned_less [of u] by simp
    then have "unat u < 10 ^ 10" by simp
    from digits_bound [OF this] show ?thesis by (simp add: jw_digits_def)
  qed
  show "length (int_text n) + 1 \<le> 12" "length (uint_text n) + 1 \<le> 11" using d [of n] d [of "- (n + 1) + 1"] by (auto simp: int_text_def uint_text_def Let_def)
qed

definition demo_members :: "(u8 list \<times> json) list" where
  "demo_members = [([0x61], JBool True)]"

theorem json_write_exact_witness:
  "syn_json_ok (write_object demo_members (syn_json_init (replicate 11 0xAA)))
    \<and> take 11 (syn_json_str (write_object demo_members (syn_json_init (replicate 11 0xAA)))) = [0x7B, 0x22, 0x61, 0x22, 0x3A, 0x74, 0x72, 0x75, 0x65, 0x7D, 0]
    \<and> \<not> syn_json_ok (write_object demo_members (syn_json_init (replicate 10 0xAA)))"
proof -
  have t: "json_text (JObj demo_members) = [0x7B, 0x22, 0x61, 0x22, 0x3A, 0x74, 0x72, 0x75, 0x65, 0x7D]" unfolding demo_members_def by code_simp
  have m: "members_within 7 demo_members" by (simp add: demo_members_def)
  note A = json_write_exact [OF m _ refl t [symmetric], of "replicate 11 0xAA"] and B = json_write_exact [OF m _ refl t [symmetric], of "replicate 10 0xAA"]
  have ok: "syn_json_ok (write_object demo_members (syn_json_init (replicate 11 0xAA)))" using A by simp
  let ?w = "write_object demo_members (syn_json_init (replicate 11 0xAA))"
  have w: "take (syn_json_len ?w + 1) (syn_json_str ?w) = [0x7B, 0x22, 0x61, 0x22, 0x3A, 0x74, 0x72, 0x75, 0x65, 0x7D, 0]" using A ok by simp
  have l: "length (syn_json_str ?w) = 11" "syn_json_len ?w < 11" using A by simp_all
  have "syn_json_len ?w + 1 = 11" using arg_cong [OF w, of length] l by simp
  then have "take 11 (syn_json_str ?w) = [0x7B, 0x22, 0x61, 0x22, 0x3A, 0x74, 0x72, 0x75, 0x65, 0x7D, 0]" using w by simp
  then show ?thesis using ok B by simp
qed

end
