(* ===== verification/Syn_Json_Read.thy ===== *)
theory Syn_Json_Read
  imports Syn_Prelude
begin

text \<open>
  The in-place JSON reader of \<^verbatim>\<open>util/syn_json_read.c\<close>. The document is the list \<open>b\<close> of the bytes at \<^verbatim>\<open>json\<close>, with at least one byte behind the \<open>e\<close> bytes that belong to the
  document; pointers into it are indices. A function that writes into it returns the new list. \<open>parse_members\<close>, the loop of \<^verbatim>\<open>parse_object\<close>
  with its recursion, is a partial function with value \<open>None\<close> where it does not return; a null pointer as its result is an inner \<open>None\<close>. Signed
  overflow in \<^verbatim>\<open>parse_int\<close> is modelled as wrap-around.
\<close>

datatype SYN_JsonType = SYN_JSON_NONE | SYN_JSON_STRING | SYN_JSON_NUMBER | SYN_JSON_BOOL | SYN_JSON_NULL | SYN_JSON_OBJECT | SYN_JSON_ARRAY

definition SYN_JSON_MAX_TOKENS :: nat where "SYN_JSON_MAX_TOKENS = 32"

record SYN_JsonToken =
  jt_type :: SYN_JsonType
  jt_key :: ptr
  jt_value :: ptr
  jt_int_val :: u32
  jt_depth :: u8

text \<open>\<open>jr_tokens\<close> are the first \<^verbatim>\<open>token_count\<close> entries of the token array.\<close>

record SYN_JsonReader =
  jr_tokens :: "SYN_JsonToken list"
  jr_valid :: bool

definition is_ws :: "u8 \<Rightarrow> bool" where
  "is_ws c \<longleftrightarrow> c = 0x20 \<or> c = 0x09 \<or> c = 0x0A \<or> c = 0x0D"

function skip_ws :: "u8 list \<Rightarrow> nat \<Rightarrow> nat \<Rightarrow> nat" where
  "skip_ws b e p = (if p < e \<and> is_ws (b ! p) then skip_ws b e (p + 1) else p)"
  by auto
termination by (relation "measure (\<lambda>(b, e, p). e - p)") auto

text \<open>The loop over digits; the list is what follows the pointer.\<close>

fun parse_digits :: "u8 list \<Rightarrow> u32 \<Rightarrow> u32" where
  "parse_digits (c # cs) val = (if 0x30 \<le> c \<and> c \<le> 0x39 then parse_digits cs (val * 10 + (ucast c - 0x30)) else val)"
| "parse_digits [] val = val"

definition parse_int :: "u8 list \<Rightarrow> u32" where
  "parse_int s = (if s \<noteq> [] \<and> hd s = 0x2D then - parse_digits (tl s) 0 else parse_digits s 0)"

text \<open>The loop over the characters of a string, which stops at the closing quote or at the end.\<close>

function string_end :: "u8 list \<Rightarrow> nat \<Rightarrow> nat \<Rightarrow> nat" where
  "string_end b e p =
     (if p < e
      then if b ! p = 0x5C then string_end b e (if p + 1 < e then p + 2 else p + 1)
           else if b ! p = 0x22 then p
           else string_end b e (p + 1)
      else p)"
  by auto
termination by (relation "measure (\<lambda>(b, e, p). e - p)") auto

definition parse_string :: "u8 list \<Rightarrow> nat \<Rightarrow> nat \<Rightarrow> (u8 list \<times> nat \<times> nat) option" where
  "parse_string b e p =
     (if p \<ge> e \<or> b ! p \<noteq> 0x22 then None
      else let q = string_end b e (p + 1) in if q < e then Some (b[q := 0], q + 1, p + 1) else None)"

lemma string_end_ge: "p \<le> string_end b e p"
proof (induction b e p rule: string_end.induct)
  case (1 b e p)
  show ?case
  proof (cases "p < e \<and> b ! p \<noteq> 0x22")
    case True
    have "p + 1 \<le> string_end b e (p + 1) \<or> b ! p = 0x5C" "b ! p = 0x5C \<Longrightarrow> p + 1 \<le> string_end b e (if p + 1 < e then p + 2 else p + 1)"
      using 1 True by (auto simp del: string_end.simps split: if_splits)
    then show ?thesis using True by (subst string_end.simps) (auto simp del: string_end.simps)
  next
    case False
    then show ?thesis by (subst string_end.simps) auto
  qed
qed

declare skip_ws.simps [simp del] string_end.simps [simp del]

function skip_nested :: "u8 list \<Rightarrow> nat \<Rightarrow> u8 \<Rightarrow> u8 \<Rightarrow> nat \<Rightarrow> nat \<Rightarrow> nat option" where
  "skip_nested b e op cl depth p =
     (if p < e \<and> depth > 0
      then if b ! p = 0x22
           then let q = string_end b e (p + 1) in skip_nested b e op cl depth (if q < e then q + 1 else q)
           else let depth = (if b ! p = op then depth + 1 else depth); depth = (if b ! p = cl then depth - 1 else depth)
                in skip_nested b e op cl depth (p + 1)
      else if depth = 0 then Some p else None)"
  by auto
termination
proof (relation "measure (\<lambda>(b, e, op, cl, depth, p). e - p)", goal_cases)
  case (2 b e op cl depth p q)
  then show ?case using string_end_ge [of "p + 1" b e] by auto
qed auto

function skip_scalar :: "u8 list \<Rightarrow> nat \<Rightarrow> nat \<Rightarrow> nat" where
  "skip_scalar b e p =
     (if p < e \<and> b ! p \<noteq> 0x2C \<and> b ! p \<noteq> 0x7D \<and> b ! p \<noteq> 0x5D \<and> \<not> is_ws (b ! p) then skip_scalar b e (p + 1) else p)"
  by auto
termination by (relation "measure (\<lambda>(b, e, p). e - p)") auto

declare skip_nested.simps [simp del] skip_scalar.simps [simp del]

definition skip_value :: "u8 list \<Rightarrow> nat \<Rightarrow> nat \<Rightarrow> nat option" where
  "skip_value b e p0 =
     (let p = skip_ws b e p0
      in if p \<ge> e then None
         else if b ! p = 0x22 then (let q = string_end b e (p + 1) in if q < e then Some (q + 1) else None)
         else if b ! p = 0x7B \<or> b ! p = 0x5B then skip_nested b e (b ! p) (if b ! p = 0x7B then 0x7D else 0x5D) 1 (p + 1)
         else Some (skip_scalar b e p))"

definition add_token :: "SYN_JsonToken \<Rightarrow> SYN_JsonReader \<Rightarrow> SYN_JsonReader" where
  "add_token tok r = r\<lparr>jr_tokens := jr_tokens r @ [tok]\<rparr>"

text \<open>The token of a number, truth value or null that occupies \<open>v\<close> to \<open>p\<close>, and the document while it is computed and afterwards.\<close>

definition scalar_token :: "u8 list \<Rightarrow> nat \<Rightarrow> nat \<Rightarrow> nat \<Rightarrow> u8 \<Rightarrow> SYN_JsonToken" where
  "scalar_token b key v p depth =
     (let tok = (\<lambda>ty i. \<lparr>jt_type = ty, jt_key = Some key, jt_value = Some v, jt_int_val = i, jt_depth = depth\<rparr>)
      in if b ! v = of_char CHR ''t'' \<or> b ! v = of_char CHR ''f'' then tok SYN_JSON_BOOL (if b ! v = of_char CHR ''t'' then 1 else 0)
         else if p - v = 4 \<and> take 4 (drop v b) = map of_char ''null'' then tok SYN_JSON_NULL 0
         else tok SYN_JSON_NUMBER (parse_int (drop v b)))"

definition parse_scalar :: "u8 list \<Rightarrow> SYN_JsonReader \<Rightarrow> nat \<Rightarrow> nat \<Rightarrow> nat \<Rightarrow> u8 \<Rightarrow> u8 list \<times> SYN_JsonReader" where
  "parse_scalar b r key v p depth =
     (let saved = b ! p; b = b[p := 0]; r = add_token (scalar_token b key v p depth) r
      in (if saved \<noteq> 0x2C \<and> saved \<noteq> 0x7D \<and> saved \<noteq> 0x5D then b else b[p := saved], r))"

definition object_entry :: "u8 list \<Rightarrow> nat \<Rightarrow> nat \<Rightarrow> nat option" where
  "object_entry b e p0 = (let p = skip_ws b e p0 in if p \<ge> e \<or> b ! p \<noteq> 0x7B then None else Some (p + 1))"

text \<open>The key of a member and the colon: the document, the key and the position of the value.\<close>

definition parse_key :: "u8 list \<Rightarrow> nat \<Rightarrow> nat \<Rightarrow> u8 list \<times> (nat \<times> nat) option" where
  "parse_key b e p =
     (case parse_string b e p of
        None \<Rightarrow> (b, None)
      | Some (b, p, key) \<Rightarrow>
          let p = skip_ws b e p
          in if p \<ge> e \<or> b ! p \<noteq> 0x3A then (b, None)
             else let p = skip_ws b e (p + 1) in if p \<ge> e then (b, None) else (b, Some (key, p)))"

definition marker_token :: "SYN_JsonType \<Rightarrow> nat \<Rightarrow> u8 \<Rightarrow> SYN_JsonToken" where
  "marker_token ty key depth = \<lparr>jt_type = ty, jt_key = Some key, jt_value = None, jt_int_val = 0, jt_depth = depth\<rparr>"

text \<open>A value that is not an object: the document, the reader and the position behind it.\<close>

definition parse_flat :: "u8 list \<Rightarrow> nat \<Rightarrow> nat \<Rightarrow> nat \<Rightarrow> u8 \<Rightarrow> SYN_JsonReader \<Rightarrow> u8 list \<times> SYN_JsonReader \<times> nat option" where
  "parse_flat b e p key depth r =
     (if b ! p = 0x5B then (b, add_token (marker_token SYN_JSON_ARRAY key depth) r, skip_value b e p)
      else if b ! p = 0x22
      then (case parse_string b e p of
              None \<Rightarrow> (b, r, None)
            | Some (b, p, val) \<Rightarrow>
                (b, add_token \<lparr>jt_type = SYN_JSON_STRING, jt_key = Some key, jt_value = Some val, jt_int_val = 0, jt_depth = depth\<rparr> r, Some p))
      else (case skip_value b e p of
              None \<Rightarrow> (b, r, None)
            | Some q \<Rightarrow> (case parse_scalar b r key p q depth of (b, r) \<Rightarrow> (b, r, Some q))))"

text \<open>After a value: \<open>None\<close> is an error, \<open>Some (p, True)\<close> another member at \<open>p\<close>, \<open>Some (p, False)\<close> the end of the object.\<close>

definition member_end :: "u8 list \<Rightarrow> nat \<Rightarrow> nat \<Rightarrow> (nat \<times> bool) option" where
  "member_end b e p0 =
     (let p = skip_ws b e p0
      in if p \<ge> e then None else if b ! p = 0x2C then Some (p + 1, True) else if b ! p = 0x7D then Some (p + 1, False) else None)"

partial_function (option) parse_members ::
  "nat \<Rightarrow> u8 \<Rightarrow> u8 list \<Rightarrow> SYN_JsonReader \<Rightarrow> nat \<Rightarrow> (u8 list \<times> SYN_JsonReader \<times> nat option) option" where
  "parse_members e depth b r p0 =
     (let p = skip_ws b e p0
      in if p \<ge> e then Some (b, r, None)
         else if b ! p = 0x7D then Some (b, r, Some (p + 1))
         else case parse_key b e p of
                (b, None) \<Rightarrow> Some (b, r, None)
              | (b, Some (key, p)) \<Rightarrow>
                  Option.bind
                    (if length (jr_tokens r) \<ge> SYN_JSON_MAX_TOKENS then Some (b, r, skip_value b e p)
                     else if b ! p = 0x7B
                     then let r = add_token (marker_token SYN_JSON_OBJECT key depth) r
                          in (case object_entry b e p of None \<Rightarrow> Some (b, r, None) | Some p \<Rightarrow> parse_members e (depth + 1) b r p)
                     else Some (parse_flat b e p key depth r))
                    (\<lambda>(b, r, q). case q of
                       None \<Rightarrow> Some (b, r, None)
                     | Some p \<Rightarrow> (case member_end b e p of
                         None \<Rightarrow> Some (b, r, None)
                       | Some (p, go_on) \<Rightarrow> if go_on then parse_members e depth b r p else Some (b, r, Some p))))"

definition syn_json_parse :: "SYN_JsonReader \<Rightarrow> u8 list \<Rightarrow> nat \<Rightarrow> (bool \<times> SYN_JsonReader \<times> u8 list) option" where
  "syn_json_parse r0 b e =
     (if e = 0 then Some (False, r0, b)
      else let r = \<lparr>jr_tokens = [], jr_valid = False\<rparr>; p = skip_ws b e 0
      in if p \<ge> e \<or> b ! p \<noteq> 0x7B then Some (False, r, b)
         else case object_entry b e p of
                None \<Rightarrow> Some (False, r, b)
              | Some p \<Rightarrow> (case parse_members e 0 b r p of
                  None \<Rightarrow> None
                | Some (b, r, q) \<Rightarrow> Some (q \<noteq> None, r\<lparr>jr_valid := q \<noteq> None\<rparr>, b)))"

text \<open>The C string that starts at an index.\<close>

definition cstr :: "u8 list \<Rightarrow> nat \<Rightarrow> u8 list" where
  "cstr b i = takeWhile (\<lambda>c. c \<noteq> 0) (drop i b)"

definition has_key :: "u8 list \<Rightarrow> u8 list \<Rightarrow> SYN_JsonToken \<Rightarrow> bool" where
  "has_key b key tok \<longleftrightarrow> (case jt_key tok of None \<Rightarrow> False | Some k \<Rightarrow> cstr b k = key)"

definition syn_json_find :: "u8 list \<Rightarrow> SYN_JsonReader \<Rightarrow> u8 list \<Rightarrow> SYN_JsonToken option" where
  "syn_json_find b r key =
     (if \<not> jr_valid r then None
      else if 0x2E \<notin> set key then find (\<lambda>tok. jt_depth tok = 0 \<and> has_key b key tok) (jr_tokens r)
      else let parent = takeWhile (\<lambda>c. c \<noteq> 0x2E) key; child_key = tl (dropWhile (\<lambda>c. c \<noteq> 0x2E) key)
           in case dropWhile (\<lambda>tok. \<not> (jt_depth tok = 0 \<and> jt_type tok = SYN_JSON_OBJECT \<and> has_key b parent tok)) (jr_tokens r) of
                [] \<Rightarrow> None
              | _ # rest \<Rightarrow> find (\<lambda>tok. jt_depth tok = 1 \<and> has_key b child_key tok) (takeWhile (\<lambda>tok. \<not> jt_depth tok < 1) rest))"

text \<open>The string written to \<^verbatim>\<open>out\<close>, terminator included; \<open>None\<close> is the result \<^verbatim>\<open>false\<close>.\<close>

definition syn_json_get_str :: "u8 list \<Rightarrow> SYN_JsonReader \<Rightarrow> u8 list \<Rightarrow> nat \<Rightarrow> u8 list option" where
  "syn_json_get_str b r key out_sz =
     (if out_sz = 0 then None
      else case syn_json_find b r key of
             None \<Rightarrow> None
           | Some tok \<Rightarrow> if jt_type tok \<noteq> SYN_JSON_STRING then None
               else (case jt_value tok of None \<Rightarrow> None
                     | Some v \<Rightarrow> let vlen = (if length (cstr b v) \<ge> out_sz then out_sz - 1 else length (cstr b v)) in Some (take vlen (cstr b v) @ [0])))"

definition syn_json_get_int :: "u8 list \<Rightarrow> SYN_JsonReader \<Rightarrow> u8 list \<Rightarrow> u32 option" where
  "syn_json_get_int b r key =
     (case syn_json_find b r key of None \<Rightarrow> None | Some tok \<Rightarrow> if jt_type tok \<noteq> SYN_JSON_NUMBER then None else Some (jt_int_val tok))"

definition syn_json_get_bool :: "u8 list \<Rightarrow> SYN_JsonReader \<Rightarrow> u8 list \<Rightarrow> bool option" where
  "syn_json_get_bool b r key =
     (case syn_json_find b r key of None \<Rightarrow> None | Some tok \<Rightarrow> if jt_type tok \<noteq> SYN_JSON_BOOL then None else Some (jt_int_val tok \<noteq> 0))"

definition syn_json_is_null :: "u8 list \<Rightarrow> SYN_JsonReader \<Rightarrow> u8 list \<Rightarrow> bool" where
  "syn_json_is_null b r key = (case syn_json_find b r key of None \<Rightarrow> False | Some tok \<Rightarrow> jt_type tok = SYN_JSON_NULL)"

definition syn_json_get_type :: "u8 list \<Rightarrow> SYN_JsonReader \<Rightarrow> u8 list \<Rightarrow> SYN_JsonType" where
  "syn_json_get_type b r key = (case syn_json_find b r key of None \<Rightarrow> SYN_JSON_NONE | Some tok \<Rightarrow> jt_type tok)"

subsection \<open>The reader returns and stays inside the document\<close>

lemma skip_ws_bounds: "p \<le> e \<Longrightarrow> p \<le> skip_ws b e p \<and> skip_ws b e p \<le> e"
proof (induction b e p rule: skip_ws.induct)
  case (1 b e p)
  show ?case
  proof (cases "p < e \<and> is_ws (b ! p)")
    case True
    then show ?thesis using 1 by (subst (1 2) skip_ws.simps) auto
  next
    case False
    then show ?thesis using 1(2) by (subst (1 2) skip_ws.simps) auto
  qed
qed

lemma skip_scalar_bounds: "p \<le> e \<Longrightarrow> p \<le> skip_scalar b e p \<and> skip_scalar b e p \<le> e"
proof (induction b e p rule: skip_scalar.induct)
  case (1 b e p)
  show ?case
  proof (cases "p < e \<and> b ! p \<noteq> 0x2C \<and> b ! p \<noteq> 0x7D \<and> b ! p \<noteq> 0x5D \<and> \<not> is_ws (b ! p)")
    case True
    then show ?thesis using 1 by (subst (1 2) skip_scalar.simps) auto
  next
    case False
    then show ?thesis using 1(2) by (subst (1 2) skip_scalar.simps) auto
  qed
qed

lemma string_end_le: "p \<le> e \<Longrightarrow> string_end b e p \<le> e"
proof (induction b e p rule: string_end.induct)
  case (1 b e p)
  show ?case
  proof (cases "p < e \<and> b ! p \<noteq> 0x22")
    case True
    then show ?thesis using 1 by (subst string_end.simps) auto
  next
    case False
    then show ?thesis using 1 by (subst string_end.simps) auto
  qed
qed

lemma skip_nested_bounds: "skip_nested b e op cl d p = Some q \<Longrightarrow> p \<le> e \<Longrightarrow> p \<le> q \<and> q \<le> e"
proof (induction b e op cl d p rule: skip_nested.induct)
  case (1 b e op cl d p)
  let ?s = "string_end b e (p + 1)"
  consider (stop) "\<not> (p < e \<and> d > 0)" | (str) "p < e" "d > 0" "b ! p = 0x22" | (char) "p < e" "d > 0" "b ! p \<noteq> 0x22" by blast
  then show ?case
  proof cases
    case stop
    then show ?thesis using "1.prems" by (subst (asm) skip_nested.simps) (auto split: if_splits)
  next
    case str
    have s: "p + 1 \<le> ?s" "?s \<le> e" using string_end_ge [of "p + 1" b e] string_end_le [of "p + 1" e b] str by auto
    then have "skip_nested b e op cl d (if ?s < e then ?s + 1 else ?s) = Some q" using "1.prems"(1) str by (subst (asm) skip_nested.simps) (auto simp: Let_def)
    then show ?thesis using "1.IH"(1) [OF _ str(3) refl] str s by (auto split: if_splits)
  next
    case char
    then have "skip_nested b e op cl (if b ! p = cl then (if b ! p = op then d + 1 else d) - 1 else (if b ! p = op then d + 1 else d)) (p + 1) = Some q"
      using "1.prems"(1) by (subst (asm) skip_nested.simps) (simp add: Let_def)
    then show ?thesis using "1.IH"(2) [OF _ char(3) refl refl] char by fastforce
  qed
qed

lemma skip_value_bounds:
  assumes "skip_value b e p = Some q" "p \<le> e"
  shows "p \<le> q \<and> q \<le> e"
proof -
  let ?p = "skip_ws b e p"
  have p: "p \<le> ?p" "?p < e" using skip_ws_bounds [OF assms(2), of b] assms(1) by (auto simp: skip_value_def Let_def split: if_splits)
  have s: "?p + 1 \<le> string_end b e (?p + 1)" "string_end b e (?p + 1) \<le> e" using string_end_ge [of "?p + 1" b e] string_end_le [of "?p + 1" e b] p by auto
  have n: "?p + 1 \<le> x \<and> x \<le> e" if "skip_nested b e c d 1 (?p + 1) = Some x" for c d x using skip_nested_bounds [OF that] p by simp
  have "?p \<le> skip_scalar b e ?p \<and> skip_scalar b e ?p \<le> e" using skip_scalar_bounds [of ?p e b] p by simp
  then show ?thesis using assms(1) p s n by (fastforce simp: skip_value_def Let_def split: if_splits)
qed

lemma parse_string_Some:
  assumes "parse_string b e p = Some (b', p', k)"
  obtains q where "p < e" "k = p + 1" "k \<le> q" "q < e" "b' = b[q := 0]" "p' = q + 1"
  using assms string_end_ge [of "p + 1" b e] by (auto simp: parse_string_def Let_def split: if_splits)

text \<open>A token whose strings end before position \<open>p\<close>.\<close>

definition ended :: "u8 list \<Rightarrow> nat \<Rightarrow> ptr \<Rightarrow> bool" where
  "ended b p i \<longleftrightarrow> (\<exists>k q. i = Some k \<and> k \<le> q \<and> q < p \<and> b ! q = 0)"

definition tok_ok :: "u8 list \<Rightarrow> nat \<Rightarrow> SYN_JsonToken \<Rightarrow> bool" where
  "tok_ok b p tok \<longleftrightarrow> ended b p (jt_key tok) \<and> (jt_type tok = SYN_JSON_STRING \<longrightarrow> ended b p (jt_value tok))"

lemma ended_mono: "ended b p i \<Longrightarrow> p \<le> p' \<Longrightarrow> (\<And>j. j < p \<Longrightarrow> b' ! j = b ! j) \<Longrightarrow> ended b' p' i"
  by (fastforce simp: ended_def)

lemma tok_ok_mono: "tok_ok b p tok \<Longrightarrow> p \<le> p' \<Longrightarrow> (\<And>j. j < p \<Longrightarrow> b' ! j = b ! j) \<Longrightarrow> tok_ok b' p' tok"
  using ended_mono by (auto simp: tok_ok_def)

text \<open>A step from position \<open>p\<close>: it writes only between \<open>p\<close> and \<open>e\<close>, adds sound tokens and moves forward.\<close>

definition json_step :: "nat \<Rightarrow> nat \<Rightarrow> u8 list \<Rightarrow> SYN_JsonReader \<Rightarrow> u8 list \<times> SYN_JsonReader \<times> nat option \<Rightarrow> bool" where
  "json_step e p b r = (\<lambda>(b', r', q). length b' = length b \<and> (\<forall>i. i < p \<or> e < i \<longrightarrow> b' ! i = b ! i)
     \<and> (case q of None \<Rightarrow> True | Some q \<Rightarrow> p \<le> q \<and> q \<le> e)
     \<and> (\<exists>new. jr_tokens r' = jr_tokens r @ new \<and> (\<forall>tok\<in>set new. tok_ok b' (case q of None \<Rightarrow> e | Some q \<Rightarrow> q) tok))
     \<and> (length (jr_tokens r) \<le> SYN_JSON_MAX_TOKENS \<longrightarrow> length (jr_tokens r') \<le> SYN_JSON_MAX_TOKENS))"

lemma json_step_fail: "json_step e p b r (b, r, None)"
  by (simp add: json_step_def)

lemma json_step_trans:
  assumes "json_step e p b r (b1, r1, Some p1)" "json_step e p1 b1 r1 (b2, r2, q)" "p0 \<le> p"
  shows "json_step e p0 b r (b2, r2, q)"
proof -
  obtain n1 where n1: "jr_tokens r1 = jr_tokens r @ n1" "\<forall>tok\<in>set n1. tok_ok b1 p1 tok" using assms(1) by (auto simp: json_step_def)
  obtain n2 where n2: "jr_tokens r2 = jr_tokens r1 @ n2" "\<forall>tok\<in>set n2. tok_ok b2 (case q of None \<Rightarrow> e | Some q \<Rightarrow> q) tok"
    using assms(2) by (auto simp: json_step_def)
  have p: "p \<le> p1" "p1 \<le> e" "\<And>q'. q = Some q' \<Longrightarrow> p1 \<le> q' \<and> q' \<le> e" using assms(1,2) by (auto simp: json_step_def)
  have "tok_ok b2 (case q of None \<Rightarrow> e | Some q \<Rightarrow> q) tok" if "tok \<in> set n1" for tok
  proof (rule tok_ok_mono [of b1 p1])
    show "tok_ok b1 p1 tok" using n1(2) that by blast
    show "p1 \<le> (case q of None \<Rightarrow> e | Some q \<Rightarrow> q)" using p(2,3) by (cases q) auto
    show "b2 ! j = b1 ! j" if "j < p1" for j using assms(2) that by (simp add: json_step_def)
  qed
  then have "\<exists>new. jr_tokens r2 = jr_tokens r @ new \<and> (\<forall>tok\<in>set new. tok_ok b2 (case q of None \<Rightarrow> e | Some q \<Rightarrow> q) tok)"
    using n1(1) n2 by (intro exI [of _ "n1 @ n2"]) auto
  moreover have "\<forall>i. i < p0 \<or> e < i \<longrightarrow> b2 ! i = b ! i" using assms p(1) by (simp add: json_step_def)
  moreover have "case q of None \<Rightarrow> True | Some q \<Rightarrow> p0 \<le> q \<and> q \<le> e" using assms(3) p by (auto split: option.splits)
  ultimately show ?thesis using assms(1,2) by (simp add: json_step_def)
qed

lemma parse_key_step:
  assumes "parse_key b e p = (b', res)" "e < length b"
  shows "res = None \<Longrightarrow> json_step e p b r (b', r, None)"
    and "res = Some (k, p') \<Longrightarrow> p < p' \<and> p' < e \<and> ended b' p' (Some k) \<and> json_step e p b r (b', r, Some p')"
proof -
  have "(res = None \<longrightarrow> json_step e p b r (b', r, None))
    \<and> (res = Some (k, p') \<longrightarrow> p < p' \<and> p' < e \<and> ended b' p' (Some k) \<and> json_step e p b r (b', r, Some p'))"
  proof (cases "parse_string b e p")
    case None
    then show ?thesis using assms(1) json_step_fail by (auto simp: parse_key_def)
  next
    case (Some s)
    then obtain b1 p1 k1 where s: "parse_string b e p = Some (b1, p1, k1)" by (cases s) auto
    then obtain q where q: "p < e" "k1 = p + 1" "k1 \<le> q" "q < e" "b1 = b[q := 0]" "p1 = q + 1" by (rule parse_string_Some)
    have b': "b' = b1" using assms(1) s by (auto simp: parse_key_def Let_def split: if_splits)
    have w1: "p1 \<le> skip_ws b1 e p1" "skip_ws b1 e p1 \<le> e" using skip_ws_bounds [of p1 e b1] q by auto
    have w2: "x < e \<Longrightarrow> x + 1 \<le> skip_ws b1 e (x + 1)" for x using skip_ws_bounds [of "x + 1" e b1] by auto
    have P: "p1 < p'" "p' < e" "k = k1" if "res = Some (k, p')"
      using assms(1) s that w1 w2 [of "skip_ws b1 e p1"] by (fastforce simp: parse_key_def Let_def split: if_splits)+
    have "ended b1 p' (Some k)" if "res = Some (k, p')" and "q < length b"
      using P [OF that(1)] q that(2) by (auto simp: ended_def intro!: exI [of _ q])
    moreover have "q < length b" using q assms(2) by simp
    moreover have "json_step e p b r (b1, r, None)" using q by (auto simp: json_step_def nth_list_update)
    moreover have "json_step e p b r (b1, r, Some p')" if "res = Some (k, p')" using P [OF that] q by (auto simp: json_step_def nth_list_update)
    ultimately show ?thesis using b' P q by auto
  qed
  then show "res = None \<Longrightarrow> json_step e p b r (b', r, None)"
    and "res = Some (k, p') \<Longrightarrow> p < p' \<and> p' < e \<and> ended b' p' (Some k) \<and> json_step e p b r (b', r, Some p')" by auto
qed

lemma json_step_token:
  assumes "p \<le> q" "q \<le> e" "length b' = length b" "\<And>i. i < p \<or> e < i \<Longrightarrow> b' ! i = b ! i" "ended b p (Some key)" "jt_key tok = Some key"
    and "jt_type tok = SYN_JSON_STRING \<Longrightarrow> ended b' q (jt_value tok)" "length (jr_tokens r) < SYN_JSON_MAX_TOKENS"
  shows "json_step e p b r (b', add_token tok r, Some q)"
proof -
  have "ended b' q (Some key)" by (rule ended_mono [OF assms(5,1)]) (use assms(4) in blast)
  then show ?thesis using assms by (simp add: json_step_def add_token_def tok_ok_def)
qed

lemma json_step_none: "json_step e p b r (b', r', Some q) \<Longrightarrow> json_step e p b r (b', r', None)"
  using tok_ok_mono [where b = b' and b' = b' and p' = e] by (fastforce simp: json_step_def)

lemma parse_flat_step:
  assumes "p < e" "e < length b" "ended b p (Some key)" "length (jr_tokens r) < SYN_JSON_MAX_TOKENS"
  shows "json_step e p b r (parse_flat b e p key d r)"
proof -
  consider (arr) "b ! p = 0x5B" | (str) "b ! p = 0x22" | (sc) "b ! p \<noteq> 0x5B" "b ! p \<noteq> 0x22" by blast
  then show ?thesis
  proof cases
    case arr
    have t: "json_step e p b r (b, add_token (marker_token SYN_JSON_ARRAY key d) r, Some q)" if "p \<le> q" "q \<le> e" for q
      by (rule json_step_token [OF that refl refl assms(3) _ _ assms(4)]) (simp_all add: marker_token_def)
    show ?thesis
    proof (cases "skip_value b e p")
      case None
      then show ?thesis using arr json_step_none [OF t [of p]] assms(1) by (simp add: parse_flat_def)
    next
      case (Some q)
      then show ?thesis using arr t [of q] skip_value_bounds [OF Some] assms(1) by (simp add: parse_flat_def)
    qed
  next
    case str
    show ?thesis
    proof (cases "parse_string b e p")
      case None
      then show ?thesis using str json_step_fail by (simp add: parse_flat_def)
    next
      case (Some s)
      then obtain b1 p1 v where s: "parse_string b e p = Some (b1, p1, v)" by (cases s) auto
      then obtain q where q: "p < e" "v = p + 1" "v \<le> q" "q < e" "b1 = b[q := 0]" "p1 = q + 1" by (rule parse_string_Some)
      have "json_step e p b r (b1, add_token \<lparr>jt_type = SYN_JSON_STRING, jt_key = Some key, jt_value = Some v, jt_int_val = 0, jt_depth = d\<rparr> r, Some p1)"
      proof (rule json_step_token [OF _ _ _ _ assms(3) _ _ assms(4)])
        show "ended b1 p1 (jt_value \<lparr>jt_type = SYN_JSON_STRING, jt_key = Some key, jt_value = Some v, jt_int_val = 0, jt_depth = d\<rparr>)"
          using q assms(2) by (auto simp: ended_def intro!: exI [of _ q])
      qed (use q in \<open>auto simp: nth_list_update\<close>)
      then show ?thesis using str s by (simp add: parse_flat_def)
    qed
  next
    case sc
    show ?thesis
    proof (cases "skip_value b e p")
      case None
      then show ?thesis using sc json_step_fail by (simp add: parse_flat_def)
    next
      case (Some q)
      have q: "p \<le> q" "q \<le> e" using skip_value_bounds [OF Some] assms(1) by auto
      have "\<exists>b1 tok. parse_scalar b r key p q d = (b1, add_token tok r) \<and> length b1 = length b \<and> (\<forall>i. i < p \<or> e < i \<longrightarrow> b1 ! i = b ! i)
          \<and> jt_key tok = Some key \<and> jt_type tok \<noteq> SYN_JSON_STRING"
        using q by (auto simp: parse_scalar_def scalar_token_def Let_def nth_list_update)
      then obtain b1 tok where "parse_scalar b r key p q d = (b1, add_token tok r)" "length b1 = length b" "\<forall>i. i < p \<or> e < i \<longrightarrow> b1 ! i = b ! i"
          "jt_key tok = Some key" "jt_type tok \<noteq> SYN_JSON_STRING" by blast
      moreover from this have "json_step e p b r (b1, add_token tok r, Some q)"
        by (intro json_step_token [OF q _ _ assms(3) _ _ assms(4)]) auto
      ultimately show ?thesis using sc Some by (simp add: parse_flat_def)
    qed
  qed
qed

lemma json_step_pos: "json_step e p b r (b', r', Some q) \<Longrightarrow> q \<le> q' \<Longrightarrow> q' \<le> e \<Longrightarrow> json_step e p b r (b', r', Some q')"
  using tok_ok_mono [where b = b' and b' = b' and p = q and p' = q'] by (fastforce simp: json_step_def)

lemma json_step_marker:
  "ended b p (Some key) \<Longrightarrow> p \<le> e \<Longrightarrow> length (jr_tokens r) < SYN_JSON_MAX_TOKENS \<Longrightarrow> json_step e p b r (b, add_token (marker_token ty key d) r, Some p)"
  if "ty \<noteq> SYN_JSON_STRING"
  by (rule json_step_token) (use that in \<open>simp_all add: marker_token_def\<close>)

lemma object_entry_pos: "object_entry b e p = Some q \<Longrightarrow> p \<le> e \<Longrightarrow> p < q \<and> q \<le> e"
  using skip_ws_bounds [of p e b] by (auto simp: object_entry_def Let_def split: if_splits)

lemma member_end_pos: "member_end b e p = Some (q, m) \<Longrightarrow> p \<le> e \<Longrightarrow> p < q \<and> q \<le> e"
  using skip_ws_bounds [of p e b] by (auto simp: member_end_def Let_def split: if_splits)

text \<open>What is done with the value of a member; \<open>rec\<close> stands for the recursive call.\<close>

definition member_value where
  "member_value rec e d b r key p =
     (if length (jr_tokens r) \<ge> SYN_JSON_MAX_TOKENS then Some (b, r, skip_value b e p)
      else if b ! p = 0x7B
      then let r = add_token (marker_token SYN_JSON_OBJECT key d) r
           in (case object_entry b e p of None \<Rightarrow> Some (b, r, None) | Some p \<Rightarrow> rec e (d + 1) b r p)
      else Some (parse_flat b e p key d r))"

lemma member_value_step:
  assumes "p < e" "e < length b" "ended b p (Some key)"
    and rec: "\<And>d r q. p < q \<Longrightarrow> q \<le> e \<Longrightarrow> \<exists>res. rec e d b r q = Some res \<and> json_step e q b r res"
  shows "\<exists>res. member_value rec e d b r key p = Some res \<and> json_step e p b r res"
proof -
  consider (full) "length (jr_tokens r) \<ge> SYN_JSON_MAX_TOKENS" | (obj) "length (jr_tokens r) < SYN_JSON_MAX_TOKENS" "b ! p = 0x7B"
    | (flat) "length (jr_tokens r) < SYN_JSON_MAX_TOKENS" "b ! p \<noteq> 0x7B" by linarith
  then show ?thesis
  proof cases
    case full
    have "json_step e p b r (b, r, skip_value b e p)"
      using skip_value_bounds [of b e p] assms(1) by (auto simp: json_step_def split: option.splits)
    then show ?thesis using full by (simp add: member_value_def)
  next
    case flat
    then show ?thesis using parse_flat_step [OF assms(1-3)] by (simp add: member_value_def)
  next
    case obj
    let ?r = "add_token (marker_token SYN_JSON_OBJECT key d) r"
    have m: "json_step e p b r (b, ?r, Some p)" by (rule json_step_marker [OF _ assms(3)]) (use obj assms(1) in simp_all)
    show ?thesis
    proof (cases "object_entry b e p")
      case None
      then show ?thesis using obj json_step_none [OF m] by (simp add: member_value_def Let_def)
    next
      case (Some q)
      have q: "p < q" "q \<le> e" using object_entry_pos [OF Some] assms(1) by auto
      then obtain b1 r1 x where x: "rec e (d + 1) b ?r q = Some (b1, r1, x)" "json_step e q b ?r (b1, r1, x)" using rec [of q "d + 1" ?r] by (metis prod_cases3)
      have "json_step e p b r (b, ?r, Some q)" using json_step_pos [OF m] q by simp
      then have "json_step e p b r (b1, r1, x)" using json_step_trans x(2) by blast
      then show ?thesis using obj Some x(1) by (simp add: member_value_def Let_def)
    qed
  qed
qed

text \<open>What follows a value.\<close>

definition member_next where
  "member_next rec e d = (\<lambda>(b, r, q). case q of
     None \<Rightarrow> Some (b, r, None)
   | Some p \<Rightarrow> (case member_end b e p of
       None \<Rightarrow> Some (b, r, None)
     | Some (p, go_on) \<Rightarrow> if go_on then rec e d b r p else Some (b, r, Some p)))"

lemma member_next_step:
  assumes step: "json_step e p0 b r (b2, r2, q)"
    and rec: "\<And>p2 p. q = Some p2 \<Longrightarrow> p2 < p \<Longrightarrow> p \<le> e \<Longrightarrow> \<exists>res. rec e d b2 r2 p = Some res \<and> json_step e p b2 r2 res"
  shows "\<exists>res. member_next rec e d (b2, r2, q) = Some res \<and> json_step e p0 b r res"
proof (cases q)
  case None
  then show ?thesis using step by (simp add: member_next_def)
next
  case (Some p2)
  have p2: "p2 \<le> e" using step Some by (simp add: json_step_def)
  show ?thesis
  proof (cases "member_end b2 e p2")
    case None
    then show ?thesis using Some step json_step_none by (simp add: member_next_def)
  next
    case m: (Some m)
    then obtain p3 go_on where m: "member_end b2 e p2 = Some (p3, go_on)" by (cases m) auto
    have p3: "p2 < p3" "p3 \<le> e" using member_end_pos [OF m p2] by auto
    have V: "json_step e p0 b r (b2, r2, Some p3)" using json_step_pos [OF _ _ p3(2)] step Some p3(1) by simp
    obtain b3 r3 q3 where "rec e d b2 r2 p3 = Some (b3, r3, q3)" "json_step e p3 b2 r2 (b3, r3, q3)" using rec [OF Some p3] by (metis prod_cases3)
    then show ?thesis using Some m V json_step_trans [OF V] by (simp add: member_next_def)
  qed
qed

lemma parse_members_unfold:
  "parse_members e d b r p0 =
     (let p = skip_ws b e p0
      in if p \<ge> e then Some (b, r, None)
         else if b ! p = 0x7D then Some (b, r, Some (p + 1))
         else case parse_key b e p of
                (b, None) \<Rightarrow> Some (b, r, None)
              | (b, Some (key, p)) \<Rightarrow> Option.bind (member_value parse_members e d b r key p) (member_next parse_members e d))"
  by (subst parse_members.simps) (simp only: member_value_def member_next_def)

lemma json_step_length: "json_step e p b r (b', r', q) \<Longrightarrow> length b' = length b"
  by (simp add: json_step_def)

lemma parse_members_step: "p0 \<le> e \<Longrightarrow> e < length b \<Longrightarrow> \<exists>res. parse_members e d b r p0 = Some res \<and> json_step e p0 b r res"
proof (induction "e - p0" arbitrary: p0 b r d rule: less_induct)
  case less
  let ?p = "skip_ws b e p0"
  have p: "p0 \<le> ?p" "?p \<le> e" using skip_ws_bounds [OF less.prems(1)] by auto
  obtain b1 kr where k: "parse_key b e ?p = (b1, kr)" by force
  consider (stop) "?p = e" | (brace) "?p < e" "b ! ?p = 0x7D" | (nokey) "?p < e" "b ! ?p \<noteq> 0x7D" "kr = None"
    | (key) key p1 where "?p < e" "b ! ?p \<noteq> 0x7D" "kr = Some (key, p1)" using p(2) by (cases kr) (auto simp: le_less)
  then show ?case
  proof cases
    case stop
    then show ?thesis using json_step_fail by (subst parse_members_unfold) (simp add: Let_def)
  next
    case brace
    then have "json_step e p0 b r (b, r, Some (?p + 1))" using p by (simp add: json_step_def)
    then show ?thesis using brace by (subst parse_members_unfold) (simp add: Let_def)
  next
    case nokey
    have "json_step e ?p b r (b1, r, None)" using parse_key_step(1) [OF k less.prems(2)] nokey by blast
    then have "json_step e p0 b r (b1, r, None)" using p(1) by (simp add: json_step_def)
    then show ?thesis using nokey k by (subst parse_members_unfold) (simp add: Let_def)
  next
    case key
    have K: "?p < p1" "p1 < e" "ended b1 p1 (Some key)" "json_step e ?p b r (b1, r, Some p1)"
      using parse_key_step(2) [OF k less.prems(2) key(3)] by blast+
    have l1: "e < length b1" using json_step_length [OF K(4)] less.prems(2) by simp
    have "\<exists>res. parse_members e d b1 r q = Some res \<and> json_step e q b1 r res" if "p1 < q" "q \<le> e" for d r q
      by (rule less.hyps) (use that K p l1 in auto)
    from member_value_step [OF K(2) l1 K(3), of parse_members d r, OF this]
    obtain b2 r2 q where v: "member_value parse_members e d b1 r key p1 = Some (b2, r2, q)" "json_step e p1 b1 r (b2, r2, q)" by (metis prod_cases3)
    have V: "json_step e p0 b r (b2, r2, q)" by (rule json_step_trans [OF K(4) v(2) p(1)])
    have "\<exists>res. member_next parse_members e d (b2, r2, q) = Some res \<and> json_step e p0 b r res"
    proof (rule member_next_step [OF V])
      fix p2 p' assume "q = Some p2" "p2 < p'" "p' \<le> e"
      then show "\<exists>res. parse_members e d b2 r2 p' = Some res \<and> json_step e p' b2 r2 res"
        using v(2) K p l1 json_step_length [OF v(2)] by (intro less.hyps) (auto simp: json_step_def)
    qed
    moreover have "parse_members e d b r p0 = member_next parse_members e d (b2, r2, q)" using key k v(1) by (subst parse_members_unfold) (simp add: Let_def)
    ultimately show ?thesis by simp
  qed
qed

text \<open>
  C15: The JSON reader returns on every input, and with one byte behind the document it writes only into the document and that byte, stores at most 32 tokens, and
  terminates the key of every token and the value of every string token inside the document, so that searching for keys and copying strings reads only the document.
\<close>

theorem json_reader_safe:
  assumes "e < length b"
  shows "\<exists>ok r b'. syn_json_parse r0 b e = Some (ok, r, b') \<and> length b' = length b \<and> (\<forall>i>e. b' ! i = b ! i)
    \<and> (0 < e \<longrightarrow> length (jr_tokens r) \<le> SYN_JSON_MAX_TOKENS \<and> (\<forall>tok\<in>set (jr_tokens r).
        (\<exists>k q. jt_key tok = Some k \<and> k \<le> q \<and> q < e \<and> b' ! q = 0)
      \<and> (jt_type tok = SYN_JSON_STRING \<longrightarrow> (\<exists>v q. jt_value tok = Some v \<and> v \<le> q \<and> q < e \<and> b' ! q = 0))))"
proof (cases "e = 0 \<or> skip_ws b e 0 \<ge> e \<or> b ! skip_ws b e 0 \<noteq> 0x7B")
  case True
  then show ?thesis by (auto simp: syn_json_parse_def Let_def SYN_JSON_MAX_TOKENS_def)
next
  case False
  let ?p = "skip_ws b e 0" and ?r = "\<lparr>jr_tokens = [], jr_valid = False\<rparr>"
  show ?thesis
  proof (cases "object_entry b e ?p")
    case None
    then show ?thesis using False by (auto simp: syn_json_parse_def Let_def SYN_JSON_MAX_TOKENS_def)
  next
    case (Some p)
    then have "p \<le> e" using object_entry_pos False by fastforce
    then obtain b' r q where m: "parse_members e 0 b ?r p = Some (b', r, q)" "json_step e p b ?r (b', r, q)"
      using parse_members_step [OF _ assms] by (metis prod_cases3)
    have "tok_ok b' e tok" if "tok \<in> set (jr_tokens r)" for tok
      using m(2) that tok_ok_mono [where b = b' and b' = b' and p' = e and tok = tok] by (fastforce simp: json_step_def split: option.splits)
    then show ?thesis using False Some m by (auto simp: syn_json_parse_def json_step_def tok_ok_def ended_def Let_def)
  qed
qed

theorem json_reader_safe_witness:
  "\<exists>ok r b'. syn_json_parse \<lparr>jr_tokens = [], jr_valid = False\<rparr> [0x7B, 0x22, 0x61, 0x22, 0x3A, 0x31, 0x7D, 0] 7 = Some (ok, r, b') \<and> length b' = 8
     \<and> length (jr_tokens r) \<le> SYN_JSON_MAX_TOKENS"
  using json_reader_safe [of 7 "[0x7B, 0x22, 0x61, 0x22, 0x3A, 0x31, 0x7D, 0]" "\<lparr>jr_tokens = [], jr_valid = False\<rparr>"] by auto

subsection \<open>Where the reader departs from JSON\<close>

declare parse_members.simps [code]

text \<open>
  A number, truth value or null is terminated in place; the byte is restored only if it was a comma or a bracket. White space there is left overwritten, is not skipped
  afterwards, and the document is rejected: \<^verbatim>\<open>{"a":1 }\<close> is not accepted.
\<close>

theorem json_space_after_number_rejected:
  "case syn_json_parse \<lparr>jr_tokens = [], jr_valid = False\<rparr> [0x7B, 0x22, 0x61, 0x22, 0x3A, 0x31, 0x20, 0x7D, 0] 8 of None \<Rightarrow> False | Some (ok, r, b) \<Rightarrow> \<not> ok"
  by code_simp

text \<open>
  A scalar that reaches the end of the document is terminated behind it: for \<^verbatim>\<open>{"a":1\<close> of six bytes the byte that follows them is overwritten.
\<close>

theorem json_writes_behind_document:
  "case syn_json_parse \<lparr>jr_tokens = [], jr_valid = False\<rparr> [0x7B, 0x22, 0x61, 0x22, 0x3A, 0x31, 0x55] 6 of None \<Rightarrow> False | Some (ok, r, b) \<Rightarrow> \<not> ok \<and> b ! 6 = 0"
  by code_simp

end
