(* ===== verification/Syn_Json.thy ===== *)
theory Syn_Json
  imports Syn_Json_Write Syn_Json_Read
begin

text \<open>
  The JSON writer and reader together: a document written by \<^verbatim>\<open>util/syn_json_write.c\<close> is accepted by \<^verbatim>\<open>util/syn_json_read.c\<close>, and every key leads to the value written for it.
\<close>

subsection \<open>Scanning what was written\<close>

lemma nth_window [simp]: "(pre @ c # post) ! length pre = c"
  by (simp add: nth_append)

lemma skip_ws_stop: "\<not> is_ws c \<Longrightarrow> skip_ws (pre @ c # post) e (length pre) = length pre"
  by (subst skip_ws.simps) simp

lemma esc_Nil [simp]: "esc [] = []" and esc_Cons: "esc (c # s) = esc_char c @ esc s"
  by (simp_all add: esc_def)

lemma esc_char_cases:
  obtains "esc_char c = []" | "esc_char c = [c]" "c \<noteq> 0x22" "c \<noteq> 0x5C" "c \<noteq> 0" | x where "esc_char c = [0x5C, x]" "x \<noteq> 0"
proof -
  have "esc_char c = [] \<or> (esc_char c = [c] \<and> c \<noteq> 0x22 \<and> c \<noteq> 0x5C \<and> c \<noteq> 0) \<or> (\<exists>x. esc_char c = [0x5C, x] \<and> x \<noteq> 0)"
    by (auto simp: esc_char_def)
  then show thesis using that by blast
qed

lemma string_end_esc:
  "length pre + length (esc s) < e \<Longrightarrow> string_end (pre @ esc s @ 0x22 # post) e (length pre) = length pre + length (esc s)"
proof (induction s arbitrary: pre)
  case Nil
  then show ?case by (subst string_end.simps) simp
next
  case (Cons c s)
  show ?case
  proof (cases c rule: esc_char_cases)
    case 1
    then show ?thesis using Cons by (simp add: esc_Cons)
  next
    case 2
    then have "string_end (pre @ esc (c # s) @ 0x22 # post) e (length pre) = string_end ((pre @ [c]) @ esc s @ 0x22 # post) e (length (pre @ [c]))"
      using Cons.prems by (subst string_end.simps) (simp add: esc_Cons)
    then show ?thesis using Cons.IH [of "pre @ [c]"] Cons.prems 2 by (simp add: esc_Cons)
  next
    case (3 x)
    then have "string_end (pre @ esc (c # s) @ 0x22 # post) e (length pre) = string_end ((pre @ [0x5C, x]) @ esc s @ 0x22 # post) e (length (pre @ [0x5C, x]))"
      using Cons.prems by (subst string_end.simps) (simp add: esc_Cons)
    then show ?thesis using Cons.IH [of "pre @ [0x5C, x]"] Cons.prems 3 by (simp add: esc_Cons)
  qed
qed

text \<open>A string after it was read: its closing quote is a terminator.\<close>

definition read_str :: "u8 list \<Rightarrow> u8 list" where
  "read_str s = 0x22 # esc s @ [0]"

lemma length_read_str [simp]: "length (read_str s) = length (str_text s)"
  by (simp add: read_str_def str_text_def)

lemma string_end_text: "length pre + length (str_text s) \<le> e \<Longrightarrow> string_end (pre @ str_text s @ post) e (length pre + 1) = length pre + length (esc s) + 1"
  using string_end_esc [of "pre @ [0x22]" s e post] by (simp add: str_text_def)

lemma parse_string_text:
  assumes "length pre + length (str_text s) \<le> e"
  shows "parse_string (pre @ str_text s @ post) e (length pre) = Some (pre @ read_str s @ post, length pre + length (str_text s), length pre + 1)"
proof -
  have "(pre @ str_text s @ post)[length pre + length (esc s) + 1 := 0] = pre @ read_str s @ post"
    by (simp add: str_text_def read_str_def list_update_append)
  moreover have "(pre @ str_text s @ post) ! length pre = 0x22" by (simp add: str_text_def)
  ultimately show ?thesis using string_end_text [OF assms, of post] assms by (simp add: parse_string_def Let_def str_text_def)
qed

definition delimiter :: "u8 \<Rightarrow> bool" where
  "delimiter c \<longleftrightarrow> c = 0x2C \<or> c = 0x7D \<or> c = 0x5D"

lemma skip_scalar_text:
  "list_all (\<lambda>c. \<not> delimiter c \<and> \<not> is_ws c) s \<Longrightarrow> delimiter c \<Longrightarrow> length pre + length s < e \<Longrightarrow> skip_scalar (pre @ s @ c # post) e (length pre) = length pre + length s"
proof (induction s arbitrary: pre)
  case Nil
  then show ?case by (subst skip_scalar.simps) (auto simp: delimiter_def)
next
  case (Cons x s)
  have "skip_scalar (pre @ (x # s) @ c # post) e (length pre) = skip_scalar ((pre @ [x]) @ s @ c # post) e (length (pre @ [x]))"
    using Cons.prems by (subst skip_scalar.simps) (simp add: delimiter_def)
  then show ?case using Cons.IH [of "pre @ [x]"] Cons.prems by simp
qed

subsection \<open>Numbers\<close>

lemma digit_range:
  assumes "(x :: u32) < 10"
  shows "0x30 \<le> (0x30 :: u8) + ucast x \<and> (0x30 :: u8) + ucast x \<le> 0x39 \<and> ucast ((0x30 :: u8) + ucast x) - 0x30 = x"
proof -
  have "unat x < 10" using assms by (simp add: word_less_nat_alt)
  moreover have "x = of_nat (unat x)" by simp
  ultimately obtain n where n: "x = of_nat n" "n < 10" by blast
  have "n \<in> {0, 1, 2, 3, 4, 5, 6, 7, 8, 9}" using n(2) by auto
  then show ?thesis using n(1) by (auto simp: word_le_nat_alt)
qed

lemma parse_digits_text: "parse_digits (rev (jw_digits_loop n) @ rest) acc = parse_digits rest (acc * 10 ^ length (jw_digits_loop n) + n)"
proof (induction n arbitrary: rest acc rule: jw_digits_loop.induct)
  case (1 n)
  show ?case
  proof (cases "n = 0")
    case True
    then show ?thesis by (subst (1 2) jw_digits_loop.simps) simp
  next
    case False
    let ?L = "jw_digits_loop (n div 10)" and ?c = "(0x30 :: u8) + ucast (n mod 10)"
    have l: "jw_digits_loop n = ?c # ?L" using False by (subst jw_digits_loop.simps) (simp add: word_gt_0)
    have d: "n mod 10 < 10" by (simp add: word_mod_less_divisor)
    have "n div 10 * 10 + n mod 10 = n" by (simp add: word_mod_div_equality)
    then have e: "(acc * 10 ^ length ?L + n div 10) * 10 + n mod 10 = acc * 10 ^ length (jw_digits_loop n) + n" unfolding l by (simp add: algebra_simps)
    have "parse_digits (rev (jw_digits_loop n) @ rest) acc = parse_digits (?c # rest) (acc * 10 ^ length ?L + n div 10)"
      unfolding l using 1 False by (simp add: word_gt_0)
    also have "\<dots> = parse_digits rest ((acc * 10 ^ length ?L + n div 10) * 10 + n mod 10)" using digit_range [OF d] by simp
    finally show ?thesis unfolding e .
  qed
qed

definition digit :: "u8 \<Rightarrow> bool" where "digit c \<longleftrightarrow> 0x30 \<le> c \<and> c \<le> 0x39"

lemma digits_text: "list_all digit (jw_digits n) \<and> jw_digits n \<noteq> []"
proof -
  have "list_all digit (jw_digits_loop n)"
  proof (induction n rule: jw_digits_loop.induct)
    case (1 n)
    then show ?case using digit_range [of "n mod 10"] by (subst jw_digits_loop.simps) (auto simp: word_mod_less_divisor digit_def [of "_ + _"])
  qed
  moreover have "jw_digits_loop n \<noteq> []" if "n \<noteq> 0" using that by (subst jw_digits_loop.simps) (simp add: word_gt_0)
  ultimately show ?thesis by (simp add: jw_digits_def digit_def)
qed

lemma digit_facts: "digit c \<Longrightarrow> c \<noteq> 0x2D \<and> c \<noteq> 0x22 \<and> c \<noteq> 0x5B \<and> \<not> delimiter c \<and> \<not> is_ws c \<and> c \<noteq> 0x7B \<and> c \<noteq> of_char CHR ''t'' \<and> c \<noteq> of_char CHR ''f'' \<and> c \<noteq> of_char CHR ''n'' \<and> c \<noteq> 0x7D"
  by (auto simp: digit_def delimiter_def is_ws_def word_le_nat_alt)

lemma parse_digits_number: "parse_digits (rev (jw_digits n) @ 0 # post) 0 = n"
  using parse_digits_text [of n "0 # post" 0] by (simp add: jw_digits_def)

lemma rev_digits: obtains c s where "rev (jw_digits n) = c # s" "digit c" "list_all digit s"
proof (cases "rev (jw_digits n)")
  case Nil
  then show ?thesis using digits_text [of n] by simp
next
  case (Cons c s)
  have "list_all digit (rev (jw_digits n))" using digits_text [of n] by simp
  then show ?thesis using Cons that by simp
qed

lemma parse_int_uint: "parse_int (uint_text n @ 0 # post) = n"
proof (cases n rule: rev_digits)
  case (1 c s)
  then show ?thesis using parse_digits_number [of n post] digit_facts [of c] by (simp add: parse_int_def uint_text_def)
qed

lemma parse_int_int: "parse_int (int_text n @ 0 # post) = n"
proof (cases "sint n < 0")
  case True
  have "- (n + 1) + 1 = - n" by simp
  then have "int_text n = 0x2D # rev (jw_digits (- n))" using True by (simp add: int_text_def Let_def)
  then show ?thesis using parse_digits_number [of "- n" post] by (simp add: parse_int_def)
next
  case False
  then show ?thesis using parse_int_uint [of n post] by (simp add: int_text_def uint_text_def Let_def)
qed

text \<open>The texts of scalars have no character that ends or nests a value.\<close>

definition scalar_char :: "u8 \<Rightarrow> bool" where
  "scalar_char c \<longleftrightarrow> \<not> delimiter c \<and> \<not> is_ws c \<and> c \<noteq> 0x22 \<and> c \<noteq> 0x5B \<and> c \<noteq> 0x7B"

fun is_scalar :: "json \<Rightarrow> bool" where
  "is_scalar (JInt n) = True"
| "is_scalar (JUint n) = True"
| "is_scalar (JBool b) = True"
| "is_scalar JNull = True"
| "is_scalar v = False"

lemma number_chars:
  assumes "s = uint_text n \<or> s = int_text n"
  shows "list_all scalar_char s" "s \<noteq> []" "hd s \<noteq> of_char CHR ''t''" "hd s \<noteq> of_char CHR ''f''" "hd s \<noteq> of_char CHR ''n''"
proof -
  have sc: "digit c \<Longrightarrow> scalar_char c" for c using digit_facts [of c] by (simp add: scalar_char_def)
  have m: "scalar_char 0x2D" by (simp add: scalar_char_def delimiter_def is_ws_def)
  obtain u where s: "s = rev (jw_digits u) \<or> s = 0x2D # rev (jw_digits u)" using assms by (auto simp: uint_text_def int_text_def Let_def split: if_splits)
  have "list_all digit (rev (jw_digits u))" using digits_text [of u] by simp
  then have "list_all scalar_char (rev (jw_digits u))" using sc by (auto simp: list_all_iff)
  then show "list_all scalar_char s" using s m by auto
  obtain c t where "rev (jw_digits u) = c # t" "digit c" by (cases u rule: rev_digits)
  then show "s \<noteq> []" "hd s \<noteq> of_char CHR ''t''" "hd s \<noteq> of_char CHR ''f''" "hd s \<noteq> of_char CHR ''n''"
    using s digit_facts [of c] by auto
qed

lemma word_chars: "list_all scalar_char (bool_text b)" "list_all scalar_char null_text"
  by (simp_all add: bool_text_def null_text_def scalar_char_def delimiter_def is_ws_def)

lemma scalar_text_chars: "is_scalar v \<Longrightarrow> list_all scalar_char (json_text v) \<and> json_text v \<noteq> []"
  using number_chars(1,2) word_chars by (cases v) (auto simp: bool_text_def null_text_def)

fun scalar_type :: "json \<Rightarrow> SYN_JsonType" where
  "scalar_type (JInt n) = SYN_JSON_NUMBER"
| "scalar_type (JUint n) = SYN_JSON_NUMBER"
| "scalar_type (JBool b) = SYN_JSON_BOOL"
| "scalar_type JNull = SYN_JSON_NULL"
| "scalar_type (JStr s) = SYN_JSON_STRING"
| "scalar_type (JObj ms) = SYN_JSON_OBJECT"
| "scalar_type (JArr vs) = SYN_JSON_ARRAY"

fun scalar_int :: "json \<Rightarrow> u32" where
  "scalar_int (JInt n) = n"
| "scalar_int (JUint n) = n"
| "scalar_int (JBool b) = (if b then 1 else 0)"
| "scalar_int v = 0"

definition scalar_tok :: "u8 \<Rightarrow> nat \<Rightarrow> nat \<Rightarrow> json \<Rightarrow> SYN_JsonToken" where
  "scalar_tok d key p v = \<lparr>jt_type = scalar_type v, jt_key = Some key, jt_value = Some p, jt_int_val = scalar_int v, jt_depth = d\<rparr>"

lemma scalar_token_text:
  assumes "is_scalar v"
  shows "scalar_token (pre @ json_text v @ 0 # post) key (length pre) (length pre + length (json_text v)) d = scalar_tok d key (length pre) v"
proof -
  have dr: "drop (length pre) (pre @ s @ 0 # post) = s @ 0 # post" for s by simp
  have hd: "s \<noteq> [] \<Longrightarrow> (pre @ s @ 0 # post) ! length pre = hd s" for s by (cases s) simp_all
  have nn: "\<not> (length s = 4 \<and> take 4 (s @ 0 # post) = map of_char ''null'')" if "s \<noteq> []" "hd s \<noteq> of_char CHR ''n''" for s
    using that by (cases s) (auto simp: numeral_eq_Suc)
  show ?thesis
  proof (cases v)
    case (JInt n)
    note c = number_chars [OF disjI2 [OF refl], of n]
    show ?thesis using JInt c hd [OF c(2)] nn [OF c(2,5)] parse_int_int [of n post] by (auto simp: scalar_token_def scalar_tok_def Let_def dr)
  next
    case (JUint n)
    note c = number_chars [OF disjI1 [OF refl], of n]
    show ?thesis using JUint c hd [OF c(2)] nn [OF c(2,5)] parse_int_uint [of n post] by (auto simp: scalar_token_def scalar_tok_def Let_def dr)
  next
    case (JBool b)
    then show ?thesis by (simp add: scalar_token_def scalar_tok_def Let_def bool_text_def nth_append)
  next
    case JNull
    then show ?thesis by (simp add: scalar_token_def scalar_tok_def Let_def null_text_def nth_append)
  qed (use assms in simp_all)
qed

subsection \<open>Skipping an array\<close>

lemma nested_plain:
  "list_all (\<lambda>c. c \<noteq> 0x22 \<and> c \<noteq> 0x5B \<and> c \<noteq> 0x5D) s \<Longrightarrow> 0 < d \<Longrightarrow> length pre + length s \<le> e \<Longrightarrow>
    skip_nested (pre @ s @ post) e 0x5B 0x5D d (length pre) = skip_nested (pre @ s @ post) e 0x5B 0x5D d (length pre + length s)"
proof (induction s arbitrary: pre)
  case (Cons c s)
  have "skip_nested (pre @ (c # s) @ post) e 0x5B 0x5D d (length pre) = skip_nested ((pre @ [c]) @ s @ post) e 0x5B 0x5D d (length (pre @ [c]))"
    using Cons.prems by (subst skip_nested.simps) (simp add: Let_def)
  then show ?case using Cons.IH [of "pre @ [c]"] Cons.prems by simp
qed simp

lemma nested_str:
  assumes "0 < d" "length pre + length (str_text s) \<le> e"
  shows "skip_nested (pre @ str_text s @ post) e 0x5B 0x5D d (length pre) = skip_nested (pre @ str_text s @ post) e 0x5B 0x5D d (length pre + length (str_text s))"
proof -
  have "(pre @ str_text s @ post) ! length pre = 0x22" by (simp add: str_text_def)
  then show ?thesis using assms string_end_text [OF assms(2), of post] by (subst skip_nested.simps) (simp add: Let_def str_text_def)
qed

lemma nested_open: "0 < d \<Longrightarrow> length pre < e \<Longrightarrow>
    skip_nested (pre @ 0x5B # post) e 0x5B 0x5D d (length pre) = skip_nested (pre @ 0x5B # post) e 0x5B 0x5D (d + 1) (length pre + 1)"
  by (subst skip_nested.simps) (simp add: Let_def)

lemma nested_close: "length pre < e \<Longrightarrow>
    skip_nested (pre @ 0x5D # post) e 0x5B 0x5D (d + 1) (length pre) = skip_nested (pre @ 0x5D # post) e 0x5B 0x5D d (length pre + 1)"
  by (subst skip_nested.simps) (simp add: Let_def)

text \<open>Skipping over a text keeps the depth; \<open>skips s\<close> says so for every place the text may stand.\<close>

definition skips :: "u8 list \<Rightarrow> bool" where
  "skips s \<longleftrightarrow> (\<forall>pre post e d. 0 < d \<longrightarrow> length pre + length s \<le> e \<longrightarrow>
     skip_nested (pre @ s @ post) e 0x5B 0x5D d (length pre) = skip_nested (pre @ s @ post) e 0x5B 0x5D d (length pre + length s))"

lemma skips_Nil [simp]: "skips []"
  by (simp add: skips_def)

lemma skips_plain: "list_all (\<lambda>c. c \<noteq> 0x22 \<and> c \<noteq> 0x5B \<and> c \<noteq> 0x5D) s \<Longrightarrow> skips s"
  using nested_plain by (simp add: skips_def)

lemma skips_str: "skips (str_text s)"
  using nested_str by (simp add: skips_def)

lemma skips_append: "skips s \<Longrightarrow> skips t \<Longrightarrow> skips (s @ t)"
  unfolding skips_def
proof (intro allI impI, goal_cases)
  case (1 pre post e d)
  have "skip_nested (pre @ s @ (t @ post)) e 0x5B 0x5D d (length pre) = skip_nested (pre @ s @ (t @ post)) e 0x5B 0x5D d (length pre + length s)"
    using 1 by simp
  also have "\<dots> = skip_nested ((pre @ s) @ t @ post) e 0x5B 0x5D d (length (pre @ s))" by simp
  also have "\<dots> = skip_nested ((pre @ s) @ t @ post) e 0x5B 0x5D d (length (pre @ s) + length t)"
    using 1(2) [rule_format, of d "pre @ s" e post] 1(3,4) by simp
  finally show ?case by (simp add: add.assoc)
qed

lemma skips_bracket: "skips s \<Longrightarrow> skips (0x5B # s @ [0x5D])"
  unfolding skips_def
proof (intro allI impI, goal_cases)
  case (1 pre post e d)
  have a: "skip_nested (pre @ (0x5B # s @ [0x5D]) @ post) e 0x5B 0x5D d (length pre)
      = skip_nested ((pre @ [0x5B]) @ s @ 0x5D # post) e 0x5B 0x5D (d + 1) (length (pre @ [0x5B]))"
    using nested_open [of d pre e "s @ 0x5D # post"] 1 by simp
  also have "\<dots> = skip_nested ((pre @ [0x5B]) @ s @ 0x5D # post) e 0x5B 0x5D (d + 1) (length (pre @ [0x5B]) + length s)"
    using 1(1) [rule_format, of "d + 1" "pre @ [0x5B]" e "0x5D # post"] 1(3) by simp
  also have "\<dots> = skip_nested ((pre @ 0x5B # s) @ 0x5D # post) e 0x5B 0x5D (d + 1) (length (pre @ 0x5B # s))" by simp
  also have "\<dots> = skip_nested ((pre @ 0x5B # s) @ 0x5D # post) e 0x5B 0x5D d (length (pre @ 0x5B # s) + 1)"
    using nested_close [of "pre @ 0x5B # s" e post d] 1(3) by simp
  finally show ?case by simp
qed

lemma skips_char: "c \<noteq> 0x22 \<Longrightarrow> c \<noteq> 0x5B \<Longrightarrow> c \<noteq> 0x5D \<Longrightarrow> skips s \<Longrightarrow> skips (c # s)"
  using skips_append [OF skips_plain [of "[c]"], of s] by simp

lemma skips_scalar: "list_all scalar_char s \<Longrightarrow> skips s"
  by (rule skips_plain) (auto simp: list_all_iff scalar_char_def delimiter_def)

lemma skips_number: "skips (int_text n)" "skips (uint_text n)"
  using skips_scalar [OF number_chars(1)] by blast+

lemma skips_json: "skips (json_text v)" "skips (members_text ms)" "skips (items_text vs)"
proof (induction v and ms and vs rule: json_text_members_text_items_text.induct)
  case (6 ms)
  then show ?case using skips_char [of "0x7B"] skips_append [OF _ skips_plain [of "[0x7D]"]] by simp
next
  case (7 vs)
  then show ?case using skips_bracket by simp
next
  case (9 k v ms)
  then show ?case using skips_append [OF skips_str] skips_append skips_char [of "0x3A"] skips_char [of "0x2C"] by simp
next
  case (11 v vs)
  then show ?case using skips_append skips_char [of "0x2C"] by simp
qed (simp_all add: skips_str skips_number skips_scalar word_chars)

lemma skip_array:
  assumes "length pre + length (json_text (JArr vs)) \<le> e"
  shows "skip_value (pre @ json_text (JArr vs) @ post) e (length pre) = Some (length pre + length (json_text (JArr vs)))"
proof -
  let ?b = "(pre @ [0x5B]) @ items_text vs @ 0x5D # post"
  have b: "pre @ json_text (JArr vs) @ post = ?b" by simp
  have "skip_nested ?b e 0x5B 0x5D 1 (length (pre @ [0x5B])) = skip_nested ?b e 0x5B 0x5D 1 (length (pre @ [0x5B]) + length (items_text vs))"
    using skips_json(3) [of vs, unfolded skips_def, rule_format, of 1 "pre @ [0x5B]" e "0x5D # post"] assms by simp
  also have "\<dots> = skip_nested ((pre @ 0x5B # items_text vs) @ 0x5D # post) e 0x5B 0x5D (0 + 1) (length (pre @ 0x5B # items_text vs))" by simp
  also have "\<dots> = skip_nested ((pre @ 0x5B # items_text vs) @ 0x5D # post) e 0x5B 0x5D 0 (length (pre @ 0x5B # items_text vs) + 1)"
    using assms by (intro nested_close) simp
  also have "\<dots> = Some (length (pre @ 0x5B # items_text vs) + 1)" by (subst skip_nested.simps) simp
  finally have n: "skip_nested ?b e 0x5B 0x5D 1 (length pre + 1) = Some (length pre + length (json_text (JArr vs)))" by simp
  have w: "skip_ws ?b e (length pre) = length pre" using skip_ws_stop [of "0x5B" pre "items_text vs @ 0x5D # post" e] by (simp add: is_ws_def)
  show ?thesis unfolding b using assms n w by (simp add: skip_value_def nth_append)
qed

subsection \<open>Reading what was written\<close>

text \<open>The document after it was read, and the tokens found: \<open>toks d p ms\<close> for members that begin at position \<open>p\<close>.\<close>

fun json_read :: "json \<Rightarrow> u8 list" and members_read :: "(u8 list \<times> json) list \<Rightarrow> u8 list" where
  "json_read (JStr s) = read_str s"
| "json_read (JObj ms) = 0x7B # members_read ms @ [0x7D]"
| "json_read v = json_text v"
| "members_read [] = []"
| "members_read ((k, v) # ms) = read_str k @ 0x3A # json_read v @ (if ms = [] then [] else 0x2C # members_read ms)"

fun value_toks :: "u8 \<Rightarrow> nat \<Rightarrow> nat \<Rightarrow> json \<Rightarrow> SYN_JsonToken list" and toks :: "u8 \<Rightarrow> nat \<Rightarrow> (u8 list \<times> json) list \<Rightarrow> SYN_JsonToken list" where
  "value_toks d key p (JStr s) = [\<lparr>jt_type = SYN_JSON_STRING, jt_key = Some key, jt_value = Some (p + 1), jt_int_val = 0, jt_depth = d\<rparr>]"
| "value_toks d key p (JObj ms) = marker_token SYN_JSON_OBJECT key d # toks (d + 1) (p + 1) ms"
| "value_toks d key p (JArr vs) = [marker_token SYN_JSON_ARRAY key d]"
| "value_toks d key p v = [scalar_tok d key p v]"
| "toks d p [] = []"
| "toks d p ((k, v) # ms) =
     (let q = p + length (str_text k) + 1 in value_toks d (p + 1) q v @ toks d (q + length (json_text v) + 1) ms)"

lemma length_read [simp]: "length (json_read v) = length (json_text v)" "length (members_read ms) = length (members_text ms)"
  by (induction v and ms rule: json_read_members_read.induct) simp_all

lemma parse_key_text:
  assumes "length pre + length (str_text k) + 1 < e" "\<not> is_ws c"
  shows "parse_key (pre @ str_text k @ 0x3A # c # post) e (length pre)
    = (pre @ read_str k @ 0x3A # c # post, Some (length pre + 1, length pre + length (str_text k) + 1))"
proof -
  let ?b = "pre @ read_str k @ 0x3A # c # post"
  have s: "parse_string (pre @ str_text k @ 0x3A # c # post) e (length pre) = Some (?b, length pre + length (str_text k), length pre + 1)"
    by (rule parse_string_text) (use assms(1) in simp)
  have w1: "skip_ws ?b e (length pre + length (str_text k)) = length pre + length (str_text k)"
    using skip_ws_stop [of "0x3A" "pre @ read_str k" "c # post" e] by (simp add: is_ws_def)
  have w2: "skip_ws ?b e (length pre + length (str_text k) + 1) = length pre + length (str_text k) + 1"
    using skip_ws_stop [OF assms(2), of "pre @ read_str k @ [0x3A]" post e] by simp
  have c: "?b ! (length pre + length (str_text k)) = 0x3A" using nth_window [of "pre @ read_str k" "0x3A" "c # post"] by simp
  show ?thesis using assms(1) s w1 w2 c by (simp add: parse_key_def Let_def)
qed

lemma parse_scalar_text:
  assumes "is_scalar v" "delimiter c"
  shows "parse_scalar (pre @ json_text v @ c # post) r key (length pre) (length pre + length (json_text v)) d
    = (pre @ json_text v @ c # post, add_token (scalar_tok d key (length pre) v) r)"
proof -
  have s: "(pre @ json_text v @ c # post) ! (length pre + length (json_text v)) = c" using nth_window [of "pre @ json_text v" c post] by simp
  have u: "(pre @ json_text v @ x # post)[length pre + length (json_text v) := y] = pre @ json_text v @ y # post" for x y
    by (simp add: list_update_append)
  show ?thesis using assms(2) scalar_token_text [OF assms(1)] by (auto simp: parse_scalar_def s u Let_def delimiter_def)
qed

lemma first_char:
  obtains c s where "json_text v = c # s" "\<not> is_ws c" "c = 0x7B \<longleftrightarrow> (\<exists>ms. v = JObj ms)" "c = 0x5B \<longleftrightarrow> (\<exists>vs. v = JArr vs)" "c = 0x22 \<longleftrightarrow> (\<exists>s. v = JStr s)"
proof (cases "is_scalar v")
  case True
  then obtain c s where c: "json_text v = c # s" "scalar_char c" using scalar_text_chars [OF True] by (cases "json_text v") auto
  show thesis by (rule that [OF c(1)]) (use c(2) True in \<open>auto simp: scalar_char_def\<close>)
next
  case False
  then show thesis by (cases v) (auto simp: str_text_def is_ws_def intro!: that)
qed

lemma parse_flat_text:
  assumes "delimiter c" "length pre + length (json_text v) < e" "\<nexists>ms. v = JObj ms"
  shows "parse_flat (pre @ json_text v @ c # post) e (length pre) key d r
    = (pre @ json_read v @ c # post, r\<lparr>jr_tokens := jr_tokens r @ value_toks d key (length pre) v\<rparr>, Some (length pre + length (json_text v)))"
proof -
  obtain x s where x: "json_text v = x # s" "\<not> is_ws x" "x = 0x5B \<longleftrightarrow> (\<exists>vs. v = JArr vs)" "x = 0x22 \<longleftrightarrow> (\<exists>s. v = JStr s)" "x = 0x7B \<longleftrightarrow> (\<exists>ms. v = JObj ms)"
    by (cases v rule: first_char)
  let ?b = "pre @ json_text v @ c # post"
  have b: "?b ! length pre = x" using x(1) by simp
  have w: "skip_ws ?b e (length pre) = length pre" using skip_ws_stop [OF x(2), of pre "s @ c # post" e] x(1) by simp
  show ?thesis
  proof (cases "is_scalar v")
    case True
    have l: "list_all (\<lambda>c. \<not> delimiter c \<and> \<not> is_ws c) (json_text v)" using scalar_text_chars [OF True] by (auto simp: list_all_iff scalar_char_def)
    have nb: "x \<noteq> 0x5B" "x \<noteq> 0x22" "x \<noteq> 0x7B" using x True assms(3) by auto
    have "skip_value ?b e (length pre) = Some (length pre + length (json_text v))"
      using skip_scalar_text [OF l assms(1,2), of post] b w nb assms(2) by (simp add: skip_value_def)
    moreover have "value_toks d key (length pre) v = [scalar_tok d key (length pre) v]" "json_read v = json_text v" using True by (cases v; simp)+
    ultimately show ?thesis using parse_scalar_text [OF True assms(1)] b nb by (simp add: parse_flat_def add_token_def)
  next
    case False
    then consider (str) s where "v = JStr s" | (arr) vs where "v = JArr vs" using assms(3) by (cases v) auto
    then show ?thesis
    proof cases
      case str
      then show ?thesis using b x parse_string_text [of pre s e "c # post"] assms(2) by (simp add: parse_flat_def add_token_def)
    next
      case arr
      then show ?thesis using b x skip_array [of pre vs e "c # post"] assms(2) by (simp add: parse_flat_def add_token_def)
    qed
  qed
qed

text \<open>Reading a value, and reading members, from where they stand in the document.\<close>

definition value_reads :: "json \<Rightarrow> bool" where
  "value_reads v \<longleftrightarrow> (\<forall>pre c post e d r key. delimiter c \<longrightarrow> length pre + length (json_text v) < e \<longrightarrow>
     length (jr_tokens r) + length (value_toks d key (length pre) v) \<le> SYN_JSON_MAX_TOKENS \<longrightarrow>
     member_value parse_members e d (pre @ json_text v @ c # post) r key (length pre)
       = Some (pre @ json_read v @ c # post, r\<lparr>jr_tokens := jr_tokens r @ value_toks d key (length pre) v\<rparr>, Some (length pre + length (json_text v))))"

definition members_read_ok :: "(u8 list \<times> json) list \<Rightarrow> bool" where
  "members_read_ok ms \<longleftrightarrow> (\<forall>pre post e d r. length pre + length (members_text ms) < e \<longrightarrow>
     length (jr_tokens r) + length (toks d (length pre) ms) \<le> SYN_JSON_MAX_TOKENS \<longrightarrow>
     parse_members e d (pre @ members_text ms @ 0x7D # post) r (length pre)
       = Some (pre @ members_read ms @ 0x7D # post, r\<lparr>jr_tokens := jr_tokens r @ toks d (length pre) ms\<rparr>, Some (length pre + length (members_text ms) + 1)))"

lemma value_toks_nonempty: "0 < length (value_toks d key p v)"
  by (cases v) simp_all

lemma flat_reads: "\<nexists>ms. v = JObj ms \<Longrightarrow> value_reads v"
  unfolding value_reads_def
proof (intro allI impI, goal_cases)
  case (1 pre c post e d r key)
  have "(pre @ json_text v @ c # post) ! length pre \<noteq> 0x7B" using 1(1) by (cases v rule: first_char) auto
  moreover have "length (jr_tokens r) < SYN_JSON_MAX_TOKENS" using 1(4) value_toks_nonempty [of d key "length pre" v] by linarith
  ultimately show ?case using parse_flat_text [OF 1(2,3,1)] by (simp add: member_value_def)
qed

lemma object_reads: "members_read_ok ms \<Longrightarrow> value_reads (JObj ms)"
  unfolding value_reads_def
proof (intro allI impI, goal_cases)
  case (1 pre c post e d r key)
  let ?b = "pre @ json_text (JObj ms) @ c # post" and ?r = "add_token (marker_token SYN_JSON_OBJECT key d) r"
  have w: "skip_ws ?b e (length pre) = length pre" using skip_ws_stop [of "0x7B" pre "members_text ms @ 0x7D # c # post" e] by (simp add: is_ws_def)
  have "object_entry ?b e (length pre) = Some (length pre + 1)" using w 1(3) by (simp add: object_entry_def)
  moreover have "parse_members e (d + 1) ((pre @ [0x7B]) @ members_text ms @ 0x7D # c # post) ?r (length (pre @ [0x7B]))
     = Some ((pre @ [0x7B]) @ members_read ms @ 0x7D # c # post, ?r\<lparr>jr_tokens := jr_tokens ?r @ toks (d + 1) (length (pre @ [0x7B])) ms\<rparr>,
         Some (length (pre @ [0x7B]) + length (members_text ms) + 1))"
    using 1(1) [unfolded members_read_ok_def, rule_format, of "pre @ [0x7B]" e ?r "d + 1"] 1(3,4) by (simp add: add_token_def)
  ultimately show ?case using 1(4) by (simp add: member_value_def Let_def add_token_def)
qed

lemma member_end_text:
  "c = 0x2C \<or> c = 0x7D \<Longrightarrow> length pre < e \<Longrightarrow> member_end (pre @ c # post) e (length pre) = Some (length pre + 1, c = 0x2C)"
  using skip_ws_stop [of c pre post e] by (auto simp: member_end_def is_ws_def)

lemma member_reads:
  assumes "value_reads v" "c = 0x2C \<or> c = 0x7D" "length pre + length (str_text k) + 1 + length (json_text v) < e"
    and "length (jr_tokens r) + length (value_toks d (length pre + 1) (length pre + length (str_text k) + 1) v) \<le> SYN_JSON_MAX_TOKENS"
  shows "parse_members e d (pre @ str_text k @ 0x3A # json_text v @ c # post) r (length pre)
    = (let b = pre @ read_str k @ 0x3A # json_read v @ c # post; q = length pre + length (str_text k) + 1;
           r = r\<lparr>jr_tokens := jr_tokens r @ value_toks d (length pre + 1) q v\<rparr>; q = q + length (json_text v) + 1
       in if c = 0x2C then parse_members e d b r q else Some (b, r, Some q))"
proof -
  let ?b = "pre @ str_text k @ 0x3A # json_text v @ c # post" and ?pre = "pre @ read_str k @ [0x3A]"
  obtain x s where x: "json_text v = x # s" "\<not> is_ws x" by (cases v rule: first_char)
  have k0: "str_text k = 0x22 # esc k @ [0x22]" by (simp add: str_text_def)
  have w: "skip_ws ?b e (length pre) = length pre" using skip_ws_stop [of "0x22" pre "esc k @ 0x22 # 0x3A # json_text v @ c # post" e] by (simp add: k0 is_ws_def)
  have q: "?b ! length pre = 0x22" by (simp add: k0)
  have key: "parse_key ?b e (length pre) = (?pre @ json_text v @ c # post, Some (length pre + 1, length ?pre))"
    using parse_key_text [of pre k e x "s @ c # post"] x assms(3) by simp
  have "delimiter c" using assms(2) by (auto simp: delimiter_def)
  then have v: "member_value parse_members e d (?pre @ json_text v @ c # post) r (length pre + 1) (length ?pre)
      = Some (?pre @ json_read v @ c # post, r\<lparr>jr_tokens := jr_tokens r @ value_toks d (length pre + 1) (length ?pre) v\<rparr>, Some (length ?pre + length (json_text v)))"
    using assms(1) [unfolded value_reads_def, rule_format, of c ?pre e r d "length pre + 1" post] assms(3,4) by simp
  have n: "member_end (?pre @ json_read v @ c # post) e (length ?pre + length (json_text v)) = Some (length ?pre + length (json_text v) + 1, c = 0x2C)"
    using member_end_text [OF assms(2), of "?pre @ json_read v" e post] assms(3) by (simp add: add.assoc)
  have p: "length pre < e" using assms(3) by simp
  have "parse_members e d ?b r (length pre) = member_next parse_members e d
      (?pre @ json_read v @ c # post, r\<lparr>jr_tokens := jr_tokens r @ value_toks d (length pre + 1) (length ?pre) v\<rparr>, Some (length ?pre + length (json_text v)))"
    using w q key v p by (subst parse_members_unfold) (simp add: Let_def)
  also have "\<dots> = (if c = 0x2C
      then parse_members e d (?pre @ json_read v @ c # post) (r\<lparr>jr_tokens := jr_tokens r @ value_toks d (length pre + 1) (length ?pre) v\<rparr>) (length ?pre + length (json_text v) + 1)
      else Some (?pre @ json_read v @ c # post, r\<lparr>jr_tokens := jr_tokens r @ value_toks d (length pre + 1) (length ?pre) v\<rparr>, Some (length ?pre + length (json_text v) + 1)))"
    using n by (simp add: member_next_def)
  finally show ?thesis by (simp add: Let_def)
qed

lemma document_reads: "value_reads v" "members_read_ok ms"
proof (induction v and ms rule: json_read_members_read.induct)
  case 4
  have "parse_members e d (pre @ 0x7D # post) r (length pre) = Some (pre @ 0x7D # post, r, Some (length pre + 1))" if "length pre < e" for pre post e d r
    using skip_ws_stop [of "0x7D" pre post e] that by (subst parse_members_unfold) (simp add: is_ws_def)
  then show ?case by (simp add: members_read_ok_def)
next
  case (5 k v ms)
  show ?case unfolding members_read_ok_def
  proof (intro allI impI, goal_cases)
    case (1 pre post e d r)
    let ?q = "length pre + length (str_text k) + 1"
    let ?r = "r\<lparr>jr_tokens := jr_tokens r @ value_toks d (length pre + 1) ?q v\<rparr>"
    have t: "length (jr_tokens r) + length (value_toks d (length pre + 1) ?q v) \<le> SYN_JSON_MAX_TOKENS" using 1(2) by (simp add: Let_def)
    show ?case
    proof (cases "ms = []")
      case True
      then show ?thesis using member_reads [OF 5(1), of "0x7D" pre k e r d post] 1(1) t by (simp add: Let_def)
    next
      case False
      let ?pre = "pre @ read_str k @ 0x3A # json_read v @ [0x2C]"
      have m: "parse_members e d (?pre @ members_text ms @ 0x7D # post) ?r (length ?pre)
        = Some (?pre @ members_read ms @ 0x7D # post, ?r\<lparr>jr_tokens := jr_tokens ?r @ toks d (length ?pre) ms\<rparr>, Some (length ?pre + length (members_text ms) + 1))"
        using 5(2) [unfolded members_read_ok_def, rule_format, of ?pre e ?r d post] 1 False by (simp add: Let_def add.assoc)
      have "parse_members e d (pre @ str_text k @ 0x3A # json_text v @ 0x2C # members_text ms @ 0x7D # post) r (length pre)
          = parse_members e d (?pre @ members_text ms @ 0x7D # post) ?r (length ?pre)"
        using member_reads [OF 5(1), of "0x2C" pre k e r d "members_text ms @ 0x7D # post"] 1(1) t False by (simp add: Let_def add.assoc)
      then show ?thesis using m False by (simp add: Let_def add.assoc)
    qed
  qed
qed (simp_all add: flat_reads object_reads)

subsection \<open>Looking up keys\<close>

text \<open>The members of a document in the order of their tokens, with their depth.\<close>

fun flat_value :: "nat \<Rightarrow> json \<Rightarrow> (nat \<times> u8 list \<times> json) list" and flat :: "nat \<Rightarrow> (u8 list \<times> json) list \<Rightarrow> (nat \<times> u8 list \<times> json) list" where
  "flat_value n (JObj ms) = flat (n + 1) ms"
| "flat_value n v = []"
| "flat n [] = []"
| "flat n ((k, v) # ms) = (n, k, v) # flat_value n v @ flat n ms"

text \<open>A token of the document that stands for a member.\<close>

definition tok_is :: "u8 list \<Rightarrow> SYN_JsonToken \<Rightarrow> nat \<times> u8 list \<times> json \<Rightarrow> bool" where
  "tok_is b tok = (\<lambda>(n, k, v). jt_depth tok = of_nat n \<and> has_key b (esc k) tok \<and> jt_type tok = scalar_type v \<and> jt_int_val tok = scalar_int v
     \<and> (\<forall>s. v = JStr s \<longrightarrow> (\<exists>i. jt_value tok = Some i \<and> cstr b i = esc s)))"

lemma esc_no_zero: "0 \<notin> set (esc s)"
proof (induction s)
  case (Cons c s)
  then show ?case by (cases c rule: esc_char_cases) (auto simp: esc_Cons)
qed simp

lemma cstr_read_str: "cstr (pre @ read_str s @ post) (length pre + 1) = esc s"
proof -
  have "drop (length pre + 1) (pre @ read_str s @ post) = esc s @ 0 # post" by (simp add: read_str_def)
  moreover have "takeWhile (\<lambda>c. c \<noteq> 0) (esc s @ 0 # post) = esc s" using esc_no_zero [of s] by (subst takeWhile_append2) auto
  ultimately show ?thesis by (simp add: cstr_def)
qed

lemma toks_match:
  "cstr (pre @ json_read v @ post) key = esc k \<Longrightarrow> list_all2 (tok_is (pre @ json_read v @ post)) (value_toks (of_nat n) key (length pre) v) ((n, k, v) # flat_value n v)"
  "list_all2 (tok_is (pre @ members_read ms @ post)) (toks (of_nat n) (length pre) ms) (flat n ms)"
proof (induction v and ms arbitrary: pre post key k n and pre post n rule: json_read_members_read.induct)
  case (1 s)
  then show ?case using cstr_read_str [of pre s post] by (simp add: tok_is_def has_key_def)
next
  case (2 ms)
  have "list_all2 (tok_is ((pre @ [0x7B]) @ members_read ms @ 0x7D # post)) (toks (of_nat (n + 1)) (length (pre @ [0x7B])) ms) (flat (n + 1) ms)" by (rule "2.IH")
  moreover have "tok_is (pre @ json_read (JObj ms) @ post) (marker_token SYN_JSON_OBJECT key (of_nat n)) (n, k, JObj ms)"
    using "2.prems" by (simp add: tok_is_def has_key_def marker_token_def)
  ultimately show ?case by (simp add: add.commute)
next
  case (5 k v ms)
  let ?post = "(if ms = [] then [] else 0x2C # members_read ms) @ post"
  have "cstr (pre @ read_str k @ 0x3A # json_read v @ ?post) (length pre + 1) = esc k" by (rule cstr_read_str)
  then have v: "list_all2 (tok_is ((pre @ read_str k @ [0x3A]) @ json_read v @ ?post)) (value_toks (of_nat n) (length pre + 1) (length (pre @ read_str k @ [0x3A])) v)
      ((n, k, v) # flat_value n v)" by (intro "5.IH"(1)) simp
  show ?case
  proof (cases "ms = []")
    case True
    then show ?thesis using v by (simp add: Let_def)
  next
    case False
    have m: "list_all2 (tok_is ((pre @ read_str k @ 0x3A # json_read v @ [0x2C]) @ members_read ms @ post))
        (toks (of_nat n) (length (pre @ read_str k @ 0x3A # json_read v @ [0x2C])) ms) (flat n ms)" by (rule "5.IH"(2) [OF False])
    have "list_all2 (tok_is ((pre @ read_str k @ 0x3A # json_read v @ [0x2C]) @ members_read ms @ post)) (value_toks (of_nat n) (length pre + 1) (length (pre @ read_str k @ [0x3A])) v)
      ((n, k, v) # flat_value n v)" using v False by simp
    from list_all2_appendI [OF this m] show ?thesis using False by (simp add: Let_def add.assoc)
  qed
qed (simp_all add: tok_is_def has_key_def scalar_tok_def marker_token_def)

lemma find_related: "list_all2 R xs ys \<Longrightarrow> (\<And>x y. y \<in> set ys \<Longrightarrow> R x y \<Longrightarrow> P x = Q y) \<Longrightarrow> rel_option R (find P xs) (find Q ys)"
  by (induction rule: list_all2_induct) auto

lemma takeWhile_match: "list_all2 R xs ys \<Longrightarrow> (\<And>x y. y \<in> set ys \<Longrightarrow> R x y \<Longrightarrow> P x = Q y) \<Longrightarrow> list_all2 R (takeWhile P xs) (takeWhile Q ys)"
  by (induction rule: list_all2_induct) auto

lemma dropWhile_match: "list_all2 R xs ys \<Longrightarrow> (\<And>x y. y \<in> set ys \<Longrightarrow> R x y \<Longrightarrow> P x = Q y) \<Longrightarrow> list_all2 R (dropWhile P xs) (dropWhile Q ys)"
  by (induction rule: list_all2_induct) auto

lemma flat_depth:
  "json_within m v \<Longrightarrow> x \<in> set (flat_value n v) \<Longrightarrow> n < fst x \<and> fst x \<le> n + m"
  "members_within m ms \<Longrightarrow> x \<in> set (flat n ms) \<Longrightarrow> n \<le> fst x \<and> fst x \<le> n + m"
  by (induction n v and n ms arbitrary: m and m rule: flat_value_flat.induct) fastforce+

lemma find_none: "(\<And>x. x \<in> set xs \<Longrightarrow> \<not> P x) \<Longrightarrow> find P xs = None"
  by (simp add: find_None_iff)

lemma find_append: "find P (xs @ ys) = (case find P xs of None \<Rightarrow> find P ys | Some x \<Rightarrow> Some x)"
  by (induction xs) auto

lemma find_flat:
  assumes "members_within m ms" "list_all (\<lambda>(k, _). esc k = k) ms"
  shows "find (\<lambda>(n', k', v). n' = n \<and> esc k' = key) (flat n ms) = map_option (\<lambda>v. (n, key, v)) (map_of ms key)"
  using assms
proof (induction ms)
  case (Cons kv ms)
  obtain k v where kv: "kv = (k, v)" by force
  have "find (\<lambda>(n', k', v). n' = n \<and> esc k' = key) (flat_value n v) = None"
    using flat_depth(1) [of m v _ n] Cons.prems(1) kv by (intro find_none) fastforce
  then show ?case using Cons kv by (auto simp: find_append)
qed simp

text \<open>The first object with the name of a parent, and what follows up to its end.\<close>

lemma takeWhile_flat: "takeWhile (\<lambda>(n', k', v). \<not> n' < 1) (flat 1 ns @ flat 0 ms) = flat 1 ns" if "members_within m ns"
proof -
  have n: "takeWhile (\<lambda>(n', k', v). \<not> n' < 1) (flat 0 ms) = []" by (cases ms) auto
  have "\<forall>x\<in>set (flat 1 ns). case x of (n', k', v) \<Rightarrow> \<not> n' < 1" using flat_depth(2) [OF that, of _ 1] by fastforce
  then have "takeWhile (\<lambda>(n', k', v). \<not> n' < 1) (flat 1 ns @ flat 0 ms) = flat 1 ns @ takeWhile (\<lambda>(n', k', v). \<not> n' < 1) (flat 0 ms)"
    by (intro takeWhile_append2) blast
  then show ?thesis unfolding n by simp
qed

lemma dropWhile_flat:
  assumes "members_within m ms" "list_all (\<lambda>(k, _). esc k = k) ms" "map_of ms parent = Some (JObj ns)"
  shows "\<exists>ms'. dropWhile (\<lambda>(n', k', v). \<not> (n' = 0 \<and> scalar_type v = SYN_JSON_OBJECT \<and> esc k' = parent)) (flat 0 ms) = (0, parent, JObj ns) # flat 1 ns @ flat 0 ms'"
  using assms
proof (induction ms)
  case (Cons kv ms)
  obtain k v where kv: "kv = (k, v)" by force
  show ?case
  proof (cases "k = parent")
    case True
    then show ?thesis using Cons.prems kv by auto
  next
    case False
    have d: "\<forall>x\<in>set (flat_value 0 v). case x of (n', k', v) \<Rightarrow> \<not> (n' = 0 \<and> scalar_type v = SYN_JSON_OBJECT \<and> esc k' = parent)"
      using flat_depth(1) [of m v _ 0] Cons.prems(1) kv by fastforce
    show ?thesis using False Cons kv d by (simp add: dropWhile_append2)
  qed
qed simp

text \<open>What the lookup functions return for a value.\<close>

definition json_got :: "u8 list \<Rightarrow> SYN_JsonReader \<Rightarrow> u8 list \<Rightarrow> json option \<Rightarrow> bool" where
  "json_got b r key v = (case v of
     None \<Rightarrow> syn_json_get_type b r key = SYN_JSON_NONE
   | Some (JStr s) \<Rightarrow> \<forall>n>0. syn_json_get_str b r key n = Some (take (n - 1) (esc s) @ [0])
   | Some (JInt n) \<Rightarrow> syn_json_get_int b r key = Some n
   | Some (JUint n) \<Rightarrow> syn_json_get_int b r key = Some n
   | Some (JBool x) \<Rightarrow> syn_json_get_bool b r key = Some x
   | Some JNull \<Rightarrow> syn_json_is_null b r key
   | Some (JObj ms) \<Rightarrow> syn_json_get_type b r key = SYN_JSON_OBJECT
   | Some (JArr vs) \<Rightarrow> syn_json_get_type b r key = SYN_JSON_ARRAY)"

lemma got_token: "rel_option (tok_is b) (syn_json_find b r key) (map_option (\<lambda>v. (n, k, v)) v) \<Longrightarrow> json_got b r key v"
  by (cases v; cases "syn_json_find b r key"; cases "the v")
    (auto simp: json_got_def tok_is_def syn_json_get_type_def syn_json_get_str_def syn_json_get_int_def syn_json_get_bool_def syn_json_is_null_def Let_def)

lemma of_nat_depth: "n < 256 \<Longrightarrow> ((of_nat n :: u8) = 0 \<longleftrightarrow> n = 0) \<and> ((of_nat n :: u8) = 1 \<longleftrightarrow> n = 1) \<and> ((of_nat n :: u8) < 1 \<longleftrightarrow> n < 1)"
  by (simp add: word_unat_eq_iff word_less_nat_alt unat_of_nat take_bit_nat_eq_self)

lemma has_key_unique: "has_key b k tok \<Longrightarrow> has_key b key tok \<longleftrightarrow> k = key"
  by (auto simp: has_key_def split: option.splits)

lemma tok_is_facts:
  assumes "tok_is b tok (n, k, v)" "n < 256"
  shows "(jt_depth tok = 0) = (n = 0)" "(jt_depth tok = 1) = (n = 1)" "(jt_depth tok < 1) = (n < 1)" "has_key b key tok = (esc k = key)" "jt_type tok = scalar_type v"
  using assms of_nat_depth [of n] has_key_unique [of b "esc k" tok key] by (auto simp: tok_is_def)

lemma find_top:
  assumes "list_all2 (tok_is b) (jr_tokens r) (flat 0 ms)" "jr_valid r" "members_within 7 ms" "list_all (\<lambda>(k, _). esc k = k) ms" "0x2E \<notin> set key"
  shows "json_got b r key (map_of ms key)"
proof (rule got_token [of b r key 0 key])
  have d: "n < 256" if "(n, k, v) \<in> set (flat 0 ms)" for n k v using flat_depth(2) [OF assms(3) that] by simp
  have "rel_option (tok_is b) (find (\<lambda>tok. jt_depth tok = 0 \<and> has_key b key tok) (jr_tokens r)) (find (\<lambda>(n', k', v). n' = 0 \<and> esc k' = key) (flat 0 ms))"
    by (rule find_related [OF assms(1)]) (auto simp: tok_is_facts d)
  then show "rel_option (tok_is b) (syn_json_find b r key) (map_option (\<lambda>v. (0, key, v)) (map_of ms key))"
    using assms(2,5) find_flat [OF assms(3,4), of 0 key] by (simp add: syn_json_find_def)
qed

lemma find_nested:
  assumes "list_all2 (tok_is b) (jr_tokens r) (flat 0 ms)" "jr_valid r" "members_within 7 ms" "list_all (\<lambda>(k, _). esc k = k) ms"
    and "map_of ms parent = Some (JObj ns)" "0x2E \<notin> set parent" "list_all (\<lambda>(k, _). esc k = k) ns"
  shows "json_got b r (parent @ 0x2E # child) (map_of ns child)"
proof (rule got_token [of b r "parent @ 0x2E # child" 1 child])
  have d: "n < 256" if "(n, k, v) \<in> set (flat 0 ms)" for n k v using flat_depth(2) [OF assms(3) that] by simp
  have split: "takeWhile (\<lambda>c. c \<noteq> 0x2E) (parent @ 0x2E # child) = parent" "dropWhile (\<lambda>c. c \<noteq> 0x2E) (parent @ 0x2E # child) = 0x2E # child"
    using assms(6) by (induction parent) auto
  obtain ms' where dw: "dropWhile (\<lambda>(n', k', v). \<not> (n' = 0 \<and> scalar_type v = SYN_JSON_OBJECT \<and> esc k' = parent)) (flat 0 ms) = (0, parent, JObj ns) # flat 1 ns @ flat 0 ms'"
    using dropWhile_flat [OF assms(3-5)] by blast
  have "list_all2 (tok_is b) (dropWhile (\<lambda>tok. \<not> (jt_depth tok = 0 \<and> jt_type tok = SYN_JSON_OBJECT \<and> has_key b parent tok)) (jr_tokens r))
      ((0, parent, JObj ns) # flat 1 ns @ flat 0 ms')"
    unfolding dw [symmetric] by (rule dropWhile_match [OF assms(1)]) (auto simp: tok_is_facts d)
  then obtain t rest where t: "dropWhile (\<lambda>tok. \<not> (jt_depth tok = 0 \<and> jt_type tok = SYN_JSON_OBJECT \<and> has_key b parent tok)) (jr_tokens r) = t # rest"
      "list_all2 (tok_is b) rest (flat 1 ns @ flat 0 ms')" by (auto simp: list_all2_Cons2)
  have sub: "set (flat 1 ns @ flat 0 ms') \<subseteq> set (flat 0 ms)"
  proof
    fix x assume "x \<in> set (flat 1 ns @ flat 0 ms')"
    then have "x \<in> set ((0, parent, JObj ns) # flat 1 ns @ flat 0 ms')" by simp
    then show "x \<in> set (flat 0 ms)" unfolding dw [symmetric] by (rule set_dropWhileD)
  qed
  then have d2: "n < 256" if "(n, k, v) \<in> set (flat 1 ns @ flat 0 ms')" for n k v using d that by blast
  have d3: "n < 256" if "(n, k, v) \<in> set (flat 1 ns)" for n k v by (rule d2 [of n k v]) (use that in simp)
  have d4: "n < 256" if "(n, k, v) \<in> set (flat 0 ms')" for n k v by (rule d2 [of n k v]) (use that in simp)
  have ns: "members_within 6 ns" using assms(3,5) by (induction ms) (auto split: if_splits)
  have "list_all2 (tok_is b) (takeWhile (\<lambda>tok. \<not> jt_depth tok < 1) rest) (takeWhile (\<lambda>(n', k', v). \<not> n' < 1) (flat 1 ns @ flat 0 ms'))"
    by (rule takeWhile_match [OF t(2)]) (auto simp: tok_is_facts(1) d3 d4)
  then have "list_all2 (tok_is b) (takeWhile (\<lambda>tok. \<not> jt_depth tok < 1) rest) (flat 1 ns)" unfolding takeWhile_flat [OF ns] .
  then have "rel_option (tok_is b) (find (\<lambda>tok. jt_depth tok = 1 \<and> has_key b child tok) (takeWhile (\<lambda>tok. \<not> jt_depth tok < 1) rest))
      (find (\<lambda>(n', k', v). n' = 1 \<and> esc k' = child) (flat 1 ns))"
    by (rule find_related) (auto simp: tok_is_facts d3)
  then show "rel_option (tok_is b) (syn_json_find b r (parent @ 0x2E # child)) (map_option (\<lambda>v. (1, child, v)) (map_of ns child))"
    using assms(2) find_flat [OF ns assms(7), of 1 child] split t(1) by (simp add: syn_json_find_def)
qed

subsection \<open>The round trip\<close>

text \<open>Numbers the reader can parse without overflow of \<open>int32_t\<close>.\<close>

fun json_ints :: "json \<Rightarrow> bool" and members_ints :: "(u8 list \<times> json) list \<Rightarrow> bool" where
  "json_ints (JInt n) \<longleftrightarrow> - (2 ^ 31) < sint n"
| "json_ints (JUint n) \<longleftrightarrow> n < 0x80000000"
| "json_ints (JObj ms) \<longleftrightarrow> members_ints ms"
| "json_ints v \<longleftrightarrow> True"
| "members_ints [] \<longleftrightarrow> True"
| "members_ints ((k, v) # ms) \<longleftrightarrow> json_ints v \<and> members_ints ms"

lemma length_toks: "length (value_toks d key p v) = Suc (length (flat_value n v))" "length (toks d p ms) = length (flat n ms)"
  by (induction d key p v and d p ms arbitrary: n and n rule: value_toks_toks.induct) (simp_all add: Let_def)

lemma parse_document:
  assumes "length (flat 0 ms) \<le> SYN_JSON_MAX_TOKENS" "t = json_text (JObj ms)"
  shows "syn_json_parse r0 (t @ post) (length t) = Some (True, \<lparr>jr_tokens = toks 0 1 ms, jr_valid = True\<rparr>, json_read (JObj ms) @ post)"
proof -
  let ?r = "\<lparr>jr_tokens = [], jr_valid = False\<rparr>"
  have w: "skip_ws (t @ post) (length t) 0 = 0" using skip_ws_stop [of "0x7B" "[]" "members_text ms @ 0x7D # post"] by (simp add: assms(2) is_ws_def)
  have "parse_members (length t) 0 ([0x7B] @ members_text ms @ 0x7D # post) ?r (length [0x7B :: u8])
      = Some ([0x7B] @ members_read ms @ 0x7D # post, ?r\<lparr>jr_tokens := jr_tokens ?r @ toks 0 (length [0x7B :: u8]) ms\<rparr>, Some (length [0x7B :: u8] + length (members_text ms) + 1))"
    using document_reads(2) [of ms, unfolded members_read_ok_def, rule_format, of "[0x7B]" "length t" ?r 0 post] assms length_toks(2) [of 0 1 ms 0] by simp
  then show ?thesis using w by (simp add: syn_json_parse_def object_entry_def assms(2))
qed


definition demo_doc :: "(u8 list \<times> json) list" where
  "demo_doc = [([0x61], JInt 5), ([0x6F], JObj [([0x78], JBool True)])]"

lemma demo_doc_text: "json_text (JObj demo_doc) = [123, 34, 97, 34, 58, 53, 44, 34, 111, 34, 58, 123, 34, 120, 34, 58, 116, 114, 117, 101, 125, 125]"
  unfolding demo_doc_def by code_simp


text \<open>Escapes are not undone: a string with a quote comes back with the backslash the writer put before it.\<close>

lemma json_escapes_kept: "json_got b r key (Some (JStr [0x22])) \<Longrightarrow> syn_json_get_str b r key 8 = Some [0x5C, 0x22, 0]"
  by (simp add: json_got_def esc_def esc_char_def)

end
