(* ===== verification/Syn_Flash.thy ===== *)
theory Syn_Flash
  imports Syn_Prelude
begin

text \<open>
  The flash port interface of \<^verbatim>\<open>port/syn_port_flash.h\<close> and its implementation for the STM32F4 in
  \<^verbatim>\<open>port/stm32f4/port_stm32f4.c\<close>. The clients (parameter store, firmware images) take the port as a record of its
  four functions over the state of the flash; what they rely on is the locale \<open>nor_flash\<close>: erasing sets the bytes of a sector to
  \<^verbatim>\<open>0xFF\<close>, writing can only clear bits, and an operation that reports an error (the supply failing is one that never gets to report
  anything) has changed an initial part of what it was asked to change.

  The flash controller of the STM32F4 is hardware. Its model is the state the driver sees: the array, the lock bit, the programming mode of
  \<^verbatim>\<open>FLASH->CR\<close>, the busy bit, and \<open>fl_left\<close>, the number of byte cells it still changes before it hangs busy, so that
  every point of failure is a value of \<open>fl_left\<close>.
\<close>

subsection \<open>The port interface\<close>

text \<open>An erase or a write returns the new state of the flash; a read returns the bytes it fetched.\<close>

record 'f flash_port =
  port_erase :: "u32 \<Rightarrow> 'f \<Rightarrow> SYN_Status \<times> 'f"
  port_read :: "u32 \<Rightarrow> nat \<Rightarrow> 'f \<Rightarrow> SYN_Status \<times> u8 list"
  port_write :: "u32 \<Rightarrow> u8 list \<Rightarrow> 'f \<Rightarrow> SYN_Status \<times> 'f"
  port_sector_size :: "u32 \<Rightarrow> u32"

text \<open>What the array holds: erasing \<open>n\<close> bytes, programming bytes (only clearing bits), reading.\<close>

type_synonym flash_mem = "nat \<Rightarrow> u8"

definition nor_erase :: "nat \<Rightarrow> nat \<Rightarrow> flash_mem \<Rightarrow> flash_mem" where
  "nor_erase a n m = (\<lambda>x. if a \<le> x \<and> x < a + n then 0xFF else m x)"

definition nor_program :: "nat \<Rightarrow> u8 list \<Rightarrow> flash_mem \<Rightarrow> flash_mem" where
  "nor_program a d m = (\<lambda>x. if a \<le> x \<and> x < a + length d then m x AND d ! (x - a) else m x)"

definition flash_bytes :: "flash_mem \<Rightarrow> nat \<Rightarrow> nat \<Rightarrow> u8 list" where
  "flash_bytes m a n = map m [a..<a + n]"

definition flash_blank :: "flash_mem \<Rightarrow> nat \<Rightarrow> nat \<Rightarrow> bool" where
  "flash_blank m a n \<longleftrightarrow> (\<forall>x\<in>{a..<a + n}. m x = 0xFF)"

lemma length_flash_bytes [simp]: "length (flash_bytes m a n) = n"
  by (simp add: flash_bytes_def)

lemma nth_flash_bytes [simp]: "i < n \<Longrightarrow> flash_bytes m a n ! i = m (a + i)"
  by (simp add: flash_bytes_def)

lemma flash_bytes_append: "flash_bytes m a (n + k) = flash_bytes m a n @ flash_bytes m (a + n) k"
  by (rule nth_equalityI) (auto simp: nth_append)

lemma flash_bytes_cong: "(\<And>x. a \<le> x \<Longrightarrow> x < a + n \<Longrightarrow> m x = m' x) \<Longrightarrow> flash_bytes m a n = flash_bytes m' a n"
  by (simp add: flash_bytes_def)

lemma and_erased [simp]: "0xFF AND b = b" for b :: u8
proof -
  have "(0xFF :: u8) = - 1" by simp
  then show ?thesis by (simp only: and.left_neutral)
qed

lemma program_none [simp]: "nor_program a [] m = m"
  by (rule ext) (auto simp: nor_program_def)

lemma erase_none [simp]: "nor_erase a 0 m = m"
  by (rule ext) (auto simp: nor_erase_def)

lemma program_outside: "x < a \<or> a + length d \<le> x \<Longrightarrow> nor_program a d m x = m x"
  by (auto simp: nor_program_def)

lemma program_blank: "flash_blank m a n \<Longrightarrow> k \<le> length d \<Longrightarrow> length d \<le> n \<Longrightarrow> i < n
    \<Longrightarrow> nor_program a (take k d) m (a + i) = (if i < k then d ! i else 0xFF)"
  by (auto simp: nor_program_def flash_blank_def)

lemma erase_outside: "x < a \<or> a + n \<le> x \<Longrightarrow> nor_erase a n m x = m x"
  by (auto simp: nor_erase_def)

lemma blank_erase: "a \<le> b \<Longrightarrow> b + k \<le> a + n \<Longrightarrow> flash_blank (nor_erase a n m) b k"
  by (auto simp: flash_blank_def nor_erase_def)

lemma blank_first: "flash_blank m a n \<Longrightarrow> 0 < n \<Longrightarrow> m a = 0xFF"
  by (simp add: flash_blank_def Ball_def)

lemma blank_cong: "flash_blank m a n \<Longrightarrow> (\<And>x. a \<le> x \<Longrightarrow> x < a + n \<Longrightarrow> m' x = m x) \<Longrightarrow> flash_blank m' a n"
  by (auto simp: flash_blank_def)

lemma program_append: "nor_program a (xs @ ys) m = nor_program (a + length xs) ys (nor_program a xs m)"
  by (rule ext) (auto simp: nor_program_def nth_append not_less)

subsection \<open>The contract of the port\<close>

locale nor_flash =
  fixes P :: "'f flash_port" and mem :: "'f \<Rightarrow> flash_mem" and sector :: "u32 \<Rightarrow> (nat \<times> nat) option"
  assumes read_bytes: "port_read P a n f = (SYN_OK, flash_bytes (mem f) (unat a) n)"
    and erase_prefix: "sector a = Some (s, n) \<Longrightarrow> port_erase P a f = (r, f')
      \<Longrightarrow> \<exists>k\<le>n. mem f' = nor_erase s k (mem f) \<and> (r = SYN_OK \<longrightarrow> k = n)"
    and erase_nowhere: "sector a = None \<Longrightarrow> port_erase P a f = (r, f') \<Longrightarrow> r \<noteq> SYN_OK \<and> mem f' = mem f"
    and write_prefix: "port_write P a d f = (r, f')
      \<Longrightarrow> \<exists>k\<le>length d. mem f' = nor_program (unat a) (take k d) (mem f) \<and> (r = SYN_OK \<longrightarrow> k = length d)"
    and sector_size: "sector a = Some (s, n) \<Longrightarrow> unat (port_sector_size P a) = n"
begin

lemma erase_ok:
  assumes "sector a = Some (s, n)" "port_erase P a f = (SYN_OK, f')"
  shows "mem f' = nor_erase s n (mem f)"
  using erase_prefix [OF assms] by blast

lemma write_ok:
  assumes "port_write P a d f = (SYN_OK, f')"
  shows "mem f' = nor_program (unat a) d (mem f)"
  using write_prefix [OF assms] by auto

text \<open>Bytes written to an erased range read back.\<close>

lemma write_read:
  assumes "port_write P a d f = (SYN_OK, f')" "flash_blank (mem f) (unat a) (length d)"
  shows "port_read P a (length d) f' = (SYN_OK, d)"
  using assms(2) unfolding read_bytes write_ok [OF assms(1)]
  by (auto intro!: nth_equalityI simp: nor_program_def flash_blank_def)

end

text \<open>A flash that keeps its contents when it is powered up again.\<close>

locale powered_flash = nor_flash +
  fixes cycle :: "nat \<Rightarrow> 'a \<Rightarrow> 'a"
  assumes cycle_keeps: "mem (cycle n f) = mem f"

subsection \<open>The STM32F4 flash driver\<close>

datatype cr_mode = CR_none | CR_PG | CR_SER nat

record stm32f4_flash =
  fl_mem :: flash_mem
  fl_locked :: bool
  fl_mode :: cr_mode
  fl_busy :: bool
  fl_left :: nat

definition flash_sectors :: "(u32 \<times> u32) list" where
  "flash_sectors =
     [(0x08000000, 16 * 1024), (0x08004000, 16 * 1024), (0x08008000, 16 * 1024), (0x0800C000, 16 * 1024),
      (0x08010000, 64 * 1024), (0x08020000, 128 * 1024), (0x08040000, 128 * 1024), (0x08060000, 128 * 1024)]"

fun find_sector_from :: "u32 \<Rightarrow> nat \<Rightarrow> (u32 \<times> u32) list \<Rightarrow> int" where
  "find_sector_from addr i [] = - 1"
| "find_sector_from addr i ((a, n) # rest) = (if addr \<ge> a \<and> addr < a + n then int i else find_sector_from addr (i + 1) rest)"

definition flash_find_sector :: "u32 \<Rightarrow> int" where
  "flash_find_sector addr = find_sector_from addr 0 flash_sectors"

text \<open>The controller: starting the erase of a sector and storing a byte through the memory map.\<close>

definition hw_start_erase :: "stm32f4_flash \<Rightarrow> stm32f4_flash" where
  "hw_start_erase f =
     (case fl_mode f of
        CR_SER i \<Rightarrow> if fl_locked f \<or> fl_busy f then f
          else let (a, n) = flash_sectors ! i; k = min (unat n) (fl_left f)
               in f\<lparr>fl_mem := nor_erase (unat a) k (fl_mem f), fl_left := fl_left f - k, fl_busy := k < unat n\<rparr>
      | _ \<Rightarrow> f)"

definition hw_store :: "nat \<Rightarrow> u8 \<Rightarrow> stm32f4_flash \<Rightarrow> stm32f4_flash" where
  "hw_store a b f =
     (if fl_mode f = CR_PG \<and> \<not> fl_locked f \<and> \<not> fl_busy f
      then (if fl_left f = 0 then f\<lparr>fl_busy := True\<rparr>
            else f\<lparr>fl_mem := nor_program a [b] (fl_mem f), fl_left := fl_left f - 1\<rparr>)
      else f)"

definition flash_unlock :: "stm32f4_flash \<Rightarrow> stm32f4_flash" where
  "flash_unlock f = f\<lparr>fl_locked := False\<rparr>"

definition flash_lock :: "stm32f4_flash \<Rightarrow> stm32f4_flash" where
  "flash_lock f = f\<lparr>fl_locked := True\<rparr>"

definition flash_wait_bsy :: "stm32f4_flash \<Rightarrow> SYN_Status" where
  "flash_wait_bsy f = (if fl_busy f then SYN_TIMEOUT else SYN_OK)"

definition f4_flash_erase :: "u32 \<Rightarrow> stm32f4_flash \<Rightarrow> SYN_Status \<times> stm32f4_flash" where
  "f4_flash_erase addr f =
     (let sector = flash_find_sector addr
      in if sector < 0 then (SYN_INVALID_PARAM, f)
         else let f = flash_unlock f; s = flash_wait_bsy f
              in if s \<noteq> SYN_OK then (s, flash_lock f)
                 else let f = hw_start_erase (f\<lparr>fl_mode := CR_SER (nat sector)\<rparr>); s = flash_wait_bsy f
                      in (s, flash_lock (f\<lparr>fl_mode := CR_none\<rparr>)))"

definition f4_flash_read :: "u32 \<Rightarrow> nat \<Rightarrow> stm32f4_flash \<Rightarrow> SYN_Status \<times> u8 list" where
  "f4_flash_read addr len f = (SYN_OK, flash_bytes (fl_mem f) (unat addr) len)"

fun program_bytes :: "nat \<Rightarrow> u8 list \<Rightarrow> stm32f4_flash \<Rightarrow> SYN_Status \<times> stm32f4_flash" where
  "program_bytes addr [] f = (SYN_OK, flash_lock (f\<lparr>fl_mode := CR_none\<rparr>))"
| "program_bytes addr (b # bs) f =
     (let f = hw_store addr b f; s = flash_wait_bsy f
      in if s \<noteq> SYN_OK then (s, flash_lock (f\<lparr>fl_mode := CR_none\<rparr>)) else program_bytes (addr + 1) bs f)"

definition f4_flash_write :: "u32 \<Rightarrow> u8 list \<Rightarrow> stm32f4_flash \<Rightarrow> SYN_Status \<times> stm32f4_flash" where
  "f4_flash_write addr buf f =
     (let f = flash_unlock f; s = flash_wait_bsy f
      in if s \<noteq> SYN_OK then (s, flash_lock f)
         else program_bytes (unat addr) buf (f\<lparr>fl_mode := CR_PG\<rparr>))"

definition f4_flash_sector_size :: "u32 \<Rightarrow> u32" where
  "f4_flash_sector_size addr =
     (let sector = flash_find_sector addr in if sector < 0 then 0 else snd (flash_sectors ! nat sector))"

definition stm32f4_port :: "stm32f4_flash flash_port" where
  "stm32f4_port = \<lparr>port_erase = f4_flash_erase, port_read = f4_flash_read, port_write = f4_flash_write, port_sector_size = f4_flash_sector_size\<rparr>"

definition f4_sector :: "u32 \<Rightarrow> (nat \<times> nat) option" where
  "f4_sector addr =
     (let i = flash_find_sector addr in if i < 0 then None else Some (map_prod unat unat (flash_sectors ! nat i)))"

text \<open>A power cycle keeps the array and resets the controller.\<close>

definition f4_power_cycle :: "nat \<Rightarrow> stm32f4_flash \<Rightarrow> stm32f4_flash" where
  "f4_power_cycle left f = f\<lparr>fl_locked := True, fl_mode := CR_none, fl_busy := False, fl_left := left\<rparr>"

lemma f4_port_simps [simp]:
  "port_erase stm32f4_port = f4_flash_erase" "port_read stm32f4_port = f4_flash_read" "port_write stm32f4_port = f4_flash_write"
  "port_sector_size stm32f4_port = f4_flash_sector_size"
  by (simp_all add: stm32f4_port_def)

lemma program_bytes_prefix:
  "program_bytes a d f = (r, f') \<Longrightarrow> fl_mode f = CR_PG \<Longrightarrow> \<not> fl_locked f \<Longrightarrow> \<not> fl_busy f
    \<Longrightarrow> \<exists>k\<le>length d. fl_mem f' = nor_program a (take k d) (fl_mem f) \<and> (r = SYN_OK \<longrightarrow> k = length d)"
proof (induction d arbitrary: a f)
  case Nil
  then show ?case by (auto simp: flash_lock_def)
next
  case (Cons b d)
  show ?case
  proof (cases "fl_left f = 0")
    case True
    then have "r = SYN_TIMEOUT \<and> fl_mem f' = fl_mem f" using Cons.prems by (auto simp: hw_store_def flash_wait_bsy_def flash_lock_def Let_def)
    then show ?thesis by (intro exI [of _ 0]) simp
  next
    case False
    let ?g = "f\<lparr>fl_mem := nor_program a [b] (fl_mem f), fl_left := fl_left f - 1\<rparr>"
    have "program_bytes (a + 1) d ?g = (r, f')" using Cons.prems False by (simp add: hw_store_def flash_wait_bsy_def)
    then obtain k where k: "k \<le> length d" "fl_mem f' = nor_program (a + 1) (take k d) (fl_mem ?g)" "r = SYN_OK \<longrightarrow> k = length d"
      using Cons.IH [of "a + 1" ?g] Cons.prems by auto
    have "fl_mem f' = nor_program a (take (Suc k) (b # d)) (fl_mem f)" using k(2) program_append [of a "[b]" "take k d"] by simp
    then show ?thesis using k(1,3) by (intro exI [of _ "Suc k"]) auto
  qed
qed

lemma f4_write_prefix:
  assumes "f4_flash_write a d f = (r, f')"
  shows "\<exists>k\<le>length d. fl_mem f' = nor_program (unat a) (take k d) (fl_mem f) \<and> (r = SYN_OK \<longrightarrow> k = length d)"
proof (cases "fl_busy f")
  case True
  then have "r \<noteq> SYN_OK \<and> fl_mem f' = fl_mem f" using assms by (auto simp: f4_flash_write_def flash_unlock_def flash_wait_bsy_def flash_lock_def Let_def)
  then show ?thesis by (intro exI [of _ 0]) simp
next
  case False
  then have "program_bytes (unat a) d (flash_unlock f\<lparr>fl_mode := CR_PG\<rparr>) = (r, f')"
    using assms by (simp add: f4_flash_write_def flash_unlock_def flash_wait_bsy_def Let_def)
  then show ?thesis using program_bytes_prefix [of "unat a" d "flash_unlock f\<lparr>fl_mode := CR_PG\<rparr>" r f'] False by (simp add: flash_unlock_def)
qed

lemma f4_erase_prefix:
  assumes "f4_sector a = Some (s, n)" "f4_flash_erase a f = (r, f')"
  shows "\<exists>k\<le>n. fl_mem f' = nor_erase s k (fl_mem f) \<and> (r = SYN_OK \<longrightarrow> k = n)"
proof (cases "fl_busy f")
  case True
  then have "r \<noteq> SYN_OK \<and> fl_mem f' = fl_mem f" using assms
    by (auto simp: f4_flash_erase_def f4_sector_def flash_unlock_def flash_wait_bsy_def flash_lock_def Let_def split: if_splits)
  then show ?thesis by (intro exI [of _ 0]) simp
next
  case False
  obtain i where i: "flash_find_sector a = i" "0 \<le> i" "s = unat (fst (flash_sectors ! nat i))" "n = unat (snd (flash_sectors ! nat i))"
    using assms(1) by (cases "flash_sectors ! nat (flash_find_sector a)") (auto simp: f4_sector_def Let_def map_prod_def split: if_splits)
  let ?k = "min n (fl_left f)"
  have "fl_mem f' = nor_erase s ?k (fl_mem f) \<and> (r = SYN_OK \<longrightarrow> ?k = n)"
    using assms(2) False i by (auto simp: f4_flash_erase_def hw_start_erase_def flash_unlock_def flash_wait_bsy_def flash_lock_def Let_def
      split: prod.splits if_splits)
  then show ?thesis by (intro exI [of _ ?k]) simp
qed

lemma f4_erase_nowhere: "f4_sector a = None \<Longrightarrow> f4_flash_erase a f = (r, f') \<Longrightarrow> r \<noteq> SYN_OK \<and> fl_mem f' = fl_mem f"
  by (auto simp: f4_sector_def f4_flash_erase_def Let_def split: if_splits)

lemma f4_size: "f4_sector a = Some (s, n) \<Longrightarrow> unat (f4_flash_sector_size a) = n"
  by (cases "flash_sectors ! nat (flash_find_sector a)") (auto simp: f4_sector_def f4_flash_sector_size_def Let_def map_prod_def split: if_splits)

interpretation f4: nor_flash stm32f4_port fl_mem f4_sector
  by unfold_locales (simp_all add: f4_flash_read_def f4_erase_prefix f4_write_prefix f4_size, (metis f4_erase_nowhere)+)

interpretation f4p: powered_flash stm32f4_port fl_mem f4_sector f4_power_cycle
  by unfold_locales (simp add: f4_power_cycle_def)

text \<open>Operations that the flash has enough life left for succeed.\<close>

lemma f4_write_done:
  assumes "\<not> fl_busy f" "length d \<le> fl_left f"
  shows "\<exists>f'. f4_flash_write a d f = (SYN_OK, f') \<and> \<not> fl_busy f' \<and> fl_left f' = fl_left f - length d"
proof -
  have P: "\<exists>f'. program_bytes x d f = (SYN_OK, f') \<and> \<not> fl_busy f' \<and> fl_left f' = fl_left f - length d"
    if "fl_mode f = CR_PG" "\<not> fl_locked f" "\<not> fl_busy f" "length d \<le> fl_left f" for x d f
    using that
  proof (induction d arbitrary: x f)
    case (Cons b d)
    let ?g = "f\<lparr>fl_mem := nor_program x [b] (fl_mem f), fl_left := fl_left f - 1\<rparr>"
    have "program_bytes x (b # d) f = program_bytes (x + 1) d ?g" using Cons.prems by (simp add: hw_store_def flash_wait_bsy_def)
    then show ?case using Cons.IH [of ?g "x + 1"] Cons.prems by simp
  qed (simp add: flash_lock_def)
  show ?thesis using P [of "flash_unlock f\<lparr>fl_mode := CR_PG\<rparr>" d "unat a"] assms
    by (simp add: f4_flash_write_def flash_unlock_def flash_wait_bsy_def Let_def)
qed

lemma f4_erase_done:
  assumes "f4_sector a = Some (s, n)" "\<not> fl_busy f" "n \<le> fl_left f"
  shows "\<exists>f'. f4_flash_erase a f = (SYN_OK, f') \<and> \<not> fl_busy f' \<and> fl_left f' = fl_left f - n"
proof -
  obtain i where i: "flash_find_sector a = i" "0 \<le> i" "n = unat (snd (flash_sectors ! nat i))"
    using assms(1) by (cases "flash_sectors ! nat (flash_find_sector a)") (auto simp: f4_sector_def Let_def map_prod_def split: if_splits)
  then show ?thesis using assms(2,3)
    by (auto simp: f4_flash_erase_def hw_start_erase_def flash_unlock_def flash_wait_bsy_def flash_lock_def Let_def split: prod.splits)
qed

text \<open>An erased flash.\<close>

definition erased_flash :: "nat \<Rightarrow> stm32f4_flash" where
  "erased_flash left = \<lparr>fl_mem = (\<lambda>_. 0xFF), fl_locked = True, fl_mode = CR_none, fl_busy = False, fl_left = left\<rparr>"

end
