(* ===== verification/Syn_Param.thy ===== *)
theory Syn_Param
  imports Syn_Flash Syn_Crc Syn_Pack
begin

text \<open>
  The persistent parameter store of \<^verbatim>\<open>storage/syn_param.c\<close>: a block of parameters kept in rotating slots of a few flash sectors, each
  slot a header (magic, sequence number, size, CRC-16) and the data. A save goes to the next slot, data first and header last; a scan at start-up
  takes the valid slot with the latest sequence number, compared by the sign of a 16-bit difference. The flash is a port argument (theory
  \<open>Syn_Flash\<close>); structures are stored little-endian. The eight padding bytes of the header are not initialised by the code: they are the
  argument \<open>pad\<close> of a save.
\<close>

subsection \<open>Slot headers and the store\<close>

definition SYN_PARAM_MAGIC :: u16 where "SYN_PARAM_MAGIC = 0xC0DE"

record SYN_ParamSlotHeader =
  hd_magic :: u16
  hd_seq :: u16
  hd_data_size :: u16
  hd_crc :: u16
  hd_pad :: "u8 list"

definition HDR_LEN :: nat where "HDR_LEN = 16"

definition param_header_bytes :: "SYN_ParamSlotHeader \<Rightarrow> u8 list" where
  "param_header_bytes h = enc_u16_le (hd_magic h) @ enc_u16_le (hd_seq h) @ enc_u16_le (hd_data_size h) @ enc_u16_le (hd_crc h) @ hd_pad h"

definition header_of_bytes :: "u8 list \<Rightarrow> SYN_ParamSlotHeader" where
  "header_of_bytes bs = \<lparr>hd_magic = syn_peek_u16_le bs 0, hd_seq = syn_peek_u16_le bs 2, hd_data_size = syn_peek_u16_le bs 4,
     hd_crc = syn_peek_u16_le bs 6, hd_pad = drop 8 bs\<rparr>"

record SYN_ParamStore =
  ps_flash_base :: u32
  ps_sector_size :: u32
  ps_sector_count :: u8
  ps_data_size :: u16
  ps_slot_size :: u16
  ps_slots_per_sector :: u16
  ps_active_sector :: u8
  ps_active_slot :: u16
  ps_next_seq :: u16
  ps_initialized :: bool
  ps_has_active_slot :: bool

definition align16 :: "u16 \<Rightarrow> u16" where
  "align16 sz = ucast ((ucast sz + 15 :: u32) AND NOT 15)"

definition slot_addr :: "SYN_ParamStore \<Rightarrow> u8 \<Rightarrow> u16 \<Rightarrow> u32" where
  "slot_addr store sector slot =
     ps_flash_base store + ucast sector * ps_sector_size store + ucast slot * ucast (ps_slot_size store)"

subsection \<open>Reading a slot\<close>

function verify_crc_loop :: "'f flash_port \<Rightarrow> u32 \<Rightarrow> u16 \<Rightarrow> nat \<Rightarrow> 'f \<Rightarrow> u16 option" where
  "verify_crc_loop P addr crc remaining f =
     (if remaining = 0 then Some crc
      else let len = (if remaining > 32 then 32 else remaining); (st, chunk) = port_read P addr len f
           in if st \<noteq> SYN_OK then None
              else verify_crc_loop P (addr + of_nat len) (syn_crc16_ccitt_update crc chunk) (remaining - len) f)"
  by pat_completeness auto
termination by (relation "measure (\<lambda>(P, addr, crc, remaining, f). remaining)") auto

declare verify_crc_loop.simps [simp del]

definition verify_slot_crc :: "'f flash_port \<Rightarrow> SYN_ParamStore \<Rightarrow> u8 \<Rightarrow> u16 \<Rightarrow> u16 \<Rightarrow> 'f \<Rightarrow> bool" where
  "verify_slot_crc P store sector slot expected_crc f =
     (verify_crc_loop P (slot_addr store sector slot + of_nat HDR_LEN) 0xFFFF (unat (ps_data_size store)) f = Some expected_crc)"

text \<open>The last component is the caller's buffer, \<open>None\<close> for a null pointer; it is overwritten before the CRC is checked.\<close>

definition read_slot ::
  "'f flash_port \<Rightarrow> SYN_ParamStore \<Rightarrow> u8 \<Rightarrow> u16 \<Rightarrow> u8 list option \<Rightarrow> 'f \<Rightarrow> bool \<times> SYN_ParamSlotHeader \<times> u8 list option" where
  "read_slot P store sector slot data f =
     (let addr = slot_addr store sector slot; (st, hb) = port_read P addr HDR_LEN f; hdr = header_of_bytes hb
      in if st \<noteq> SYN_OK then (False, hdr, data)
         else if hd_magic hdr \<noteq> SYN_PARAM_MAGIC then (False, hdr, data)
         else if hd_data_size hdr \<noteq> ps_data_size store then (False, hdr, data)
         else (case data of
             Some buf \<Rightarrow>
               (let (st, bytes) = port_read P (addr + of_nat HDR_LEN) (unat (ps_data_size store)) f
                in if st \<noteq> SYN_OK then (False, hdr, Some buf)
                   else (syn_crc16_ccitt bytes = hd_crc hdr, hdr, Some bytes))
           | None \<Rightarrow> (verify_slot_crc P store sector slot (hd_crc hdr) f, hdr, None)))"

subsection \<open>Operations\<close>

text \<open>The scan of \<open>syn_param_init\<close>: the best sequence number so far, whether one was found, and the store.\<close>

definition scan_slot ::
  "'f flash_port \<Rightarrow> 'f \<Rightarrow> nat \<Rightarrow> nat \<Rightarrow> u16 \<times> bool \<times> SYN_ParamStore \<Rightarrow> u16 \<times> bool \<times> SYN_ParamStore" where
  "scan_slot P f sec sl acc =
     (let (best_seq, found, store) = acc; (ok, hdr, _) = read_slot P store (of_nat sec) (of_nat sl) None f
      in if ok \<and> (\<not> found \<or> sint (hd_seq hdr - best_seq) > 0)
         then (hd_seq hdr, True, store\<lparr>ps_active_sector := of_nat sec, ps_active_slot := of_nat sl\<rparr>)
         else acc)"

definition scan_all :: "'f flash_port \<Rightarrow> 'f \<Rightarrow> SYN_ParamStore \<Rightarrow> u16 \<times> bool \<times> SYN_ParamStore" where
  "scan_all P f store =
     fold (\<lambda>sec. fold (\<lambda>sl. scan_slot P f sec sl) [0..<unat (ps_slots_per_sector store)]) [0..<unat (ps_sector_count store)] (0, False, store)"

text \<open>The store as \<open>syn_param_init\<close> sets it up before the scan.\<close>

definition param_blank :: "'f flash_port \<Rightarrow> u32 \<Rightarrow> u8 \<Rightarrow> u16 \<Rightarrow> SYN_ParamStore" where
  "param_blank P flash_base sector_count data_size =
     (let ssz = port_sector_size P flash_base; slsz = align16 (of_nat HDR_LEN + data_size)
      in \<lparr>ps_flash_base = flash_base, ps_sector_size = ssz, ps_sector_count = sector_count, ps_data_size = data_size,
          ps_slot_size = slsz, ps_slots_per_sector = ucast (ssz div ucast slsz), ps_active_sector = 0, ps_active_slot = 0,
          ps_next_seq = 0, ps_initialized = False, ps_has_active_slot = False\<rparr>)"

definition syn_param_init ::
  "'f flash_port \<Rightarrow> SYN_ParamStore \<Rightarrow> u32 \<Rightarrow> u8 \<Rightarrow> u16 \<Rightarrow> 'f \<Rightarrow> SYN_Status \<times> SYN_ParamStore" where
  "syn_param_init P store flash_base sector_count data_size f =
     (if sector_count = 0 \<or> data_size = 0 then (SYN_INVALID_PARAM, store)
      else let store = param_blank P flash_base sector_count data_size
           in if ps_slots_per_sector store = 0 then (SYN_ERROR, store)
              else let (best_seq, found, store) = scan_all P f store
                   in if found
                      then (SYN_OK, store\<lparr>ps_next_seq := best_seq + 1, ps_has_active_slot := True, ps_initialized := True\<rparr>)
                      else (SYN_ERROR, store\<lparr>ps_active_sector := 0, ps_active_slot := 0, ps_next_seq := 1,
                              ps_has_active_slot := False, ps_initialized := True\<rparr>))"

definition syn_param_load :: "'f flash_port \<Rightarrow> SYN_ParamStore \<Rightarrow> u8 list \<Rightarrow> 'f \<Rightarrow> SYN_Status \<times> u8 list" where
  "syn_param_load P store data f =
     (if \<not> ps_initialized store then (SYN_INVALID_PARAM, data)
      else let (ok, _, buf) = read_slot P store (ps_active_sector store) (ps_active_slot store) (Some data) f
           in (if ok then SYN_OK else SYN_ERROR, the buf))"

definition sector_addr :: "SYN_ParamStore \<Rightarrow> u8 \<Rightarrow> u32" where
  "sector_addr store sec = ps_flash_base store + ucast sec * ps_sector_size store"

text \<open>The position of the next write, with the erase that prepares it.\<close>

definition next_position :: "'f flash_port \<Rightarrow> SYN_ParamStore \<Rightarrow> 'f \<Rightarrow> SYN_Status \<times> u8 \<times> u16 \<times> 'f" where
  "next_position P store f =
     (let sec = ps_active_sector store; sl = ps_active_slot store
      in if ps_has_active_slot store
         then let sl = sl + 1
              in if sl \<ge> ps_slots_per_sector store
                 then let sec = of_nat ((unat sec + 1) mod unat (ps_sector_count store)); (err, f) = port_erase P (sector_addr store sec) f
                      in (err, sec, 0, f)
                 else (SYN_OK, sec, sl, f)
         else let (err, f) = port_erase P (sector_addr store sec) f in (err, sec, sl, f))"

definition syn_param_save ::
  "'f flash_port \<Rightarrow> SYN_ParamStore \<Rightarrow> u8 list \<Rightarrow> u8 list \<Rightarrow> 'f \<Rightarrow> SYN_Status \<times> SYN_ParamStore \<times> 'f" where
  "syn_param_save P store data pad f =
     (if \<not> ps_initialized store then (SYN_INVALID_PARAM, store, f)
      else let (err, sec, sl, f) = next_position P store f
           in if err \<noteq> SYN_OK then (err, store, f)
              else let hdr = \<lparr>hd_magic = SYN_PARAM_MAGIC, hd_seq = ps_next_seq store, hd_data_size = ps_data_size store,
                              hd_crc = syn_crc16_ccitt data, hd_pad = pad\<rparr>;
                       addr = slot_addr store sec sl; (err, f) = port_write P (addr + of_nat HDR_LEN) data f
                   in if err \<noteq> SYN_OK then (err, store, f)
                      else let (err, f) = port_write P addr (param_header_bytes hdr) f
                           in if err \<noteq> SYN_OK then (err, store, f)
                              else (SYN_OK, store\<lparr>ps_active_sector := sec, ps_active_slot := sl,
                                      ps_next_seq := ps_next_seq store + 1, ps_has_active_slot := True\<rparr>, f))"

fun erase_sectors :: "'f flash_port \<Rightarrow> SYN_ParamStore \<Rightarrow> nat list \<Rightarrow> 'f \<Rightarrow> SYN_Status \<times> 'f" where
  "erase_sectors P store [] f = (SYN_OK, f)"
| "erase_sectors P store (sec # secs) f =
     (let (err, f) = port_erase P (sector_addr store (of_nat sec)) f in if err \<noteq> SYN_OK then (err, f) else erase_sectors P store secs f)"

definition syn_param_erase_all :: "'f flash_port \<Rightarrow> SYN_ParamStore \<Rightarrow> 'f \<Rightarrow> SYN_Status \<times> SYN_ParamStore \<times> 'f" where
  "syn_param_erase_all P store f =
     (if \<not> ps_initialized store then (SYN_INVALID_PARAM, store, f)
      else let (err, f) = erase_sectors P store [0..<unat (ps_sector_count store)] f
           in if err \<noteq> SYN_OK then (err, store, f)
              else (SYN_OK, store\<lparr>ps_active_sector := 0, ps_active_slot := 0, ps_next_seq := 1, ps_has_active_slot := False\<rparr>, f))"

definition syn_param_write_count :: "SYN_ParamStore \<Rightarrow> u16" where
  "syn_param_write_count store = (if ps_next_seq store > 0 then ps_next_seq store - 1 else 0)"

subsection \<open>The contents of a slot\<close>

definition slot_pos :: "SYN_ParamStore \<Rightarrow> nat \<Rightarrow> nat \<Rightarrow> nat" where
  "slot_pos st sec sl = unat (ps_flash_base st) + sec * unat (ps_sector_size st) + sl * unat (ps_slot_size st)"

definition slot_at :: "SYN_ParamStore \<Rightarrow> flash_mem \<Rightarrow> nat \<Rightarrow> nat \<Rightarrow> (u16 \<times> u8 list) option" where
  "slot_at st m sec sl =
     (let a = slot_pos st sec sl; h = header_of_bytes (flash_bytes m a HDR_LEN); d = flash_bytes m (a + HDR_LEN) (unat (ps_data_size st))
      in if hd_magic h = SYN_PARAM_MAGIC \<and> hd_data_size h = ps_data_size st \<and> syn_crc16_ccitt d = hd_crc h then Some (hd_seq h, d) else None)"

text \<open>A region the store can work with: sectors of one size, slots that fit, addresses that do not wrap, and at most half as many slots as
  there are sequence numbers.\<close>

definition geometry :: "(u32 \<Rightarrow> (nat \<times> nat) option) \<Rightarrow> SYN_ParamStore \<Rightarrow> bool" where
  "geometry sector st \<longleftrightarrow>
     0 < unat (ps_sector_count st) \<and> 0 < unat (ps_slots_per_sector st)
   \<and> HDR_LEN + unat (ps_data_size st) \<le> unat (ps_slot_size st)
   \<and> unat (ps_slots_per_sector st) * unat (ps_slot_size st) \<le> unat (ps_sector_size st)
   \<and> unat (ps_flash_base st) + unat (ps_sector_count st) * unat (ps_sector_size st) < 2 ^ 32
   \<and> (\<forall>sec<unat (ps_sector_count st).
        sector (sector_addr st (of_nat sec)) = Some (unat (ps_flash_base st) + sec * unat (ps_sector_size st), unat (ps_sector_size st)))
   \<and> unat (ps_sector_count st) * unat (ps_slots_per_sector st) \<le> 2 ^ 15
   \<and> 0 < unat (ps_data_size st) \<and> unat (ps_data_size st) < 0xFFFF"

lemma slot_end:
  assumes "geometry sector st" "sec < unat (ps_sector_count st)" "sl < unat (ps_slots_per_sector st)"
  shows "slot_pos st sec sl + unat (ps_slot_size st) \<le> unat (ps_flash_base st) + sec * unat (ps_sector_size st) + unat (ps_sector_size st)"
    and "slot_pos st sec sl + unat (ps_slot_size st) < 2 ^ 32"
proof -
  let ?Z = "unat (ps_slot_size st)" and ?C = "unat (ps_sector_size st)" and ?N = "unat (ps_slots_per_sector st)" and ?S = "unat (ps_sector_count st)"
  have "sl * ?Z + ?Z = Suc sl * ?Z" by simp
  also have "\<dots> \<le> ?N * ?Z" using assms(3) by (intro mult_le_mono1) simp
  also have "\<dots> \<le> ?C" using assms(1) by (simp add: geometry_def)
  finally have a: "sl * ?Z + ?Z \<le> ?C" .
  then show "slot_pos st sec sl + ?Z \<le> unat (ps_flash_base st) + sec * ?C + ?C" by (simp add: slot_pos_def)
  have "sec * ?C + ?C = Suc sec * ?C" by simp
  also have "\<dots> \<le> ?S * ?C" using assms(2) by (intro mult_le_mono1) simp
  finally show "slot_pos st sec sl + ?Z < 2 ^ 32" using a assms(1) by (simp add: slot_pos_def geometry_def)
qed

lemma of_nat_small:
  "sec < unat (c :: u8) \<Longrightarrow> unat (of_nat sec :: u8) = sec" "sl < unat (n :: u16) \<Longrightarrow> unat (of_nat sl :: u16) = sl"
  using unsigned_less [of c, where 'a = nat] unsigned_less [of n, where 'a = nat] by (simp_all add: unat_of_nat)

lemma ucast_nat: "(ucast w :: 'b::len word) = of_nat (unat w)" for w :: "'a::len word"
  by simp

lemma unat_slot_addr:
  assumes "geometry sector st" "sec < unat (ps_sector_count st)" "sl < unat (ps_slots_per_sector st)"
  shows "unat (slot_addr st (of_nat sec) (of_nat sl)) = slot_pos st sec sl"
    and "unat (slot_addr st (of_nat sec) (of_nat sl) + of_nat HDR_LEN) = slot_pos st sec sl + HDR_LEN"
proof -
  have e: "slot_addr st (of_nat sec) (of_nat sl) = of_nat (slot_pos st sec sl)"
    unfolding slot_addr_def slot_pos_def ucast_nat [where 'b = 32] of_nat_small(1) [OF assms(2)] of_nat_small(2) [OF assms(3)] by simp
  have l: "slot_pos st sec sl + HDR_LEN < 2 ^ 32" using slot_end(2) [OF assms] assms(1) by (simp add: geometry_def)
  then show "unat (slot_addr st (of_nat sec) (of_nat sl)) = slot_pos st sec sl" unfolding e by (simp add: unat_of_nat)
  have "unat (of_nat (slot_pos st sec sl + HDR_LEN) :: u32) = slot_pos st sec sl + HDR_LEN" using l by (simp add: unat_of_nat del: of_nat_add)
  then show "unat (slot_addr st (of_nat sec) (of_nat sl) + of_nat HDR_LEN) = slot_pos st sec sl + HDR_LEN" unfolding e by simp
qed

lemma ccitt_update_append: "syn_crc16_ccitt_update c (xs @ ys) = syn_crc16_ccitt_update (syn_crc16_ccitt_update c xs) ys"
  by (simp add: syn_crc16_ccitt_update_def)

context nor_flash
begin

lemma verify_loop:
  "unat addr + n < 2 ^ 32 \<Longrightarrow> verify_crc_loop P addr crc n f = Some (syn_crc16_ccitt_update crc (flash_bytes (mem f) (unat addr) n))"
proof (induction n arbitrary: addr crc rule: less_induct)
  case (less n)
  let ?l = "if n > 32 then 32 else n"
  show ?case
  proof (cases "n = 0")
    case False
    have a: "unat (addr + of_nat ?l) = unat addr + ?l"
    proof -
      have "unat (of_nat (unat addr + ?l) :: u32) = unat addr + ?l" using less.prems by (simp add: unat_of_nat del: of_nat_add)
      then show ?thesis by simp
    qed
    have "verify_crc_loop P addr crc n f
        = verify_crc_loop P (addr + of_nat ?l) (syn_crc16_ccitt_update crc (flash_bytes (mem f) (unat addr) ?l)) (n - ?l) f"
      using False by (subst verify_crc_loop.simps) (simp add: read_bytes Let_def)
    also have "\<dots> = Some (syn_crc16_ccitt_update crc (flash_bytes (mem f) (unat addr) ?l @ flash_bytes (mem f) (unat addr + ?l) (n - ?l)))"
      using False less.prems a by (subst less.IH) (auto simp: ccitt_update_append)
    also have "flash_bytes (mem f) (unat addr) ?l @ flash_bytes (mem f) (unat addr + ?l) (n - ?l) = flash_bytes (mem f) (unat addr) n"
      using flash_bytes_append [of "mem f" "unat addr" ?l "n - ?l"] by auto
    finally show ?thesis .
  qed (simp add: verify_crc_loop.simps syn_crc16_ccitt_update_def flash_bytes_def)
qed

lemma read_slot_scan:
  assumes "geometry sector st" "sec < unat (ps_sector_count st)" "sl < unat (ps_slots_per_sector st)"
  shows "read_slot P st (of_nat sec) (of_nat sl) None f
    = (slot_at st (mem f) sec sl \<noteq> None, header_of_bytes (flash_bytes (mem f) (slot_pos st sec sl) HDR_LEN), None)"
proof -
  note A = unat_slot_addr [OF assms]
  have "unat (slot_addr st (of_nat sec) (of_nat sl) + of_nat HDR_LEN) + unat (ps_data_size st) < 2 ^ 32"
    using slot_end(2) [OF assms] assms(1) A(2) by (simp add: geometry_def)
  note V = verify_loop [OF this]
  show ?thesis unfolding read_slot_def Let_def read_bytes prod.case A(1) slot_at_def verify_slot_crc_def V A(2) syn_crc16_ccitt_def by auto
qed

lemma read_slot_load:
  assumes "geometry sector st" "sec < unat (ps_sector_count st)" "sl < unat (ps_slots_per_sector st)"
  shows "slot_at st (mem f) sec sl = Some (s, d) \<Longrightarrow> \<exists>h. read_slot P st (of_nat sec) (of_nat sl) (Some buf) f = (True, h, Some d)"
    and "slot_at st (mem f) sec sl = None \<Longrightarrow> \<not> fst (read_slot P st (of_nat sec) (of_nat sl) (Some buf) f)"
  unfolding read_slot_def Let_def read_bytes prod.case unat_slot_addr [OF assms] slot_at_def by (auto split: if_splits)


end

lemma sint_pos_iff_16: "0 < sint (w :: u16) \<longleftrightarrow> 0 < unat w \<and> unat w < 2 ^ 15"
proof -
  have "0 \<le> sint w \<longleftrightarrow> \<not> bit (uint w) 15" by (simp add: sint_uint)
  also have "\<dots> \<longleftrightarrow> \<not> odd (uint w div 32768)" by (simp add: bit_iff_odd)
  also have "\<dots> \<longleftrightarrow> uint w < 32768"
  proof -
    have b: "0 \<le> uint w" "uint w < 65536" using uint_lt2p [of w] by simp_all
    show ?thesis
    proof (cases "uint w < 32768")
      case False
      with b have "uint w div 32768 = 1" by (intro int_div_pos_eq [where r = "uint w - 32768"]) simp_all
      with False show ?thesis by simp
    qed (use b in simp)
  qed
  also have "\<dots> \<longleftrightarrow> int (unat w) < int (2 ^ 15)" by simp
  finally have "0 \<le> sint w \<longleftrightarrow> unat w < 2 ^ 15" by (simp only: of_nat_less_iff)
  moreover have "sint w = 0 \<longleftrightarrow> unat w = 0" by (metis signed_0 signed_word_eqI unat_eq_zero)
  ultimately show ?thesis by linarith
qed

subsection \<open>The scan\<close>

text \<open>The signed comparison orders sequence numbers by age, as long as no age reaches half the range.\<close>

lemma newer_iff_age:
  fixes s0 s b :: u16
  assumes "unat (s0 - s) < 2 ^ 15" "unat (s0 - b) < 2 ^ 15"
  shows "0 < sint (s - b) \<longleftrightarrow> unat (s0 - s) < unat (s0 - b)"
proof -
  let ?a = "s0 - s" and ?b = "s0 - b"
  have "unat (s - b) = unat (?b - ?a)" by simp
  also have "\<dots> = (if unat ?a \<le> unat ?b then unat ?b - unat ?a else unat ?b + 2 ^ 16 - unat ?a)"
    using unat_sub_if' [of ?b ?a] by (simp add: word_le_nat_alt)
  finally show ?thesis unfolding sint_pos_iff_16 using assms by auto
qed

lemma fold_nested: "fold (\<lambda>x. fold (f x) ys) xs acc = fold (\<lambda>(x, y). f x y) (List.product xs ys) acc"
proof (induction xs arbitrary: acc)
  case (Cons x xs)
  have "fold (f x) ys acc = fold (\<lambda>(x, y). f x y) (map (Pair x) ys) acc" for acc by (simp add: fold_map comp_def)
  then show ?case using Cons by simp
qed simp

lemma config_updates [simp]:
  "slot_pos (st\<lparr>ps_active_sector := a\<rparr>) = slot_pos st" "slot_pos (st\<lparr>ps_active_slot := b\<rparr>) = slot_pos st"
  "slot_pos (st\<lparr>ps_next_seq := q\<rparr>) = slot_pos st" "slot_pos (st\<lparr>ps_has_active_slot := h\<rparr>) = slot_pos st" "slot_pos (st\<lparr>ps_initialized := h\<rparr>) = slot_pos st"
  "slot_at (st\<lparr>ps_active_sector := a\<rparr>) = slot_at st" "slot_at (st\<lparr>ps_active_slot := b\<rparr>) = slot_at st"
  "slot_at (st\<lparr>ps_next_seq := q\<rparr>) = slot_at st" "slot_at (st\<lparr>ps_has_active_slot := h\<rparr>) = slot_at st" "slot_at (st\<lparr>ps_initialized := h\<rparr>) = slot_at st"
  "geometry sector (st\<lparr>ps_active_sector := a\<rparr>) = geometry sector st" "geometry sector (st\<lparr>ps_active_slot := b\<rparr>) = geometry sector st"
  "geometry sector (st\<lparr>ps_next_seq := q\<rparr>) = geometry sector st" "geometry sector (st\<lparr>ps_has_active_slot := h\<rparr>) = geometry sector st"
  "geometry sector (st\<lparr>ps_initialized := h\<rparr>) = geometry sector st"
  by (simp_all add: fun_eq_iff slot_pos_def slot_at_def geometry_def sector_addr_def)

definition scan_inv :: "SYN_ParamStore \<Rightarrow> flash_mem \<Rightarrow> u16 \<Rightarrow> (nat \<times> nat) list \<Rightarrow> u16 \<times> bool \<times> SYN_ParamStore \<Rightarrow> bool" where
  "scan_inv st m s0 ps acc \<longleftrightarrow>
     (case acc of (best, found, store) \<Rightarrow>
        if found
        then (\<exists>sec sl d. (sec, sl) \<in> set ps \<and> slot_at st m sec sl = Some (best, d) \<and> store = st\<lparr>ps_active_sector := of_nat sec, ps_active_slot := of_nat sl\<rparr>)
           \<and> (\<forall>sec sl s d. (sec, sl) \<in> set ps \<longrightarrow> slot_at st m sec sl = Some (s, d) \<longrightarrow> unat (s0 - best) \<le> unat (s0 - s))
        else store = st \<and> (\<forall>sec sl. (sec, sl) \<in> set ps \<longrightarrow> slot_at st m sec sl = None))"

context nor_flash
begin

lemma scan_slot_step:
  assumes "geometry sector st" "sec < unat (ps_sector_count st)" "sl < unat (ps_slots_per_sector st)"
    and ages: "\<And>sec sl s d. slot_at st (mem f) sec sl = Some (s, d) \<Longrightarrow> (sec, sl) \<in> set qs \<Longrightarrow> unat (s0 - s) < 2 ^ 15"
    and qs: "set (ps @ [(sec, sl)]) \<subseteq> set qs" and inv: "scan_inv st (mem f) s0 ps acc"
  shows "scan_inv st (mem f) s0 (ps @ [(sec, sl)]) (scan_slot P f sec sl acc)"
proof -
  obtain best found store where acc: "acc = (best, found, store)" by (metis prod_cases3)
  have cfg: "geometry sector store" "sec < unat (ps_sector_count store)" "sl < unat (ps_slots_per_sector store)" "slot_at store = slot_at st" "slot_pos store = slot_pos st"
    using inv assms(1-3) by (auto simp: acc scan_inv_def split: if_splits)
  let ?h = "header_of_bytes (flash_bytes (mem f) (slot_pos st sec sl) HDR_LEN)"
  have e: "scan_slot P f sec sl acc = (if slot_at st (mem f) sec sl \<noteq> None \<and> (\<not> found \<or> 0 < sint (hd_seq ?h - best))
      then (hd_seq ?h, True, store\<lparr>ps_active_sector := of_nat sec, ps_active_slot := of_nat sl\<rparr>) else acc)"
    unfolding scan_slot_def acc Let_def prod.case read_slot_scan [OF cfg(1-3)] cfg(4,5) by simp
  show ?thesis
  proof (cases "slot_at st (mem f) sec sl")
    case None
    then have "scan_slot P f sec sl acc = acc" unfolding e by simp
    then show ?thesis using inv None unfolding acc scan_inv_def by fastforce
  next
    case (Some sd)
    then obtain s d where sd: "slot_at st (mem f) sec sl = Some (s, d)" "hd_seq ?h = s" by (auto simp: slot_at_def Let_def split: if_splits)
    have a: "unat (s0 - s) < 2 ^ 15" using ages [OF sd(1)] qs by simp
    show ?thesis
    proof (cases found)
      case False
      then have "scan_slot P f sec sl acc = (s, True, store\<lparr>ps_active_sector := of_nat sec, ps_active_slot := of_nat sl\<rparr>)"
        unfolding e sd(2) using sd(1) by simp
      then show ?thesis using inv sd False unfolding acc scan_inv_def by fastforce
    next
      case True
      have b: "unat (s0 - best) < 2 ^ 15" using inv qs ages True unfolding acc scan_inv_def by auto
      have n: "0 < sint (s - best) \<longleftrightarrow> unat (s0 - s) < unat (s0 - best)" by (rule newer_iff_age [OF a b])
      have st: "store\<lparr>ps_active_sector := of_nat sec, ps_active_slot := of_nat sl\<rparr> = st\<lparr>ps_active_sector := of_nat sec, ps_active_slot := of_nat sl\<rparr>"
        using inv True unfolding acc scan_inv_def by auto
      show ?thesis
      proof (cases "unat (s0 - s) < unat (s0 - best)")
        case True
        then have "scan_slot P f sec sl acc = (s, True, st\<lparr>ps_active_sector := of_nat sec, ps_active_slot := of_nat sl\<rparr>)"
          unfolding e sd n st using sd(1) by simp
        then show ?thesis using inv sd True \<open>found\<close> unfolding acc scan_inv_def by fastforce
      next
        case False
        then have "scan_slot P f sec sl acc = acc" unfolding e sd n using \<open>found\<close> by simp
        then show ?thesis using inv sd False \<open>found\<close> unfolding acc scan_inv_def by fastforce
      qed
    qed
  qed
qed

lemma scan_all_inv:
  assumes "geometry sector st"
    and ages: "\<And>sec sl s d. sec < unat (ps_sector_count st) \<Longrightarrow> sl < unat (ps_slots_per_sector st)
      \<Longrightarrow> slot_at st (mem f) sec sl = Some (s, d) \<Longrightarrow> unat (s0 - s) < 2 ^ 15"
  shows "scan_inv st (mem f) s0 (List.product [0..<unat (ps_sector_count st)] [0..<unat (ps_slots_per_sector st)]) (scan_all P f st)"
proof -
  let ?qs = "List.product [0..<unat (ps_sector_count st)] [0..<unat (ps_slots_per_sector st)]"
  have "set ps \<subseteq> set ?qs \<Longrightarrow> scan_inv st (mem f) s0 ps (fold (\<lambda>(sec, sl). scan_slot P f sec sl) ps (0, False, st))" for ps
  proof (induction ps rule: rev_induct)
    case (snoc p ps)
    obtain sec sl where p: "p = (sec, sl)" by force
    have "scan_inv st (mem f) s0 (ps @ [(sec, sl)]) (scan_slot P f sec sl (fold (\<lambda>(sec, sl). scan_slot P f sec sl) ps (0, False, st)))"
      by (rule scan_slot_step [OF assms(1), where qs = ?qs]) (use snoc ages in \<open>auto simp: p\<close>)
    then show ?case by (simp add: p)
  qed (simp add: scan_inv_def)
  then show ?thesis unfolding scan_all_def fold_nested by simp
qed

end

subsection \<open>The invariant: valid slots carry their distance from the active one\<close>

definition slot_lin :: "SYN_ParamStore \<Rightarrow> nat \<Rightarrow> nat \<Rightarrow> nat" where
  "slot_lin st sec sl = sec * unat (ps_slots_per_sector st) + sl"

definition slot_total :: "SYN_ParamStore \<Rightarrow> nat" where
  "slot_total st = unat (ps_sector_count st) * unat (ps_slots_per_sector st)"

abbreviation act_sec :: "SYN_ParamStore \<Rightarrow> nat" where "act_sec st \<equiv> unat (ps_active_sector st)"
abbreviation act_slot :: "SYN_ParamStore \<Rightarrow> nat" where "act_slot st \<equiv> unat (ps_active_slot st)"

text \<open>How many writes ago a slot was written, going around the ring of slots.\<close>

definition slot_dist :: "SYN_ParamStore \<Rightarrow> nat \<Rightarrow> nat \<Rightarrow> nat" where
  "slot_dist st sec sl = (slot_total st + slot_lin st (act_sec st) (act_slot st) - slot_lin st sec sl) mod slot_total st"

definition in_store :: "SYN_ParamStore \<Rightarrow> nat \<Rightarrow> nat \<Rightarrow> bool" where
  "in_store st sec sl \<longleftrightarrow> sec < unat (ps_sector_count st) \<and> sl < unat (ps_slots_per_sector st)"

definition seqs_ok :: "SYN_ParamStore \<Rightarrow> flash_mem \<Rightarrow> bool" where
  "seqs_ok st m \<longleftrightarrow> (\<forall>sec sl s d. in_store st sec sl \<longrightarrow> slot_at st m sec sl = Some (s, d) \<longrightarrow> s = ps_next_seq st - 1 - of_nat (slot_dist st sec sl))"

definition param_inv :: "(u32 \<Rightarrow> (nat \<times> nat) option) \<Rightarrow> SYN_ParamStore \<Rightarrow> flash_mem \<Rightarrow> bool" where
  "param_inv sector st m \<longleftrightarrow> geometry sector st \<and> ps_initialized st \<and>
     (if ps_has_active_slot st
      then in_store st (act_sec st) (act_slot st) \<and> slot_at st m (act_sec st) (act_slot st) \<noteq> None \<and> seqs_ok st m
      else ps_active_sector st = 0 \<and> ps_active_slot st = 0 \<and> ps_next_seq st = 1 \<and> (\<forall>sec sl. in_store st sec sl \<longrightarrow> slot_at st m sec sl = None))"

text \<open>What the store holds.\<close>

definition param_value :: "SYN_ParamStore \<Rightarrow> flash_mem \<Rightarrow> u8 list option" where
  "param_value st m = (if ps_has_active_slot st then map_option snd (slot_at st m (act_sec st) (act_slot st)) else None)"

text \<open>The rest of the active sector is erased.\<close>

definition clean_from :: "SYN_ParamStore \<Rightarrow> flash_mem \<Rightarrow> nat \<Rightarrow> nat \<Rightarrow> bool" where
  "clean_from st m sec sl0 \<longleftrightarrow> (\<forall>sl. sl0 \<le> sl \<longrightarrow> sl < unat (ps_slots_per_sector st) \<longrightarrow> flash_blank m (slot_pos st sec sl) (unat (ps_slot_size st)))"

definition param_clean :: "SYN_ParamStore \<Rightarrow> flash_mem \<Rightarrow> bool" where
  "param_clean st m \<longleftrightarrow> (ps_has_active_slot st \<longrightarrow> clean_from st m (act_sec st) (Suc (act_slot st)))"

definition param_config :: "SYN_ParamStore \<Rightarrow> SYN_ParamStore" where
  "param_config st = st\<lparr>ps_active_sector := 0, ps_active_slot := 0, ps_next_seq := 0, ps_initialized := False, ps_has_active_slot := False\<rparr>"

lemma slot_lin_less: "in_store st sec sl \<Longrightarrow> slot_lin st sec sl < slot_total st"
proof -
  assume a: "in_store st sec sl"
  have "slot_lin st sec sl < Suc sec * unat (ps_slots_per_sector st)" using a by (simp add: slot_lin_def in_store_def)
  also have "\<dots> \<le> slot_total st" unfolding slot_total_def using a by (intro mult_le_mono1) (simp add: in_store_def)
  finally show ?thesis .
qed

lemma slot_lin_inj:
  assumes "in_store st sec sl" "in_store st sec' sl'" "slot_lin st sec sl = slot_lin st sec' sl'"
  shows "sec = sec' \<and> sl = sl'"
proof -
  let ?N = "unat (ps_slots_per_sector st)"
  have "slot_lin st x y div ?N = x" "slot_lin st x y mod ?N = y" if "in_store st x y" for x y
    using that by (auto simp: slot_lin_def in_store_def)
  then show ?thesis using assms by metis
qed

lemma ring_dist_zero: "p < T \<Longrightarrow> q < T \<Longrightarrow> (T + q - p) mod T = 0 \<Longrightarrow> p = q" for p q T :: nat
  using mod_once [of "T + q - p" T] by (auto split: if_splits)

lemma ring_dist_step:
  fixes p q T :: nat
  assumes "p < T" "q < T" "p \<noteq> (q + 1) mod T"
  shows "(T + (q + 1) mod T - p) mod T = (T + q - p) mod T + 1"
proof (cases "q + 1 < T")
  case True
  then have "(q + 1) mod T = q + 1" by simp
  then show ?thesis using assms True mod_once [of "T + q - p" T] mod_once [of "T + (q + 1) - p" T] by (auto split: if_splits)
next
  case False
  then have "q + 1 = T" using assms by simp
  moreover have "(q + 1) mod T = 0" using calculation by simp
  ultimately show ?thesis using assms mod_once [of "T + q - p" T] by (auto split: if_splits)
qed

lemma slot_dist_zero: "in_store st sec sl \<Longrightarrow> in_store st (act_sec st) (act_slot st) \<Longrightarrow> slot_dist st sec sl = 0 \<Longrightarrow> sec = act_sec st \<and> sl = act_slot st"
  using ring_dist_zero [of "slot_lin st sec sl" "slot_total st" "slot_lin st (act_sec st) (act_slot st)"] slot_lin_inj [of st sec sl "act_sec st" "act_slot st"]
  by (simp add: slot_dist_def slot_lin_less)

lemma slot_dist_less: "geometry sector st \<Longrightarrow> slot_dist st sec sl < slot_total st"
  by (simp add: slot_dist_def geometry_def slot_total_def)

lemma slot_dist_self: "slot_dist st (act_sec st) (act_slot st) = 0"
  by (simp add: slot_dist_def)

lemma total_small: "geometry sector st \<Longrightarrow> slot_total st \<le> 2 ^ 15"
  by (simp add: geometry_def slot_total_def)

lemma active_seq:
  assumes "param_inv sector st m" "ps_has_active_slot st"
  shows "in_store st (act_sec st) (act_slot st) \<and> (\<exists>d. slot_at st m (act_sec st) (act_slot st) = Some (ps_next_seq st - 1, d))"
proof -
  have i: "in_store st (act_sec st) (act_slot st)" "seqs_ok st m" "slot_at st m (act_sec st) (act_slot st) \<noteq> None" using assms by (simp_all add: param_inv_def)
  then obtain s d where s: "slot_at st m (act_sec st) (act_slot st) = Some (s, d)" by auto
  then have "s = ps_next_seq st - 1 - of_nat (slot_dist st (act_sec st) (act_slot st))" using i by (auto simp: seqs_ok_def)
  then show ?thesis using s i(1) by (simp add: slot_dist_self)
qed

context nor_flash
begin

lemma init_recovers:
  assumes "param_inv sector st (mem f)" "param_config st = param_blank P base cnt ds"
  shows "syn_param_init P st0 base cnt ds f = (if ps_has_active_slot st then SYN_OK else SYN_ERROR, st)"
proof -
  let ?b = "param_blank P base cnt ds" and ?s0 = "ps_next_seq st - 1"
  have g: "geometry sector st" "ps_initialized st" using assms(1) by (simp_all add: param_inv_def)
  have b: "geometry sector ?b" "slot_at ?b = slot_at st" "ps_sector_count ?b = ps_sector_count st" "ps_slots_per_sector ?b = ps_slots_per_sector st"
    using g(1) unfolding assms(2) [symmetric] by (simp_all add: param_config_def)
  have "cnt = ps_sector_count ?b" "ds = ps_data_size ?b" by (simp_all add: param_blank_def Let_def)
  then have nz: "cnt \<noteq> 0" "ds \<noteq> 0" "ps_slots_per_sector ?b \<noteq> 0" using b(1) by (auto simp: geometry_def)
  have st: "?b\<lparr>ps_active_sector := ps_active_sector st, ps_active_slot := ps_active_slot st, ps_next_seq := ps_next_seq st,
      ps_has_active_slot := ps_has_active_slot st, ps_initialized := True\<rparr> = st"
    unfolding assms(2) [symmetric] param_config_def using g(2) by simp
  obtain best found store where sc: "scan_all P f ?b = (best, found, store)" by (metis prod_cases3)
  have age: "unat (?s0 - s) = slot_dist st sec sl" if "ps_has_active_slot st" "in_store st sec sl" "slot_at st (mem f) sec sl = Some (s, d)" for sec sl s d
  proof -
    have "s = ?s0 - of_nat (slot_dist st sec sl)" using assms(1) that by (auto simp: param_inv_def seqs_ok_def)
    then have "?s0 - s = of_nat (slot_dist st sec sl)" by simp
    then show ?thesis using slot_dist_less [OF g(1), of sec sl] total_small [OF g(1)] by (simp add: unat_of_nat)
  qed
  have ages: "unat (?s0 - s) < 2 ^ 15" if "sec < unat (ps_sector_count ?b)" "sl < unat (ps_slots_per_sector ?b)" "slot_at ?b (mem f) sec sl = Some (s, d)" for sec sl s d
  proof -
    have i: "in_store st sec sl" "slot_at st (mem f) sec sl = Some (s, d)" using that b by (simp_all add: in_store_def)
    then have h: "ps_has_active_slot st" using assms(1) by (auto simp: param_inv_def split: if_splits)
    show ?thesis using age [OF h i] slot_dist_less [OF g(1), of sec sl] total_small [OF g(1)] by simp
  qed
  have "scan_inv ?b (mem f) ?s0 (List.product [0..<unat (ps_sector_count ?b)] [0..<unat (ps_slots_per_sector ?b)]) (best, found, store)"
    unfolding sc [symmetric] by (rule scan_all_inv [OF b(1) ages])
  note I = this [unfolded scan_inv_def prod.case]
  show ?thesis
  proof (cases "ps_has_active_slot st")
    case True
    then obtain d0 where a: "in_store st (act_sec st) (act_slot st)" "slot_at st (mem f) (act_sec st) (act_slot st) = Some (?s0, d0)"
      using active_seq [OF assms(1)] by blast
    have found using I a b by (auto simp: in_store_def split: if_splits)
    then obtain sec sl d where p: "in_store st sec sl" "slot_at st (mem f) sec sl = Some (best, d)" "store = ?b\<lparr>ps_active_sector := of_nat sec, ps_active_slot := of_nat sl\<rparr>"
      using I b by (fastforce simp: in_store_def)
    have "unat (?s0 - best) \<le> unat (?s0 - ?s0)" using I a b \<open>found\<close> by (fastforce simp: in_store_def)
    then have z: "unat (?s0 - best) = 0" by simp
    then have "slot_dist st sec sl = 0" using age [OF True p(1,2)] by simp
    then have e: "sec = act_sec st" "sl = act_slot st" using slot_dist_zero [OF p(1) a(1)] by simp_all
    have "best = ?s0" using z by (simp add: unat_eq_zero)
    then show ?thesis using True nz sc \<open>found\<close> p(3) st unfolding syn_param_init_def Let_def sc prod.case e by simp
  next
    case False
    then have n: "slot_at ?b (mem f) sec sl = None" if "sec < unat (ps_sector_count ?b)" "sl < unat (ps_slots_per_sector ?b)" for sec sl
      using assms(1) that b by (auto simp: param_inv_def in_store_def)
    then have "\<not> found" "store = ?b" using I by (fastforce split: if_splits)+
    moreover have "ps_active_sector st = 0" "ps_active_slot st = 0" "ps_next_seq st = 1" using assms(1) False by (simp_all add: param_inv_def)
    ultimately show ?thesis using False nz st unfolding syn_param_init_def Let_def sc prod.case by simp
  qed
qed

lemma load_value:
  assumes "param_inv sector st (mem f)"
  shows "param_value st (mem f) = Some d \<Longrightarrow> syn_param_load P st buf f = (SYN_OK, d)"
    and "param_value st (mem f) = None \<Longrightarrow> fst (syn_param_load P st buf f) = SYN_ERROR"
proof -
  have g: "geometry sector st" "ps_initialized st" "act_sec st < unat (ps_sector_count st)" "act_slot st < unat (ps_slots_per_sector st)"
    using assms by (auto simp: param_inv_def in_store_def geometry_def split: if_splits)
  have n: "slot_at st (mem f) (act_sec st) (act_slot st) = None" if "\<not> ps_has_active_slot st"
    using assms that g by (simp add: param_inv_def in_store_def)
  have c: "of_nat (act_sec st) = ps_active_sector st" "of_nat (act_slot st) = ps_active_slot st" by simp_all
  note L = read_slot_load [OF g(1,3,4), of f, unfolded c]
  show "syn_param_load P st buf f = (SYN_OK, d)" if v: "param_value st (mem f) = Some d"
  proof -
    obtain s where "slot_at st (mem f) (act_sec st) (act_slot st) = Some (s, d)" using v by (auto simp: param_value_def split: if_splits)
    then show ?thesis using L(1) [of s d buf] g(2) by (auto simp: syn_param_load_def)
  qed
  show "fst (syn_param_load P st buf f) = SYN_ERROR" if v: "param_value st (mem f) = None"
  proof -
    have "slot_at st (mem f) (act_sec st) (act_slot st) = None" using v n by (auto simp: param_value_def split: if_splits)
    then show ?thesis using L(2) [of buf] g(2) by (simp add: syn_param_load_def case_prod_beta)
  qed
qed

end

subsection \<open>What a write or an erase does to the slots\<close>

lemma slot_at_cong:
  assumes "\<And>x. slot_pos st sec sl \<le> x \<Longrightarrow> x < slot_pos st sec sl + HDR_LEN + unat (ps_data_size st) \<Longrightarrow> m x = m' x"
  shows "slot_at st m sec sl = slot_at st m' sec sl"
proof -
  let ?a = "slot_pos st sec sl" and ?D = "unat (ps_data_size st)"
  have "flash_bytes m ?a HDR_LEN = flash_bytes m' ?a HDR_LEN" "flash_bytes m (?a + HDR_LEN) ?D = flash_bytes m' (?a + HDR_LEN) ?D"
    using assms by (auto intro!: flash_bytes_cong)
  then show ?thesis by (simp add: slot_at_def Let_def)
qed

lemma slots_disjoint:
  assumes "geometry sector st" "in_store st sec sl" "in_store st sec' sl'" "(sec, sl) \<noteq> (sec', sl')"
  shows "slot_pos st sec sl + unat (ps_slot_size st) \<le> slot_pos st sec' sl' \<or> slot_pos st sec' sl' + unat (ps_slot_size st) \<le> slot_pos st sec sl"
proof -
  let ?Z = "unat (ps_slot_size st)" and ?C = "unat (ps_sector_size st)"
  have less: "slot_pos st x y + ?Z \<le> slot_pos st x' y'" if "in_store st x y" "x < x' \<or> x = x' \<and> y < y'" for x y x' y'
  proof (cases "x < x'")
    case True
    have "slot_pos st x y + ?Z \<le> unat (ps_flash_base st) + Suc x * ?C" using slot_end(1) [OF assms(1), of x y] that(1) by (simp add: in_store_def)
    also have "\<dots> \<le> unat (ps_flash_base st) + x' * ?C" using True by (intro add_left_mono mult_le_mono1) simp
    also have "\<dots> \<le> slot_pos st x' y'" by (simp add: slot_pos_def)
    finally show ?thesis .
  next
    case False
    then have y: "x = x'" "Suc y \<le> y'" using that(2) by simp_all
    have "Suc y * ?Z \<le> y' * ?Z" using y(2) by (rule mult_le_mono1)
    then show ?thesis using y(1) by (simp add: slot_pos_def)
  qed
  show ?thesis using less [OF assms(2), of sec' sl'] less [OF assms(3), of sec sl] assms(4) by (metis linorder_neqE_nat)
qed

definition shrinks :: "SYN_ParamStore \<Rightarrow> flash_mem \<Rightarrow> flash_mem \<Rightarrow> bool" where
  "shrinks st m m' \<longleftrightarrow> (\<forall>sec sl. in_store st sec sl \<longrightarrow> slot_at st m' sec sl = slot_at st m sec sl \<or> slot_at st m' sec sl = None)"

lemma peek_FF: "bs ! i = 0xFF \<Longrightarrow> syn_peek_u16_le bs i \<noteq> SYN_PARAM_MAGIC"
proof
  assume a: "bs ! i = 0xFF" "syn_peek_u16_le bs i = SYN_PARAM_MAGIC"
  then have "bit (syn_peek_u16_le bs i) 0 \<longleftrightarrow> bit (SYN_PARAM_MAGIC) 0" by simp
  moreover have "bit (syn_peek_u16_le bs i) 0" using a(1) by (simp add: syn_peek_u16_le_def bit_simps)
  ultimately show False by (simp add: SYN_PARAM_MAGIC_def)
qed

lemma slot_FF: "m (slot_pos st sec sl) = 0xFF \<Longrightarrow> slot_at st m sec sl = None"
  using peek_FF [of "flash_bytes m (slot_pos st sec sl) HDR_LEN" 0]
  by (simp add: slot_at_def header_of_bytes_def HDR_LEN_def Let_def)

lemma erase_slots:
  assumes "geometry sector st" "s < unat (ps_sector_count st)" "k \<le> unat (ps_sector_size st)"
    and m': "m' = nor_erase (unat (ps_flash_base st) + s * unat (ps_sector_size st)) k m"
  shows "shrinks st m m'" and "\<And>sec sl. in_store st sec sl \<Longrightarrow> sec \<noteq> s \<Longrightarrow> slot_at st m' sec sl = slot_at st m sec sl"
    and "k = unat (ps_sector_size st) \<Longrightarrow> clean_from st m' s 0"
proof -
  let ?B = "unat (ps_flash_base st)" and ?C = "unat (ps_sector_size st)" and ?Z = "unat (ps_slot_size st)"
  have dz: "HDR_LEN + unat (ps_data_size st) \<le> ?Z" using assms(1) by (simp add: geometry_def)
  have e: "slot_pos st sec sl + ?Z \<le> ?B + Suc sec * ?C" "?B + sec * ?C \<le> slot_pos st sec sl" if "in_store st sec sl" for sec sl
    using slot_end(1) [OF assms(1), of sec sl] that by (simp_all add: in_store_def slot_pos_def)
  have lo: "Suc x * ?C \<le> y * ?C" if "x < y" for x y using that by (intro mult_le_mono1) simp
  show other: "slot_at st m' sec sl = slot_at st m sec sl" if i: "in_store st sec sl" "sec \<noteq> s" for sec sl
  proof (rule slot_at_cong)
    fix x assume x: "slot_pos st sec sl \<le> x" "x < slot_pos st sec sl + HDR_LEN + unat (ps_data_size st)"
    have "x < ?B + s * ?C \<or> ?B + s * ?C + k \<le> x"
    proof (cases "sec < s")
      case True
      then show ?thesis using lo [OF True] e(1) [OF i(1)] x dz by simp
    next
      case False
      then have "s < sec" using i(2) by simp
      then show ?thesis using lo [of s sec] e(2) [OF i(1)] x assms(3) by simp
    qed
    then show "m' x = m x" unfolding m' by (rule erase_outside)
  qed
  show "shrinks st m m'" unfolding shrinks_def
  proof (intro allI impI)
    fix sec sl assume i: "in_store st sec sl"
    show "slot_at st m' sec sl = slot_at st m sec sl \<or> slot_at st m' sec sl = None"
    proof (cases "sec = s")
      case True
      show ?thesis
      proof (cases "slot_pos st sec sl < ?B + s * ?C + k")
        case True
        then have "m' (slot_pos st sec sl) = 0xFF" using e(2) [OF i] \<open>sec = s\<close> by (simp add: m' nor_erase_def)
        then show ?thesis using slot_FF [of m' st sec sl] by simp
      next
        case False
        then have "slot_at st m' sec sl = slot_at st m sec sl" by (intro slot_at_cong) (simp add: m' erase_outside)
        then show ?thesis ..
      qed
    qed (use other [OF i] in simp)
  qed
  show "clean_from st m' s 0" if k: "k = ?C"
    unfolding clean_from_def m' k
  proof (intro allI impI blank_erase)
    fix sl assume "sl < unat (ps_slots_per_sector st)"
    then have "in_store st s sl" using assms(2) by (simp add: in_store_def)
    then show "?B + s * ?C \<le> slot_pos st s sl" "slot_pos st s sl + ?Z \<le> ?B + s * ?C + ?C" using e [of s sl] by simp_all
  qed
qed

text \<open>A slot written into erased flash, data first and then the header, is either not valid or complete, wherever the writing stops.\<close>

lemma slot_written:
  assumes "flash_blank m (slot_pos st sec sl) (unat (ps_slot_size st))" "HDR_LEN + unat (ps_data_size st) \<le> unat (ps_slot_size st)"
    and "length d = unat (ps_data_size st)" "length pad = 8" "unat (ps_data_size st) < 0xFFFF" "0 < unat (ps_data_size st)"
    and hb: "hb = param_header_bytes \<lparr>hd_magic = SYN_PARAM_MAGIC, hd_seq = s, hd_data_size = ps_data_size st, hd_crc = syn_crc16_ccitt d, hd_pad = pad\<rparr>"
    and k: "k1 \<le> length d" "k2 \<le> length hb" "0 < k2 \<longrightarrow> k1 = length d"
    and m': "m' = nor_program (slot_pos st sec sl) (take k2 hb) (nor_program (slot_pos st sec sl + HDR_LEN) (take k1 d) m)"
  shows "slot_at st m' sec sl = None \<or> slot_at st m' sec sl = Some (s, d)"
    and "k2 = length hb \<Longrightarrow> slot_at st m' sec sl = Some (s, d)"
proof -
  let ?a = "slot_pos st sec sl" and ?D = "unat (ps_data_size st)"
  have lh: "length hb = 16" using assms(4) by (simp add: hb param_header_bytes_def enc_u16_le_def)
  have H: "m' (?a + i) = (if i < k2 then hb ! i else 0xFF)" if "i < 16" for i
  proof -
    have "m (?a + i) = 0xFF" using assms(1,2) that by (simp add: flash_blank_def HDR_LEN_def)
    then show ?thesis using that k lh by (simp add: m' nor_program_def HDR_LEN_def)
  qed
  have D: "m' (?a + HDR_LEN + i) = (if i < k1 then d ! i else 0xFF)" if "i < ?D" for i
  proof -
    have "m (?a + HDR_LEN + i) = 0xFF" using assms(1,2) that by (simp add: flash_blank_def)
    then show ?thesis using that k lh by (simp add: m' nor_program_def HDR_LEN_def)
  qed
  show full: "slot_at st m' sec sl = Some (s, d)" if "k2 = length hb"
  proof -
    have "flash_bytes m' ?a HDR_LEN = hb" using H lh that by (intro nth_equalityI) (simp_all add: HDR_LEN_def)
    moreover have "flash_bytes m' (?a + HDR_LEN) ?D = d" using D k that assms(3) lh by (intro nth_equalityI) simp_all
    ultimately show ?thesis
      by (simp add: slot_at_def header_of_bytes_def hb param_header_bytes_def enc_u16_le_def syn_peek_u16_le_def join_u16_le)
  qed
  show "slot_at st m' sec sl = None \<or> slot_at st m' sec sl = Some (s, d)"
  proof (cases "4 < k2")
    case True
    have d: "flash_bytes m' (?a + HDR_LEN) ?D = d" using D k True assms(3) by (intro nth_equalityI) simp_all
    have q: "flash_bytes m' ?a HDR_LEN ! 2 = ucast s" "flash_bytes m' ?a HDR_LEN ! 3 = ucast (drop_bit 8 s)"
      using H [of 2] H [of 3] True by (simp_all add: HDR_LEN_def hb param_header_bytes_def enc_u16_le_def)
    show ?thesis using q join_u16_le [of s] by (simp add: slot_at_def Let_def d header_of_bytes_def syn_peek_u16_le_def)
  next
    case False
    have q: "flash_bytes m' ?a HDR_LEN ! 4 = 0xFF" "flash_bytes m' ?a HDR_LEN ! 5 = 0xFF"
      using H [of 4] H [of 5] False by (simp_all add: HDR_LEN_def)
    have "ps_data_size st \<noteq> 0xFFFF" using assms(5) by auto
    moreover have "syn_peek_u16_le (flash_bytes m' ?a HDR_LEN) 4 = 0xFFFF" using q by (simp add: syn_peek_u16_le_def)
    ultimately have "slot_at st m' sec sl = None" by (simp add: slot_at_def Let_def header_of_bytes_def)
    then show ?thesis ..
  qed
qed

subsection \<open>A save\<close>

text \<open>The position of the next write, as natural numbers.\<close>

definition next_pos :: "SYN_ParamStore \<Rightarrow> nat \<times> nat" where
  "next_pos st =
     (if \<not> ps_has_active_slot st then (0, 0)
      else if Suc (act_slot st) < unat (ps_slots_per_sector st) then (act_sec st, Suc (act_slot st))
      else ((act_sec st + 1) mod unat (ps_sector_count st), 0))"

definition store_advance :: "SYN_ParamStore \<Rightarrow> SYN_ParamStore" where
  "store_advance st = st\<lparr>ps_active_sector := of_nat (fst (next_pos st)), ps_active_slot := of_nat (snd (next_pos st)),
     ps_next_seq := ps_next_seq st + 1, ps_has_active_slot := True\<rparr>"

lemma next_pos_in: "param_inv sector st m \<Longrightarrow> next_pos st = (sec, sl) \<Longrightarrow> in_store st sec sl"
  by (auto simp: next_pos_def param_inv_def in_store_def geometry_def split: if_splits)

text \<open>A save that needs the sector of the active slot for its new slot erases what it replaces: only a store with one sector does that.\<close>

definition keeps_active :: "SYN_ParamStore \<Rightarrow> bool" where
  "keeps_active st \<longleftrightarrow> 1 < unat (ps_sector_count st) \<or> (ps_has_active_slot st \<longrightarrow> Suc (act_slot st) < unat (ps_slots_per_sector st))"

lemma store_advance_slot: "param_inv sector st m \<Longrightarrow> act_sec (store_advance st) = fst (next_pos st) \<and> act_slot (store_advance st) = snd (next_pos st)"
  using next_pos_in [of sector st m "fst (next_pos st)" "snd (next_pos st)"]
    of_nat_small(1) [of "fst (next_pos st)" "ps_sector_count st"] of_nat_small(2) [of "snd (next_pos st)" "ps_slots_per_sector st"]
  by (simp add: store_advance_def in_store_def)

lemma store_advance_simps [simp]:
  "slot_pos (store_advance st) = slot_pos st" "slot_at (store_advance st) = slot_at st" "geometry sector (store_advance st) = geometry sector st"
  "in_store (store_advance st) = in_store st" "param_config (store_advance st) = param_config st" "ps_initialized (store_advance st) = ps_initialized st"
  "ps_has_active_slot (store_advance st)" "slot_total (store_advance st) = slot_total st" "slot_lin (store_advance st) = slot_lin st" "ps_next_seq (store_advance st) = ps_next_seq st + 1"
  by (simp_all add: store_advance_def fun_eq_iff in_store_def param_config_def slot_total_def slot_lin_def)

lemma next_lin:
  assumes "param_inv sector st m" "ps_has_active_slot st" "next_pos st = (sec, sl)"
  shows "slot_lin st sec sl = (slot_lin st (act_sec st) (act_slot st) + 1) mod slot_total st"
proof -
  let ?N = "unat (ps_slots_per_sector st)" and ?S = "unat (ps_sector_count st)"
  have i: "in_store st (act_sec st) (act_slot st)" using assms(1,2) by (simp add: param_inv_def)
  show ?thesis
  proof (cases "Suc (act_slot st) < ?N")
    case True
    then have "in_store st (act_sec st) (Suc (act_slot st))" "sec = act_sec st" "sl = Suc (act_slot st)" using i assms(2,3) by (simp_all add: in_store_def next_pos_def)
    then show ?thesis using slot_lin_less [of st sec sl] by (simp add: slot_lin_def)
  next
    case False
    then have a: "Suc (act_slot st) = ?N" "sl = 0" "sec = (act_sec st + 1) mod ?S" using i assms(2,3) by (auto simp: in_store_def next_pos_def)
    have "slot_lin st (act_sec st) (act_slot st) + 1 = (act_sec st + 1) * ?N" using a(1) by (simp add: slot_lin_def)
    then have "(slot_lin st (act_sec st) (act_slot st) + 1) mod slot_total st = (act_sec st + 1) mod ?S * ?N"
      unfolding slot_total_def by (simp only: mult_mod_left)
    then show ?thesis by (simp add: a slot_lin_def)
  qed
qed

lemma store_advance_dist:
  assumes "param_inv sector st m" "ps_has_active_slot st" "in_store st sec sl" "(sec, sl) \<noteq> next_pos st"
  shows "slot_dist (store_advance st) sec sl = slot_dist st sec sl + 1"
proof -
  obtain sec' sl' where n: "next_pos st = (sec', sl')" by force
  have i: "in_store st sec' sl'" by (rule next_pos_in [OF assms(1) n])
  have a: "in_store st (act_sec st) (act_slot st)" using assms(1,2) by (simp add: param_inv_def)
  have ne: "slot_lin st sec sl \<noteq> slot_lin st sec' sl'" using slot_lin_inj [OF assms(3) i] assms(4) n by auto
  show ?thesis
    using ring_dist_step [OF slot_lin_less [OF assms(3)] slot_lin_less [OF a]] ne next_lin [OF assms(1,2) n] store_advance_slot [OF assms(1)] n
    by (simp add: slot_dist_def)
qed

text \<open>Once the new slot is valid and no other slot has appeared, the invariant holds of the advanced store.\<close>

lemma inv_store_advance:
  assumes "param_inv sector st m" "shrinks st m m1" "next_pos st = (sec, sl)" "slot_at st m2 sec sl = Some (ps_next_seq st, d)"
    and other: "\<And>sec' sl'. in_store st sec' sl' \<Longrightarrow> (sec', sl') \<noteq> (sec, sl) \<Longrightarrow> slot_at st m2 sec' sl' = slot_at st m1 sec' sl'"
  shows "param_inv sector (store_advance st) m2" and "param_value (store_advance st) m2 = Some d"
proof -
  note A = store_advance_slot [OF assms(1), unfolded assms(3), simplified]
  have i: "in_store st sec sl" by (rule next_pos_in [OF assms(1,3)])
  show "param_value (store_advance st) m2 = Some d" using A assms(4) by (simp add: param_value_def)
  have "s = ps_next_seq st - of_nat (slot_dist (store_advance st) x y)" if p: "in_store st x y" "slot_at st m2 x y = Some (s, d')" for x y s d'
  proof (cases "(x, y) = (sec, sl)")
    case True
    have "slot_dist (store_advance st) sec sl = 0" using slot_dist_self [of "store_advance st"] A by simp
    then show ?thesis using True p assms(4) by simp
  next
    case False
    then have v: "slot_at st m x y = Some (s, d')" using other [OF p(1) False] p assms(2) unfolding shrinks_def by force
    then have h: "ps_has_active_slot st" using assms(1) p(1) by (auto simp: param_inv_def split: if_splits)
    then have "s = ps_next_seq st - 1 - of_nat (slot_dist st x y)" using assms(1) v p(1) by (auto simp: param_inv_def seqs_ok_def)
    then show ?thesis using store_advance_dist [OF assms(1) h p(1)] False assms(3) by (simp add: algebra_simps)
  qed
  then have "seqs_ok (store_advance st) m2" by (auto simp: seqs_ok_def)
  then show "param_inv sector (store_advance st) m2" using assms(1,4) A i by (simp add: param_inv_def)
qed

lemma inv_shrinks:
  assumes "param_inv sector st m" "shrinks st m m1" "ps_has_active_slot st \<Longrightarrow> slot_at st m1 (act_sec st) (act_slot st) = slot_at st m (act_sec st) (act_slot st)"
  shows "param_inv sector st m1" and "param_value st m1 = param_value st m"
proof -
  have n: "slot_at st m1 x y = Some v \<Longrightarrow> slot_at st m x y = Some v" if "in_store st x y" for x y v
    using assms(2) that unfolding shrinks_def by force
  show "param_value st m1 = param_value st m" using assms(3) by (simp add: param_value_def)
  show "param_inv sector st m1"
  proof (cases "ps_has_active_slot st")
    case True
    have "seqs_ok st m1" unfolding seqs_ok_def using assms(1) True n unfolding param_inv_def seqs_ok_def by metis
    then show ?thesis using assms(1,3) True by (simp add: param_inv_def)
  next
    case False
    then show ?thesis using assms(1,2) unfolding param_inv_def shrinks_def by fastforce
  qed
qed

lemma unat_word_next: "unat w < unat n \<Longrightarrow> unat (w + 1) = Suc (unat w)" for w n :: "'a::len word"
proof -
  assume "unat w < unat n"
  moreover have "unat n < 2 ^ LENGTH('a)" by (rule unsigned_less)
  ultimately have "Suc (unat w) < 2 ^ LENGTH('a)" by linarith
  then have "unat (of_nat (Suc (unat w)) :: 'a word) = Suc (unat w)" by (simp add: unat_of_nat del: of_nat_Suc)
  then show ?thesis by (simp add: add.commute)
qed

lemma unat_of_in_store: "in_store st x y \<Longrightarrow> unat (of_nat x :: u8) = x \<and> unat (of_nat y :: u16) = y"
  using of_nat_small(1) [of x "ps_sector_count st"] of_nat_small(2) [of y "ps_slots_per_sector st"] by (simp add: in_store_def)

context nor_flash
begin

lemma sector_at: "geometry sector st \<Longrightarrow> s < unat (ps_sector_count st)
    \<Longrightarrow> sector (sector_addr st (of_nat s)) = Some (unat (ps_flash_base st) + s * unat (ps_sector_size st), unat (ps_sector_size st))"
  by (simp add: geometry_def)

text \<open>Erasing the sector of the next slot, completely or in part.\<close>

lemma erase_for_next:
  assumes "geometry sector st" "s < unat (ps_sector_count st)" "port_erase P (sector_addr st (of_nat s)) f = (err, f1)"
  shows "shrinks st (mem f) (mem f1)" and "\<And>sec sl. in_store st sec sl \<Longrightarrow> sec \<noteq> s \<Longrightarrow> slot_at st (mem f1) sec sl = slot_at st (mem f) sec sl"
    and "err = SYN_OK \<Longrightarrow> clean_from st (mem f1) s 0"
proof -
  obtain k where k: "k \<le> unat (ps_sector_size st)" "mem f1 = nor_erase (unat (ps_flash_base st) + s * unat (ps_sector_size st)) k (mem f)"
      "err = SYN_OK \<longrightarrow> k = unat (ps_sector_size st)"
    using erase_prefix [OF sector_at [OF assms(1,2)] assms(3)] by blast
  note E = erase_slots [OF assms(1,2) k(1,2)]
  show "shrinks st (mem f) (mem f1)" by (rule E(1))
  show "slot_at st (mem f1) sec sl = slot_at st (mem f) sec sl" if "in_store st sec sl" "sec \<noteq> s" for sec sl by (rule E(2) [OF that])
  show "clean_from st (mem f1) s 0" if "err = SYN_OK" using E(3) k(3) that by simp
qed

lemma next_position_ok:
  assumes "param_inv sector st (mem f)" "param_clean st (mem f)" "next_position P st f = (err, sec, sl, f1)" "next_pos st = (x, y)"
  shows "shrinks st (mem f) (mem f1)" and "err = SYN_OK \<Longrightarrow> sec = of_nat x \<and> sl = of_nat y \<and> clean_from st (mem f1) x y"
    and "ps_has_active_slot st \<Longrightarrow> keeps_active st \<Longrightarrow> slot_at st (mem f1) (act_sec st) (act_slot st) = slot_at st (mem f) (act_sec st) (act_slot st)"
proof -
  let ?N = "ps_slots_per_sector st" and ?S = "unat (ps_sector_count st)"
  have g: "geometry sector st" using assms(1) by (simp add: param_inv_def)
  have S: "0 < ?S" using g by (simp add: geometry_def)
  have "shrinks st (mem f) (mem f1) \<and> (err = SYN_OK \<longrightarrow> sec = of_nat x \<and> sl = of_nat y \<and> clean_from st (mem f1) x y)
    \<and> (ps_has_active_slot st \<longrightarrow> keeps_active st \<longrightarrow> slot_at st (mem f1) (act_sec st) (act_slot st) = slot_at st (mem f) (act_sec st) (act_slot st))"
  proof (cases "ps_has_active_slot st")
    case False
    then have z: "ps_active_sector st = of_nat 0" "sl = 0" "sec = 0" "x = 0" "y = 0" and e: "port_erase P (sector_addr st (of_nat 0)) f = (err, f1)"
      using assms(1,3,4) by (auto simp: param_inv_def next_position_def next_pos_def Let_def split: prod.splits)
    show ?thesis using erase_for_next [OF g S e] False z by simp
  next
    case True
    then have i: "in_store st (act_sec st) (act_slot st)" using assms(1) by (simp add: param_inv_def)
    then have n: "unat (ps_active_slot st + 1) = Suc (act_slot st)" by (intro unat_word_next [of _ ?N]) (simp add: in_store_def)
    then have le: "ps_active_slot st + 1 \<ge> ?N \<longleftrightarrow> \<not> Suc (act_slot st) < unat ?N" by (simp add: word_le_nat_alt not_less)
    show ?thesis
    proof (cases "Suc (act_slot st) < unat ?N")
      case inside: True
      then have "f1 = f" "sec = ps_active_sector st" "sl = ps_active_slot st + 1" "x = act_sec st" "y = Suc (act_slot st)"
        using assms(3,4) True le by (simp_all add: next_position_def next_pos_def Let_def)
      moreover have "clean_from st (mem f) (act_sec st) (Suc (act_slot st))" using assms(2) True by (simp add: param_clean_def)
      moreover have "shrinks st (mem f) (mem f)" by (simp add: shrinks_def)
      ultimately show ?thesis by (simp add: add.commute)
    next
      case wrap: False
      let ?s = "(act_sec st + 1) mod ?S"
      have z: "sl = 0" "sec = of_nat ?s" "x = ?s" "y = 0" and e: "port_erase P (sector_addr st (of_nat ?s)) f = (err, f1)"
        using assms(3,4) True wrap le by (auto simp: next_position_def next_pos_def Let_def split: prod.splits)
      have s: "?s < ?S" using S by simp
      have "act_sec st \<noteq> ?s" if "keeps_active st"
      proof -
        have "1 < ?S" using that True wrap by (simp add: keeps_active_def)
        moreover have "act_sec st < ?S" using i by (simp add: in_store_def)
        ultimately show ?thesis using mod_once [of "act_sec st + 1" ?S] by (auto split: if_splits)
      qed
      then show ?thesis using erase_for_next [OF g s e] z i by simp
    qed
  qed
  then show "shrinks st (mem f) (mem f1)" "err = SYN_OK \<Longrightarrow> sec = of_nat x \<and> sl = of_nat y \<and> clean_from st (mem f1) x y"
    "ps_has_active_slot st \<Longrightarrow> keeps_active st \<Longrightarrow> slot_at st (mem f1) (act_sec st) (act_slot st) = slot_at st (mem f) (act_sec st) (act_slot st)" by simp_all
qed

text \<open>What the two writes of a save leave, wherever they stop.\<close>

lemma slot_writes:
  assumes "geometry sector st" "in_store st x y" "clean_from st (mem f) x y" "length d = unat (ps_data_size st)" "length pad = 8"
    and hb: "hb = param_header_bytes \<lparr>hd_magic = SYN_PARAM_MAGIC, hd_seq = s, hd_data_size = ps_data_size st, hd_crc = syn_crc16_ccitt d, hd_pad = pad\<rparr>"
    and w1: "port_write P (slot_addr st (of_nat x) (of_nat y) + of_nat HDR_LEN) d f = (e1, f1)"
    and w2: "e1 = SYN_OK \<longrightarrow> port_write P (slot_addr st (of_nat x) (of_nat y)) hb f1 = (e2, f2)" "e1 \<noteq> SYN_OK \<longrightarrow> f2 = f1"
  shows "slot_at st (mem f2) x y = None \<or> slot_at st (mem f2) x y = Some (s, d)"
    and "e1 = SYN_OK \<Longrightarrow> e2 = SYN_OK \<Longrightarrow> slot_at st (mem f2) x y = Some (s, d)"
    and "\<And>x' y'. in_store st x' y' \<Longrightarrow> (x', y') \<noteq> (x, y) \<Longrightarrow> slot_at st (mem f2) x' y' = slot_at st (mem f) x' y'"
    and "clean_from st (mem f2) x (Suc y)"
proof -
  let ?a = "slot_pos st x y" and ?Z = "unat (ps_slot_size st)"
  have xy: "x < unat (ps_sector_count st)" "y < unat (ps_slots_per_sector st)" using assms(2) by (simp_all add: in_store_def)
  note A = unat_slot_addr [OF assms(1) xy]
  have g: "HDR_LEN + unat (ps_data_size st) \<le> ?Z" "0 < unat (ps_data_size st)" "unat (ps_data_size st) < 0xFFFF" using assms(1) by (simp_all add: geometry_def)
  have lh: "length hb = HDR_LEN" using assms(5) by (simp add: hb param_header_bytes_def enc_u16_le_def HDR_LEN_def)
  have bl: "flash_blank (mem f) ?a ?Z" using assms(3) xy by (simp add: clean_from_def)
  obtain k1 where k1: "k1 \<le> length d" "mem f1 = nor_program (?a + HDR_LEN) (take k1 d) (mem f)" "e1 = SYN_OK \<longrightarrow> k1 = length d"
    using write_prefix [OF w1] unfolding A by blast
  obtain k2 where k2: "k2 \<le> length hb" "mem f2 = nor_program ?a (take k2 hb) (mem f1)" "e1 = SYN_OK \<and> e2 = SYN_OK \<longrightarrow> k2 = length hb" "0 < k2 \<longrightarrow> e1 = SYN_OK"
  proof (cases "e1 = SYN_OK")
    case True
    then show ?thesis using write_prefix [OF w2(1) [rule_format, OF True]] that unfolding A by blast
  next
    case False
    then show ?thesis using that [of 0] w2(2) by simp
  qed
  have k12: "0 < k2 \<longrightarrow> k1 = length d" using k1(3) k2(4) by blast
  have m: "mem f2 = nor_program ?a (take k2 hb) (nor_program (?a + HDR_LEN) (take k1 d) (mem f))" using k1(2) k2(2) by simp
  note W = slot_written [OF bl g(1) assms(4,5) g(3,2) hb k1(1) k2(1) k12 m]
  show "slot_at st (mem f2) x y = None \<or> slot_at st (mem f2) x y = Some (s, d)" by (rule W(1))
  show "slot_at st (mem f2) x y = Some (s, d)" if "e1 = SYN_OK" "e2 = SYN_OK" using W(2) k2(3) that by simp
  have out: "mem f2 z = mem f z" if "z < ?a \<or> ?a + ?Z \<le> z" for z
    using that g(1) lh k1(1) k2(1) assms(4) unfolding m by (auto simp: program_outside)
  show "slot_at st (mem f2) x' y' = slot_at st (mem f) x' y'" if p: "in_store st x' y'" "(x', y') \<noteq> (x, y)" for x' y'
    using slots_disjoint [OF assms(1,2) p(1)] p(2) g(1) by (intro slot_at_cong out) auto
  show "clean_from st (mem f2) x (Suc y)" unfolding clean_from_def
  proof (intro allI impI)
    fix sl assume l: "Suc y \<le> sl" "sl < unat (ps_slots_per_sector st)"
    then have b: "flash_blank (mem f) (slot_pos st x sl) ?Z" using assms(3) by (simp add: clean_from_def)
    have "in_store st x sl" using l xy by (simp add: in_store_def)
    then show "flash_blank (mem f2) (slot_pos st x sl) ?Z"
      using slots_disjoint [OF assms(1,2), of x sl] l by (intro blank_cong [OF b] out) auto
  qed
qed

lemma save_cases:
  assumes "param_inv sector st (mem f)" "param_clean st (mem f)" "length d = unat (ps_data_size st)" "length pad = 8"
    and "syn_param_save P st d pad f = (r, st', f')"
  shows "(r = SYN_OK \<longrightarrow> st' = store_advance st \<and> param_inv sector (store_advance st) (mem f') \<and> param_clean (store_advance st) (mem f') \<and> param_value (store_advance st) (mem f') = Some d)
    \<and> (r \<noteq> SYN_OK \<longrightarrow> st' = st \<and> (keeps_active st \<longrightarrow>
        param_inv sector st (mem f') \<and> param_value st (mem f') = param_value st (mem f)
      \<or> param_inv sector (store_advance st) (mem f') \<and> param_value (store_advance st) (mem f') = Some d))"
proof -
  obtain err sec sl f1 where np: "next_position P st f = (err, sec, sl, f1)" by (metis prod_cases4)
  obtain x y where xy: "next_pos st = (x, y)" by force
  note N = next_position_ok [OF assms(1,2) np xy] and i = next_pos_in [OF assms(1) xy]
  have g: "geometry sector st" "ps_initialized st" using assms(1) by (simp_all add: param_inv_def)
  note shr = inv_shrinks [OF assms(1)]
  show ?thesis
  proof (cases "err = SYN_OK")
    case False
    then have "r \<noteq> SYN_OK" "st' = st" "f' = f1" using assms(5) np g(2) by (auto simp: syn_param_save_def)
    then show ?thesis using shr [OF N(1)] N(3) by blast
  next
    case True
    note B = N(2) [OF True]
    let ?hb = "param_header_bytes \<lparr>hd_magic = SYN_PARAM_MAGIC, hd_seq = ps_next_seq st, hd_data_size = ps_data_size st, hd_crc = syn_crc16_ccitt d, hd_pad = pad\<rparr>"
    let ?addr = "slot_addr st (of_nat x) (of_nat y)"
    obtain e1 f2 where w1: "port_write P (?addr + of_nat HDR_LEN) d f1 = (e1, f2)" by force
    obtain e2 f3 where w2: "e1 = SYN_OK \<longrightarrow> port_write P ?addr ?hb f2 = (e2, f3)" "e1 \<noteq> SYN_OK \<longrightarrow> f3 = f2"
      by (cases "e1 = SYN_OK"; cases "port_write P ?addr ?hb f2") auto
    have s: "r = SYN_OK \<longleftrightarrow> e1 = SYN_OK \<and> e2 = SYN_OK" "r = SYN_OK \<Longrightarrow> st' = store_advance st" "r \<noteq> SYN_OK \<Longrightarrow> st' = st" "f' = f3"
      using assms(5) np True g(2) w1 w2 B xy by (cases "e1 = SYN_OK"; cases "e2 = SYN_OK"; auto simp: syn_param_save_def store_advance_def)+
    note W = slot_writes [OF g(1) i conjunct2 [OF conjunct2 [OF B]] assms(3,4) refl w1 w2]
    have new: "param_inv sector (store_advance st) (mem f3) \<and> param_value (store_advance st) (mem f3) = Some d" if "slot_at st (mem f3) x y = Some (ps_next_seq st, d)"
      using inv_store_advance [OF assms(1) N(1) xy that W(3)] by simp
    have cl: "param_clean (store_advance st) (mem f3)" using W(4) store_advance_slot [OF assms(1)] xy by (simp add: param_clean_def clean_from_def store_advance_def)
    show ?thesis
    proof (cases "slot_at st (mem f3) x y = Some (ps_next_seq st, d)")
      case True
      then show ?thesis using new [OF True] cl s by simp
    next
      case False
      then have n: "slot_at st (mem f3) x y = None" "r \<noteq> SYN_OK" using W(1,2) s(1) by blast+
      have sh: "shrinks st (mem f) (mem f3)" unfolding shrinks_def
        using N(1) n(1) W(3) unfolding shrinks_def by (metis prod.inject)
      have ne: "(act_sec st, act_slot st) \<noteq> (x, y)" if "ps_has_active_slot st" "keeps_active st"
        using xy that assms(1) mod_once [of "act_sec st + 1" "unat (ps_sector_count st)"]
        by (auto simp: next_pos_def keeps_active_def param_inv_def in_store_def split: if_splits)
      have "slot_at st (mem f3) (act_sec st) (act_slot st) = slot_at st (mem f) (act_sec st) (act_slot st)" if "ps_has_active_slot st" "keeps_active st"
        using W(3) [OF _ ne [OF that]] N(3) [OF that] assms(1) that by (simp add: param_inv_def)
      then show ?thesis using shr [OF sh] n(2) s(3,4) by auto
    qed
  qed
qed

end

subsection \<open>Sequences of saves and restarts\<close>

datatype param_op = Save "u8 list" "u8 list" | Restart nat

text \<open>A run in which every save reports success.\<close>

fun param_run :: "'f flash_port \<Rightarrow> (nat \<Rightarrow> 'f \<Rightarrow> 'f) \<Rightarrow> u32 \<Rightarrow> u8 \<Rightarrow> u16 \<Rightarrow> param_op list \<Rightarrow> SYN_ParamStore \<times> 'f \<Rightarrow> (SYN_ParamStore \<times> 'f) option" where
  "param_run P cycle base cnt ds [] (st, f) = Some (st, f)"
| "param_run P cycle base cnt ds (Save d pad # ops) (st, f) =
     (case syn_param_save P st d pad f of (r, st, f) \<Rightarrow> if r = SYN_OK then param_run P cycle base cnt ds ops (st, f) else None)"
| "param_run P cycle base cnt ds (Restart n # ops) (st, f) =
     (let f = cycle n f in param_run P cycle base cnt ds ops (snd (syn_param_init P st base cnt ds f), f))"

fun last_saved :: "u8 list option \<Rightarrow> param_op list \<Rightarrow> u8 list option" where
  "last_saved v [] = v"
| "last_saved v (Save d pad # ops) = last_saved (Some d) ops"
| "last_saved v (Restart n # ops) = last_saved v ops"

fun op_fits :: "u16 \<Rightarrow> param_op \<Rightarrow> bool" where
  "op_fits ds (Save d pad) \<longleftrightarrow> length d = unat ds \<and> length pad = 8"
| "op_fits ds (Restart n) \<longleftrightarrow> True"

text \<open>The store, its flash and the value they hold agree.\<close>

definition param_synced ::
  "'f flash_port \<Rightarrow> (u32 \<Rightarrow> (nat \<times> nat) option) \<Rightarrow> u32 \<Rightarrow> u8 \<Rightarrow> u16 \<Rightarrow> SYN_ParamStore \<Rightarrow> flash_mem \<Rightarrow> u8 list option \<Rightarrow> bool" where
  "param_synced P sector base cnt ds st m v \<longleftrightarrow>
     param_inv sector st m \<and> param_clean st m \<and> param_config st = param_blank P base cnt ds \<and> param_value st m = v"

text \<open>What a restart finds.\<close>

definition param_recovers :: "'f flash_port \<Rightarrow> u32 \<Rightarrow> u8 \<Rightarrow> u16 \<Rightarrow> 'f \<Rightarrow> u8 list option \<Rightarrow> bool" where
  "param_recovers P base cnt ds f v \<longleftrightarrow>
     (\<forall>st0 buf. case syn_param_init P st0 base cnt ds f of (r, st) \<Rightarrow>
        (case v of Some d \<Rightarrow> r = SYN_OK \<and> syn_param_load P st buf f = (SYN_OK, d)
                 | None \<Rightarrow> r = SYN_ERROR \<and> fst (syn_param_load P st buf f) = SYN_ERROR))"

lemma config_size: "param_config st = param_blank P base cnt ds \<Longrightarrow> ps_data_size st = ds \<and> ps_sector_count st = cnt"
proof -
  assume a: "param_config st = param_blank P base cnt ds"
  have "ps_data_size (param_config st) = ps_data_size st" "ps_sector_count (param_config st) = ps_sector_count st" by (simp_all add: param_config_def)
  then show ?thesis unfolding a by (simp add: param_blank_def Let_def)
qed

context nor_flash
begin

lemma inv_recovers:
  assumes "param_inv sector st (mem f)" "param_config st = param_blank P base cnt ds"
  shows "param_recovers P base cnt ds f (param_value st (mem f))"
proof -
  have v: "param_value st (mem f) = None \<longleftrightarrow> \<not> ps_has_active_slot st" using assms(1) by (auto simp: param_value_def param_inv_def)
  show ?thesis
  proof (cases "param_value st (mem f)")
    case None
    then show ?thesis using v load_value(2) [OF assms(1)] init_recovers [OF assms] by (simp add: param_recovers_def)
  next
    case (Some d)
    then show ?thesis using v load_value(1) [OF assms(1)] init_recovers [OF assms] by (simp add: param_recovers_def)
  qed
qed

lemma save_synced:
  assumes "param_synced P sector base cnt ds st (mem f) v" "length d = unat ds" "length pad = 8" "syn_param_save P st d pad f = (r, st', f')"
  shows "r = SYN_OK \<Longrightarrow> param_synced P sector base cnt ds st' (mem f') (Some d)"
    and "r \<noteq> SYN_OK \<Longrightarrow> 1 < unat cnt \<Longrightarrow> \<exists>st2 v'. param_inv sector st2 (mem f') \<and> param_config st2 = param_blank P base cnt ds
      \<and> param_value st2 (mem f') = v' \<and> (v' = v \<or> v' = Some d)"
proof -
  have s: "param_inv sector st (mem f)" "param_clean st (mem f)" "param_config st = param_blank P base cnt ds" "param_value st (mem f) = v"
    using assms(1) by (simp_all add: param_synced_def)
  note z = config_size [OF s(3)]
  have l: "length d = unat (ps_data_size st)" using assms(2) z by simp
  note C = save_cases [OF s(1,2) l assms(3,4)]
  show "param_synced P sector base cnt ds st' (mem f') (Some d)" if "r = SYN_OK" using C that s(3) by (simp add: param_synced_def)
  show "\<exists>st2 v'. param_inv sector st2 (mem f') \<and> param_config st2 = param_blank P base cnt ds \<and> param_value st2 (mem f') = v' \<and> (v' = v \<or> v' = Some d)"
    if "r \<noteq> SYN_OK" "1 < unat cnt"
  proof -
    have "keeps_active st" using that(2) z by (simp add: keeps_active_def)
    then consider "param_inv sector st (mem f')" "param_value st (mem f') = v" | "param_inv sector (store_advance st) (mem f')" "param_value (store_advance st) (mem f') = Some d"
      using C that(1) s(4) by auto
    then show ?thesis
    proof cases
      case 1
      then show ?thesis using s(3) by (intro exI [of _ st] exI [of _ v]) simp
    next
      case 2
      then show ?thesis using s(3) by (intro exI [of _ "store_advance st"] exI [of _ "Some d"]) simp
    qed
  qed
qed

lemma init_fresh:
  assumes "geometry sector (param_blank P base cnt ds)" "\<And>sec sl. in_store (param_blank P base cnt ds) sec sl \<Longrightarrow> slot_at (param_blank P base cnt ds) (mem f) sec sl = None"
  shows "param_synced P sector base cnt ds (snd (syn_param_init P st0 base cnt ds f)) (mem f) None" "fst (syn_param_init P st0 base cnt ds f) = SYN_ERROR"
proof -
  let ?b = "param_blank P base cnt ds"
  let ?st = "?b\<lparr>ps_next_seq := 1, ps_initialized := True\<rparr>"
  have b: "ps_active_sector ?b = 0" "ps_active_slot ?b = 0" "ps_next_seq ?b = 0" "\<not> ps_initialized ?b" "\<not> ps_has_active_slot ?b"
    by (simp_all add: param_blank_def Let_def)
  have c: "param_config ?st = ?b" using b by (simp add: param_config_def)
  have i: "param_inv sector ?st (mem f)" using assms b by (auto simp: param_inv_def in_store_def)
  have "syn_param_init P st0 base cnt ds f = (SYN_ERROR, ?st)" using init_recovers [OF i c] b by simp
  then show "param_synced P sector base cnt ds (snd (syn_param_init P st0 base cnt ds f)) (mem f) None" "fst (syn_param_init P st0 base cnt ds f) = SYN_ERROR"
    using i c b by (simp_all add: param_synced_def param_clean_def param_value_def)
qed

end

context powered_flash
begin

lemma run_synced:
  "param_run P cycle base cnt ds ops (st, f) = Some (st', f') \<Longrightarrow> param_synced P sector base cnt ds st (mem f) v \<Longrightarrow> list_all (op_fits ds) ops
    \<Longrightarrow> param_synced P sector base cnt ds st' (mem f') (last_saved v ops)"
proof (induction ops arbitrary: st f v)
  case (Cons p ops)
  show ?case
  proof (cases p)
    case (Save d pad)
    obtain r st1 f1 where s: "syn_param_save P st d pad f = (r, st1, f1)" by (metis prod_cases3)
    have r: "r = SYN_OK" "param_run P cycle base cnt ds ops (st1, f1) = Some (st', f')" using Cons.prems(1) s by (auto simp: Save split: if_splits)
    have "param_synced P sector base cnt ds st1 (mem f1) (Some d)" using save_synced(1) [OF Cons.prems(2) _ _ s r(1)] Cons.prems(3) by (simp add: Save)
    then show ?thesis using Cons.IH [OF r(2)] Cons.prems(3) by (simp add: Save)
  next
    case (Restart n)
    have "snd (syn_param_init P st base cnt ds (cycle n f)) = st"
      using init_recovers [of st "cycle n f" base cnt ds st] Cons.prems(2) by (simp add: param_synced_def cycle_keeps)
    then have "param_run P cycle base cnt ds ops (st, cycle n f) = Some (st', f')" using Cons.prems(1) by (simp add: Restart)
    then show ?thesis using Cons.IH [of st "cycle n f" v] Cons.prems(2,3) by (simp add: Restart cycle_keeps)
  qed
qed simp

text \<open>One more save, interrupted anywhere, after any run: a restart finds the new value or the last saved one, the new one if the save reported success.\<close>

lemma interrupted_save:
  assumes "param_synced P sector base cnt ds st0 (mem f0) v0" "param_run P cycle base cnt ds ops (st0, f0) = Some (st, f)" "list_all (op_fits ds) ops"
    and "length d = unat ds" "length pad = 8" "syn_param_save P st d pad f = (r, st', f')" "1 < unat cnt \<or> r = SYN_OK"
  shows "param_recovers P base cnt ds (cycle n f') (Some d) \<or> r \<noteq> SYN_OK \<and> param_recovers P base cnt ds (cycle n f') (last_saved v0 ops)"
proof -
  note S = save_synced [OF run_synced [OF assms(2,1,3)] assms(4-6)]
  show ?thesis
  proof (cases "r = SYN_OK")
    case True
    have "param_inv sector st' (mem (cycle n f'))" "param_config st' = param_blank P base cnt ds" "param_value st' (mem (cycle n f')) = Some d"
      using S(1) [OF True] by (simp_all add: param_synced_def cycle_keeps)
    then show ?thesis using inv_recovers [of st' "cycle n f'"] by metis
  next
    case False
    then obtain st2 v' where "param_inv sector st2 (mem (cycle n f'))" "param_config st2 = param_blank P base cnt ds"
        "param_value st2 (mem (cycle n f')) = v'" "v' = last_saved v0 ops \<or> v' = Some d"
      using S(2) assms(7) by (auto simp: cycle_keeps)
    then show ?thesis using inv_recovers [of st2 "cycle n f'"] False by metis
  qed
qed

end

subsection \<open>On the STM32F4\<close>

text \<open>A save whose flash can still change a sector and a slot reports success.\<close>

lemma f4_save_succeeds:
  assumes "geometry f4_sector st" "ps_initialized st" "act_sec st < unat (ps_sector_count st)" "\<not> fl_busy f" "length pad = 8"
    and "unat (ps_sector_size st) + length d + HDR_LEN \<le> fl_left f"
  shows "\<exists>st' f'. syn_param_save stm32f4_port st d pad f = (SYN_OK, st', f') \<and> \<not> fl_busy f' \<and> fl_left f \<le> fl_left f' + unat (ps_sector_size st) + length d + HDR_LEN"
proof -
  let ?C = "unat (ps_sector_size st)"
  have er: "\<exists>f'. f4_flash_erase (sector_addr st (of_nat s)) f = (SYN_OK, f') \<and> \<not> fl_busy f' \<and> fl_left f' = fl_left f - ?C" if "s < unat (ps_sector_count st)" for s
    by (rule f4_erase_done [OF f4.sector_at [OF assms(1) that]]) (use assms in simp_all)
  have S: "(act_sec st + 1) mod unat (ps_sector_count st) < unat (ps_sector_count st)" using assms(1) by (simp add: geometry_def)
  have np: "\<exists>sec sl f1. next_position stm32f4_port st f = (SYN_OK, sec, sl, f1) \<and> \<not> fl_busy f1 \<and> length d + HDR_LEN \<le> fl_left f1 \<and> fl_left f \<le> fl_left f1 + ?C"
    using er [OF S] er [OF assms(3)] assms(4,6) by (auto simp: next_position_def Let_def)
  then obtain sec sl f1 where n: "next_position stm32f4_port st f = (SYN_OK, sec, sl, f1)" "\<not> fl_busy f1" "length d + HDR_LEN \<le> fl_left f1" "fl_left f \<le> fl_left f1 + ?C" by blast
  let ?hb = "param_header_bytes \<lparr>hd_magic = SYN_PARAM_MAGIC, hd_seq = ps_next_seq st, hd_data_size = ps_data_size st, hd_crc = syn_crc16_ccitt d, hd_pad = pad\<rparr>"
  have lh: "length ?hb = HDR_LEN" using assms(5) by (simp add: param_header_bytes_def enc_u16_le_def HDR_LEN_def)
  obtain f2 where w1: "f4_flash_write (slot_addr st sec sl + of_nat HDR_LEN) d f1 = (SYN_OK, f2)" "\<not> fl_busy f2" "fl_left f2 = fl_left f1 - length d"
    using f4_write_done [of f1 d] n by (meson le_add1 order_trans)
  have "length ?hb \<le> fl_left f2" using w1(3) n(3) lh by simp
  then obtain f3 where w2: "f4_flash_write (slot_addr st sec sl) ?hb f2 = (SYN_OK, f3)" "\<not> fl_busy f3" "fl_left f3 = fl_left f2 - length ?hb"
    using f4_write_done [OF w1(2)] by blast
  have "fl_left f \<le> fl_left f3 + ?C + length d + HDR_LEN" using w2(3) w1(3) n(3,4) lh by linarith
  then show ?thesis using assms(2) n(1) w1(1) w2(1,2) by (simp add: syn_param_save_def)
qed

lemma config_sector_size:
  assumes "param_config st = param_blank P base cnt ds"
  shows "ps_sector_size st = port_sector_size P base"
proof -
  have "ps_sector_size (param_config st) = ps_sector_size st" by (simp add: param_config_def)
  then show ?thesis unfolding assms by (simp add: param_blank_def Let_def)
qed

lemma f4_save_synced:
  assumes "param_synced stm32f4_port f4_sector base cnt ds st (fl_mem f) v" "length d = unat ds" "length pad = 8" "\<not> fl_busy f"
    and "unat (f4_flash_sector_size base) + unat ds + HDR_LEN \<le> fl_left f"
  shows "\<exists>st' f'. syn_param_save stm32f4_port st d pad f = (SYN_OK, st', f') \<and> \<not> fl_busy f'
    \<and> fl_left f \<le> fl_left f' + unat (f4_flash_sector_size base) + unat ds + HDR_LEN
    \<and> param_synced stm32f4_port f4_sector base cnt ds st' (fl_mem f') (Some d)"
proof -
  have s: "geometry f4_sector st" "ps_initialized st" "ps_sector_size st = f4_flash_sector_size base" "act_sec st < unat (ps_sector_count st)"
    using assms(1) config_sector_size [of st stm32f4_port base cnt ds]
    by (auto simp: param_synced_def param_inv_def in_store_def geometry_def split: if_splits)
  have "\<exists>st' f'. syn_param_save stm32f4_port st d pad f = (SYN_OK, st', f') \<and> \<not> fl_busy f' \<and> fl_left f \<le> fl_left f' + unat (ps_sector_size st) + length d + HDR_LEN"
    by (rule f4_save_succeeds [OF s(1,2,4) assms(4,3)]) (use assms s(3) in simp)
  then obtain st' f' where r: "syn_param_save stm32f4_port st d pad f = (SYN_OK, st', f')" "\<not> fl_busy f'"
      "fl_left f \<le> fl_left f' + unat (ps_sector_size st) + length d + HDR_LEN" by blast
  show ?thesis using r f4.save_synced(1) [OF assms(1-3) r(1) refl] s(3) assms(2) by simp
qed

text \<open>A region without any valid slot.\<close>

definition no_valid_slot :: "'f flash_port \<Rightarrow> u32 \<Rightarrow> u8 \<Rightarrow> u16 \<Rightarrow> flash_mem \<Rightarrow> bool" where
  "no_valid_slot P base cnt ds m \<longleftrightarrow> (\<forall>sec sl. in_store (param_blank P base cnt ds) sec sl \<longrightarrow> slot_at (param_blank P base cnt ds) m sec sl = None)"



text \<open>A store of small parameters in the first sectors of an erased flash.\<close>

lemma erased_no_slot: "no_valid_slot P base cnt ds (fl_mem (erased_flash left))"
  by (simp add: no_valid_slot_def erased_flash_def slot_FF)

lemma demo_geometry:
  assumes "c = 1 \<or> c = 2" "d = 1 \<or> d = 8"
  shows "geometry f4_sector (param_blank stm32f4_port 0x08000000 c d)"
proof -
  have s: "f4_sector 0x08000000 = Some (0x08000000, 0x4000)" "f4_sector 0x08004000 = Some (0x08004000, 0x4000)" "f4_flash_sector_size 0x08000000 = 0x4000"
    by (simp_all add: f4_sector_def f4_flash_sector_size_def flash_find_sector_def flash_sectors_def)
  have z: "align16 (of_nat HDR_LEN + d) = 32" using assms(2) by (auto simp: align16_def HDR_LEN_def)
  let ?b = "param_blank stm32f4_port 0x08000000 c d"
  have f: "ps_sector_size ?b = 0x4000" "ps_slot_size ?b = 32" "ps_slots_per_sector ?b = 512" "ps_data_size ?b = d" "ps_flash_base ?b = 0x08000000" "ps_sector_count ?b = c"
    by (simp_all add: param_blank_def Let_def s z)
  have two: "(\<forall>x<2. Q x) \<longleftrightarrow> Q 0 \<and> Q 1" for Q :: "nat \<Rightarrow> bool" using less_2_cases by auto
  show ?thesis using assms unfolding geometry_def sector_addr_def f by (elim disjE) (simp_all add: HDR_LEN_def s two)
qed

lemma demo_sizes: "f4_flash_sector_size 0x08000000 = 0x4000"
  by (simp add: f4_flash_sector_size_def flash_find_sector_def flash_sectors_def)

text \<open>After one save of the byte 5 on an erased flash with \<open>left\<close> byte changes in it.\<close>

lemma demo_run:
  assumes "16401 \<le> left" "length pad = 8"
  shows "\<exists>st f. param_run stm32f4_port f4_power_cycle 0x08000000 2 1 [Save [5] pad]
    (snd (syn_param_init stm32f4_port st0 0x08000000 2 1 (erased_flash left)), erased_flash left) = Some (st, f)"
proof -
  let ?st = "snd (syn_param_init stm32f4_port st0 0x08000000 2 1 (erased_flash left))"
  have "param_synced stm32f4_port f4_sector 0x08000000 2 1 ?st (fl_mem (erased_flash left)) None"
    by (rule f4.init_fresh(1) [OF demo_geometry]) (use erased_no_slot [of stm32f4_port "0x08000000" 2 1 left] in \<open>simp_all add: no_valid_slot_def\<close>)
  then show ?thesis using f4_save_synced [of "0x08000000" 2 1 ?st "erased_flash left" None "[5]" pad] assms
    by (auto simp: demo_sizes erased_flash_def HDR_LEN_def)
qed



subsection \<open>Erasing everything\<close>

lemma clean_no_slot:
  assumes "geometry sector st" "clean_from st m s 0" "in_store st s sl"
  shows "slot_at st m s sl = None"
proof (rule slot_FF, rule blank_first)
  show "flash_blank m (slot_pos st s sl) (unat (ps_slot_size st))" using assms(2,3) by (simp add: clean_from_def in_store_def)
  show "0 < unat (ps_slot_size st)" using assms(1) by (simp add: geometry_def HDR_LEN_def)
qed

context nor_flash
begin

lemma erase_sectors_ok:
  "erase_sectors P st secs f = (SYN_OK, f') \<Longrightarrow> geometry sector st \<Longrightarrow> \<forall>s\<in>set secs. s < unat (ps_sector_count st)
    \<Longrightarrow> shrinks st (mem f) (mem f') \<and> (\<forall>s\<in>set secs. \<forall>sl. in_store st s sl \<longrightarrow> slot_at st (mem f') s sl = None)"
proof (induction secs arbitrary: f)
  case Nil
  then show ?case by (simp add: shrinks_def)
next
  case (Cons s secs)
  obtain e f1 where e: "port_erase P (sector_addr st (of_nat s)) f = (e, f1)" by force
  then have ok: "e = SYN_OK" "erase_sectors P st secs f1 = (SYN_OK, f')" using Cons.prems(1) by (auto split: if_splits)
  note E = erase_for_next [OF Cons.prems(2) _ e] and I = Cons.IH [OF ok(2) Cons.prems(2)]
  have sh: "shrinks st (mem f) (mem f1)" "shrinks st (mem f1) (mem f')" and cl: "clean_from st (mem f1) s 0" using E I Cons.prems(3) ok(1) by simp_all
  have "slot_at st (mem f') s sl = None" if "in_store st s sl" for sl
    using sh(2) that clean_no_slot [OF Cons.prems(2) cl that] unfolding shrinks_def by metis
  moreover have "shrinks st (mem f) (mem f')" using sh unfolding shrinks_def by metis
  ultimately show ?case using I Cons.prems(3) by auto
qed

text \<open>A factory reset that reports success leaves nothing to find.\<close>

lemma erase_all_synced:
  assumes "geometry sector st" "param_config st = param_blank P base cnt ds" "syn_param_erase_all P st f = (SYN_OK, st', f')"
  shows "param_synced P sector base cnt ds st' (mem f') None"
proof -
  have i: "ps_initialized st" and e: "erase_sectors P st [0..<unat (ps_sector_count st)] f = (SYN_OK, f')"
    and s: "st' = st\<lparr>ps_active_sector := 0, ps_active_slot := 0, ps_next_seq := 1, ps_has_active_slot := False\<rparr>"
    using assms(3) by (auto simp: syn_param_erase_all_def split: if_splits prod.splits)
  have "slot_at st (mem f') sec sl = None" if "in_store st sec sl" for sec sl
    using erase_sectors_ok [OF e assms(1)] that by (auto simp: in_store_def)
  then show ?thesis using i assms(1,2) s by (auto simp: param_synced_def param_inv_def param_clean_def param_value_def param_config_def in_store_def)
qed

end

subsection \<open>Where the store loses data\<close>

text \<open>
  The slot after the active one is not always erased: an interrupted save leaves it partly written, and the next save goes to it again
  without erasing. Programming only clears bits, so the data that ends up there is the conjunction of both; the save reports success, and
  the store can no longer be read.
\<close>

theorem param_dirty_slot_loses:
  assumes "geometry f4_sector st" "ps_initialized st" "ps_has_active_slot st" "act_sec st < unat (ps_sector_count st)" "Suc (act_slot st) < unat (ps_slots_per_sector st)"
    and "flash_blank (fl_mem f) (slot_pos st (act_sec st) (Suc (act_slot st))) HDR_LEN"
    and "length d = unat (ps_data_size st)" "length pad = 8"
    and old: "old = flash_bytes (fl_mem f) (slot_pos st (act_sec st) (Suc (act_slot st)) + HDR_LEN) (length d)"
    and "syn_crc16_ccitt (map2 (AND) old d) \<noteq> syn_crc16_ccitt d"
    and "syn_param_save stm32f4_port st d pad f = (SYN_OK, st', f')"
  shows "fst (syn_param_load stm32f4_port st' buf f') = SYN_ERROR"
proof -
  let ?x = "act_sec st" and ?y = "Suc (act_slot st)"
  let ?a = "slot_pos st ?x ?y"
  let ?hb = "param_header_bytes \<lparr>hd_magic = SYN_PARAM_MAGIC, hd_seq = ps_next_seq st, hd_data_size = ps_data_size st, hd_crc = syn_crc16_ccitt d, hd_pad = pad\<rparr>"
  have lh: "length ?hb = HDR_LEN" using assms(8) by (simp add: param_header_bytes_def enc_u16_le_def HDR_LEN_def)
  have y: "of_nat ?y = ps_active_slot st + 1" "of_nat ?x = ps_active_sector st" by (simp_all add: add.commute)
  have n: "unat (ps_active_slot st + 1) = ?y" using assms(5) by (intro unat_word_next [of _ "ps_slots_per_sector st"]) simp
  have np: "next_position stm32f4_port st f = (SYN_OK, ps_active_sector st, ps_active_slot st + 1, f)"
    using assms(3,5) n by (simp add: next_position_def Let_def word_le_nat_alt)
  obtain f1 where w: "f4_flash_write (slot_addr st (of_nat ?x) (of_nat ?y) + of_nat HDR_LEN) d f = (SYN_OK, f1)"
      "f4_flash_write (slot_addr st (of_nat ?x) (of_nat ?y)) ?hb f1 = (SYN_OK, f')"
    and st': "st' = st\<lparr>ps_active_sector := ps_active_sector st, ps_active_slot := ps_active_slot st + 1, ps_next_seq := ps_next_seq st + 1, ps_has_active_slot := True\<rparr>"
    using assms(2,11) np unfolding y by (auto simp: syn_param_save_def Let_def split: prod.splits if_splits)
  note A = unat_slot_addr [OF assms(1,4,5)]
  have m: "fl_mem f' = nor_program ?a ?hb (nor_program (?a + HDR_LEN) d (fl_mem f))"
    using f4.write_ok [of _ d f f1] f4.write_ok [of _ ?hb f1 f'] w A by simp
  have "flash_bytes (fl_mem f') ?a HDR_LEN = ?hb"
    using assms(6) lh by (intro nth_equalityI) (simp_all add: m nor_program_def flash_blank_def)
  moreover have "flash_bytes (fl_mem f') (?a + HDR_LEN) (length d) = map2 (AND) old d"
    using lh by (intro nth_equalityI) (simp_all add: m old nor_program_def)
  moreover have "hd_crc (header_of_bytes ?hb) = syn_crc16_ccitt d"
    by (simp add: header_of_bytes_def param_header_bytes_def enc_u16_le_def syn_peek_u16_le_def join_u16_le)
  ultimately have "slot_at st (fl_mem f') ?x ?y = None" using assms(7,10) by (simp add: slot_at_def Let_def)
  then have "\<not> fst (read_slot stm32f4_port st' (of_nat ?x) (of_nat ?y) (Some buf) f')"
    using assms(1,4,5) by (intro f4.read_slot_load) (simp_all add: st')
  then show ?thesis using assms(2) unfolding y by (simp add: syn_param_load_def case_prod_beta st')
qed

text \<open>A store with a single sector erases its only copy before it writes the next one: when the supply fails in between, both are gone.\<close>

theorem param_single_sector_loses:
  assumes "param_synced stm32f4_port f4_sector base 1 ds st (fl_mem f) (Some v)" "Suc (act_slot st) = unat (ps_slots_per_sector st)"
    and "\<not> fl_busy f" "fl_left f = unat (ps_sector_size st)" "length d = unat ds" "length pad = 8"
    and "syn_param_save stm32f4_port st d pad f = (r, st', f')"
  shows "r \<noteq> SYN_OK \<and> param_recovers stm32f4_port base 1 ds (f4_power_cycle n f') None"
proof -
  have s: "geometry f4_sector st" "ps_initialized st" "param_config st = param_blank stm32f4_port base 1 ds" "ps_has_active_slot st"
    using assms(1) by (auto simp: param_synced_def param_inv_def param_value_def split: if_splits)
  note z = config_size [OF s(3)]
  let ?s = "sector_addr st (of_nat 0)"
  have "f4_sector ?s = Some (unat (ps_flash_base st) + 0 * unat (ps_sector_size st), unat (ps_sector_size st))" using f4.sector_at [OF s(1), of 0] z by simp
  then obtain f1 where e: "f4_flash_erase ?s f = (SYN_OK, f1)" "\<not> fl_busy f1" "fl_left f1 = 0" using f4_erase_done [of ?s _ _ f] assms(3,4) by auto
  have "unat (ps_active_slot st + 1) \<ge> unat (ps_slots_per_sector st)" using unat_word_next [of "ps_active_slot st" "ps_slots_per_sector st"] assms(2) by simp
  then have np: "next_position stm32f4_port st f = (SYN_OK, 0, 0, f1)"
    using s(4) e(1) z by (simp add: next_position_def Let_def word_le_nat_alt)
  obtain b bs where d: "d = b # bs" using assms(5) s(1) z by (cases d) (auto simp: geometry_def)
  have w: "\<exists>f2. f4_flash_write a d f1 = (SYN_TIMEOUT, f2) \<and> fl_mem f2 = fl_mem f1" for a
    using e(2,3) by (simp add: d f4_flash_write_def flash_unlock_def flash_wait_bsy_def hw_store_def flash_lock_def Let_def)
  have r: "r = SYN_TIMEOUT \<and> fl_mem f' = fl_mem f1" using assms(7) s(2) np w [of "slot_addr st 0 0 + of_nat HDR_LEN"] by (auto simp: syn_param_save_def)
  have cl: "clean_from st (fl_mem f1) 0 0" using f4.erase_for_next(3) [OF s(1), of 0 f SYN_OK f1] e(1) z by simp
  let ?b = "param_blank stm32f4_port base 1 ds"
  have b: "geometry f4_sector ?b" "slot_at ?b = slot_at st" "in_store ?b = in_store st" unfolding s(3) [symmetric] using s(1)
    by (simp_all add: param_config_def in_store_def fun_eq_iff)
  have "slot_at ?b (fl_mem (f4_power_cycle n f')) sec sl = None" if "in_store ?b sec sl" for sec sl
  proof -
    have "sec = 0" using that z unfolding b by (simp add: in_store_def)
    then show ?thesis using clean_no_slot [OF s(1) cl, of sl] that r unfolding b by (simp add: f4_power_cycle_def)
  qed
  note F = f4.init_fresh(1) [OF b(1) this, of st]
  have "param_recovers stm32f4_port base 1 ds (f4_power_cycle n f') None"
    using f4.inv_recovers [of _ "f4_power_cycle n f'" base 1 ds] F unfolding param_synced_def by metis
  then show ?thesis using r by simp
qed

text \<open>Parameter blocks near 64 KiB wrap the slot size: it becomes zero, or far too small for the block.\<close>

lemma slot_size_wraps: "align16 (of_nat HDR_LEN + 65520) = 0" "align16 (of_nat HDR_LEN + 65521) = 16"
  by (simp_all add: align16_def HDR_LEN_def)

end
