(* ===== verification/Syn_Boot.thy ===== *)
theory Syn_Boot
  imports Syn_Param Syn_Errlog
begin

text \<open>
  The boot manager of \<^verbatim>\<open>system/syn_boot.c\<close>, a client of the parameter store: at each start it counts the boots, and the consecutive
  ones that were never marked healthy; when these reach a threshold it enters safe mode. The store and the flash are passed along; \<open>pad\<close> is the
  uninitialised padding a save writes (theory \<open>Syn_Param\<close>). The pointer to the error log is the flag \<open>bt_errlog\<close>, and the log itself an
  argument of the operation that writes to it.
\<close>

subsection \<open>Data and operations\<close>

record SYN_BootData =
  bd_boot_count :: u32
  bd_fail_count :: u16
  bd_last_reset :: u8
  bd_was_healthy :: u8

definition boot_data_bytes :: "SYN_BootData \<Rightarrow> u8 list" where
  "boot_data_bytes d = enc_u32_le (bd_boot_count d) @ enc_u16_le (bd_fail_count d) @ [bd_last_reset d, bd_was_healthy d]"

definition boot_data_of :: "u8 list \<Rightarrow> SYN_BootData" where
  "boot_data_of bs = \<lparr>bd_boot_count = syn_peek_u32_le bs 0, bd_fail_count = syn_peek_u16_le bs 4, bd_last_reset = bs ! 6, bd_was_healthy = bs ! 7\<rparr>"

record SYN_Boot =
  bt_data :: SYN_BootData
  bt_safe_threshold :: u16
  bt_safe_mode :: bool
  bt_initialized :: bool
  bt_errlog :: bool

definition SYN_BOOT_ERR_CRASH_LOOP :: u16 where "SYN_BOOT_ERR_CRASH_LOOP = 0x0300"
definition SYN_BOOT_ERR_SAFE_MODE :: u16 where "SYN_BOOT_ERR_SAFE_MODE = 0x0301"
definition SYN_RESET_UNKNOWN :: u8 where "SYN_RESET_UNKNOWN = 0"

definition zero_boot_data :: SYN_BootData where
  "zero_boot_data = \<lparr>bd_boot_count = 0, bd_fail_count = 0, bd_last_reset = 0, bd_was_healthy = 0\<rparr>"

definition syn_boot_init ::
  "'f flash_port \<Rightarrow> SYN_ParamStore \<Rightarrow> u16 \<Rightarrow> u8 list \<Rightarrow> 'f \<Rightarrow> SYN_Status \<times> SYN_Boot \<times> SYN_ParamStore \<times> 'f" where
  "syn_boot_init P store safe_threshold pad f =
     (let boot = \<lparr>bt_data = zero_boot_data, bt_safe_threshold = safe_threshold, bt_safe_mode = False, bt_initialized = False, bt_errlog = False\<rparr>;
          (st, buf) = syn_param_load P store (boot_data_bytes (bt_data boot)) f
      in if st \<noteq> SYN_OK
         then let data = zero_boot_data\<lparr>bd_boot_count := 1, bd_fail_count := 0, bd_was_healthy := 0, bd_last_reset := SYN_RESET_UNKNOWN\<rparr>;
                  (_, store, f) = syn_param_save P store (boot_data_bytes data) pad f
              in (SYN_ERROR, boot\<lparr>bt_data := data, bt_initialized := True\<rparr>, store, f)
         else let data = boot_data_of buf;
                  data = data\<lparr>bd_boot_count := bd_boot_count data + 1\<rparr>;
                  data = (if bd_was_healthy data = 0 then data\<lparr>bd_fail_count := bd_fail_count data + 1\<rparr> else data\<lparr>bd_fail_count := 0\<rparr>);
                  data = data\<lparr>bd_was_healthy := 0\<rparr>;
                  safe = (safe_threshold > 0 \<and> bd_fail_count data \<ge> safe_threshold);
                  (_, store, f) = syn_param_save P store (boot_data_bytes data) pad f
              in (SYN_OK, boot\<lparr>bt_data := data, bt_safe_mode := safe, bt_initialized := True, bt_errlog := False\<rparr>, store, f))"

definition syn_boot_mark_healthy ::
  "'f flash_port \<Rightarrow> SYN_Boot \<Rightarrow> SYN_ParamStore \<Rightarrow> u8 list \<Rightarrow> 'f \<Rightarrow> SYN_Status \<times> SYN_Boot \<times> SYN_ParamStore \<times> 'f" where
  "syn_boot_mark_healthy P boot store pad f =
     (if \<not> bt_initialized boot then (SYN_INVALID_PARAM, boot, store, f)
      else let boot = boot\<lparr>bt_data := (bt_data boot)\<lparr>bd_was_healthy := 1, bd_fail_count := 0\<rparr>\<rparr>;
               (st, store, f) = syn_param_save P store (boot_data_bytes (bt_data boot)) pad f
           in (st, boot, store, f))"

definition syn_boot_set_reset_reason :: "SYN_Boot \<Rightarrow> u8 \<Rightarrow> SYN_Boot" where
  "syn_boot_set_reset_reason boot reason = boot\<lparr>bt_data := (bt_data boot)\<lparr>bd_last_reset := reason\<rparr>\<rparr>"

definition syn_boot_clear_safe_mode ::
  "'f flash_port \<Rightarrow> SYN_Boot \<Rightarrow> SYN_ParamStore \<Rightarrow> u8 list \<Rightarrow> 'f \<Rightarrow> SYN_Status \<times> SYN_Boot \<times> SYN_ParamStore \<times> 'f" where
  "syn_boot_clear_safe_mode P boot store pad f =
     (if \<not> bt_initialized boot then (SYN_INVALID_PARAM, boot, store, f)
      else let boot = boot\<lparr>bt_safe_mode := False, bt_data := (bt_data boot)\<lparr>bd_fail_count := 0, bd_was_healthy := 1\<rparr>\<rparr>;
               (st, store, f) = syn_param_save P store (boot_data_bytes (bt_data boot)) pad f
           in (st, boot, store, f))"

definition syn_boot_set_errlog :: "SYN_Boot \<Rightarrow> bool \<Rightarrow> SYN_Boot" where
  "syn_boot_set_errlog boot errlog = boot\<lparr>bt_errlog := errlog\<rparr>"

definition syn_boot_log_events :: "SYN_Boot \<Rightarrow> errlog \<Rightarrow> u32 \<Rightarrow> errlog" where
  "syn_boot_log_events boot log now =
     (if \<not> bt_errlog boot then log
      else let log = (if bd_fail_count (bt_data boot) > 0
                      then syn_errlog_record log SYN_BOOT_ERR_CRASH_LOOP SYN_ERR_WARNING (ucast (bd_fail_count (bt_data boot))) now else log)
           in if bt_safe_mode boot
              then syn_errlog_record log SYN_BOOT_ERR_SAFE_MODE SYN_ERR_FATAL (bd_boot_count (bt_data boot)) now else log)"

definition syn_boot_is_safe_mode :: "SYN_Boot \<Rightarrow> bool" where "syn_boot_is_safe_mode boot = bt_safe_mode boot"
definition syn_boot_count :: "SYN_Boot \<Rightarrow> u32" where "syn_boot_count boot = bd_boot_count (bt_data boot)"
definition syn_boot_fail_count :: "SYN_Boot \<Rightarrow> u16" where "syn_boot_fail_count boot = bd_fail_count (bt_data boot)"
definition syn_boot_reset_reason :: "SYN_Boot \<Rightarrow> u8" where "syn_boot_reset_reason boot = bd_last_reset (bt_data boot)"

subsection \<open>The stored record\<close>

lemma boot_bytes_length [simp]: "length (boot_data_bytes d) = 8"
  by (simp add: boot_data_bytes_def enc_u32_le_def enc_u16_le_def)

lemma boot_data_inverse [simp]: "boot_data_of (boot_data_bytes d) = d"
  by (cases d) (simp add: boot_data_of_def boot_data_bytes_def enc_u32_le_def enc_u16_le_def syn_peek_u32_le_def syn_peek_u16_le_def
    join_u32_le join_u16_le)

subsection \<open>Consecutive starts\<close>

text \<open>
  One start of the device: the flash comes up with \<open>n\<close> byte changes in it, the store is initialised, then the boot manager, and the application
  marks the boot healthy or does not get that far.
\<close>

definition boot_start ::
  "'f flash_port \<Rightarrow> (nat \<Rightarrow> 'f \<Rightarrow> 'f) \<Rightarrow> u32 \<Rightarrow> u8 \<Rightarrow> u16 \<Rightarrow> nat \<Rightarrow> u8 list \<Rightarrow> SYN_ParamStore \<times> 'f \<Rightarrow> SYN_Boot \<times> SYN_ParamStore \<times> 'f" where
  "boot_start P cycle base cnt thr n pad = (\<lambda>(store, f).
     let f = cycle n f; (_, store) = syn_param_init P store base cnt 8 f in snd (syn_boot_init P store thr pad f))"

fun boot_runs ::
  "'f flash_port \<Rightarrow> (nat \<Rightarrow> 'f \<Rightarrow> 'f) \<Rightarrow> u32 \<Rightarrow> u8 \<Rightarrow> u16 \<Rightarrow> nat \<Rightarrow> u8 list \<Rightarrow> bool list \<Rightarrow> SYN_ParamStore \<times> 'f \<Rightarrow> SYN_ParamStore \<times> 'f" where
  "boot_runs P cycle base cnt thr n pad [] s = s"
| "boot_runs P cycle base cnt thr n pad (healthy # hs) s =
     (let (boot, store, f) = boot_start P cycle base cnt thr n pad s
      in boot_runs P cycle base cnt thr n pad hs (if healthy then snd (snd (syn_boot_mark_healthy P boot store pad f)) else (store, f)))"

text \<open>How many of the latest starts were not healthy.\<close>

definition unhealthy_streak :: "bool list \<Rightarrow> nat" where
  "unhealthy_streak hs = length (takeWhile Not (rev hs))"

lemma streak_snoc: "unhealthy_streak (hs @ [h]) = (if h then 0 else Suc (unhealthy_streak hs))"
  by (simp add: unhealthy_streak_def)

lemma streak_le: "unhealthy_streak hs \<le> length hs"
  unfolding unhealthy_streak_def by (metis length_rev length_takeWhile_le)

text \<open>What the store holds after the starts \<open>hs\<close>.\<close>

definition boot_record :: "bool list \<Rightarrow> u8 list option \<Rightarrow> bool" where
  "boot_record hs v \<longleftrightarrow> (if hs = [] then v = None
     else \<exists>d. v = Some (boot_data_bytes d) \<and> bd_boot_count d = of_nat (length hs) \<and> bd_was_healthy d = (if last hs then 1 else 0)
       \<and> bd_fail_count d = (if last hs then 0 else of_nat (unhealthy_streak hs - 1)))"

text \<open>The flash holds a record from which the store can be initialised.\<close>

definition boot_holds :: "u32 \<Rightarrow> u8 \<Rightarrow> stm32f4_flash \<Rightarrow> u8 list option \<Rightarrow> bool" where
  "boot_holds base cnt f v \<longleftrightarrow> (\<exists>st. param_synced stm32f4_port f4_sector base cnt 8 st (fl_mem f) v)"

definition boot_cost :: "u32 \<Rightarrow> nat" where
  "boot_cost base = unat (f4_flash_sector_size base) + 8 + HDR_LEN"

lemma boot_start_step:
  assumes "boot_holds base cnt f v" "boot_record hs v" "length pad = 8" "boot_cost base \<le> n"
  shows "\<exists>boot store f'. boot_start stm32f4_port f4_power_cycle base cnt thr n pad (st0, f) = (boot, store, f')
    \<and> param_synced stm32f4_port f4_sector base cnt 8 store (fl_mem f') (Some (boot_data_bytes (bt_data boot)))
    \<and> \<not> fl_busy f' \<and> n \<le> fl_left f' + boot_cost base \<and> bt_initialized boot
    \<and> bd_boot_count (bt_data boot) = of_nat (Suc (length hs)) \<and> bd_was_healthy (bt_data boot) = 0
    \<and> bd_fail_count (bt_data boot) = of_nat (unhealthy_streak hs)
    \<and> bt_safe_mode boot = (hs \<noteq> [] \<and> thr > 0 \<and> of_nat (unhealthy_streak hs) \<ge> thr)"
proof -
  let ?f = "f4_power_cycle n f"
  obtain st where st: "param_synced stm32f4_port f4_sector base cnt 8 st (fl_mem ?f) v" using assms(1) by (auto simp: boot_holds_def f4_power_cycle_def)
  then have i: "param_inv f4_sector st (fl_mem ?f)" "param_config st = param_blank stm32f4_port base cnt 8" "param_value st (fl_mem ?f) = v"
    by (simp_all add: param_synced_def)
  have in': "snd (syn_param_init stm32f4_port st0 base cnt 8 ?f) = st" using f4.init_recovers [OF i(1,2)] by simp
  have save: "\<exists>st' f'. syn_param_save stm32f4_port st (boot_data_bytes d) pad ?f = (SYN_OK, st', f') \<and> \<not> fl_busy f' \<and> n \<le> fl_left f' + boot_cost base
      \<and> param_synced stm32f4_port f4_sector base cnt 8 st' (fl_mem f') (Some (boot_data_bytes d))" for d
    using f4_save_synced [OF st, of "boot_data_bytes d" pad] assms(3,4) by (auto simp: boot_cost_def f4_power_cycle_def)
  have e: "boot_start stm32f4_port f4_power_cycle base cnt thr n pad (st0, f) = snd (syn_boot_init stm32f4_port st thr pad ?f)"
    by (simp add: boot_start_def Let_def case_prod_beta in')
  show ?thesis
  proof (cases "hs = []")
    case True
    then have "fst (syn_param_load stm32f4_port st buf ?f) = SYN_ERROR" for buf using assms(2) f4.load_value(2) [OF i(1)] i(3) by (simp add: boot_record_def)
    then show ?thesis using save [of "zero_boot_data\<lparr>bd_boot_count := 1, bd_fail_count := 0, bd_was_healthy := 0, bd_last_reset := SYN_RESET_UNKNOWN\<rparr>"] True unfolding e
      by (auto simp: syn_boot_init_def Let_def case_prod_beta zero_boot_data_def unhealthy_streak_def)
  next
    case False
    then obtain d where d: "v = Some (boot_data_bytes d)" "bd_boot_count d = of_nat (length hs)" "bd_was_healthy d = (if last hs then 1 else 0)"
        "bd_fail_count d = (if last hs then 0 else of_nat (unhealthy_streak hs - 1))" using assms(2) by (auto simp: boot_record_def)
    have s: "unhealthy_streak hs = (if last hs then 0 else Suc (unhealthy_streak (butlast hs)))" using streak_snoc [of "butlast hs" "last hs"] False by simp
    let ?d = "d\<lparr>bd_boot_count := of_nat (Suc (length hs)), bd_fail_count := of_nat (unhealthy_streak hs), bd_was_healthy := 0\<rparr>"
    have l: "syn_param_load stm32f4_port st buf ?f = (SYN_OK, boot_data_bytes d)" for buf using f4.load_value(1) [OF i(1)] i(3) d(1) by simp
    show ?thesis using save [of ?d] d s False unfolding e by (cases "last hs") (auto simp: syn_boot_init_def Let_def l add.commute)
  qed
qed

lemma boot_runs_record:
  assumes "boot_holds base cnt f v" "boot_record ps v" "length pad = 8" "2 * boot_cost base \<le> n"
  shows "\<exists>v'. boot_holds base cnt (snd (boot_runs stm32f4_port f4_power_cycle base cnt thr n pad hs (st0, f))) v' \<and> boot_record (ps @ hs) v'"
  using assms(1,2)
proof (induction hs arbitrary: ps f v st0)
  case Nil
  then show ?case by auto
next
  case (Cons h hs)
  have n: "boot_cost base \<le> n" using assms(4) by simp
  obtain boot store f1 where b: "boot_start stm32f4_port f4_power_cycle base cnt thr n pad (st0, f) = (boot, store, f1)"
      "param_synced stm32f4_port f4_sector base cnt 8 store (fl_mem f1) (Some (boot_data_bytes (bt_data boot)))" "\<not> fl_busy f1"
      "n \<le> fl_left f1 + boot_cost base" "bt_initialized boot" "bd_boot_count (bt_data boot) = of_nat (Suc (length ps))" "bd_was_healthy (bt_data boot) = 0"
      "bd_fail_count (bt_data boot) = of_nat (unhealthy_streak ps)"
    using boot_start_step [OF Cons.prems assms(3) n, of thr st0] by blast
  show ?case
  proof (cases h)
    case False
    have r: "boot_record (ps @ [h]) (Some (boot_data_bytes (bt_data boot)))" using b False streak_snoc [of ps h] by (auto simp: boot_record_def)
    have "boot_holds base cnt f1 (Some (boot_data_bytes (bt_data boot)))" using b(2) by (auto simp: boot_holds_def)
    then show ?thesis using Cons.IH [OF _ r, of f1 store] b(1) False by simp
  next
    case True
    let ?d = "(bt_data boot)\<lparr>bd_was_healthy := 1, bd_fail_count := 0\<rparr>"
    have "boot_cost base \<le> fl_left f1" using b(4) assms(4) by simp
    then obtain st2 f2 where s: "syn_param_save stm32f4_port store (boot_data_bytes ?d) pad f1 = (SYN_OK, st2, f2)"
        "param_synced stm32f4_port f4_sector base cnt 8 st2 (fl_mem f2) (Some (boot_data_bytes ?d))"
      using f4_save_synced [OF b(2), of "boot_data_bytes ?d" pad] assms(3) b(3) by (auto simp: boot_cost_def)
    have r: "boot_record (ps @ [h]) (Some (boot_data_bytes ?d))" using b(6) True by (auto simp: boot_record_def)
    have "boot_holds base cnt f2 (Some (boot_data_bytes ?d))" using s(2) by (auto simp: boot_holds_def)
    then show ?thesis using Cons.IH [OF _ r, of f2 st2] b(1,5) s(1) True by (simp add: syn_boot_mark_healthy_def)
  qed
qed



subsection \<open>Where the manager departs from its description\<close>

text \<open>A start takes the reset reason from the flash: a reason set since the last save is lost, although the header says that the next start saves it.\<close>

lemma boot_reason_from_flash:
  assumes "\<And>buf. syn_param_load P store buf f = (SYN_OK, boot_data_bytes d)"
  shows "syn_boot_reset_reason (fst (snd (syn_boot_init P store thr pad f))) = bd_last_reset d"
  by (simp add: syn_boot_init_def assms Let_def case_prod_beta syn_boot_reset_reason_def)

text \<open>The counter of failed starts wraps: the 65536th consecutive failure leaves safe mode.\<close>

lemma boot_fail_count_wraps:
  assumes "\<And>buf. syn_param_load P store buf f = (SYN_OK, boot_data_bytes d)" "bd_fail_count d = 0xFFFF" "bd_was_healthy d = 0"
  shows "syn_boot_fail_count (fst (snd (syn_boot_init P store thr pad f))) = 0 \<and> \<not> syn_boot_is_safe_mode (fst (snd (syn_boot_init P store thr pad f)))"
proof -
  have "bd_fail_count d + 1 = 0" using assms(2) by simp
  then show ?thesis by (auto simp: syn_boot_init_def assms(1,3) Let_def case_prod_beta syn_boot_fail_count_def syn_boot_is_safe_mode_def)
qed

end
