(* ===== verification/Syn_Settings.thy ===== *)
theory Syn_Settings
  imports Syn_Param
begin

text \<open>
  The settings manager of \<^verbatim>\<open>storage/syn_settings.c\<close>, a client of the parameter store: a block of settings in memory that the application edits in place, a
  checksum of what was last saved or loaded, and saves that are skipped while the checksum has not changed; and its dual-bank variant, which
  saves alternately to two stores. The settings in memory are the field \<open>se_data\<close> (both banks point at the same block); a save returns the
  block it passed to the change callback, if one is set and was called. Export to and import from files are not modelled.
\<close>

subsection \<open>Settings\<close>

record SYN_Settings =
  se_store :: SYN_ParamStore
  se_data :: "u8 list"
  se_data_size :: u16
  se_defaults :: "u8 list"
  se_checksum :: u16
  se_on_change :: bool

definition compute_crc :: "u8 list \<Rightarrow> u16" where
  "compute_crc data = syn_crc16_ccitt data"

definition syn_settings_init ::
  "'f flash_port \<Rightarrow> SYN_Settings \<Rightarrow> u32 \<Rightarrow> u8 \<Rightarrow> u8 list \<Rightarrow> u16 \<Rightarrow> u8 list \<Rightarrow> u8 list \<Rightarrow> 'f \<Rightarrow> SYN_Status \<times> SYN_Settings \<times> 'f" where
  "syn_settings_init P s flash_base sector_count data data_size defaults pad f =
     (if data_size = 0 then (SYN_INVALID_PARAM, s, f)
      else let (st, store) = syn_param_init P (se_store s) flash_base sector_count data_size f;
               s = s\<lparr>se_store := store, se_data := data, se_data_size := data_size, se_defaults := defaults, se_on_change := False\<rparr>
           in if st = SYN_OK
              then let (st, buf) = syn_param_load P store data f; data = (if st \<noteq> SYN_OK then defaults else buf)
                   in (SYN_OK, s\<lparr>se_data := data, se_checksum := compute_crc data\<rparr>, f)
              else let data = defaults; (save_st, store, f) = syn_param_save P store data pad f
                   in if save_st \<noteq> SYN_OK then (save_st, s\<lparr>se_data := data, se_store := store\<rparr>, f)
                      else (SYN_OK, s\<lparr>se_data := data, se_store := store, se_checksum := compute_crc data\<rparr>, f))"

definition syn_settings_save :: "'f flash_port \<Rightarrow> SYN_Settings \<Rightarrow> u8 list \<Rightarrow> 'f \<Rightarrow> SYN_Status \<times> SYN_Settings \<times> u8 list option \<times> 'f" where
  "syn_settings_save P s pad f =
     (let new_crc = compute_crc (se_data s)
      in if new_crc = se_checksum s then (SYN_OK, s, None, f)
         else let (st, store, f) = syn_param_save P (se_store s) (se_data s) pad f; s = s\<lparr>se_store := store\<rparr>
              in if st = SYN_OK then (st, s\<lparr>se_checksum := new_crc\<rparr>, if se_on_change s then Some (se_data s) else None, f)
                 else (st, s, None, f))"

definition syn_settings_changed :: "SYN_Settings \<Rightarrow> bool" where
  "syn_settings_changed s \<longleftrightarrow> compute_crc (se_data s) \<noteq> se_checksum s"

definition syn_settings_reset :: "'f flash_port \<Rightarrow> SYN_Settings \<Rightarrow> u8 list \<Rightarrow> 'f \<Rightarrow> SYN_Status \<times> SYN_Settings \<times> u8 list option \<times> 'f" where
  "syn_settings_reset P s pad f = syn_settings_save P (s\<lparr>se_data := se_defaults s\<rparr>) pad f"

definition syn_settings_on_change :: "SYN_Settings \<Rightarrow> bool \<Rightarrow> SYN_Settings" where
  "syn_settings_on_change s cb = s\<lparr>se_on_change := cb\<rparr>"

definition syn_settings_checksum :: "SYN_Settings \<Rightarrow> u16" where
  "syn_settings_checksum s = se_checksum s"

definition syn_settings_reload :: "'f flash_port \<Rightarrow> SYN_Settings \<Rightarrow> 'f \<Rightarrow> SYN_Status \<times> SYN_Settings" where
  "syn_settings_reload P s f =
     (let (st, buf) = syn_param_load P (se_store s) (se_data s) f; s = s\<lparr>se_data := buf\<rparr>
      in if st = SYN_OK then (st, s\<lparr>se_checksum := compute_crc buf\<rparr>) else (st, s))"

definition syn_settings_export :: "SYN_Settings \<Rightarrow> u8 list \<Rightarrow> int \<times> u8 list" where
  "syn_settings_export s buf =
     (if length buf < unat (se_data_size s) then (- 2, buf) else (int (unat (se_data_size s)), copy_into buf 0 (se_data s)))"

definition syn_settings_import ::
  "'f flash_port \<Rightarrow> SYN_Settings \<Rightarrow> u8 list \<Rightarrow> bool \<Rightarrow> u8 list \<Rightarrow> 'f \<Rightarrow> SYN_Status \<times> SYN_Settings \<times> u8 list option \<times> 'f" where
  "syn_settings_import P s buf save pad f =
     (if length buf \<noteq> unat (se_data_size s) then (SYN_INVALID_PARAM, s, None, f)
      else let s = s\<lparr>se_data := buf\<rparr>
           in if save then syn_settings_save P s pad f else (SYN_OK, s\<lparr>se_checksum := compute_crc (se_data s)\<rparr>, None, f))"

subsection \<open>Two banks\<close>

record SYN_DualBankSettings =
  db_bank_a :: SYN_Settings
  db_bank_b :: SYN_Settings
  db_active_bank :: u8
  db_active_crc32 :: u32

text \<open>The block of settings is shared: after an operation on one bank the other sees the same data.\<close>

definition share_data :: "u8 list \<Rightarrow> SYN_DualBankSettings \<Rightarrow> SYN_DualBankSettings" where
  "share_data d db = db\<lparr>db_bank_a := (db_bank_a db)\<lparr>se_data := d\<rparr>, db_bank_b := (db_bank_b db)\<lparr>se_data := d\<rparr>\<rparr>"

definition zero_settings :: SYN_Settings where
  "zero_settings = \<lparr>se_store = \<lparr>ps_flash_base = 0, ps_sector_size = 0, ps_sector_count = 0, ps_data_size = 0, ps_slot_size = 0, ps_slots_per_sector = 0,
       ps_active_sector = 0, ps_active_slot = 0, ps_next_seq = 0, ps_initialized = False, ps_has_active_slot = False\<rparr>,
     se_data = [], se_data_size = 0, se_defaults = [], se_checksum = 0, se_on_change = False\<rparr>"

definition syn_settings_dual_bank_init ::
  "'f flash_port \<Rightarrow> u32 \<Rightarrow> u32 \<Rightarrow> u8 \<Rightarrow> u8 list \<Rightarrow> u16 \<Rightarrow> u8 list \<Rightarrow> u8 list \<Rightarrow> 'f \<Rightarrow> SYN_Status \<times> SYN_DualBankSettings option \<times> 'f" where
  "syn_settings_dual_bank_init P flash_base_a flash_base_b sector_count data data_size defaults pad f =
     (if data_size = 0 then (SYN_INVALID_PARAM, None, f)
      else let (st_a, a, f) = syn_settings_init P zero_settings flash_base_a sector_count data data_size defaults pad f;
               (st_b, b, f) = syn_settings_init P zero_settings flash_base_b sector_count (se_data a) data_size defaults pad f;
               data = se_data b;
               load_a = snd (syn_param_load P (se_store a) data f);
               (bank, data, a, f) =
                 (if st_a = SYN_OK \<and> st_b = SYN_OK
                  then (if sint ((ps_next_seq (se_store b) - 1) - (ps_next_seq (se_store a) - 1)) > 0 then (1, data, a, f) else (0, load_a, a, f))
                  else if st_b = SYN_OK then (1, data, a, f)
                  else if st_a = SYN_OK then (0, load_a, a, f)
                  else let (_, a, _, f) = syn_settings_save P (a\<lparr>se_data := defaults\<rparr>) pad f in (0, defaults, a, f));
               crc = compute_crc data
           in (SYN_OK, Some (share_data data \<lparr>db_bank_a = a\<lparr>se_checksum := crc\<rparr>, db_bank_b = b\<lparr>se_checksum := crc\<rparr>,
                 db_active_bank = bank, db_active_crc32 = syn_crc32 data\<rparr>), f))"

definition syn_settings_dual_bank_save ::
  "'f flash_port \<Rightarrow> SYN_DualBankSettings \<Rightarrow> u8 list \<Rightarrow> 'f \<Rightarrow> SYN_Status \<times> SYN_DualBankSettings \<times> 'f" where
  "syn_settings_dual_bank_save P db pad f =
     (let active = (if db_active_bank db = 0 then db_bank_a db else db_bank_b db);
          inactive = (if db_active_bank db = 0 then db_bank_b db else db_bank_a db);
          current_crc = syn_crc32 (se_data active)
      in if current_crc = db_active_crc32 db then (SYN_OK, db, f)
         else let (st, inactive, _, f) = syn_settings_save P inactive pad f;
                  db = (if db_active_bank db = 0 then db\<lparr>db_bank_b := inactive\<rparr> else db\<lparr>db_bank_a := inactive\<rparr>)
              in if st = SYN_OK
                 then (st, db\<lparr>db_active_bank := (if db_active_bank db = 0 then 1 else 0), db_active_crc32 := current_crc\<rparr>, f)
                 else (st, db, f))"

subsection \<open>Saved settings survive\<close>

text \<open>The application edits the settings and saves, again and again; every save reports success.\<close>

fun settings_run :: "'f flash_port \<Rightarrow> u8 list \<Rightarrow> u8 list list \<Rightarrow> SYN_Settings \<times> 'f \<Rightarrow> (SYN_Settings \<times> 'f) option" where
  "settings_run P pad [] s = Some s"
| "settings_run P pad (d # ds) (s, f) =
     (let (st, s, _, f) = syn_settings_save P (s\<lparr>se_data := d\<rparr>) pad f in if st = SYN_OK then settings_run P pad ds (s, f) else None)"

text \<open>Saves are skipped when the 16-bit checksum has not changed: an edit must change it, or nothing.\<close>

fun edits_seen :: "u8 list \<Rightarrow> u8 list list \<Rightarrow> bool" where
  "edits_seen v [] \<longleftrightarrow> True"
| "edits_seen v (d # ds) \<longleftrightarrow> (d = v \<or> compute_crc d \<noteq> compute_crc v) \<and> edits_seen d ds"

definition settings_synced ::
  "'f flash_port \<Rightarrow> (u32 \<Rightarrow> (nat \<times> nat) option) \<Rightarrow> u32 \<Rightarrow> u8 \<Rightarrow> u16 \<Rightarrow> SYN_Settings \<Rightarrow> flash_mem \<Rightarrow> u8 list \<Rightarrow> bool" where
  "settings_synced P sector base cnt ds s m v \<longleftrightarrow>
     param_synced P sector base cnt ds (se_store s) m (Some v) \<and> se_checksum s = compute_crc v"

context nor_flash
begin

lemma settings_save_synced:
  assumes "settings_synced P sector base cnt ds s (mem f) v" "length d = unat ds" "length pad = 8" "d = v \<or> compute_crc d \<noteq> compute_crc v"
    and "syn_settings_save P (s\<lparr>se_data := d\<rparr>) pad f = (SYN_OK, s', ev, f')"
  shows "settings_synced P sector base cnt ds s' (mem f') d"
proof (cases "compute_crc d = compute_crc v")
  case True
  then have "s' = s\<lparr>se_data := d\<rparr>" "f' = f" "d = v" using assms by (auto simp: settings_synced_def syn_settings_save_def)
  then show ?thesis using assms(1) by (simp add: settings_synced_def)
next
  case False
  obtain r st f1 where s: "syn_param_save P (se_store s) d pad f = (r, st, f1)" by (metis prod_cases3)
  then have "r = SYN_OK" "se_store s' = st" "f' = f1" "se_checksum s' = compute_crc d"
    using assms(1,5) False by (auto simp: settings_synced_def syn_settings_save_def Let_def split: if_splits)
  moreover have y: "param_synced P sector base cnt ds (se_store s) (mem f) (Some v)" using assms(1) by (simp add: settings_synced_def)
  ultimately show ?thesis using save_synced(1) [OF y assms(2,3) s] by (simp add: settings_synced_def)
qed

lemma settings_run_synced:
  "settings_run P pad edits (s, f) = Some (s', f') \<Longrightarrow> settings_synced P sector base cnt ds s (mem f) v \<Longrightarrow> \<forall>d\<in>set edits. length d = unat ds
    \<Longrightarrow> length pad = 8 \<Longrightarrow> edits_seen v edits \<Longrightarrow> settings_synced P sector base cnt ds s' (mem f') (last (v # edits))"
proof (induction edits arbitrary: s f v)
  case (Cons d edits)
  obtain r s1 ev f1 where s: "syn_settings_save P (s\<lparr>se_data := d\<rparr>) pad f = (r, s1, ev, f1)" by (metis prod_cases4)
  then have r: "r = SYN_OK" "settings_run P pad edits (s1, f1) = Some (s', f')" using Cons.prems(1) by (auto split: if_splits)
  have "settings_synced P sector base cnt ds s1 (mem f1) d"
    using settings_save_synced [OF Cons.prems(2) _ Cons.prems(4) _ s [unfolded r(1)]] Cons.prems(3,5) by simp
  then show ?case using Cons.IH [OF r(2)] Cons.prems(3-5) by simp
qed simp

lemma settings_restart:
  assumes "settings_synced P sector base cnt ds s (mem f) v"
  shows "\<exists>s'. syn_settings_init P s0 base cnt data ds defaults pad f = (SYN_OK, s', f) \<and> se_data s' = v \<and> settings_synced P sector base cnt ds s' (mem f) v"
proof -
  have i: "param_inv sector (se_store s) (mem f)" "param_config (se_store s) = param_blank P base cnt ds" "param_value (se_store s) (mem f) = Some v"
    using assms by (simp_all add: settings_synced_def param_synced_def)
  have h: "ps_has_active_slot (se_store s)" using i(3) by (auto simp: param_value_def split: if_splits)
  have "ds \<noteq> 0" using i(1) config_size [OF i(2)] by (auto simp: param_inv_def geometry_def)
  then show ?thesis using init_recovers [OF i(1,2), of "se_store s0"] load_value(1) [OF i(1,3)] h assms
    by (simp add: syn_settings_init_def settings_synced_def)
qed

lemma settings_first_start:
  assumes "geometry sector (param_blank P base cnt ds)" "\<And>sec sl. in_store (param_blank P base cnt ds) sec sl \<Longrightarrow> slot_at (param_blank P base cnt ds) (mem f) sec sl = None"
    and "length defaults = unat ds" "length pad = 8" "syn_settings_init P s0 base cnt data ds defaults pad f = (SYN_OK, s, f')"
  shows "settings_synced P sector base cnt ds s (mem f') defaults \<and> se_data s = defaults"
proof -
  obtain r0 st0 where p: "syn_param_init P (se_store s0) base cnt ds f = (r0, st0)" by force
  have y: "param_synced P sector base cnt ds st0 (mem f) None" and r: "r0 = SYN_ERROR" using init_fresh [OF assms(1,2), of "se_store s0"] p by simp_all
  obtain r1 st1 f1 where s: "syn_param_save P st0 defaults pad f = (r1, st1, f1)" by (metis prod_cases3)
  have "ps_data_size (param_blank P base cnt ds) = ds" by (simp add: param_blank_def Let_def)
  then have "ds \<noteq> 0" using assms(1) by (auto simp: geometry_def)
  then have e: "r1 = SYN_OK" "se_store s = st1" "se_data s = defaults" "se_checksum s = compute_crc defaults" "f' = f1"
    using assms(5) p r s by (auto simp: syn_settings_init_def Let_def split: if_splits)
  show ?thesis using save_synced(1) [OF y assms(3,4) s e(1)] e by (simp add: settings_synced_def)
qed

end

text \<open>
  C39: The settings last saved are the ones a restart loads: after a first start on a flash without valid slots, any number of edits and saves that report
  success, and a power cycle, the settings are those of the last save, or the defaults when there was none. An edit that changes the
  settings but not their 16-bit checksum is excluded, since its save is skipped.
\<close>

theorem settings_survive_restart:
  assumes "geometry f4_sector (param_blank stm32f4_port base cnt ds)" "no_valid_slot stm32f4_port base cnt ds (fl_mem f0)"
    and "length defaults = unat ds" "\<forall>d\<in>set edits. length d = unat ds" "length pad = 8"
    and "syn_settings_init stm32f4_port s0 base cnt data ds defaults pad f0 = (SYN_OK, s1, f1)"
    and "settings_run stm32f4_port pad edits (s1, f1) = Some (s2, f2)" "edits_seen defaults edits"
    and "syn_settings_init stm32f4_port s3 base cnt data' ds defaults pad (f4_power_cycle n f2) = (r, s4, f4)"
  shows "r = SYN_OK \<and> se_data s4 = last (defaults # edits) \<and> \<not> syn_settings_changed s4"
proof -
  have "settings_synced stm32f4_port f4_sector base cnt ds s1 (fl_mem f1) defaults"
    using f4.settings_first_start [OF assms(1) _ assms(3,5,6)] assms(2) by (simp add: no_valid_slot_def)
  then have "settings_synced stm32f4_port f4_sector base cnt ds s2 (fl_mem (f4_power_cycle n f2)) (last (defaults # edits))"
    using f4.settings_run_synced [OF assms(7) _ assms(4,5,8)] by (simp add: f4_power_cycle_def)
  then show ?thesis using f4.settings_restart [of base cnt ds s2 "f4_power_cycle n f2" "last (defaults # edits)" s3 data' defaults pad] assms(9)
    by (auto simp: syn_settings_changed_def settings_synced_def)
qed

theorem settings_survive_restart_witness:
  "\<exists>s1 f1 s2 f2. syn_settings_init stm32f4_port zero_settings 0x08000000 2 [0] 1 [4] (replicate 8 0) (erased_flash 40000) = (SYN_OK, s1, f1)
    \<and> settings_run stm32f4_port (replicate 8 0) [[6]] (s1, f1) = Some (s2, f2)
    \<and> se_data (fst (snd (syn_settings_init stm32f4_port zero_settings 0x08000000 2 [0] 1 [4] (replicate 8 0) (f4_power_cycle 0 f2)))) = [6]"
proof -
  let ?f0 = "erased_flash 40000" and ?pad = "replicate 8 (0 :: u8)"
  obtain r0 st0 where p: "syn_param_init stm32f4_port (se_store zero_settings) 0x08000000 2 1 ?f0 = (r0, st0)" by force
  have "in_store (param_blank stm32f4_port 0x08000000 2 1) x y \<Longrightarrow> slot_at (param_blank stm32f4_port 0x08000000 2 1) (fl_mem ?f0) x y = None" for x y
    using erased_no_slot [of stm32f4_port "0x08000000" 2 1 40000] by (simp add: no_valid_slot_def)
  then have y: "param_synced stm32f4_port f4_sector 0x08000000 2 1 st0 (fl_mem ?f0) None" and r0: "r0 = SYN_ERROR"
    using f4.init_fresh [OF demo_geometry, of 2 1 ?f0 "se_store zero_settings"] p by simp_all
  obtain st1 f1 where a: "syn_param_save stm32f4_port st0 [4] ?pad ?f0 = (SYN_OK, st1, f1)" "\<not> fl_busy f1" "40000 \<le> fl_left f1 + 16384 + 1 + HDR_LEN"
      "param_synced stm32f4_port f4_sector 0x08000000 2 1 st1 (fl_mem f1) (Some [4])"
    using f4_save_synced [OF y, of "[4]" ?pad] by (auto simp: erased_flash_def demo_sizes HDR_LEN_def)
  obtain st2 f2 where b: "syn_param_save stm32f4_port st1 [6] ?pad f1 = (SYN_OK, st2, f2)"
    using f4_save_synced [OF a(4), of "[6]" ?pad] a(2,3) by (auto simp: demo_sizes HDR_LEN_def)
  have c: "compute_crc [4] \<noteq> compute_crc [6]" by (simp add: compute_crc_def syn_crc16_ccitt_def syn_crc16_ccitt_update_def crc16_ccitt_table_def)
  obtain s1 where s1: "syn_settings_init stm32f4_port zero_settings 0x08000000 2 [0] 1 [4] ?pad ?f0 = (SYN_OK, s1, f1)" "se_store s1 = st1" "se_checksum s1 = compute_crc [4]"
    using p r0 a(1) by (simp add: syn_settings_init_def Let_def)
  obtain s2 where s2: "settings_run stm32f4_port ?pad [[6]] (s1, f1) = Some (s2, f2)" using s1 b c by (auto simp: syn_settings_save_def Let_def)
  obtain r s4 f4 where q: "syn_settings_init stm32f4_port zero_settings 0x08000000 2 [0] 1 [4] ?pad (f4_power_cycle 0 f2) = (r, s4, f4)" by (metis prod_cases3)
  have "r = SYN_OK \<and> se_data s4 = last ([4] # [[6]]) \<and> \<not> syn_settings_changed s4"
    by (rule settings_survive_restart [OF demo_geometry erased_no_slot _ _ _ s1(1) s2 _ q]) (use c in simp_all)
  then show ?thesis using s1(1) s2 q by auto
qed

subsection \<open>Saves that are skipped\<close>

text \<open>Different blocks can have the same checksum: after an edit from one to the other a save reports success and writes nothing.\<close>

theorem settings_save_misses_collision:
  assumes "se_checksum s = compute_crc [3, 20, 1]" "se_data s = [32, 0, 0]"
  shows "syn_settings_save P s pad f = (SYN_OK, s, None, f)"
proof -
  have "compute_crc [32, 0, 0] = compute_crc [3, 20, 1]"
    by (simp add: compute_crc_def syn_crc16_ccitt_def syn_crc16_ccitt_update_def crc16_ccitt_table_def)
  then show ?thesis using assms by (simp add: syn_settings_save_def)
qed

text \<open>Settings imported without saving count as saved: a later save writes nothing, and nothing reports them as changed.\<close>

theorem settings_import_never_saved:
  assumes "syn_settings_import P s buf False pad f = (SYN_OK, s', ev, f')"
  shows "f' = f \<and> \<not> syn_settings_changed s' \<and> syn_settings_save P s' pad' f' = (SYN_OK, s', None, f')"
  using assms by (auto simp: syn_settings_import_def syn_settings_changed_def syn_settings_save_def split: if_splits)

text \<open>
  A save to two banks that changes the settings back to what the inactive bank last saved reports success and switches banks without
  writing: the flash still holds the other settings with the later sequence number, and a restart loads those.
\<close>

theorem dual_bank_revert_not_written:
  assumes "db_active_bank db = 0" "se_data (db_bank_a db) = se_data (db_bank_b db)" "syn_crc32 (se_data (db_bank_a db)) \<noteq> db_active_crc32 db"
    and "se_checksum (db_bank_b db) = compute_crc (se_data (db_bank_b db))" "syn_settings_dual_bank_save P db pad f = (r, db', f')"
  shows "r = SYN_OK \<and> f' = f \<and> db_active_bank db' = 1"
  using assms by (auto simp: syn_settings_dual_bank_save_def syn_settings_save_def Let_def)

end
