(* ===== verification/Syn_Fwboot.thy ===== *)
theory Syn_Fwboot
  imports Syn_Flash Syn_Crc Syn_Pack
begin

text \<open>
  Firmware images in two flash slots: the image header of \<^verbatim>\<open>system/syn_fwimage.h\<close> and the A/B boot manager of \<^verbatim>\<open>system/syn_fwboot.c\<close>. The flash is
  a port argument; headers are stored little-endian in 24 bytes.
\<close>

subsection \<open>Image headers\<close>

definition SYN_FW_MAGIC :: u32 where "SYN_FW_MAGIC = 0x53594E46"

definition SYN_FW_STATE_NEW :: u8 where "SYN_FW_STATE_NEW = 0x02"
definition SYN_FW_STATE_TESTING :: u8 where "SYN_FW_STATE_TESTING = 0x03"
definition SYN_FW_STATE_CONFIRMED :: u8 where "SYN_FW_STATE_CONFIRMED = 0x04"
definition SYN_FW_STATE_INVALID :: u8 where "SYN_FW_STATE_INVALID = 0x00"

lemmas fw_states = SYN_FW_STATE_NEW_def SYN_FW_STATE_TESTING_def SYN_FW_STATE_CONFIRMED_def SYN_FW_STATE_INVALID_def

record SYN_FwImageHeader =
  fh_magic :: u32
  fh_version_code :: u32
  fh_image_size :: u32
  fh_image_crc :: u32
  fh_state :: u8
  fh_reserved :: "u8 list"
  fh_header_crc :: u32

definition FW_HEADER_LEN :: nat where "FW_HEADER_LEN = 24"

definition fw_fields :: "SYN_FwImageHeader \<Rightarrow> u8 list" where
  "fw_fields h = enc_u32_le (fh_magic h) @ enc_u32_le (fh_version_code h) @ enc_u32_le (fh_image_size h) @ enc_u32_le (fh_image_crc h)
     @ [fh_state h] @ fh_reserved h"

definition fw_header_bytes :: "SYN_FwImageHeader \<Rightarrow> u8 list" where
  "fw_header_bytes h = fw_fields h @ enc_u32_le (fh_header_crc h)"

definition fw_header_of :: "u8 list \<Rightarrow> SYN_FwImageHeader" where
  "fw_header_of bs = \<lparr>fh_magic = syn_peek_u32_le bs 0, fh_version_code = syn_peek_u32_le bs 4, fh_image_size = syn_peek_u32_le bs 8,
     fh_image_crc = syn_peek_u32_le bs 12, fh_state = bs ! 16, fh_reserved = [bs ! 17, bs ! 18, bs ! 19], fh_header_crc = syn_peek_u32_le bs 20\<rparr>"

definition zero_fw_header :: SYN_FwImageHeader where
  "zero_fw_header = \<lparr>fh_magic = 0, fh_version_code = 0, fh_image_size = 0, fh_image_crc = 0, fh_state = 0, fh_reserved = [0, 0, 0], fh_header_crc = 0\<rparr>"

definition syn_fwimage_header_valid :: "SYN_FwImageHeader \<Rightarrow> bool" where
  "syn_fwimage_header_valid h \<longleftrightarrow> (if fh_magic h \<noteq> SYN_FW_MAGIC then False else syn_crc32 (fw_fields h) = fh_header_crc h)"

definition syn_fwimage_seal_header :: "SYN_FwImageHeader \<Rightarrow> SYN_FwImageHeader" where
  "syn_fwimage_seal_header h = h\<lparr>fh_header_crc := syn_crc32 (fw_fields h)\<rparr>"

definition syn_fwimage_is_bootable :: "SYN_FwImageHeader \<Rightarrow> bool" where
  "syn_fwimage_is_bootable h \<longleftrightarrow> syn_fwimage_header_valid h
     \<and> (fh_state h = SYN_FW_STATE_NEW \<or> fh_state h = SYN_FW_STATE_TESTING \<or> fh_state h = SYN_FW_STATE_CONFIRMED)"

subsection \<open>The boot manager\<close>

definition SYN_FW_SLOT_NONE :: u8 where "SYN_FW_SLOT_NONE = 0xFF"

record SYN_FwBootManager =
  fm_slot_addr :: "u32 list"
  fm_slot_hdr :: "SYN_FwImageHeader list"
  fm_active_slot :: u8
  fm_initialized :: bool

text \<open>Reading into a header that is kept when the read fails.\<close>

definition fw_read_header :: "'f flash_port \<Rightarrow> u32 \<Rightarrow> SYN_FwImageHeader \<Rightarrow> 'f \<Rightarrow> SYN_FwImageHeader" where
  "fw_read_header P addr hdr f = (case port_read P addr FW_HEADER_LEN f of (st, bs) \<Rightarrow> if st = SYN_OK then fw_header_of bs else hdr)"

definition write_state :: "'f flash_port \<Rightarrow> u32 \<Rightarrow> SYN_FwImageHeader \<Rightarrow> u8 \<Rightarrow> 'f \<Rightarrow> SYN_Status \<times> 'f" where
  "write_state P addr hdr new_state f =
     (let updated = syn_fwimage_seal_header (hdr\<lparr>fh_state := new_state\<rparr>); (st, f) = port_erase P addr f
      in if st \<noteq> SYN_OK then (st, f) else port_write P addr (fw_header_bytes updated) f)"

definition syn_fwboot_init :: "'f flash_port \<Rightarrow> u32 \<Rightarrow> u32 \<Rightarrow> 'f \<Rightarrow> SYN_Status \<times> SYN_FwBootManager" where
  "syn_fwboot_init P slot_a slot_b f =
     (SYN_OK, \<lparr>fm_slot_addr = [slot_a, slot_b],
        fm_slot_hdr = [fw_read_header P slot_a zero_fw_header f, fw_read_header P slot_b zero_fw_header f],
        fm_active_slot = SYN_FW_SLOT_NONE, fm_initialized = True\<rparr>)"

text \<open>Setting the state of a slot in flash and, whether that succeeds or not, in the cached header.\<close>

definition set_slot_state :: "'f flash_port \<Rightarrow> nat \<Rightarrow> u8 \<Rightarrow> SYN_FwBootManager \<times> 'f \<Rightarrow> SYN_FwBootManager \<times> 'f" where
  "set_slot_state P i new_state = (\<lambda>(mgr, f).
     let hdr = fm_slot_hdr mgr ! i; (_, f) = write_state P (fm_slot_addr mgr ! i) hdr new_state f
     in (mgr\<lparr>fm_slot_hdr := (fm_slot_hdr mgr)[i := syn_fwimage_seal_header (hdr\<lparr>fh_state := new_state\<rparr>)]\<rparr>, f))"

definition rollback_slot :: "'f flash_port \<Rightarrow> nat \<Rightarrow> bool list \<times> SYN_FwBootManager \<times> 'f \<Rightarrow> bool list \<times> SYN_FwBootManager \<times> 'f" where
  "rollback_slot P i = (\<lambda>(valid, mgr, f).
     if valid ! i \<and> fh_state (fm_slot_hdr mgr ! i) = SYN_FW_STATE_TESTING
     then (valid[i := False], set_slot_state P i SYN_FW_STATE_INVALID (mgr, f))
     else (valid, mgr, f))"

definition slot_in_state :: "bool list \<Rightarrow> SYN_FwBootManager \<Rightarrow> u8 \<Rightarrow> nat option" where
  "slot_in_state valid mgr state = find (\<lambda>i. valid ! i \<and> fh_state (fm_slot_hdr mgr ! i) = state) [0, 1]"

definition best_confirmed :: "bool list \<Rightarrow> SYN_FwBootManager \<Rightarrow> u8" where
  "best_confirmed valid mgr = fst (fold (\<lambda>i (best, best_ver).
     if valid ! i \<and> fh_state (fm_slot_hdr mgr ! i) = SYN_FW_STATE_CONFIRMED
        \<and> (best = SYN_FW_SLOT_NONE \<or> fh_version_code (fm_slot_hdr mgr ! i) > best_ver)
     then (of_nat i, fh_version_code (fm_slot_hdr mgr ! i)) else (best, best_ver)) [0, 1] (SYN_FW_SLOT_NONE, 0))"

definition syn_fwboot_select :: "'f flash_port \<Rightarrow> SYN_FwBootManager \<Rightarrow> bool \<Rightarrow> 'f \<Rightarrow> u8 \<times> SYN_FwBootManager \<times> 'f" where
  "syn_fwboot_select P mgr rollback f =
     (let valid = [syn_fwimage_header_valid (fm_slot_hdr mgr ! 0), syn_fwimage_header_valid (fm_slot_hdr mgr ! 1)];
          (valid, mgr, f) = (if rollback then fold (rollback_slot P) [0, 1] (valid, mgr, f) else (valid, mgr, f))
      in case slot_in_state valid mgr SYN_FW_STATE_TESTING of
           Some i \<Rightarrow> (of_nat i, mgr\<lparr>fm_active_slot := of_nat i\<rparr>, f)
         | None \<Rightarrow>
             (case slot_in_state valid mgr SYN_FW_STATE_NEW of
                Some i \<Rightarrow> let (mgr, f) = set_slot_state P i SYN_FW_STATE_TESTING (mgr, f) in (of_nat i, mgr\<lparr>fm_active_slot := of_nat i\<rparr>, f)
              | None \<Rightarrow> let best = best_confirmed valid mgr in (best, mgr\<lparr>fm_active_slot := best\<rparr>, f)))"

definition syn_fwboot_confirm :: "'f flash_port \<Rightarrow> SYN_FwBootManager \<Rightarrow> 'f \<Rightarrow> SYN_Status \<times> SYN_FwBootManager \<times> 'f" where
  "syn_fwboot_confirm P mgr f =
     (if fm_active_slot mgr \<ge> 2 then (SYN_ERROR, mgr, f)
      else let i = unat (fm_active_slot mgr); hdr = fm_slot_hdr mgr ! i
           in if fh_state hdr \<noteq> SYN_FW_STATE_TESTING then (SYN_ERROR, mgr, f)
              else let (st, f) = write_state P (fm_slot_addr mgr ! i) hdr SYN_FW_STATE_CONFIRMED f
                   in if st = SYN_OK
                      then (st, mgr\<lparr>fm_slot_hdr := (fm_slot_hdr mgr)[i := syn_fwimage_seal_header (hdr\<lparr>fh_state := SYN_FW_STATE_CONFIRMED\<rparr>)]\<rparr>, f)
                      else (st, mgr, f))"

definition syn_fwboot_refresh :: "'f flash_port \<Rightarrow> SYN_FwBootManager \<Rightarrow> 'f \<Rightarrow> SYN_Status \<times> SYN_FwBootManager" where
  "syn_fwboot_refresh P mgr f =
     (SYN_OK, mgr\<lparr>fm_slot_hdr := [fw_read_header P (fm_slot_addr mgr ! 0) (fm_slot_hdr mgr ! 0) f,
        fw_read_header P (fm_slot_addr mgr ! 1) (fm_slot_hdr mgr ! 1) f]\<rparr>)"

definition syn_fwboot_slot_addr :: "SYN_FwBootManager \<Rightarrow> u8 \<Rightarrow> u32" where
  "syn_fwboot_slot_addr mgr slot = (if slot < 2 then fm_slot_addr mgr ! unat slot else 0)"

definition syn_fwboot_slot_header :: "SYN_FwBootManager \<Rightarrow> u8 \<Rightarrow> SYN_FwImageHeader option" where
  "syn_fwboot_slot_header mgr slot = (if slot < 2 then Some (fm_slot_hdr mgr ! unat slot) else None)"

definition syn_fwboot_active_slot :: "SYN_FwBootManager \<Rightarrow> u8" where
  "syn_fwboot_active_slot mgr = fm_active_slot mgr"

subsection \<open>Selection\<close>

lemma rollback_valid: "rollback_slot P k (v, mgr, f) = (v', mgr', f') \<Longrightarrow> v' ! i \<Longrightarrow> i < length v \<Longrightarrow> v ! i \<and> length v' = length v"
  by (cases "k < length v"; cases "i = k") (auto simp: rollback_slot_def split: if_splits)

lemma slot_in_state_valid: "slot_in_state v mgr s = Some i \<Longrightarrow> i < 2 \<and> v ! i"
  by (auto simp: slot_in_state_def split: if_splits)

lemma best_confirmed_valid: "best_confirmed v mgr = of_nat i \<Longrightarrow> i < 2 \<Longrightarrow> v ! i"
  by (auto simp: best_confirmed_def SYN_FW_SLOT_NONE_def less_2_cases_iff split: if_splits)

lemma select_unfold:
  assumes "(if rollback then fold (rollback_slot P) [0, 1]
      ([syn_fwimage_header_valid (fm_slot_hdr mgr ! 0), syn_fwimage_header_valid (fm_slot_hdr mgr ! 1)], mgr, f)
    else ([syn_fwimage_header_valid (fm_slot_hdr mgr ! 0), syn_fwimage_header_valid (fm_slot_hdr mgr ! 1)], mgr, f)) = (v, m1, f1)"
  shows "syn_fwboot_select P mgr rollback f = (case slot_in_state v m1 SYN_FW_STATE_TESTING of
        Some i \<Rightarrow> (of_nat i, m1\<lparr>fm_active_slot := of_nat i\<rparr>, f1)
      | None \<Rightarrow> (case slot_in_state v m1 SYN_FW_STATE_NEW of
            Some i \<Rightarrow> let (mgr, f) = set_slot_state P i SYN_FW_STATE_TESTING (m1, f1) in (of_nat i, mgr\<lparr>fm_active_slot := of_nat i\<rparr>, f)
          | None \<Rightarrow> let best = best_confirmed v m1 in (best, m1\<lparr>fm_active_slot := best\<rparr>, f1)))"
  unfolding syn_fwboot_select_def Let_def assms by simp

text \<open>A selection chooses only a slot whose header was valid.\<close>

lemma select_valid:
  assumes "syn_fwboot_select P mgr rollback f = (slot, mgr', f')" "slot = of_nat i" "i < 2" "length (fm_slot_hdr mgr) = 2"
  shows "syn_fwimage_header_valid (fm_slot_hdr mgr ! i)"
proof -
  let ?v = "[syn_fwimage_header_valid (fm_slot_hdr mgr ! 0), syn_fwimage_header_valid (fm_slot_hdr mgr ! 1)]"
  obtain v m1 f1 where r: "(if rollback then fold (rollback_slot P) [0, 1] (?v, mgr, f) else (?v, mgr, f)) = (v, m1, f1)" by (metis prod_cases3)
  note sel = select_unfold [OF r]
  have u: "of_nat k = (of_nat i :: u8) \<longleftrightarrow> k = i" if "k < 2" for k using that assms(3) by (auto simp: less_2_cases_iff)
  have "v ! i"
  proof (cases "slot_in_state v m1 SYN_FW_STATE_TESTING")
    case (Some k)
    then show ?thesis using assms(1,2) u [of k] slot_in_state_valid [OF Some] unfolding sel by simp
  next
    case t: None
    show ?thesis
    proof (cases "slot_in_state v m1 SYN_FW_STATE_NEW")
      case (Some k)
      then show ?thesis using assms(1,2) t u [of k] slot_in_state_valid [OF Some] unfolding sel by (auto split: prod.splits)
    next
      case None
      then show ?thesis using assms(1-3) t best_confirmed_valid [of v m1 i] unfolding sel by (simp add: Let_def)
    qed
  qed
  moreover have "v ! i \<Longrightarrow> ?v ! i"
  proof (cases rollback)
    case True
    obtain v0 m0 f0 where 0: "rollback_slot P 0 (?v, mgr, f) = (v0, m0, f0)" by (metis prod_cases3)
    have "rollback_slot P 1 (v0, m0, f0) = (v, m1, f1)" using r True 0 by simp
    moreover have "length v0 = 2" using 0 by (auto simp: rollback_slot_def split: if_splits)
    ultimately show "v ! i \<Longrightarrow> ?v ! i" using rollback_valid [OF 0, of i] rollback_valid [of P 1 v0 m0 f0 v m1 f1 i] assms(3) by simp
  next
    case False
    then show "v ! i \<Longrightarrow> ?v ! i" using r by auto
  qed
  ultimately have "?v ! i" by blast
  then show ?thesis using assms(3) by (auto simp: less_2_cases_iff)
qed

subsection \<open>Headers in flash\<close>

lemma fw_header_inverse: "length (fh_reserved h) = 3 \<Longrightarrow> fw_header_of (fw_header_bytes h) = h"
proof -
  assume "length (fh_reserved h) = 3"
  then obtain x y z where "fh_reserved h = [x, y, z]" by (auto simp: numeral_3_eq_3 length_Suc_conv)
  then show ?thesis by (cases h) (simp add: fw_header_of_def fw_header_bytes_def fw_fields_def enc_u32_le_def syn_peek_u32_le_def join_u32_le)
qed

lemma fw_header_length: "length (fh_reserved h) = 3 \<Longrightarrow> length (fw_header_bytes h) = FW_HEADER_LEN"
  by (simp add: fw_header_bytes_def fw_fields_def enc_u32_le_def FW_HEADER_LEN_def)

lemma reserved_length [simp]: "length (fh_reserved (fw_header_of bs)) = 3" "length (fh_reserved zero_fw_header) = 3"
    "length (fh_reserved (syn_fwimage_seal_header h)) = length (fh_reserved h)"
  by (simp_all add: fw_header_of_def zero_fw_header_def syn_fwimage_seal_header_def)

lemma sealed_valid: "fh_magic h = SYN_FW_MAGIC \<Longrightarrow> syn_fwimage_header_valid (syn_fwimage_seal_header h)"
  by (simp add: syn_fwimage_header_valid_def syn_fwimage_seal_header_def fw_fields_def)

definition header_at :: "flash_mem \<Rightarrow> nat \<Rightarrow> SYN_FwImageHeader" where
  "header_at m a = fw_header_of (flash_bytes m a FW_HEADER_LEN)"

subsection \<open>What an operation can touch\<close>

text \<open>A range of addresses and every sector that has one of them.\<close>

definition touches :: "(u32 \<Rightarrow> (nat \<times> nat) option) \<Rightarrow> nat \<Rightarrow> nat \<Rightarrow> nat set" where
  "touches sector lo hi = {lo..<hi} \<union> {x. \<exists>a s n. sector a = Some (s, n) \<and> lo \<le> unat a \<and> unat a < hi \<and> s \<le> x \<and> x < s + n}"

context nor_flash
begin

lemma erase_frame:
  assumes "port_erase P a f = (r, f')" "lo \<le> unat a" "unat a < hi" "x \<notin> touches sector lo hi"
  shows "mem f' x = mem f x"
proof (cases "sector a")
  case None
  then show ?thesis using erase_nowhere [OF None assms(1)] by simp
next
  case (Some sn)
  then obtain s n where s: "sector a = Some (s, n)" by (cases sn) auto
  obtain k where k: "k \<le> n" "mem f' = nor_erase s k (mem f)" using erase_prefix [OF s assms(1)] by blast
  have "\<not> (s \<le> x \<and> x < s + n)" using assms(2-4) s unfolding touches_def by blast
  then have "x < s \<or> s + n \<le> x" by linarith
  then show ?thesis using k by (auto intro: erase_outside)
qed

lemma write_frame:
  assumes "port_write P a d f = (r, f')" "lo \<le> unat a" "unat a + length d \<le> hi" "x \<notin> touches sector lo hi"
  shows "mem f' x = mem f x"
proof -
  obtain k where k: "k \<le> length d" "mem f' = nor_program (unat a) (take k d) (mem f)" using write_prefix [OF assms(1)] by blast
  have "x < unat a \<or> unat a + length d \<le> x" using assms(2-4) unfolding touches_def by force
  then show ?thesis using k by (auto intro: program_outside)
qed

lemma write_state_frame:
  assumes "write_state P a h s f = (r, f')" "length (fh_reserved h) = 3" "lo \<le> unat a" "unat a + FW_HEADER_LEN \<le> hi" "x \<notin> touches sector lo hi"
  shows "mem f' x = mem f x"
proof -
  obtain r1 f1 where e: "port_erase P a f = (r1, f1)" by force
  have a: "unat a < hi" using assms(4) by (simp add: FW_HEADER_LEN_def)
  have l: "length (fw_header_bytes (syn_fwimage_seal_header (h\<lparr>fh_state := s\<rparr>))) = FW_HEADER_LEN" using assms(2) by (intro fw_header_length) simp
  note E = erase_frame [OF e assms(3) a assms(5)]
  show ?thesis
  proof (cases "r1 = SYN_OK")
    case True
    then have "port_write P a (fw_header_bytes (syn_fwimage_seal_header (h\<lparr>fh_state := s\<rparr>))) f1 = (r, f')" using assms(1) e by (simp add: write_state_def Let_def)
    then show ?thesis using write_frame [OF _ assms(3) _ assms(5)] l assms(4) E by simp
  next
    case False
    then show ?thesis using assms(1) e E by (simp add: write_state_def Let_def)
  qed
qed

lemma read_header_eq: "fw_read_header P a h f = header_at (mem f) (unat a)"
  by (simp add: fw_read_header_def read_bytes header_at_def)

end

subsection \<open>Where a start damages the image\<close>

text \<open>
  The state of an image is changed by erasing the sector of its header and rewriting the header. The image itself begins right behind the header: the
  first start of a new image erases the rest of its first sector.
\<close>

theorem fwboot_promotion_erases_image:
  assumes "f4_sector a = Some (unat a, n)" "syn_fwimage_header_valid (header_at (fl_mem f) (unat a))" "fh_state (header_at (fl_mem f) (unat a)) = SYN_FW_STATE_NEW"
    and "fh_state (header_at (fl_mem f) (unat b)) \<noteq> SYN_FW_STATE_TESTING" "\<not> fl_busy f" "n \<le> fl_left f"
    and "syn_fwboot_init stm32f4_port a b f = (st, mgr)" "syn_fwboot_select stm32f4_port mgr False f = (slot, mgr', f')"
    and "unat a + FW_HEADER_LEN \<le> x" "x < unat a + n"
  shows "slot = 0 \<and> fl_mem f' x = 0xFF"
proof -
  have m: "mgr = \<lparr>fm_slot_addr = [a, b], fm_slot_hdr = [header_at (fl_mem f) (unat a), header_at (fl_mem f) (unat b)], fm_active_slot = SYN_FW_SLOT_NONE, fm_initialized = True\<rparr>"
    using assms(7) by (simp add: syn_fwboot_init_def f4.read_header_eq)
  obtain r f1 where w: "write_state stm32f4_port a (header_at (fl_mem f) (unat a)) SYN_FW_STATE_TESTING f = (r, f1)" by force
  have s: "slot = 0 \<and> f' = f1"
    using assms(8) assms(2-4) w unfolding m by (simp add: syn_fwboot_select_def slot_in_state_def set_slot_state_def Let_def fw_states)
  obtain f2 where e: "f4_flash_erase a f = (SYN_OK, f2)" using f4_erase_done [OF assms(1,5,6)] by blast
  have E: "fl_mem f2 = nor_erase (unat a) n (fl_mem f)" using f4.erase_ok [OF assms(1), of f f2] e by simp
  let ?h = "syn_fwimage_seal_header ((header_at (fl_mem f) (unat a))\<lparr>fh_state := SYN_FW_STATE_TESTING\<rparr>)"
  have p: "f4_flash_write a (fw_header_bytes ?h) f2 = (r, f1)" using w e by (simp add: write_state_def Let_def)
  have l: "length (fw_header_bytes ?h) = FW_HEADER_LEN" by (rule fw_header_length) (simp add: header_at_def)
  obtain k where "k \<le> FW_HEADER_LEN" "fl_mem f1 = nor_program (unat a) (take k (fw_header_bytes ?h)) (fl_mem f2)" using f4_write_prefix [OF p] l by auto
  then have "fl_mem f1 x = fl_mem f2 x" using assms(9) l by (simp add: program_outside)
  then show ?thesis using s E assms(9,10) by (simp add: nor_erase_def)
qed

end
