(* ===== verification/Syn_Fwupdate.thy ===== *)
theory Syn_Fwupdate
  imports Syn_Fwboot
begin

text \<open>
  The streaming firmware updater of \<^verbatim>\<open>system/syn_fwupdate.c\<close> in the default build (no HMAC, signature or decryption). Its copy loop ends only
  if the page buffer is not empty, so it is a partial function with value \<open>None\<close> where it does not return.
\<close>

subsection \<open>The updater\<close>

record SYN_FwUpdate =
  fu_slot_addr :: u32
  fu_data_addr :: u32
  fu_max_size :: u32
  fu_bytes_written :: u32
  fu_crc_state :: u32
  fu_page_buf :: "u8 list"
  fu_page_buf_size :: u16
  fu_page_buf_used :: u16
  fu_active :: bool
  fu_error :: bool

definition flush_page :: "'f flash_port \<Rightarrow> SYN_FwUpdate \<Rightarrow> 'f \<Rightarrow> SYN_Status \<times> SYN_FwUpdate \<times> 'f" where
  "flush_page P upd f =
     (if fu_page_buf_used upd = 0 then (SYN_OK, upd, f)
      else let addr = fu_data_addr upd + fu_bytes_written upd; sector_size = port_sector_size P addr;
               sector_start = addr - addr mod sector_size;
               (st, f) = (if sector_size > 0 \<and> addr = sector_start \<and> fu_bytes_written upd > 0 then port_erase P sector_start f else (SYN_OK, f))
           in if st \<noteq> SYN_OK then (st, upd, f)
              else let (st, f) = port_write P addr (take (unat (fu_page_buf_used upd)) (fu_page_buf upd)) f
                   in if st \<noteq> SYN_OK then (st, upd, f)
                      else (SYN_OK, upd\<lparr>fu_bytes_written := fu_bytes_written upd + ucast (fu_page_buf_used upd), fu_page_buf_used := 0\<rparr>, f))"

definition syn_fwupdate_begin ::
  "'f flash_port \<Rightarrow> SYN_FwUpdate \<Rightarrow> u32 \<Rightarrow> u32 \<Rightarrow> u8 list \<Rightarrow> u16 \<Rightarrow> 'f \<Rightarrow> SYN_Status \<times> SYN_FwUpdate \<times> 'f" where
  "syn_fwupdate_begin P upd slot_addr max_size page_buf page_buf_size f =
     (if page_buf_size = 0 then (SYN_INVALID_PARAM, upd, f)
      else let upd = \<lparr>fu_slot_addr = slot_addr, fu_data_addr = slot_addr + of_nat FW_HEADER_LEN, fu_max_size = max_size, fu_bytes_written = 0,
                 fu_crc_state = 0xFFFFFFFF, fu_page_buf = page_buf, fu_page_buf_size = page_buf_size, fu_page_buf_used = 0,
                 fu_active = True, fu_error = False\<rparr>;
               (st, f) = port_erase P slot_addr f
           in if st \<noteq> SYN_OK then (st, upd\<lparr>fu_error := True, fu_active := False\<rparr>, f) else (SYN_OK, upd, f))"

partial_function (option) fwupdate_copy :: "'f flash_port \<Rightarrow> u8 list \<Rightarrow> SYN_FwUpdate \<Rightarrow> 'f \<Rightarrow> (SYN_Status \<times> SYN_FwUpdate \<times> 'f) option" where
  "fwupdate_copy P data upd f =
     (if data = [] then Some (SYN_OK, upd, f)
      else let space = unat (fu_page_buf_size upd) - unat (fu_page_buf_used upd);
               to_copy = (if length data > space then space else length data);
               upd = upd\<lparr>fu_page_buf := copy_into (fu_page_buf upd) (unat (fu_page_buf_used upd)) (take to_copy data),
                         fu_page_buf_used := fu_page_buf_used upd + of_nat to_copy\<rparr>
           in if fu_page_buf_used upd \<ge> fu_page_buf_size upd
              then (case flush_page P upd f of
                      (st, upd, f) \<Rightarrow> if st \<noteq> SYN_OK then Some (st, upd\<lparr>fu_error := True\<rparr>, f) else fwupdate_copy P (drop to_copy data) upd f)
              else fwupdate_copy P (drop to_copy data) upd f)"

definition syn_fwupdate_write :: "'f flash_port \<Rightarrow> SYN_FwUpdate \<Rightarrow> u8 list \<Rightarrow> 'f \<Rightarrow> (SYN_Status \<times> SYN_FwUpdate \<times> 'f) option" where
  "syn_fwupdate_write P upd data f =
     (if \<not> fu_active upd \<or> fu_error upd then Some (SYN_ERROR, upd, f)
      else if data = [] then Some (SYN_OK, upd, f)
      else if fu_bytes_written upd + ucast (fu_page_buf_used upd) + of_nat (length data) > fu_max_size upd then Some (SYN_ERROR, upd\<lparr>fu_error := True\<rparr>, f)
      else fwupdate_copy P data (upd\<lparr>fu_crc_state := syn_crc32_update (fu_crc_state upd) data\<rparr>) f)"

definition syn_fwupdate_abort :: "'f flash_port \<Rightarrow> SYN_FwUpdate \<Rightarrow> 'f \<Rightarrow> SYN_FwUpdate \<times> 'f" where
  "syn_fwupdate_abort P upd f =
     (if \<not> fu_active upd then (upd, f)
      else let hdr = syn_fwimage_seal_header (zero_fw_header\<lparr>fh_magic := SYN_FW_MAGIC, fh_state := SYN_FW_STATE_INVALID\<rparr>);
               (_, f) = port_erase P (fu_slot_addr upd) f; (_, f) = port_write P (fu_slot_addr upd) (fw_header_bytes hdr) f
           in (upd\<lparr>fu_active := False, fu_error := True\<rparr>, f))"

definition syn_fwupdate_finish :: "'f flash_port \<Rightarrow> SYN_FwUpdate \<Rightarrow> u32 \<Rightarrow> u32 \<Rightarrow> 'f \<Rightarrow> SYN_Status \<times> SYN_FwUpdate \<times> 'f" where
  "syn_fwupdate_finish P upd expected_crc version_code f =
     (if \<not> fu_active upd \<or> fu_error upd then (SYN_ERROR, upd, f)
      else let (st, upd, f) = flush_page P upd f
           in if st \<noteq> SYN_OK then (st, upd\<lparr>fu_error := True\<rparr>, f)
              else let computed_crc = syn_crc32_final (fu_crc_state upd)
                   in if computed_crc \<noteq> expected_crc then (case syn_fwupdate_abort P upd f of (upd, f) \<Rightarrow> (SYN_ERROR, upd, f))
                      else let hdr = syn_fwimage_seal_header (zero_fw_header\<lparr>fh_magic := SYN_FW_MAGIC, fh_version_code := version_code,
                                       fh_image_size := fu_bytes_written upd, fh_image_crc := computed_crc, fh_state := SYN_FW_STATE_NEW\<rparr>);
                               (st, f) = port_write P (fu_slot_addr upd) (fw_header_bytes hdr) f
                           in if st \<noteq> SYN_OK then (case syn_fwupdate_abort P (upd\<lparr>fu_error := True\<rparr>) f of (upd, f) \<Rightarrow> (st, upd, f))
                              else (SYN_OK, upd\<lparr>fu_active := False\<rparr>, f))"

definition syn_fwupdate_progress :: "SYN_FwUpdate \<Rightarrow> u32" where "syn_fwupdate_progress upd = fu_bytes_written upd"
definition syn_fwupdate_active :: "SYN_FwUpdate \<Rightarrow> bool" where "syn_fwupdate_active upd = fu_active upd"

subsection \<open>What an update can touch\<close>

text \<open>An active update stays inside its slot.\<close>

definition upd_ok :: "nat \<Rightarrow> nat \<Rightarrow> SYN_FwUpdate \<Rightarrow> bool" where
  "upd_ok lo hi upd \<longleftrightarrow> unat (fu_slot_addr upd) = lo \<and> unat (fu_data_addr upd) = lo + FW_HEADER_LEN
     \<and> lo + FW_HEADER_LEN + unat (fu_max_size upd) \<le> hi \<and> hi < 2 ^ 32
     \<and> unat (fu_bytes_written upd) + unat (fu_page_buf_used upd) \<le> unat (fu_max_size upd)
     \<and> fu_page_buf_used upd < fu_page_buf_size upd \<and> length (fu_page_buf upd) = unat (fu_page_buf_size upd)"

context nor_flash
begin

lemma flush_frame:
  assumes "flush_page P upd f = (r, upd', f')" "unat (fu_data_addr upd) = lo + FW_HEADER_LEN" "lo + FW_HEADER_LEN + unat (fu_max_size upd) \<le> hi" "hi < 2 ^ 32"
    and "unat (fu_bytes_written upd) + unat (fu_page_buf_used upd) \<le> unat (fu_max_size upd)" "x \<notin> touches sector lo hi"
  shows "mem f' x = mem f x" and "r = SYN_OK \<Longrightarrow> upd' = upd\<lparr>fu_bytes_written := fu_bytes_written upd + ucast (fu_page_buf_used upd), fu_page_buf_used := 0\<rparr>"
    and "r \<noteq> SYN_OK \<Longrightarrow> upd' = upd"
proof -
  let ?a = "fu_data_addr upd + fu_bytes_written upd"
  have a: "unat ?a = lo + FW_HEADER_LEN + unat (fu_bytes_written upd)" using assms(2-5) by (subst unat_add_lem [THEN iffD1]) simp_all
  show "upd' = upd\<lparr>fu_bytes_written := fu_bytes_written upd + ucast (fu_page_buf_used upd), fu_page_buf_used := 0\<rparr>" if "r = SYN_OK"
    using assms(1) that by (auto simp: flush_page_def Let_def split: if_splits prod.splits)
  show "upd' = upd" if "r \<noteq> SYN_OK"
    using assms(1) that by (auto simp: flush_page_def Let_def split: if_splits prod.splits)
  show "mem f' x = mem f x"
  proof (cases "fu_page_buf_used upd = 0")
    case True
    then show ?thesis using assms(1) by (simp add: flush_page_def)
  next
    case False
    then have u: "0 < unat (fu_page_buf_used upd)" by (simp add: unat_gt_0)
    obtain r1 f1 where e: "(if port_sector_size P ?a > 0 \<and> ?a = ?a - ?a mod port_sector_size P ?a \<and> fu_bytes_written upd > 0 then port_erase P (?a - ?a mod port_sector_size P ?a) f else (SYN_OK, f)) = (r1, f1)" by force
    have m1: "mem f1 x = mem f x"
    proof (cases "port_sector_size P ?a > 0 \<and> ?a = ?a - ?a mod port_sector_size P ?a \<and> fu_bytes_written upd > 0")
      case True
      then have "port_erase P ?a f = (r1, f1)" using e by simp
      then show ?thesis using erase_frame [of ?a f r1 f1 lo hi x] a u assms(3-6) by simp
    qed (use e in \<open>simp split: if_splits\<close>)
    show ?thesis
    proof (cases "r1 = SYN_OK")
      case True
      obtain r2 f2 where w: "port_write P ?a (take (unat (fu_page_buf_used upd)) (fu_page_buf upd)) f1 = (r2, f2)" by force
      have "f' = f2" using assms(1) False e True w by (auto simp: flush_page_def Let_def split: if_splits)
      then show ?thesis using write_frame [OF w, of lo hi x] a assms(3-6) m1 by simp
    next
      case False
      then show ?thesis using assms(1) \<open>fu_page_buf_used upd \<noteq> 0\<close> e m1 by (auto simp: flush_page_def Let_def split: if_splits)
    qed
  qed
qed

end

lemma unat_ucast_up: "unat (ucast (w :: u16) :: u32) = unat w"
  by (simp add: unsigned_ucast_eq take_bit_nat_eq_self_iff, rule order_less_trans [OF unsigned_less]) simp

context nor_flash
begin

text \<open>Copying into the page buffer always returns, keeps the update inside its slot, and leaves everything outside it alone.\<close>

lemma copy_ok:
  "upd_ok lo hi upd \<Longrightarrow> unat (fu_bytes_written upd) + unat (fu_page_buf_used upd) + length data \<le> unat (fu_max_size upd)
    \<Longrightarrow> \<exists>r upd' f'. fwupdate_copy P data upd f = Some (r, upd', f') \<and> (\<forall>x. x \<notin> touches sector lo hi \<longrightarrow> mem f' x = mem f x)
      \<and> (r = SYN_OK \<longrightarrow> upd_ok lo hi upd') \<and> (r \<noteq> SYN_OK \<longrightarrow> fu_error upd') \<and> fu_slot_addr upd' = fu_slot_addr upd \<and> fu_max_size upd' = fu_max_size upd"
proof (induction "length data" arbitrary: data upd f rule: less_induct)
  case less
  show ?case
  proof (cases "data = []")
    case True
    then show ?thesis using less.prems by (simp add: fwupdate_copy.simps)
  next
    case ne: False
    let ?u = "unat (fu_page_buf_used upd)" and ?z = "unat (fu_page_buf_size upd)"
    define c where "c = (if length data > ?z - ?u then ?z - ?u else length data)"
    let ?upd = "upd\<lparr>fu_page_buf := copy_into (fu_page_buf upd) ?u (take c data), fu_page_buf_used := fu_page_buf_used upd + of_nat c\<rparr>"
    have o: "?u < ?z" "length (fu_page_buf upd) = ?z" "unat (fu_data_addr upd) = lo + FW_HEADER_LEN" "lo + FW_HEADER_LEN + unat (fu_max_size upd) \<le> hi"
        "hi < 2 ^ 32" "unat (fu_slot_addr upd) = lo"
      using less.prems(1) by (simp_all add: upd_ok_def word_less_nat_alt)
    have c: "?u + c \<le> ?z" "c \<le> length data" "0 < c" using o(1) ne by (auto simp: c_def)
    have "?z < 2 ^ 16" using unsigned_less [of "fu_page_buf_size upd", where 'a = nat] by simp
    then have "unat (of_nat (?u + c) :: u16) = ?u + c" using c(1) by (simp add: unat_of_nat del: of_nat_add)
    then have used: "unat (fu_page_buf_used ?upd) = ?u + c" by simp
    have len: "length (fu_page_buf ?upd) = ?z" using c o(2) by simp
    have room: "unat (fu_bytes_written ?upd) + unat (fu_page_buf_used ?upd) + length (drop c data) \<le> unat (fu_max_size ?upd)"
      using less.prems(2) c(2) used by simp
    have dl: "length (drop c data) < length data" using c(3) ne by simp
    show ?thesis
    proof (cases "?u + c < ?z")
      case True
      have k: "upd_ok lo hi ?upd" using o len used True room by (simp add: upd_ok_def word_less_nat_alt)
      have "fwupdate_copy P data upd f = fwupdate_copy P (drop c data) ?upd f"
        using ne True used by (subst fwupdate_copy.simps) (simp add: Let_def word_le_nat_alt c_def [symmetric])
      then show ?thesis using less.hyps [OF dl k room, of f] by simp
    next
      case False
      then have full: "fu_page_buf_used ?upd \<ge> fu_page_buf_size ?upd" using used by (simp add: word_le_nat_alt)
      obtain r1 upd1 f1 where fl: "flush_page P ?upd f = (r1, upd1, f1)" by (metis prod_cases3)
      have step: "fwupdate_copy P data upd f = (if r1 \<noteq> SYN_OK then Some (r1, upd1\<lparr>fu_error := True\<rparr>, f1) else fwupdate_copy P (drop c data) upd1 f1)"
        using ne full fl by (subst fwupdate_copy.simps) (simp add: Let_def c_def [symmetric])
      have bw: "unat (fu_bytes_written ?upd) + unat (fu_page_buf_used ?upd) \<le> unat (fu_max_size ?upd)" using room by linarith
      have F: "mem f1 x = mem f x" if "x \<notin> touches sector lo hi" for x
        using flush_frame(1) [OF fl _ _ o(5) bw that] o by simp
      show ?thesis
      proof (cases "r1 = SYN_OK")
        case True
        have u1: "upd1 = ?upd\<lparr>fu_bytes_written := fu_bytes_written ?upd + ucast (fu_page_buf_used ?upd), fu_page_buf_used := 0\<rparr>"
          using fl True by (auto simp: flush_page_def Let_def split: if_splits prod.splits)
        have uc: "unat (ucast (fu_page_buf_used ?upd) :: u32) = unat (fu_page_buf_used ?upd)" by (rule unat_ucast_up)
        have "unat (fu_bytes_written ?upd + ucast (fu_page_buf_used ?upd)) = unat (fu_bytes_written ?upd) + unat (fu_page_buf_used ?upd)"
          using bw o(4,5) uc unat_add_lem [of "fu_bytes_written ?upd" "ucast (fu_page_buf_used ?upd)"] by simp
        then have b1: "unat (fu_bytes_written upd1) = unat (fu_bytes_written upd) + (?u + c)" unfolding u1 used by simp
        have k: "upd_ok lo hi upd1" using o len room b1 used unfolding u1 by (simp add: upd_ok_def word_less_nat_alt)
        have rm: "unat (fu_bytes_written upd1) + unat (fu_page_buf_used upd1) + length (drop c data) \<le> unat (fu_max_size upd1)"
          using less.prems(2) c(2) b1 unfolding u1 by simp
        show ?thesis using less.hyps [OF dl k rm, of f1] F step True unfolding u1 by auto
      next
        case False
        have "upd1 = ?upd" using fl False by (auto simp: flush_page_def Let_def split: if_splits prod.splits)
        then show ?thesis using step False F by auto
      qed
    qed
  qed
qed

end

subsection \<open>An update installs its image\<close>

definition fill_page :: "u8 list \<Rightarrow> nat \<Rightarrow> SYN_FwUpdate \<Rightarrow> SYN_FwUpdate" where
  "fill_page data c upd = upd\<lparr>fu_page_buf := copy_into (fu_page_buf upd) (unat (fu_page_buf_used upd)) (take c data),
     fu_page_buf_used := fu_page_buf_used upd + of_nat c\<rparr>"

lemma fill_page_facts:
  assumes "unat (fu_page_buf_used upd) < unat (fu_page_buf_size upd)" "length (fu_page_buf upd) = unat (fu_page_buf_size upd)"
    and "c \<le> unat (fu_page_buf_size upd) - unat (fu_page_buf_used upd)" "c \<le> length data"
  shows "unat (fu_page_buf_used (fill_page data c upd)) = unat (fu_page_buf_used upd) + c"
    "length (fu_page_buf (fill_page data c upd)) = unat (fu_page_buf_size upd)"
    "take (unat (fu_page_buf_used upd) + c) (fu_page_buf (fill_page data c upd)) = take (unat (fu_page_buf_used upd)) (fu_page_buf upd) @ take c data"
proof -
  let ?u = "unat (fu_page_buf_used upd)" and ?z = "unat (fu_page_buf_size upd)"
  have "?z < 2 ^ 16" using unsigned_less [of "fu_page_buf_size upd", where 'a = nat] by simp
  then have "unat (of_nat (?u + c) :: u16) = ?u + c" using assms(1,3) by (simp add: unat_of_nat del: of_nat_add)
  then show "unat (fu_page_buf_used (fill_page data c upd)) = ?u + c" by (simp add: fill_page_def)
  show "length (fu_page_buf (fill_page data c upd)) = ?z" using assms by (simp add: fill_page_def)
  show "take (?u + c) (fu_page_buf (fill_page data c upd)) = take ?u (fu_page_buf upd) @ take c data"
    using assms by (simp add: fill_page_def copy_into_def)
qed

lemma copy_step:
  assumes "data \<noteq> []" "c = (if length data > unat (fu_page_buf_size upd) - unat (fu_page_buf_used upd) then unat (fu_page_buf_size upd) - unat (fu_page_buf_used upd) else length data)"
  shows "fwupdate_copy P data upd f =
    (if fu_page_buf_used (fill_page data c upd) \<ge> fu_page_buf_size upd
     then (case flush_page P (fill_page data c upd) f of
             (st, upd, f) \<Rightarrow> if st \<noteq> SYN_OK then Some (st, upd\<lparr>fu_error := True\<rparr>, f) else fwupdate_copy P (drop c data) upd f)
     else fwupdate_copy P (drop c data) (fill_page data c upd) f)"
  by (subst fwupdate_copy.simps, unfold Let_def assms(2) [symmetric] fill_page_def) (use assms(1) in simp)

text \<open>A slot that begins at a sector and ends before the next one.\<close>

definition one_sector :: "(u32 \<Rightarrow> (nat \<times> nat) option) \<Rightarrow> nat \<Rightarrow> nat \<Rightarrow> bool" where
  "one_sector sector lo n \<longleftrightarrow> (\<forall>a. lo \<le> unat a \<longrightarrow> unat a < lo + n \<longrightarrow> sector a = Some (lo, n)) \<and> n dvd lo \<and> lo + n < 2 ^ 32 \<and> 0 < n"

text \<open>The bytes received so far are in flash or in the page buffer, and the rest of the slot is erased.\<close>

definition upd_img :: "nat \<Rightarrow> nat \<Rightarrow> u8 list \<Rightarrow> flash_mem \<Rightarrow> SYN_FwUpdate \<Rightarrow> bool" where
  "upd_img lo n img m upd \<longleftrightarrow> upd_ok lo (lo + n) upd \<and> \<not> fu_error upd \<and> fu_active upd
     \<and> flash_bytes m (lo + FW_HEADER_LEN) (unat (fu_bytes_written upd)) @ take (unat (fu_page_buf_used upd)) (fu_page_buf upd) = img
     \<and> flash_blank m lo FW_HEADER_LEN \<and> flash_blank m (lo + FW_HEADER_LEN + unat (fu_bytes_written upd)) (n - FW_HEADER_LEN - unat (fu_bytes_written upd))"

context nor_flash
begin

lemma flush_img:
  assumes "one_sector sector lo n" "upd_ok lo (lo + n) (upd\<lparr>fu_page_buf_used := 0\<rparr>)" "length (fu_page_buf upd) = unat (fu_page_buf_size upd)"
    and "unat (fu_bytes_written upd) + unat (fu_page_buf_used upd) \<le> unat (fu_max_size upd)" "fu_page_buf_used upd \<le> fu_page_buf_size upd"
    and img: "flash_bytes (mem f) (lo + FW_HEADER_LEN) (unat (fu_bytes_written upd)) @ take (unat (fu_page_buf_used upd)) (fu_page_buf upd) = img"
    and blank: "flash_blank (mem f) lo FW_HEADER_LEN" "flash_blank (mem f) (lo + FW_HEADER_LEN + unat (fu_bytes_written upd)) (n - FW_HEADER_LEN - unat (fu_bytes_written upd))"
    and "fu_active upd" "\<not> fu_error upd" "flush_page P upd f = (SYN_OK, upd', f')"
  shows "upd_img lo n img (mem f') upd' \<and> unat (fu_bytes_written upd') = unat (fu_bytes_written upd) + unat (fu_page_buf_used upd) \<and> fu_page_buf_used upd' = 0
    \<and> fu_crc_state upd' = fu_crc_state upd \<and> fu_max_size upd' = fu_max_size upd"
proof (cases "fu_page_buf_used upd = 0")
  case True
  then have z: "upd\<lparr>fu_page_buf_used := 0\<rparr> = upd" by simp
  show ?thesis using assms True unfolding z by (simp add: flush_page_def upd_img_def)
next
  case False
  let ?a = "fu_data_addr upd + fu_bytes_written upd" and ?w = "unat (fu_bytes_written upd)" and ?u = "unat (fu_page_buf_used upd)"
  have o: "unat (fu_data_addr upd) = lo + FW_HEADER_LEN" "FW_HEADER_LEN + unat (fu_max_size upd) \<le> n" "lo + n < 2 ^ 32"
    using assms(2) by (simp_all add: upd_ok_def)
  have u: "0 < ?u" using False by (simp add: unat_gt_0)
  have a: "unat ?a = lo + FW_HEADER_LEN + ?w" using o assms(4) unat_add_lem [of "fu_data_addr upd" "fu_bytes_written upd"] by simp
  have s: "sector ?a = Some (lo, n)" using assms(1,4) a o u by (simp add: one_sector_def)
  have ss: "unat (port_sector_size P ?a) = n" by (rule sector_size [OF s])
  have m: "unat (?a mod port_sector_size P ?a) = FW_HEADER_LEN + ?w"
  proof -
    have "n dvd lo" using assms(1) by (simp add: one_sector_def)
    then have "(lo + (FW_HEADER_LEN + ?w)) mod n = (FW_HEADER_LEN + ?w) mod n" by (metis dvd_eq_mod_eq_0 mod_add_left_eq add_0)
    then show ?thesis using assms(4) o u by (simp add: unat_mod ss a add.assoc)
  qed
  have q: "x = x - y \<Longrightarrow> y = 0" for x y :: u32 by simp
  have nz: "?a \<noteq> ?a - ?a mod port_sector_size P ?a"
  proof
    assume "?a = ?a - ?a mod port_sector_size P ?a"
    then have "?a mod port_sector_size P ?a = 0" by (rule q)
    then have "unat (?a mod port_sector_size P ?a) = 0" by (simp only: unsigned_0)
    then show False using m by (simp add: FW_HEADER_LEN_def)
  qed
  obtain r f1 where w: "port_write P ?a (take ?u (fu_page_buf upd)) f = (r, f1)" by force
  have ok: "r = SYN_OK" "f' = f1" "upd' = upd\<lparr>fu_bytes_written := fu_bytes_written upd + ucast (fu_page_buf_used upd), fu_page_buf_used := 0\<rparr>"
    using assms(11) False nz w by (auto simp: flush_page_def Let_def split: if_splits)
  have lu: "length (take ?u (fu_page_buf upd)) = ?u" using assms(3,5) by (simp add: word_le_nat_alt)
  have mem': "mem f' = nor_program (lo + FW_HEADER_LEN + ?w) (take ?u (fu_page_buf upd)) (mem f)"
    using write_ok [of ?a _ f f1] w ok(1,2) a by simp
  have bw: "unat (fu_bytes_written upd') = ?w + ?u"
    using ok(3) assms(4) o unat_add_lem [of "fu_bytes_written upd" "ucast (fu_page_buf_used upd)"] unat_ucast_up [of "fu_page_buf_used upd"] by simp
  have out: "mem f' x = mem f x" if "x < lo + FW_HEADER_LEN + ?w \<or> lo + FW_HEADER_LEN + ?w + ?u \<le> x" for x
    using that lu unfolding mem' by (intro program_outside) simp
  have "flash_bytes (mem f') (lo + FW_HEADER_LEN) (?w + ?u) = flash_bytes (mem f) (lo + FW_HEADER_LEN) ?w @ take ?u (fu_page_buf upd)"
  proof -
    have "flash_bytes (mem f') (lo + FW_HEADER_LEN) ?w = flash_bytes (mem f) (lo + FW_HEADER_LEN) ?w" by (intro flash_bytes_cong out) simp
    moreover have "flash_bytes (mem f') (lo + FW_HEADER_LEN + ?w) ?u = take ?u (fu_page_buf upd)"
    proof (intro nth_equalityI)
      fix i assume i: "i < length (flash_bytes (mem f') (lo + FW_HEADER_LEN + ?w) ?u)"
      then have "mem f (lo + FW_HEADER_LEN + ?w + i) = 0xFF" using blank(2) assms(4) o by (simp add: flash_blank_def)
      then show "flash_bytes (mem f') (lo + FW_HEADER_LEN + ?w) ?u ! i = take ?u (fu_page_buf upd) ! i" using i lu by (simp add: mem' nor_program_def)
    qed (use lu in simp)
    ultimately show ?thesis by (simp add: flash_bytes_append)
  qed
  moreover have "flash_blank (mem f') lo FW_HEADER_LEN" by (rule blank_cong [OF blank(1)]) (rule out, simp)
  moreover have "flash_blank (mem f') (lo + FW_HEADER_LEN + (?w + ?u)) (n - FW_HEADER_LEN - (?w + ?u))"
    unfolding flash_blank_def
  proof
    fix x assume x: "x \<in> {lo + FW_HEADER_LEN + (?w + ?u)..<lo + FW_HEADER_LEN + (?w + ?u) + (n - FW_HEADER_LEN - (?w + ?u))}"
    then have "mem f x = 0xFF" using blank(2) unfolding flash_blank_def by auto
    then show "mem f' x = 0xFF" using x by (subst out) auto
  qed
  moreover have "upd_ok lo (lo + n) upd'" using assms(2-4) bw unfolding ok(3) by (simp add: upd_ok_def)
  ultimately show ?thesis using img assms(9,10) bw by (simp add: upd_img_def) (simp add: ok(3))
qed

end

lemma word_unat_of: "of_nat (unat w) = w" for w :: "'a::len word"
  by simp

lemma crc32_update_append: "syn_crc32_update c (xs @ ys) = syn_crc32_update (syn_crc32_update c xs) ys"
  by (simp add: syn_crc32_update_def)

text \<open>A sequence of writes that all report success.\<close>

fun fw_writes :: "'f flash_port \<Rightarrow> u8 list list \<Rightarrow> SYN_FwUpdate \<Rightarrow> 'f \<Rightarrow> (SYN_FwUpdate \<times> 'f) option" where
  "fw_writes P [] upd f = Some (upd, f)"
| "fw_writes P (d # ds) upd f =
     (case syn_fwupdate_write P upd d f of Some (st, upd, f) \<Rightarrow> if st = SYN_OK then fw_writes P ds upd f else None | None \<Rightarrow> None)"

context nor_flash
begin

lemma copy_img:
  "fwupdate_copy P data upd f = Some (SYN_OK, upd', f') \<Longrightarrow> upd_img lo n img (mem f) upd \<Longrightarrow> one_sector sector lo n
    \<Longrightarrow> unat (fu_bytes_written upd) + unat (fu_page_buf_used upd) + length data \<le> unat (fu_max_size upd)
    \<Longrightarrow> upd_img lo n (img @ data) (mem f') upd' \<and> fu_crc_state upd' = fu_crc_state upd \<and> fu_max_size upd' = fu_max_size upd"
proof (induction "length data" arbitrary: data upd f img rule: less_induct)
  case less
  show ?case
  proof (cases "data = []")
    case True
    then show ?thesis using less.prems by (simp add: fwupdate_copy.simps)
  next
    case ne: False
    let ?u = "unat (fu_page_buf_used upd)" and ?z = "unat (fu_page_buf_size upd)"
    define c where "c = (if length data > ?z - ?u then ?z - ?u else length data)"
    let ?upd = "fill_page data c upd"
    have o: "?u < ?z" "length (fu_page_buf upd) = ?z" "upd_ok lo (lo + n) upd" using less.prems(2) by (simp_all add: upd_img_def upd_ok_def word_less_nat_alt)
    have c: "c \<le> ?z - ?u" "c \<le> length data" "0 < c" using o(1) ne by (auto simp: c_def)
    note F = fill_page_facts [OF o(1,2) c(1,2)] and S = copy_step [OF ne c_def, of P f]
    have same: "fu_bytes_written ?upd = fu_bytes_written upd" "fu_max_size ?upd = fu_max_size upd" "fu_page_buf_size ?upd = fu_page_buf_size upd"
        "fu_active ?upd = fu_active upd" "fu_error ?upd = fu_error upd" "fu_crc_state ?upd = fu_crc_state upd" "fu_data_addr ?upd = fu_data_addr upd" "fu_slot_addr ?upd = fu_slot_addr upd"
      by (simp_all add: fill_page_def)
    have dl: "length (drop c data) < length data" using c(3) ne by simp
    have img: "flash_bytes (mem f) (lo + FW_HEADER_LEN) (unat (fu_bytes_written upd)) @ take (?u + c) (fu_page_buf ?upd) = img @ take c data"
      using less.prems(2) F(3) by (simp add: upd_img_def)
    have all: "(img @ take c data) @ drop c data = img @ data" by simp
    show ?thesis
    proof (cases "?u + c < ?z")
      case True
      have k: "upd_img lo n (img @ take c data) (mem f) ?upd"
        using less.prems(2,4) o(3) F(1,2) True img c(2) same by (simp add: upd_img_def upd_ok_def word_less_nat_alt)
      have "fwupdate_copy P (drop c data) ?upd f = Some (SYN_OK, upd', f')" using S less.prems(1) True F(1) by (simp add: word_le_nat_alt)
      then show ?thesis using less.hyps [OF dl _ k less.prems(3)] less.prems(4) F(1) c(2) same all by simp
    next
      case False
      then have full: "fu_page_buf_used ?upd \<ge> fu_page_buf_size upd" using F(1) by (simp add: word_le_nat_alt)
      obtain r1 u1 f1 where fl: "flush_page P ?upd f = (r1, u1, f1)" by (metis prod_cases3)
      then have ok: "r1 = SYN_OK" "fwupdate_copy P (drop c data) u1 f1 = Some (SYN_OK, upd', f')" using S less.prems(1) full by (auto split: if_splits)
      have k: "upd_img lo n (img @ take c data) (mem f1) u1 \<and> unat (fu_bytes_written u1) = unat (fu_bytes_written ?upd) + unat (fu_page_buf_used ?upd) \<and> fu_page_buf_used u1 = 0
          \<and> fu_crc_state u1 = fu_crc_state ?upd \<and> fu_max_size u1 = fu_max_size ?upd"
      proof (rule flush_img [OF less.prems(3) _ _ _ _ _ _ _ _ _ fl [unfolded ok(1)]])
        show "upd_ok lo (lo + n) (?upd\<lparr>fu_page_buf_used := 0\<rparr>)" using o F(2) same by (simp add: upd_ok_def word_less_nat_alt)
        show "fu_page_buf_used ?upd \<le> fu_page_buf_size ?upd" using F(1) c(1) o(1) same by (simp add: word_le_nat_alt)
      qed (use less.prems(2,4) F(1,2) c(2) same img in \<open>simp_all add: upd_img_def\<close>)
      then have v: "upd_img lo n (img @ take c data) (mem f1) u1" and eq: "unat (fu_bytes_written u1) = unat (fu_bytes_written upd) + (?u + c)" "unat (fu_page_buf_used u1) = 0"
          "fu_crc_state u1 = fu_crc_state upd" "fu_max_size u1 = fu_max_size upd" using F(1) same by simp_all
      have "unat (fu_bytes_written u1) + unat (fu_page_buf_used u1) + length (drop c data) \<le> unat (fu_max_size u1)" using eq less.prems(4) c(2) by simp
      then show ?thesis using less.hyps [OF dl ok(2) v less.prems(3)] eq all by simp
    qed
  qed
qed

lemma write_img:
  assumes "syn_fwupdate_write P upd d f = Some (SYN_OK, upd', f')" "upd_img lo n img (mem f) upd" "one_sector sector lo n" "fu_max_size upd = mx" "unat mx + length d < 2 ^ 32"
    and "fu_crc_state upd = syn_crc32_update 0xFFFFFFFF img"
  shows "upd_img lo n (img @ d) (mem f') upd' \<and> fu_max_size upd' = mx \<and> fu_crc_state upd' = syn_crc32_update 0xFFFFFFFF (img @ d)"
proof (cases "d = []")
  case True
  then show ?thesis using assms by (simp add: syn_fwupdate_write_def upd_img_def)
next
  case False
  have a: "fu_active upd" "\<not> fu_error upd" "upd_ok lo (lo + n) upd" using assms(2) by (simp_all add: upd_img_def)
  let ?s = "unat (fu_bytes_written upd) + unat (fu_page_buf_used upd) + length d"
  let ?u = "upd\<lparr>fu_crc_state := syn_crc32_update (fu_crc_state upd) d\<rparr>"
  have "?s < 2 ^ 32" using a(3) assms(4,5) by (simp add: upd_ok_def)
  then have "unat (of_nat ?s :: u32) = ?s" by (simp add: unat_of_nat del: of_nat_add)
  moreover have "(of_nat ?s :: u32) = fu_bytes_written upd + ucast (fu_page_buf_used upd) + of_nat (length d)" by simp
  moreover have g: "\<not> fu_bytes_written upd + ucast (fu_page_buf_used upd) + of_nat (length d) > fu_max_size upd" "fwupdate_copy P d ?u f = Some (SYN_OK, upd', f')"
    using assms(1) a False by (auto simp: syn_fwupdate_write_def split: if_splits)
  ultimately have r: "?s \<le> unat (fu_max_size upd)" by (simp add: word_le_nat_alt not_less)
  have "upd_img lo n img (mem f) ?u" using assms(2) by (simp add: upd_img_def upd_ok_def)
  then have "upd_img lo n (img @ d) (mem f') upd' \<and> fu_crc_state upd' = fu_crc_state ?u \<and> fu_max_size upd' = fu_max_size ?u"
    by (rule copy_img [OF g(2) _ assms(3)]) (use r in simp)
  then show ?thesis using assms(4,6) by (simp add: crc32_update_append)
qed

lemma writes_img:
  "fw_writes P ds upd f = Some (upd', f') \<Longrightarrow> upd_img lo n img (mem f) upd \<Longrightarrow> one_sector sector lo n \<Longrightarrow> fu_max_size upd = mx
    \<Longrightarrow> \<forall>d\<in>set ds. unat mx + length d < 2 ^ 32 \<Longrightarrow> fu_crc_state upd = syn_crc32_update 0xFFFFFFFF img
    \<Longrightarrow> upd_img lo n (img @ concat ds) (mem f') upd' \<and> fu_max_size upd' = mx \<and> fu_crc_state upd' = syn_crc32_update 0xFFFFFFFF (img @ concat ds)"
proof (induction ds arbitrary: upd f img)
  case (Cons d ds)
  obtain u1 f1 where w: "syn_fwupdate_write P upd d f = Some (SYN_OK, u1, f1)" "fw_writes P ds u1 f1 = Some (upd', f')"
    using Cons.prems(1) by (auto split: option.splits prod.splits if_splits)
  have "upd_img lo n (img @ d) (mem f1) u1 \<and> fu_max_size u1 = mx \<and> fu_crc_state u1 = syn_crc32_update 0xFFFFFFFF (img @ d)"
    by (rule write_img [OF w(1) Cons.prems(2-4) _ Cons.prems(6)]) (use Cons.prems(5) in simp)
  then have i: "upd_img lo n (img @ d) (mem f1) u1" "fu_max_size u1 = mx" "fu_crc_state u1 = syn_crc32_update 0xFFFFFFFF (img @ d)" by simp_all
  show ?case using Cons.IH [OF w(2) i(1) Cons.prems(3) i(2) _ i(3)] Cons.prems(5) by simp
qed simp

lemma begin_img:
  assumes "one_sector sector (unat a) n" "FW_HEADER_LEN + unat mx \<le> n" "length buf = unat sz" "syn_fwupdate_begin P upd a mx buf sz f = (SYN_OK, upd', f')"
  shows "upd_img (unat a) n [] (mem f') upd' \<and> fu_max_size upd' = mx \<and> fu_crc_state upd' = syn_crc32_update 0xFFFFFFFF []"
proof -
  have s: "sector a = Some (unat a, n)" using assms(1) by (simp add: one_sector_def)
  have z: "sz \<noteq> 0" and e: "port_erase P a f = (SYN_OK, f')"
    and u: "upd' = \<lparr>fu_slot_addr = a, fu_data_addr = a + of_nat FW_HEADER_LEN, fu_max_size = mx, fu_bytes_written = 0, fu_crc_state = 0xFFFFFFFF,
      fu_page_buf = buf, fu_page_buf_size = sz, fu_page_buf_used = 0, fu_active = True, fu_error = False\<rparr>"
    using assms(4) by (auto simp: syn_fwupdate_begin_def Let_def split: if_splits prod.splits)
  have m: "mem f' = nor_erase (unat a) n (mem f)" by (rule erase_ok [OF s e])
  have da: "unat (a + of_nat FW_HEADER_LEN) = unat a + FW_HEADER_LEN"
    using unat_add_lem [of a "of_nat FW_HEADER_LEN"] assms(1,2) by (simp add: FW_HEADER_LEN_def one_sector_def)
  have "flash_blank (mem f') (unat a) FW_HEADER_LEN" "flash_blank (mem f') (unat a + FW_HEADER_LEN) (n - FW_HEADER_LEN)"
    unfolding m using assms(2) by (intro blank_erase; simp)+
  then show ?thesis using assms(1-3) z da by (simp add: u upd_img_def upd_ok_def one_sector_def word_gt_0 flash_bytes_def syn_crc32_update_def)
qed

lemma finish_img:
  assumes "one_sector sector lo n" "upd_img lo n img (mem f) upd" "fu_crc_state upd = syn_crc32_update 0xFFFFFFFF img" "syn_fwupdate_finish P upd crc version f = (SYN_OK, upd', f')"
  shows "flash_bytes (mem f') (lo + FW_HEADER_LEN) (length img) = img \<and> crc = syn_crc32 img
    \<and> header_at (mem f') lo = syn_fwimage_seal_header (zero_fw_header\<lparr>fh_magic := SYN_FW_MAGIC, fh_version_code := version,
         fh_image_size := of_nat (length img), fh_image_crc := syn_crc32 img, fh_state := SYN_FW_STATE_NEW\<rparr>)"
proof -
  have o: "upd_ok lo (lo + n) upd" "fu_active upd" "\<not> fu_error upd" using assms(2) by (simp_all add: upd_img_def)
  obtain r1 u1 f1 where fl: "flush_page P upd f = (r1, u1, f1)" by (metis prod_cases3)
  have ok: "r1 = SYN_OK" using assms(4) o(2,3) fl by (auto simp: syn_fwupdate_finish_def split: if_splits prod.splits)
  have "upd_img lo n img (mem f1) u1 \<and> unat (fu_bytes_written u1) = unat (fu_bytes_written upd) + unat (fu_page_buf_used upd) \<and> fu_page_buf_used u1 = 0
      \<and> fu_crc_state u1 = fu_crc_state upd \<and> fu_max_size u1 = fu_max_size upd"
    by (rule flush_img [OF assms(1) _ _ _ _ _ _ _ o(2,3) fl [unfolded ok]]) (use assms(2) in \<open>simp_all add: upd_img_def upd_ok_def word_less_nat_alt word_le_nat_alt\<close>)
  then have k: "upd_img lo n img (mem f1) u1" "fu_page_buf_used u1 = 0" "fu_crc_state u1 = syn_crc32_update 0xFFFFFFFF img" using assms(3) by simp_all
  let ?h = "syn_fwimage_seal_header (zero_fw_header\<lparr>fh_magic := SYN_FW_MAGIC, fh_version_code := version,
      fh_image_size := fu_bytes_written u1, fh_image_crc := syn_crc32_final (fu_crc_state u1), fh_state := SYN_FW_STATE_NEW\<rparr>)"
  have c: "syn_crc32_final (fu_crc_state u1) = syn_crc32 img" using k(3) by (simp add: syn_crc32_def)
  have i: "flash_bytes (mem f1) (lo + FW_HEADER_LEN) (unat (fu_bytes_written u1)) = img" "flash_blank (mem f1) lo FW_HEADER_LEN" "unat (fu_slot_addr u1) = lo"
    using k(1,2) by (simp_all add: upd_img_def upd_ok_def)
  have len: "unat (fu_bytes_written u1) = length img" using i(1) by (metis length_flash_bytes)
  then have bw: "fu_bytes_written u1 = of_nat (length img)" by (metis word_unat_of)
  have w: "port_write P (fu_slot_addr u1) (fw_header_bytes ?h) f1 = (SYN_OK, f')" and crc: "crc = syn_crc32 img"
    using assms(4) o(2,3) fl ok c by (auto simp: syn_fwupdate_finish_def Let_def split: if_splits prod.splits)
  have l: "length (fw_header_bytes ?h) = FW_HEADER_LEN" by (rule fw_header_length) simp
  have m: "mem f' = nor_program lo (fw_header_bytes ?h) (mem f1)" using write_ok [OF w] i(3) by simp
  have "flash_bytes (mem f') (lo + FW_HEADER_LEN) (length img) = flash_bytes (mem f1) (lo + FW_HEADER_LEN) (length img)"
    using l by (intro flash_bytes_cong) (simp add: m program_outside)
  then have "flash_bytes (mem f') (lo + FW_HEADER_LEN) (length img) = img" using i(1) len by simp
  moreover have "flash_bytes (mem f') lo FW_HEADER_LEN = fw_header_bytes ?h"
    using i(2) l by (intro nth_equalityI) (simp_all add: m nor_program_def flash_blank_def)
  then have "header_at (mem f') lo = ?h" unfolding header_at_def by (simp add: fw_header_inverse)
  ultimately show ?thesis using crc c bw by simp
qed

end

text \<open>
  C17: An update that reports success has installed the image: for a slot within one flash sector, after a begin, any sequence of writes, and a
  finish that all report success, the flash holds exactly the bytes written, the checksum given was theirs, and the header is a
  valid one for a new image of that length, checksum and version.
\<close>

theorem fwupdate_installs:
  assumes "one_sector f4_sector (unat a) n" "FW_HEADER_LEN + unat mx \<le> n" "length buf = unat sz" "\<forall>d\<in>set ds. unat mx + length d < 2 ^ 32"
    and "syn_fwupdate_begin stm32f4_port upd a mx buf sz f0 = (SYN_OK, upd1, f1)" "fw_writes stm32f4_port ds upd1 f1 = Some (upd2, f2)"
    and "syn_fwupdate_finish stm32f4_port upd2 crc version f2 = (SYN_OK, upd3, f3)" "hdr = header_at (fl_mem f3) (unat a)"
  shows "flash_bytes (fl_mem f3) (unat a + FW_HEADER_LEN) (length (concat ds)) = concat ds \<and> crc = syn_crc32 (concat ds)
    \<and> syn_fwimage_header_valid hdr \<and> fh_state hdr = SYN_FW_STATE_NEW \<and> fh_version_code hdr = version
    \<and> fh_image_size hdr = of_nat (length (concat ds)) \<and> fh_image_crc hdr = crc"
proof -
  have b: "upd_img (unat a) n [] (fl_mem f1) upd1 \<and> fu_max_size upd1 = mx \<and> fu_crc_state upd1 = syn_crc32_update 0xFFFFFFFF []"
    by (rule f4.begin_img [OF assms(1-3)]) (use assms(5) in simp)
  have w: "upd_img (unat a) n ([] @ concat ds) (fl_mem f2) upd2 \<and> fu_max_size upd2 = mx \<and> fu_crc_state upd2 = syn_crc32_update 0xFFFFFFFF ([] @ concat ds)"
    by (rule f4.writes_img [OF assms(6) _ assms(1) _ assms(4)]) (use b in simp_all)
  have "flash_bytes (fl_mem f3) (unat a + FW_HEADER_LEN) (length (concat ds)) = concat ds \<and> crc = syn_crc32 (concat ds)
    \<and> header_at (fl_mem f3) (unat a) = syn_fwimage_seal_header (zero_fw_header\<lparr>fh_magic := SYN_FW_MAGIC, fh_version_code := version,
         fh_image_size := of_nat (length (concat ds)), fh_image_crc := syn_crc32 (concat ds), fh_state := SYN_FW_STATE_NEW\<rparr>)"
    by (rule f4.finish_img [OF assms(1) _ _ assms(7)]) (use w in simp_all)
  then show ?thesis using assms(8) sealed_valid [of "zero_fw_header\<lparr>fh_magic := SYN_FW_MAGIC, fh_version_code := version,
      fh_image_size := of_nat (length (concat ds)), fh_image_crc := syn_crc32 (concat ds), fh_state := SYN_FW_STATE_NEW\<rparr>"]
    by (simp add: syn_fwimage_seal_header_def)
qed

lemma two_not_le_one: "\<not> (2 :: u16) \<le> 1"
  by (simp add: word_le_nat_alt)

lemma demo_sector: "unat (x :: u32) \<ge> 0x08040000 \<Longrightarrow> unat x < 0x08060000 \<Longrightarrow> f4_sector x = Some (0x08040000, 0x20000) \<and> f4_flash_sector_size x = 0x20000"
  by (simp add: f4_sector_def f4_flash_sector_size_def flash_find_sector_def flash_sectors_def word_le_nat_alt word_less_nat_alt)

lemma demo_one_sector: "one_sector f4_sector (unat (0x08040000 :: u32)) 0x20000"
  using demo_sector by (simp add: one_sector_def)

text \<open>A page flushed into a sector that has room and life left.\<close>

lemma f4_flush_done:
  assumes "0x08040000 \<le> unat (fu_data_addr upd + fu_bytes_written upd)" "unat (fu_data_addr upd + fu_bytes_written upd) < 0x08060000"
    and "(fu_data_addr upd + fu_bytes_written upd) mod 0x20000 \<noteq> 0" "\<not> fl_busy f" "unat (fu_page_buf_used upd) \<le> fl_left f"
  shows "\<exists>f'. flush_page stm32f4_port upd f
      = (SYN_OK, if fu_page_buf_used upd = 0 then upd else upd\<lparr>fu_bytes_written := fu_bytes_written upd + ucast (fu_page_buf_used upd), fu_page_buf_used := 0\<rparr>, f')
    \<and> \<not> fl_busy f' \<and> fl_left f \<le> fl_left f' + unat (fu_page_buf_used upd)"
proof (cases "fu_page_buf_used upd = 0")
  case True
  then show ?thesis using assms(4) by (simp add: flush_page_def)
next
  case False
  let ?a = "fu_data_addr upd + fu_bytes_written upd"
  have q: "x = x - y \<Longrightarrow> y = 0" for x y :: u32 by simp
  have nz: "?a \<noteq> ?a - ?a mod 0x20000" using assms(3) q by metis
  have l: "length (take (unat (fu_page_buf_used upd)) (fu_page_buf upd)) \<le> fl_left f" using assms(5) by simp
  obtain f' where w: "f4_flash_write ?a (take (unat (fu_page_buf_used upd)) (fu_page_buf upd)) f = (SYN_OK, f')" "\<not> fl_busy f'"
      "fl_left f' = fl_left f - length (take (unat (fu_page_buf_used upd)) (fu_page_buf upd))" using f4_write_done [OF assms(4) l] by blast
  have "fl_left f \<le> fl_left f' + unat (fu_page_buf_used upd)" using w(3) by simp
  then show ?thesis using False w(1,2) nz demo_sector [OF assms(1,2)] by (simp add: flush_page_def Let_def)
qed

theorem fwupdate_installs_witness:
  "\<exists>upd1 f1 upd2 f2 upd3 f3. syn_fwupdate_begin stm32f4_port undefined 0x08040000 100 [0, 0] 2 (erased_flash 200000) = (SYN_OK, upd1, f1)
    \<and> fw_writes stm32f4_port [[7, 8, 9]] upd1 f1 = Some (upd2, f2) \<and> syn_fwupdate_finish stm32f4_port upd2 (syn_crc32 [7, 8, 9]) 5 f2 = (SYN_OK, upd3, f3)
    \<and> flash_bytes (fl_mem f3) 0x08040018 3 = [7, 8, 9] \<and> fh_state (header_at (fl_mem f3) 0x08040000) = SYN_FW_STATE_NEW"
proof -
  let ?u1 = "\<lparr>fu_slot_addr = 0x08040000, fu_data_addr = 0x08040018, fu_max_size = 100, fu_bytes_written = 0, fu_crc_state = 0xFFFFFFFF,
      fu_page_buf = [0, 0], fu_page_buf_size = 2, fu_page_buf_used = 0, fu_active = True, fu_error = False\<rparr>"
  obtain f1 where e: "f4_flash_erase 0x08040000 (erased_flash 200000) = (SYN_OK, f1)" "\<not> fl_busy f1" "fl_left f1 = 200000 - 0x20000"
    using f4_erase_done [of "0x08040000" "0x08040000" "0x20000" "erased_flash 200000"] demo_sector [of "0x08040000"] by (auto simp: erased_flash_def)
  have b: "syn_fwupdate_begin stm32f4_port undefined 0x08040000 100 [0, 0] 2 (erased_flash 200000) = (SYN_OK, ?u1, f1)"
    using e(1) by (simp add: syn_fwupdate_begin_def Let_def FW_HEADER_LEN_def)
  let ?c = "syn_crc32_update 0xFFFFFFFF [7, 8, 9]"
  let ?p = "?u1\<lparr>fu_crc_state := ?c, fu_page_buf := [7, 8], fu_page_buf_used := 2\<rparr>"
  obtain f2 where p: "flush_page stm32f4_port ?p f1 = (SYN_OK, ?p\<lparr>fu_bytes_written := 2, fu_page_buf_used := 0\<rparr>, f2)" "\<not> fl_busy f2" "200000 - 0x20000 \<le> fl_left f2 + 2"
    using f4_flush_done [of ?p f1] e by auto
  let ?q = "?u1\<lparr>fu_crc_state := ?c, fu_bytes_written := 2, fu_page_buf := [9, 8], fu_page_buf_used := 1\<rparr>"
  have c: "fwupdate_copy stm32f4_port [7, 8, 9] (?u1\<lparr>fu_crc_state := ?c\<rparr>) f1 = Some (SYN_OK, ?q, f2)"
    using p(1) two_not_le_one by (simp add: fwupdate_copy.simps [of _ "[7, 8, 9]"] fwupdate_copy.simps [of _ "[9]"] fwupdate_copy.simps [of _ "[]"] copy_into_def Let_def)
  have w: "fw_writes stm32f4_port [[7, 8, 9]] ?u1 f1 = Some (?q, f2)" using c by (simp add: syn_fwupdate_write_def)
  obtain f3 where q: "flush_page stm32f4_port ?q f2 = (SYN_OK, ?q\<lparr>fu_bytes_written := 3, fu_page_buf_used := 0\<rparr>, f3)" "\<not> fl_busy f3" "100 \<le> fl_left f3"
    using f4_flush_done [of ?q f2] p(2,3) by auto
  have h: "\<exists>f4. f4_flash_write 0x08040000 (fw_header_bytes (syn_fwimage_seal_header (zero_fw_header\<lparr>fh_magic := SYN_FW_MAGIC, fh_version_code := 5, fh_image_size := 3,
      fh_image_crc := syn_crc32 [7, 8, 9], fh_state := SYN_FW_STATE_NEW\<rparr>))) f3 = (SYN_OK, f4)" (is "\<exists>f4. f4_flash_write _ ?hb f3 = _")
  proof -
    have "length ?hb = FW_HEADER_LEN" by (rule fw_header_length) simp
    then show ?thesis using f4_write_done [of f3 ?hb] q(2,3) by (auto simp: FW_HEADER_LEN_def)
  qed
  have f: "\<exists>u4 f4. syn_fwupdate_finish stm32f4_port ?q (syn_crc32 [7, 8, 9]) 5 f2 = (SYN_OK, u4, f4)"
    using h q(1) by (auto simp: syn_fwupdate_finish_def syn_crc32_def Let_def)
  then obtain u4 f4 where f: "syn_fwupdate_finish stm32f4_port ?q (syn_crc32 [7, 8, 9]) 5 f2 = (SYN_OK, u4, f4)" by blast
  have r: "flash_bytes (fl_mem f4) 0x08040018 (length [7 :: u8, 8, 9]) = [7, 8, 9] \<and> fh_state (header_at (fl_mem f4) 0x08040000) = SYN_FW_STATE_NEW"
    using fwupdate_installs [OF demo_one_sector _ _ _ b w f refl] by (simp add: FW_HEADER_LEN_def)
  have "length [7 :: u8, 8, 9] = 3" by simp
  then show ?thesis using b w f r by metis
qed

subsection \<open>Where an update damages the image\<close>

text \<open>
  The updater erases a further sector only when a page begins exactly at it. The image begins 24 bytes into the slot, so with pages of 256 bytes this never happens:
  the page is programmed over what the sector held before, and the write reports success.
\<close>

theorem fwupdate_skips_erase:
  assumes "unat (fu_data_addr upd + fu_bytes_written upd) mod 256 = 24" "256 dvd unat (f4_flash_sector_size (fu_data_addr upd + fu_bytes_written upd))"
    and "fu_page_buf_used upd \<noteq> 0" "flush_page stm32f4_port upd f = (SYN_OK, upd', f')"
  shows "fl_mem f' = nor_program (unat (fu_data_addr upd + fu_bytes_written upd)) (take (unat (fu_page_buf_used upd)) (fu_page_buf upd)) (fl_mem f)"
proof -
  let ?a = "fu_data_addr upd + fu_bytes_written upd"
  let ?q = "?a mod f4_flash_sector_size ?a"
  have "unat ?q mod 256 = 24" using assms(1,2) by (simp add: unat_mod mod_mod_cancel)
  then have "?q \<noteq> 0" by (metis mod_0 unsigned_0 zero_neq_numeral)
  moreover have "x = x - y \<Longrightarrow> y = 0" for x y :: u32 by simp
  ultimately have "?a \<noteq> ?a - ?q" by metis
  then have "f4_flash_write ?a (take (unat (fu_page_buf_used upd)) (fu_page_buf upd)) f = (SYN_OK, f')"
    using assms(3,4) by (auto simp: flush_page_def Let_def split: if_splits prod.splits)
  then show ?thesis using f4.write_ok [of ?a _ f f'] by simp
qed

end
