(* ===== verification/Syn_Fwdevice.thy ===== *)
theory Syn_Fwdevice
  imports Syn_Fwupdate
begin

text \<open>
  Boot manager, updater and flash together, over restarts and losses of power: a device with a confirmed image in one slot can always start.
\<close>

subsection \<open>Updates, starts and losses of power\<close>

text \<open>
  The device: the boot manager, the updater and the flash. Slot \<open>j\<close> is not the target of updates. Every operation may fail at any
  point, since its flash operations may; a restart loses the updater and reads the headers again.
\<close>

inductive fw_step ::
  "'f flash_port \<Rightarrow> (nat \<Rightarrow> 'f \<Rightarrow> 'f) \<Rightarrow> u32 list \<Rightarrow> nat \<Rightarrow> u32
    \<Rightarrow> SYN_FwBootManager \<times> SYN_FwUpdate \<times> 'f \<Rightarrow> SYN_FwBootManager \<times> SYN_FwUpdate \<times> 'f \<Rightarrow> bool"
  for P cycle addrs j max_size where
  fw_select: "syn_fwboot_select P mgr rollback f = (slot, mgr', f') \<Longrightarrow> fw_step P cycle addrs j max_size (mgr, upd, f) (mgr', upd, f')"
| fw_confirm: "syn_fwboot_confirm P mgr f = (st, mgr', f') \<Longrightarrow> fw_step P cycle addrs j max_size (mgr, upd, f) (mgr', upd, f')"
| fw_refresh: "syn_fwboot_refresh P mgr f = (st, mgr') \<Longrightarrow> fw_step P cycle addrs j max_size (mgr, upd, f) (mgr', upd, f)"
| fw_begin: "length buf = unat sz \<Longrightarrow> syn_fwupdate_begin P upd (addrs ! (1 - j)) max_size buf sz f = (st, upd', f')
    \<Longrightarrow> fw_step P cycle addrs j max_size (mgr, upd, f) (mgr, upd', f')"
| fw_write: "unat max_size + length d < 2 ^ 32 \<Longrightarrow> syn_fwupdate_write P upd d f = Some (st, upd', f')
    \<Longrightarrow> fw_step P cycle addrs j max_size (mgr, upd, f) (mgr, upd', f')"
| fw_finish: "syn_fwupdate_finish P upd crc version f = (st, upd', f') \<Longrightarrow> fw_step P cycle addrs j max_size (mgr, upd, f) (mgr, upd', f')"
| fw_abort: "syn_fwupdate_abort P upd f = (upd', f') \<Longrightarrow> fw_step P cycle addrs j max_size (mgr, upd, f) (mgr, upd', f')"
| fw_restart: "f' = cycle n f \<Longrightarrow> syn_fwboot_init P (addrs ! 0) (addrs ! 1) f' = (st, mgr') \<Longrightarrow> \<not> fu_active upd'
    \<Longrightarrow> fw_step P cycle addrs j max_size (mgr, upd, f) (mgr', upd', f')"

inductive_cases fw_stepE: "fw_step P cycle addrs j max_size s s'"

text \<open>The slots do not share sectors: \<open>prot\<close> is what slot \<open>j\<close> occupies, and the other slot ends before the address space does.\<close>

definition fw_layout :: "(u32 \<Rightarrow> (nat \<times> nat) option) \<Rightarrow> u32 list \<Rightarrow> nat \<Rightarrow> u32 \<Rightarrow> nat set \<Rightarrow> bool" where
  "fw_layout sector addrs j max_size prot \<longleftrightarrow>
     length addrs = 2 \<and> j < 2 \<and> {unat (addrs ! j)..<unat (addrs ! j) + FW_HEADER_LEN} \<subseteq> prot
   \<and> unat (addrs ! (1 - j)) + FW_HEADER_LEN + unat max_size < 2 ^ 32
   \<and> prot \<inter> touches sector (unat (addrs ! (1 - j))) (unat (addrs ! (1 - j)) + FW_HEADER_LEN + unat max_size) = {}"

definition confirmed :: "SYN_FwImageHeader \<Rightarrow> bool" where
  "confirmed h \<longleftrightarrow> syn_fwimage_header_valid h \<and> fh_state h = SYN_FW_STATE_CONFIRMED"

definition mgr_ok :: "u32 list \<Rightarrow> nat \<Rightarrow> SYN_FwBootManager \<Rightarrow> bool" where
  "mgr_ok addrs j mgr \<longleftrightarrow> fm_slot_addr mgr = addrs \<and> length (fm_slot_hdr mgr) = 2 \<and> confirmed (fm_slot_hdr mgr ! j)
     \<and> length (fh_reserved (fm_slot_hdr mgr ! (1 - j))) = 3"

definition upd_inv :: "nat \<Rightarrow> nat \<Rightarrow> u32 \<Rightarrow> SYN_FwUpdate \<Rightarrow> bool" where
  "upd_inv lo hi max_size upd \<longleftrightarrow> (fu_active upd \<longrightarrow> unat (fu_slot_addr upd) = lo \<and> (\<not> fu_error upd \<longrightarrow> upd_ok lo hi upd \<and> fu_max_size upd = max_size))"

definition same_on :: "nat set \<Rightarrow> flash_mem \<Rightarrow> flash_mem \<Rightarrow> bool" where
  "same_on prot m m' \<longleftrightarrow> (\<forall>x\<in>prot. m' x = m x)"

lemma two_slots: "i < 2 \<Longrightarrow> j < 2 \<Longrightarrow> i \<noteq> j \<Longrightarrow> i = 1 - j" for i j :: nat
  by simp

lemma confirmed_not: "confirmed h \<Longrightarrow> fh_state h \<noteq> SYN_FW_STATE_TESTING \<and> fh_state h \<noteq> SYN_FW_STATE_NEW"
  by (simp add: confirmed_def fw_states)

context nor_flash
begin

lemma same_on_header:
  assumes "fw_layout sector addrs j max_size prot" "same_on prot m m'"
  shows "header_at m' (unat (addrs ! j)) = header_at m (unat (addrs ! j))"
proof -
  have "flash_bytes m' (unat (addrs ! j)) FW_HEADER_LEN = flash_bytes m (unat (addrs ! j)) FW_HEADER_LEN"
    using assms unfolding fw_layout_def same_on_def by (intro flash_bytes_cong) force
  then show ?thesis by (simp add: header_at_def)
qed

lemma set_slot_ok:
  assumes "fw_layout sector addrs j max_size prot" "mgr_ok addrs j mgr" "i < 2" "i \<noteq> j" "set_slot_state P i s (mgr, f) = (mgr', f')"
  shows "mgr_ok addrs j mgr' \<and> same_on prot (mem f) (mem f') \<and> fm_slot_hdr mgr' ! j = fm_slot_hdr mgr ! j"
proof -
  have i: "i = 1 - j" using assms(1,3,4) by (intro two_slots) (simp_all add: fw_layout_def)
  obtain r f1 where w: "write_state P (addrs ! i) (fm_slot_hdr mgr ! i) s f = (r, f1)" by force
  have e: "f' = f1" "mgr' = mgr\<lparr>fm_slot_hdr := (fm_slot_hdr mgr)[i := syn_fwimage_seal_header ((fm_slot_hdr mgr ! i)\<lparr>fh_state := s\<rparr>)]\<rparr>"
    using assms(2,5) w by (auto simp: set_slot_state_def mgr_ok_def Let_def)
  let ?lo = "unat (addrs ! (1 - j))"
  have "mem f1 x = mem f x" if "x \<in> prot" for x
    by (rule write_state_frame [OF w, where lo = ?lo and hi = "?lo + FW_HEADER_LEN + unat max_size"]) (use assms(1,2) that i in \<open>auto simp: mgr_ok_def fw_layout_def\<close>)
  then show ?thesis using e assms(1,2,4) i by (auto simp: same_on_def mgr_ok_def fw_layout_def)
qed

lemma rollback_ok:
  assumes "fw_layout sector addrs j max_size prot" "mgr_ok addrs j mgr" "i < 2" "length valid = 2" "valid ! j" "rollback_slot P i (valid, mgr, f) = (valid', mgr', f')"
  shows "mgr_ok addrs j mgr' \<and> same_on prot (mem f) (mem f') \<and> length valid' = 2 \<and> valid' ! j"
proof (cases "valid ! i \<and> fh_state (fm_slot_hdr mgr ! i) = SYN_FW_STATE_TESTING")
  case True
  then have ij: "i \<noteq> j" using assms(2) confirmed_not by (auto simp: mgr_ok_def)
  have s: "set_slot_state P i SYN_FW_STATE_INVALID (mgr, f) = (mgr', f')" "valid' = valid[i := False]" using assms(6) True by (auto simp: rollback_slot_def)
  show ?thesis using set_slot_ok [OF assms(1-3) ij s(1)] s(2) assms(4,5) ij by simp
next
  case False
  then show ?thesis using assms by (auto simp: rollback_slot_def same_on_def)
qed

lemma same_on_trans: "same_on prot m1 m2 \<Longrightarrow> same_on prot m2 m3 \<Longrightarrow> same_on prot m1 m3"
  by (simp add: same_on_def)

text \<open>A selection keeps the confirmed slot and always finds a slot to boot.\<close>

lemma select_ok:
  assumes "fw_layout sector addrs j max_size prot" "mgr_ok addrs j mgr" "syn_fwboot_select P mgr rollback f = (slot, mgr', f')"
  shows "mgr_ok addrs j mgr' \<and> same_on prot (mem f) (mem f') \<and> (slot = 0 \<or> slot = 1)"
proof -
  let ?v = "[syn_fwimage_header_valid (fm_slot_hdr mgr ! 0), syn_fwimage_header_valid (fm_slot_hdr mgr ! 1)]"
  obtain v m1 f1 where r: "(if rollback then fold (rollback_slot P) [0, 1] (?v, mgr, f) else (?v, mgr, f)) = (v, m1, f1)" by (metis prod_cases3)
  have j: "j < 2" using assms(1) by (simp add: fw_layout_def)
  have vj: "?v ! j" using assms(2) j by (cases j) (auto simp: mgr_ok_def confirmed_def less_2_cases_iff)
  have R: "mgr_ok addrs j m1 \<and> same_on prot (mem f) (mem f1) \<and> length v = 2 \<and> v ! j"
  proof (cases rollback)
    case True
    obtain v0 m0 f0 where a: "rollback_slot P 0 (?v, mgr, f) = (v0, m0, f0)" by (metis prod_cases3)
    then have b: "rollback_slot P 1 (v0, m0, f0) = (v, m1, f1)" using r True by simp
    have A: "mgr_ok addrs j m0 \<and> same_on prot (mem f) (mem f0) \<and> length v0 = 2 \<and> v0 ! j" by (rule rollback_ok [OF assms(1,2) _ _ vj a]) simp_all
    then show ?thesis using rollback_ok [OF assms(1) _ _ _ _ b] same_on_trans by (metis one_less_numeral_iff semiring_norm(76))
  next
    case False
    then show ?thesis using r assms(2) vj by (auto simp: same_on_def)
  qed
  have cj: "confirmed (fm_slot_hdr m1 ! j)" using R by (simp add: mgr_ok_def)
  have act: "mgr_ok addrs j (m\<lparr>fm_active_slot := w\<rparr>) = mgr_ok addrs j m" for m w by (simp add: mgr_ok_def)
  note sel = select_unfold [OF r]
  have find: "i < 2 \<and> v ! i \<and> fh_state (fm_slot_hdr m1 ! i) = s" if "slot_in_state v m1 s = Some i" for s i
    using that by (auto simp: slot_in_state_def split: if_splits)
  have two: "(of_nat i :: u8) = 0 \<or> (of_nat i :: u8) = 1" if "i < 2" for i using that by (auto simp: less_2_cases_iff)
  show ?thesis
  proof (cases "slot_in_state v m1 SYN_FW_STATE_TESTING")
    case (Some i)
    then show ?thesis using assms(3) R find [OF Some] two [of i] unfolding sel by (auto simp: act)
  next
    case None
    show ?thesis
    proof (cases "slot_in_state v m1 SYN_FW_STATE_NEW")
      case (Some i)
      obtain m2 f2 where s: "set_slot_state P i SYN_FW_STATE_TESTING (m1, f1) = (m2, f2)" by force
      have i: "i < 2" "i \<noteq> j" using find [OF Some] cj confirmed_not by auto
      have "mgr_ok addrs j m2 \<and> same_on prot (mem f1) (mem f2)" using set_slot_ok [OF assms(1) _ i s] R by simp
      then show ?thesis using assms(3) None Some s R two [OF i(1)] same_on_trans unfolding sel by (auto simp: act)
    next
      case n: None
      have "best_confirmed v m1 = 0 \<or> best_confirmed v m1 = 1"
        using R cj j by (auto simp: best_confirmed_def confirmed_def SYN_FW_SLOT_NONE_def less_2_cases_iff)
      then show ?thesis using assms(3) None n R unfolding sel by (auto simp: act Let_def)
    qed
  qed
qed

lemma confirm_ok:
  assumes "fw_layout sector addrs j max_size prot" "mgr_ok addrs j mgr" "syn_fwboot_confirm P mgr f = (st, mgr', f')"
  shows "mgr_ok addrs j mgr' \<and> same_on prot (mem f) (mem f')"
proof (cases "fm_active_slot mgr \<ge> 2 \<or> fh_state (fm_slot_hdr mgr ! unat (fm_active_slot mgr)) \<noteq> SYN_FW_STATE_TESTING")
  case True
  then show ?thesis using assms(2,3) by (auto simp: syn_fwboot_confirm_def same_on_def Let_def split: if_splits)
next
  case False
  let ?i = "unat (fm_active_slot mgr)"
  have i: "?i < 2" "?i \<noteq> j" using False assms(2) confirmed_not by (auto simp: mgr_ok_def word_le_nat_alt)
  obtain m1 f1 where s: "set_slot_state P ?i SYN_FW_STATE_CONFIRMED (mgr, f) = (m1, f1)" by force
  have "f' = f1" "mgr' = m1 \<or> mgr' = mgr" using assms(3) s False by (auto simp: syn_fwboot_confirm_def set_slot_state_def Let_def split: prod.splits if_splits)
  then show ?thesis using set_slot_ok [OF assms(1,2) i s] assms(2) by auto
qed

lemma upd_inv_flags [simp]: "upd_inv lo hi mx (upd\<lparr>fu_active := False\<rparr>)" "upd_inv lo hi mx (upd\<lparr>fu_active := False, fu_error := True\<rparr>)"
  "upd_inv lo hi mx (upd\<lparr>fu_error := True, fu_active := False\<rparr>)" "unat (fu_slot_addr upd) = lo \<Longrightarrow> upd_inv lo hi mx (upd\<lparr>fu_error := True\<rparr>)"
  by (simp_all add: upd_inv_def)

lemma abort_ok:
  assumes "unat (fu_slot_addr upd) = lo \<or> \<not> fu_active upd" "lo + FW_HEADER_LEN \<le> hi" "syn_fwupdate_abort P upd f = (upd', f')" "x \<notin> touches sector lo hi"
  shows "mem f' x = mem f x \<and> \<not> fu_active upd'"
proof (cases "fu_active upd")
  case False
  then show ?thesis using assms(3) by (simp add: syn_fwupdate_abort_def)
next
  case True
  let ?h = "syn_fwimage_seal_header (zero_fw_header\<lparr>fh_magic := SYN_FW_MAGIC, fh_state := SYN_FW_STATE_INVALID\<rparr>)"
  have a: "unat (fu_slot_addr upd) = lo" "lo < hi" using assms(1,2) True by (auto simp: FW_HEADER_LEN_def)
  obtain r1 f1 where e: "port_erase P (fu_slot_addr upd) f = (r1, f1)" by force
  obtain r2 f2 where w: "port_write P (fu_slot_addr upd) (fw_header_bytes ?h) f1 = (r2, f2)" by force
  have l: "length (fw_header_bytes ?h) = FW_HEADER_LEN" by (rule fw_header_length) simp
  have "mem f2 x = mem f1 x" using write_frame [OF w, of lo hi x] a l assms(2,4) by simp
  moreover have "mem f1 x = mem f x" using erase_frame [OF e, of lo hi x] a assms(4) by simp
  moreover have "f' = f2" "upd' = upd\<lparr>fu_active := False, fu_error := True\<rparr>" using assms(3) True e w by (simp_all add: syn_fwupdate_abort_def Let_def)
  ultimately show ?thesis by simp
qed

lemma begin_ok:
  assumes "upd_inv lo hi mx upd" "unat a = lo" "lo + FW_HEADER_LEN + unat mx \<le> hi" "hi < 2 ^ 32" "length buf = unat sz"
    and "syn_fwupdate_begin P upd a mx buf sz f = (st, upd', f')" "x \<notin> touches sector lo hi"
  shows "mem f' x = mem f x" "upd_inv lo hi mx upd'"
proof -
  obtain r1 f1 where e: "port_erase P a f = (r1, f1)" by force
  have lh: "unat a < hi" using assms(2,3) by (simp add: FW_HEADER_LEN_def)
  have E: "mem f1 x = mem f x" using erase_frame [OF e _ lh assms(7)] assms(2) by simp
  have "unat (a + of_nat FW_HEADER_LEN) = lo + FW_HEADER_LEN"
    using unat_add_lem [of a "of_nat FW_HEADER_LEN"] assms(2-4) by (simp add: FW_HEADER_LEN_def)
  then have u: "upd_ok lo hi \<lparr>fu_slot_addr = a, fu_data_addr = a + of_nat FW_HEADER_LEN, fu_max_size = mx, fu_bytes_written = 0,
      fu_crc_state = 0xFFFFFFFF, fu_page_buf = buf, fu_page_buf_size = sz, fu_page_buf_used = 0, fu_active = True, fu_error = False\<rparr>" if "sz \<noteq> 0"
    using assms(2-5) that by (simp add: upd_ok_def word_gt_0)
  show "mem f' x = mem f x" using assms(6) e E by (auto simp: syn_fwupdate_begin_def Let_def split: if_splits)
  show "upd_inv lo hi mx upd'"
    using assms(1,2,6) e u by (auto simp: syn_fwupdate_begin_def Let_def upd_inv_def split: if_splits)
qed

text \<open>A write always returns.\<close>

lemma write_ok_returns:
  assumes "upd_inv lo hi mx upd" "unat mx + length d < 2 ^ 32"
  shows "\<exists>st upd' f'. syn_fwupdate_write P upd d f = Some (st, upd', f') \<and> (\<forall>x. x \<notin> touches sector lo hi \<longrightarrow> mem f' x = mem f x) \<and> upd_inv lo hi mx upd'"
proof (cases "\<not> fu_active upd \<or> fu_error upd \<or> d = [] \<or> fu_bytes_written upd + ucast (fu_page_buf_used upd) + of_nat (length d) > fu_max_size upd")
  case True
  then show ?thesis using assms(1) by (auto simp: syn_fwupdate_write_def upd_inv_def)
next
  case False
  then have a: "fu_active upd" "\<not> fu_error upd" "upd_ok lo hi upd" "fu_max_size upd = mx" using assms(1) by (simp_all add: upd_inv_def)
  let ?s = "unat (fu_bytes_written upd) + unat (fu_page_buf_used upd) + length d"
  have "?s < 2 ^ 32" using a(3,4) assms(2) by (simp add: upd_ok_def)
  then have "unat (of_nat ?s :: u32) = ?s" by (simp add: unat_of_nat del: of_nat_add)
  moreover have "(of_nat ?s :: u32) = fu_bytes_written upd + ucast (fu_page_buf_used upd) + of_nat (length d)" by simp
  ultimately have r: "?s \<le> unat (fu_max_size upd)" using False by (simp add: word_le_nat_alt not_less)
  let ?u = "upd\<lparr>fu_crc_state := syn_crc32_update (fu_crc_state upd) d\<rparr>"
  have u: "upd_ok lo hi ?u" "unat (fu_bytes_written ?u) + unat (fu_page_buf_used ?u) + length d \<le> unat (fu_max_size ?u)" using a(3) r by (simp_all add: upd_ok_def)
  obtain st upd' f' where c: "fwupdate_copy P d ?u f = Some (st, upd', f')" "\<forall>x. x \<notin> touches sector lo hi \<longrightarrow> mem f' x = mem f x"
      "st = SYN_OK \<longrightarrow> upd_ok lo hi upd'" "st \<noteq> SYN_OK \<longrightarrow> fu_error upd'" "fu_slot_addr upd' = fu_slot_addr upd" "fu_max_size upd' = fu_max_size upd"
    using copy_ok [OF u, of f] by auto
  have "unat (fu_slot_addr upd) = lo" using a(3) by (simp add: upd_ok_def)
  then have "upd_inv lo hi mx upd'" using c a(4) by (auto simp: upd_inv_def)
  then show ?thesis using c(1,2) False by (simp add: syn_fwupdate_write_def)
qed

lemma finish_ok:
  assumes "upd_inv lo hi mx upd" "lo + FW_HEADER_LEN \<le> hi" "syn_fwupdate_finish P upd crc version f = (st, upd', f')" "x \<notin> touches sector lo hi"
  shows "mem f' x = mem f x \<and> upd_inv lo hi mx upd'"
proof (cases "fu_active upd \<and> \<not> fu_error upd")
  case False
  then show ?thesis using assms(1,3) by (auto simp: syn_fwupdate_finish_def)
next
  case True
  then have o: "upd_ok lo hi upd" using assms(1) by (simp add: upd_inv_def)
  obtain r1 u1 f1 where fl: "flush_page P upd f = (r1, u1, f1)" by (metis prod_cases3)
  have F: "mem f1 x = mem f x" using o by (intro flush_frame(1) [OF fl _ _ _ _ assms(4)]) (simp_all add: upd_ok_def)
  have s1: "unat (fu_slot_addr u1) = lo" "fu_active u1" using fl o True by (auto simp: flush_page_def upd_ok_def Let_def split: if_splits prod.splits)
  show ?thesis
  proof (cases "r1 = SYN_OK")
    case False
    then show ?thesis using assms(3) True fl F s1 by (auto simp: syn_fwupdate_finish_def)
  next
    case ok: True
    obtain u2 f2 where ab: "syn_fwupdate_abort P u1 f1 = (u2, f2)" by force
    have A: "mem f2 x = mem f1 x \<and> \<not> fu_active u2" using abort_ok [OF _ assms(2) ab assms(4)] s1 by simp
    let ?h = "syn_fwimage_seal_header (zero_fw_header\<lparr>fh_magic := SYN_FW_MAGIC, fh_version_code := version,
        fh_image_size := fu_bytes_written u1, fh_image_crc := syn_crc32_final (fu_crc_state u1), fh_state := SYN_FW_STATE_NEW\<rparr>)"
    obtain r3 f3 where w: "port_write P (fu_slot_addr u1) (fw_header_bytes ?h) f1 = (r3, f3)" by force
    obtain u4 f4 where ab4: "syn_fwupdate_abort P (u1\<lparr>fu_error := True\<rparr>) f3 = (u4, f4)" by force
    have l: "length (fw_header_bytes ?h) = FW_HEADER_LEN" by (rule fw_header_length) simp
    have W: "mem f3 x = mem f1 x" using write_frame [OF w, of lo hi x] s1 l assms(2,4) by simp
    have A4: "mem f4 x = mem f3 x \<and> \<not> fu_active u4" using abort_ok [OF _ assms(2) ab4 assms(4)] s1 by simp
    consider "upd' = u2" "f' = f2" | "upd' = u4" "f' = f4" | "upd' = u1\<lparr>fu_active := False\<rparr>" "f' = f3"
      using assms(3) True fl ok ab w ab4 by (auto simp: syn_fwupdate_finish_def Let_def split: if_splits)
    then show ?thesis using A A4 W F by cases (simp_all add: upd_inv_def)
  qed
qed

end

text \<open>The invariant of the device: the cached and the stored header of slot \<open>j\<close> are confirmed, its bytes are those of \<open>m0\<close>, and the updater is confined.\<close>

definition fw_inv :: "u32 list \<Rightarrow> nat \<Rightarrow> u32 \<Rightarrow> nat set \<Rightarrow> flash_mem \<Rightarrow> flash_mem \<Rightarrow> SYN_FwBootManager \<Rightarrow> SYN_FwUpdate \<Rightarrow> bool" where
  "fw_inv addrs j mx prot m0 m mgr upd \<longleftrightarrow> mgr_ok addrs j mgr \<and> same_on prot m0 m \<and>
     upd_inv (unat (addrs ! (1 - j))) (unat (addrs ! (1 - j)) + FW_HEADER_LEN + unat mx) mx upd"

context powered_flash
begin

lemma init_mgr_ok:
  assumes "fw_layout sector addrs j mx prot" "same_on prot m0 (mem f)" "confirmed (header_at m0 (unat (addrs ! j)))"
    and "syn_fwboot_init P (addrs ! 0) (addrs ! 1) f = (st, mgr)"
  shows "mgr_ok addrs j mgr"
proof -
  have c: "confirmed (header_at (mem f) (unat (addrs ! j)))" using same_on_header [OF assms(1,2)] assms(3) by simp
  obtain a b where ab: "addrs = [a, b]" using assms(1) by (auto simp: fw_layout_def numeral_2_eq_2 length_Suc_conv)
  have j: "j = 0 \<or> j = 1" using assms(1) by (auto simp: fw_layout_def)
  have m: "mgr = \<lparr>fm_slot_addr = addrs, fm_slot_hdr = [header_at (mem f) (unat a), header_at (mem f) (unat b)], fm_active_slot = SYN_FW_SLOT_NONE, fm_initialized = True\<rparr>"
    using assms(4) by (simp add: syn_fwboot_init_def read_header_eq ab)
  show ?thesis using j c unfolding m by (auto simp: mgr_ok_def ab header_at_def)
qed

lemma refresh_ok:
  assumes "fw_layout sector addrs j mx prot" "same_on prot m0 (mem f)" "confirmed (header_at m0 (unat (addrs ! j)))" "mgr_ok addrs j mgr"
    and "syn_fwboot_refresh P mgr f = (st, mgr')"
  shows "mgr_ok addrs j mgr'"
proof -
  have c: "confirmed (header_at (mem f) (unat (addrs ! j)))" using same_on_header [OF assms(1,2)] assms(3) by simp
  have j: "j = 0 \<or> j = 1" using assms(1) by (auto simp: fw_layout_def)
  have m: "mgr' = mgr\<lparr>fm_slot_hdr := [header_at (mem f) (unat (addrs ! 0)), header_at (mem f) (unat (addrs ! 1))]\<rparr>"
    using assms(4,5) by (auto simp: syn_fwboot_refresh_def read_header_eq mgr_ok_def)
  show ?thesis using j c assms(4) unfolding m by (auto simp: mgr_ok_def header_at_def)
qed

lemma fw_step_inv:
  assumes "fw_layout sector addrs j mx prot" "confirmed (header_at m0 (unat (addrs ! j)))"
    and "fw_step P cycle addrs j mx (mgr, upd, f) (mgr', upd', f')" "fw_inv addrs j mx prot m0 (mem f) mgr upd"
  shows "fw_inv addrs j mx prot m0 (mem f') mgr' upd'"
proof -
  let ?lo = "unat (addrs ! (1 - j))"
  let ?hi = "?lo + FW_HEADER_LEN + unat mx"
  have i: "mgr_ok addrs j mgr" "same_on prot m0 (mem f)" "upd_inv ?lo ?hi mx upd" using assms(4) by (simp_all add: fw_inv_def)
  have hi: "?hi < 2 ^ 32" "?lo + FW_HEADER_LEN \<le> ?hi" using assms(1) by (simp_all add: fw_layout_def)
  have out: "x \<notin> touches sector ?lo ?hi" if "x \<in> prot" for x using assms(1) that by (auto simp: fw_layout_def)
  have so: "same_on prot m0 (mem f')" if "\<And>x. x \<notin> touches sector ?lo ?hi \<Longrightarrow> mem f' x = mem f x" using that out i(2) by (simp add: same_on_def)
  show ?thesis
    using assms(3)
  proof cases
    case (fw_select rollback slot)
    then show ?thesis using select_ok [OF assms(1) i(1)] same_on_trans i by (auto simp: fw_inv_def)
  next
    case (fw_confirm st)
    then show ?thesis using confirm_ok [OF assms(1) i(1)] same_on_trans i by (auto simp: fw_inv_def)
  next
    case (fw_refresh st)
    then show ?thesis using refresh_ok [OF assms(1) i(2) assms(2) i(1)] i by (auto simp: fw_inv_def)
  next
    case (fw_begin buf sz st)
    have b: "mem f' x = mem f x" "upd_inv ?lo ?hi mx upd'" if "x \<notin> touches sector ?lo ?hi" for x
      by (rule begin_ok [OF i(3) refl order_refl hi(1) fw_begin(2,3) that])+
    have u: "upd_inv ?lo ?hi mx upd'"
    proof (cases "\<exists>x. x \<notin> touches sector ?lo ?hi")
      case False
      then have "{unat (addrs ! j)..<unat (addrs ! j) + FW_HEADER_LEN} = {}" using assms(1) unfolding fw_layout_def by blast
      then show ?thesis by (simp add: FW_HEADER_LEN_def)
    qed (use b in blast)
    then show ?thesis using so b(1) i(1) fw_begin(1) by (simp add: fw_inv_def)
  next
    case (fw_write d st)
    obtain st1 u1 f1 where w: "syn_fwupdate_write P upd d f = Some (st1, u1, f1)" "\<forall>x. x \<notin> touches sector ?lo ?hi \<longrightarrow> mem f1 x = mem f x" "upd_inv ?lo ?hi mx u1"
      using write_ok_returns [OF i(3) fw_write(2), of f] by blast
    then show ?thesis using so fw_write i(1) by (simp add: fw_inv_def)
  next
    case (fw_finish crc version st)
    have "mem f' x = mem f x \<and> upd_inv ?lo ?hi mx upd'" if "x \<notin> touches sector ?lo ?hi" for x
      by (rule finish_ok [OF i(3) hi(2) fw_finish(2) that])
    moreover have "unat (addrs ! j) \<notin> touches sector ?lo ?hi" using assms(1) by (intro out) (auto simp: fw_layout_def FW_HEADER_LEN_def)
    ultimately show ?thesis using so i(1) fw_finish(1) by (auto simp: fw_inv_def)
  next
    case fw_abort
    have u: "unat (fu_slot_addr upd) = ?lo \<or> \<not> fu_active upd" using i(3) by (auto simp: upd_inv_def)
    have "mem f' x = mem f x \<and> \<not> fu_active upd'" if "x \<notin> touches sector ?lo ?hi" for x by (rule abort_ok [OF u hi(2) fw_abort(2) that])
    moreover have "unat (addrs ! j) \<notin> touches sector ?lo ?hi" using assms(1) by (intro out) (auto simp: fw_layout_def FW_HEADER_LEN_def)
    ultimately show ?thesis using so i(1) fw_abort(1) by (auto simp: fw_inv_def upd_inv_def)
  next
    case (fw_restart n st)
    have s: "same_on prot m0 (mem f')" using i(2) fw_restart(1) cycle_keeps by simp
    show ?thesis using init_mgr_ok [OF assms(1) s assms(2) fw_restart(2)] s fw_restart(3) by (simp add: fw_inv_def upd_inv_def)
  qed
qed

lemma fw_steps_inv:
  assumes "(fw_step P cycle addrs j mx)\<^sup>*\<^sup>* s s'" "fw_layout sector addrs j mx prot" "confirmed (header_at m0 (unat (addrs ! j)))"
    and "fw_inv addrs j mx prot m0 (mem (snd (snd s))) (fst s) (fst (snd s))"
  shows "fw_inv addrs j mx prot m0 (mem (snd (snd s'))) (fst s') (fst (snd s'))"
  using assms(1,4)
proof (induction rule: rtranclp_induct)
  case (step y z)
  obtain m u f where y: "y = (m, u, f)" by (metis prod_cases3)
  obtain m' u' f' where z: "z = (m', u', f')" by (metis prod_cases3)
  show ?case using fw_step_inv [OF assms(2,3) step.hyps(2) [unfolded y z]] step.IH step.prems by (simp add: y z)
qed simp

end


text \<open>The header of a confirmed image without data, in sector 5 of an otherwise erased flash.\<close>

definition demo_confirmed :: SYN_FwImageHeader where
  "demo_confirmed = syn_fwimage_seal_header (zero_fw_header\<lparr>fh_magic := SYN_FW_MAGIC, fh_state := SYN_FW_STATE_CONFIRMED\<rparr>)"

definition demo_flash :: stm32f4_flash where
  "demo_flash = (erased_flash 1000)\<lparr>fl_mem := nor_program 0x08020000 (fw_header_bytes demo_confirmed) (\<lambda>_. 0xFF)\<rparr>"

lemma demo_header: "header_at (fl_mem demo_flash) 0x08020000 = demo_confirmed" "confirmed demo_confirmed"
proof -
  have l: "length (fw_header_bytes demo_confirmed) = FW_HEADER_LEN" by (rule fw_header_length) (simp add: demo_confirmed_def)
  have "flash_bytes (fl_mem demo_flash) 0x08020000 FW_HEADER_LEN = fw_header_bytes demo_confirmed"
    using l by (intro nth_equalityI) (simp_all add: demo_flash_def nor_program_def)
  then show "header_at (fl_mem demo_flash) 0x08020000 = demo_confirmed" by (simp add: header_at_def fw_header_inverse demo_confirmed_def)
  show "confirmed demo_confirmed" unfolding confirmed_def demo_confirmed_def
    using sealed_valid [of "zero_fw_header\<lparr>fh_magic := SYN_FW_MAGIC, fh_state := SYN_FW_STATE_CONFIRMED\<rparr>"] by (simp add: syn_fwimage_seal_header_def)
qed

lemma demo_layout: "fw_layout f4_sector [0x08020000, 0x08040000] 0 0x1000 {0x08020000..<0x08040000}"
proof -
  have "s = 0x08040000" if "f4_sector a = Some (s, n)" "0x08040000 \<le> unat a" "unat a < 0x08041018" for a s n
    using demo_sector [of a] that by simp
  then show ?thesis by (fastforce simp: fw_layout_def touches_def FW_HEADER_LEN_def)
qed


end
