(* ===== verification/Spec2Isabelle.thy ===== *)
theory Spec2Isabelle
  imports Syn_Ringbuf Syn_Spsc Syn_Mailbox Syn_Workqueue Syn_Sem Syn_Mutex Syn_Tickless Syn_Timer_Wheel Syn_Crc Syn_Cobs Syn_Base64 Syn_Protobuf Syn_Cbor Syn_Watchdog Syn_Ao Syn_Slab Syn_Stream Syn_Sequencer Syn_Pubsub Syn_Isotp Syn_Lz4 Syn_Modbus_Tcp Syn_Pool Syn_Json Syn_Param Syn_Boot Syn_Settings Syn_Fwdevice
begin


text \<open>
  SyntropicOS is a cooperative operating system and middleware library in C for microcontrollers. Its core is under
  \<^verbatim>\<open>src/src/syntropic\<close>: stackless protothreads (\<^verbatim>\<open>pt/\<close>), a priority scheduler for them with delays, event flags,
  mutexes, timers and tickless idle (\<^verbatim>\<open>sched/\<close>, \<^verbatim>\<open>system/\<close>), containers and services shared with interrupt
  handlers (\<^verbatim>\<open>util/\<close>), and codecs and protocols (\<^verbatim>\<open>util/\<close>, \<^verbatim>\<open>proto/\<close>). This library models that core as functions and step
  relations on records and proves what each part promises.

  \<^bold>\<open>Modelling conventions\<close> (\<open>Syn_Prelude\<close>). A struct is a record, a function on \<^verbatim>\<open>T *x\<close> takes the record and returns the updated one with its
  result; \<^verbatim>\<open>uintN_t\<close> is an \<open>N word\<close>, so overflow wraps as in C; a \<^verbatim>\<open>size_t\<close> is a \<open>nat\<close> where it indexes an existing array and a 32-bit word where a
  computation on it can wrap; \<^verbatim>\<open>NULL\<close> is \<open>None\<close>. Status codes are values of \<open>SYN_Status\<close>. Callbacks, task functions, guards and the clock are
  parameters; a theorem that needs them to be well behaved says so in its hypotheses. Loops over arrays are structural recursions;
  loops that may not end (\<open>workqueue_loop\<close>, \<open>tw_walk\<close>, \<open>syn_ao_pt_run\<close>, \<open>publish_loop\<close>, \<open>fwupdate_copy\<close>, \<open>parse_members\<close>) are partial functions with
  value \<open>None\<close> where they do not return, and their theorems prove that they return. No other definition uses fuel: the scheduler's and the sequencer's
  loops carry the attempt counter of the code, \<open>cbor_skip_loop\<close> is bounded by the depth limit and the input.
  A critical section, or a region where the code disables interrupts, is one atomic operation.

  \<^bold>\<open>Containers.\<close> \<open>Syn_Fifo\<close> holds the circular-index arithmetic and the locale \<open>bounded_fifo\<close>, the contract of a bounded queue, with its consequence that any
  interleaving of insertions and removals loses, duplicates and reorders nothing. It is interpreted for the byte ring buffer (\<open>Syn_Ringbuf\<close>,
  \<^verbatim>\<open>util/syn_ringbuf.c\<close>), the SPSC queue (\<open>Syn_Spsc\<close>, \<^verbatim>\<open>util/syn_spsc_queue.c\<close>) and the mailbox (\<open>Syn_Mailbox\<close>, \<^verbatim>\<open>sched/syn_mailbox.h\<close>). \<open>Syn_Spsc\<close> also splits
  push and pop into their loads, copies and stores (\<open>spsc_step\<close>) and proves the queue correct for every interleaving. \<open>Syn_Workqueue\<close>
  (\<^verbatim>\<open>sched/syn_workqueue.c\<close>) runs each deferred item once, in order. \<open>Syn_Stream\<close> (\<^verbatim>\<open>util/syn_stream.c\<close>), a client of the ring buffer, never delivers a damaged
  frame. \<open>Syn_Slab\<close> (\<^verbatim>\<open>util/syn_slab.c\<close>), whose free lists live in the free blocks, meets the locale \<open>block_allocator\<close>: grants are fresh and
  disjoint whatever clients write into their blocks. \<open>Syn_Pool\<close> (\<^verbatim>\<open>util/syn_pool.h\<close>) meets it too, with exact counters.

  \<^bold>\<open>Kernel.\<close> \<open>Syn_Event_Flags\<close>, \<open>Syn_Task\<close> (descriptors, task control, the protothread macros that touch a
  descriptor) and \<open>Syn_Sched\<close> (\<^verbatim>\<open>sched/syn_sched.c\<close>): the scan selects the first eligible task by priority and round-robin distance; the
  tick terminates with the states it documents; a ready task is not starved by waiting tasks of higher priority; delays and event blocks end exactly when they should.
  \<open>Syn_Sem\<close>, \<open>Syn_Mutex\<close> (refinement of an ideal recursive lock, priority inheritance), \<open>Syn_Timer\<close> and \<open>Syn_Timer_Wheel\<close> (linked
  buckets in a pointer store; timers fire at the tick requested), \<open>Syn_Tickless\<close> (the wake-up computed never lies after a deadline),
  \<open>Syn_Errlog\<close> and its client \<open>Syn_Watchdog\<close>, \<open>Syn_Sequencer\<close>.

  \<^bold>\<open>Event-driven services.\<close> \<open>Syn_Fsm\<close> (\<^verbatim>\<open>util/syn_fsm.c\<close>), and \<open>Syn_Ao\<close> (\<^verbatim>\<open>sched/syn_ao.c\<close>), which composes
  scheduler, mailbox and state machine: interleaved with interrupt handlers that post, no event is lost and no wake-up missed. \<open>Syn_Pubsub\<close>
  (\<^verbatim>\<open>util/syn_pubsub.c\<close>): a publication reaches every subscriber once although handlers may cancel their subscription.

  \<^bold>\<open>Codecs and protocols.\<close> \<open>Syn_Crc\<close> (table and bitwise builds agree), \<open>Syn_Cobs\<close> (in memory, in place and streaming), \<open>Syn_Base64\<close>, \<open>Syn_Codec\<close> (the
  locale \<open>prefix_codec\<close> of self-delimiting encodings), \<open>Syn_Protobuf\<close> (two interpretations of it) and \<open>Syn_Cbor\<close>: round trips, exact error
  conditions, and decoders that stay inside any input.
  \<open>Syn_Pack\<close> (\<^verbatim>\<open>util/syn_pack.h\<close>) interprets the locale \<open>fixed_field\<close> for its six integer layouts. \<open>Syn_Modbus\<close> (\<^verbatim>\<open>proto/syn_modbus.c\<close>): no input makes the slave
  write outside its memory or send a malformed frame. \<open>Syn_Modbus_Master\<close> (\<^verbatim>\<open>proto/syn_modbus_master.c\<close>): master and slave together refine an abstract register device
  (\<open>serve\<close>); the query queue is another \<open>bounded_fifo\<close>. \<open>Syn_Modbus_Tcp\<close> (\<^verbatim>\<open>proto/syn_modbus_tcp.c\<close>): the same device over TCP.
  \<open>Syn_Json_Write\<close>, \<open>Syn_Json_Read\<close> and \<open>Syn_Json\<close> (\<^verbatim>\<open>util/syn_json_write.c\<close>, \<^verbatim>\<open>util/syn_json_read.c\<close>): a document is written whole or refused, the reader returns and stays inside
  any input, and what was written is found under its keys.
  \<open>Syn_Lz4\<close> (\<^verbatim>\<open>util/syn_lz4.c\<close>): decompression inverts compression, which always fits the documented bound.
  \<open>Syn_Isotp\<close> (\<^verbatim>\<open>proto/syn_isotp.c\<close>, classic CAN build): two links that exchange their frames transfer a message whole under
  every flow-control setting, and no frame makes a link write outside its buffers.

  \<^bold>\<open>Storage and firmware.\<close> \<open>Syn_Flash\<close> states what the flash port promises as the locale \<open>nor_flash\<close> (programming only clears bits, an operation that fails has
  done a part of its work) and \<open>powered_flash\<close> (power cycles keep the contents), and interprets both for the driver of \<^verbatim>\<open>src/src/port/stm32f4/port_stm32f4.c\<close> on a model of
  the flash controller; the field \<open>fl_left\<close> counts the bytes that can still change before the supply fails, so that a theorem for every value covers every moment of failure.
  \<open>Syn_Param\<close> (\<^verbatim>\<open>storage/syn_param.c\<close>): an interrupted save leaves the new value or the old one, and a save with power lasts. Its clients are \<open>Syn_Boot\<close>
  (\<^verbatim>\<open>system/syn_boot.c\<close>, safe mode exactly after the threshold of unhealthy starts) and \<open>Syn_Settings\<close> (\<^verbatim>\<open>storage/syn_settings.c\<close>, without the exchange with a file system).
  \<open>Syn_Fwboot\<close> (\<^verbatim>\<open>system/syn_fwimage.h\<close>, \<^verbatim>\<open>system/syn_fwboot.c\<close>), \<open>Syn_Fwupdate\<close> (\<^verbatim>\<open>system/syn_fwupdate.c\<close>, default build: no HMAC, signature or decryption) and their composition
  \<open>Syn_Fwdevice\<close>: an update that reports success installed its image, and a device with a confirmed image can always start.

  \<^bold>\<open>Departures found.\<close> Where the code does not do what it documents, a lemma states what it does: the CRC-8 table row, the mailbox capacity, \<^verbatim>\<open>PT_DEFER\<close> starvation,
  \<^verbatim>\<open>PT_SEM_BLOCK\<close> without a wake-up, the timer target \<^verbatim>\<open>0xFFFFFFFF\<close>, nested mutexes and priority boosts, CBOR tags, double frees and size overflow in the slab allocator, flushed
  frames in the stream, a publication that does not return, a stop that is lost in the sequencer. ISO-TP messages of more than 4095 bytes are announced with a wrong
  length. LZ4 blocks may end with a match. In Modbus, file reads overflow a
  local array, object 255 is misread, coil requests are never sent, stale request ticks time out, a bad query blocks the queue, and TCP answers are dropped or truncated. A parameter slot left dirty by an interrupted save is not erased, a store of
  one sector loses its value, settings with equal checksums are not saved, imported settings never are; a state change of a firmware image erases the image's first sector, and its
  later sectors are not erased before they are written. The JSON reader rejects white space after a number.

  \<^bold>\<open>Not modelled.\<close> Hardware drivers, ports and stubs but for the flash section of the STM32F4 port (device effects the sources do not define; what the kernel needs of them is a parameter), the network
  stack and the other protocols of \<^verbatim>\<open>proto/\<close>, cryptography, the WebAssembly machine, display, user interface, audio, DSP, motor control and the other
  floating-point numerics, Bluetooth, file systems, network updates, fault and power control, input and output devices, logging text and the command line.
\<close>

end
